(* ===== verification/Prelude.thy ===== *)
theory Prelude
  imports Complex_Main "HOL-Library.Sublist" "HOL-Library.Char_ord" "HOL-Library.List_Lexorder"
    "HOL-Library.Product_Lexorder"
begin

text \<open>
  The shared vocabulary of the development: Python exceptions as values of one datatype,
  results as \<open>exn + 'a\<close>, the sequencing combinators every operation uses, and the few
  pieces of the Python standard library the modelled code relies on (insertion-ordered
  deduplication, bounded history slices, string splitting, \<open>str.replace\<close> and
  \<open>str.count\<close>, ASCII case folding).  Strings are character lists, dictionaries whose
  iteration order matters are association lists with distinct keys, and floating-point clock
  values and amounts are idealised as real numbers (no rounding).
\<close>

named_theorems monad_simps "rewriting of bindR and foldR"
named_theorems step_defs "definitions of single operations"
named_theorems inv_intros "preservation lemmas of invariants"

subsection \<open>Exceptions and results\<close>

datatype exn =
    ValueError string
  | KeyError string
  | AttributeError string
  | TypeErr string
  | PatchError string string
  | TaskDAGError string
  | LeaseConflictError string
  | CoordinationError string string
  | ContextBlocked string
  | CancelledError string
  | StopIter
  | IndexErr
  | OSErr string
  | TimeoutErr string
  | BudgetExceeded string
  | CircuitOpen

type_synonym 'a res = "exn + 'a"

abbreviation ok :: "'a \<Rightarrow> 'a res" where
  "ok \<equiv> Inr"

abbreviation raise :: "exn \<Rightarrow> 'a res" where
  "raise \<equiv> Inl"

fun bindR :: "'a res \<Rightarrow> ('a \<Rightarrow> 'b res) \<Rightarrow> 'b res" where
  "bindR (Inl e) f = Inl e"
| "bindR (Inr x) f = f x"

definition guardR :: "bool \<Rightarrow> exn \<Rightarrow> unit res" where
  "guardR c e = (if c then ok () else raise e)"

fun foldR :: "('a \<Rightarrow> 's \<Rightarrow> 's res) \<Rightarrow> 'a list \<Rightarrow> 's \<Rightarrow> 's res" where
  "foldR f [] s = ok s"
| "foldR f (x # xs) s = bindR (f x s) (foldR f xs)"

fun is_ok :: "'a res \<Rightarrow> bool" where
  "is_ok (Inl e) = False"
| "is_ok (Inr x) = True"

lemma bindR_ok_iff [monad_simps]: "bindR m f = Inr y \<longleftrightarrow> (\<exists>x. m = Inr x \<and> f x = Inr y)"
  by (cases m) auto

lemma bindR_err_iff [monad_simps]:
  "bindR m f = Inl e \<longleftrightarrow> m = Inl e \<or> (\<exists>x. m = Inr x \<and> f x = Inl e)"
  by (cases m) auto

lemma bindR_cong [fundef_cong]:
  "m = m' \<Longrightarrow> (\<And>x. m' = Inr x \<Longrightarrow> f x = f' x) \<Longrightarrow> bindR m f = bindR m' f'"
  by (cases m') auto

lemma guardR_ok_iff [monad_simps, simp]: "guardR c e = Inr u \<longleftrightarrow> c"
  by (cases u) (simp add: guardR_def)

lemma guardR_err_iff [monad_simps, simp]: "guardR c e = Inl e' \<longleftrightarrow> \<not> c \<and> e' = e"
  by (auto simp: guardR_def)

lemma bindR_guardR_ok [monad_simps, simp]:
  "bindR (guardR c e) f = Inr y \<longleftrightarrow> c \<and> f () = Inr y"
  by (simp add: guardR_def)

lemma is_ok_iff [monad_simps]: "is_ok m \<longleftrightarrow> (\<exists>x. m = Inr x)"
  by (cases m) auto

lemma foldR_append [monad_simps]:
  "foldR f (xs @ ys) s = bindR (foldR f xs s) (foldR f ys)"
proof (induction xs arbitrary: s)
  case (Cons x xs)
  then show ?case by (cases "f x s") auto
qed simp

text \<open>The loop rule: an invariant kept by every successful round holds of the result.\<close>

lemma foldR_invariant:
  assumes "foldR f xs s = Inr t" "I s"
    and "\<And>x u v. x \<in> set xs \<Longrightarrow> I u \<Longrightarrow> f x u = Inr v \<Longrightarrow> I v"
  shows "I t"
  using assms
proof (induction xs arbitrary: s)
  case (Cons x xs)
  from Cons.prems(1) obtain u where u: "f x s = Inr u" "foldR f xs u = Inr t"
    by (auto simp: monad_simps)
  have "I u" using Cons.prems(2,3) u(1) by auto
  then show ?case using Cons.IH[OF u(2)] Cons.prems(3) by auto
qed simp

text \<open>A loop of checks succeeds exactly when every check does.\<close>

lemma foldR_unit_ok_iff:
  "foldR (\<lambda>x (_::unit). f x) xs u = Inr v \<longleftrightarrow> (\<forall>x \<in> set xs. f x = Inr ())"
  by (induction xs arbitrary: u v) (auto simp: monad_simps)

text \<open>A step of a store: a failing transaction leaves the state alone.\<close>

definition keep_on_error :: "('a \<times> 's) res \<Rightarrow> 's \<Rightarrow> 's" where
  "keep_on_error m st = (case m of Inr (_, st') \<Rightarrow> st' | Inl e \<Rightarrow> st)"

lemma keep_on_error_simps [simp]:
  "keep_on_error (Inl e) st = st" "keep_on_error (Inr (x, st')) st = st'"
  by (simp_all add: keep_on_error_def)

text \<open>Statements over an object: a raise keeps the writes made before it.\<close>

type_synonym ('s, 'a) proc = "'s \<Rightarrow> 'a res \<times> 's"

definition bindS :: "('s, 'a) proc \<Rightarrow> ('a \<Rightarrow> ('s, 'b) proc) \<Rightarrow> ('s, 'b) proc" where
  "bindS m f s = (case m s of (Inl e, s') \<Rightarrow> (Inl e, s') | (Inr x, s') \<Rightarrow> f x s')"

definition returnS :: "'a \<Rightarrow> ('s, 'a) proc" where
  "returnS x s = (Inr x, s)"

definition raiseS :: "exn \<Rightarrow> ('s, 'a) proc" where
  "raiseS e s = (Inl e, s)"

fun mapS :: "('a \<Rightarrow> ('s, 'b) proc) \<Rightarrow> 'a list \<Rightarrow> ('s, 'b list) proc" where
  "mapS f [] = returnS []"
| "mapS f (x # xs) = bindS (f x) (\<lambda>y. bindS (mapS f xs) (\<lambda>ys. returnS (y # ys)))"

lemma bindS_ok_iff: "bindS m f s = (Inr y, t) \<longleftrightarrow> (\<exists>x s'. m s = (Inr x, s') \<and> f x s' = (Inr y, t))"
  by (auto simp: bindS_def split: prod.splits sum.splits)

lemma returnS_iff [simp]: "returnS x s = (r, t) \<longleftrightarrow> r = Inr x \<and> t = s"
  by (auto simp: returnS_def)

lemma raiseS_iff [simp]: "raiseS e s = (r, t) \<longleftrightarrow> r = Inl e \<and> t = s"
  by (auto simp: raiseS_def)

subsection \<open>Lists as Python uses them\<close>

text \<open>\<open>list(dict.fromkeys(xs))\<close>: the first occurrence of every element, in order.\<close>

fun dedup_acc :: "'a list \<Rightarrow> 'a list \<Rightarrow> 'a list" where
  "dedup_acc seen [] = seen"
| "dedup_acc seen (x # xs) = dedup_acc (if x \<in> set seen then seen else seen @ [x]) xs"

definition dedup :: "'a list \<Rightarrow> 'a list" where
  "dedup xs = dedup_acc [] xs"

lemma set_dedup_acc: "set (dedup_acc seen xs) = set seen \<union> set xs"
  by (induction seen xs rule: dedup_acc.induct) auto

lemma distinct_dedup_acc: "distinct seen \<Longrightarrow> distinct (dedup_acc seen xs)"
  by (induction seen xs rule: dedup_acc.induct) auto

lemma set_dedup [simp]: "set (dedup xs) = set xs"
  by (simp add: dedup_def set_dedup_acc)

lemma distinct_dedup [simp]: "distinct (dedup xs)"
  by (simp add: dedup_def distinct_dedup_acc)

lemma dedup_acc_id:
  "distinct xs \<Longrightarrow> set seen \<inter> set xs = {} \<Longrightarrow> dedup_acc seen xs = seen @ xs"
  by (induction seen xs rule: dedup_acc.induct) auto

lemma dedup_id [simp]: "distinct xs \<Longrightarrow> dedup xs = xs"
  by (simp add: dedup_def dedup_acc_id)

text \<open>\<open>xs[-n:]\<close> for positive \<open>n\<close>: at most the last \<open>n\<close> elements.\<close>

definition keep_last :: "nat \<Rightarrow> 'a list \<Rightarrow> 'a list" where
  "keep_last n xs = drop (length xs - n) xs"

lemma length_keep_last [simp]: "length (keep_last n xs) = min n (length xs)"
  by (simp add: keep_last_def)

lemma set_keep_last: "set (keep_last n xs) \<subseteq> set xs"
  by (simp add: keep_last_def set_drop_subset)

lemma keep_last_append1: "0 < n \<Longrightarrow> \<exists>ys. keep_last n (xs @ [x]) = ys @ [x] \<and> set ys \<subseteq> set xs"
proof -
  assume n: "0 < n"
  have "keep_last n (xs @ [x]) = drop (Suc (length xs) - n) xs @ [x]"
    using n by (auto simp: keep_last_def)
  then show ?thesis using set_drop_subset by fastforce
qed

lemma last_keep_last: "0 < n \<Longrightarrow> xs \<noteq> [] \<Longrightarrow> last (keep_last n xs) = last xs"
  by (auto simp: keep_last_def last_drop)

subsection \<open>Association lists (dictionaries with insertion order)\<close>

type_synonym ('k, 'v) alist = "('k \<times> 'v) list"

fun al_put :: "'k \<Rightarrow> 'v \<Rightarrow> ('k, 'v) alist \<Rightarrow> ('k, 'v) alist" where
  "al_put k v [] = [(k, v)]"
| "al_put k v ((k', v') # m) = (if k = k' then (k, v) # m else (k', v') # al_put k v m)"

definition al_del :: "'k \<Rightarrow> ('k, 'v) alist \<Rightarrow> ('k, 'v) alist" where
  "al_del k m = filter (\<lambda>kv. fst kv \<noteq> k) m"

abbreviation al_get :: "('k, 'v) alist \<Rightarrow> 'k \<Rightarrow> 'v option" where
  "al_get \<equiv> map_of"

definition al_keys :: "('k, 'v) alist \<Rightarrow> 'k list" where
  "al_keys m = map fst m"

lemma al_get_put [simp]: "al_get (al_put k v m) = (al_get m)(k \<mapsto> v)"
  by (induction k v m rule: al_put.induct) (auto simp: fun_eq_iff)

lemma al_get_del [simp]: "al_get (al_del k m) k' = (if k' = k then None else al_get m k')"
  by (induction m) (auto simp: al_del_def)

lemma set_al_keys_put [simp]: "set (al_keys (al_put k v m)) = insert k (set (al_keys m))"
  by (induction k v m rule: al_put.induct) (auto simp: al_keys_def)

lemma al_keys_put_distinct [simp]:
  "distinct (al_keys m) \<Longrightarrow> distinct (al_keys (al_put k v m))"
proof (induction k v m rule: al_put.induct)
  case (2 k v k' v' m)
  have "set (map fst (al_put k v m)) = insert k (set (map fst m))"
    using set_al_keys_put[of k v m] by (simp add: al_keys_def)
  with 2 show ?case by (auto simp: al_keys_def)
qed (simp add: al_keys_def)

lemma al_keys_del_distinct [simp]: "distinct (al_keys m) \<Longrightarrow> distinct (al_keys (al_del k m))"
  by (simp add: al_keys_def al_del_def distinct_map_filter)

lemma al_get_Some_key: "al_get m k = Some v \<Longrightarrow> k \<in> set (al_keys m)"
  by (induction m) (auto simp: al_keys_def split: if_splits)

lemma al_get_None_key: "al_get m k = None \<longleftrightarrow> k \<notin> set (al_keys m)"
  by (simp add: al_keys_def map_of_eq_None_iff image_iff)

lemma al_put_fresh: "k \<notin> set (al_keys m) \<Longrightarrow> al_put k v m = m @ [(k, v)]"
  by (induction k v m rule: al_put.induct) (auto simp: al_keys_def)

lemma al_keys_put_old: "k \<in> set (al_keys m) \<Longrightarrow> al_keys (al_put k v m) = al_keys m"
  by (induction k v m rule: al_put.induct) (auto simp: al_keys_def)

subsection \<open>Strings\<close>

text \<open>ASCII lower case stands for \<open>str.casefold\<close>; paths are taken to be ASCII.\<close>

definition lower_char :: "char \<Rightarrow> char" where
  "lower_char c =
     (if 65 \<le> (of_char c :: nat) \<and> (of_char c :: nat) \<le> 90
      then char_of ((of_char c :: nat) + 32) else c)"

definition casefold :: "string \<Rightarrow> string" where
  "casefold s = map lower_char s"

definition starts_with :: "string \<Rightarrow> string \<Rightarrow> bool" where
  "starts_with s p = prefix p s"

definition ends_with :: "string \<Rightarrow> string \<Rightarrow> bool" where
  "ends_with s p = suffix p s"

text \<open>\<open>s.split(sep)\<close> for a one-character separator.\<close>

fun split_on :: "'a \<Rightarrow> 'a list \<Rightarrow> 'a list list" where
  "split_on sep [] = [[]]"
| "split_on sep (c # cs) =
     (if c = sep then [] # split_on sep cs
      else (case split_on sep cs of [] \<Rightarrow> [[c]] | w # ws \<Rightarrow> (c # w) # ws))"

fun join_with :: "'a list \<Rightarrow> 'a list list \<Rightarrow> 'a list" where
  "join_with sep [] = []"
| "join_with sep [w] = w"
| "join_with sep (w # v # ws) = w @ sep @ join_with sep (v # ws)"

lemma split_on_ne [simp]: "split_on sep cs \<noteq> []"
  by (induction sep cs rule: split_on.induct) (auto split: list.splits)

lemma join_split_on: "join_with [sep] (split_on sep cs) = cs"
proof (induction sep cs rule: split_on.induct)
  case (2 sep c cs)
  obtain w ws where w: "split_on sep cs = w # ws"
    by (cases "split_on sep cs") auto
  show ?case using 2 w by (cases ws) auto
qed simp

lemma split_on_no_sep: "w \<in> set (split_on sep cs) \<Longrightarrow> sep \<notin> set w"
proof (induction sep cs arbitrary: w rule: split_on.induct)
  case (2 sep c cs)
  then show ?case by (auto split: if_splits list.splits)
qed simp

lemma split_on_single: "sep \<notin> set w \<Longrightarrow> split_on sep w = [w]"
  by (induction w) auto

lemma split_on_append: "sep \<notin> set w \<Longrightarrow> split_on sep (w @ sep # cs) = w # split_on sep cs"
  by (induction w) auto

lemma split_on_join:
  "ws \<noteq> [] \<Longrightarrow> \<forall>w \<in> set ws. sep \<notin> set w \<Longrightarrow> split_on sep (join_with [sep] ws) = ws"
  by (induction "[sep]" ws rule: join_with.induct)
     (auto simp: split_on_single split_on_append)

text \<open>\<open>s.replace("\r\n", "\n")\<close> and \<open>s.replace("\n", newline)\<close>.\<close>

abbreviation CR :: char where "CR \<equiv> CHR 0x0D"
abbreviation LF :: char where "LF \<equiv> CHR 0x0A"
abbreviation TAB :: char where "TAB \<equiv> CHR 0x09"
abbreviation NUL :: char where "NUL \<equiv> CHR 0x00"

fun crlf_to_lf :: "string \<Rightarrow> string" where
  "crlf_to_lf [] = []"
| "crlf_to_lf [c] = [c]"
| "crlf_to_lf (c # d # cs) =
     (if c = CR \<and> d = LF then LF # crlf_to_lf cs else c # crlf_to_lf (d # cs))"

fun drop_crlf :: "string \<Rightarrow> string" where
  "drop_crlf [] = []"
| "drop_crlf [c] = [c]"
| "drop_crlf (c # d # cs) =
     (if c = CR \<and> d = LF then drop_crlf cs else c # drop_crlf (d # cs))"

definition lf_to :: "string \<Rightarrow> string \<Rightarrow> string" where
  "lf_to nl s = concat (map (\<lambda>c. if c = LF then nl else [c]) s)"

lemma crlf_to_lf_id: "CR \<notin> set s \<Longrightarrow> crlf_to_lf s = s"
  by (induction s rule: crlf_to_lf.induct) auto

lemma lf_to_LF [simp]: "lf_to [LF] s = s"
  by (induction s) (auto simp: lf_to_def)

text \<open>\<open>text.count(old)\<close>: non-overlapping occurrences, left to right; \<open>replace_first\<close> is
  \<open>text.replace(old, new, 1)\<close>.\<close>

function count_sub :: "string \<Rightarrow> string \<Rightarrow> nat" where
  "count_sub old [] = 0"
| "count_sub old (c # cs) =
     (if old \<noteq> [] \<and> prefix old (c # cs)
      then Suc (count_sub old (drop (length old) (c # cs)))
      else count_sub old cs)"
  by pat_completeness auto
termination
  proof (relation "measure (\<lambda>(old, s). length s)")
  fix old :: string and c :: char and cs :: string
  assume "old \<noteq> [] \<and> prefix old (c # cs)"
  then show "((old, drop (length old) (c # cs)), old, c # cs) \<in> measure (\<lambda>(old, s). length s)"
    by (cases old) auto
qed auto

declare count_sub.simps(2) [simp del]

fun replace_first :: "string \<Rightarrow> string \<Rightarrow> string \<Rightarrow> string" where
  "replace_first old new [] = []"
| "replace_first old new (c # cs) =
     (if prefix old (c # cs) then new @ drop (length old) (c # cs)
      else c # replace_first old new cs)"

lemma replace_first_split:
  assumes "old \<noteq> []" "0 < count_sub old s"
  shows "\<exists>a b. s = a @ old @ b \<and> replace_first old new s = a @ new @ b"
  using assms
proof (induction old s rule: count_sub.induct)
  case (2 old c cs)
  show ?case
  proof (cases "prefix old (c # cs)")
    case True
    then obtain b where b: "c # cs = old @ b" by (auto elim: prefixE)
    have "replace_first old new (c # cs) = [] @ new @ b"
      unfolding replace_first.simps using True by (simp add: b)
    then show ?thesis using b by fastforce
  next
    case False
    with 2 obtain a b where "cs = a @ old @ b" "replace_first old new cs = a @ new @ b"
      by (auto simp: count_sub.simps(2))
    then have "c # cs = (c # a) @ old @ b" "replace_first old new (c # cs) = (c # a) @ new @ b"
      using False by auto
    then show ?thesis by blast
  qed
qed simp

text \<open>Decimal rendering and parsing of naturals (\<open>str(n)\<close>, \<open>int(s)\<close> on digits).\<close>

definition digit_char :: "nat \<Rightarrow> char" where
  "digit_char d = char_of (48 + d)"

fun nat_str :: "nat \<Rightarrow> string" where
  "nat_str n = (if n < 10 then [digit_char n] else nat_str (n div 10) @ [digit_char (n mod 10)])"

declare nat_str.simps [simp del]

definition is_digit :: "char \<Rightarrow> bool" where
  "is_digit c = (48 \<le> (of_char c :: nat) \<and> (of_char c :: nat) \<le> 57)"

definition digits_val :: "string \<Rightarrow> nat" where
  "digits_val s = foldl (\<lambda>n c. 10 * n + (of_char c - 48)) 0 s"

lemma digit_char_val: "d < 10 \<Longrightarrow> (of_char (digit_char d) :: nat) = 48 + d"
  by (simp add: digit_char_def)

lemma is_digit_digit_char: "d < 10 \<Longrightarrow> is_digit (digit_char d)"
  by (simp add: is_digit_def digit_char_val)

lemma nat_str_ne [simp]: "nat_str n \<noteq> []"
  by (subst nat_str.simps) simp

lemma nat_str_digits: "c \<in> set (nat_str n) \<Longrightarrow> is_digit c"
proof (induction n rule: nat_str.induct)
  case (1 n)
  then show ?case
    by (subst (asm) nat_str.simps) (auto simp: is_digit_digit_char split: if_splits)
qed

lemma digits_val_nat_str [simp]: "digits_val (nat_str n) = n"
proof (induction n rule: nat_str.induct)
  case (1 n)
  show ?case
  proof (cases "n < 10")
    case True
    then show ?thesis
      by (subst nat_str.simps) (simp add: digits_val_def digit_char_val)
  next
    case False
    then have "digits_val (nat_str n) = 10 * (n div 10) + n mod 10"
      using 1 by (subst nat_str.simps) (simp add: digits_val_def digit_char_val)
    then show ?thesis by simp
  qed
qed

end
