(* ===== verification/Contracts.thy ===== *)
theory Contracts
  imports Prelude
begin

text \<open>
  The interfaces several components share, as locales.  \<open>guarded_machine\<close>: a component
  whose phase only moves along a declared edge relation and whose revision counts the moves,
  with an invariant (\<open>invariant_machine\<close>) or without one
  (repair phases, runtime phases, plan nodes, collaboration tasks, effect receipts).
  \<open>capped_ledger\<close>: a ledger that grants or refuses reservations against caps (the run
  budget, the role budget, the grants of the edit lock).  \<open>receipt_store\<close>: the durable
  key-value store the effect ledger writes through to.
\<close>

subsection \<open>Machines that move along declared edges\<close>

locale invariant_machine =
  fixes ph :: "'s \<Rightarrow> 'p"
    and revn :: "'s \<Rightarrow> int"
    and step :: "'e \<Rightarrow> 's \<Rightarrow> 's"
    and edge :: "'p \<Rightarrow> 'p \<Rightarrow> bool"
    and good :: "'s \<Rightarrow> bool"
  assumes good_step: "good s \<Longrightarrow> good (step e s)"
    and good_moves: "good s \<Longrightarrow> ph (step e s) \<noteq> ph s \<Longrightarrow> edge (ph s) (ph (step e s))"
    and good_rev_mono: "good s \<Longrightarrow> revn s \<le> revn (step e s)"
    and good_rev_moves: "good s \<Longrightarrow> ph (step e s) \<noteq> ph s \<Longrightarrow> revn s < revn (step e s)"
begin

lemma run_good: "good s \<Longrightarrow> good (fold step es s)"
  by (induction es arbitrary: s) (auto intro: good_step)

lemma good_reaches: "good s \<Longrightarrow> edge\<^sup>*\<^sup>* (ph s) (ph (fold step es s))"
proof (induction es arbitrary: s)
  case (Cons e es)
  have "edge\<^sup>*\<^sup>* (ph s) (ph (step e s))"
    using good_moves[OF Cons.prems, of e] by (cases "ph (step e s) = ph s") auto
  then show ?case using Cons.IH[OF good_step[OF Cons.prems], of e] by simp
qed simp

lemma good_run_rev_mono: "good s \<Longrightarrow> revn s \<le> revn (fold step es s)"
proof (induction es arbitrary: s)
  case (Cons e es)
  have "revn (step e s) \<le> revn (fold step es (step e s))"
    by (rule Cons.IH[OF good_step[OF Cons.prems]])
  with good_rev_mono[OF Cons.prems, of e] show ?case by simp
qed simp

lemma good_closed:
  assumes "good s" "\<And>p q. p \<in> P \<Longrightarrow> edge p q \<Longrightarrow> q \<in> P" "ph s \<in> P"
  shows "ph (fold step es s) \<in> P"
  using good_reaches[OF assms(1), of es] assms(3) by (induction rule: rtranclp_induct) (auto intro: assms(2))

text \<open>A phase the run has left and come back to costs revisions: equal revisions mean no move.\<close>

lemma good_same_rev:
  "good s \<Longrightarrow> revn (fold step es s) = revn s \<Longrightarrow> ph (fold step es s) = ph s"
proof (induction es arbitrary: s)
  case (Cons e es)
  have le: "revn s \<le> revn (step e s)" "revn (step e s) \<le> revn (fold step es (step e s))"
    using good_rev_mono[OF Cons.prems(1)] good_run_rev_mono[OF good_step[OF Cons.prems(1)]] by auto
  with Cons.prems have eq: "revn (step e s) = revn s" by simp
  then have "ph (step e s) = ph s" using good_rev_moves[OF Cons.prems(1), of e] by auto
  then show ?case using Cons.IH[OF good_step[OF Cons.prems(1)], of e] Cons.prems eq by simp
qed simp

end

text \<open>Without an invariant to maintain.\<close>

locale guarded_machine =
  fixes ph :: "'s \<Rightarrow> 'p"
    and revn :: "'s \<Rightarrow> int"
    and step :: "'e \<Rightarrow> 's \<Rightarrow> 's"
    and edge :: "'p \<Rightarrow> 'p \<Rightarrow> bool"
  assumes moves: "ph (step e s) \<noteq> ph s \<Longrightarrow> edge (ph s) (ph (step e s))"
    and rev_mono: "revn s \<le> revn (step e s)"
    and rev_moves: "ph (step e s) \<noteq> ph s \<Longrightarrow> revn s < revn (step e s)"

sublocale guarded_machine \<subseteq> checked: invariant_machine ph revn step edge "\<lambda>_. True"
  by unfold_locales (auto intro: moves rev_mono rev_moves)

context guarded_machine
begin

lemma run_reaches: "edge\<^sup>*\<^sup>* (ph s) (ph (fold step es s))"
  by (rule checked.good_reaches) simp

lemma run_rev_mono: "revn s \<le> revn (fold step es s)"
  by (rule checked.good_run_rev_mono) simp

lemma run_closed:
  assumes "\<And>p q. p \<in> P \<Longrightarrow> edge p q \<Longrightarrow> q \<in> P" "ph s \<in> P"
  shows "ph (fold step es s) \<in> P"
  using assms by (intro checked.good_closed) auto

lemma run_stuck:
  assumes "\<And>q. \<not> edge (ph s) q"
  shows "ph (fold step es s) = ph s"
  using run_closed[of "{ph s}" s es] assms by auto

lemma run_same_rev:
  "revn (fold step es s) = revn s \<Longrightarrow> ph (fold step es s) = ph s"
  by (rule checked.good_same_rev) simp_all

text \<open>The number of phase changes of a run is at most the revision it gained.\<close>

lemma run_changes_bounded:
  "int (length (filter (\<lambda>i. ph (fold step (take (Suc i) es) s) \<noteq> ph (fold step (take i es) s))
      [0..<length es])) \<le> revn (fold step es s) - revn s"
proof (induction es rule: rev_induct)
  case (snoc e es)
  let ?s = "fold step es s"
  let ?chg = "\<lambda>zs i. ph (fold step (take (Suc i) zs) s) \<noteq> ph (fold step (take i zs) s)"
  have cong: "filter (?chg (es @ [e])) [0..<length es] = filter (?chg es) [0..<length es]"
    by (rule filter_cong) auto
  have last: "take (length es) (es @ [e]) = es" by simp
  have "int (length (filter (?chg (es @ [e])) [0..<Suc (length es)]))
      \<le> int (length (filter (?chg es) [0..<length es])) + (revn (step e ?s) - revn ?s)"
    using rev_mono[of ?s e] rev_moves[of e ?s] last
    by (auto simp: cong take_all simp del: take_append)
  with snoc show ?case by simp
qed simp

end

subsection \<open>Ledgers with caps\<close>

locale capped_ledger =
  fixes used :: "'l \<Rightarrow> 'r \<Rightarrow> real"
    and cap :: "'l \<Rightarrow> 'r \<Rightarrow> real option"
    and granted :: "'q \<Rightarrow> 'l \<Rightarrow> bool"
    and after :: "'q \<Rightarrow> 'l \<Rightarrow> 'l"
  assumes refused_spends_nothing: "\<not> granted q l \<Longrightarrow> used (after q l) r = used l r"
    and spending_grows: "used l r \<le> used (after q l) r"
    and grant_fits: "granted q l \<Longrightarrow> cap l r = Some c \<Longrightarrow> used l r \<le> c \<Longrightarrow> used (after q l) r \<le> c"
    and cap_fixed: "cap (after q l) r = cap l r"
begin

lemma run_cap_fixed: "cap (fold after qs l) r = cap l r"
  by (induction qs arbitrary: l) (auto simp: cap_fixed)

lemma run_within_cap:
  "cap l r = Some c \<Longrightarrow> used l r \<le> c \<Longrightarrow> used (fold after qs l) r \<le> c"
proof (induction qs arbitrary: l)
  case (Cons q qs)
  have "used (after q l) r \<le> c"
    using Cons.prems grant_fits[of q l r c] refused_spends_nothing[of q l r]
    by (cases "granted q l") auto
  then show ?case using Cons.IH[of "after q l"] Cons.prems(1) by (simp add: cap_fixed)
qed simp

lemma run_spending_grows: "used l r \<le> used (fold after qs l) r"
proof (induction qs arbitrary: l)
  case (Cons q qs)
  then show ?case using spending_grows[of l r q] by (fastforce intro: order_trans)
qed simp

lemma run_all_refused:
  "(\<And>q m. q \<in> set qs \<Longrightarrow> \<not> granted q m) \<Longrightarrow> used (fold after qs l) r = used l r"
proof (induction qs arbitrary: l)
  case (Cons q qs)
  have "used (fold after qs (after q l)) r = used (after q l) r"
    by (rule Cons.IH) (simp add: Cons.prems)
  also have "\<dots> = used l r" by (rule refused_spends_nothing) (simp add: Cons.prems)
  finally show ?case by simp
qed simp

end

subsection \<open>Durable receipt stores\<close>

locale receipt_store =
  fixes get_rc :: "'st \<Rightarrow> 'k \<Rightarrow> 'v option"
    and save_rc :: "'v \<Rightarrow> 'st \<Rightarrow> 'st"
    and key_of :: "'v \<Rightarrow> 'k"
  assumes get_after_save: "get_rc (save_rc v st) k = (if k = key_of v then Some v else get_rc st k)"
begin

lemma save_overwrites: "get_rc (save_rc w (save_rc v st)) (key_of w) = Some w"
  by (simp add: get_after_save)

lemma get_other: "k \<noteq> key_of v \<Longrightarrow> get_rc (save_rc v st) k = get_rc st k"
  by (simp add: get_after_save)

lemma fold_save_keeps:
  "get_rc st k \<noteq> None \<Longrightarrow> get_rc (fold save_rc vs st) k \<noteq> None"
  by (induction vs arbitrary: st) (auto simp: get_after_save)

end

end
