(* ===== verification/RepairState.thy ===== *)
theory RepairState
  imports Prelude
begin

text \<open>
  The shared state of the repair pipeline (\<open>src/state.py\<close>, \<open>src/repair/control_state.py\<close>):
  the canonical phases and statuses, the control and execution records, verification results,
  candidate patches, and the governed status change \<open>set_status\<close>.  Fields of
  \<open>RepairState\<close> that no modelled operation reads or writes (audit payloads, hypotheses,
  snapshots of other subsystems) are left out; \<open>node_timings\<close>, a telemetry dictionary, is
  represented by the keys the modelled operations write.
\<close>

subsection \<open>Phases and statuses\<close>

datatype repair_phase =
    PhIntent | PhSeed | PhLocalize | PhContext | PhPatch | PhVerify | PhRecovery | PhDone | PhFailed

fun phase_value :: "repair_phase \<Rightarrow> string" where
  "phase_value PhIntent = ''intent''"
| "phase_value PhSeed = ''seed''"
| "phase_value PhLocalize = ''localize''"
| "phase_value PhContext = ''context''"
| "phase_value PhPatch = ''patch''"
| "phase_value PhVerify = ''verify''"
| "phase_value PhRecovery = ''recovery''"
| "phase_value PhDone = ''done''"
| "phase_value PhFailed = ''failed''"

definition all_phases :: "repair_phase list" where
  "all_phases = [PhIntent, PhSeed, PhLocalize, PhContext, PhPatch, PhVerify, PhRecovery, PhDone,
     PhFailed]"

definition repair_phase_of :: "string \<Rightarrow> repair_phase res" where
  "repair_phase_of s = (case find (\<lambda>p. phase_value p = s) all_phases of
       Some p \<Rightarrow> ok p
     | None \<Rightarrow> raise (ValueError (s @ '' is not a valid RepairPhase'')))"

datatype repair_status =
    StPending | StWaitingApproval | StPendingVerify | StFixed | StFailed | StExhausted
  | StTimeout | StUserCancel | StRecoveryRequired | StRegression

fun status_value :: "repair_status \<Rightarrow> string" where
  "status_value StPending = ''pending''"
| "status_value StWaitingApproval = ''waiting_approval''"
| "status_value StPendingVerify = ''pending_verify''"
| "status_value StFixed = ''fixed''"
| "status_value StFailed = ''failed''"
| "status_value StExhausted = ''exhausted''"
| "status_value StTimeout = ''timeout''"
| "status_value StUserCancel = ''user_cancel''"
| "status_value StRecoveryRequired = ''recovery_required''"
| "status_value StRegression = ''regression''"

lemma all_phases_complete [simp]: "p \<in> set all_phases"
  by (cases p) (simp_all add: all_phases_def)

lemma phase_value_inj [simp]: "phase_value p = phase_value q \<longleftrightarrow> p = q"
  by (cases p; cases q) simp_all

lemma repair_phase_of_value [simp]: "repair_phase_of (phase_value p) = ok p"
  by (cases p) (simp_all add: repair_phase_of_def all_phases_def)

lemma repair_phase_of_ok_iff: "repair_phase_of s = Inr p \<longleftrightarrow> s = phase_value p"
proof
  assume "repair_phase_of s = Inr p"
  then have "find (\<lambda>p. phase_value p = s) all_phases = Some p"
    by (auto simp: repair_phase_of_def split: option.splits)
  then show "s = phase_value p" by (auto simp: find_Some_iff)
qed simp

subsection \<open>Data carried by the state\<close>

record candidate_patch =
  cp_file_path :: string
  cp_original_lines :: string
  cp_patched_lines :: string
  cp_diff :: string

datatype exec_status =
  XPassed | XFailed | XEnvironmentUnavailable | XTimedOut | XCancelled | XUnverified

record verification_result =
  vr_all_passed :: bool
  vr_total_tests :: int
  vr_failed :: int
  vr_error :: int
  vr_failure_logs :: "string list"
  vr_build_log :: string
  vr_execution_status :: exec_status

record phase_transition =
  tr_from :: string
  tr_to :: string
  tr_revision :: int
  tr_reason :: string
  tr_at :: real
  tr_valid :: bool
  tr_actor :: string
  tr_correlation_id :: string

datatype history_item =
    PhaseItem phase_transition
  | StatusItem repair_status repair_status string int

record no_progress_meta =
  np_count :: int
  np_required_next_action :: string
  np_allowed_next_actions :: "string list"
  np_forbid_repeated_reads :: bool
  np_control_signal :: string

record failure_decision =
  fd_failure_class :: string
  fd_retryable :: bool
  fd_next_action :: string
  fd_model_hint :: string
  fd_evidence_refs :: "string list"
  fd_retry_limit :: int

record repair_control =
  ctl_user_cancel :: bool
  ctl_repair_timeout :: real
  ctl_phase_timeout :: string
  ctl_coordination_status :: string
  ctl_introduced_regression :: bool
  ctl_baseline_pytest_code :: "int option"
  ctl_post_patch_pytest_code :: "int option"
  ctl_verify_skipped :: bool
  ctl_verify_skipped_reason :: string
  ctl_verify_failed_nodeids :: "string list"
  ctl_repair_failure_decision :: "failure_decision option"
  ctl_no_progress_warning :: "no_progress_meta option"
  ctl_stop_loss :: string
  ctl_stop_loss_early :: bool
  ctl_plan_blocked :: bool
  ctl_patcher_terminal_status :: string
  ctl_patcher_parse_failed :: bool
  ctl_patcher_apply_failed :: bool
  ctl_patcher_write_attempted :: "bool option"
  ctl_patcher_write_rejected :: bool
  ctl_patcher_export_failed :: bool
  ctl_consecutive_env_fails :: int
  ctl_verify_env_early_stop :: bool

record fsm_snapshot =
  fs_phase :: string
  fs_revision :: int
  fs_history :: "phase_transition list"

record node_timings =
  nt_phase_fsm :: "fsm_snapshot option"
  nt_required_next_action :: "string option"
  nt_no_progress_control :: "(string \<times> bool \<times> string list) option"
  nt_stop_loss_meta :: "no_progress_meta option"
  nt_no_progress_count :: "int option"

record repair_state =
  rs_has_plan :: bool
  rs_suspects :: "string list"
  rs_candidate_patches :: "candidate_patch list"
  rs_verification_result :: "verification_result option"
  rs_feedback :: string
  rs_retry_count :: int
  rs_max_retries :: int
  rs_phase :: repair_phase
  rs_status :: repair_status
  rs_state_revision :: int
  rs_phase_history :: "history_item list"
  rs_phase_revision :: int
  rs_control :: repair_control
  rs_agent_errors :: "string \<rightharpoonup> string"
  rs_node_timings :: node_timings

subsection \<open>Initial values\<close>

definition default_control :: repair_control where
  "default_control = \<lparr>ctl_user_cancel = False, ctl_repair_timeout = 0, ctl_phase_timeout = [],
     ctl_coordination_status = [], ctl_introduced_regression = False,
     ctl_baseline_pytest_code = None, ctl_post_patch_pytest_code = None,
     ctl_verify_skipped = False, ctl_verify_skipped_reason = [],
     ctl_verify_failed_nodeids = [], ctl_repair_failure_decision = None,
     ctl_no_progress_warning = None, ctl_stop_loss = [], ctl_stop_loss_early = False,
     ctl_plan_blocked = False, ctl_patcher_terminal_status = [], ctl_patcher_parse_failed = False,
     ctl_patcher_apply_failed = False, ctl_patcher_write_attempted = None,
     ctl_patcher_write_rejected = False, ctl_patcher_export_failed = False,
     ctl_consecutive_env_fails = 0, ctl_verify_env_early_stop = False\<rparr>"

definition initial_state :: repair_state where
  "initial_state = \<lparr>rs_has_plan = False, rs_suspects = [], rs_candidate_patches = [],
     rs_verification_result = None, rs_feedback = [], rs_retry_count = 0, rs_max_retries = 3,
     rs_phase = PhLocalize, rs_status = StPending, rs_state_revision = 0, rs_phase_history = [],
     rs_phase_revision = 0, rs_control = default_control, rs_agent_errors = Map.empty,
     rs_node_timings = \<lparr>nt_phase_fsm = None, nt_required_next_action = None,
       nt_no_progress_control = None, nt_stop_loss_meta = None, nt_no_progress_count = None\<rparr>\<rparr>"

subsection \<open>Changing the status\<close>

definition set_status :: "repair_status \<Rightarrow> string \<Rightarrow> repair_state \<Rightarrow> repair_state" where
  "set_status new reason s =
     (if rs_status s = new then s
      else s\<lparr>rs_status := new,
             rs_state_revision := rs_state_revision s + 1,
             rs_phase_history := keep_last 100 (rs_phase_history s @
               [StatusItem (rs_status s) new reason (rs_state_revision s + 1)])\<rparr>)"

lemma set_status_status [simp]: "rs_status (set_status new r s) = new"
  by (simp add: set_status_def)

lemma set_status_frame [simp]:
  "rs_phase (set_status new r s) = rs_phase s"
  "rs_control (set_status new r s) = rs_control s"
  "rs_candidate_patches (set_status new r s) = rs_candidate_patches s"
  "rs_verification_result (set_status new r s) = rs_verification_result s"
  "rs_retry_count (set_status new r s) = rs_retry_count s"
  "rs_max_retries (set_status new r s) = rs_max_retries s"
  "rs_phase_revision (set_status new r s) = rs_phase_revision s"
  by (simp_all add: set_status_def)

lemma set_status_revision:
  "rs_state_revision (set_status new r s) =
     rs_state_revision s + (if rs_status s = new then 0 else 1)"
  by (simp add: set_status_def)

lemma set_status_history_bound:
  "length (rs_phase_history s) \<le> 100 \<Longrightarrow> length (rs_phase_history (set_status new r s)) \<le> 100"
  by (simp add: set_status_def)

end
