(* ===== verification/RepairPhases.thy ===== *)
theory RepairPhases
  imports RepairState Contracts
begin

text \<open>
  The repair phase machine of \<open>src/repair/phase_fsm.py\<close>: the transition table, the
  audited \<open>transition\<close>, its application to the shared state, and the choice of a resume
  phase.  The machine is an instance of the \<open>guarded_machine\<close> contract; its audit history
  is a chain, so the phase can be read off the last accepted entry.
\<close>

subsection \<open>Model\<close>

definition allowed_table :: "(string \<times> string list) list" where
  "allowed_table =
    [('''', [''intent'', ''seed'', ''localize'', ''context'', ''patch'', ''verify'', ''recovery'']),
     (''intent'', [''context'', ''localize'', ''patch'', ''recovery'']),
     (''seed'', [''localize'', ''context'', ''patch'', ''verify'', ''recovery'']),
     (''localize'', [''seed'', ''context'', ''patch'', ''verify'', ''recovery'', ''failed'']),
     (''context'', [''seed'', ''localize'', ''patch'', ''verify'', ''recovery'', ''failed'']),
     (''patch'', [''verify'', ''patch'', ''recovery'', ''done'', ''failed'']),
     (''verify'', [''patch'', ''verify'', ''recovery'', ''done'', ''failed'']),
     (''recovery'', [''seed'', ''patch'', ''verify'', ''context'', ''done'', ''failed'']),
     (''done'', []),
     (''failed'', [])]"

definition fsm_allowed :: "string \<Rightarrow> string list" where
  "fsm_allowed p = (case map_of allowed_table p of None \<Rightarrow> [] | Some ts \<Rightarrow> ts)"

record phase_fsm =
  fsm_phase :: string
  fsm_revision :: int
  fsm_history :: "phase_transition list"

record transition_request =
  rq_to :: string
  rq_reason :: string
  rq_allow_recovery :: bool
  rq_actor :: string
  rq_correlation_id :: string
  rq_now :: real

definition known_phase :: "string \<Rightarrow> bool" where
  "known_phase t = (t \<in> set (map phase_value all_phases))"

definition fsm_permits :: "transition_request \<Rightarrow> string \<Rightarrow> bool" where
  "fsm_permits q p =
     (rq_to q \<in> set (fsm_allowed p) \<or> (rq_allow_recovery q \<and> rq_to q = ''recovery''))"

definition fsm_transition ::
  "transition_request \<Rightarrow> phase_fsm \<Rightarrow> phase_transition \<times> phase_fsm" where
  "fsm_transition q m =
    (if \<not> known_phase (rq_to q) then
       (let t = \<lparr>tr_from = fsm_phase m, tr_to = rq_to q, tr_revision = fsm_revision m,
                 tr_reason = ''unknown_phase'', tr_at = rq_now q, tr_valid = False,
                 tr_actor = rq_actor q, tr_correlation_id = rq_correlation_id q\<rparr>
        in (t, m\<lparr>fsm_history := fsm_history m @ [t]\<rparr>))
     else
       (let allowed = fsm_permits q (fsm_phase m);
            t = \<lparr>tr_from = fsm_phase m, tr_to = rq_to q, tr_revision = fsm_revision m + 1,
                 tr_reason = rq_reason q, tr_at = rq_now q, tr_valid = allowed,
                 tr_actor = rq_actor q, tr_correlation_id = rq_correlation_id q\<rparr>;
            m' = (if allowed then m\<lparr>fsm_phase := rq_to q, fsm_revision := fsm_revision m + 1\<rparr>
                  else m)
        in (t, m'\<lparr>fsm_history := keep_last 100 (fsm_history m @ [t])\<rparr>)))"

definition snapshot_fsm :: "phase_fsm \<Rightarrow> fsm_snapshot" where
  "snapshot_fsm m = \<lparr>fs_phase = fsm_phase m, fs_revision = fsm_revision m, fs_history = fsm_history m\<rparr>"

fun transition_items :: "history_item list \<Rightarrow> phase_transition list" where
  "transition_items [] = []"
| "transition_items (PhaseItem t # hs) = t # transition_items hs"
| "transition_items (StatusItem _ _ _ _ # hs) = transition_items hs"

definition fsm_from_state :: "repair_state \<Rightarrow> phase_fsm" where
  "fsm_from_state s = \<lparr>fsm_phase = phase_value (rs_phase s), fsm_revision = rs_phase_revision s,
     fsm_history = transition_items (rs_phase_history s)\<rparr>"

definition fsm_apply ::
  "transition_request \<Rightarrow> phase_fsm \<Rightarrow> repair_state \<Rightarrow> (phase_transition \<times> phase_fsm \<times> repair_state) res"
where
  "fsm_apply q m s =
    (let (t, m') = fsm_transition q m in
     bindR
       (if tr_valid t
        then bindR (repair_phase_of (tr_to t)) (\<lambda>p. ok (s\<lparr>rs_phase := p,
               rs_state_revision := max (rs_state_revision s) (tr_revision t)\<rparr>))
        else ok s)
       (\<lambda>s'. ok (t, m', s'\<lparr>rs_phase_history := map PhaseItem (fsm_history m'),
               rs_phase_revision := fsm_revision m',
               rs_node_timings := (rs_node_timings s')\<lparr>nt_phase_fsm := Some (snapshot_fsm m')\<rparr>\<rparr>)))"

definition transition_phase ::
  "transition_request \<Rightarrow> repair_state \<Rightarrow> (phase_transition \<times> repair_state) res" where
  "transition_phase q s =
     bindR (fsm_apply q (fsm_from_state s) s) (\<lambda>(t, _, s'). ok (t, s'))"

definition resume_phase_for_invalidated_workspace :: "repair_state \<Rightarrow> string" where
  "resume_phase_for_invalidated_workspace s =
     (if \<not> rs_has_plan s then ''intent''
      else if rs_suspects s \<noteq> [] then ''context'' else ''localize'')"

subsection \<open>Single transitions\<close>

lemma fsm_allowed_known: "t \<in> set (fsm_allowed p) \<Longrightarrow> known_phase t"
  by (auto simp: fsm_allowed_def allowed_table_def known_phase_def all_phases_def
      split: option.splits if_splits)

lemma fsm_allowed_terminal [simp]: "fsm_allowed ''done'' = []" "fsm_allowed ''failed'' = []"
  by (simp_all add: fsm_allowed_def allowed_table_def)

lemma fsm_transition_valid_iff:
  "tr_valid (fst (fsm_transition q m)) \<longleftrightarrow> known_phase (rq_to q) \<and> fsm_permits q (fsm_phase m)"
  by (simp add: fsm_transition_def Let_def)

lemma fsm_transition_phase:
  "fsm_phase (snd (fsm_transition q m)) =
     (if tr_valid (fst (fsm_transition q m)) then rq_to q else fsm_phase m)"
  by (simp add: fsm_transition_def Let_def)

lemma fsm_transition_revision:
  "fsm_revision (snd (fsm_transition q m)) =
     fsm_revision m + (if tr_valid (fst (fsm_transition q m)) then 1 else 0)"
  by (simp add: fsm_transition_def Let_def)

lemma fsm_transition_record:
  "tr_from (fst (fsm_transition q m)) = fsm_phase m"
  "tr_to (fst (fsm_transition q m)) = rq_to q"
  by (simp_all add: fsm_transition_def Let_def)

lemma fsm_transition_history_last:
  "fsm_history (snd (fsm_transition q m)) \<noteq> [] \<and>
   last (fsm_history (snd (fsm_transition q m))) = fst (fsm_transition q m)"
  by (auto simp: fsm_transition_def Let_def keep_last_def)

lemmas fsm_step_facts =
  fsm_transition_valid_iff fsm_transition_phase fsm_transition_revision fsm_transition_record

subsection \<open>The audit chain\<close>

text \<open>
  The accepted entries of a history, oldest first, form a chain that ends in the machine's
  phase and revision: each starts where its predecessor ended, one revision later.
\<close>

fun chain_to :: "phase_transition list \<Rightarrow> string \<Rightarrow> int \<Rightarrow> bool" where
  "chain_to [] p r = True"
| "chain_to [t] p r = (tr_to t = p \<and> tr_revision t = r)"
| "chain_to (t # u # ts) p r =
     (tr_to t = tr_from u \<and> tr_revision u = tr_revision t + 1 \<and> chain_to (u # ts) p r)"

definition accepted :: "phase_transition list \<Rightarrow> phase_transition list" where
  "accepted ts = filter tr_valid ts"

definition audit_inv :: "phase_fsm \<Rightarrow> bool" where
  "audit_inv m = chain_to (accepted (fsm_history m)) (fsm_phase m) (fsm_revision m)"

lemma chain_to_snoc:
  "chain_to ts (tr_from t) (tr_revision t - 1) \<Longrightarrow> chain_to (ts @ [t]) (tr_to t) (tr_revision t)"
  by (induction ts "tr_from t" "tr_revision t - 1" rule: chain_to.induct) auto

lemma chain_to_suffix: "chain_to (us @ ts) p r \<Longrightarrow> chain_to ts p r"
proof (induction us)
  case (Cons u us)
  then show ?case by (cases "us @ ts") auto
qed simp

lemma accepted_keep_last: "\<exists>us. accepted ts = us @ accepted (keep_last n ts)"
proof -
  have "ts = take (length ts - n) ts @ keep_last n ts" by (simp add: keep_last_def)
  then have "accepted ts = accepted (take (length ts - n) ts) @ accepted (keep_last n ts)"
    unfolding accepted_def by (metis filter_append)
  then show ?thesis by blast
qed

lemma chain_to_keep_last:
  "chain_to (accepted ts) p r \<Longrightarrow> chain_to (accepted (keep_last n ts)) p r"
  using accepted_keep_last[of ts n] chain_to_suffix by metis

lemma fsm_transition_audit:
  assumes "audit_inv m"
  shows "audit_inv (snd (fsm_transition q m))"
proof (cases "known_phase (rq_to q)")
  case False
  then show ?thesis using assms by (simp add: fsm_transition_def audit_inv_def accepted_def Let_def)
next
  case True
  let ?t = "fst (fsm_transition q m)"
  have hist: "fsm_history (snd (fsm_transition q m)) = keep_last 100 (fsm_history m @ [?t])"
    using True by (simp add: fsm_transition_def Let_def)
  have "chain_to (accepted (fsm_history m @ [?t]))
      (fsm_phase (snd (fsm_transition q m))) (fsm_revision (snd (fsm_transition q m)))"
  proof (cases "tr_valid ?t")
    case False
    then show ?thesis
      using assms fsm_transition_phase[of q m] fsm_transition_revision[of q m]
      by (simp add: audit_inv_def accepted_def)
  next
    case valid: True
    have rev: "tr_revision ?t = fsm_revision m + 1"
      using True by (simp add: fsm_transition_def Let_def)
    have "chain_to (accepted (fsm_history m) @ [?t]) (tr_to ?t) (tr_revision ?t)"
      using assms rev by (intro chain_to_snoc) (simp add: audit_inv_def fsm_transition_record)
    then show ?thesis
      using valid rev fsm_transition_phase[of q m] fsm_transition_revision[of q m]
        fsm_transition_record(2)[of q m]
      by (simp add: accepted_def)
  qed
  then show ?thesis
    unfolding audit_inv_def hist by (rule chain_to_keep_last)
qed

lemma fsm_run_audit: "audit_inv m \<Longrightarrow> audit_inv (fold (\<lambda>q m. snd (fsm_transition q m)) qs m)"
  by (induction qs arbitrary: m) (auto intro: fsm_transition_audit)

lemma chain_to_last:
  "chain_to ts p r \<Longrightarrow> ts \<noteq> [] \<Longrightarrow> tr_to (last ts) = p \<and> tr_revision (last ts) = r"
  by (induction ts p r rule: chain_to.induct) auto

subsection \<open>The machine as a guarded machine\<close>

definition fsm_step :: "transition_request \<Rightarrow> phase_fsm \<Rightarrow> phase_fsm" where
  "fsm_step q m = snd (fsm_transition q m)"

definition fsm_edge :: "string \<Rightarrow> string \<Rightarrow> bool" where
  "fsm_edge p t = (t \<in> set (fsm_allowed p) \<or> t = ''recovery'')"

interpretation fsm: guarded_machine fsm_phase fsm_revision fsm_step fsm_edge
  by unfold_locales
    (auto simp: fsm_step_def fsm_step_facts fsm_edge_def fsm_permits_def split: if_splits)

lemma fsm_transition_known: "tr_valid (fst (fsm_transition q m)) \<Longrightarrow> known_phase (rq_to q)"
  by (simp add: fsm_transition_valid_iff)

lemma known_phase_value: "known_phase t \<Longrightarrow> \<exists>p. repair_phase_of t = Inr p \<and> t = phase_value p"
  by (auto simp: known_phase_def)

text \<open>Applying a transition to the state never raises.\<close>

lemma fsm_apply_ok: "\<exists>t m' s'. fsm_apply q m s = Inr (t, m', s') \<and> (t, m') = fsm_transition q m"
proof -
  obtain t m' where tm: "fsm_transition q m = (t, m')" by fastforce
  show ?thesis
  proof (cases "tr_valid t")
    case True
    then have "known_phase (tr_to t)"
      using tm fsm_transition_known[of q m] fsm_transition_record(2)[of q m] by simp
    then obtain p where "repair_phase_of (tr_to t) = Inr p"
      using known_phase_value by blast
    then show ?thesis using True tm by (simp add: fsm_apply_def)
  next
    case False
    then show ?thesis using tm by (simp add: fsm_apply_def)
  qed
qed

lemma transition_items_PhaseItem [simp]: "transition_items (map PhaseItem ts) = ts"
  by (induction ts) auto

text \<open>After a transition through the state, rebuilding the machine from it gives the machine.\<close>

lemma fsm_apply_reload:
  assumes "transition_phase q s = Inr (t, s')"
  shows "fsm_from_state s' = snd (fsm_transition q (fsm_from_state s)) \<and>
         t = fst (fsm_transition q (fsm_from_state s))"
proof -
  let ?m = "fsm_from_state s"
  obtain u m' where um: "fsm_transition q ?m = (u, m')" by fastforce
  have phase: "fsm_phase m' = (if tr_valid u then tr_to u else phase_value (rs_phase s))"
    using fsm_transition_phase[of q ?m] fsm_transition_record(2)[of q ?m] um
    by (simp add: fsm_from_state_def)
  have "transition_items (rs_phase_history s') = fsm_history m'"
    and "rs_phase_revision s' = fsm_revision m'" and "t = u"
    and "phase_value (rs_phase s') = fsm_phase m'"
    using assms um phase
    by (auto simp: transition_phase_def fsm_apply_def monad_simps repair_phase_of_ok_iff
        split: if_splits)
  then show ?thesis using um by (simp add: fsm_from_state_def)
qed

text \<open>Requests that do not ask for recovery move along the table alone.\<close>

definition plain_step :: "transition_request \<Rightarrow> phase_fsm \<Rightarrow> phase_fsm" where
  "plain_step q m = fsm_step (q\<lparr>rq_allow_recovery := False\<rparr>) m"

interpretation plain_fsm: guarded_machine fsm_phase fsm_revision plain_step
    "\<lambda>p t. t \<in> set (fsm_allowed p)"
  by unfold_locales
    (auto simp: plain_step_def fsm_step_def fsm_step_facts fsm_permits_def split: if_splits)

lemma plain_step_stuck: "fsm_allowed (fsm_phase m) = [] \<Longrightarrow> fsm_revision (plain_step q m) = fsm_revision m"
  by (simp add: plain_step_def fsm_step_def fsm_step_facts fsm_permits_def)

fun run_transitions :: "transition_request list \<Rightarrow> repair_state \<Rightarrow> repair_state res" where
  "run_transitions [] s = ok s"
| "run_transitions (q # qs) s = bindR (transition_phase q s) (\<lambda>(_, s'). run_transitions qs s')"

lemma run_transitions_ok:
  "\<exists>s'. run_transitions qs s = Inr s' \<and> fsm_from_state s' = fold fsm_step qs (fsm_from_state s)"
proof (induction qs arbitrary: s)
  case (Cons q qs)
  obtain t m' s1 where "fsm_apply q (fsm_from_state s) s = Inr (t, m', s1)"
    using fsm_apply_ok by blast
  then have step: "transition_phase q s = Inr (t, s1)" by (simp add: transition_phase_def)
  then have "fsm_from_state s1 = fsm_step q (fsm_from_state s)"
    using fsm_apply_reload by (simp add: fsm_step_def)
  then show ?case using Cons[of s1] step by simp
qed simp

lemma fold_fsm_step_audit: "audit_inv m \<Longrightarrow> audit_inv (fold fsm_step qs m)"
  using fsm_run_audit[of m qs] unfolding fsm_step_def .

lemma fold_plain_step:
  "\<forall>q \<in> set qs. \<not> rq_allow_recovery q \<Longrightarrow> fold fsm_step qs m = fold plain_step qs m"
proof (induction qs arbitrary: m)
  case (Cons q qs)
  have "q\<lparr>rq_allow_recovery := False\<rparr> = q" using Cons.prems by (cases q) simp
  then have "plain_step q m = fsm_step q m" by (simp add: plain_step_def)
  then show ?case using Cons by simp
qed simp

subsection \<open>Properties\<close>

text \<open>C40. Any sequence of phase transitions applied to the shared state succeeds without an
  exception; the persisted audit history stays a chain ending in the state's phase and
  revision, so the phase is the target of the last accepted entry, and the phase only moved
  along the transition table or into recovery.
\<close>
theorem phase_history_audits_phase:
  assumes "audit_inv (fsm_from_state s)"
  shows "\<exists>s'. run_transitions qs s = Inr s' \<and> audit_inv (fsm_from_state s') \<and>
     fsm_edge\<^sup>*\<^sup>* (phase_value (rs_phase s)) (phase_value (rs_phase s')) \<and>
     rs_phase_revision s \<le> rs_phase_revision s' \<and>
     (accepted (transition_items (rs_phase_history s')) \<noteq> [] \<longrightarrow>
        tr_to (last (accepted (transition_items (rs_phase_history s')))) =
          phase_value (rs_phase s'))"
proof -
  obtain s' where s': "run_transitions qs s = Inr s'"
      "fsm_from_state s' = fold fsm_step qs (fsm_from_state s)"
    using run_transitions_ok by blast
  have inv: "audit_inv (fsm_from_state s')"
    unfolding s'(2) using assms by (rule fold_fsm_step_audit)
  then have "chain_to (accepted (transition_items (rs_phase_history s')))
      (phase_value (rs_phase s')) (rs_phase_revision s')"
    by (simp add: audit_inv_def fsm_from_state_def)
  moreover have "fsm_edge\<^sup>*\<^sup>* (phase_value (rs_phase s)) (phase_value (rs_phase s'))"
    using fsm.run_reaches[of "fsm_from_state s" qs] s'(2)[symmetric]
    by (simp add: fsm_from_state_def)
  moreover have "rs_phase_revision s \<le> rs_phase_revision s'"
    using fsm.run_rev_mono[of "fsm_from_state s" qs] s'(2)[symmetric]
    by (simp add: fsm_from_state_def)
  ultimately show ?thesis using s'(1) inv chain_to_last by blast
qed

definition example_request :: "string \<Rightarrow> transition_request" where
  "example_request t = \<lparr>rq_to = t, rq_reason = [], rq_allow_recovery = False,
     rq_actor = ''runtime'', rq_correlation_id = [], rq_now = 0\<rparr>"

lemma initial_audit: "audit_inv (fsm_from_state initial_state)"
  by (simp add: audit_inv_def fsm_from_state_def initial_state_def accepted_def)

theorem phase_history_audits_phase_witness:
  "audit_inv (fsm_from_state initial_state) \<and>
   (\<exists>s'. run_transitions [example_request ''patch'', example_request ''verify''] initial_state =
      Inr s' \<and> audit_inv (fsm_from_state s'))"
  using initial_audit
    phase_history_audits_phase[OF initial_audit,
      of "[example_request ''patch'', example_request ''verify'']"]
  by blast

text \<open>
  Done and failed are final for every sequence of requests that does not ask for
  recovery: the phase and its revision stay as they are.
\<close>
theorem final_phase_absorbing:
  assumes "rs_phase s \<in> {PhDone, PhFailed}" and "\<forall>q \<in> set qs. \<not> rq_allow_recovery q"
  shows "\<exists>s'. run_transitions qs s = Inr s' \<and> rs_phase s' = rs_phase s \<and>
     rs_phase_revision s' = rs_phase_revision s"
proof -
  let ?m = "fsm_from_state s"
  obtain s' where s': "run_transitions qs s = Inr s'" "fsm_from_state s' = fold plain_step qs ?m"
    using run_transitions_ok fold_plain_step[OF assms(2)] by metis
  have no_edge: "\<not> t \<in> set (fsm_allowed (fsm_phase ?m))" for t
    using assms(1) by (auto simp: fsm_from_state_def)
  have stuck: "fsm_phase (fold plain_step rs ?m) = fsm_phase ?m" for rs
    by (rule plain_fsm.run_stuck) (rule no_edge)
  have rev: "fsm_revision (fold plain_step rs ?m) = fsm_revision ?m" for rs
  proof (induction rs rule: rev_induct)
    case (snoc r rs)
    have "fsm_allowed (fsm_phase (fold plain_step rs ?m)) = []"
      using stuck[of rs] no_edge by (metis set_empty all_not_in_conv)
    then show ?case using snoc by (simp add: plain_step_stuck)
  qed simp
  have "fsm_phase (fsm_from_state s') = fsm_phase ?m" "fsm_revision (fsm_from_state s') = fsm_revision ?m"
    unfolding s'(2) by (rule stuck, rule rev)
  then show ?thesis using s'(1) by (simp add: fsm_from_state_def)
qed

theorem final_phase_absorbing_witness:
  "\<exists>s'. run_transitions [example_request ''patch''] (initial_state\<lparr>rs_phase := PhDone\<rparr>) = Inr s' \<and>
     rs_phase s' = PhDone"
  using final_phase_absorbing[of "initial_state\<lparr>rs_phase := PhDone\<rparr>" "[example_request ''patch'']"]
  by (auto simp: example_request_def)

text \<open>
  A phase transition erases the status changes recorded before it: \<open>set_status\<close> appends
  its entry to \<open>phase_history\<close>, but rebuilding the machine keeps only the entries with a
  target phase, so after the next transition no status entry is left.
\<close>
theorem transition_drops_status_entries:
  "\<exists>t s'. transition_phase q (set_status new reason s) = Inr (t, s') \<and>
     (\<forall>h. h \<in> set (rs_phase_history s') \<longrightarrow> (\<exists>u. h = PhaseItem u))"
proof -
  let ?s = "set_status new reason s"
  obtain t m' s1 where ap: "fsm_apply q (fsm_from_state ?s) ?s = Inr (t, m', s1)"
    using fsm_apply_ok by blast
  then have "rs_phase_history s1 = map PhaseItem (fsm_history m')"
    by (auto simp: fsm_apply_def monad_simps split: prod.splits)
  then show ?thesis using ap by (auto simp: transition_phase_def)
qed

theorem transition_drops_status_entries_witness:
  "\<exists>t s'. transition_phase (example_request ''patch'')
      (set_status StPendingVerify ''x'' initial_state) = Inr (t, s') \<and>
     StatusItem StPending StPendingVerify ''x'' 1 \<notin> set (rs_phase_history s')"
  using transition_drops_status_entries[of "example_request ''patch''" StPendingVerify "''x''" initial_state]
  by blast

end
