(* ===== verification/RuntimePhases.thy ===== *)
theory RuntimePhases
  imports Contracts
begin

text \<open>
  The agent runtime lifecycle of \<open>agent_runtime/runtime_contracts.py\<close>: phases, statuses,
  the validated transition and \<open>finalize\<close>.  A Python method that assigns before it raises
  leaves the assignment behind, so \<open>rt_transition\<close> returns the machine together with the
  outcome, not one or the other.
\<close>

subsection \<open>Model\<close>

datatype rt_phase =
    Created | Planning | Reasoning | Acting | Observing | Verifying | Finalizing
  | RCompleted | RFailed | RCancelled

datatype rt_status = SRunning | SCompleted | SFailed | SCancelled | SStopped

fun rt_phase_value :: "rt_phase \<Rightarrow> string" where
  "rt_phase_value Created = ''created''"
| "rt_phase_value Planning = ''planning''"
| "rt_phase_value Reasoning = ''reasoning''"
| "rt_phase_value Acting = ''acting''"
| "rt_phase_value Observing = ''observing''"
| "rt_phase_value Verifying = ''verifying''"
| "rt_phase_value Finalizing = ''finalizing''"
| "rt_phase_value RCompleted = ''completed''"
| "rt_phase_value RFailed = ''failed''"
| "rt_phase_value RCancelled = ''cancelled''"

fun rt_status_value :: "rt_status \<Rightarrow> string" where
  "rt_status_value SRunning = ''running''"
| "rt_status_value SCompleted = ''completed''"
| "rt_status_value SFailed = ''failed''"
| "rt_status_value SCancelled = ''cancelled''"
| "rt_status_value SStopped = ''stopped''"

definition rt_phases :: "rt_phase list" where
  "rt_phases = [Created, Planning, Reasoning, Acting, Observing, Verifying, Finalizing,
     RCompleted, RFailed, RCancelled]"

definition rt_statuses :: "rt_status list" where
  "rt_statuses = [SRunning, SCompleted, SFailed, SCancelled, SStopped]"

definition rt_phase_of :: "string \<Rightarrow> rt_phase res" where
  "rt_phase_of s = (case find (\<lambda>p. rt_phase_value p = s) rt_phases of
      Some p \<Rightarrow> ok p | None \<Rightarrow> raise (ValueError (s @ '' is not a valid RuntimePhase'')))"

definition rt_status_of :: "string \<Rightarrow> rt_status res" where
  "rt_status_of s = (case find (\<lambda>p. rt_status_value p = s) rt_statuses of
      Some p \<Rightarrow> ok p | None \<Rightarrow> raise (ValueError (s @ '' is not a valid RuntimeStatus'')))"

fun rt_allowed :: "rt_phase \<Rightarrow> rt_phase list" where
  "rt_allowed Created = [Planning, Reasoning, Finalizing]"
| "rt_allowed Planning = [Reasoning, Acting, Finalizing]"
| "rt_allowed Reasoning = [Acting, Finalizing]"
| "rt_allowed Acting = [Observing, Finalizing]"
| "rt_allowed Observing = [Reasoning, Verifying, Finalizing]"
| "rt_allowed Verifying = [Finalizing, Reasoning]"
| "rt_allowed Finalizing = [RCompleted, RFailed, RCancelled]"
| "rt_allowed RCompleted = []"
| "rt_allowed RFailed = []"
| "rt_allowed RCancelled = []"

definition rt_terminal_phase :: "rt_phase \<Rightarrow> bool" where
  "rt_terminal_phase p = (p \<in> {RCompleted, RFailed, RCancelled})"

definition terminal_status_phases :: "string \<Rightarrow> rt_phase \<times> rt_status" where
  "terminal_status_phases s =
     (if s = ''completed'' then (RCompleted, SCompleted)
      else if s = ''failed'' then (RFailed, SFailed)
      else if s = ''cancelled'' then (RCancelled, SCancelled)
      else if s = ''stopped'' then (RCancelled, SCancelled)
      else (RFailed, SFailed))"

record rsm =
  rt_phase :: rt_phase
  rt_status :: rt_status
  rt_revision :: int
  rt_stop_reason :: string
  rt_metadata :: "string \<rightharpoonup> string"

definition rsm_init :: rsm where
  "rsm_init = \<lparr>rt_phase = Created, rt_status = SRunning, rt_revision = 0, rt_stop_reason = [],
     rt_metadata = Map.empty\<rparr>"

definition rt_terminal :: "rsm \<Rightarrow> bool" where
  "rt_terminal m = rt_terminal_phase (rt_phase m)"

definition status_after :: "rt_phase \<Rightarrow> string option \<Rightarrow> rt_status \<Rightarrow> rt_status res" where
  "status_after target st old =
     (case st of
        Some s \<Rightarrow> rt_status_of s
      | None \<Rightarrow> ok (if target = RCompleted then SCompleted
                    else if target = RFailed then SFailed
                    else if target = RCancelled then SCancelled else old))"

definition rt_transition ::
  "string \<Rightarrow> string option \<Rightarrow> string \<Rightarrow> (string \<rightharpoonup> string) \<Rightarrow> rsm \<Rightarrow> rsm \<times> unit res" where
  "rt_transition phase st stop_reason metadata m =
    (case rt_phase_of phase of
       Inl e \<Rightarrow> (m, Inl e)
     | Inr target \<Rightarrow>
        if rt_terminal m then
          (if target = rt_phase m then (m, ok ())
           else (m, raise (ValueError ''terminal runtime cannot transition'')))
        else if target \<noteq> rt_phase m \<and> target \<notin> set (rt_allowed (rt_phase m)) then
          (m, raise (ValueError ''invalid runtime phase transition''))
        else if rt_terminal_phase target \<and> stop_reason = [] then
          (m, raise (ValueError ''terminal runtime transition requires stop_reason''))
        else
          (let m1 = m\<lparr>rt_phase := target\<rparr> in
           case status_after target st (rt_status m) of
             Inl e \<Rightarrow> (m1, Inl e)
           | Inr st' \<Rightarrow>
              (m1\<lparr>rt_status := st',
                  rt_stop_reason := (if stop_reason = [] then rt_stop_reason m else stop_reason),
                  rt_metadata := rt_metadata m ++ metadata,
                  rt_revision := rt_revision m + 1\<rparr>, ok ())))"

definition rt_finalize :: "string \<Rightarrow> string \<Rightarrow> (string \<rightharpoonup> string) \<Rightarrow> rsm \<Rightarrow> rsm \<times> unit res" where
  "rt_finalize status stop_reason metadata m =
    (if rt_terminal m then (m, ok ())
     else
       (let (tp, ts) = terminal_status_phases status;
            (m1, r1) = (if rt_phase m \<noteq> Finalizing
                        then rt_transition ''finalizing'' None [] Map.empty m else (m, ok ()))
        in case r1 of
             Inl e \<Rightarrow> (m1, Inl e)
           | Inr _ \<Rightarrow>
              rt_transition (rt_phase_value tp) (Some (rt_status_value ts))
                (if stop_reason = [] then rt_status_value ts else stop_reason) metadata m1))"

subsection \<open>Lemmas\<close>

lemma rt_phase_of_value [simp]: "rt_phase_of (rt_phase_value p) = Inr p"
  by (cases p) (simp_all add: rt_phase_of_def rt_phases_def)

lemma rt_phase_of_finalizing [simp]: "rt_phase_of ''finalizing'' = Inr Finalizing"
  using rt_phase_of_value[of Finalizing] by simp

lemma rt_status_of_value [simp]: "rt_status_of (rt_status_value p) = Inr p"
  by (cases p) (simp_all add: rt_status_of_def rt_statuses_def)

lemma rt_allowed_terminal: "rt_terminal_phase p \<Longrightarrow> rt_allowed p = []"
  by (auto simp: rt_terminal_phase_def)

lemma rt_allowed_finalizing: "\<not> rt_terminal_phase p \<Longrightarrow> p \<noteq> Finalizing \<Longrightarrow> Finalizing \<in> set (rt_allowed p)"
  by (cases p) (auto simp: rt_terminal_phase_def)

lemma rt_transition_terminal: "rt_terminal m \<Longrightarrow> fst (rt_transition p st r md m) = m"
  by (simp add: rt_transition_def split: sum.splits)

lemma rt_transition_phase:
  "rt_phase (fst (rt_transition p st r md m)) = rt_phase m \<or>
   rt_phase (fst (rt_transition p st r md m)) \<in> set (rt_allowed (rt_phase m))"
  by (auto simp: rt_transition_def Let_def split: sum.splits)

lemma rt_transition_ok_revision:
  "\<not> rt_terminal m \<Longrightarrow> snd (rt_transition p st r md m) = Inr () \<Longrightarrow>
     rt_revision (fst (rt_transition p st r md m)) = rt_revision m + 1"
  by (auto simp: rt_transition_def Let_def split: sum.splits if_splits)

lemma rt_transition_err_revision:
  "snd (rt_transition p st r md m) = Inl e \<Longrightarrow>
     rt_revision (fst (rt_transition p st r md m)) = rt_revision m"
  by (auto simp: rt_transition_def Let_def split: sum.splits if_splits)

lemma rt_transition_valid_status:
  "\<not> rt_terminal m \<Longrightarrow> q = rt_phase m \<or> q \<in> set (rt_allowed (rt_phase m)) \<Longrightarrow>
   (rt_terminal_phase q \<longrightarrow> r \<noteq> []) \<Longrightarrow>
   rt_transition (rt_phase_value q) (Some (rt_status_value ts)) r md m =
     (m\<lparr>rt_phase := q, rt_status := ts,
        rt_stop_reason := (if r = [] then rt_stop_reason m else r),
        rt_metadata := rt_metadata m ++ md, rt_revision := rt_revision m + 1\<rparr>, Inr ())"
  by (auto simp: rt_transition_def Let_def status_after_def)

lemma rt_transition_to_finalizing:
  "\<not> rt_terminal m \<Longrightarrow> rt_phase m \<noteq> Finalizing \<Longrightarrow>
   rt_transition ''finalizing'' None [] Map.empty m =
     (m\<lparr>rt_phase := Finalizing, rt_revision := rt_revision m + 1\<rparr>, Inr ())"
  using rt_allowed_finalizing[of "rt_phase m"]
  by (auto simp: rt_transition_def Let_def status_after_def rt_terminal_def rt_terminal_phase_def)

lemma terminal_status_phases_terminal:
  "rt_terminal_phase (fst (terminal_status_phases s)) \<and>
   fst (terminal_status_phases s) \<in> set (rt_allowed Finalizing)"
  by (auto simp: terminal_status_phases_def rt_terminal_phase_def)

lemma rt_status_value_ne [simp]: "rt_status_value s \<noteq> []"
  by (cases s) auto

text \<open>The status of a transition is either unset or one the enumeration knows.\<close>

record rt_request =
  rr_phase :: string
  rr_status :: "rt_status option"
  rr_stop_reason :: string
  rr_metadata :: "string \<rightharpoonup> string"

definition rt_step :: "rt_request \<Rightarrow> rsm \<Rightarrow> rsm" where
  "rt_step q m = fst (rt_transition (rr_phase q) (map_option rt_status_value (rr_status q))
     (rr_stop_reason q) (rr_metadata q) m)"

lemma status_after_known [simp]: "status_after p (map_option rt_status_value st) old \<noteq> Inl e"
  by (cases st) (auto simp: status_after_def)

lemma rt_step_revision:
  "rt_revision (rt_step q m) = rt_revision m \<and> rt_step q m = m \<or>
   rt_revision (rt_step q m) = rt_revision m + 1"
  by (auto simp: rt_step_def rt_transition_def Let_def split: sum.splits)

interpretation runtime: guarded_machine rt_phase rt_revision rt_step "\<lambda>p q. q \<in> set (rt_allowed p)"
proof
  fix e s
  show "rt_phase (rt_step e s) \<noteq> rt_phase s \<Longrightarrow> rt_phase (rt_step e s) \<in> set (rt_allowed (rt_phase s))"
    unfolding rt_step_def using rt_transition_phase by blast
  show "rt_revision s \<le> rt_revision (rt_step e s)" using rt_step_revision[of e s] by auto
  show "rt_phase (rt_step e s) \<noteq> rt_phase s \<Longrightarrow> rt_revision s < rt_revision (rt_step e s)"
    using rt_step_revision[of e s] by auto
qed

subsection \<open>Properties\<close>

text \<open>\<open>finalize\<close> works from every non-terminal phase and for every status text: it never
  raises, ends in the terminal phase and status of the table (failed for an unknown status),
  leaves a nonempty stop reason, and costs one revision from finalizing and two otherwise.
\<close>
theorem finalize_reaches_terminal:
  assumes "\<not> rt_terminal m"
  shows "\<exists>m'. rt_finalize status reason md m = (m', Inr ()) \<and> rt_terminal m' \<and>
     (rt_phase m', rt_status m') = terminal_status_phases status \<and> rt_stop_reason m' \<noteq> [] \<and>
     rt_revision m' = rt_revision m + (if rt_phase m = Finalizing then 1 else 2)"
proof -
  obtain tp ts where t: "terminal_status_phases status = (tp, ts)" by fastforce
  have tp: "rt_terminal_phase tp" "tp \<in> set (rt_allowed Finalizing)"
    using terminal_status_phases_terminal[of status] t by auto
  let ?m1 = "if rt_phase m \<noteq> Finalizing
             then m\<lparr>rt_phase := Finalizing, rt_revision := rt_revision m + 1\<rparr> else m"
  let ?r = "if reason = [] then rt_status_value ts else reason"
  have m1: "\<not> rt_terminal ?m1" "rt_phase ?m1 = Finalizing" using assms
    by (auto simp: rt_terminal_def rt_terminal_phase_def)
  have "rt_finalize status reason md m =
      rt_transition (rt_phase_value tp) (Some (rt_status_value ts)) ?r md ?m1"
    using assms by (simp add: rt_finalize_def t rt_transition_to_finalizing)
  also have "\<dots> = (?m1\<lparr>rt_phase := tp, rt_status := ts, rt_stop_reason := ?r,
      rt_metadata := rt_metadata ?m1 ++ md, rt_revision := rt_revision ?m1 + 1\<rparr>, Inr ())"
    using m1 tp by (subst rt_transition_valid_status) auto
  finally show ?thesis using t tp by (auto simp: rt_terminal_def)
qed

theorem finalize_reaches_terminal_witness:
  "\<exists>m'. rt_finalize ''stopped'' [] Map.empty rsm_init = (m', Inr ()) \<and>
     (rt_phase m', rt_status m') = (RCancelled, SCancelled)"
  using finalize_reaches_terminal[of rsm_init "''stopped''" "[]" Map.empty]
  by (auto simp: rsm_init_def rt_terminal_def rt_terminal_phase_def terminal_status_phases_def)

text \<open>
  There is one terminal state: once terminal, no request, accepted or rejected, and no
  further \<open>finalize\<close> changes anything of the machine, whatever was asked for.
\<close>
theorem terminal_runtime_frozen:
  assumes "rt_terminal m"
  shows "fst (rt_transition p st r md m) = m \<and> rt_finalize status r' md' m = (m, Inr ()) \<and>
     rt_phase (fold rt_step qs m) = rt_phase m \<and> rt_revision (fold rt_step qs m) = rt_revision m"
proof -
  have step: "rt_step q m = m" for q
    using assms by (simp add: rt_step_def rt_transition_terminal)
  have "fold rt_step qs m = m" by (induction qs) (simp_all add: step)
  then show ?thesis using assms by (simp add: rt_transition_terminal rt_finalize_def)
qed

theorem terminal_runtime_frozen_witness:
  "fst (rt_transition ''planning'' None [] Map.empty (rsm_init\<lparr>rt_phase := RFailed\<rparr>)) =
     rsm_init\<lparr>rt_phase := RFailed\<rparr>"
  using terminal_runtime_frozen[of "rsm_init\<lparr>rt_phase := RFailed\<rparr>"]
  by (simp add: rt_terminal_def rt_terminal_phase_def)

text \<open>
  A status text outside the enumeration makes an otherwise valid transition raise after
  the phase was assigned: the machine has moved, its revision and status have not.
\<close>
theorem bad_status_moves_phase:
  assumes "\<not> rt_terminal m" "q \<in> set (rt_allowed (rt_phase m))" "\<not> rt_terminal_phase q"
    and "rt_status_of bad = Inl e"
  shows "rt_transition (rt_phase_value q) (Some bad) r md m = (m\<lparr>rt_phase := q\<rparr>, Inl e)"
  using assms by (simp add: rt_transition_def Let_def status_after_def)

theorem bad_status_moves_phase_witness:
  "rt_phase (fst (rt_transition ''planning'' (Some ''paused'') [] Map.empty rsm_init)) = Planning"
  using bad_status_moves_phase[of rsm_init Planning "''paused''" _ "[]" Map.empty]
  by (simp add: rsm_init_def rt_terminal_def rt_terminal_phase_def rt_status_of_def rt_statuses_def)

end
