(* ===== verification/PatchText.thy ===== *)
theory PatchText
  imports Prelude
begin

text \<open>
  The text layer of \<open>agent_runtime/patch_engine.py\<close>: splitting a text into lines with its
  newline checks (\<open>_lines\<close>) and reading hunk headers (\<open>_HEADER\<close>, \<open>_coordinates\<close>), with the
  laws the patch application rests on: joining the kept lines gives the text back, and a
  printed header is read back as its coordinates.
\<close>

subsection \<open>Lines\<close>

definition has_crlf :: "string \<Rightarrow> bool" where
  "has_crlf s = sublist [CR, LF] s"

definition patch_error :: "string \<Rightarrow> exn" where
  "patch_error msg = PatchError msg ''invalid_patch''"

definition stale :: "string \<Rightarrow> exn" where
  "stale msg = PatchError msg ''stale_preimage''"

definition newline_conflict :: "string \<Rightarrow> bool" where
  "newline_conflict text =
     (CR \<in> set (crlf_to_lf text) \<or> (has_crlf text \<and> LF \<in> set (drop_crlf text)))"

definition check_text :: "string \<Rightarrow> string res" where
  "check_text text =
    (if NUL \<in> set text then raise (patch_error ''binary text is unsupported'')
     else if newline_conflict text
       then raise (patch_error ''mixed or CR-only newlines are unsupported'')
     else ok (crlf_to_lf text))"

definition keep_ends :: "string \<Rightarrow> string list" where
  "keep_ends normalized =
    (let parts = split_on LF normalized
     in map (\<lambda>p. p @ [LF]) (butlast parts) @ (if last parts = [] then [] else [last parts]))"

definition strip_ends :: "string \<Rightarrow> string list" where
  "strip_ends normalized =
    (if ends_with normalized [LF] then butlast (split_on LF normalized)
     else if normalized \<noteq> [] then split_on LF normalized else [])"

definition lines_keep :: "string \<Rightarrow> string list res" where
  "lines_keep text = bindR (check_text text) (\<lambda>n. ok (keep_ends n))"

definition lines_of :: "string \<Rightarrow> string list res" where
  "lines_of text = bindR (check_text text) (\<lambda>n. ok (strip_ends n))"

text \<open>The lines of a text: each holds at most one newline, at its end, and only the last may
  lack it.\<close>

definition is_line :: "string \<Rightarrow> bool" where
  "is_line l = (\<exists>w. LF \<notin> set w \<and> (l = w @ [LF] \<or> (l = w \<and> w \<noteq> [])))"

fun line_list :: "string list \<Rightarrow> bool" where
  "line_list [] = True"
| "line_list [l] = is_line l"
| "line_list (l # ls) = (is_line l \<and> last l = LF \<and> line_list ls)"

lemma keep_ends_Nil [simp]: "keep_ends [] = []"
  by (simp add: keep_ends_def)

lemma keep_ends_line: "LF \<notin> set w \<Longrightarrow> w \<noteq> [] \<Longrightarrow> keep_ends w = [w]"
  by (simp add: keep_ends_def split_on_single)

lemma keep_ends_line_append: "LF \<notin> set w \<Longrightarrow> keep_ends (w @ LF # s) = (w @ [LF]) # keep_ends s"
  by (simp add: keep_ends_def split_on_append Let_def)

lemma concat_keep_ends: "concat (keep_ends s) = s"
proof -
  have "concat (map (\<lambda>p. p @ [LF]) (butlast ps)) @ last ps = join_with [LF] ps" if "ps \<noteq> []" for ps
    using that by (induction "[LF]" ps rule: join_with.induct) auto
  from this[of "split_on LF s"] show ?thesis
    by (cases "last (split_on LF s) = []") (simp_all add: keep_ends_def join_split_on Let_def)
qed

lemma keep_ends_concat: "line_list ls \<Longrightarrow> keep_ends (concat ls) = ls"
proof (induction ls rule: line_list.induct)
  case (2 l)
  then show ?case
    by (auto simp: is_line_def keep_ends_line keep_ends_line_append[of _ "[]", simplified])
next
  case (3 l l' ls)
  then obtain w where "LF \<notin> set w" "l = w @ [LF]"
    by (auto simp: is_line_def) (metis last_in_set)+
  with 3 show ?case by (simp add: keep_ends_line_append)
qed simp

lemma line_list_Cons: "line_list (l # ls) \<longleftrightarrow> is_line l \<and> line_list ls \<and> (ls \<noteq> [] \<longrightarrow> last l = LF)"
  by (cases ls) auto

lemma line_list_keep_ends: "line_list (keep_ends s)"
proof -
  have gen: "line_list (map (\<lambda>p. p @ [LF]) (butlast ps) @ (if last ps = [] then [] else [last ps]))"
    if "ps \<noteq> []" "\<forall>p \<in> set ps. LF \<notin> set p" for ps
    using that
  proof (induction ps rule: list_nonempty_induct)
    case (cons p ps)
    then show ?case by (auto simp: line_list_Cons is_line_def)
  qed (auto simp: is_line_def)
  have "\<forall>p \<in> set (split_on LF s). LF \<notin> set p" by (intro ballI split_on_no_sep)
  from gen[OF split_on_ne this] show ?thesis by (simp add: keep_ends_def Let_def)
qed

lemma line_list_append_iff:
  "line_list (xs @ ys) \<longleftrightarrow>
     line_list xs \<and> line_list ys \<and> (ys \<noteq> [] \<longrightarrow> (\<forall>l \<in> set xs. last l = LF))"
  by (induction xs) (auto simp: line_list_Cons)

lemma line_list_intro:
  "\<forall>l \<in> set ls. is_line l \<Longrightarrow> \<forall>l \<in> set (butlast ls). last l = LF \<Longrightarrow> line_list ls"
proof (induction ls)
  case (Cons l ls)
  then show ?case by (cases "ls = []") (auto simp: line_list_Cons)
qed simp

lemma ends_with_LF_iff: "is_line l \<Longrightarrow> ends_with l [LF] \<longleftrightarrow> last l = LF"
  by (auto simp: is_line_def ends_with_def suffix_def) (metis append_butlast_last_id)

lemma line_list_is_line: "line_list ls \<Longrightarrow> l \<in> set ls \<Longrightarrow> is_line l"
  by (induction ls) (auto simp: line_list_Cons)

lemma line_list_butlast: "line_list ls \<Longrightarrow> l \<in> set (butlast ls) \<Longrightarrow> ends_with l [LF]"
  by (induction ls) (auto simp: line_list_Cons ends_with_LF_iff split: if_splits)

subsection \<open>Texts without carriage returns\<close>

definition plain_text :: "string \<Rightarrow> bool" where
  "plain_text s = (CR \<notin> set s \<and> NUL \<notin> set s)"

lemma has_crlf_plain [simp]: "CR \<notin> set s \<Longrightarrow> \<not> has_crlf s"
  by (auto simp: has_crlf_def sublist_def)

lemma check_text_plain [simp]: "plain_text s \<Longrightarrow> check_text s = ok s"
  by (simp add: plain_text_def check_text_def newline_conflict_def crlf_to_lf_id)

lemma lines_keep_plain [simp]: "plain_text s \<Longrightarrow> lines_keep s = ok (keep_ends s)"
  by (simp add: lines_keep_def)

lemma lines_of_plain [simp]: "plain_text s \<Longrightarrow> lines_of s = ok (strip_ends s)"
  by (simp add: lines_of_def)

lemma strip_ends_lines:
  assumes "\<forall>w \<in> set ws. LF \<notin> set w"
  shows "strip_ends (concat (map (\<lambda>w. w @ [LF]) ws)) = ws"
proof (cases "ws = []")
  case False
  have split: "split_on LF (concat (map (\<lambda>w. w @ [LF]) ws)) = ws @ [[]]" if "\<forall>w \<in> set ws. LF \<notin> set w" for ws
    using that by (induction ws) (simp_all add: split_on_append)
  have "ends_with (concat (map (\<lambda>w. w @ [LF]) ws)) [LF]"
    using False by (induction ws rule: rev_induct) (auto simp: ends_with_def suffix_def)
  then show ?thesis using split[OF assms] by (simp add: strip_ends_def)
qed (simp add: strip_ends_def ends_with_def)

lemma strip_ends_no_LF: "w \<in> set (strip_ends s) \<Longrightarrow> LF \<notin> set w"
  using split_on_no_sep[of w LF s]
  by (auto simp: strip_ends_def split: if_splits dest: in_set_butlastD)

lemma strip_ends_ne: "s \<noteq> [] \<Longrightarrow> strip_ends s \<noteq> []"
proof
  assume s: "s \<noteq> []" "strip_ends s = []"
  then have LF: "LF \<in> set s" and "butlast (split_on LF s) = []"
    by (auto simp: strip_ends_def ends_with_def suffix_def split: if_splits)
  then obtain w where w: "split_on LF s = [w]"
    by (cases "split_on LF s") (auto split: if_splits)
  then have "s = w" using join_split_on[of LF s] by simp
  then show False using LF split_on_no_sep[of w LF s] w by simp
qed

lemma lines_of_no_LF: "lines_of t = Inr ls \<Longrightarrow> w \<in> set ls \<Longrightarrow> LF \<notin> set w"
  by (auto simp: lines_of_def monad_simps dest: strip_ends_no_LF)

subsection \<open>Hunk headers\<close>

definition opt_count :: "string \<Rightarrow> (nat \<times> string) option" where
  "opt_count s =
    (case s of
       [] \<Rightarrow> Some (1, s)
     | c # cs \<Rightarrow>
        (if c = CHR '','' then
           (if takeWhile is_digit cs = [] then None
            else Some (digits_val (takeWhile is_digit cs), dropWhile is_digit cs))
         else Some (1, s)))"

definition need_number :: "string \<Rightarrow> (nat \<times> string) option" where
  "need_number s =
    (if takeWhile is_digit s = [] then None
     else Some (digits_val (takeWhile is_digit s), dropWhile is_digit s))"

definition need_prefix :: "string \<Rightarrow> string \<Rightarrow> string option" where
  "need_prefix p s = (if prefix p s then Some (drop (length p) s) else None)"

definition parse_header :: "string \<Rightarrow> (nat \<times> nat \<times> nat \<times> nat) option" where
  "parse_header h =
    Option.bind (need_prefix ''@@ -'' h) (\<lambda>s.
    Option.bind (need_number s) (\<lambda>(a, s).
    Option.bind (opt_count s) (\<lambda>(n, s).
    Option.bind (need_prefix '' +'' s) (\<lambda>s.
    Option.bind (need_number s) (\<lambda>(b, s).
    Option.bind (opt_count s) (\<lambda>(m, s).
    Option.bind (need_prefix '' @@'' s) (\<lambda>s.
      if LF \<in> set s then None else Some (a, n, b, m))))))))"

definition coordinates :: "string \<Rightarrow> (nat \<times> nat \<times> nat \<times> nat) res" where
  "coordinates h =
    (case parse_header h of
       None \<Rightarrow> raise (patch_error (''invalid hunk header: '' @ h))
     | Some (a, n, b, m) \<Rightarrow>
        (if (n \<noteq> 0 \<and> a = 0) \<or> (m \<noteq> 0 \<and> b = 0)
         then raise (patch_error ''nonempty hunk coordinates must start at one'')
         else ok (a - (if n \<noteq> 0 then 1 else 0), n, b - (if m \<noteq> 0 then 1 else 0), m)))"

text \<open>The header the engine prints for a hunk: \<open>f"@@ -{a},{n} +{b},{m} @@"\<close>.\<close>

definition print_header :: "nat \<Rightarrow> nat \<Rightarrow> nat \<Rightarrow> nat \<Rightarrow> string" where
  "print_header a n b m =
     ''@@ -'' @ nat_str a @ '','' @ nat_str n @ '' +'' @ nat_str b @ '','' @ nat_str m @ '' @@''"

lemma takeWhile_nat_str [simp]:
  "\<not> is_digit c \<Longrightarrow> takeWhile is_digit (nat_str n @ c # s) = nat_str n"
  "\<not> is_digit c \<Longrightarrow> dropWhile is_digit (nat_str n @ c # s) = c # s"
proof -
  assume c: "\<not> is_digit c"
  have d: "\<And>x. x \<in> set (nat_str n) \<Longrightarrow> is_digit x" by (rule nat_str_digits)
  show "takeWhile is_digit (nat_str n @ c # s) = nat_str n"
    using c d by (simp add: takeWhile_append)
  show "dropWhile is_digit (nat_str n @ c # s) = c # s"
    using c d by (simp add: dropWhile_append)
qed

lemma parse_print_header [simp]: "parse_header (print_header a n b m) = Some (a, n, b, m)"
  by (simp add: parse_header_def print_header_def need_prefix_def need_number_def opt_count_def
      is_digit_def)

lemma coordinates_print:
  "(n \<noteq> 0 \<longrightarrow> a \<noteq> 0) \<Longrightarrow> (m \<noteq> 0 \<longrightarrow> b \<noteq> 0) \<Longrightarrow>
   coordinates (print_header a n b m) =
     ok (a - (if n \<noteq> 0 then 1 else 0), n, b - (if m \<noteq> 0 then 1 else 0), m)"
  by (auto simp: coordinates_def)

lemma print_header_at [simp]: "prefix ''@@'' (print_header a n b m)"
  by (simp add: print_header_def)

lemma print_header_no_LF: "LF \<notin> set (print_header a n b m)"
  using nat_str_digits[of LF] by (auto simp: print_header_def is_digit_def)

end
