(* ===== verification/PatchApply.thy ===== *)
theory PatchApply
  imports PatchText
begin

text \<open>
  The application half of \<open>agent_runtime/patch_engine.py\<close>: hunks, plans, \<open>apply_text\<close> in its
  replacement and diff modes, and \<open>apply_file_patches\<close>.  The specification a successful diff
  application meets is a splice: the original is a sequence of untouched gaps and hunk
  preimages, the output the same gaps with the hunk postimages, and the reversed plan takes
  the output back to the original.
\<close>

subsection \<open>Model\<close>

record patch_hunk =
  ph_header :: string
  ph_lines :: "(char \<times> string) list"
  ph_no_newline :: "nat set"

record patch_plan =
  pl_mode :: string
  pl_hunks :: "patch_hunk list"
  pl_old_text :: string
  pl_new_text :: string
  pl_newline :: string

record file_patch =
  fp_path :: string
  fp_action :: string
  fp_plan :: patch_plan

definition in_old :: "char \<Rightarrow> bool" where
  "in_old k = (k = CHR '' '' \<or> k = CHR ''-'')"

definition in_new :: "char \<Rightarrow> bool" where
  "in_new k = (k = CHR '' '' \<or> k = CHR ''+'')"

definition hunk_line :: "nat set \<Rightarrow> nat \<Rightarrow> string \<Rightarrow> string" where
  "hunk_line marks i content = content @ (if i \<in> marks then [] else [LF])"

record hunk_state =
  hs_cursor :: nat
  hs_old_used :: nat
  hs_new_used :: nat
  hs_output :: "string list"

fun apply_lines ::
  "string list \<Rightarrow> nat set \<Rightarrow> nat \<Rightarrow> (char \<times> string) list \<Rightarrow> hunk_state \<Rightarrow> hunk_state res" where
  "apply_lines original marks i [] st = ok st"
| "apply_lines original marks i ((kind, content) # ls) st =
    (let line = hunk_line marks i content in
     if in_old kind \<and>
        (hs_cursor st \<ge> length original \<or> original ! hs_cursor st \<noteq> line)
     then raise (stale ''hunk preimage mismatch'')
     else
       (let st1 = (if in_old kind
                   then st\<lparr>hs_cursor := hs_cursor st + 1, hs_old_used := hs_old_used st + 1\<rparr>
                   else st);
            st2 = (if in_new kind
                   then st1\<lparr>hs_output := hs_output st1 @ [line], hs_new_used := hs_new_used st1 + 1\<rparr>
                   else st1)
        in apply_lines original marks (Suc i) ls st2))"

definition apply_hunk ::
  "string list \<Rightarrow> patch_hunk \<Rightarrow> nat \<times> string list \<Rightarrow> (nat \<times> string list) res" where
  "apply_hunk original h co =
    (let (cursor, output) = co in
     bindR (coordinates (ph_header h)) (\<lambda>(start, old_count, new_start, new_count).
      if start < cursor \<or> start > length original \<or> start + old_count > length original
      then raise (stale ''overlapping or out of range hunk'')
      else
       (let output' = output @ take (start - cursor) (drop cursor original) in
        if new_start \<noteq> length output'
        then raise (patch_error ''inconsistent new hunk coordinates'')
        else
          bindR (apply_lines original (ph_no_newline h) 0 (ph_lines h)
             \<lparr>hs_cursor = start, hs_old_used = 0, hs_new_used = 0, hs_output = output'\<rparr>)
           (\<lambda>st. if hs_old_used st \<noteq> old_count \<or> hs_new_used st \<noteq> new_count
                  then raise (patch_error ''hunk line counts mismatch'')
                  else ok (hs_cursor st, hs_output st)))))"

definition apply_diff :: "string \<Rightarrow> patch_plan \<Rightarrow> string res" where
  "apply_diff text plan =
    (if newline_conflict text
     then raise (patch_error ''mixed or CR-only newlines are unsupported'')
     else
      (let newline = (if has_crlf text then [CR, LF]
                      else if LF \<in> set text then [LF] else pl_newline plan) in
       bindR (lines_keep text) (\<lambda>original.
       bindR (foldR (apply_hunk original) (pl_hunks plan) (0, [])) (\<lambda>(cursor, output).
         let output' = output @ drop cursor original in
         if \<exists>l \<in> set (butlast output'). \<not> ends_with l [LF]
         then raise (patch_error ''no-newline marker may only terminate a file'')
         else ok (lf_to newline (concat output'))))))"

definition apply_replacement :: "string \<Rightarrow> patch_plan \<Rightarrow> string res" where
  "apply_replacement text plan =
    (if NUL \<in> set (pl_new_text plan) then raise (patch_error ''binary text is unsupported'')
     else if pl_old_text plan = [] \<or> count_sub (pl_old_text plan) text \<noteq> 1
       then raise (stale ''old_text must match exactly once'')
     else bindR (lines_of text) (\<lambda>_.
       let result = replace_first (pl_old_text plan) (pl_new_text plan) text in
       bindR (lines_of result) (\<lambda>_. ok result)))"

definition apply_text :: "string \<Rightarrow> patch_plan \<Rightarrow> string res" where
  "apply_text text plan =
    (if NUL \<in> set text then raise (patch_error ''binary text is unsupported'')
     else if pl_mode plan = ''replacement'' then apply_replacement text plan
     else if pl_mode plan \<noteq> ''diff'' then raise (patch_error (''unsupported patch mode: '' @ pl_mode plan))
     else apply_diff text plan)"

type_synonym sources = "string \<rightharpoonup> string option"
type_synonym outputs = "(string, string option) alist"

definition apply_file_patch :: "sources \<Rightarrow> file_patch \<Rightarrow> outputs \<Rightarrow> outputs res" where
  "apply_file_patch sources p output =
    (case sources (fp_path p) of
       None \<Rightarrow> raise (KeyError (fp_path p))
     | Some source \<Rightarrow>
        if casefold (fp_path p) \<in> set (map casefold (al_keys output))
        then raise (patch_error ''duplicate target'')
        else if (fp_action p = ''add'' \<and> source \<noteq> None) \<or> (fp_action p \<noteq> ''add'' \<and> source = None)
        then raise (stale (''file existence changed: '' @ fp_path p))
        else
          bindR (apply_text (case source of None \<Rightarrow> [] | Some t \<Rightarrow> t) (fp_plan p)) (\<lambda>result.
            if fp_action p = ''delete'' \<and> result \<noteq> []
            then raise (patch_error ''delete patch must remove the entire file'')
            else ok (al_put (fp_path p)
                   (if fp_action p = ''delete'' then None else Some result) output)))"

definition apply_file_patches :: "sources \<Rightarrow> file_patch list \<Rightarrow> outputs res" where
  "apply_file_patches sources files = foldR (apply_file_patch sources) files []"

subsection \<open>What the lines of a hunk do\<close>

text \<open>The two sides of a hunk, with the newline each line carries.\<close>

fun sided :: "(char \<Rightarrow> bool) \<Rightarrow> nat set \<Rightarrow> nat \<Rightarrow> (char \<times> string) list \<Rightarrow> string list" where
  "sided side marks i [] = []"
| "sided side marks i ((k, c) # ls) =
     (if side k then hunk_line marks i c # sided side marks (Suc i) ls
      else sided side marks (Suc i) ls)"

definition old_side :: "patch_hunk \<Rightarrow> string list" where
  "old_side h = sided in_old (ph_no_newline h) 0 (ph_lines h)"

definition new_side :: "patch_hunk \<Rightarrow> string list" where
  "new_side h = sided in_new (ph_no_newline h) 0 (ph_lines h)"

lemma apply_lines_spec:
  "apply_lines original marks i ls st = Inr st' \<longleftrightarrow>
     prefix (sided in_old marks i ls) (drop (hs_cursor st) original) \<and>
     st' = \<lparr>hs_cursor = hs_cursor st + length (sided in_old marks i ls),
            hs_old_used = hs_old_used st + length (sided in_old marks i ls),
            hs_new_used = hs_new_used st + length (sided in_new marks i ls),
            hs_output = hs_output st @ sided in_new marks i ls\<rparr>"
proof (induction original marks i ls st rule: apply_lines.induct)
  case (2 original marks i kind content ls st)
  have drop: "drop (hs_cursor st) original =
      original ! hs_cursor st # drop (Suc (hs_cursor st)) original"
    if "hs_cursor st < length original"
    using that by (simp add: Cons_nth_drop_Suc)
  show ?case
  proof (cases "in_old kind")
    case True
    show ?thesis
    proof (cases "hs_cursor st < length original")
      case lt: True
      then show ?thesis using 2 True by (auto simp: Let_def drop)
    next
      case False
      then show ?thesis using True by (auto simp: Let_def)
    qed
  next
    case False
    then show ?thesis using 2 by (auto simp: Let_def)
  qed
qed (auto intro: hunk_state.equality)

lemma apply_hunk_ok_iff:
  "apply_hunk original h (c, out) = Inr (c', out') \<longleftrightarrow>
    (\<exists>start n ns m. coordinates (ph_header h) = Inr (start, n, ns, m) \<and>
       c \<le> start \<and> start + n \<le> length original \<and>
       n = length (old_side h) \<and> m = length (new_side h) \<and>
       prefix (old_side h) (drop start original) \<and>
       ns = length out + (start - c) \<and>
       c' = start + n \<and> out' = out @ take (start - c) (drop c original) @ new_side h)"
  (is "?L \<longleftrightarrow> ?R")
proof
  assume ?L
  then show ?R
    by (auto simp: apply_hunk_def monad_simps Let_def apply_lines_spec old_side_def new_side_def
        split: prod.splits if_splits)
next
  assume ?R
  then obtain start n ns m where "coordinates (ph_header h) = Inr (start, n, ns, m)"
      "c \<le> start" "start + n \<le> length original"
      "n = length (old_side h)" "m = length (new_side h)"
      "prefix (old_side h) (drop start original)" "ns = length out + (start - c)"
      "c' = start + n" "out' = out @ take (start - c) (drop c original) @ new_side h"
    by blast
  then show ?L
    by (simp add: apply_hunk_def monad_simps apply_lines_spec old_side_def new_side_def
        min_absorb2)
qed

text \<open>A run of hunks from one cursor and output to another, as a splice.\<close>

inductive spliced :: "string list \<Rightarrow> patch_hunk list \<Rightarrow> string list \<Rightarrow> string list \<Rightarrow> bool" where
  spliced_nil: "spliced tail [] tail tail"
| spliced_hunk: "spliced rest hs old new \<Longrightarrow>
     spliced rest (h # hs) (gap @ old_side h @ old) (gap @ new_side h @ new)"

lemma apply_hunks_spliced:
  assumes "foldR (apply_hunk original) hs (c, out) = Inr (c', out')" "c \<le> length original"
  shows "c \<le> c' \<and> c' \<le> length original \<and>
     (\<exists>new. out' = out @ new \<and>
        spliced (drop c' original) hs (drop c original) (new @ drop c' original))"
  using assms
proof (induction hs arbitrary: c out)
  case (Cons h hs)
  from Cons.prems(1) obtain d mid where step: "apply_hunk original h (c, out) = Inr (d, mid)"
    and rest: "foldR (apply_hunk original) hs (d, mid) = Inr (c', out')"
    by (auto simp: monad_simps)
  from step obtain start where st: "c \<le> start" "d = start + length (old_side h)"
      "d \<le> length original" "prefix (old_side h) (drop start original)"
      "mid = out @ take (start - c) (drop c original) @ new_side h"
    by (auto simp: apply_hunk_ok_iff)
  from Cons.IH[OF rest st(3)] obtain new where new: "d \<le> c'" "c' \<le> length original"
      "out' = mid @ new" "spliced (drop c' original) hs (drop d original) (new @ drop c' original)"
    by blast
  have "drop start original = old_side h @ drop d original"
    using st(2,4) by (auto simp: prefix_def) (metis add.commute append_eq_conv_conj drop_drop)
  moreover have "drop c original = take (start - c) (drop c original) @ drop start original"
    using st(1) by (metis append_take_drop_id drop_drop le_add_diff_inverse2)
  ultimately have "drop c original =
      take (start - c) (drop c original) @ old_side h @ drop d original" by simp
  then show ?case
    using spliced_hunk[OF new(4), of h "take (start - c) (drop c original)"] new st(1,2,5)
    by auto
qed (auto intro: spliced_nil)


subsection \<open>Undoing a diff\<close>

text \<open>The plan with every hunk turned around: sides and coordinates exchanged.\<close>

definition flip_kind :: "char \<Rightarrow> char" where
  "flip_kind k = (if k = CHR ''-'' then CHR ''+'' else if k = CHR ''+'' then CHR ''-'' else k)"

definition flip_header :: "string \<Rightarrow> string" where
  "flip_header hdr =
    (case coordinates hdr of
       Inl e \<Rightarrow> hdr
     | Inr (s, n, ns, m) \<Rightarrow>
         print_header (ns + (if m \<noteq> 0 then 1 else 0)) m (s + (if n \<noteq> 0 then 1 else 0)) n)"

definition flip_hunk :: "patch_hunk \<Rightarrow> patch_hunk" where
  "flip_hunk h = h\<lparr>ph_header := flip_header (ph_header h),
                   ph_lines := map (\<lambda>(k, c). (flip_kind k, c)) (ph_lines h)\<rparr>"

definition flip_plan :: "patch_plan \<Rightarrow> patch_plan" where
  "flip_plan plan = plan\<lparr>pl_hunks := map flip_hunk (pl_hunks plan)\<rparr>"

text \<open>A hunk whose lines are single lines of plain text, none of them an empty line without
  its newline.\<close>

definition plain_hunk :: "patch_hunk \<Rightarrow> bool" where
  "plain_hunk h \<longleftrightarrow>
     (\<forall>i < length (ph_lines h).
        let c = snd (ph_lines h ! i) in
        LF \<notin> set c \<and> plain_text c \<and> (i \<in> ph_no_newline h \<longrightarrow> c \<noteq> []))"

lemma flip_sides [simp]:
  "in_old (flip_kind k) = in_new k" "in_new (flip_kind k) = in_old k"
  by (auto simp: flip_kind_def in_old_def in_new_def)

lemma sided_flip:
  "sided in_old marks i (map (\<lambda>(k, c). (flip_kind k, c)) ls) = sided in_new marks i ls"
  "sided in_new marks i (map (\<lambda>(k, c). (flip_kind k, c)) ls) = sided in_old marks i ls"
  by (induction ls arbitrary: i) auto

lemma flip_hunk_sides [simp]:
  "old_side (flip_hunk h) = new_side h" "new_side (flip_hunk h) = old_side h"
  by (simp_all add: old_side_def new_side_def flip_hunk_def sided_flip)

lemma coordinates_flip:
  "coordinates hdr = Inr (s, n, ns, m) \<Longrightarrow> coordinates (flip_header hdr) = Inr (ns, m, s, n)"
  by (simp add: flip_header_def coordinates_print)

lemma apply_hunk_flip:
  assumes "apply_hunk original h (c, out) = Inr (c', out')" "c \<le> length original"
    and "prefix out' N"
  shows "apply_hunk N (flip_hunk h) (length out, take c original) = Inr (length out', take c' original)"
proof -
  from assms(1) obtain s where co: "coordinates (ph_header h) =
        Inr (s, length (old_side h), length out + (s - c), length (new_side h))"
      and s: "c \<le> s" "s + length (old_side h) \<le> length original"
      and pre: "prefix (old_side h) (drop s original)"
      and c': "c' = s + length (old_side h)"
      and out': "out' = out @ take (s - c) (drop c original) @ new_side h"
    by (auto simp: apply_hunk_ok_iff)
  from assms(3) obtain rest where N: "N = out @ take (s - c) (drop c original) @ new_side h @ rest"
    by (auto simp: prefix_def out')
  have gap: "length (take (s - c) (drop c original)) = s - c" using s by simp
  have old: "drop s original = old_side h @ drop c' original"
    using pre by (auto simp: prefix_def c') (metis add.commute append_eq_conv_conj drop_drop)
  have side: "take (length (old_side h)) (drop s original) = old_side h"
    using old by simp
  have "take (c + (s - c)) original = take c original @ take (s - c) (drop c original)"
    by (rule take_add)
  then have "take s original = take c original @ take (s - c) (drop c original)"
    using s(1) by simp
  then have tk: "take c' original = take c original @ take (s - c) (drop c original) @ old_side h"
    by (simp add: c' take_add side)
  have co': "coordinates (ph_header (flip_hunk h)) =
      Inr (length out + (s - c), length (new_side h), s, length (old_side h))"
    using coordinates_flip[OF co] by (simp add: flip_hunk_def)
  have dN: "drop (length out + (s - c)) N = new_side h @ rest"
    using gap by (simp add: N)
  show ?thesis
    using s gap dN assms(2)
    by (auto simp: apply_hunk_ok_iff co' tk[unfolded c'] out' N min_absorb2 c')
qed

lemma apply_hunks_flip:
  assumes "foldR (apply_hunk original) hs (c, out) = Inr (c', out')" "c \<le> length original"
    and "prefix out' N"
  shows "foldR (apply_hunk N) (map flip_hunk hs) (length out, take c original)
           = Inr (length out', take c' original)"
  using assms
proof (induction hs arbitrary: c out)
  case (Cons h hs)
  from Cons.prems(1) obtain d mid where step: "apply_hunk original h (c, out) = Inr (d, mid)"
    and rest: "foldR (apply_hunk original) hs (d, mid) = Inr (c', out')"
    by (auto simp: monad_simps)
  have d: "d \<le> length original" using step by (auto simp: apply_hunk_ok_iff)
  have "prefix mid out'" using apply_hunks_spliced[OF rest d] by auto
  then have "prefix mid N" using Cons.prems(3) by (rule prefix_order.trans)
  with step Cons.prems(2) have
    "apply_hunk N (flip_hunk h) (length out, take c original) = Inr (length mid, take d original)"
    by (rule apply_hunk_flip)
  then show ?case using Cons.IH[OF rest d Cons.prems(3)] by simp
qed simp


subsection \<open>What applying a diff does\<close>

lemma apply_diff_plain:
  assumes "plain_text text" "pl_newline plan = [LF]"
  shows "apply_diff text plan =
    bindR (foldR (apply_hunk (keep_ends text)) (pl_hunks plan) (0, [])) (\<lambda>(cursor, output).
      if \<exists>l \<in> set (butlast (output @ drop cursor (keep_ends text))). \<not> ends_with l [LF]
      then raise (patch_error ''no-newline marker may only terminate a file'')
      else ok (concat (output @ drop cursor (keep_ends text))))"
proof -
  have "\<not> newline_conflict text"
    using assms(1) by (simp add: newline_conflict_def plain_text_def crlf_to_lf_id)
  then show ?thesis
    using assms by (simp add: apply_diff_def plain_text_def Let_def lines_keep_def check_text_def
        newline_conflict_def crlf_to_lf_id cong: if_cong)
qed

lemma sided_line:
  assumes "l \<in> set (sided side marks i ls)"
  shows "\<exists>j < length ls. l = hunk_line marks (i + j) (snd (ls ! j))"
  using assms
proof (induction side marks i ls rule: sided.induct)
  case (2 side marks i k c ls)
  show ?case
  proof (cases "l = hunk_line marks i c")
    case True
    then show ?thesis by (intro exI[of _ 0]) simp
  next
    case False
    with 2 obtain j where "j < length ls" "l = hunk_line marks (Suc i + j) (snd (ls ! j))"
      by (auto split: if_splits)
    then show ?thesis by (intro exI[of _ "Suc j"]) simp
  qed
qed simp

lemma plain_hunk_line:
  assumes "plain_hunk h" "l \<in> set (old_side h) \<union> set (new_side h)"
  shows "is_line l" "plain_text l"
proof -
  from assms(2) obtain j where "j < length (ph_lines h)"
      "l = hunk_line (ph_no_newline h) j (snd (ph_lines h ! j))"
    by (auto simp: old_side_def new_side_def dest!: sided_line)
  with assms(1) show "is_line l" "plain_text l"
    by (auto simp: plain_hunk_def Let_def hunk_line_def is_line_def plain_text_def)
qed

lemma spliced_new_lines:
  "spliced tail hs old new \<Longrightarrow> set new \<subseteq> set old \<union> (\<Union>h \<in> set hs. set (new_side h))"
  by (induction rule: spliced.induct) auto

lemma keep_ends_lines:
  assumes "l \<in> set (keep_ends s)"
  shows "is_line l" and "set l \<subseteq> set s"
proof -
  show "is_line l" using line_list_keep_ends assms by (rule line_list_is_line)
  have "set l \<subseteq> set (concat (keep_ends s))" using assms by auto
  then show "set l \<subseteq> set s" by (simp add: concat_keep_ends)
qed

text \<open>A successful run of a diff on a plain text, taken apart.\<close>

lemma apply_text_run:
  assumes "plain_text text" "pl_mode plan = ''diff''" "pl_newline plan = [LF]"
    and "apply_text text plan = ok out"
  obtains cur o1 where
    "foldR (apply_hunk (keep_ends text)) (pl_hunks plan) (0, []) = ok (cur, o1)"
    "\<forall>l \<in> set (butlast (o1 @ drop cur (keep_ends text))). ends_with l [LF]"
    "out = concat (o1 @ drop cur (keep_ends text))"
    "spliced (drop cur (keep_ends text)) (pl_hunks plan) (keep_ends text)
       (o1 @ drop cur (keep_ends text))"
proof -
  have "apply_diff text plan = ok out"
    using assms by (auto simp: apply_text_def split: if_splits)
  then obtain cur o1 where
    *: "foldR (apply_hunk (keep_ends text)) (pl_hunks plan) (0, []) = ok (cur, o1)"
    "\<forall>l \<in> set (butlast (o1 @ drop cur (keep_ends text))). ends_with l [LF]"
    "out = concat (o1 @ drop cur (keep_ends text))"
    by (auto simp: apply_diff_plain[OF assms(1,3)] monad_simps split: if_splits prod.splits)
  show thesis using that[OF *] apply_hunks_spliced[OF *(1)] by simp
qed

text \<open>On plain hunks the output is plain again and its lines are the spliced ones.\<close>

lemma spliced_output:
  assumes "plain_text text" "\<forall>h \<in> set hs. plain_hunk h"
    and "spliced tail hs (keep_ends text) new"
    and "\<forall>l \<in> set (butlast new). ends_with l [LF]"
  shows "keep_ends (concat new) = new" "plain_text (concat new)"
proof -
  have good: "is_line l \<and> plain_text l" if l: "l \<in> set new" for l
  proof (cases "l \<in> set (keep_ends text)")
    case True
    then show ?thesis using assms(1) keep_ends_lines[of l "text"] by (auto simp: plain_text_def)
  next
    case False
    then obtain h where "h \<in> set hs" "l \<in> set (new_side h)"
      using spliced_new_lines[OF assms(3)] l by blast
    then show ?thesis using assms(2) plain_hunk_line[of h l] by simp
  qed
  have "last l = LF" if "l \<in> set (butlast new)" for l
    using bspec[OF assms(4) that] good[OF in_set_butlastD[OF that]] ends_with_LF_iff by blast
  then show "keep_ends (concat new) = new"
    using good by (intro keep_ends_concat line_list_intro) blast+
  show "plain_text (concat new)" using good by (fastforce simp: plain_text_def)
qed

lemma apply_text_splices:
  assumes "plain_text text" "pl_mode plan = ''diff''" "pl_newline plan = [LF]"
    and "\<forall>h \<in> set (pl_hunks plan). plain_hunk h" "apply_text text plan = ok out"
  shows "\<exists>tail. spliced tail (pl_hunks plan) (keep_ends text) (keep_ends out)"
  using assms(1-3,5)
proof (rule apply_text_run)
  fix cur o1
  assume *: "\<forall>l \<in> set (butlast (o1 @ drop cur (keep_ends text))). ends_with l [LF]"
    "out = concat (o1 @ drop cur (keep_ends text))"
    "spliced (drop cur (keep_ends text)) (pl_hunks plan) (keep_ends text)
       (o1 @ drop cur (keep_ends text))"
  show ?thesis using spliced_output[OF assms(1,4) *(3,1)] *(2,3) by auto
qed

text \<open>C14. Applying a diff is a splice: when it succeeds on a text without carriage returns,
  the lines of the text are the gaps between the hunks with each hunk's context and removed
  lines, and the output is the same gaps with each hunk's context and added lines, so no line
  outside a hunk is lost, moved or changed.\<close>

theorem diff_application_splices:
  assumes "plain_text text" "pl_mode plan = ''diff''" "pl_newline plan = [LF]"
    and "apply_text text plan = ok out"
  shows "\<exists>tail new. spliced tail (pl_hunks plan) (keep_ends text) new \<and> out = concat new"
  using assms by (rule apply_text_run) blast

text \<open>Undo: after a successful diff on a plain text, the diff with every hunk turned around
  (sides and coordinates exchanged) applies to the output and gives the original text back.\<close>

theorem flipped_diff_undoes:
  assumes "plain_text text" "pl_mode plan = ''diff''" "pl_newline plan = [LF]"
    and "\<forall>h \<in> set (pl_hunks plan). plain_hunk h"
    and "apply_text text plan = ok out"
  shows "apply_text out (flip_plan plan) = ok text"
  using assms(1-3,5)
proof (rule apply_text_run)
  let ?ls = "keep_ends text"
  fix cur o1
  let ?N = "o1 @ drop cur ?ls"
  assume run: "foldR (apply_hunk ?ls) (pl_hunks plan) (0, []) = ok (cur, o1)"
    and *: "\<forall>l \<in> set (butlast ?N). ends_with l [LF]" "out = concat ?N"
      "spliced (drop cur ?ls) (pl_hunks plan) ?ls ?N"
  have N: "keep_ends out = ?N" and plain: "plain_text out"
    using spliced_output[OF assms(1,4) *(3,1)] *(2) by simp_all
  have "foldR (apply_hunk ?N) (map flip_hunk (pl_hunks plan)) (0, [])
      = ok (length o1, take cur ?ls)"
    using apply_hunks_flip[OF run] by simp
  moreover have "\<forall>l \<in> set (butlast ?ls). ends_with l [LF]"
    by (simp add: line_list_butlast[OF line_list_keep_ends])
  ultimately have "apply_diff out (flip_plan plan) = ok text"
    using assms(3) by (simp add: apply_diff_plain[OF plain] flip_plan_def N concat_keep_ends)
  then show ?thesis
    using plain assms(2) by (simp add: apply_text_def flip_plan_def plain_text_def)
qed

definition sample_plan :: patch_plan where
  "sample_plan = \<lparr>pl_mode = ''diff'',
     pl_hunks = [\<lparr>ph_header = print_header 1 2 1 2,
                  ph_lines = [(CHR '' '', ''a''), (CHR ''-'', ''b''), (CHR ''+'', ''c'')],
                  ph_no_newline = {}\<rparr>],
     pl_old_text = [], pl_new_text = [], pl_newline = [LF]\<rparr>"

lemma sample_plan_applies:
  "apply_text (''a'' @ [LF] @ ''b'' @ [LF] @ ''d'') sample_plan = ok (''a'' @ [LF] @ ''c'' @ [LF] @ ''d'')"
  by code_simp

theorem diff_application_splices_witness:
  "\<exists>tail new. spliced tail (pl_hunks sample_plan) (keep_ends (''a'' @ [LF] @ ''b'' @ [LF] @ ''d'')) new
     \<and> ''a'' @ [LF] @ ''c'' @ [LF] @ ''d'' = concat new"
  by (rule diff_application_splices[OF _ _ _ sample_plan_applies])
     (simp_all add: plain_text_def sample_plan_def)

theorem flipped_diff_undoes_witness:
  "apply_text (''a'' @ [LF] @ ''c'' @ [LF] @ ''d'') (flip_plan sample_plan)
     = ok (''a'' @ [LF] @ ''b'' @ [LF] @ ''d'')"
  by (rule flipped_diff_undoes[OF _ _ _ _ sample_plan_applies])
     (auto simp: plain_text_def sample_plan_def plain_hunk_def less_Suc_eq_0_disj)

subsection \<open>Replacements and sets of files\<close>

lemma lines_of_ok_NUL: "lines_of t = Inr ls \<Longrightarrow> NUL \<notin> set t"
  by (auto simp: lines_of_def check_text_def monad_simps split: if_splits)

text \<open>A replacement changes one place: it succeeds exactly when the old text is not empty,
  counts one occurrence, and both the text and the result are binary-free with consistent
  newlines; the result is then the text with one occurrence exchanged.\<close>

theorem replacement_edits_one_place:
  assumes "pl_mode plan = ''replacement''"
  shows "apply_text text plan = ok out \<longleftrightarrow>
    pl_old_text plan \<noteq> [] \<and> count_sub (pl_old_text plan) text = 1 \<and>
    NUL \<notin> set (pl_new_text plan) \<and> is_ok (lines_of text) \<and> is_ok (lines_of out) \<and>
    (\<exists>a b. text = a @ pl_old_text plan @ b \<and> out = a @ pl_new_text plan @ b \<and>
       out = replace_first (pl_old_text plan) (pl_new_text plan) text)"
  (is "?L \<longleftrightarrow> ?R")
proof
  assume ?L
  then show ?R
    using assms replace_first_split[of "pl_old_text plan" "text" "pl_new_text plan"]
    by (auto simp: apply_text_def apply_replacement_def monad_simps Let_def split: if_splits)
next
  assume ?R
  then show ?L
    using assms lines_of_ok_NUL[of "text"]
    by (auto simp: apply_text_def apply_replacement_def monad_simps Let_def)
qed

definition sample_swap :: patch_plan where
  "sample_swap = \<lparr>pl_mode = ''replacement'', pl_hunks = [], pl_old_text = ''x1'',
     pl_new_text = ''y'', pl_newline = [LF]\<rparr>"

theorem replacement_edits_one_place_witness:
  "apply_text ''ax1b'' sample_swap = ok ''ayb'' \<and> count_sub ''x1'' ''ax1b'' = 1"
proof
  have c: "count_sub ''x1'' ''ax1b'' = 1" "is_ok (lines_of ''ax1b'')" "is_ok (lines_of ''ayb'')"
    by code_simp+
  show "count_sub ''x1'' ''ax1b'' = 1" by (rule c)
  have "\<exists>a b. ''ax1b'' = a @ ''x1'' @ b \<and> ''ayb'' = a @ ''y'' @ b"
    by (intro exI[of _ "''a''"] exI[of _ "''b''"]) simp
  then show "apply_text ''ax1b'' sample_swap = ok ''ayb''"
    by (subst replacement_edits_one_place) (use c in \<open>simp_all add: sample_swap_def\<close>)
qed

text \<open>A non-overlapping count: a doubled character occurs at two positions of its tripled
  run, and the replacement is accepted as if it matched once.\<close>

lemma overlapping_match_accepted:
  "apply_text ''aaa'' \<lparr>pl_mode = ''replacement'', pl_hunks = [], pl_old_text = ''aa'',
     pl_new_text = ''b'', pl_newline = [LF]\<rparr> = ok ''ba''
   \<and> ''aaa'' = [] @ ''aa'' @ ''a'' \<and> ''aaa'' = ''a'' @ ''aa'' @ []"
  by code_simp

text \<open>What one file patch makes of its target, alone.\<close>

definition patch_target :: "sources \<Rightarrow> file_patch \<Rightarrow> string option option" where
  "patch_target sources p =
    (case sources (fp_path p) of
       None \<Rightarrow> None
     | Some src \<Rightarrow>
        if (fp_action p = ''add'') \<noteq> (src = None) then None
        else (case apply_text (case src of None \<Rightarrow> [] | Some t \<Rightarrow> t) (fp_plan p) of
                Inl e \<Rightarrow> None
              | Inr r \<Rightarrow> if fp_action p = ''delete'' then (if r = [] then Some None else None)
                         else Some (Some r)))"

lemma apply_file_patch_ok_iff:
  "apply_file_patch sources p out = Inr out' \<longleftrightarrow>
     casefold (fp_path p) \<notin> casefold ` set (al_keys out) \<and>
     (\<exists>v. patch_target sources p = Some v \<and> out' = out @ [(fp_path p, v)])"
proof -
  have fresh: "al_put (fp_path p) v out = out @ [(fp_path p, v)]"
    if "casefold (fp_path p) \<notin> casefold ` set (al_keys out)" for v
    using that by (intro al_put_fresh) auto
  show ?thesis
    by (auto simp: apply_file_patch_def patch_target_def monad_simps fresh
        split: option.splits sum.splits if_splits)
qed

lemma apply_file_patches_from:
  "foldR (apply_file_patch sources) files out = Inr out' \<longleftrightarrow>
     distinct (map (\<lambda>p. casefold (fp_path p)) files) \<and>
     (\<forall>p \<in> set files. casefold (fp_path p) \<notin> casefold ` set (al_keys out)) \<and>
     (\<forall>p \<in> set files. patch_target sources p \<noteq> None) \<and>
     out' = out @ map (\<lambda>p. (fp_path p, the (patch_target sources p))) files"
proof (induction files arbitrary: out)
  case (Cons p files)
  have keys: "set (al_keys (out @ [(fp_path p, v)])) = insert (fp_path p) (set (al_keys out))" for v
    by (simp add: al_keys_def)
  show ?case
    by (auto simp: monad_simps apply_file_patch_ok_iff Cons.IH keys image_iff) metis
qed auto

text \<open>A set of file patches is all or nothing and order-preserving: it succeeds exactly
  when the paths differ after case folding and every patch fits its own file; the outputs are
  then, in order, what each patch alone makes of its file.\<close>

theorem file_patches_pointwise:
  "apply_file_patches sources files = ok out \<longleftrightarrow>
     distinct (map (\<lambda>p. casefold (fp_path p)) files) \<and>
     (\<forall>p \<in> set files. patch_target sources p \<noteq> None) \<and>
     out = map (\<lambda>p. (fp_path p, the (patch_target sources p))) files"
  by (simp add: apply_file_patches_def apply_file_patches_from al_keys_def)

theorem file_patches_pointwise_witness:
  "apply_file_patches [''f'' \<mapsto> Some ''ax1b'', ''g'' \<mapsto> Some ''x1'']
     [\<lparr>fp_path = ''f'', fp_action = ''update'', fp_plan = sample_swap\<rparr>] = ok [(''f'', Some ''ayb'')]"
proof -
  have "apply_text ''ax1b'' sample_swap = ok ''ayb''" by code_simp
  then show ?thesis
    by (subst file_patches_pointwise) (simp add: patch_target_def)
qed

end
