(* ===== verification/PatchParse.thy ===== *)
theory PatchParse
  imports PatchApply
begin

text \<open>
  The parsing half of \<open>agent_runtime/patch_engine.py\<close> and the patch envelope of
  \<open>agent_runtime/apply_patch_format.py\<close>: hunk bodies, file headers and paths, the multi-file
  unified diff, the arguments of the patch tool, and the envelope's file sections.  Indices
  into the list of lines are modelled by the remaining lines.  The theorems state what a parsed
  patch promises its user (declared counts met, paths inside the workspace, no file twice) and
  that a rendered list of hunks is read back as itself.
\<close>

subsection \<open>Hunks\<close>

definition no_newline_marker :: string where
  "no_newline_marker = CHR 0x5C # '' No newline at end of file''"

definition is_kind :: "char \<Rightarrow> bool" where
  "is_kind k = (k = CHR '' '' \<or> k = CHR ''+'' \<or> k = CHR ''-'')"

definition split_marker :: "string list \<Rightarrow> bool \<times> string list" where
  "split_marker ls =
    (case ls of [] \<Rightarrow> (False, []) | m # ls' \<Rightarrow> if m = no_newline_marker then (True, ls') else (False, ls))"

lemma split_marker_length [simp]: "length (snd (split_marker ls)) \<le> length ls"
  by (simp add: split_marker_def split: list.splits)

function parse_body ::
  "nat \<Rightarrow> nat \<Rightarrow> nat \<Rightarrow> nat \<Rightarrow> (char \<times> string) list \<Rightarrow> nat set \<Rightarrow> string list
     \<Rightarrow> ((char \<times> string) list \<times> nat set \<times> string list) res" where
  "parse_body old_count new_count old_used new_used body marks lines =
    (if old_used < old_count \<or> new_used < new_count then
       (case lines of
          (kind # content) # ls \<Rightarrow>
            (if \<not> is_kind kind
             then raise (patch_error ''hunk body does not match declared line counts'')
             else
              (let old_used' = old_used + (if in_old kind then 1 else 0);
                   new_used' = new_used + (if in_new kind then 1 else 0);
                   marked = fst (split_marker ls);
                   ls' = snd (split_marker ls)
               in if old_used' > old_count \<or> new_used' > new_count
                  then raise (patch_error ''hunk body exceeds declared line counts'')
                  else parse_body old_count new_count old_used' new_used' (body @ [(kind, content)])
                         (if marked then insert (length body) marks else marks) ls'))
        | _ \<Rightarrow> raise (patch_error ''hunk body does not match declared line counts''))
     else ok (body, marks, lines))"
  by pat_completeness auto
termination
  by (relation "measure (\<lambda>(_, _, _, _, _, _, ls). length ls)")
     (auto intro: le_imp_less_Suc)

declare parse_body.simps [simp del]

lemma parse_body_ok_iff:
  "parse_body oc nc ou nu body marks ls = Inr r \<longleftrightarrow>
    (\<not> (ou < oc \<or> nu < nc) \<and> r = (body, marks, ls)) \<or>
    ((ou < oc \<or> nu < nc) \<and>
     (\<exists>k c ls1. ls = (k # c) # ls1 \<and> is_kind k \<and>
        ou + (if in_old k then 1 else 0) \<le> oc \<and> nu + (if in_new k then 1 else 0) \<le> nc \<and>
        parse_body oc nc (ou + (if in_old k then 1 else 0)) (nu + (if in_new k then 1 else 0))
          (body @ [(k, c)]) (if fst (split_marker ls1) then insert (length body) marks else marks)
          (snd (split_marker ls1)) = Inr r))"
  by (subst parse_body.simps) (auto simp: Let_def not_less split: list.splits if_splits)

text \<open>The loop rule of the body parser: what one accepted line keeps holds of the result.\<close>

lemma parse_body_invariant:
  assumes "parse_body oc nc ou nu body marks ls = Inr (body', marks', rest)"
    and "I ou nu body marks ls"
    and step: "\<And>ou nu body marks k c ls1.
      I ou nu body marks ((k # c) # ls1) \<Longrightarrow> is_kind k \<Longrightarrow>
      ou + (if in_old k then 1 else 0) \<le> oc \<Longrightarrow> nu + (if in_new k then 1 else 0) \<le> nc \<Longrightarrow>
      I (ou + (if in_old k then 1 else 0)) (nu + (if in_new k then 1 else 0)) (body @ [(k, c)])
        (if fst (split_marker ls1) then insert (length body) marks else marks)
        (snd (split_marker ls1))"
  shows "\<exists>ou' nu'. I ou' nu' body' marks' rest \<and> oc \<le> ou' \<and> nc \<le> nu'"
  using assms(1,2)
proof (induction "length ls" arbitrary: ou nu body marks ls rule: less_induct)
  case less
  show ?case
  proof (cases "ou < oc \<or> nu < nc")
    case False
    then show ?thesis using less.prems by (subst (asm) parse_body_ok_iff) (auto simp: not_less)
  next
    case True
    then obtain k c ls1 where ls: "ls = (k # c) # ls1" and k: "is_kind k"
        "ou + (if in_old k then 1 else 0) \<le> oc" "nu + (if in_new k then 1 else 0) \<le> nc"
      and run: "parse_body oc nc (ou + (if in_old k then 1 else 0)) (nu + (if in_new k then 1 else 0))
          (body @ [(k, c)]) (if fst (split_marker ls1) then insert (length body) marks else marks)
          (snd (split_marker ls1)) = Inr (body', marks', rest)"
      using less.prems(1) by (subst (asm) parse_body_ok_iff) auto
    have "length (snd (split_marker ls1)) < length ls"
      using split_marker_length[of ls1] by (simp add: ls le_imp_less_Suc)
    from less.hyps[OF this run step[OF less.prems(2)[unfolded ls] k]] show ?thesis .
  qed
qed

lemma parse_body_length:
  "parse_body oc nc ou nu body marks ls = Inr (body', marks', rest) \<Longrightarrow> length rest \<le> length ls"
proof -
  assume run: "parse_body oc nc ou nu body marks ls = Inr (body', marks', rest)"
  have "\<exists>ou' nu'. length rest \<le> length ls \<and> oc \<le> (ou'::nat) \<and> nc \<le> (nu'::nat)"
    by (rule parse_body_invariant[OF run, where I = "\<lambda>_ _ _ _ l. length l \<le> length ls"])
       (auto intro: order_trans[OF split_marker_length])
  then show ?thesis by blast
qed

function parse_hunks :: "string list \<Rightarrow> (patch_hunk list \<times> string list) res" where
  "parse_hunks [] = ok ([], [])"
| "parse_hunks (header # ls) =
    (if \<not> prefix ''@@'' header then ok ([], header # ls)
     else
       bindR (coordinates header) (\<lambda>(_, old_count, _, new_count).
       bindR (parse_body old_count new_count 0 0 [] {} ls) (\<lambda>(body, marks, rest).
       bindR (parse_hunks rest) (\<lambda>(hunks, rest').
         ok (\<lparr>ph_header = header, ph_lines = body, ph_no_newline = marks\<rparr> # hunks, rest')))))"
  by pat_completeness auto
termination
  by (relation "measure length") (auto dest!: parse_body_length)

lemma parse_hunks_length: "parse_hunks ls = Inr (hs, rest) \<Longrightarrow> length rest \<le> length ls"
proof (induction ls arbitrary: hs rule: parse_hunks.induct)
  case (2 header ls)
  then show ?case
    by (fastforce simp: monad_simps split: if_splits dest: parse_body_length)
qed simp

text \<open>A hunk that keeps its header's promise: its sides have the declared lengths, every line
  is a context, removed or added line without a newline inside, and marks point at lines.\<close>

definition hunk_ok :: "patch_hunk \<Rightarrow> bool" where
  "hunk_ok h \<longleftrightarrow>
     (\<exists>s n ns m. coordinates (ph_header h) = Inr (s, n, ns, m) \<and>
        length (old_side h) = n \<and> length (new_side h) = m) \<and>
     (\<forall>(k, c) \<in> set (ph_lines h). is_kind k) \<and>
     (\<forall>i \<in> ph_no_newline h. i < length (ph_lines h))"

lemma length_sided: "length (sided side marks i ls) = length (filter (side \<circ> fst) ls)"
  by (induction side marks i ls rule: sided.induct) auto

lemma parse_body_ok:
  assumes "parse_body oc nc ou nu body marks ls = Inr (body', marks', rest)"
    and "ou = length (filter (in_old \<circ> fst) body)" "nu = length (filter (in_new \<circ> fst) body)"
    and "ou \<le> oc" "nu \<le> nc" "\<forall>(k, c) \<in> set body. is_kind k" "\<forall>i \<in> marks. i < length body"
  shows "length (filter (in_old \<circ> fst) body') = oc \<and> length (filter (in_new \<circ> fst) body') = nc \<and>
    (\<forall>(k, c) \<in> set body'. is_kind k) \<and> (\<forall>i \<in> marks'. i < length body')"
proof -
  let ?I = "\<lambda>ou nu b ms (_::string list).
      ou = length (filter (in_old \<circ> fst) b) \<and> nu = length (filter (in_new \<circ> fst) b) \<and>
      ou \<le> oc \<and> nu \<le> nc \<and> (\<forall>(k, c) \<in> set b. is_kind k) \<and> (\<forall>i \<in> ms. i < length b)"
  have "\<exists>ou' nu'. ?I ou' nu' body' marks' rest \<and> oc \<le> ou' \<and> nc \<le> nu'"
    by (rule parse_body_invariant[OF assms(1), where I = ?I])
       (use assms(2-) in \<open>auto simp: less_Suc_eq split: if_splits\<close>)
  then show ?thesis by auto
qed

lemma parse_hunks_ok:
  "parse_hunks ls = Inr (hs, rest) \<Longrightarrow>
     (\<forall>h \<in> set hs. hunk_ok h) \<and> (rest \<noteq> [] \<longrightarrow> \<not> prefix ''@@'' (hd rest))"
proof (induction ls arbitrary: hs rule: parse_hunks.induct)
  case (2 header ls)
  show ?case
  proof (cases "prefix ''@@'' header")
    case True
    with "2.prems" obtain s n ns m body marks r hs' where
      co: "coordinates header = Inr (s, n, ns, m)" and
      body: "parse_body n m 0 0 [] {} ls = Inr (body, marks, r)" and
      rest: "parse_hunks r = Inr (hs', rest)" and
      hs: "hs = \<lparr>ph_header = header, ph_lines = body, ph_no_newline = marks\<rparr> # hs'"
      by (auto simp: monad_simps)
    have "hunk_ok \<lparr>ph_header = header, ph_lines = body, ph_no_newline = marks\<rparr>"
      using parse_body_ok[OF body] co
      by (auto simp: hunk_ok_def old_side_def new_side_def length_sided)
    then show ?thesis using "2.IH"[OF _ co refl refl refl body refl refl rest] True by (simp add: hs)
  qed (use "2.prems" in auto)
qed simp


subsection \<open>Reading back rendered hunks\<close>

fun render_body :: "nat set \<Rightarrow> nat \<Rightarrow> (char \<times> string) list \<Rightarrow> string list" where
  "render_body marks i [] = []"
| "render_body marks i ((k, c) # ls) =
     (k # c) # (if i \<in> marks then [no_newline_marker] else []) @ render_body marks (Suc i) ls"

definition render_hunk :: "patch_hunk \<Rightarrow> string list" where
  "render_hunk h = ph_header h # render_body (ph_no_newline h) 0 (ph_lines h)"

lemma coordinates_at: "coordinates hdr = Inr c \<Longrightarrow> prefix ''@@'' hdr"
  by (auto simp: coordinates_def parse_header_def need_prefix_def bind_eq_Some_conv
      split: option.splits if_splits prod.splits elim!: prefixE)

lemma split_marker_render:
  assumes "\<forall>(k, c) \<in> set ls. is_kind k" "\<not> fst (split_marker rest)"
  shows "\<not> fst (split_marker (render_body marks i ls @ rest))"
  using assms by (cases ls) (auto simp: split_marker_def no_newline_marker_def is_kind_def)

lemma split_marker_unmarked: "\<not> fst (split_marker ls) \<Longrightarrow> snd (split_marker ls) = ls"
  by (auto simp: split_marker_def split: list.splits if_splits)

lemma split_marker_marked [simp]: "split_marker (no_newline_marker # ls) = (True, ls)"
  by (simp add: split_marker_def)

lemma parse_render_body:
  assumes "\<forall>(k, c) \<in> set ls. is_kind k" "\<not> fst (split_marker rest)"
  shows "parse_body (ou + length (filter (in_old \<circ> fst) ls)) (nu + length (filter (in_new \<circ> fst) ls))
     ou nu b ms (render_body marks (length b) ls @ rest)
   = Inr (b @ ls, ms \<union> {i \<in> marks. length b \<le> i \<and> i < length b + length ls}, rest)"
  using assms(1)
proof (induction ls arbitrary: ou nu b ms)
  case Nil
  then show ?case by (subst parse_body_ok_iff) auto
next
  case (Cons kc ls)
  obtain k c where kc: "kc = (k, c)" by (cases kc)
  let ?o = "if in_old k then 1 else 0 :: nat" and ?n = "if in_new k then 1 else 0 :: nat"
  let ?ms = "if length b \<in> marks then insert (length b) ms else ms"
  have k: "is_kind k" "in_old k \<or> in_new k"
    using Cons.prems by (auto simp: kc is_kind_def in_old_def in_new_def)
  let ?tl = "(if length b \<in> marks then [no_newline_marker] else []) @
      render_body marks (Suc (length b)) ls @ rest"
  have tl: "fst (split_marker ?tl) \<longleftrightarrow> length b \<in> marks"
      "snd (split_marker ?tl) = render_body marks (Suc (length b)) ls @ rest"
    using split_marker_render[OF _ assms(2), of ls marks "Suc (length b)"] Cons.prems
    by (auto simp: split_marker_unmarked)
  have IH: "parse_body (ou + ?o + length (filter (in_old \<circ> fst) ls))
      (nu + ?n + length (filter (in_new \<circ> fst) ls)) (ou + ?o) (nu + ?n) (b @ [(k, c)]) ?ms
      (render_body marks (length (b @ [(k, c)])) ls @ rest)
    = Inr ((b @ [(k, c)]) @ ls,
        ?ms \<union> {i \<in> marks. length (b @ [(k, c)]) \<le> i \<and> i < length (b @ [(k, c)]) + length ls}, rest)"
    using Cons.prems by (intro Cons.IH) auto
  have marks: "?ms \<union> {i \<in> marks. Suc (length b) \<le> i \<and> i < Suc (length b) + length ls}
      = ms \<union> {i \<in> marks. length b \<le> i \<and> i < length b + length (kc # ls)}"
    by (auto simp: Suc_le_eq order.order_iff_strict)
  have lines: "render_body marks (length b) (kc # ls) @ rest = (k # c) # ?tl"
    by (simp add: kc)
  have counts: "length (filter (in_old \<circ> fst) (kc # ls)) = ?o + length (filter (in_old \<circ> fst) ls)"
      "length (filter (in_new \<circ> fst) (kc # ls)) = ?n + length (filter (in_new \<circ> fst) ls)"
    by (simp_all add: kc)
  show ?case
    unfolding lines counts
    by (subst parse_body_ok_iff) (use k IH marks tl in \<open>auto simp: kc add.assoc\<close>)
qed

lemma parse_hunks_renders:
  assumes "\<forall>h \<in> set hs. hunk_ok h"
    and "\<not> fst (split_marker rest)" "rest \<noteq> [] \<longrightarrow> \<not> prefix ''@@'' (hd rest)"
  shows "parse_hunks (concat (map render_hunk hs) @ rest) = ok (hs, rest)"
  using assms(1)
proof (induction hs)
  case Nil
  then show ?case using assms(3) by (cases rest) auto
next
  case (Cons h hs)
  then obtain s n ns m where co: "coordinates (ph_header h) = Inr (s, n, ns, m)"
      and n: "n = length (filter (in_old \<circ> fst) (ph_lines h))"
             "m = length (filter (in_new \<circ> fst) (ph_lines h))"
    by (auto simp: hunk_ok_def old_side_def new_side_def length_sided)
  let ?r = "concat (map render_hunk hs) @ rest"
  have "\<not> fst (split_marker ?r)"
  proof (cases hs)
    case (Cons g gs)
    then have "prefix ''@@'' (ph_header g)"
      using Cons.prems by (auto simp: hunk_ok_def dest: coordinates_at)
    then show ?thesis
      by (auto simp: Cons render_hunk_def split_marker_def no_newline_marker_def elim: prefixE)
  qed (simp add: assms(2))
  then have "parse_body n m 0 0 [] {} (render_body (ph_no_newline h) 0 (ph_lines h) @ ?r)
      = Inr (ph_lines h, ph_no_newline h, ?r)"
    using Cons.prems parse_render_body[of "ph_lines h" ?r 0 0 "[]" "{}" "ph_no_newline h"]
    by (auto simp: hunk_ok_def n)
  moreover have "concat (map render_hunk (h # hs)) @ rest
      = ph_header h # render_body (ph_no_newline h) 0 (ph_lines h) @ ?r"
    by (simp add: render_hunk_def)
  ultimately show ?case
    using Cons coordinates_at[OF co] co by simp
qed


subsection \<open>Paths and file sections\<close>

definition patch_path :: "string \<Rightarrow> string \<Rightarrow> string option res" where
  "patch_path header pre =
    (let value = takeWhile (\<lambda>c. c \<noteq> TAB) (drop 4 header) in
     if value = ''/dev/null'' then ok None
     else
      (let v = (if prefix pre value then drop (length pre) value else value) in
       if v = [] \<or> prefix [CHR 0x22] v \<or> prefix ''/'' v \<or> CHR 0x5C \<in> set v
       then raise (patch_error ''unsupported or unsafe file path'')
       else if (\<exists>part \<in> set (split_on (CHR ''/'') v). part \<in> {[], ''.'', ''..''}) \<or> CHR '':'' \<in> set v
       then raise (patch_error ''unsafe file path'')
       else ok (Some v)))"

text \<open>A path that stays below the directory it is joined to, on POSIX and on Windows.\<close>

definition safe_path :: "string \<Rightarrow> bool" where
  "safe_path v \<longleftrightarrow>
     CHR 0x5C \<notin> set v \<and> CHR '':'' \<notin> set v \<and>
     (\<forall>part \<in> set (split_on (CHR ''/'') v). part \<noteq> [] \<and> part \<noteq> ''.'' \<and> part \<noteq> ''..'')"

fun skip_preamble :: "string \<Rightarrow> string list \<Rightarrow> (string \<times> string list) res" where
  "skip_preamble metadata [] = ok (metadata, [])"
| "skip_preamble metadata (line # ls) =
    (if prefix ''diff --git '' line \<or> prefix ''index '' line then skip_preamble metadata ls
     else if line \<in> {''new file mode 100644'', ''deleted file mode 100644''} then
       (if metadata \<noteq> [] then raise (patch_error ''duplicate file mode metadata'')
        else skip_preamble (takeWhile (\<lambda>c. c \<noteq> CHR '' '') line) ls)
     else ok (metadata, line # ls))"

definition expected_mode :: "string \<Rightarrow> string option" where
  "expected_mode action =
    (if action = ''add'' then Some ''new'' else if action = ''delete'' then Some ''deleted'' else None)"

definition file_target :: "string option \<Rightarrow> string option \<Rightarrow> (string \<times> string) res" where
  "file_target old new =
    (case (old, new) of
       (None, None) \<Rightarrow> raise (patch_error ''renames and two null paths are unsupported'')
     | (Some v, Some w) \<Rightarrow>
        (if v \<noteq> w then raise (patch_error ''renames and two null paths are unsupported'')
         else ok (''update'', w))
     | (None, Some w) \<Rightarrow> ok (''add'', w)
     | (Some v, None) \<Rightarrow> ok (''delete'', v))"

definition file_section ::
  "string \<Rightarrow> string set \<Rightarrow> string \<Rightarrow> string \<Rightarrow> string \<Rightarrow> string list \<Rightarrow> (file_patch \<times> string list) res" where
  "file_section newline seen metadata action path body =
    (if metadata \<noteq> [] \<and> Some metadata \<noteq> expected_mode action
     then raise (patch_error ''file metadata disagrees with headers'')
     else if casefold path \<in> seen
     then raise (patch_error (''duplicate file patch: '' @ path))
     else
      bindR (parse_hunks body) (\<lambda>(hunks, rest).
       if hunks = [] \<and> action = ''update''
       then raise (patch_error ''file update requires hunks'')
       else ok (\<lparr>fp_path = path, fp_action = action,
             fp_plan = \<lparr>pl_mode = ''diff'', pl_hunks = hunks, pl_old_text = [],
                        pl_new_text = [], pl_newline = newline\<rparr>\<rparr>, rest)))"

definition parse_file ::
  "string \<Rightarrow> string set \<Rightarrow> string list \<Rightarrow> (file_patch \<times> string list) res" where
  "parse_file newline seen lines =
    bindR (skip_preamble [] lines) (\<lambda>(metadata, ls).
     case ls of
       l0 # l1 # body \<Rightarrow>
        (if \<not> prefix ''--- '' l0 \<or> \<not> prefix ''+++ '' l1
         then raise (patch_error ''expected ---/+++ file headers; unsupported patch format'')
         else
          bindR (patch_path l0 ''a/'') (\<lambda>old.
          bindR (patch_path l1 ''b/'') (\<lambda>new.
          bindR (file_target old new) (\<lambda>(action, path).
            file_section newline seen metadata action path body))))
     | _ \<Rightarrow> raise (patch_error ''expected ---/+++ file headers; unsupported patch format''))"

lemma file_section_ok:
  "file_section nl seen md action path body = Inr (f, rest) \<Longrightarrow>
     casefold path \<notin> seen \<and>
     (\<exists>hunks. parse_hunks body = Inr (hunks, rest) \<and> (hunks \<noteq> [] \<or> action \<noteq> ''update'') \<and>
        f = \<lparr>fp_path = path, fp_action = action,
          fp_plan = \<lparr>pl_mode = ''diff'', pl_hunks = hunks, pl_old_text = [],
                     pl_new_text = [], pl_newline = nl\<rparr>\<rparr>)"
  by (auto simp: file_section_def bindR_ok_iff split: if_splits prod.splits)

lemma parse_file_inv:
  assumes "parse_file nl seen ls = Inr (f, rest)"
  obtains md l0 l1 body old new action path hunks where
    "skip_preamble [] ls = Inr (md, l0 # l1 # body)"
    "patch_path l0 ''a/'' = Inr old" "patch_path l1 ''b/'' = Inr new"
    "file_target old new = Inr (action, path)"
    "casefold path \<notin> seen" "parse_hunks body = Inr (hunks, rest)"
    "hunks \<noteq> [] \<or> action \<noteq> ''update''"
    "f = \<lparr>fp_path = path, fp_action = action,
          fp_plan = \<lparr>pl_mode = ''diff'', pl_hunks = hunks, pl_old_text = [],
                     pl_new_text = [], pl_newline = nl\<rparr>\<rparr>"
proof -
  obtain md ls1 where pre: "skip_preamble [] ls = Inr (md, ls1)"
    using assms by (cases "skip_preamble [] ls") (auto simp: parse_file_def)
  then obtain l0 l1 body where ls1: "ls1 = l0 # l1 # body"
    using assms by (cases ls1 rule: line_list.cases) (auto simp: parse_file_def)
  obtain old new action path where
    *: "patch_path l0 ''a/'' = Inr old" "patch_path l1 ''b/'' = Inr new"
    "file_target old new = Inr (action, path)"
    and sec: "file_section nl seen md action path body = Inr (f, rest)"
    using assms pre by (auto simp: parse_file_def bindR_ok_iff ls1 split: if_splits)
  from file_section_ok[OF sec] that[OF pre[unfolded ls1] *] show ?thesis by blast
qed

lemma file_target_ok:
  "file_target old new = Inr (action, path) \<Longrightarrow>
     action \<in> {''add'', ''delete'', ''update''} \<and> (old = Some path \<or> new = Some path)"
  by (auto simp: file_target_def split: option.splits if_splits)

lemma skip_preamble_length:
  "skip_preamble md ls = Inr (md', rest) \<Longrightarrow> length rest \<le> length ls"
  by (induction md ls rule: skip_preamble.induct) (auto split: if_splits)

lemma parse_file_length:
  "parse_file nl seen ls = Inr (f, rest) \<Longrightarrow> length rest < length ls"
  by (erule parse_file_inv) (auto dest!: skip_preamble_length parse_hunks_length)

function parse_files :: "string \<Rightarrow> string set \<Rightarrow> string list \<Rightarrow> file_patch list res" where
  "parse_files newline seen lines =
    (if lines = [] then ok []
     else bindR (parse_file newline seen lines) (\<lambda>(f, rest).
          bindR (parse_files newline (insert (casefold (fp_path f)) seen) rest) (\<lambda>fs.
            ok (f # fs))))"
  by pat_completeness auto
termination
  by (relation "measure (\<lambda>(_, _, ls). length ls)") (auto dest: parse_file_length)

declare parse_files.simps [simp del]

definition newline_of :: "string \<Rightarrow> string" where
  "newline_of diff = (if has_crlf diff then [CR, LF] else [LF])"

definition parse_unified_patch :: "string \<Rightarrow> file_patch list res" where
  "parse_unified_patch diff =
    (if diff = [] then raise (patch_error ''empty patch'')
     else bindR (lines_of diff) (parse_files (newline_of diff) {}))"

subsection \<open>What a parsed patch promises\<close>

definition file_patch_ok :: "file_patch \<Rightarrow> bool" where
  "file_patch_ok f \<longleftrightarrow>
     safe_path (fp_path f) \<and> fp_action f \<in> {''add'', ''delete'', ''update''} \<and>
     pl_mode (fp_plan f) = ''diff'' \<and>
     (fp_action f = ''update'' \<longrightarrow> pl_hunks (fp_plan f) \<noteq> []) \<and>
     (\<forall>h \<in> set (pl_hunks (fp_plan f)). hunk_ok h)"

lemma patch_path_safe: "patch_path hdr pre = Inr (Some v) \<Longrightarrow> safe_path v"
  by (auto simp: patch_path_def safe_path_def Let_def split: if_splits)

lemma parse_file_ok:
  assumes "parse_file nl seen ls = Inr (f, rest)"
  shows "file_patch_ok f \<and> casefold (fp_path f) \<notin> seen"
  using assms
proof (rule parse_file_inv)
  fix md l0 l1 body old new action path hunks
  assume *: "patch_path l0 ''a/'' = Inr old" "patch_path l1 ''b/'' = Inr new"
    "file_target old new = Inr (action, path)"
    "casefold path \<notin> seen" "parse_hunks body = Inr (hunks, rest)"
    "hunks \<noteq> [] \<or> action \<noteq> ''update''"
    "f = \<lparr>fp_path = path, fp_action = action,
          fp_plan = \<lparr>pl_mode = ''diff'', pl_hunks = hunks, pl_old_text = [],
                     pl_new_text = [], pl_newline = nl\<rparr>\<rparr>"
  have "safe_path path" using file_target_ok[OF *(3)] *(1,2) patch_path_safe by auto
  then show ?thesis
    using * file_target_ok[OF *(3)] parse_hunks_ok[OF *(5)] by (auto simp: file_patch_ok_def)
qed

lemma parse_files_ok:
  "parse_files nl seen ls = Inr fs \<Longrightarrow>
     (\<forall>f \<in> set fs. file_patch_ok f \<and> casefold (fp_path f) \<notin> seen) \<and>
     distinct (map (casefold \<circ> fp_path) fs) \<and> (ls \<noteq> [] \<longrightarrow> fs \<noteq> [])"
proof (induction nl seen ls arbitrary: fs rule: parse_files.induct)
  case (1 nl seen ls)
  show ?case
  proof (cases "ls = []")
    case True
    then show ?thesis using "1.prems" by (simp add: parse_files.simps)
  next
    case False
    with "1.prems" obtain f rest fs' where f: "parse_file nl seen ls = Inr (f, rest)"
      and rest: "parse_files nl (insert (casefold (fp_path f)) seen) rest = Inr fs'"
      and fs: "fs = f # fs'"
      by (subst (asm) parse_files.simps) (auto simp: monad_simps)
    show ?thesis
      using "1.IH"[OF False f refl rest] parse_file_ok[OF f] by (auto simp: fs)
  qed
qed


text \<open>A parsed unified diff is well formed: every file has a path that stays inside the
  workspace, no two paths are equal up to letter case, updates have hunks, and every hunk meets
  the line counts its header declares; and there is at least one file.\<close>

theorem unified_patch_well_formed:
  assumes "parse_unified_patch diff = ok files"
  shows "files \<noteq> [] \<and> distinct (map (casefold \<circ> fp_path) files) \<and>
    (\<forall>f \<in> set files. file_patch_ok f)"
proof -
  from assms obtain ls where "diff \<noteq> []" and ls: "lines_of diff = Inr ls"
    and fs: "parse_files (newline_of diff) {} ls = Inr files"
    by (auto simp: parse_unified_patch_def monad_simps split: if_splits)
  have "crlf_to_lf diff \<noteq> []" using \<open>diff \<noteq> []\<close>
    by (cases diff rule: crlf_to_lf.cases) auto
  then have "strip_ends (crlf_to_lf diff) \<noteq> []" by (rule strip_ends_ne)
  with ls have "ls \<noteq> []"
    by (auto simp: lines_of_def check_text_def monad_simps split: if_splits)
  then show ?thesis using parse_files_ok[OF fs] by auto
qed

subsection \<open>Reading back rendered patches\<close>

definition render_file :: "file_patch \<Rightarrow> string list" where
  "render_file f =
    (if fp_action f = ''add'' then ''--- /dev/null'' else ''--- a/'' @ fp_path f) #
    (if fp_action f = ''delete'' then ''+++ /dev/null'' else ''+++ b/'' @ fp_path f) #
    concat (map render_hunk (pl_hunks (fp_plan f)))"

definition render_patch :: "file_patch list \<Rightarrow> string" where
  "render_patch files = concat (map (\<lambda>l. l @ [LF]) (concat (map render_file files)))"

definition printable :: "file_patch \<Rightarrow> bool" where
  "printable f \<longleftrightarrow>
     file_patch_ok f \<and> TAB \<notin> set (fp_path f) \<and> \<not> prefix [CHR 0x22] (fp_path f) \<and>
     fp_plan f = \<lparr>pl_mode = ''diff'', pl_hunks = pl_hunks (fp_plan f), pl_old_text = [],
                  pl_new_text = [], pl_newline = [LF]\<rparr> \<and>
     (\<forall>l \<in> set (render_file f). LF \<notin> set l \<and> plain_text l)"

lemma safe_path_start: "safe_path v \<Longrightarrow> v \<noteq> [] \<and> \<not> prefix ''/'' v"
proof -
  assume "safe_path v"
  then have ne: "[] \<notin> set (split_on (CHR ''/'') v)" by (simp only: safe_path_def) blast
  have "[] \<in> set (split_on (CHR ''/'') v)" if "v = [] \<or> prefix ''/'' v"
    using that by (elim disjE prefixE) simp_all
  with ne show ?thesis by blast
qed

lemma patch_path_null: "patch_path ''--- /dev/null'' pre = Inr None"
    "patch_path ''+++ /dev/null'' pre = Inr None"
  by (simp_all add: patch_path_def)

lemma patch_path_named:
  assumes "safe_path v" "TAB \<notin> set v" "\<not> prefix [CHR 0x22] v"
  shows "patch_path (''--- a/'' @ v) ''a/'' = Inr (Some v)"
    "patch_path (''+++ b/'' @ v) ''b/'' = Inr (Some v)"
proof -
  have "takeWhile (\<lambda>c. c \<noteq> TAB) v = v" using assms(2) by (auto simp: takeWhile_eq_all_conv)
  then have tw: "takeWhile (\<lambda>c. c \<noteq> TAB) (drop 4 (''--- a/'' @ v)) = ''a/'' @ v"
    "takeWhile (\<lambda>c. c \<noteq> TAB) (drop 4 (''+++ b/'' @ v)) = ''b/'' @ v"
    by simp_all
  have parts: "\<not> (\<exists>part \<in> set (split_on (CHR ''/'') v). part \<in> {[], ''.'', ''..''})"
    using assms(1) by (auto simp: safe_path_def)
  have "\<not> (v = [] \<or> prefix [CHR 0x22] v \<or> prefix ''/'' v \<or> CHR 0x5C \<in> set v)" "CHR '':'' \<notin> set v"
    using assms(1,3) safe_path_start[OF assms(1)] by (simp_all add: safe_path_def)
  note side = this parts
  show "patch_path (''--- a/'' @ v) ''a/'' = Inr (Some v)"
    unfolding patch_path_def tw Let_def using side by simp
  show "patch_path (''+++ b/'' @ v) ''b/'' = Inr (Some v)"
    unfolding patch_path_def tw Let_def using side by simp
qed

lemma parse_file_renders:
  assumes "printable f" "casefold (fp_path f) \<notin> seen"
    and "\<not> fst (split_marker rest)" "rest \<noteq> [] \<longrightarrow> \<not> prefix ''@@'' (hd rest)"
  shows "parse_file [LF] seen (render_file f @ rest) = ok (f, rest)"
proof -
  have ok: "file_patch_ok f" and path: "TAB \<notin> set (fp_path f)" "\<not> prefix [CHR 0x22] (fp_path f)"
    and plan: "fp_plan f = \<lparr>pl_mode = ''diff'', pl_hunks = pl_hunks (fp_plan f), pl_old_text = [],
                  pl_new_text = [], pl_newline = [LF]\<rparr>"
    using assms(1) by (auto simp: printable_def)
  have hunks: "parse_hunks (concat (map render_hunk (pl_hunks (fp_plan f))) @ rest)
      = ok (pl_hunks (fp_plan f), rest)"
    using ok assms(3,4) by (intro parse_hunks_renders) (auto simp: file_patch_ok_def)
  have "file_section [LF] seen [] (fp_action f) (fp_path f)
      (concat (map render_hunk (pl_hunks (fp_plan f))) @ rest) = ok (f, rest)"
    using ok assms(2) plan
    by (auto simp: file_section_def hunks file_patch_ok_def intro!: file_patch.equality)
  moreover have "safe_path (fp_path f)" "fp_action f \<in> {''add'', ''delete'', ''update''}"
    using ok by (auto simp: file_patch_ok_def)
  ultimately show ?thesis
    using patch_path_named[OF _ path]
    by (auto simp: parse_file_def render_file_def file_target_def patch_path_null)
qed

lemma parse_files_renders:
  assumes "\<forall>f \<in> set fs. printable f \<and> casefold (fp_path f) \<notin> seen"
    and "distinct (map (casefold \<circ> fp_path) fs)"
  shows "parse_files [LF] seen (concat (map render_file fs)) = ok fs"
  using assms
proof (induction fs arbitrary: seen)
  case (Cons f fs)
  let ?r = "concat (map render_file fs)"
  have "\<not> fst (split_marker ?r) \<and> (?r \<noteq> [] \<longrightarrow> \<not> prefix ''@@'' (hd ?r))"
    by (cases fs) (auto simp: render_file_def split_marker_def no_newline_marker_def)
  then have "parse_file [LF] seen (render_file f @ ?r) = ok (f, ?r)"
    using Cons.prems by (intro parse_file_renders) auto
  moreover have "parse_files [LF] (insert (casefold (fp_path f)) seen) ?r = ok fs"
    using Cons.prems by (intro Cons.IH) (auto simp: image_iff)
  moreover have "concat (map render_file (f # fs)) \<noteq> []" by (simp add: render_file_def)
  ultimately show ?case by (subst parse_files.simps) simp
qed (simp add: parse_files.simps)

text \<open>C11. Round trip: a list of well-formed file patches over plain text, printed as a unified
  diff, is parsed back as itself: the parser drops nothing and refuses nothing of it.\<close>

theorem unified_patch_roundtrip:
  assumes "files \<noteq> []" "\<forall>f \<in> set files. printable f"
    and "distinct (map (casefold \<circ> fp_path) files)"
  shows "parse_unified_patch (render_patch files) = ok files"
proof -
  let ?ls = "concat (map render_file files)"
  have lines: "\<forall>l \<in> set ?ls. LF \<notin> set l \<and> plain_text l"
    using assms(2) by (auto simp: printable_def)
  then have plain: "plain_text (render_patch files)"
    by (auto simp: render_patch_def plain_text_def)
  have "strip_ends (render_patch files) = ?ls"
    unfolding render_patch_def using lines by (intro strip_ends_lines) auto
  moreover have "render_patch files \<noteq> []"
    using assms(1) by (cases files) (auto simp: render_patch_def render_file_def)
  moreover have "newline_of (render_patch files) = [LF]"
    using plain by (simp add: newline_of_def plain_text_def)
  ultimately show ?thesis
    using parse_files_renders[of files "{}"] assms plain by (simp add: parse_unified_patch_def)
qed


definition sample_file :: file_patch where
  "sample_file = \<lparr>fp_path = ''d/f'', fp_action = ''update'', fp_plan = sample_plan\<rparr>"

lemma sample_coordinates: "coordinates (print_header (Suc 0) 2 (Suc 0) 2) = ok (0, Suc (Suc 0), 0, Suc (Suc 0))"
  by (simp add: coordinates_print)

lemma sample_file_ok: "file_patch_ok sample_file"
  by (simp add: file_patch_ok_def sample_file_def sample_plan_def safe_path_def hunk_ok_def
      sample_coordinates old_side_def new_side_def length_sided in_old_def in_new_def is_kind_def)

lemma sample_file_lines: "\<forall>l \<in> set (render_file sample_file). LF \<notin> set l \<and> plain_text l"
  by code_simp

theorem unified_patch_roundtrip_witness:
  "parse_unified_patch (render_patch [sample_file]) = ok [sample_file]"
  by (rule unified_patch_roundtrip)
     (use sample_file_ok sample_file_lines in \<open>simp_all add: printable_def sample_file_def sample_plan_def\<close>)

theorem unified_patch_well_formed_witness:
  "distinct (map (casefold \<circ> fp_path) [sample_file]) \<and> file_patch_ok sample_file"
proof -
  have "parse_unified_patch (render_patch [sample_file]) = ok [sample_file]" by code_simp
  from unified_patch_well_formed[OF this] show ?thesis by simp
qed

end
