(* ===== verification/PatchOps.thy ===== *)
theory PatchOps
  imports PatchParse
begin

text \<open>
  The adapters around the patch core: bare hunk headers resolved against the file
  (\<open>normalize_hunk_headers\<close>), the arguments of the patch tool (\<open>parse_patch_input\<close>), the
  envelope sections (\<open>parse_apply_patch_text\<close> after fence stripping), file operations
  (\<open>apply_operations\<close>) and the preview counts (\<open>build_preview\<close>).
\<close>

subsection \<open>Bare hunk headers\<close>

definition int_str :: "int \<Rightarrow> string" where
  "int_str n = (if n < 0 then ''-'' @ nat_str (nat (- n)) else nat_str (nat n))"

definition unmark :: "string \<Rightarrow> string" where
  "unmark line = drop 1 line"

definition body_side :: "(char \<Rightarrow> bool) \<Rightarrow> string list \<Rightarrow> string list" where
  "body_side side body = filter (\<lambda>l. l \<noteq> [] \<and> side (hd l)) body"

definition preimage_matches :: "string list \<Rightarrow> nat \<Rightarrow> string list \<Rightarrow> nat list" where
  "preimage_matches original cursor preimage =
     filter (\<lambda>pos. take (length preimage) (drop pos original) = preimage)
       [cursor ..< length original + 1 - length preimage]"

definition resolve_header ::
  "string list \<Rightarrow> nat \<Rightarrow> int \<Rightarrow> string \<Rightarrow> string list \<Rightarrow> (string \<times> nat \<times> nat \<times> nat) res" where
  "resolve_header original cursor delta header body =
    (if parse_header header \<noteq> None then
       bindR (coordinates header) (\<lambda>(start, n, _, m). ok (header, start, n, m))
     else if header \<noteq> ''@@'' \<and> \<not> prefix ''@@ '' header
       then raise (patch_error ''unsupported hunk header'')
     else
      (let preimage = map unmark (body_side in_old body) in
       if preimage = [] then raise (patch_error ''bare @@ requires a nonempty preimage'')
       else
        (case preimage_matches original cursor preimage of
           [start] \<Rightarrow>
            (let n = length preimage; m = length (body_side in_new body) in
             ok (''@@ -'' @ nat_str (start + (if n \<noteq> 0 then 1 else 0)) @ '','' @ nat_str n @
                 '' +'' @ int_str (int start + delta + (if m \<noteq> 0 then 1 else 0)) @ '','' @ nat_str m @ '' @@'',
                 start, n, m))
         | _ \<Rightarrow> raise (stale ''bare @@ preimage must match exactly once''))))"

function resolve_hunks ::
  "string list \<Rightarrow> nat \<Rightarrow> int \<Rightarrow> string list \<Rightarrow> string list res" where
  "resolve_hunks original cursor delta [] = ok []"
| "resolve_hunks original cursor delta (header # ls) =
    (let body = takeWhile (\<lambda>l. \<not> prefix ''@@'' l) ls;
         rest = dropWhile (\<lambda>l. \<not> prefix ''@@'' l) ls in
     bindR (resolve_header original cursor delta header body) (\<lambda>(header', start, n, m).
     bindR (resolve_hunks original (start + n) (delta + (int m - int n)) rest) (\<lambda>result.
       ok (header' # body @ result))))"
  by pat_completeness auto
termination
  by (relation "measure (\<lambda>(_, _, _, ls). length ls)") (auto simp: length_dropWhile_le le_imp_less_Suc)

definition normalize_hunk_headers :: "string \<Rightarrow> string \<Rightarrow> string res" where
  "normalize_hunk_headers diff file_text =
    bindR (lines_of diff) (\<lambda>ls.
     if ls = [] \<or> \<not> prefix ''@@'' (hd ls) then raise (patch_error ''update requires @@ hunks'')
     else
      bindR (lines_of file_text) (\<lambda>original.
      bindR (resolve_hunks original 0 0 ls) (\<lambda>result.
        ok (join_with [LF] result @ [LF]))))"

subsection \<open>Tool arguments\<close>

record patch_args =
  pa_diff :: "string option"
  pa_path :: "string option"
  pa_old_text :: "string option"
  pa_new_text :: "string option"

definition diff_plan :: "string \<Rightarrow> patch_hunk list \<Rightarrow> patch_plan" where
  "diff_plan newline hunks = \<lparr>pl_mode = ''diff'', pl_hunks = hunks, pl_old_text = [],
     pl_new_text = [], pl_newline = newline\<rparr>"

definition parse_patch_input :: "patch_args \<Rightarrow> patch_plan res" where
  "parse_patch_input args =
    (case pa_diff args of
       Some (d # ds) \<Rightarrow>
        (if prefix ''@@'' (d # ds) then
           bindR (lines_of (d # ds)) (\<lambda>ls.
           bindR (parse_hunks ls) (\<lambda>(hunks, rest).
             if rest \<noteq> [] then raise (patch_error ''unexpected content after hunk'')
             else ok (diff_plan (newline_of (d # ds)) hunks)))
         else
           bindR (parse_unified_patch (d # ds)) (\<lambda>files.
             case files of
               [f] \<Rightarrow>
                 if fp_action f \<noteq> ''update''
                 then raise (patch_error ''patch_file accepts one existing file; use a multi-file transaction'')
                 else (case pa_path args of
                     Some (p # ps) \<Rightarrow>
                       if map (\<lambda>c. if c = CHR 0x5C then CHR ''/'' else c) (p # ps) \<noteq> fp_path f
                       then raise (patch_error ''patch path differs from tool target'')
                       else ok (fp_plan f)
                   | _ \<Rightarrow> ok (fp_plan f))
             | _ \<Rightarrow> raise (patch_error ''patch_file accepts one existing file; use a multi-file transaction'')))
     | _ \<Rightarrow>
        (case (pa_old_text args, pa_new_text args) of
           (Some (c # cs), Some new) \<Rightarrow>
             ok \<lparr>pl_mode = ''replacement'', pl_hunks = [], pl_old_text = c # cs,
                 pl_new_text = new, pl_newline = [LF]\<rparr>
         | _ \<Rightarrow> raise (patch_error ''provide diff or nonempty old_text and new_text'')))"

subsection \<open>File operations\<close>

record patch_op =
  po_action :: string
  po_path :: string
  po_diff :: string
  po_plan :: "patch_plan option"

definition add_plan :: "string \<Rightarrow> patch_plan res" where
  "add_plan diff =
    bindR (lines_of diff) (\<lambda>ls.
      ok (diff_plan [LF] [\<lparr>ph_header = print_header 0 0 (if ls \<noteq> [] then 1 else 0) (length ls),
                          ph_lines = map (\<lambda>l. (CHR ''+'', l)) ls, ph_no_newline = {}\<rparr>]))"

definition delete_plan :: "string \<Rightarrow> patch_plan res" where
  "delete_plan source =
    bindR (lines_of source) (\<lambda>ls.
      ok (diff_plan [LF] [\<lparr>ph_header = print_header (if ls \<noteq> [] then 1 else 0) (length ls) 0 0,
                          ph_lines = map (\<lambda>l. (CHR ''-'', l)) ls,
                          ph_no_newline = (if source \<noteq> [] \<and> \<not> ends_with source [LF]
                                           then {length ls - 1} else {})\<rparr>]))"

definition operation_patch :: "sources \<Rightarrow> patch_op \<Rightarrow> file_patch res" where
  "operation_patch sources oper =
    (case sources (po_path oper) of
       None \<Rightarrow> raise (KeyError (po_path oper))
     | Some source \<Rightarrow>
        (let done = (\<lambda>plan. ok \<lparr>fp_path = po_path oper, fp_action = po_action oper, fp_plan = plan\<rparr>);
             missing = raise (stale (''file missing: '' @ po_path oper)) in
         case po_plan oper of
           Some plan \<Rightarrow> done plan
         | None \<Rightarrow>
            if po_action oper = ''update'' then
              (case source of None \<Rightarrow> missing
               | Some text \<Rightarrow>
                  bindR (normalize_hunk_headers (po_diff oper) text) (\<lambda>diff.
                  bindR (parse_patch_input \<lparr>pa_diff = Some diff, pa_path = None, pa_old_text = None,
                           pa_new_text = None\<rparr>) done))
            else if po_action oper = ''add'' then bindR (add_plan (po_diff oper)) done
            else if po_action oper = ''delete'' then
              (case source of None \<Rightarrow> missing | Some text \<Rightarrow> bindR (delete_plan text) done)
            else raise (patch_error (''unknown file operation: '' @ po_action oper))))"

definition apply_operations :: "sources \<Rightarrow> patch_op list \<Rightarrow> outputs res" where
  "apply_operations sources operations =
    bindR (foldR (\<lambda>oper files. bindR (operation_patch sources oper) (\<lambda>f. ok (files @ [f])))
             operations [])
      (apply_file_patches sources)"


subsection \<open>Adding and deleting files\<close>

abbreviation unlines :: "string list \<Rightarrow> string" where
  "unlines ls \<equiv> concat (map (\<lambda>l. l @ [LF]) ls)"

lemma sided_all:
  "\<forall>(k, c) \<in> set ls. side k \<Longrightarrow>
     sided side {} i ls = map (\<lambda>(k, c). c @ [LF]) ls"
  by (induction ls arbitrary: i) (auto simp: hunk_line_def)

lemma sided_none: "\<forall>(k, c) \<in> set ls. \<not> side k \<Longrightarrow> sided side marks i ls = []"
  by (induction ls arbitrary: i) auto

lemma apply_operations_single:
  "apply_operations sources [oper] =
     bindR (operation_patch sources oper) (\<lambda>f. apply_file_patches sources [f])"
  by (cases "operation_patch sources oper") (simp_all add: apply_operations_def)

lemma lf_lines_butlast: "\<forall>l \<in> set (butlast (map (\<lambda>l. l @ [LF]) ls)). ends_with l [LF]"
  by (fastforce simp: ends_with_def dest: in_set_butlastD)

text \<open>An add operation writes the lines of its section, each ended by a newline, for every
  section the line splitter accepts.\<close>

theorem add_operation_writes_lines:
  assumes "lines_of diff = ok ls" "sources path = Some None"
  shows "apply_operations sources
      [\<lparr>po_action = ''add'', po_path = path, po_diff = diff, po_plan = None\<rparr>]
    = ok [(path, Some (unlines ls))]"
proof -
  let ?h = "\<lparr>ph_header = print_header 0 0 (if ls \<noteq> [] then 1 else 0) (length ls),
             ph_lines = map (\<lambda>l. (CHR ''+'', l)) ls, ph_no_newline = {}\<rparr>"
  have sides: "old_side ?h = []" "new_side ?h = map (\<lambda>l. l @ [LF]) ls"
    by (auto simp: old_side_def new_side_def sided_none sided_all in_old_def in_new_def)
  have "coordinates (ph_header ?h) = ok (0, 0, 0, length ls)"
    by (auto simp: coordinates_print)
  then have "apply_hunk [] ?h (0, []) = ok (0, map (\<lambda>l. l @ [LF]) ls)"
    by (simp only: apply_hunk_ok_iff) (simp add: sides)
  then have "apply_text [] (diff_plan [LF] [?h]) = ok (unlines ls)"
    using lf_lines_butlast[of ls]
    by (auto simp: apply_text_def diff_plan_def apply_diff_plain plain_text_def)
  then show ?thesis
    using assms
    by (simp add: apply_operations_single operation_patch_def add_plan_def Let_def
        apply_file_patches_def apply_file_patch_def al_keys_def)
qed

lemma split_on_snoc:
  "split_on sep (s @ [c]) =
     (if c = sep then split_on sep s @ [[]]
      else butlast (split_on sep s) @ [last (split_on sep s) @ [c]])"
proof (induction s)
  case (Cons d s)
  obtain w ws where w: "split_on sep s = w # ws" by (cases "split_on sep s") auto
  show ?case using Cons w by (cases ws) auto
qed simp

lemma last_split_on: "last (split_on LF s) = [] \<longleftrightarrow> s = [] \<or> ends_with s [LF]"
  by (cases s rule: rev_cases) (simp_all add: split_on_snoc ends_with_def)

lemma keep_ends_strip:
  "keep_ends s = (if s = [] \<or> ends_with s [LF] then map (\<lambda>l. l @ [LF]) (strip_ends s)
     else map (\<lambda>l. l @ [LF]) (butlast (strip_ends s)) @ [last (strip_ends s)])"
  using last_split_on[of s] by (auto simp: keep_ends_def strip_ends_def Let_def)

lemma sided_marked_last:
  "ls \<noteq> [] \<Longrightarrow> side k \<Longrightarrow> sided side {i + length ls - 1} i (map (\<lambda>l. (k, l)) ls)
     = map (\<lambda>l. l @ [LF]) (butlast ls) @ [last ls]"
proof (induction ls arbitrary: i)
  case (Cons l ls)
  then show ?case using Cons.IH[of "Suc i"] by (cases ls) (auto simp: hunk_line_def)
qed simp

lemma crlf_to_lf_empty [simp]: "crlf_to_lf s = [] \<longleftrightarrow> s = []"
  by (cases s rule: crlf_to_lf.cases) auto

lemma ends_with_Cons: "b \<noteq> [] \<Longrightarrow> ends_with (a # b) [c] \<longleftrightarrow> ends_with b [c]"
  by (cases b rule: rev_cases) (auto simp: ends_with_def suffix_Cons)

lemma crlf_to_lf_ends: "ends_with (crlf_to_lf s) [LF] \<longleftrightarrow> ends_with s [LF]"
proof (induction s rule: crlf_to_lf.induct)
  case (3 c d cs)
  show ?case
  proof (cases "c = CR \<and> d = LF")
    case True
    then show ?thesis
      using 3(1) by (cases "cs = []") (simp_all add: ends_with_Cons)
  next
    case False
    then show ?thesis using 3(2) by (auto simp: ends_with_Cons)
  qed
qed (simp_all add: ends_with_def)

text \<open>A delete operation removes every text file: for each text the line splitter accepts,
  with or without a final newline, in either newline style, empty or not, the generated patch
  applies and leaves nothing.\<close>

theorem delete_operation_empties:
  assumes "lines_of source = ok ls" "sources path = Some (Some source)"
  shows "apply_operations sources
      [\<lparr>po_action = ''delete'', po_path = path, po_diff = diff, po_plan = None\<rparr>] = ok [(path, None)]"
proof -
  let ?n = "crlf_to_lf source"
  have src: "NUL \<notin> set source" "\<not> newline_conflict source" "ls = strip_ends ?n"
    using assms(1) by (auto simp: lines_of_def check_text_def monad_simps split: if_splits)
  let ?h = "\<lparr>ph_header = print_header (if ls \<noteq> [] then 1 else 0) (length ls) 0 0,
             ph_lines = map (\<lambda>l. (CHR ''-'', l)) ls,
             ph_no_newline = (if source \<noteq> [] \<and> \<not> ends_with source [LF]
                              then {length ls - 1} else {})\<rparr>"
  have "ls \<noteq> []" if "source \<noteq> []" using that by (simp add: src(3) strip_ends_ne)
  then have old: "old_side ?h = keep_ends ?n"
    using sided_marked_last[of ls in_old "CHR ''-''" 0]
    by (auto simp: old_side_def keep_ends_strip crlf_to_lf_ends src(3) sided_all in_old_def strip_ends_def)
  have new: "new_side ?h = []"
    by (auto simp: new_side_def sided_none in_new_def)
  have len: "length (keep_ends ?n) = length ls"
    unfolding old[symmetric] by (simp add: old_side_def length_sided in_old_def comp_def)
  have "coordinates (ph_header ?h) = ok (0, length ls, 0, 0)"
    by (auto simp: coordinates_print)
  then have "apply_hunk (keep_ends ?n) ?h (0, []) = ok (length ls, [])"
    unfolding apply_hunk_ok_iff old new by (simp add: len)
  moreover have "lines_keep source = ok (keep_ends ?n)"
    using src by (simp add: lines_keep_def check_text_def)
  ultimately have "apply_text source (diff_plan [LF] [?h]) = ok []"
    using src len by (simp add: apply_text_def diff_plan_def apply_diff_def Let_def lf_to_def)
  then show ?thesis
    using assms
    by (simp add: apply_operations_single operation_patch_def delete_plan_def Let_def
        apply_file_patches_def apply_file_patch_def al_keys_def)
qed


subsection \<open>Bare updates\<close>

lemma filter_unique:
  "a \<le> p \<Longrightarrow> p < b \<Longrightarrow> \<forall>i. a \<le> i \<and> i < b \<longrightarrow> (P i \<longleftrightarrow> i = p) \<Longrightarrow> filter P [a..<b] = [p]"
proof -
  assume *: "a \<le> p" "p < b" "\<forall>i. a \<le> i \<and> i < b \<longrightarrow> (P i \<longleftrightarrow> i = p)"
  have "[a..<b] = [a..<p] @ p # [Suc p..<b]"
    using *(1,2) by (metis le_add_diff_inverse less_imp_le upt_add_eq_append upt_conv_Cons)
  moreover have "filter P [a..<p] = []" "filter P [Suc p..<b] = []"
    using * by (auto simp: filter_empty_conv)
  ultimately show ?thesis using * by simp
qed

lemma join_with_LF: "ws \<noteq> [] \<Longrightarrow> join_with [LF] ws @ [LF] = unlines ws"
  by (induction "[LF]" ws rule: join_with.induct) auto

lemma render_body_unmarked: "render_body {} i ls = map (\<lambda>(k, c). k # c) ls"
  by (induction ls arbitrary: i) auto

lemma sided_unmarked: "sided side {} i ls = map (\<lambda>(k, c). c @ [LF]) (filter (side \<circ> fst) ls)"
  by (induction ls arbitrary: i) (auto simp: hunk_line_def)

lemma body_side_render:
  "body_side side (map (\<lambda>(k, c). k # c) ls) = map (\<lambda>(k, c). k # c) (filter (side \<circ> fst) ls)"
  by (induction ls) (auto simp: body_side_def)


definition marked_lines :: "(char \<times> string) list \<Rightarrow> string list" where
  "marked_lines body = map (\<lambda>(k, c). k # c) body"

definition contents :: "(char \<Rightarrow> bool) \<Rightarrow> (char \<times> string) list \<Rightarrow> string list" where
  "contents side body = map snd (filter (side \<circ> fst) body)"

definition one_line :: "string \<Rightarrow> bool" where
  "one_line l \<longleftrightarrow> LF \<notin> set l \<and> plain_text l"

text \<open>The block \<open>olds\<close> occurs in the file at line \<open>pos\<close> and nowhere else.\<close>

definition occurs_once :: "string list \<Rightarrow> string list \<Rightarrow> nat \<Rightarrow> bool" where
  "occurs_once file olds pos \<longleftrightarrow>
     pos + length olds \<le> length file \<and>
     (\<forall>i. i + length olds \<le> length file \<longrightarrow>
        (take (length olds) (drop i file) = olds \<longleftrightarrow> i = pos))"

definition bare_hunk :: "nat \<Rightarrow> (char \<times> string) list \<Rightarrow> patch_hunk" where
  "bare_hunk pos body =
    (let n = length (contents in_old body); m = length (contents in_new body) in
     \<lparr>ph_header = print_header (Suc pos) n (pos + (if m \<noteq> 0 then 1 else 0)) m,
      ph_lines = body, ph_no_newline = {}\<rparr>)"

lemma plain_unlines: "\<forall>l \<in> set ls. one_line l \<Longrightarrow> plain_text (unlines ls)"
  by (auto simp: one_line_def plain_text_def)

lemma strip_unlines: "\<forall>l \<in> set ls. one_line l \<Longrightarrow> strip_ends (unlines ls) = ls"
  by (intro strip_ends_lines) (auto simp: one_line_def)

lemma keep_unlines: "\<forall>l \<in> set ls. one_line l \<Longrightarrow> keep_ends (unlines ls) = map (\<lambda>l. l @ [LF]) ls"
  by (intro keep_ends_concat line_list_intro)
     (auto simp: one_line_def is_line_def dest!: in_set_butlastD)

lemma marked_no_at: "\<forall>(k, c) \<in> set body. is_kind k \<Longrightarrow> \<forall>l \<in> set (marked_lines body). \<not> prefix ''@@'' l"
  by (auto simp: marked_lines_def is_kind_def)

lemma preimage_matches_once:
  "occurs_once file olds pos \<Longrightarrow> preimage_matches file 0 olds = [pos]"
  unfolding preimage_matches_def
  by (intro filter_unique) (auto simp: occurs_once_def)

lemma contents_sides:
  "map unmark (body_side side (marked_lines body)) = contents side body"
  "length (body_side side (marked_lines body)) = length (contents side body)"
  unfolding marked_lines_def body_side_render contents_def
  by (simp_all add: unmark_def case_prod_unfold comp_def)

lemma resolve_bare:
  assumes "contents in_old body \<noteq> []" "\<forall>(k, c) \<in> set body. is_kind k"
    and "occurs_once file (contents in_old body) pos"
  shows "resolve_hunks file 0 0 (''@@'' # marked_lines body)
       = ok (ph_header (bare_hunk pos body) # marked_lines body)"
proof -
  have body: "takeWhile (\<lambda>l. \<not> prefix ''@@'' l) (marked_lines body) = marked_lines body"
    "dropWhile (\<lambda>l. \<not> prefix ''@@'' l) (marked_lines body) = []"
    using marked_no_at[OF assms(2)] by (simp_all add: takeWhile_eq_all_conv dropWhile_eq_Nil_conv)
  have hdr: "parse_header ''@@'' = None" by (simp add: parse_header_def need_prefix_def)
  have "resolve_header file 0 0 ''@@'' (marked_lines body)
      = ok (ph_header (bare_hunk pos body), pos, length (contents in_old body), length (contents in_new body))"
    using assms(1)
    by (simp add: resolve_header_def hdr contents_sides preimage_matches_once[OF assms(3)]
        bare_hunk_def print_header_def int_str_def nat_add_distrib Let_def)
  then show ?thesis by (simp add: body)
qed

lemma bare_hunk_sides:
  "old_side (bare_hunk pos body) = map (\<lambda>l. l @ [LF]) (contents in_old body)"
  "new_side (bare_hunk pos body) = map (\<lambda>l. l @ [LF]) (contents in_new body)"
  by (auto simp: bare_hunk_def Let_def old_side_def new_side_def sided_unmarked contents_def)

lemma bare_hunk_coordinates:
  "contents in_old body \<noteq> [] \<Longrightarrow> coordinates (ph_header (bare_hunk pos body)) =
     ok (pos, length (contents in_old body), pos, length (contents in_new body))"
  by (simp add: bare_hunk_def Let_def coordinates_print)

lemma parse_bare:
  assumes "contents in_old body \<noteq> []" "\<forall>(k, c) \<in> set body. is_kind k"
  shows "parse_hunks (ph_header (bare_hunk pos body) # marked_lines body) = ok ([bare_hunk pos body], [])"
proof -
  have "hunk_ok (bare_hunk pos body)"
    using assms by (auto simp: hunk_ok_def bare_hunk_coordinates bare_hunk_sides)
       (auto simp: bare_hunk_def Let_def)
  then have "parse_hunks (concat (map render_hunk [bare_hunk pos body]) @ []) = ok ([bare_hunk pos body], [])"
    by (intro parse_hunks_renders) (auto simp: split_marker_def)
  moreover have "render_hunk (bare_hunk pos body) = ph_header (bare_hunk pos body) # marked_lines body"
    by (simp add: render_hunk_def bare_hunk_def Let_def render_body_unmarked marked_lines_def)
  ultimately show ?thesis by simp
qed

lemma apply_bare:
  assumes "contents in_old body \<noteq> []" "\<forall>l \<in> set file. one_line l"
    and "occurs_once file (contents in_old body) pos"
  shows "apply_text (unlines file) (diff_plan [LF] [bare_hunk pos body]) =
    ok (unlines (take pos file @ contents in_new body @ drop (pos + length (contents in_old body)) file))"
proof -
  let ?k = "map (\<lambda>l. l @ [LF])" and ?n = "length (contents in_old body)"
  have at: "take ?n (drop pos file) = contents in_old body" "pos + ?n \<le> length file"
    using assms(3) by (auto simp: occurs_once_def)
  have "drop pos (?k file) = ?k (drop pos file)" by (simp add: drop_map)
  also have "drop pos file = contents in_old body @ drop (pos + ?n) file"
    using at(1) by (metis append_take_drop_id drop_drop add.commute)
  finally have pre: "prefix (?k (contents in_old body)) (drop pos (?k file))" by simp
  have run: "apply_hunk (?k file) (bare_hunk pos body) (0, [])
      = ok (pos + ?n, take pos (?k file) @ ?k (contents in_new body))"
    unfolding apply_hunk_ok_iff bare_hunk_coordinates[OF assms(1)] bare_hunk_sides
    using pre at(2) by simp
  let ?out = "take pos file @ contents in_new body @ drop (pos + ?n) file"
  have out: "(take pos (?k file) @ ?k (contents in_new body)) @ drop (pos + ?n) (?k file) = ?k ?out"
    by (simp add: take_map drop_map)
  show ?thesis
    using plain_unlines[OF assms(2)] lf_lines_butlast[of ?out]
    by (simp add: apply_text_def diff_plan_def apply_diff_plain keep_unlines[OF assms(2)] run out
        plain_text_def del: append_assoc map_append concat_append)
qed


lemma one_line_header: "one_line (ph_header (bare_hunk pos body))"
  using print_header_no_LF nat_str_digits[of CR] nat_str_digits[of NUL]
  by (auto simp: one_line_def plain_text_def bare_hunk_def Let_def print_header_def is_digit_def)
     (auto dest!: nat_str_digits simp: is_digit_def)

lemma one_line_marked:
  "\<forall>(k, c) \<in> set body. is_kind k \<and> one_line c \<Longrightarrow> \<forall>l \<in> set (marked_lines body). one_line l"
  by (auto simp: marked_lines_def one_line_def plain_text_def is_kind_def)

lemma parse_patch_input_hunks:
  "prefix ''@@'' x \<Longrightarrow> lines_of x = ok ls \<Longrightarrow> parse_hunks ls = ok (hs, []) \<Longrightarrow> newline_of x = nl \<Longrightarrow>
   parse_patch_input \<lparr>pa_diff = Some x, pa_path = None, pa_old_text = None, pa_new_text = None\<rparr>
     = ok (diff_plan nl hs)"
  by (cases x) (auto simp: parse_patch_input_def)

lemma parse_bare_input:
  assumes "contents in_old body \<noteq> []" "\<forall>(k, c) \<in> set body. is_kind k \<and> one_line c"
  shows "parse_patch_input \<lparr>pa_diff = Some (unlines (ph_header (bare_hunk pos body) # marked_lines body)),
      pa_path = None, pa_old_text = None, pa_new_text = None\<rparr> = ok (diff_plan [LF] [bare_hunk pos body])"
proof -
  let ?ls = "ph_header (bare_hunk pos body) # marked_lines body"
  have one: "\<forall>l \<in> set ?ls. one_line l"
    using one_line_marked[OF assms(2)] one_line_header by simp
  have lines: "lines_of (unlines ?ls) = ok ?ls"
    by (simp only: lines_of_plain[OF plain_unlines[OF one]] strip_unlines[OF one])
  have nl: "newline_of (unlines ?ls) = [LF]"
    using plain_unlines[OF one] by (simp add: newline_of_def plain_text_def)
  have at: "prefix ''@@'' (unlines ?ls)" by (simp add: bare_hunk_def Let_def print_header_def)
  have kinds: "\<forall>(k, c) \<in> set body. is_kind k" using assms(2) by auto
  show ?thesis by (rule parse_patch_input_hunks[OF at lines parse_bare[OF assms(1) kinds] nl])
qed

text \<open>End to end, a bare update edits exactly the block it quotes: when the context and
  removed lines of the section occur once in the file, the operation replaces that block by the
  context and added lines and keeps every line before and after it.\<close>

theorem bare_update_replaces_block:
  assumes "\<forall>l \<in> set file. one_line l"
    and "\<forall>(k, c) \<in> set body. is_kind k \<and> one_line c" "contents in_old body \<noteq> []"
    and "occurs_once file (contents in_old body) pos"
    and "sources path = Some (Some (unlines file))"
  shows "apply_operations sources
      [\<lparr>po_action = ''update'', po_path = path, po_diff = unlines (''@@'' # marked_lines body),
        po_plan = None\<rparr>]
    = ok [(path, Some (unlines (take pos file @ contents in_new body @
              drop (pos + length (contents in_old body)) file)))]"
proof -
  have kinds: "\<forall>(k, c) \<in> set body. is_kind k" using assms(2) by auto
  let ?D = "''@@'' # marked_lines body"
  have "one_line ''@@''" by (simp add: one_line_def plain_text_def)
  then have D: "\<forall>l \<in> set ?D. one_line l" using one_line_marked[OF assms(2)] by simp
  have "normalize_hunk_headers (unlines ?D) (unlines file)
      = ok (unlines (ph_header (bare_hunk pos body) # marked_lines body))"
    unfolding normalize_hunk_headers_def lines_of_plain[OF plain_unlines[OF D]] strip_unlines[OF D]
      lines_of_plain[OF plain_unlines[OF assms(1)]] strip_unlines[OF assms(1)]
    by (simp add: resolve_bare[OF assms(3) kinds assms(4)] join_with_LF
        del: join_with.simps resolve_hunks.simps list.map concat.simps)
  then show ?thesis
    using assms(5) parse_bare_input[OF assms(3,2), of pos] apply_bare[OF assms(3,1,4)]
    by (simp add: apply_operations_single operation_patch_def Let_def
        apply_file_patches_def apply_file_patch_def al_keys_def del: list.map concat.simps)
qed

theorem add_operation_writes_lines_witness:
  "apply_operations [''n'' \<mapsto> None]
      [\<lparr>po_action = ''add'', po_path = ''n'', po_diff = ''a'' @ [CR, LF] @ ''b'', po_plan = None\<rparr>]
    = ok [(''n'', Some (''a'' @ [LF] @ ''b'' @ [LF]))]"
proof -
  have "lines_of (''a'' @ [CR, LF] @ ''b'') = ok [''a'', ''b'']" by code_simp
  from add_operation_writes_lines[OF this] show ?thesis by simp
qed

theorem delete_operation_empties_witness:
  "apply_operations [''o'' \<mapsto> Some (''a'' @ [LF] @ ''b'')]
      [\<lparr>po_action = ''delete'', po_path = ''o'', po_diff = [], po_plan = None\<rparr>] = ok [(''o'', None)]"
proof -
  have "lines_of (''a'' @ [LF] @ ''b'') = ok [''a'', ''b'']" by code_simp
  from delete_operation_empties[OF this] show ?thesis by simp
qed

definition sample_body :: "(char \<times> string) list" where
  "sample_body = [(CHR '' '', ''a''), (CHR ''-'', ''b''), (CHR ''+'', ''c'')]"

theorem bare_update_replaces_block_witness:
  "apply_operations [''f'' \<mapsto> Some (unlines [''x'', ''a'', ''b'', ''y''])]
      [\<lparr>po_action = ''update'', po_path = ''f'', po_diff = unlines (''@@'' # marked_lines sample_body),
        po_plan = None\<rparr>]
    = ok [(''f'', Some (unlines [''x'', ''a'', ''c'', ''y'']))]"
proof -
  have old: "contents in_old sample_body = [''a'', ''b'']" "contents in_new sample_body = [''a'', ''c'']"
    by (simp_all add: contents_def sample_body_def in_old_def in_new_def)
  have i: "i = 0 \<or> i = 1 \<or> i = 2" if "i + length [''a'', ''b''] \<le> length [''x'', ''a'', ''b'', ''y'']" for i
    using that by auto
  have "occurs_once [''x'', ''a'', ''b'', ''y''] (contents in_old sample_body) 1"
    unfolding old occurs_once_def using i by fastforce
  from bare_update_replaces_block[OF _ _ _ this] show ?thesis
    by (simp add: old) (simp add: one_line_def plain_text_def sample_body_def is_kind_def)
qed

end
