(* ===== verification/PatchEnvelope.thy ===== *)
theory PatchEnvelope
  imports PatchOps
begin

text \<open>
  The explicit patch envelope of \<open>agent_runtime/apply_patch_format.py\<close> (after
  \<open>strip_fences\<close>) and the preview of \<open>agent_runtime/patch_engine.py\<close>: which operations an
  envelope may yield, and that the added and removed lines a preview announces are the change
  in the number of lines of the file.
\<close>

subsection \<open>Envelope sections\<close>

definition section_header :: "string \<Rightarrow> (string \<times> string) option" where
  "section_header line =
    (let try_kind = (\<lambda>word action.
           let p = ''*** '' @ word @ '' File: '' in
           if prefix p line \<and> drop (length p) line \<noteq> [] then Some (action, drop (length p) line) else None)
     in case try_kind ''Update'' ''update'' of
          Some r \<Rightarrow> Some r
        | None \<Rightarrow> (case try_kind ''Add'' ''add'' of
                     Some r \<Rightarrow> Some r
                   | None \<Rightarrow> try_kind ''Delete'' ''delete''))"

definition slashes :: "string \<Rightarrow> string" where
  "slashes p = map (\<lambda>c. if c = CHR 0x5C then CHR ''/'' else c) p"

definition value_error :: "string \<Rightarrow> 'a res" where
  "value_error msg = raise (ValueError msg)"

definition section_op :: "string \<Rightarrow> string \<Rightarrow> string list \<Rightarrow> patch_op res" where
  "section_op action path content =
    (let make = (\<lambda>ls. \<lparr>po_action = action, po_path = path,
            po_diff = join_with [LF] ls @ (if ls \<noteq> [] then [LF] else []), po_plan = None\<rparr>) in
     if action = ''delete'' \<and> content \<noteq> []
     then value_error ''apply_patch: Delete File has unexpected content''
     else if action = ''update'' \<and> content = []
     then value_error ''apply_patch: empty Update File body''
     else if action = ''add'' then
       (if \<exists>l \<in> set content. \<not> prefix ''+'' l
        then value_error ''apply_patch: Add File lines must begin with +''
        else ok (make (map (drop 1) content)))
     else ok (make content))"

function envelope_sections :: "string set \<Rightarrow> string list \<Rightarrow> patch_op list res" where
  "envelope_sections seen [] = ok []"
| "envelope_sections seen (line # ls) =
    (case section_header line of
       None \<Rightarrow> value_error ''apply_patch: unexpected content or unsupported operation''
     | Some (action, raw) \<Rightarrow>
        (let path = slashes raw;
             content = takeWhile (\<lambda>l. \<not> prefix ''*** '' l) ls;
             rest = dropWhile (\<lambda>l. \<not> prefix ''*** '' l) ls in
         if casefold path \<in> seen then value_error ''apply_patch: duplicate file path''
         else
          bindR (section_op action path content) (\<lambda>oper.
          bindR (envelope_sections (insert (casefold path) seen) rest) (\<lambda>ops.
            ok (oper # ops)))))"
  by pat_completeness auto
termination
  by (relation "measure (\<lambda>(_, ls). length ls)") (auto simp: length_dropWhile_le le_imp_less_Suc)

definition parse_envelope :: "string \<Rightarrow> patch_op list res" where
  "parse_envelope body =
    (if prefix ''--- '' body \<or> prefix ''diff --git '' body then
       bindR (parse_unified_patch body) (\<lambda>files.
         ok (map (\<lambda>f. \<lparr>po_action = fp_action f, po_path = fp_path f, po_diff = [],
                        po_plan = Some (fp_plan f)\<rparr>) files))
     else
       bindR (lines_of body) (\<lambda>ls.
        if ls = [] \<or> hd ls \<noteq> ''*** Begin Patch'' \<or> last ls \<noteq> ''*** End Patch''
        then value_error ''apply_patch: expected *** Begin Patch ... *** End Patch''
        else
          bindR (envelope_sections {} (butlast (tl ls))) (\<lambda>ops.
            if ops = [] then value_error ''apply_patch: empty input'' else ok ops)))"

definition op_ok :: "patch_op \<Rightarrow> bool" where
  "op_ok oper \<longleftrightarrow>
     po_path oper \<noteq> [] \<and> CHR 0x5C \<notin> set (po_path oper) \<and>
     po_action oper \<in> {''update'', ''add'', ''delete''} \<and>
     (po_plan oper = None \<longrightarrow>
        (po_action oper = ''delete'' \<longrightarrow> po_diff oper = []) \<and>
        (po_action oper = ''update'' \<longrightarrow> po_diff oper \<noteq> []))"

lemma section_header_ok:
  "section_header line = Some (action, raw) \<Longrightarrow>
     raw \<noteq> [] \<and> action \<in> {''update'', ''add'', ''delete''}"
  by (auto simp: section_header_def Let_def split: option.splits if_splits)

lemma slashes_ok: "CHR 0x5C \<notin> set (slashes p)" "slashes p = [] \<longleftrightarrow> p = []"
  by (auto simp: slashes_def)

lemma section_op_ok:
  "section_op action path content = Inr oper \<Longrightarrow> action \<in> {''update'', ''add'', ''delete''} \<Longrightarrow>
   path \<noteq> [] \<Longrightarrow> CHR 0x5C \<notin> set path \<Longrightarrow> op_ok oper \<and> po_path oper = path \<and> po_plan oper = None"
  by (auto simp: section_op_def Let_def op_ok_def value_error_def split: if_splits)

lemma envelope_sections_ok:
  "envelope_sections seen ls = Inr ops \<Longrightarrow>
     (\<forall>oper \<in> set ops. op_ok oper \<and> casefold (po_path oper) \<notin> seen) \<and>
     distinct (map (casefold \<circ> po_path) ops)"
proof (induction seen ls arbitrary: ops rule: envelope_sections.induct)
  case (2 seen line ls)
  obtain action raw where hdr: "section_header line = Some (action, raw)"
    using "2.prems" by (auto simp: value_error_def split: option.splits)
  let ?rest = "dropWhile (\<lambda>l. \<not> prefix ''*** '' l) ls"
  obtain oper ops' where fresh: "casefold (slashes raw) \<notin> seen"
    and oper: "section_op action (slashes raw) (takeWhile (\<lambda>l. \<not> prefix ''*** '' l) ls) = Inr oper"
    and rest: "envelope_sections (insert (casefold (slashes raw)) seen) ?rest = Inr ops'"
    and ops: "ops = oper # ops'"
    using "2.prems" by (auto simp: hdr Let_def monad_simps value_error_def split: if_splits)
  have "op_ok oper \<and> po_path oper = slashes raw"
    using section_op_ok[OF oper] section_header_ok[OF hdr] by (simp add: slashes_ok)
  then show ?case
    using "2.IH"[OF hdr refl refl refl refl fresh oper rest] fresh by (auto simp: ops)
qed simp

text \<open>An accepted envelope yields at least one operation, each on a nonempty path without
  backslashes, no path twice up to letter case, deletions without content and updates with
  content; the same holds of an envelope that is a unified diff.\<close>

theorem envelope_well_formed:
  assumes "parse_envelope body = ok ops"
  shows "ops \<noteq> [] \<and> distinct (map (casefold \<circ> po_path) ops) \<and> (\<forall>oper \<in> set ops. op_ok oper)"
proof (cases "prefix ''--- '' body \<or> prefix ''diff --git '' body")
  case True
  then obtain files where files: "parse_unified_patch body = Inr files"
    and ops: "ops = map (\<lambda>f. \<lparr>po_action = fp_action f, po_path = fp_path f, po_diff = [],
                        po_plan = Some (fp_plan f)\<rparr>) files"
    using assms by (auto simp: parse_envelope_def monad_simps)
  obtain ls where ls: "parse_files (newline_of body) {} ls = Inr files" and "ls \<noteq> []"
    using files by (auto simp: parse_unified_patch_def monad_simps lines_of_def check_text_def
        strip_ends_ne split: if_splits)
  then have "files \<noteq> []" "distinct (map (casefold \<circ> fp_path) files)" "\<forall>f \<in> set files. file_patch_ok f"
    using parse_files_ok[OF ls] by auto
  then show ?thesis
    by (auto simp: ops comp_def op_ok_def file_patch_ok_def dest: safe_path_start)
       (simp add: safe_path_def)
next
  case False
  then obtain ls where ls: "envelope_sections {} ls = Inr ops" and "ops \<noteq> []"
    using assms by (auto simp: parse_envelope_def monad_simps value_error_def split: if_splits)
  then show ?thesis using envelope_sections_ok[OF ls] by auto
qed

theorem envelope_well_formed_witness:
  "distinct (map (casefold \<circ> po_path)
     [\<lparr>po_action = ''add'', po_path = ''d/n'', po_diff = ''a'' @ [LF], po_plan = None\<rparr>])"
proof -
  have "parse_envelope (unlines [''*** Begin Patch'', ''*** Add File: d/n'', ''+a'', ''*** End Patch''])
     = ok [\<lparr>po_action = ''add'', po_path = ''d/n'', po_diff = ''a'' @ [LF], po_plan = None\<rparr>]"
    by code_simp
  from envelope_well_formed[OF this] show ?thesis by blast
qed

subsection \<open>Preview counts\<close>

definition line_break :: "char \<Rightarrow> bool" where
  "line_break c \<longleftrightarrow> c \<in> {CHR 0x0A, CHR 0x0B, CHR 0x0C, CHR 0x1C, CHR 0x1D, CHR 0x1E}"

fun py_splitlines :: "string \<Rightarrow> string \<Rightarrow> string list" where
  "py_splitlines acc [] = (if acc = [] then [] else [acc])"
| "py_splitlines acc [c] = (if c = CR \<or> line_break c then [acc] else [acc @ [c]])"
| "py_splitlines acc (c # d # cs) =
     (if c = CR \<and> d = LF then acc # py_splitlines [] cs
      else if c = CR \<or> line_break c then acc # py_splitlines [] (d # cs)
      else py_splitlines (acc @ [c]) (d # cs))"

record hunk_preview =
  hp_header :: string
  hp_removed :: "string list"
  hp_added :: "string list"

record patch_preview =
  pp_path :: string
  pp_hunk_count :: nat
  pp_lines_added :: nat
  pp_lines_removed :: nat
  pp_hunks :: "hunk_preview list"

definition of_kind :: "char \<Rightarrow> patch_hunk \<Rightarrow> string list" where
  "of_kind k h = map snd (filter (\<lambda>(kind, _). kind = k) (ph_lines h))"

definition build_preview :: "string \<Rightarrow> patch_plan \<Rightarrow> patch_preview" where
  "build_preview path plan =
    (if pl_mode plan = ''replacement'' then
      (let removed = py_splitlines [] (pl_old_text plan);
           added = py_splitlines [] (pl_new_text plan) in
       \<lparr>pp_path = path, pp_hunk_count = 1, pp_lines_added = length added,
        pp_lines_removed = length removed,
        pp_hunks = [\<lparr>hp_header = ''@@ replacement @@'', hp_removed = take 20 removed,
                     hp_added = take 20 added\<rparr>]\<rparr>)
     else
       \<lparr>pp_path = path, pp_hunk_count = length (pl_hunks plan),
        pp_lines_added = sum_list (map (\<lambda>h. length (of_kind (CHR ''+'') h)) (pl_hunks plan)),
        pp_lines_removed = sum_list (map (\<lambda>h. length (of_kind (CHR ''-'') h)) (pl_hunks plan)),
        pp_hunks = map (\<lambda>h. \<lparr>hp_header = ph_header h,
                         hp_removed = take 20 (of_kind (CHR ''-'') h),
                         hp_added = take 20 (of_kind (CHR ''+'') h)\<rparr>) (pl_hunks plan)\<rparr>)"

lemma hunk_balance:
  "length (new_side h) + length (of_kind (CHR ''-'') h) =
   length (old_side h) + length (of_kind (CHR ''+'') h)"
proof -
  have "length (filter (in_new \<circ> fst) ls) + length (filter (\<lambda>(k, _). k = CHR ''-'') ls) =
      length (filter (in_old \<circ> fst) ls) + length (filter (\<lambda>(k, _). k = CHR ''+'') ls)"
    for ls :: "(char \<times> string) list"
    by (induction ls) (auto simp: in_new_def in_old_def)
  then show ?thesis by (simp add: new_side_def old_side_def length_sided of_kind_def)
qed

lemma spliced_balance:
  "spliced tail hs old new \<Longrightarrow>
     length new + sum_list (map (\<lambda>h. length (of_kind (CHR ''-'') h)) hs) =
     length old + sum_list (map (\<lambda>h. length (of_kind (CHR ''+'') h)) hs)"
proof (induction rule: spliced.induct)
  case (spliced_hunk rest hs old new h gap)
  then show ?case using hunk_balance[of h] by simp
qed simp

text \<open>The preview tells the truth: when a diff applies to a plain text, the new text has as
  many lines as the old one, minus the lines the preview announces as removed, plus those it
  announces as added.\<close>

theorem preview_counts_line_change:
  assumes "plain_text text" "pl_mode plan = ''diff''" "pl_newline plan = [LF]"
    and "\<forall>h \<in> set (pl_hunks plan). plain_hunk h"
    and "apply_text text plan = ok out"
  shows "length (keep_ends out) + pp_lines_removed (build_preview path plan) =
    length (keep_ends text) + pp_lines_added (build_preview path plan)"
proof -
  obtain tail where "spliced tail (pl_hunks plan) (keep_ends text) (keep_ends out)"
    using apply_text_splices[OF assms] by blast
  then show ?thesis
    using spliced_balance assms(2) by (simp add: build_preview_def)
qed

theorem preview_counts_line_change_witness:
  "length (keep_ends (''a'' @ [LF] @ ''c'' @ [LF] @ ''d'')) + 1 =
   length (keep_ends (''a'' @ [LF] @ ''b'' @ [LF] @ ''d'')) + 1"
proof -
  have plain: "\<forall>h \<in> set (pl_hunks sample_plan). plain_hunk h"
    by (auto simp: sample_plan_def plain_hunk_def plain_text_def less_Suc_eq_0_disj)
  show ?thesis
    using preview_counts_line_change[OF _ _ _ plain sample_plan_applies]
    by (simp add: plain_text_def sample_plan_def build_preview_def of_kind_def)
qed

end
