(* ===== verification/Graphs.thy ===== *)
theory Graphs
  imports Prelude
begin

text \<open>
  Dependency graphs and the depth-first cycle check that \<open>plan_runtime/validate.py\<close>,
  \<open>tool_dag.py\<close> and \<open>src/collaboration/dag.py\<close> all spell out: a set of keys on the current
  path, a set of finished keys, an error when the path meets itself.  The check accepts exactly
  the graphs without a cycle, and a graph it accepts always has a key whose dependencies lie
  outside any given nonempty set of keys, which is what every scheduler over it relies on.
\<close>

definition dep_edges :: "'k list \<Rightarrow> ('k \<Rightarrow> 'k list) \<Rightarrow> ('k \<times> 'k) set" where
  "dep_edges nodes deps = {(k, d). k \<in> set nodes \<and> d \<in> set (deps k) \<and> d \<in> set nodes}"

function (sequential)
  visit :: "'k list \<Rightarrow> ('k \<Rightarrow> 'k list) \<Rightarrow> 'k set \<Rightarrow> 'k set \<Rightarrow> 'k \<Rightarrow> 'k set option" and
  visit_all :: "'k list \<Rightarrow> ('k \<Rightarrow> 'k list) \<Rightarrow> 'k set \<Rightarrow> 'k set \<Rightarrow> 'k list \<Rightarrow> 'k set option"
where
  "visit nodes deps visiting visited k =
    (if k \<notin> set nodes then Some visited
     else if k \<in> visiting then None
     else if k \<in> visited then Some visited
     else (case visit_all nodes deps (insert k visiting) visited (deps k) of
             None \<Rightarrow> None
           | Some v \<Rightarrow> Some (insert k v)))"
| "visit_all nodes deps visiting visited [] = Some visited"
| "visit_all nodes deps visiting visited (k # ks) =
    (case visit nodes deps visiting visited k of
       None \<Rightarrow> None
     | Some v \<Rightarrow> visit_all nodes deps visiting v ks)"
  by pat_completeness auto
termination
proof (relation "measures
    [\<lambda>x. case x of Inl (nodes, _, visiting, _, _) \<Rightarrow> card (set nodes - visiting)
              | Inr (nodes, _, visiting, _, _) \<Rightarrow> card (set nodes - visiting),
     \<lambda>x. case x of Inl _ \<Rightarrow> 0 | Inr (_, _, _, _, ks) \<Rightarrow> Suc (length ks)]")
  fix nodes :: "'k list" and visiting :: "'k set" and k
  have "set nodes - insert k visiting \<subset> set nodes - visiting" if "k \<in> set nodes" "k \<notin> visiting"
    using that by blast
  then have "card (set nodes - insert k visiting) < card (set nodes - visiting)"
    if "k \<in> set nodes" "k \<notin> visiting"
    using that by (intro psubset_card_mono) auto
  then show "(Inr (nodes, deps, insert k visiting, visited, deps k),
         Inl (nodes, deps, visiting, visited, k)) \<in> measures
    [\<lambda>x. case x of Inl (nodes, _, visiting, _, _) \<Rightarrow> card (set nodes - visiting)
              | Inr (nodes, _, visiting, _, _) \<Rightarrow> card (set nodes - visiting),
     \<lambda>x. case x of Inl _ \<Rightarrow> 0 | Inr (_, _, _, _, ks) \<Rightarrow> Suc (length ks)]"
    if "\<not> k \<notin> set nodes" "k \<notin> visiting" "k \<notin> visited" for deps visited
    using that by simp
qed auto

declare visit.simps [simp del]

definition cyclic_graph :: "'k list \<Rightarrow> ('k \<Rightarrow> 'k list) \<Rightarrow> bool" where
  "cyclic_graph nodes deps \<longleftrightarrow> visit_all nodes deps {} {} nodes = None"

text \<open>A numbering of the keys that grows along dependents.\<close>

definition ranked :: "'k list \<Rightarrow> ('k \<Rightarrow> 'k list) \<Rightarrow> 'k set \<Rightarrow> ('k \<Rightarrow> nat) \<Rightarrow> bool" where
  "ranked nodes deps V rank \<longleftrightarrow>
     (\<forall>k \<in> V. \<forall>d \<in> set (deps k) \<inter> set nodes. d \<in> V \<and> rank d < rank k)"

lemma visit_cycle:
  fixes nodes :: "'k list"
  defines "E \<equiv> dep_edges nodes"
  shows "visit nodes deps visiting visited k = None \<Longrightarrow>
     \<forall>v \<in> visiting. (v, k) \<in> (E deps)\<^sup>+ \<Longrightarrow> \<exists>x. (x, x) \<in> (E deps)\<^sup>+"
    and "visit_all nodes deps visiting visited ks = None \<Longrightarrow>
     \<forall>v \<in> visiting. \<forall>d \<in> set ks \<inter> set nodes. (v, d) \<in> (E deps)\<^sup>+ \<Longrightarrow> \<exists>x. (x, x) \<in> (E deps)\<^sup>+"
  unfolding E_def
proof (induction nodes deps visiting visited k and nodes deps visiting visited ks
    rule: visit_visit_all.induct)
  case (1 nodes deps visiting visited k)
  show ?case
  proof (cases "k \<in> visiting")
    case True
    then show ?thesis using "1.prems" by auto
  next
    case False
    then have k: "k \<in> set nodes" "k \<notin> visited"
        "visit_all nodes deps (insert k visiting) visited (deps k) = None"
      using "1.prems"(1) by (auto simp: visit.simps[of nodes deps visiting visited k]
          split: if_splits option.splits)
    have edge: "(k, d) \<in> dep_edges nodes deps" if "d \<in> set (deps k) \<inter> set nodes" for d
      using that k(1) by (simp add: dep_edges_def)
    have "\<forall>v \<in> insert k visiting. \<forall>d \<in> set (deps k) \<inter> set nodes. (v, d) \<in> (dep_edges nodes deps)\<^sup>+"
    proof (intro ballI)
      fix v d assume v: "v \<in> insert k visiting" and d: "d \<in> set (deps k) \<inter> set nodes"
      show "(v, d) \<in> (dep_edges nodes deps)\<^sup>+"
        using v edge[OF d] "1.prems"(2) by (cases "v = k") (auto intro: trancl_into_trancl)
    qed
    then show ?thesis using "1.IH" False k by blast
  qed
next
  case (3 nodes deps visiting visited k ks)
  show ?case
  proof (cases "visit nodes deps visiting visited k")
    case None
    then have "k \<in> set nodes" by (auto simp: visit.simps split: if_splits)
    then show ?thesis using "3.IH"(1)[OF None] "3.prems"(2) by auto
  next
    case (Some v)
    then show ?thesis using "3.IH"(2)[OF Some] "3.prems" by auto
  qed
qed auto

lemma ranked_insert:
  assumes "ranked nodes deps V rank" "k \<notin> V" "set (deps k) \<inter> set nodes \<subseteq> V"
  shows "\<exists>rank'. ranked nodes deps (insert k V) rank'"
proof -
  let ?r = "rank(k := Suc (sum_list (map rank (deps k))))"
  have le: "rank d \<le> sum_list (map rank (deps k))" if "d \<in> set (deps k)" for d
    using that by (intro member_le_sum_list) auto
  have "ranked nodes deps (insert k V) ?r"
    unfolding ranked_def using assms le by (auto simp: ranked_def less_Suc_eq_le)
  then show ?thesis by blast
qed

lemma visit_ranked:
  "visit nodes deps visiting visited k = Some v \<Longrightarrow> ranked nodes deps visited rank \<Longrightarrow>
     visited \<inter> visiting = {} \<Longrightarrow>
     visited \<subseteq> v \<and> v \<inter> visiting = {} \<and> (k \<in> set nodes \<longrightarrow> k \<in> v) \<and> (\<exists>rank'. ranked nodes deps v rank')"
  "visit_all nodes deps visiting visited ks = Some v \<Longrightarrow> ranked nodes deps visited rank \<Longrightarrow>
     visited \<inter> visiting = {} \<Longrightarrow>
     visited \<subseteq> v \<and> v \<inter> visiting = {} \<and> set ks \<inter> set nodes \<subseteq> v \<and> (\<exists>rank'. ranked nodes deps v rank')"
proof (induction nodes deps visiting visited k and nodes deps visiting visited ks
    arbitrary: v rank and v rank rule: visit_visit_all.induct)
  case (1 nodes deps visiting visited k)
  show ?case
  proof (cases "k \<notin> set nodes \<or> k \<in> visited")
    case True
    then show ?thesis
      using "1.prems" by (auto simp: visit.simps[of nodes deps visiting visited k] split: if_splits)
  next
    case False
    then obtain w where k: "k \<notin> visiting" and w: "v = insert k w"
        "visit_all nodes deps (insert k visiting) visited (deps k) = Some w"
      using "1.prems"(1) by (auto simp: visit.simps[of nodes deps visiting visited k]
          split: if_splits option.splits)
    have "visited \<inter> insert k visiting = {}" using "1.prems"(3) False by auto
    then have IH: "visited \<subseteq> w" "w \<inter> insert k visiting = {}" "set (deps k) \<inter> set nodes \<subseteq> w"
        "\<exists>rank'. ranked nodes deps w rank'"
      using "1.IH"[OF _ k _ w(2) "1.prems"(2)] False by auto
    then obtain r where "ranked nodes deps w r" by blast
    then have "\<exists>r. ranked nodes deps v r"
      unfolding w(1) using IH by (intro ranked_insert) auto
    then show ?thesis using IH k by (auto simp: w(1))
  qed
next
  case (3 nodes deps visiting visited k ks)
  obtain w where w: "visit nodes deps visiting visited k = Some w"
      "visit_all nodes deps visiting w ks = Some v"
    using "3.prems"(1) by (auto split: option.splits)
  from "3.IH"(1)[OF w(1) "3.prems"(2,3)] obtain r where r: "visited \<subseteq> w" "w \<inter> visiting = {}"
      "k \<in> set nodes \<longrightarrow> k \<in> w" "ranked nodes deps w r" by blast
  from "3.IH"(2)[OF w(1,2) r(4,2)] r show ?case by auto
qed auto

text \<open>The check accepts exactly the acyclic graphs; acceptance yields a ranking.\<close>

lemma accepted_ranked: "\<not> cyclic_graph nodes deps \<Longrightarrow> \<exists>rank. ranked nodes deps (set nodes) rank"
proof -
  assume "\<not> cyclic_graph nodes deps"
  then obtain v where v: "visit_all nodes deps {} {} nodes = Some v" by (auto simp: cyclic_graph_def)
  have "ranked nodes deps {} (\<lambda>_. 0)" by (simp add: ranked_def)
  from visit_ranked(2)[OF v this] obtain r where "set nodes \<subseteq> v" "ranked nodes deps v r" by auto
  then have "ranked nodes deps (set nodes) r" by (auto simp: ranked_def)
  then show ?thesis by blast
qed

lemma ranked_acyclic: "ranked nodes deps (set nodes) rank \<Longrightarrow> acyclic (dep_edges nodes deps)"
proof -
  assume r: "ranked nodes deps (set nodes) rank"
  have "dep_edges nodes deps \<subseteq> (measure rank)\<inverse>"
    using r by (auto simp: dep_edges_def ranked_def)
  moreover have "acyclic ((measure rank)\<inverse>)"
    by (simp add: acyclic_converse wf_acyclic)
  ultimately show ?thesis by (rule acyclic_subset[rotated])
qed

lemma cyclic_graph_iff: "cyclic_graph nodes deps \<longleftrightarrow> \<not> acyclic (dep_edges nodes deps)"
proof
  assume "cyclic_graph nodes deps"
  then show "\<not> acyclic (dep_edges nodes deps)"
    using visit_cycle(2)[of nodes deps "{}" "{}" nodes] by (auto simp: cyclic_graph_def acyclic_def)
next
  assume "\<not> acyclic (dep_edges nodes deps)"
  then show "cyclic_graph nodes deps"
    using accepted_ranked ranked_acyclic by blast
qed

text \<open>Progress: in an acyclic graph every nonempty set of keys has one whose dependencies all
  lie outside the set.\<close>

lemma acyclic_source:
  assumes "\<not> cyclic_graph nodes deps" "P \<subseteq> set nodes" "P \<noteq> {}"
  shows "\<exists>k \<in> P. \<forall>d \<in> set (deps k) \<inter> set nodes. d \<notin> P"
proof -
  obtain rank where r: "ranked nodes deps (set nodes) rank" using accepted_ranked[OF assms(1)] by blast
  have "finite P" using assms(2) finite_subset by blast
  then obtain k where k: "k \<in> P" "\<forall>j \<in> P. rank k \<le> rank j"
    using assms(3) ex_min_if_finite[of "rank ` P"] by (auto simp: not_less)
  have "rank d < rank k" if "d \<in> set (deps k) \<inter> set nodes" for d
    using r assms(2) k(1) that unfolding ranked_def by blast
  then have "\<forall>d \<in> set (deps k) \<inter> set nodes. d \<notin> P"
    using k(2) leD by blast
  with k(1) show ?thesis by blast
qed

lemma cyclic_graph_cong:
  "set nodes = set nodes' \<Longrightarrow> (\<And>k. k \<in> set nodes \<Longrightarrow> set (deps k) = set (deps' k)) \<Longrightarrow>
   cyclic_graph nodes deps = cyclic_graph nodes' deps'"
proof -
  assume nodes: "set nodes = set nodes'"
    and deps: "\<And>k. k \<in> set nodes \<Longrightarrow> set (deps k) = set (deps' k)"
  have "dep_edges nodes deps = dep_edges nodes' deps'"
    unfolding dep_edges_def nodes[symmetric] using deps by blast
  then show ?thesis by (simp add: cyclic_graph_iff)
qed

end
