(* ===== verification/ToolDag.thy ===== *)
theory ToolDag
  imports Graphs
begin

text \<open>
  \<open>agent_runtime/tool_dag.py\<close>: the executor of a dependency graph of tool calls.  Each round
  takes the ready nodes in identifier order, rejects those with a failed dependency, runs the
  reads (submitted together in the code, collected in order) and then the side effects one by
  one.  The tool runner is a parameter; the result contract is \<open>ToolResult\<close> of
  \<open>tool_result.py\<close>.
\<close>

subsection \<open>Model\<close>

datatype tool_status = TSuccess | TNoChange | TRejected | TError | TCancelled | TUncertain
  | TDryRun | TPartial

record tool_result =
  tr_content :: string
  tr_status :: tool_status
  tr_error_code :: string
  tr_retryable :: bool
  tr_blocked_by :: "string list"

definition tr_ok :: "tool_result \<Rightarrow> bool" where
  "tr_ok r \<longleftrightarrow> tr_status r \<in> {TSuccess, TDryRun}"

definition make_result :: "string \<Rightarrow> tool_status \<Rightarrow> string \<Rightarrow> bool option \<Rightarrow> string list \<Rightarrow> tool_result" where
  "make_result content status code retryable blocked_by =
     \<lparr>tr_content = content, tr_status = status, tr_error_code = code,
      tr_retryable = (case retryable of Some b \<Rightarrow> b | None \<Rightarrow> status \<in> {TError, TRejected}),
      tr_blocked_by = blocked_by\<rparr>"

record 'a tool_node =
  tn_id :: string
  tn_tool :: string
  tn_args :: 'a
  tn_deps :: "string list"
  tn_effect :: string

type_synonym results = "(string, tool_result) alist"
type_synonym 'a executor = "string \<Rightarrow> 'a \<Rightarrow> tool_result res"

definition node_of :: "'a tool_node list \<Rightarrow> string \<Rightarrow> 'a tool_node" where
  "node_of nodes k = the (map_of (map (\<lambda>n. (tn_id n, n)) nodes) k)"

definition ids :: "'a tool_node list \<Rightarrow> string list" where
  "ids nodes = map tn_id nodes"

definition deps_of :: "'a tool_node list \<Rightarrow> string \<Rightarrow> string list" where
  "deps_of nodes k = tn_deps (node_of nodes k)"

definition assert_acyclic :: "'a tool_node list \<Rightarrow> unit res" where
  "assert_acyclic nodes =
     guardR (\<not> cyclic_graph (ids nodes) (deps_of nodes)) (ValueError ''tool DAG contains a cycle'')"

definition ready_keys :: "'a tool_node list \<Rightarrow> string list \<Rightarrow> results \<Rightarrow> string list" where
  "ready_keys nodes pending results =
     filter (\<lambda>k. \<forall>d \<in> set (deps_of nodes k). d \<in> set (al_keys results)) (sort pending)"

definition has_failed_dep :: "'a tool_node list \<Rightarrow> results \<Rightarrow> string \<Rightarrow> bool" where
  "has_failed_dep nodes results k \<longleftrightarrow>
     (\<exists>d \<in> set (deps_of nodes k). \<not> tr_ok (the (al_get results d)))"

definition rejected :: "'a tool_node list \<Rightarrow> string \<Rightarrow> tool_result" where
  "rejected nodes k =
     make_result (''Error: dependency failed for '' @ k) TRejected ''stale_precondition'' None (deps_of nodes k)"

definition is_read :: "'a tool_node list \<Rightarrow> string \<Rightarrow> bool" where
  "is_read nodes k \<longleftrightarrow> tn_effect (node_of nodes k) \<in> {''read'', ''none''}"

definition run_one :: "'a executor \<Rightarrow> 'a tool_node list \<Rightarrow> string \<Rightarrow> results \<Rightarrow> results res" where
  "run_one execute nodes k results =
     bindR (execute (tn_tool (node_of nodes k)) (tn_args (node_of nodes k)))
       (\<lambda>r. ok (al_put k r results))"

definition run_round :: "'a executor \<Rightarrow> 'a tool_node list \<Rightarrow> string list \<Rightarrow> results \<Rightarrow> results res" where
  "run_round execute nodes ready results =
    (let blocked = filter (has_failed_dep nodes results) ready;
         results1 = foldl (\<lambda>rs k. al_put k (rejected nodes k) rs) results blocked;
         live = filter (\<lambda>k. \<not> has_failed_dep nodes results k) ready;
         parallel = filter (is_read nodes) live;
         serial = filter (\<lambda>k. \<not> is_read nodes k) live in
     bindR (foldR (run_one execute nodes) parallel results1) (foldR (run_one execute nodes) serial))"

function run_rounds :: "'a executor \<Rightarrow> 'a tool_node list \<Rightarrow> string list \<Rightarrow> results \<Rightarrow> results res" where
  "run_rounds execute nodes pending results =
    (if pending = [] then ok results
     else
      (let ready = ready_keys nodes pending results in
       if ready = [] then raise (ValueError ''tool DAG has an unresolved cycle'')
       else
        bindR (run_round execute nodes ready results) (\<lambda>results'.
          run_rounds execute nodes (filter (\<lambda>k. k \<notin> set ready) pending) results')))"
  by pat_completeness auto
termination
proof (relation "measure (\<lambda>(_, _, pending, _). length pending)")
  fix execute :: "'a executor" and nodes :: "'a tool_node list" and pending results ready results'
  assume "ready = ready_keys nodes pending results" "ready \<noteq> []"
  then have "\<exists>k \<in> set pending. k \<in> set ready"
    by (cases "ready_keys nodes pending results") (auto simp: ready_keys_def filter_eq_Cons_iff dest: arg_cong[of _ _ set])
  then show "((execute, nodes, filter (\<lambda>k. k \<notin> set ready) pending, results'),
      execute, nodes, pending, results) \<in> measure (\<lambda>(_, _, pending, _). length pending)"
    by (auto intro: length_filter_less)
qed simp

declare run_rounds.simps [simp del]

definition run_dag :: "'a executor \<Rightarrow> 'a tool_node list \<Rightarrow> results res" where
  "run_dag execute nodes =
    (if \<not> distinct (ids nodes) then raise (ValueError ''duplicate tool DAG node id'')
     else if \<exists>n \<in> set nodes. \<exists>d \<in> set (tn_deps n). d \<notin> set (ids nodes)
     then raise (ValueError ''unknown tool DAG dependencies'')
     else bindR (assert_acyclic nodes) (\<lambda>_. run_rounds execute nodes (ids nodes) []))"

subsection \<open>What a run keeps\<close>

text \<open>The result a node should have, given the results of its dependencies.\<close>

definition expected :: "'a executor \<Rightarrow> 'a tool_node list \<Rightarrow> results \<Rightarrow> string \<Rightarrow> tool_result res" where
  "expected execute nodes rs k =
    (if has_failed_dep nodes rs k then ok (rejected nodes k)
     else execute (tn_tool (node_of nodes k)) (tn_args (node_of nodes k)))"

definition dep_order :: "('k \<Rightarrow> 'k list) \<Rightarrow> 'k list \<Rightarrow> bool" where
  "dep_order deps ks \<longleftrightarrow> (\<forall>xs k ys. ks = xs @ k # ys \<longrightarrow> set (deps k) \<subseteq> set xs)"

definition run_inv :: "'a executor \<Rightarrow> 'a tool_node list \<Rightarrow> results \<Rightarrow> bool" where
  "run_inv execute nodes rs \<longleftrightarrow>
     distinct (al_keys rs) \<and> dep_order (deps_of nodes) (al_keys rs) \<and>
     (\<forall>k r. al_get rs k = Some r \<longrightarrow> expected execute nodes rs k = Inr r)"

lemma dep_order_snoc: "dep_order deps (ks @ [k]) \<longleftrightarrow> dep_order deps ks \<and> set (deps k) \<subseteq> set ks"
proof -
  have "(\<forall>xs j ys. ks @ [k] = xs @ j # ys \<longrightarrow> set (deps j) \<subseteq> set xs) \<longleftrightarrow>
      (\<forall>xs j ys. ks = xs @ j # ys \<longrightarrow> set (deps j) \<subseteq> set xs) \<and> set (deps k) \<subseteq> set ks"
    (is "?L \<longleftrightarrow> ?R")
  proof
    assume L: ?L
    show ?R
    proof (intro conjI allI impI)
      fix xs j ys assume "ks = xs @ j # ys"
      then show "set (deps j) \<subseteq> set xs" using L[rule_format, of xs j "ys @ [k]"] by simp
    next
      show "set (deps k) \<subseteq> set ks" using L[rule_format, of ks k "[]"] by simp
    qed
  next
    assume R: ?R
    show ?L
    proof (intro allI impI)
      fix xs j ys assume eq: "ks @ [k] = xs @ j # ys"
      show "set (deps j) \<subseteq> set xs"
        using R eq by (cases ys rule: rev_cases) auto
    qed
  qed
  then show ?thesis by (simp add: dep_order_def)
qed

lemma dep_order_deps: "dep_order deps ks \<Longrightarrow> k \<in> set ks \<Longrightarrow> set (deps k) \<subseteq> set ks"
  by (fastforce simp: dep_order_def in_set_conv_decomp)

lemma expected_mono:
  assumes "set (deps_of nodes k) \<subseteq> set (al_keys rs)" "al_get rs \<subseteq>\<^sub>m al_get rs'"
  shows "expected execute nodes rs' k = expected execute nodes rs k"
proof -
  have "al_get rs' d = al_get rs d" if "d \<in> set (deps_of nodes k)" for d
  proof -
    have "d \<in> dom (al_get rs)" using assms(1) that al_get_None_key[of rs d] by auto
    then show ?thesis using assms(2) by (simp add: map_le_def)
  qed
  then show ?thesis by (auto simp: expected_def has_failed_dep_def)
qed

lemma map_le_put: "k \<notin> set (al_keys rs) \<Longrightarrow> al_get rs \<subseteq>\<^sub>m al_get (al_put k r rs)"
  by (auto simp: map_le_def al_get_Some_key)

lemma run_inv_put:
  assumes "run_inv execute nodes rs" "k \<notin> set (al_keys rs)"
    and "set (deps_of nodes k) \<subseteq> set (al_keys rs)" "expected execute nodes rs k = Inr r"
  shows "run_inv execute nodes (al_put k r rs)"
proof -
  have keys: "al_keys (al_put k r rs) = al_keys rs @ [k]"
    using assms(2) by (simp add: al_put_fresh al_keys_def)
  have "expected execute nodes (al_put k r rs) j = Inr s" if "al_get (al_put k r rs) j = Some s" for j s
  proof (cases "j = k")
    case True
    then show ?thesis
      using that assms(4) expected_mono[OF assms(3) map_le_put[OF assms(2)]] by simp
  next
    case False
    then have j: "al_get rs j = Some s" using that by simp
    then have "set (deps_of nodes j) \<subseteq> set (al_keys rs)"
      using assms(1) al_get_Some_key[OF j] by (auto simp: run_inv_def dest: dep_order_deps)
    from expected_mono[OF this map_le_put[OF assms(2)]] show ?thesis
      using j assms(1) by (simp add: run_inv_def)
  qed
  then show ?thesis
    using assms by (auto simp: run_inv_def keys dep_order_snoc)
qed

text \<open>One round: the ready keys \<open>ks\<close> split into any sequence of batches gain their expected
  results, and keep the invariant.\<close>

definition grows_to :: "'a executor \<Rightarrow> 'a tool_node list \<Rightarrow> results \<Rightarrow> results \<Rightarrow> string set \<Rightarrow> bool" where
  "grows_to execute nodes rs rs' K \<longleftrightarrow>
     run_inv execute nodes rs' \<and> al_get rs \<subseteq>\<^sub>m al_get rs' \<and>
     set (al_keys rs') = set (al_keys rs) \<union> K"

lemma grows_put:
  assumes "grows_to execute nodes rs rs1 K" "k \<notin> set (al_keys rs) \<union> K"
    and "set (deps_of nodes k) \<subseteq> set (al_keys rs)" "expected execute nodes rs k = Inr r"
  shows "grows_to execute nodes rs (al_put k r rs1) (insert k K)"
proof -
  have le: "al_get rs \<subseteq>\<^sub>m al_get rs1" and inv: "run_inv execute nodes rs1"
    and keys: "set (al_keys rs1) = set (al_keys rs) \<union> K"
    using assms(1) by (simp_all add: grows_to_def)
  have "expected execute nodes rs1 k = Inr r"
    using assms(4) expected_mono[OF assms(3) le] by simp
  then have "run_inv execute nodes (al_put k r rs1)"
    using assms(2,3) keys by (intro run_inv_put[OF inv]) auto
  moreover have "al_get rs \<subseteq>\<^sub>m al_get (al_put k r rs1)"
    using map_le_trans[OF le map_le_put] assms(2) keys by blast
  ultimately show ?thesis using keys by (auto simp: grows_to_def)
qed

lemma grows_reject:
  assumes "grows_to execute nodes rs rs1 K" "distinct ks" "set ks \<inter> (set (al_keys rs) \<union> K) = {}"
    and "\<forall>k \<in> set ks. set (deps_of nodes k) \<subseteq> set (al_keys rs) \<and> has_failed_dep nodes rs k"
  shows "grows_to execute nodes rs (foldl (\<lambda>rs k. al_put k (rejected nodes k) rs) rs1 ks) (set ks \<union> K)"
  using assms
proof (induction ks arbitrary: rs1 K)
  case (Cons k ks)
  have "grows_to execute nodes rs (al_put k (rejected nodes k) rs1) (insert k K)"
    using Cons.prems by (intro grows_put) (auto simp: expected_def)
  from Cons.IH[OF this] Cons.prems show ?case by simp
qed simp

lemma grows_run:
  assumes "foldR (run_one execute nodes) ks rs1 = Inr rs2"
    and "grows_to execute nodes rs rs1 K" "distinct ks" "set ks \<inter> (set (al_keys rs) \<union> K) = {}"
    and "\<forall>k \<in> set ks. set (deps_of nodes k) \<subseteq> set (al_keys rs) \<and> \<not> has_failed_dep nodes rs k"
  shows "grows_to execute nodes rs rs2 (set ks \<union> K)"
  using assms
proof (induction ks arbitrary: rs1 K)
  case (Cons k ks)
  from Cons.prems(1) obtain r where r: "execute (tn_tool (node_of nodes k)) (tn_args (node_of nodes k)) = Inr r"
    and rest: "foldR (run_one execute nodes) ks (al_put k r rs1) = Inr rs2"
    using that by (auto simp: run_one_def[of _ _ k] bindR_ok_iff)
  have "grows_to execute nodes rs (al_put k r rs1) (insert k K)"
    using Cons.prems r by (intro grows_put) (auto simp: expected_def)
  from Cons.IH[OF rest this] Cons.prems show ?case by simp
qed simp

lemma run_round_grows:
  assumes "run_round execute nodes ready rs = Inr rs'" "run_inv execute nodes rs"
    and "distinct ready" "set ready \<inter> set (al_keys rs) = {}"
    and "\<forall>k \<in> set ready. set (deps_of nodes k) \<subseteq> set (al_keys rs)"
  shows "grows_to execute nodes rs rs' (set ready)"
proof -
  define bl where "bl = filter (has_failed_dep nodes rs) ready"
  define par where "par = filter (is_read nodes) (filter (\<lambda>k. \<not> has_failed_dep nodes rs k) ready)"
  define ser where "ser = filter (\<lambda>k. \<not> is_read nodes k) (filter (\<lambda>k. \<not> has_failed_dep nodes rs k) ready)"
  let ?r1 = "foldl (\<lambda>rs k. al_put k (rejected nodes k) rs) rs bl"
  obtain r2 where run: "foldR (run_one execute nodes) par ?r1 = Inr r2"
    "foldR (run_one execute nodes) ser r2 = Inr rs'"
    using assms(1) by (auto simp: run_round_def Let_def bindR_ok_iff bl_def par_def ser_def)
  have sets: "distinct bl" "distinct par" "distinct ser"
    "set bl \<inter> set (al_keys rs) = {}" "set par \<inter> (set (al_keys rs) \<union> set bl) = {}"
    "set ser \<inter> (set (al_keys rs) \<union> (set par \<union> set bl)) = {}" "set ready = set ser \<union> (set par \<union> set bl)"
    using assms(3,4) by (auto simp: bl_def par_def ser_def)
  have deps: "\<forall>k \<in> set bl. set (deps_of nodes k) \<subseteq> set (al_keys rs) \<and> has_failed_dep nodes rs k"
    "\<forall>k \<in> set par. set (deps_of nodes k) \<subseteq> set (al_keys rs) \<and> \<not> has_failed_dep nodes rs k"
    "\<forall>k \<in> set ser. set (deps_of nodes k) \<subseteq> set (al_keys rs) \<and> \<not> has_failed_dep nodes rs k"
    using assms(5) by (auto simp: bl_def par_def ser_def)
  have "grows_to execute nodes rs rs {}" using assms(2) by (simp add: grows_to_def)
  from grows_reject[OF this sets(1) _ deps(1)] have "grows_to execute nodes rs ?r1 (set bl)"
    using sets(4) by simp
  from grows_run[OF run(1) this sets(2,5) deps(2)]
  have "grows_to execute nodes rs r2 (set par \<union> set bl)" .
  from grows_run[OF run(2) this sets(3,6) deps(3)] show ?thesis by (simp add: sets(7))
qed


lemma ready_keys_ok:
  assumes "distinct pending"
  shows "distinct (ready_keys nodes pending rs)" "set (ready_keys nodes pending rs) \<subseteq> set pending"
    "\<forall>k \<in> set (ready_keys nodes pending rs). set (deps_of nodes k) \<subseteq> set (al_keys rs)"
  using assms by (auto simp: ready_keys_def)

lemma run_rounds_ok:
  assumes "run_rounds execute nodes pending rs = Inr rs'" "run_inv execute nodes rs"
    and "distinct pending" "set pending \<inter> set (al_keys rs) = {}"
  shows "run_inv execute nodes rs' \<and> set (al_keys rs') = set (al_keys rs) \<union> set pending"
  using assms
proof (induction execute nodes pending rs rule: run_rounds.induct)
  case (1 execute nodes pending rs)
  show ?case
  proof (cases "pending = []")
    case True
    then show ?thesis using "1.prems" by (simp add: run_rounds.simps)
  next
    case False
    let ?ready = "ready_keys nodes pending rs"
    from False "1.prems"(1) obtain rs1 where ne: "?ready \<noteq> []"
      and round: "run_round execute nodes ?ready rs = Inr rs1"
      and rest: "run_rounds execute nodes (filter (\<lambda>k. k \<notin> set ?ready) pending) rs1 = Inr rs'"
      by (subst (asm) run_rounds.simps) (auto simp: Let_def bindR_ok_iff split: if_splits)
    note rk = ready_keys_ok[OF "1.prems"(3), of nodes rs]
    have g: "grows_to execute nodes rs rs1 (set ?ready)"
      using run_round_grows[OF round "1.prems"(2) rk(1) _ rk(3)] rk(2) "1.prems"(4) by blast
    have "run_inv execute nodes rs' \<and>
        set (al_keys rs') = set (al_keys rs1) \<union> set (filter (\<lambda>k. k \<notin> set ?ready) pending)"
      using g "1.prems"(3,4) ne False
      by (intro "1.IH"[OF _ refl _ round rest]) (auto simp: grows_to_def)
    then show ?thesis using g rk(2) by (auto simp: grows_to_def)
  qed
qed

lemma run_round_total:
  assumes "\<And>t a. is_ok (execute t a)"
  shows "\<exists>rs'. run_round execute nodes ready rs = Inr rs'"
proof -
  have one: "\<exists>rs'. run_one execute nodes k rs = Inr rs'" for k rs
    using assms[of "tn_tool (node_of nodes k)" "tn_args (node_of nodes k)"]
    by (auto simp: run_one_def is_ok_iff)
  have many: "\<exists>rs'. foldR (run_one execute nodes) ks rs = Inr rs'" for ks rs
  proof (induction ks arbitrary: rs)
    case (Cons k ks)
    then show ?case using one[of k rs] by auto
  qed simp
  show ?thesis unfolding run_round_def Let_def bindR_ok_iff using many by blast
qed

lemma run_rounds_total:
  assumes "\<And>t a. is_ok (execute t a)" "\<not> cyclic_graph (ids nodes) (deps_of nodes)"
    and "run_inv execute nodes rs" "distinct pending"
    and "set (ids nodes) = set pending \<union> set (al_keys rs)" "set pending \<inter> set (al_keys rs) = {}"
    and "\<forall>k \<in> set (ids nodes). set (deps_of nodes k) \<subseteq> set (ids nodes)"
  shows "\<exists>rs'. run_rounds execute nodes pending rs = Inr rs'"
  using assms
proof (induction execute nodes pending rs rule: run_rounds.induct)
  case (1 execute nodes pending rs)
  show ?case
  proof (cases "pending = []")
    case True
    then show ?thesis by (simp add: run_rounds.simps)
  next
    case False
    let ?ready = "ready_keys nodes pending rs"
    have "set pending \<noteq> {}" "set pending \<subseteq> set (ids nodes)" using False "1.prems"(5) by auto
    with acyclic_source[OF "1.prems"(2)] obtain k where "k \<in> set pending"
      "\<forall>d \<in> set (deps_of nodes k) \<inter> set (ids nodes). d \<notin> set pending" by blast
    then have "k \<in> set ?ready" using "1.prems"(5,7) by (auto simp: ready_keys_def)
    then have ne: "?ready \<noteq> []" by auto
    obtain rs1 where round: "run_round execute nodes ?ready rs = Inr rs1"
      using run_round_total[where execute = execute, OF "1.prems"(1)] by blast
    note rk = ready_keys_ok[OF "1.prems"(4), of nodes rs]
    have g: "grows_to execute nodes rs rs1 (set ?ready)"
      using run_round_grows[OF round "1.prems"(3) rk(1) _ rk(3)] rk(2) "1.prems"(6) by blast
    have keys: "set (al_keys rs1) = set (al_keys rs) \<union> set ?ready" and inv1: "run_inv execute nodes rs1"
      using g by (simp_all add: grows_to_def)
    have "\<exists>rs'. run_rounds execute nodes (filter (\<lambda>k. k \<notin> set ?ready) pending) rs1 = Inr rs'"
    proof (rule "1.IH"[OF False refl ne round "1.prems"(1,2) inv1])
      show "distinct (filter (\<lambda>k. k \<notin> set ?ready) pending)" using "1.prems"(4) by simp
      show "set (ids nodes) = set (filter (\<lambda>k. k \<notin> set ?ready) pending) \<union> set (al_keys rs1)"
        using "1.prems"(5) rk(2) keys by auto
      show "set (filter (\<lambda>k. k \<notin> set ?ready) pending) \<inter> set (al_keys rs1) = {}"
        using "1.prems"(6) keys by auto
    qed (rule "1.prems"(7))
    then show ?thesis using False ne round by (subst run_rounds.simps) simp
  qed
qed

lemma node_of_in:
  assumes "distinct (ids nodes)" "n \<in> set nodes"
  shows "node_of nodes (tn_id n) = n"
proof -
  have "map_of (map (\<lambda>n. (tn_id n, n)) nodes) (tn_id n) = Some n"
    using assms by (intro map_of_is_SomeI) (auto simp: ids_def comp_def)
  then show ?thesis by (simp add: node_of_def)
qed

lemma deps_known:
  assumes "distinct (ids nodes)"
  shows "(\<forall>n \<in> set nodes. set (tn_deps n) \<subseteq> set (ids nodes)) \<longleftrightarrow>
    (\<forall>k \<in> set (ids nodes). set (deps_of nodes k) \<subseteq> set (ids nodes))"
  using node_of_in[OF assms] by (auto simp: ids_def deps_of_def)

subsection \<open>Properties\<close>

text \<open>C20. A finished run of a tool graph has one result per node, in an order where every node
  comes after its dependencies, and each result is the right one: a rejection when a dependency
  did not succeed, and what the tool returned otherwise; in particular a node below a failure is
  never executed.\<close>

theorem dag_results_correct:
  assumes "run_dag execute nodes = ok rs"
  shows "set (al_keys rs) = set (ids nodes) \<and> distinct (al_keys rs) \<and>
    dep_order (deps_of nodes) (al_keys rs) \<and>
    (\<forall>k r. al_get rs k = Some r \<longrightarrow> expected execute nodes rs k = ok r)"
proof -
  have "run_rounds execute nodes (ids nodes) [] = Inr rs" "distinct (ids nodes)"
    using assms by (auto simp: run_dag_def bindR_ok_iff split: if_splits)
  moreover have "run_inv execute nodes []" by (simp add: run_inv_def al_keys_def dep_order_def)
  ultimately have "run_inv execute nodes rs \<and> set (al_keys rs) = set (al_keys ([]::results)) \<union> set (ids nodes)"
    by (intro run_rounds_ok) (auto simp: al_keys_def)
  then show ?thesis by (simp add: run_inv_def al_keys_def)
qed

text \<open>When no tool raises, the executor finishes exactly on the well-formed graphs: distinct
  identifiers, known dependencies, no cycle; its loop never ends with an unresolved cycle.\<close>

theorem dag_run_total:
  assumes "\<And>t a. is_ok (execute t a)"
  shows "is_ok (run_dag execute nodes) \<longleftrightarrow>
    distinct (ids nodes) \<and> (\<forall>n \<in> set nodes. set (tn_deps n) \<subseteq> set (ids nodes)) \<and>
    acyclic (dep_edges (ids nodes) (deps_of nodes))"
proof -
  have "\<exists>rs. run_rounds execute nodes (ids nodes) [] = Inr rs"
    if "distinct (ids nodes)" "\<forall>n \<in> set nodes. set (tn_deps n) \<subseteq> set (ids nodes)"
      "\<not> cyclic_graph (ids nodes) (deps_of nodes)"
    using that deps_known[OF that(1)]
    by (intro run_rounds_total[OF assms]) (auto simp: run_inv_def al_keys_def dep_order_def)
  then show ?thesis
    by (auto simp: is_ok_iff run_dag_def assert_acyclic_def bindR_ok_iff cyclic_graph_iff
        subset_iff)
qed

definition sample_nodes :: "unit tool_node list" where
  "sample_nodes =
     [\<lparr>tn_id = ''b'', tn_tool = ''patch_file'', tn_args = (), tn_deps = [''a''], tn_effect = ''write''\<rparr>,
      \<lparr>tn_id = ''a'', tn_tool = ''read_file'', tn_args = (), tn_deps = [], tn_effect = ''read''\<rparr>]"

definition failing_read :: "unit executor" where
  "failing_read t a = ok (make_result t (if t = ''read_file'' then TError else TSuccess) [] None [])"

theorem dag_results_correct_witness:
  "expected failing_read sample_nodes
     [(''a'', make_result ''read_file'' TError [] None []),
      (''b'', rejected sample_nodes ''b'')] ''b'' = ok (rejected sample_nodes ''b'')"
proof -
  have run: "run_dag failing_read sample_nodes =
     ok [(''a'', make_result ''read_file'' TError [] None []), (''b'', rejected sample_nodes ''b'')]"
    by code_simp
  from dag_results_correct[OF run] show ?thesis by simp
qed

theorem dag_run_total_witness: "is_ok (run_dag failing_read sample_nodes)"
proof -
  have "is_ok (failing_read t a)" for t a by (simp add: failing_read_def)
  note total = dag_run_total[of failing_read, OF this]
  have "\<not> cyclic_graph (ids sample_nodes) (deps_of sample_nodes)" by code_simp
  moreover have "distinct (ids sample_nodes)" "\<forall>n \<in> set sample_nodes. set (tn_deps n) \<subseteq> set (ids sample_nodes)"
    by code_simp+
  ultimately show ?thesis unfolding total by (simp add: cyclic_graph_iff)
qed

end
