(* ===== verification/PlanModel.thy ===== *)
theory PlanModel
  imports Graphs
begin

text \<open>
  Plans of \<open>agent_runtime/plan_runtime\<close>: the data of \<open>models.py\<close> (checksums over an abstract
  digest), and the gates of \<open>validate.py\<close> with the tool effects they read from the registry.
  A plan that passes is characterised declaratively, cycle freedom included.
\<close>

subsection \<open>Data\<close>

record completion =
  cp_kind :: string
  cp_refs :: "string list"

record plan_node =
  pn_id :: string
  pn_kind :: string
  pn_objective :: string
  pn_deps :: "string list"
  pn_tools :: "string list"
  pn_effect :: string
  pn_completion :: "completion list"
  pn_inputs :: "string list"
  pn_outputs :: "string list"
  pn_status :: string
  pn_attempt :: string
  pn_failure :: string
  pn_receipts :: "string list"
  pn_started :: real
  pn_ended :: real
  pn_tool :: string
  pn_args_json :: string

record plan =
  plan_pid :: string
  plan_task :: string
  plan_run :: string
  plan_workspace :: string
  plan_session :: string
  plan_nodes :: "plan_node list"
  plan_schema :: string
  plan_version :: int
  plan_revision :: int
  plan_created :: real
  plan_status :: string
  plan_checksum :: string
  plan_parent :: string
  plan_reason :: string
  plan_replan_refs :: "string list"

type_synonym digest = "plan \<Rightarrow> string"

definition node_definition :: "plan_node \<Rightarrow> plan_node" where
  "node_definition n = n\<lparr>pn_outputs := [], pn_status := [], pn_attempt := [], pn_failure := [],
     pn_receipts := [], pn_started := 0, pn_ended := 0\<rparr>"

definition plan_seal :: "digest \<Rightarrow> plan \<Rightarrow> plan" where
  "plan_seal dg p = p\<lparr>plan_checksum := dg (p\<lparr>plan_checksum := []\<rparr>)\<rparr>"

definition plan_verify :: "digest \<Rightarrow> plan \<Rightarrow> bool" where
  "plan_verify dg p \<longleftrightarrow> plan_checksum p \<noteq> [] \<and> plan_checksum (plan_seal dg p) = plan_checksum p"

fun first_node :: "string \<Rightarrow> plan_node list \<Rightarrow> plan_node option" where
  "first_node k [] = None"
| "first_node k (n # ns) = (if pn_id n = k then Some n else first_node k ns)"

definition plan_node_of :: "plan \<Rightarrow> string \<Rightarrow> plan_node res" where
  "plan_node_of p k =
    (case first_node k (plan_nodes p) of Some n \<Rightarrow> ok n | None \<Rightarrow> raise StopIter)"

lemma plan_seal_nodes [simp]: "plan_nodes (plan_seal dg p) = plan_nodes p"
  "plan_version (plan_seal dg p) = plan_version p" "plan_revision (plan_seal dg p) = plan_revision p"
  "plan_status (plan_seal dg p) = plan_status p" "plan_parent (plan_seal dg p) = plan_parent p"
  by (simp_all add: plan_seal_def)

lemma plan_seal_verify: "dg (p\<lparr>plan_checksum := []\<rparr>) \<noteq> [] \<Longrightarrow> plan_verify dg (plan_seal dg p)"
  by (simp add: plan_verify_def plan_seal_def)

lemma first_node_Some: "first_node k ns = Some n \<Longrightarrow> n \<in> set ns \<and> pn_id n = k"
  by (induction ns) (auto split: if_splits)

lemma first_node_None: "first_node k ns = None \<longleftrightarrow> k \<notin> pn_id ` set ns"
  by (induction ns) auto

lemma first_node_distinct:
  "distinct (map pn_id ns) \<Longrightarrow> n \<in> set ns \<Longrightarrow> first_node (pn_id n) ns = Some n"
  by (induction ns) auto

subsection \<open>Validation\<close>

definition MAX_NODES :: nat where "MAX_NODES = 8"
definition MAX_DEPENDENCIES :: nat where "MAX_DEPENDENCIES = 3"
definition MAX_REPLANS :: int where "MAX_REPLANS = 2"

definition COMPLETIONS :: "(string \<times> string) list" where
  "COMPLETIONS = [(''explore'', ''observation_present''), (''analyze'', ''analysis_recorded''),
     (''edit'', ''patch_applied''), (''verify'', ''tests_passed'')]"

definition STATUSES :: "string list" where
  "STATUSES = [''pending'', ''ready'', ''running'', ''succeeded'', ''failed'', ''blocked'',
     ''cancelled'', ''stale'', ''uncertain'']"

definition KIND_EFFECTS :: "(string \<times> string) list" where
  "KIND_EFFECTS = [(''explore'', ''read''), (''analyze'', ''read''), (''edit'', ''write''),
     (''verify'', ''verify'')]"

text \<open>The tool registry: a tool's declared side effect, if it has one.\<close>

type_synonym registry = "string \<rightharpoonup> string option"

definition tool_effect :: "string \<Rightarrow> registry \<Rightarrow> string res" where
  "tool_effect name registry =
    (case registry name of
       None \<Rightarrow> raise (ValueError (''unknown_tool: '' @ name))
     | Some declared \<Rightarrow>
        (let effect = (case declared of Some e \<Rightarrow> e | None \<Rightarrow> ''write'');
             effect = (if effect = ''external'' \<or> name \<in> {''run_shell'', ''quick_test'',
                 ''sandbox_build'', ''sandbox_test'', ''sandbox_verify''} then ''verify'' else effect);
             effect = (if name \<in> {''write_file'', ''patch_file'', ''apply_patch'', ''expand_lock''}
                 then ''write'' else effect)
         in if effect \<notin> {''read'', ''write'', ''verify''}
            then raise (ValueError (''invalid_tool_effect: '' @ name))
            else ok effect))"

fun first_failure :: "(bool \<times> string) list \<Rightarrow> unit res" where
  "first_failure [] = ok ()"
| "first_failure ((c, msg) # cs) = (if c then first_failure cs else raise (ValueError msg))"

lemma first_failure_ok [simp]: "first_failure cs = Inr u \<longleftrightarrow> (\<forall>(c, _) \<in> set cs. c)"
  by (induction cs rule: first_failure.induct) auto

declare first_failure.simps(2) [simp del]

definition validate_tool :: "registry \<Rightarrow> plan_node \<Rightarrow> string \<Rightarrow> unit res" where
  "validate_tool registry n name =
     bindR (tool_effect name registry) (\<lambda>effect.
       guardR (pn_kind n \<in> {''explore'', ''analyze''} \<longrightarrow> effect = ''read'')
         (ValueError (''readonly_tool_violation: '' @ name)))"

definition validate_node ::
  "registry \<Rightarrow> (string \<Rightarrow> bool res) \<Rightarrow> string list \<Rightarrow> plan_node \<Rightarrow> unit res" where
  "validate_node registry is_object keys n =
    bindR (first_failure
      [(map_of COMPLETIONS (pn_kind n) \<noteq> None \<and> pn_status n \<in> set STATUSES, ''invalid_node: '' @ pn_id n),
       (map_of KIND_EFFECTS (pn_kind n) = Some (pn_effect n), ''node_effect_mismatch: '' @ pn_id n),
       (pn_objective n \<noteq> [] \<and> pn_completion n \<noteq> [], ''completion_required: '' @ pn_id n),
       (\<forall>c \<in> set (pn_completion n). Some (cp_kind c) = map_of COMPLETIONS (pn_kind n) \<or>
          (pn_kind n = ''verify'' \<and> cp_kind c = ''static_checked''), ''completion_type_invalid: '' @ pn_id n),
       (length (pn_deps n) \<le> MAX_DEPENDENCIES, ''dependency_budget_exceeded''),
       (distinct (pn_deps n), ''duplicate_dependency''),
       (set (pn_deps n) \<subseteq> set keys, ''unknown_dependency: '' @ pn_id n),
       (distinct (pn_tools n), ''duplicate_tool'')]) (\<lambda>_.
    bindR (foldR (\<lambda>name _. validate_tool registry n name) (pn_tools n) ()) (\<lambda>_.
    bindR (first_failure
      [(pn_tool n = [] \<or> pn_tool n \<in> set (pn_tools n), ''operation_not_allowed''),
       (pn_kind n \<noteq> ''explore'' \<or> pn_tool n \<noteq> [], ''explore_requires_fixed_operation'')]) (\<lambda>_.
    bindR (is_object (pn_args_json n)) (\<lambda>b.
      guardR b (ValueError ''operation_arguments_invalid'')))))"

definition node_keys :: "plan \<Rightarrow> string list" where
  "node_keys p = map pn_id (plan_nodes p)"

definition node_deps :: "plan \<Rightarrow> string \<Rightarrow> string list" where
  "node_deps p k = (case first_node k (plan_nodes p) of Some n \<Rightarrow> pn_deps n | None \<Rightarrow> [])"

definition identity_fields :: "plan \<Rightarrow> (string \<times> string) list" where
  "identity_fields p = [(''plan_id'', plan_pid p), (''task_id'', plan_task p), (''run_id'', plan_run p),
     (''workspace_id'', plan_workspace p), (''session_id'', plan_session p)]"

definition validate_identity :: "plan \<Rightarrow> (string \<rightharpoonup> string) \<Rightarrow> unit res" where
  "validate_identity p identity =
     foldR (\<lambda>(key, val) _. first_failure
        [(val \<noteq> [], ''missing_identity: '' @ key),
         (identity key = None \<or> identity key = Some val, ''plan_identity_mismatch: '' @ key)])
       (identity_fields p) ()"

definition validate_plan ::
  "digest \<Rightarrow> registry \<Rightarrow> (string \<Rightarrow> bool res) \<Rightarrow> (string \<rightharpoonup> string) \<Rightarrow> plan \<Rightarrow> unit res" where
  "validate_plan dg registry is_object identity p =
    bindR (first_failure
      [(plan_schema p = ''1'' \<and> plan_verify dg p, ''plan_schema_or_checksum_invalid''),
       (1 \<le> plan_version p \<and> 0 \<le> plan_revision p, ''plan_revision_invalid'')]) (\<lambda>_.
    bindR (validate_identity p identity) (\<lambda>_.
    bindR (first_failure
      [(1 \<le> length (plan_nodes p) \<and> length (plan_nodes p) \<le> MAX_NODES, ''node_budget_exceeded''),
       (distinct (node_keys p) \<and> [] \<notin> set (node_keys p), ''duplicate_or_empty_node_id'')]) (\<lambda>_.
    bindR (foldR (\<lambda>n _. validate_node registry is_object (node_keys p) n) (plan_nodes p) ()) (\<lambda>_.
      guardR (\<not> cyclic_graph (node_keys p) (node_deps p)) (ValueError ''plan_cycle'')))))"

subsection \<open>What validation accepts\<close>

definition node_wf :: "registry \<Rightarrow> (string \<Rightarrow> bool res) \<Rightarrow> string set \<Rightarrow> plan_node \<Rightarrow> bool" where
  "node_wf registry is_object keys n \<longleftrightarrow>
     (pn_kind n, pn_effect n) \<in> set KIND_EFFECTS \<and> pn_status n \<in> set STATUSES \<and>
     pn_objective n \<noteq> [] \<and> pn_completion n \<noteq> [] \<and>
     (\<forall>c \<in> set (pn_completion n). (pn_kind n, cp_kind c) \<in> set COMPLETIONS \<or>
        (pn_kind n = ''verify'' \<and> cp_kind c = ''static_checked'')) \<and>
     length (pn_deps n) \<le> 3 \<and> distinct (pn_deps n) \<and> set (pn_deps n) \<subseteq> keys \<and>
     distinct (pn_tools n) \<and>
     (\<forall>t \<in> set (pn_tools n). \<exists>e. tool_effect t registry = Inr e \<and>
        (pn_kind n \<in> {''explore'', ''analyze''} \<longrightarrow> e = ''read'')) \<and>
     (pn_tool n \<noteq> [] \<longrightarrow> pn_tool n \<in> set (pn_tools n)) \<and>
     (pn_kind n = ''explore'' \<longrightarrow> pn_tool n \<noteq> []) \<and> is_object (pn_args_json n) = Inr True"

lemma tables_agree:
  "map_of KIND_EFFECTS k = Some e \<longleftrightarrow> (k, e) \<in> set KIND_EFFECTS"
  "map_of COMPLETIONS k = Some c \<longleftrightarrow> (k, c) \<in> set COMPLETIONS"
  "map_of COMPLETIONS k = None \<longleftrightarrow> map_of KIND_EFFECTS k = None"
  by (auto simp: KIND_EFFECTS_def COMPLETIONS_def)

lemma validate_node_ok_iff:
  "validate_node registry is_object keys n = Inr u \<longleftrightarrow> node_wf registry is_object (set keys) n"
proof -
  have tools: "foldR (\<lambda>name _. validate_tool registry n name) (pn_tools n) () = Inr v \<longleftrightarrow>
      (\<forall>t \<in> set (pn_tools n). \<exists>e. tool_effect t registry = Inr e \<and>
        (pn_kind n \<in> {''explore'', ''analyze''} \<longrightarrow> e = ''read''))" for v
    by (simp add: foldR_unit_ok_iff validate_tool_def bindR_ok_iff)
  have kinds: "map_of COMPLETIONS (pn_kind n) \<noteq> None \<and> map_of KIND_EFFECTS (pn_kind n) = Some (pn_effect n)
      \<longleftrightarrow> (pn_kind n, pn_effect n) \<in> set KIND_EFFECTS"
    by (auto simp: tables_agree(1)[symmetric] tables_agree(3))
  have comp: "Some c = map_of COMPLETIONS (pn_kind n) \<longleftrightarrow> (pn_kind n, c) \<in> set COMPLETIONS" for c
    by (subst eq_commute) (rule tables_agree)
  have args: "(\<exists>b. m = Inr b \<and> b) \<longleftrightarrow> m = Inr True" for m :: "bool res" by auto
  have "validate_node registry is_object keys n = Inr u \<longleftrightarrow>
      (map_of COMPLETIONS (pn_kind n) \<noteq> None \<and> map_of KIND_EFFECTS (pn_kind n) = Some (pn_effect n)) \<and>
      node_wf registry is_object (set keys) n"
    unfolding validate_node_def bindR_ok_iff tools node_wf_def
    by (simp add: comp tables_agree(1) MAX_DEPENDENCIES_def args del: insert_iff) blast
  moreover have "(pn_kind n, pn_effect n) \<in> set KIND_EFFECTS" if "node_wf registry is_object (set keys) n"
    using that by (simp only: node_wf_def)
  ultimately show ?thesis unfolding kinds by blast
qed

lemma validate_plan_ok_iff:
  "validate_plan dg registry is_object identity p = ok () \<longleftrightarrow>
     plan_schema p = ''1'' \<and> plan_verify dg p \<and> 1 \<le> plan_version p \<and> 0 \<le> plan_revision p \<and>
     (\<forall>(key, val) \<in> set (identity_fields p). val \<noteq> [] \<and> identity key \<in> {None, Some val}) \<and>
     plan_nodes p \<noteq> [] \<and> length (plan_nodes p) \<le> 8 \<and>
     distinct (node_keys p) \<and> [] \<notin> set (node_keys p) \<and>
     (\<forall>n \<in> set (plan_nodes p). node_wf registry is_object (set (node_keys p)) n) \<and>
     acyclic (dep_edges (node_keys p) (node_deps p))"
proof -
  have ident: "validate_identity p identity = Inr v \<longleftrightarrow>
      (\<forall>(key, val) \<in> set (identity_fields p). val \<noteq> [] \<and> identity key \<in> {None, Some val})" for v
    unfolding validate_identity_def
    by (auto simp: foldR_unit_ok_iff case_prod_unfold)
  have nodes: "foldR (\<lambda>n _. validate_node registry is_object (node_keys p) n) (plan_nodes p) () = Inr v \<longleftrightarrow>
      (\<forall>n \<in> set (plan_nodes p). node_wf registry is_object (set (node_keys p)) n)" for v
    by (simp add: foldR_unit_ok_iff validate_node_ok_iff)
  show ?thesis
    unfolding validate_plan_def bindR_ok_iff ident nodes
    by (auto simp: MAX_NODES_def cyclic_graph_iff Suc_le_eq)
qed


lemma validated_plan_graph:
  assumes "validate_plan dg registry is_object identity p = ok ()"
  shows "plan_nodes p \<noteq> []" "distinct (node_keys p)"
    "\<forall>n \<in> set (plan_nodes p). set (pn_deps n) \<subseteq> set (node_keys p)"
    "\<not> cyclic_graph (node_keys p) (node_deps p)"
  using assms by (auto simp: validate_plan_ok_iff cyclic_graph_iff node_wf_def)

text \<open>C21. Validation accepts exactly the well-formed plans: sealed, of the session's identity,
  with one to eight nodes under distinct nonempty identifiers, every node of a known kind with
  the effect and the completion of its kind, at most three known dependencies, read-only tools
  only on read-only nodes, and no dependency cycle.\<close>

theorem plan_validation_exact:
  "validate_plan dg registry is_object identity p = ok () \<longleftrightarrow>
     plan_schema p = ''1'' \<and> plan_verify dg p \<and> 1 \<le> plan_version p \<and> 0 \<le> plan_revision p \<and>
     (\<forall>(key, val) \<in> set (identity_fields p). val \<noteq> [] \<and> identity key \<in> {None, Some val}) \<and>
     plan_nodes p \<noteq> [] \<and> length (plan_nodes p) \<le> 8 \<and>
     distinct (node_keys p) \<and> [] \<notin> set (node_keys p) \<and>
     (\<forall>n \<in> set (plan_nodes p). node_wf registry is_object (set (node_keys p)) n) \<and>
     acyclic (dep_edges (node_keys p) (node_deps p))"
  by (rule validate_plan_ok_iff)

definition sample_explore :: plan_node where
  "sample_explore = \<lparr>pn_id = ''look'', pn_kind = ''explore'', pn_objective = ''read the file'',
     pn_deps = [], pn_tools = [''read_file''], pn_effect = ''read'',
     pn_completion = [\<lparr>cp_kind = ''observation_present'', cp_refs = []\<rparr>], pn_inputs = [],
     pn_outputs = [], pn_status = ''pending'', pn_attempt = [], pn_failure = [], pn_receipts = [],
     pn_started = 0, pn_ended = 0, pn_tool = ''read_file'', pn_args_json = ''{}''\<rparr>"

definition sample_edit :: plan_node where
  "sample_edit = sample_explore\<lparr>pn_id := ''fix'', pn_kind := ''edit'', pn_deps := [''look''],
     pn_tools := [''patch_file''], pn_effect := ''write'',
     pn_completion := [\<lparr>cp_kind = ''patch_applied'', cp_refs = []\<rparr>], pn_tool := []\<rparr>"

definition plain_digest :: digest where
  "plain_digest p = ''digest''"

definition sample_registry :: registry where
  "sample_registry = [''read_file'' \<mapsto> Some ''read'', ''patch_file'' \<mapsto> None]"

definition sample_task_plan :: plan where
  "sample_task_plan = plan_seal plain_digest
     \<lparr>plan_pid = ''p'', plan_task = ''t'', plan_run = ''r'', plan_workspace = ''w'',
      plan_session = ''s'', plan_nodes = [sample_explore, sample_edit], plan_schema = ''1'',
      plan_version = 1, plan_revision = 0, plan_created = 0, plan_status = ''active'',
      plan_checksum = [], plan_parent = [], plan_reason = [], plan_replan_refs = []\<rparr>"

lemma sample_plan_valid:
  "validate_plan plain_digest sample_registry (\<lambda>s. ok (s = ''{}'')) Map.empty sample_task_plan = ok ()"
  by code_simp

theorem plan_validation_exact_witness:
  "acyclic (dep_edges (node_keys sample_task_plan) (node_deps sample_task_plan))"
  using plan_validation_exact[of plain_digest sample_registry "\<lambda>s. ok (s = ''{}'')" Map.empty
      sample_task_plan] sample_plan_valid by blast

end
