(* ===== verification/PlanReducer.thy ===== *)
theory PlanReducer
  imports PlanModel Contracts
begin

text \<open>
  \<open>plan_runtime/reducer.py\<close>: the transition table of plan nodes, the one transition function,
  the refresh loop that blocks and admits nodes, and the recovery reset.  The evidence ledger is
  the pair of questions the reducer asks it; the clock is an argument.  The refresh loop has no
  bound in the code: it is a partial function, and a theorem shows that it returns.
\<close>

subsection \<open>Transitions\<close>

record evidence_view =
  ev_valid :: "string \<Rightarrow> bool"
  ev_completion :: "plan_node \<Rightarrow> string list \<Rightarrow> string \<Rightarrow> bool"

record node_fields =
  nf_outputs :: "string list option"
  nf_failure :: "string option"
  nf_receipts :: "string list option"

definition no_fields :: node_fields where
  "no_fields = \<lparr>nf_outputs = None, nf_failure = None, nf_receipts = None\<rparr>"

definition TRANSITIONS :: "(string \<times> string list) list" where
  "TRANSITIONS =
    [(''pending'', [''ready'', ''blocked'', ''stale'', ''cancelled'']),
     (''ready'', [''running'', ''blocked'', ''stale'', ''cancelled'']),
     (''running'', [''succeeded'', ''failed'', ''cancelled'', ''uncertain'']),
     (''uncertain'', [''succeeded'', ''failed'', ''blocked'']),
     (''succeeded'', [''stale'', ''uncertain'']),
     (''blocked'', [''stale'']),
     (''stale'', [''ready'', ''blocked'']),
     (''failed'', []),
     (''cancelled'', [])]"

definition node_edge :: "string \<Rightarrow> string \<Rightarrow> bool" where
  "node_edge s t \<longleftrightarrow> (case map_of TRANSITIONS s of Some ts \<Rightarrow> t \<in> set ts | None \<Rightarrow> False)"

definition overall_status :: "plan_node list \<Rightarrow> string" where
  "overall_status nodes =
    (let depended = concat (map pn_deps nodes);
         leaves = filter (\<lambda>n. pn_id n \<notin> set depended) nodes;
         completed = (\<forall>n \<in> set leaves. pn_status n = ''succeeded'') \<and>
           (\<forall>n \<in> set nodes. pn_status n = ''succeeded'' \<or>
              (pn_status n = ''stale'' \<and> pn_kind n \<in> {''explore'', ''analyze''}))
     in if \<exists>n \<in> set nodes. pn_status n = ''uncertain'' then ''uncertain''
        else if completed then ''completed'' else ''active'')"

definition upd_node :: "string \<Rightarrow> string \<Rightarrow> real \<Rightarrow> node_fields \<Rightarrow> plan_node \<Rightarrow> plan_node" where
  "upd_node status attempt now f n =
    n\<lparr>pn_status := status,
      pn_outputs := (case nf_outputs f of Some v \<Rightarrow> v | None \<Rightarrow> pn_outputs n),
      pn_failure := (case nf_failure f of Some v \<Rightarrow> v | None \<Rightarrow> pn_failure n),
      pn_receipts := (case nf_receipts f of Some v \<Rightarrow> v | None \<Rightarrow> pn_receipts n),
      pn_attempt := (if status = ''running'' then attempt else pn_attempt n),
      pn_started := (if status = ''running'' then now else pn_started n),
      pn_ended := (if status \<in> {''succeeded'', ''failed'', ''cancelled'', ''uncertain''} then now
                   else pn_ended n)\<rparr>"

definition put_node :: "string \<Rightarrow> plan_node \<Rightarrow> plan_node list \<Rightarrow> plan_node list" where
  "put_node k m ns = map (\<lambda>n. if pn_id n = k then m else n) ns"

definition check_transition ::
  "evidence_view option \<Rightarrow> plan \<Rightarrow> plan_node \<Rightarrow> string \<Rightarrow> string \<Rightarrow> int option \<Rightarrow> node_fields \<Rightarrow> unit res" where
  "check_transition evidence p node status attempt expected f =
    (if expected \<noteq> None \<and> expected \<noteq> Some (plan_version p) then raise (ValueError ''late_plan_result'')
     else case map_of TRANSITIONS (pn_status node) of
       None \<Rightarrow> raise (KeyError (pn_status node))
     | Some targets \<Rightarrow>
        if status \<notin> set targets
        then raise (ValueError (''invalid_node_transition: '' @ pn_status node @ '' -> '' @ status))
        else if pn_attempt node \<noteq> [] \<and> status \<noteq> ''running'' \<and> attempt \<noteq> pn_attempt node
        then raise (ValueError ''late_attempt_result'')
        else if status = ''running'' \<and> attempt = []
        then raise (ValueError ''attempt_identity_required'')
        else if status = ''succeeded'' \<and>
          (case evidence of None \<Rightarrow> True
           | Some e \<Rightarrow> \<not> ev_completion e node
               (case nf_outputs f of Some v \<Rightarrow> v | None \<Rightarrow> pn_outputs node) attempt)
        then raise (ValueError ''completion_unsatisfied'')
        else ok ())"

definition plan_transition ::
  "digest \<Rightarrow> evidence_view option \<Rightarrow> real \<Rightarrow> plan \<Rightarrow> string \<Rightarrow> string \<Rightarrow> string \<Rightarrow> int option
     \<Rightarrow> node_fields \<Rightarrow> plan res" where
  "plan_transition dg evidence now p k status attempt expected f =
    bindR (plan_node_of p k) (\<lambda>node.
    bindR (check_transition evidence p node status attempt expected f) (\<lambda>_.
      let nodes = put_node k (upd_node status attempt now f node) (plan_nodes p) in
      ok (plan_seal dg (p\<lparr>plan_nodes := nodes, plan_revision := plan_revision p + 1,
                          plan_status := overall_status nodes\<rparr>))))"

subsection \<open>Refresh\<close>

definition BAD_STATUSES :: "string list" where
  "BAD_STATUSES = [''failed'', ''cancelled'', ''blocked'', ''uncertain'', ''stale'']"

fun fetch_nodes :: "plan \<Rightarrow> string list \<Rightarrow> plan_node list res" where
  "fetch_nodes p [] = ok []"
| "fetch_nodes p (k # ks) =
     bindR (plan_node_of p k) (\<lambda>n. bindR (fetch_nodes p ks) (\<lambda>ns. ok (n # ns)))"

definition block_reason :: "evidence_view \<Rightarrow> plan_node \<Rightarrow> plan_node list \<Rightarrow> string" where
  "block_reason ev node dependencies =
    (let bad = filter (\<lambda>d. pn_status d \<in> set BAD_STATUSES) dependencies in
     if bad \<noteq> [] then ''dependency_not_succeeded: '' @ join_with '','' (map pn_id bad)
     else if pn_inputs node \<noteq> [] \<and> \<not> (\<forall>r \<in> set (pn_inputs node). ev_valid ev r)
     then ''input_evidence_stale_or_unknown'' else [])"

definition refresh_node ::
  "digest \<Rightarrow> evidence_view \<Rightarrow> real \<Rightarrow> plan_node \<Rightarrow> plan \<times> bool \<Rightarrow> (plan \<times> bool) res" where
  "refresh_node dg ev now node pc =
    (let (p, changed) = pc in
     if pn_status node \<notin> {''pending'', ''ready''} then ok (p, changed)
     else
      bindR (fetch_nodes p (pn_deps node)) (\<lambda>dependencies.
       let reason = block_reason ev node dependencies in
       if reason \<noteq> [] then
         bindR (plan_transition dg None now p (pn_id node) ''blocked'' (pn_attempt node) None
                  (no_fields\<lparr>nf_failure := Some reason\<rparr>)) (\<lambda>p'. ok (p', True))
       else if pn_status node = ''pending'' \<and> (\<forall>d \<in> set dependencies. pn_status d = ''succeeded'') then
         bindR (plan_transition dg None now p (pn_id node) ''ready'' [] None no_fields)
           (\<lambda>p'. ok (p', True))
       else ok (p, changed)))"

definition refresh_pass :: "digest \<Rightarrow> evidence_view \<Rightarrow> real \<Rightarrow> plan \<Rightarrow> (plan \<times> bool) res" where
  "refresh_pass dg ev now p = foldR (refresh_node dg ev now) (plan_nodes p) (p, False)"

partial_function (option) refresh_plan ::
  "digest \<Rightarrow> evidence_view \<Rightarrow> real \<Rightarrow> plan \<Rightarrow> plan res option" where
  "refresh_plan dg ev now p =
    (case refresh_pass dg ev now p of
       Inl e \<Rightarrow> Some (Inl e)
     | Inr pc \<Rightarrow> if snd pc then refresh_plan dg ev now (fst pc) else Some (Inr (fst pc)))"

declare refresh_plan.simps [code]

subsection \<open>Recovery reset\<close>

definition reset_node :: "string \<Rightarrow> plan_node \<Rightarrow> plan_node" where
  "reset_node reason n = n\<lparr>pn_status := ''pending'', pn_attempt := [], pn_failure := reason,
     pn_outputs := [], pn_receipts := [], pn_started := 0, pn_ended := 0\<rparr>"

definition restart_safe :: "digest \<Rightarrow> plan \<Rightarrow> string \<Rightarrow> string \<Rightarrow> string \<Rightarrow> plan res" where
  "restart_safe dg p k attempt reason =
    bindR (plan_node_of p k) (\<lambda>node.
      if pn_attempt node \<noteq> [] \<and> pn_attempt node \<noteq> attempt then raise (ValueError ''late_attempt_result'')
      else if pn_kind node = ''edit'' \<and> reason \<noteq> ''prepared_not_dispatched''
      then raise (ValueError ''write_replay_forbidden'')
      else ok (plan_seal dg (p\<lparr>plan_nodes := put_node k (reset_node reason node) (plan_nodes p),
                               plan_revision := plan_revision p + 1, plan_status := ''active''\<rparr>)))"

subsection \<open>Transitions move one node along the table\<close>

definition status_at :: "string \<Rightarrow> plan \<Rightarrow> string" where
  "status_at k p = (case first_node k (plan_nodes p) of Some n \<Rightarrow> pn_status n | None \<Rightarrow> [])"

lemma first_node_put:
  "pn_id m = k \<Longrightarrow> first_node j (put_node k m ns) =
     (if j = k then (if first_node k ns = None then None else Some m) else first_node j ns)"
  unfolding put_node_def by (induction ns) auto

lemma upd_node_simps [simp]:
  "pn_id (upd_node s a now f n) = pn_id n" "pn_status (upd_node s a now f n) = s"
  "pn_deps (upd_node s a now f n) = pn_deps n" "pn_inputs (upd_node s a now f n) = pn_inputs n"
  "pn_kind (upd_node s a now f n) = pn_kind n"
  "node_definition (upd_node s a now f n) = node_definition n"
  by (simp_all add: upd_node_def node_definition_def)

lemma check_transition_ok:
  "check_transition evidence p node status attempt expected f = Inr u \<Longrightarrow>
     node_edge (pn_status node) status \<and>
     (pn_attempt node = [] \<or> status = ''running'' \<or> attempt = pn_attempt node)"
  by (auto simp: check_transition_def node_edge_def split: if_splits option.splits)

lemma plan_transition_ok:
  assumes "plan_transition dg evidence now p k status attempt expected f = Inr p'"
  obtains node where "first_node k (plan_nodes p) = Some node"
    "check_transition evidence p node status attempt expected f = Inr ()"
    "plan_nodes p' = put_node k (upd_node status attempt now f node) (plan_nodes p)"
    "plan_revision p' = plan_revision p + 1" "plan_version p' = plan_version p"
    "p' = plan_seal dg (p\<lparr>plan_nodes := plan_nodes p', plan_revision := plan_revision p',
            plan_status := overall_status (plan_nodes p')\<rparr>)"
  using assms by (auto simp: plan_transition_def plan_node_of_def bindR_ok_iff Let_def
      split: option.splits)

datatype node_request =
  NodeRequest "evidence_view option" real string string string "int option" node_fields

fun request_step :: "digest \<Rightarrow> node_request \<Rightarrow> plan \<Rightarrow> plan" where
  "request_step dg (NodeRequest ev now k status attempt expected f) p =
     (case plan_transition dg ev now p k status attempt expected f of Inr p' \<Rightarrow> p' | Inl e \<Rightarrow> p)"

lemma request_step_cases:
  obtains "request_step dg r p = p"
  | ev now k status attempt expected f p' where
      "r = NodeRequest ev now k status attempt expected f"
      "plan_transition dg ev now p k status attempt expected f = Inr p'" "request_step dg r p = p'"
proof (cases r)
  case (NodeRequest ev now k status attempt expected f)
  then show thesis
    using that by (cases "plan_transition dg ev now p k status attempt expected f") auto
qed

lemma transition_status_at:
  assumes "plan_transition dg ev now p k status attempt expected f = Inr p'"
  shows "status_at j p' = (if j = k then status else status_at j p)"
    and "node_edge (status_at k p) status"
proof -
  from assms obtain node where n: "first_node k (plan_nodes p) = Some node"
    and chk: "check_transition ev p node status attempt expected f = Inr ()"
    and p': "plan_nodes p' = put_node k (upd_node status attempt now f node) (plan_nodes p)"
    by (rule plan_transition_ok)
  have "pn_id node = k" using first_node_Some[OF n] by simp
  then show "status_at j p' = (if j = k then status else status_at j p)"
    by (simp add: status_at_def p' first_node_put n)
  show "node_edge (status_at k p) status"
    using check_transition_ok[OF chk] by (simp add: status_at_def n)
qed

interpretation plan_node: guarded_machine "status_at k" plan_revision "request_step dg" node_edge
  for dg k
proof
  fix r p
  show "status_at k (request_step dg r p) \<noteq> status_at k p \<Longrightarrow>
      node_edge (status_at k p) (status_at k (request_step dg r p))"
    by (cases rule: request_step_cases[of dg r p])
       (auto simp: transition_status_at split: if_splits)
  show "plan_revision p \<le> plan_revision (request_step dg r p)"
    by (cases rule: request_step_cases[of dg r p]) (auto elim!: plan_transition_ok)
  show "status_at k (request_step dg r p) \<noteq> status_at k p \<Longrightarrow>
      plan_revision p < plan_revision (request_step dg r p)"
    by (cases rule: request_step_cases[of dg r p]) (auto elim!: plan_transition_ok)
qed


subsection \<open>The refresh loop\<close>

definition status_weight :: "plan_node \<Rightarrow> nat" where
  "status_weight n = (if pn_status n = ''pending'' then 2 else if pn_status n = ''ready'' then 1 else 0)"

definition plan_weight :: "plan \<Rightarrow> nat" where
  "plan_weight p = sum_list (map status_weight (plan_nodes p))"

text \<open>What refreshing may do to a node: nothing, admit it, or block it for a dependency or an
  input; its definition and its attempt stay.\<close>

definition refreshed :: "evidence_view \<Rightarrow> plan_node \<Rightarrow> plan_node \<Rightarrow> bool" where
  "refreshed ev n m \<longleftrightarrow>
     node_definition m = node_definition n \<and> pn_attempt m = pn_attempt n \<and>
     (m = n \<or>
      (pn_status n = ''pending'' \<and> pn_status m = ''ready'') \<or>
      (pn_status n \<in> {''pending'', ''ready''} \<and> pn_status m = ''blocked'' \<and>
         (pn_deps n \<noteq> [] \<or> (\<exists>r \<in> set (pn_inputs n). \<not> ev_valid ev r))))"

text \<open>A node the refresh leaves alone.\<close>

definition calm :: "evidence_view \<Rightarrow> plan \<Rightarrow> plan_node \<Rightarrow> bool" where
  "calm ev p n \<longleftrightarrow>
     (pn_status n \<in> {''pending'', ''ready''} \<longrightarrow>
        (\<forall>d \<in> set (pn_deps n). status_at d p \<notin> set BAD_STATUSES) \<and>
        (\<forall>r \<in> set (pn_inputs n). ev_valid ev r)) \<and>
     (pn_status n = ''pending'' \<longrightarrow> (\<exists>d \<in> set (pn_deps n). status_at d p \<noteq> ''succeeded''))"

lemma node_definition_fields:
  "node_definition m = node_definition n \<Longrightarrow>
     pn_id m = pn_id n \<and> pn_deps m = pn_deps n \<and> pn_inputs m = pn_inputs n \<and> pn_kind m = pn_kind n"
  by (cases m, cases n) (auto simp: node_definition_def)

lemma refreshed_refl [simp]: "refreshed ev n n"
  by (simp add: refreshed_def)

lemma refreshed_trans: "refreshed ev l m \<Longrightarrow> refreshed ev m n \<Longrightarrow> refreshed ev l n"
  using node_definition_fields[of m l] by (auto simp: refreshed_def)

lemma refreshed_list_trans:
  "list_all2 (refreshed ev) xs ys \<Longrightarrow> list_all2 (refreshed ev) ys zs \<Longrightarrow> list_all2 (refreshed ev) xs zs"
  by (rule list_all2_trans[of "refreshed ev" "refreshed ev"]) (auto intro: refreshed_trans)

lemma refreshed_keys:
  "list_all2 (refreshed ev) ns ms \<Longrightarrow> map pn_id ms = map pn_id ns"
  by (induction rule: list_all2_induct) (auto simp: refreshed_def dest: node_definition_fields)

lemma put_node_Nil [simp]: "put_node k m [] = []"
  and put_node_Cons [simp]: "put_node k m (n # ns) = (if pn_id n = k then m else n) # put_node k m ns"
  by (simp_all add: put_node_def)

lemma put_node_absent: "k \<notin> pn_id ` set ns \<Longrightarrow> put_node k m ns = ns"
  by (induction ns) auto

lemma put_node_weight:
  "distinct (map pn_id ns) \<Longrightarrow> first_node k ns = Some n \<Longrightarrow>
     sum_list (map status_weight (put_node k m ns)) + status_weight n
       = sum_list (map status_weight ns) + status_weight m"
proof (induction ns)
  case (Cons a ns)
  then show ?case by (auto simp: put_node_absent split: if_splits)
qed simp

lemma put_node_refreshed:
  "distinct (map pn_id ns) \<Longrightarrow> first_node k ns = Some n \<Longrightarrow> refreshed ev n m \<Longrightarrow>
     list_all2 (refreshed ev) ns (put_node k m ns)"
proof (induction ns)
  case (Cons a ns)
  then show ?case by (auto simp: put_node_absent list_all2_refl split: if_splits)
qed simp

lemma fetch_nodes_ok:
  "fetch_nodes p ks = Inr ds \<Longrightarrow> map Some ds = map (\<lambda>k. first_node k (plan_nodes p)) ks"
  by (induction ks arbitrary: ds) (auto simp: bindR_ok_iff plan_node_of_def split: option.splits)

lemma fetch_nodes_status:
  assumes "fetch_nodes p ks = Inr ds"
  shows "pn_status ` set ds = (\<lambda>k. status_at k p) ` set ks"
proof -
  have "map (\<lambda>d. pn_status d) ds = map (\<lambda>k. status_at k p) ks"
    using fetch_nodes_ok[OF assms]
    by (induction ds arbitrary: ks) (auto simp: status_at_def map_eq_Cons_conv split: option.splits)
  then show ?thesis by (metis image_set)
qed

lemma fetch_nodes_total:
  "set ks \<subseteq> set (node_keys p) \<Longrightarrow> \<exists>ds. fetch_nodes p ks = Inr ds"
proof (induction ks)
  case (Cons k ks)
  then obtain n where "first_node k (plan_nodes p) = Some n"
    by (cases "first_node k (plan_nodes p)") (auto simp: first_node_None node_keys_def)
  with Cons show ?case by (auto simp: plan_node_of_def)
qed simp

lemma block_reason_empty:
  "block_reason ev n ds = [] \<longleftrightarrow>
     (\<forall>s \<in> pn_status ` set ds. s \<notin> set BAD_STATUSES) \<and> (\<forall>r \<in> set (pn_inputs n). ev_valid ev r)"
  by (auto simp: block_reason_def Let_def filter_empty_conv)

lemma block_reason_cause:
  assumes "block_reason ev n ds \<noteq> []" "fetch_nodes p (pn_deps n) = Inr ds"
  shows "pn_deps n \<noteq> [] \<or> (\<exists>r \<in> set (pn_inputs n). \<not> ev_valid ev r)"
  using assms by (cases "pn_deps n") (auto simp: block_reason_empty)

text \<open>One node of a pass.\<close>

lemma transition_refreshes:
  assumes "plan_transition dg None now p (pn_id n) s a None f = Inr p'"
    and "first_node (pn_id n) (plan_nodes p) = Some n" "distinct (node_keys p)"
    and "refreshed ev n (upd_node s a now f n)" "status_weight (upd_node s a now f n) < status_weight n"
  shows "plan_weight p' < plan_weight p \<and> list_all2 (refreshed ev) (plan_nodes p) (plan_nodes p') \<and>
     (\<forall>j. j \<noteq> pn_id n \<longrightarrow> first_node j (plan_nodes p') = first_node j (plan_nodes p))"
proof -
  have p': "plan_nodes p' = put_node (pn_id n) (upd_node s a now f n) (plan_nodes p)"
    using assms(1,2) by (auto elim!: plan_transition_ok)
  have "plan_weight p' + status_weight n = plan_weight p + status_weight (upd_node s a now f n)"
    unfolding plan_weight_def p'
    using assms(2,3) by (intro put_node_weight) (simp_all add: node_keys_def)
  then show ?thesis
    using assms(2-5) put_node_refreshed[of "plan_nodes p" "pn_id n" n ev]
    by (simp add: p' first_node_put node_keys_def)
qed

lemma refresh_node_ok:
  assumes "refresh_node dg ev now n (p, c) = Inr (p', c')"
    and "first_node (pn_id n) (plan_nodes p) = Some n" "distinct (node_keys p)"
  shows "(p' = p \<and> c' = c \<and> calm ev p n) \<or>
    (c' \<and> plan_weight p' < plan_weight p \<and> list_all2 (refreshed ev) (plan_nodes p) (plan_nodes p') \<and>
     (\<forall>j. j \<noteq> pn_id n \<longrightarrow> first_node j (plan_nodes p') = first_node j (plan_nodes p)))"
proof (cases "pn_status n \<in> {''pending'', ''ready''}")
  case False
  then show ?thesis using assms(1) by (auto simp: refresh_node_def calm_def)
next
  case True
  then obtain ds where ds: "fetch_nodes p (pn_deps n) = Inr ds"
    and step: "(let reason = block_reason ev n ds in
       if reason \<noteq> [] then
         bindR (plan_transition dg None now p (pn_id n) ''blocked'' (pn_attempt n) None
                  (no_fields\<lparr>nf_failure := Some reason\<rparr>)) (\<lambda>p'. ok (p', True))
       else if pn_status n = ''pending'' \<and> (\<forall>d \<in> set ds. pn_status d = ''succeeded'') then
         bindR (plan_transition dg None now p (pn_id n) ''ready'' [] None no_fields)
           (\<lambda>p'. ok (p', True))
       else ok (p, c)) = Inr (p', c')"
    using assms(1) by (auto simp: refresh_node_def bindR_ok_iff)
  consider (block) "block_reason ev n ds \<noteq> []"
      "plan_transition dg None now p (pn_id n) ''blocked'' (pn_attempt n) None
                  (no_fields\<lparr>nf_failure := Some (block_reason ev n ds)\<rparr>) = Inr p'" "c'"
    | (admit) "pn_status n = ''pending''"
      "plan_transition dg None now p (pn_id n) ''ready'' [] None no_fields = Inr p'" "c'"
    | (keep) "block_reason ev n ds = []" "\<not> (pn_status n = ''pending'' \<and> (\<forall>d \<in> set ds. pn_status d = ''succeeded''))"
      "p' = p" "c' = c"
    using step by (auto simp: Let_def bindR_ok_iff split: if_splits)
  then show ?thesis
  proof cases
    case block
    from transition_refreshes[OF block(2) assms(2,3), of ev] show ?thesis
      using block(1,3) True block_reason_cause[OF block(1) ds]
      by (auto simp: refreshed_def upd_node_def status_weight_def node_definition_def no_fields_def)
  next
    case admit
    from transition_refreshes[OF admit(2) assms(2,3), of ev] show ?thesis
      using admit(1,3)
      by (auto simp: refreshed_def upd_node_def status_weight_def node_definition_def no_fields_def)
  next
    case keep
    have "\<forall>s \<in> (\<lambda>k. status_at k p) ` set (pn_deps n). s \<notin> set BAD_STATUSES"
      "\<forall>r \<in> set (pn_inputs n). ev_valid ev r"
      using keep(1) unfolding block_reason_empty fetch_nodes_status[OF ds] by blast+
    moreover have "\<exists>s \<in> (\<lambda>k. status_at k p) ` set (pn_deps n). s \<noteq> ''succeeded''" if "pn_status n = ''pending''"
      unfolding fetch_nodes_status[OF ds, symmetric] using keep(2) that by auto
    ultimately show ?thesis using keep(3,4) by (auto simp: calm_def)
  qed
qed


lemma refresh_steps:
  assumes "foldR (refresh_node dg ev now) ns (p, c) = Inr (p', c')"
    and "\<forall>n \<in> set ns. first_node (pn_id n) (plan_nodes p) = Some n"
    and "distinct (map pn_id ns)" "distinct (node_keys p)"
  shows "list_all2 (refreshed ev) (plan_nodes p) (plan_nodes p') \<and>
    ((p' = p \<and> c' = c \<and> (\<forall>n \<in> set ns. calm ev p n)) \<or> (c' \<and> plan_weight p' < plan_weight p))"
  using assms
proof (induction ns arbitrary: p c)
  case (Cons n ns)
  from Cons.prems(1) obtain p1 c1 where n: "refresh_node dg ev now n (p, c) = Inr (p1, c1)"
    and rest: "foldR (refresh_node dg ev now) ns (p1, c1) = Inr (p', c')"
    by (auto simp: bindR_ok_iff)
  have "(p1 = p \<and> c1 = c \<and> calm ev p n) \<or>
    (c1 \<and> plan_weight p1 < plan_weight p \<and> list_all2 (refreshed ev) (plan_nodes p) (plan_nodes p1) \<and>
     (\<forall>j. j \<noteq> pn_id n \<longrightarrow> first_node j (plan_nodes p1) = first_node j (plan_nodes p)))"
    using Cons.prems by (intro refresh_node_ok[OF n]) auto
  then show ?case
  proof
    assume "p1 = p \<and> c1 = c \<and> calm ev p n"
    then show ?thesis using Cons.IH[OF rest] Cons.prems by auto
  next
    assume n: "c1 \<and> plan_weight p1 < plan_weight p \<and> list_all2 (refreshed ev) (plan_nodes p) (plan_nodes p1) \<and>
     (\<forall>j. j \<noteq> pn_id n \<longrightarrow> first_node j (plan_nodes p1) = first_node j (plan_nodes p))"
    have keys: "node_keys p1 = node_keys p"
      using n refreshed_keys by (auto simp: node_keys_def)
    have "\<forall>m \<in> set ns. first_node (pn_id m) (plan_nodes p1) = Some m"
    proof
      fix m assume m: "m \<in> set ns"
      then have "pn_id m \<in> pn_id ` set ns" by (rule imageI)
      then have "pn_id m \<noteq> pn_id n" using Cons.prems(3) by auto
      with n m Cons.prems(2) show "first_node (pn_id m) (plan_nodes p1) = Some m" by simp
    qed
    from Cons.IH[OF rest this] have IH: "list_all2 (refreshed ev) (plan_nodes p1) (plan_nodes p')"
      "p' = p1 \<and> c' = c1 \<or> c' \<and> plan_weight p' < plan_weight p1"
      using Cons.prems(3,4) keys by auto
    show ?thesis using IH n refreshed_list_trans[OF _ IH(1)] by auto
  qed
qed (simp add: list_all2_refl)

lemma refresh_pass_ok:
  assumes "refresh_pass dg ev now p = Inr (p', c)" "distinct (node_keys p)"
  shows "list_all2 (refreshed ev) (plan_nodes p) (plan_nodes p')"
    and "c \<Longrightarrow> plan_weight p' < plan_weight p"
    and "\<not> c \<Longrightarrow> p' = p \<and> (\<forall>n \<in> set (plan_nodes p). calm ev p n)"
  using refresh_steps[OF assms(1)[unfolded refresh_pass_def]] assms(2)
  by (auto simp: node_keys_def first_node_distinct)

text \<open>The conditions under which no transition of a refresh is refused.\<close>

definition refreshable :: "plan \<Rightarrow> bool" where
  "refreshable p \<longleftrightarrow> distinct (node_keys p) \<and>
     (\<forall>n \<in> set (plan_nodes p). set (pn_deps n) \<subseteq> set (node_keys p) \<and>
        (pn_status n = ''pending'' \<longrightarrow> pn_attempt n = []))"

lemma refreshable_mono:
  assumes "refreshable p" "list_all2 (refreshed ev) (plan_nodes p) (plan_nodes p')"
  shows "refreshable p'"
proof -
  have keys: "node_keys p' = node_keys p" using refreshed_keys[OF assms(2)] by (simp add: node_keys_def)
  have "\<exists>n \<in> set (plan_nodes p). refreshed ev n m" if "m \<in> set (plan_nodes p')" for m
    using assms(2) that by (fastforce simp: list_all2_conv_all_nth in_set_conv_nth)
  then show ?thesis
    using assms(1) by (fastforce simp: refreshable_def keys refreshed_def dest: node_definition_fields)
qed

lemma refresh_node_total:
  assumes "first_node (pn_id n) (plan_nodes p) = Some n" "set (pn_deps n) \<subseteq> set (node_keys p)"
    and "pn_status n = ''pending'' \<longrightarrow> pn_attempt n = []"
  shows "\<exists>r. refresh_node dg ev now n (p, c) = Inr r"
proof -
  obtain ds where ds: "fetch_nodes p (pn_deps n) = Inr ds" using fetch_nodes_total[OF assms(2)] by blast
  have "check_transition None p n ''blocked'' (pn_attempt n) None f = Inr ()"
    if "pn_status n \<in> {''pending'', ''ready''}" for f
    using that by (auto simp: check_transition_def TRANSITIONS_def)
  moreover have "check_transition None p n ''ready'' [] None f = Inr ()" if "pn_status n = ''pending''" for f
    using that assms(3) by (auto simp: check_transition_def TRANSITIONS_def)
  ultimately show ?thesis
    using ds assms(1) by (auto simp: refresh_node_def Let_def plan_transition_def plan_node_of_def)
qed

lemma refresh_steps_total:
  assumes "\<forall>n \<in> set ns. first_node (pn_id n) (plan_nodes p) = Some n"
    and "distinct (map pn_id ns)" "refreshable p"
  shows "\<exists>r. foldR (refresh_node dg ev now) ns (p, c) = Inr r"
  using assms
proof (induction ns arbitrary: p c)
  case (Cons n ns)
  have "n \<in> set (plan_nodes p)" using Cons.prems(1) first_node_Some by fastforce
  then obtain p1 c1 where n: "refresh_node dg ev now n (p, c) = Inr (p1, c1)"
    using refresh_node_total[of n p dg ev now c] Cons.prems by (auto simp: refreshable_def)
  have "foldR (refresh_node dg ev now) [n] (p, c) = Inr (p1, c1)" by (simp add: n)
  from refresh_steps[OF this] have "list_all2 (refreshed ev) (plan_nodes p) (plan_nodes p1)"
    using Cons.prems by (simp add: refreshable_def)
  then have r1: "refreshable p1" by (rule refreshable_mono[OF Cons.prems(3)])
  have "\<forall>m \<in> set ns. first_node (pn_id m) (plan_nodes p1) = Some m"
  proof
    fix m assume m: "m \<in> set ns"
    then have "pn_id m \<in> pn_id ` set ns" by (rule imageI)
    then have "pn_id m \<noteq> pn_id n" using Cons.prems(2) by auto
    then have "first_node (pn_id m) (plan_nodes p1) = first_node (pn_id m) (plan_nodes p)"
      using refresh_node_ok[OF n] Cons.prems(1,3) by (auto simp: refreshable_def)
    then show "first_node (pn_id m) (plan_nodes p1) = Some m" using Cons.prems(1) m by simp
  qed
  from Cons.IH[OF this _ r1] show ?case using n Cons.prems(2) by simp
qed simp

lemma refresh_pass_total: "refreshable p \<Longrightarrow> \<exists>r. refresh_pass dg ev now p = Inr r"
  unfolding refresh_pass_def
  by (rule refresh_steps_total) (auto simp: refreshable_def node_keys_def first_node_distinct)

lemma refresh_plan_settles:
  assumes "refreshable p"
  shows "\<exists>p'. refresh_plan dg ev now p = Some (Inr p') \<and>
    list_all2 (refreshed ev) (plan_nodes p) (plan_nodes p') \<and>
    (\<forall>n \<in> set (plan_nodes p'). calm ev p' n)"
  using assms
proof (induction "plan_weight p" arbitrary: p rule: less_induct)
  case less
  have dist: "distinct (node_keys p)" using less.prems by (simp add: refreshable_def)
  obtain p1 c where pass: "refresh_pass dg ev now p = Inr (p1, c)"
    using refresh_pass_total[OF less.prems] by fastforce
  note ok = refresh_pass_ok[OF pass dist]
  show ?case
  proof (cases c)
    case True
    have "refreshable p1" by (rule refreshable_mono[OF less.prems ok(1)])
    from less.hyps[OF ok(2)[OF True] this] obtain p' where
      "refresh_plan dg ev now p1 = Some (Inr p')" "list_all2 (refreshed ev) (plan_nodes p1) (plan_nodes p')"
      "\<forall>n \<in> set (plan_nodes p'). calm ev p' n" by blast
    then show ?thesis
      using True refreshed_list_trans[OF ok(1)] by (subst refresh_plan.simps) (auto simp: pass)
  next
    case False
    then show ?thesis using ok by (subst refresh_plan.simps) (auto simp: pass list_all2_refl)
  qed
qed

subsection \<open>Properties\<close>

text \<open>C27. The refresh loop returns.  On a plan whose identifiers are distinct, whose
  dependencies are known and whose pending nodes carry no attempt, it ends without an error in a
  plan of the same nodes, each either unchanged, admitted, or blocked because of a dependency or
  an input, and nothing is left to do: no pending or ready node has a failed dependency or an
  unusable input, and every pending node still waits for a dependency.\<close>

theorem refresh_returns_settled:
  assumes "refreshable p"
  shows "\<exists>p'. refresh_plan dg ev now p = Some (ok p') \<and>
    list_all2 (refreshed ev) (plan_nodes p) (plan_nodes p') \<and>
    (\<forall>n \<in> set (plan_nodes p'). calm ev p' n)"
  using assms by (rule refresh_plan_settles)

text \<open>A validated plan can start: when every node is pending without an attempt and every
  input is usable, refreshing makes at least one node ready.\<close>

theorem fresh_plan_gets_ready_node:
  assumes "validate_plan dg registry is_object identity p = ok ()"
    and "\<forall>n \<in> set (plan_nodes p). pn_status n = ''pending'' \<and> pn_attempt n = [] \<and>
           (\<forall>r \<in> set (pn_inputs n). ev_valid ev r)"
  shows "\<exists>p'. refresh_plan dg ev now p = Some (ok p') \<and>
    (\<exists>n \<in> set (plan_nodes p'). pn_status n = ''ready'')"
proof -
  have ne: "plan_nodes p \<noteq> []" and dist: "distinct (node_keys p)"
    and wf: "\<forall>n \<in> set (plan_nodes p). set (pn_deps n) \<subseteq> set (node_keys p)"
    and acyc: "\<not> cyclic_graph (node_keys p) (node_deps p)"
    using validated_plan_graph[OF assms(1)] by simp_all
  then have "refreshable p" using assms(2) by (simp add: refreshable_def)
  from refresh_plan_settles[OF this] obtain p' where
    p': "refresh_plan dg ev now p = Some (ok p')" "list_all2 (refreshed ev) (plan_nodes p) (plan_nodes p')"
    "\<forall>n \<in> set (plan_nodes p'). calm ev p' n" by blast
  have "set (node_keys p) \<noteq> {}" using ne by (simp add: node_keys_def)
  from acyclic_source[OF acyc subset_refl this] obtain k where k: "k \<in> set (node_keys p)"
    "\<forall>d \<in> set (node_deps p k) \<inter> set (node_keys p). d \<notin> set (node_keys p)" by blast
  then obtain n where n: "n \<in> set (plan_nodes p)" "pn_id n = k" by (auto simp: node_keys_def)
  then have "node_deps p k = pn_deps n"
    using first_node_distinct[of "plan_nodes p" n] dist by (simp add: node_deps_def node_keys_def)
  moreover have "set (pn_deps n) \<subseteq> set (node_keys p)" using wf n(1) by blast
  ultimately have "set (pn_deps n) = {}" using k(2) by (metis IntI equals0I subsetD)
  then have "pn_deps n = []" by simp
  moreover obtain m where m: "m \<in> set (plan_nodes p')" "refreshed ev n m"
    using p'(2) n(1) by (fastforce simp: list_all2_conv_all_nth in_set_conv_nth)
  ultimately have "pn_deps m = []" "pn_status m = ''pending'' \<or> pn_status m = ''ready''"
    using assms(2) n(1) by (auto simp: refreshed_def dest: node_definition_fields)
  moreover have "calm ev p' m" using p'(3) m(1) by blast
  ultimately have "pn_status m = ''ready''" by (auto simp: calm_def)
  then show ?thesis using p'(1) m(1) by blast
qed

text \<open>Whatever transitions are requested, in any order and with any results, a node moves only
  along the transition table, a failed or cancelled node stays as it is, and every status change
  costs a revision of the plan.\<close>

theorem node_status_follows_table:
  "node_edge\<^sup>*\<^sup>* (status_at k p) (status_at k (fold (request_step dg) rs p)) \<and>
   (status_at k p \<in> {''failed'', ''cancelled''} \<longrightarrow>
      status_at k (fold (request_step dg) rs p) = status_at k p) \<and>
   (plan_revision (fold (request_step dg) rs p) = plan_revision p \<longrightarrow>
      status_at k (fold (request_step dg) rs p) = status_at k p)"
proof -
  have "\<not> node_edge s t" if "s \<in> {''failed'', ''cancelled''}" for s t
    using that by (auto simp: node_edge_def TRANSITIONS_def)
  then have "status_at k p \<in> {''failed'', ''cancelled''} \<longrightarrow>
      status_at k (fold (request_step dg) rs p) = status_at k p"
    using plan_node.run_stuck[of k p dg rs] by blast
  then show ?thesis
    using plan_node.run_reaches[of k p dg rs] plan_node.run_same_rev[of dg rs p k] by blast
qed

text \<open>The recovery reset touches one node: it returns to pending without its attempt and its
  results, the others keep everything, and an edit is reset only when it was prepared but never
  dispatched, so no write is replayed.\<close>

theorem restart_resets_one_node:
  assumes "restart_safe dg p k attempt reason = ok p'"
  shows "(\<exists>n. first_node k (plan_nodes p) = Some n \<and>
      (pn_attempt n = [] \<or> pn_attempt n = attempt) \<and>
      (pn_kind n = ''edit'' \<longrightarrow> reason = ''prepared_not_dispatched'') \<and>
      first_node k (plan_nodes p') = Some (reset_node reason n)) \<and>
    (\<forall>j. j \<noteq> k \<longrightarrow> first_node j (plan_nodes p') = first_node j (plan_nodes p)) \<and>
    plan_revision p' = plan_revision p + 1"
proof -
  from assms obtain n where n: "first_node k (plan_nodes p) = Some n"
    "pn_attempt n = [] \<or> pn_attempt n = attempt"
    "pn_kind n = ''edit'' \<longrightarrow> reason = ''prepared_not_dispatched''"
    "plan_nodes p' = put_node k (reset_node reason n) (plan_nodes p)"
    "plan_revision p' = plan_revision p + 1"
    by (auto simp: restart_safe_def plan_node_of_def bindR_ok_iff split: option.splits if_splits)
  have "pn_id (reset_node reason n) = k" using first_node_Some[OF n(1)] by (simp add: reset_node_def)
  then show ?thesis using n by (simp add: first_node_put)
qed

definition all_valid :: evidence_view where
  "all_valid = \<lparr>ev_valid = \<lambda>_. True, ev_completion = \<lambda>_ _ _. True\<rparr>"

theorem refresh_returns_settled_witness:
  "\<exists>p'. refresh_plan plain_digest all_valid 5 sample_task_plan = Some (ok p') \<and>
    (\<forall>n \<in> set (plan_nodes p'). calm all_valid p' n)"
proof -
  have "refreshable sample_task_plan" by code_simp
  from refresh_returns_settled[OF this] show ?thesis by blast
qed

theorem fresh_plan_gets_ready_node_witness:
  "\<exists>p'. refresh_plan plain_digest all_valid 5 sample_task_plan = Some (ok p') \<and>
    (\<exists>n \<in> set (plan_nodes p'). pn_status n = ''ready'')"
proof -
  have "\<forall>n \<in> set (plan_nodes sample_task_plan). pn_status n = ''pending'' \<and> pn_attempt n = [] \<and>
           (\<forall>r \<in> set (pn_inputs n). ev_valid all_valid r)" by code_simp
  from fresh_plan_gets_ready_node[OF sample_plan_valid this] show ?thesis .
qed

theorem node_status_follows_table_witness:
  "status_at ''look'' (fold (request_step plain_digest)
     [NodeRequest None 1 ''look'' ''cancelled'' [] None no_fields,
      NodeRequest None 2 ''look'' ''ready'' [] None no_fields] sample_task_plan) = ''cancelled''"
proof -
  let ?q = "request_step plain_digest (NodeRequest None 1 ''look'' ''cancelled'' [] None no_fields) sample_task_plan"
  have "status_at ''look'' ?q = ''cancelled''" by code_simp
  then have "status_at ''look'' (fold (request_step plain_digest)
      [NodeRequest None 2 ''look'' ''ready'' [] None no_fields] ?q) = ''cancelled''"
    using node_status_follows_table[of "''look''" ?q plain_digest
      "[NodeRequest None 2 ''look'' ''ready'' [] None no_fields]"] by simp
  then show ?thesis by simp
qed

theorem restart_resets_one_node_witness:
  "\<exists>n. first_node ''look'' (plan_nodes sample_task_plan) = Some n"
proof -
  have "is_ok (restart_safe plain_digest sample_task_plan ''look'' ''a'' ''read_stopped'')" by code_simp
  then obtain p' where "restart_safe plain_digest sample_task_plan ''look'' ''a'' ''read_stopped'' = ok p'"
    by (auto simp: is_ok_iff)
  from restart_resets_one_node[OF this] show ?thesis by blast
qed

end
