(* ===== verification/PlanReplan.thy ===== *)
theory PlanReplan
  imports PlanReducer
begin

text \<open>
  \<open>plan_runtime/replan.py\<close>: replacing the graph of a plan at a quiescent point.  What the
  functions read of the session is one record: the execution lease, the evidence records, the
  phases of the latest attempts, the rollback events in journal order, the workspace snapshot,
  the tool registry and the identity.  Committing validates once more; the journal and trace
  entries themselves are not modelled.
\<close>

record 'w rollback =
  rb_completed :: bool
  rb_version :: "int option"
  rb_after :: "'w option"
  rb_expected :: "'w option"

record 'w replan_session =
  rs_allowed :: "unit res"
  rs_evidence :: evidence_view
  rs_kind_of :: "string \<Rightarrow> string option"
  rs_attempt_phases :: "string list"
  rs_rollbacks :: "'w rollback list"
  rs_workspace :: 'w
  rs_registry :: registry
  rs_is_object :: "string \<Rightarrow> bool res"
  rs_identity :: "string \<rightharpoonup> string"

definition unsettled :: "plan \<Rightarrow> bool" where
  "unsettled p \<longleftrightarrow> (\<exists>n \<in> set (plan_nodes p). pn_status n \<in> {''running'', ''uncertain''})"

definition active_attempts :: "'w replan_session \<Rightarrow> bool" where
  "active_attempts s \<longleftrightarrow> (\<exists>ph \<in> set (rs_attempt_phases s). ph \<noteq> ''reconciled'')"

definition finished_write :: "plan_node \<Rightarrow> bool" where
  "finished_write n \<longleftrightarrow> pn_kind n = ''edit'' \<and> pn_status n = ''succeeded''"

definition rollback_good :: "'w replan_session \<Rightarrow> 'w rollback \<Rightarrow> bool" where
  "rollback_good s r \<longleftrightarrow>
     rb_completed r \<and> rb_after r = rb_expected r \<and> rb_after r = Some (rs_workspace s)"

definition latest_rollback_good :: "'w replan_session \<Rightarrow> plan \<Rightarrow> bool" where
  "latest_rollback_good s old =
    (let rollbacks = filter (\<lambda>r. rb_version r = Some (plan_version old)) (rs_rollbacks s) in
     rollbacks \<noteq> [] \<and> rollback_good s (last rollbacks))"

definition check_replan :: "'w replan_session \<Rightarrow> plan \<Rightarrow> unit res" where
  "check_replan s old =
    bindR (rs_allowed s) (\<lambda>_.
      first_failure
       [(plan_version old \<le> MAX_REPLANS, ''replan_budget_exceeded''),
        (\<not> unsettled old, ''replan_requires_quiescence''),
        (\<not> active_attempts s, ''replan_active_attempt''),
        (\<forall>n \<in> set (plan_nodes old). finished_write n \<longrightarrow> latest_rollback_good s old,
           ''replan_rollback_unconfirmed'')])"

definition rolled_back :: "'w replan_session \<Rightarrow> plan \<Rightarrow> bool" where
  "rolled_back s old \<longleftrightarrow>
     (\<exists>r \<in> set (rs_rollbacks s). rollback_good s r \<and> rb_version r = Some (plan_version old))"

definition check_previous :: "'w replan_session \<Rightarrow> plan \<Rightarrow> plan \<Rightarrow> plan_node \<Rightarrow> unit res" where
  "check_previous s old candidate previous =
    (let new_node = first_node (pn_id previous) (rev (plan_nodes candidate)) in
     if (case new_node of Some n \<Rightarrow> node_definition n \<noteq> node_definition previous | None \<Rightarrow> False)
     then raise (ValueError ''stable_node_id_semantics_changed'')
     else if finished_write previous \<and> \<not> (rolled_back s old \<and> new_node = None) \<and>
        (new_node = None \<or>
         \<not> (\<forall>ref \<in> set (pn_outputs previous). rs_kind_of s ref = Some ''patch_applied'' \<longrightarrow>
              ev_valid (rs_evidence s) ref))
     then raise (ValueError ''completed_write_history_required'')
     else ok ())"

definition pristine :: "plan_node \<Rightarrow> plan_node" where
  "pristine n = n\<lparr>pn_status := ''pending'', pn_attempt := [], pn_failure := [], pn_outputs := [],
     pn_receipts := [], pn_started := 0, pn_ended := 0\<rparr>"

definition carry_node :: "'w replan_session \<Rightarrow> plan \<Rightarrow> plan_node \<Rightarrow> plan_node" where
  "carry_node s old n =
    (case first_node (pn_id n) (plan_nodes old) of
       Some previous \<Rightarrow>
         if pn_status previous = ''succeeded'' \<and>
            (\<forall>ref \<in> set (pn_outputs previous). ev_valid (rs_evidence s) ref) then previous
         else if pn_kind previous = ''edit'' \<and> pn_status previous = ''succeeded'' then previous
         else pristine n
     | None \<Rightarrow> pristine n)"

definition same_identity :: "plan \<Rightarrow> plan \<Rightarrow> bool" where
  "same_identity p q \<longleftrightarrow> plan_pid p = plan_pid q \<and> plan_task p = plan_task q \<and>
     plan_run p = plan_run q \<and> plan_workspace p = plan_workspace q \<and> plan_session p = plan_session q"

definition next_plan :: "digest \<Rightarrow> 'w replan_session \<Rightarrow> plan \<Rightarrow> plan \<Rightarrow> string \<Rightarrow> string list \<Rightarrow> plan" where
  "next_plan dg s old candidate reason refs =
     plan_seal dg (candidate\<lparr>plan_nodes := map (carry_node s old) (plan_nodes candidate),
       plan_version := plan_version old + 1, plan_revision := plan_revision old + 1,
       plan_parent := plan_checksum old, plan_reason := reason, plan_replan_refs := refs,
       plan_status := ''active''\<rparr>)"

definition replan_gates :: "'w replan_session \<Rightarrow> plan \<Rightarrow> plan \<Rightarrow> string \<Rightarrow> string list \<Rightarrow> unit res" where
  "replan_gates s old candidate reason refs =
    bindR (rs_allowed s) (\<lambda>_.
    bindR (if prefix ''verification_failed:'' reason then check_replan s old else ok ()) (\<lambda>_.
    bindR (first_failure
      [(plan_version old \<le> MAX_REPLANS, ''replan_budget_exceeded''),
       (\<not> unsettled old, ''replan_requires_quiescence''),
       (reason \<noteq> [] \<and> refs \<noteq> [] \<and> (\<forall>r \<in> set refs. rs_kind_of s r \<noteq> None),
          ''replan_trigger_evidence_required''),
       (same_identity candidate old, ''replan_identity_mismatch''),
       (\<not> active_attempts s, ''replan_active_attempt'')]) (\<lambda>_.
      foldR (\<lambda>n _. check_previous s old candidate n) (plan_nodes old) ())))"

definition replan ::
  "digest \<Rightarrow> 'w replan_session \<Rightarrow> real \<Rightarrow> plan \<Rightarrow> plan \<Rightarrow> string \<Rightarrow> string list \<Rightarrow> plan res option" where
  "replan dg s now old candidate reason refs =
    (case bindR (replan_gates s old candidate reason refs) (\<lambda>_.
             validate_plan dg (rs_registry s) (rs_is_object s) (rs_identity s)
               (next_plan dg s old candidate reason refs)) of
       Inl e \<Rightarrow> Some (Inl e)
     | Inr _ \<Rightarrow>
        (case refresh_plan dg (rs_evidence s) now (next_plan dg s old candidate reason refs) of
           None \<Rightarrow> None
         | Some (Inl e) \<Rightarrow> Some (Inl e)
         | Some (Inr p) \<Rightarrow>
             Some (bindR (validate_plan dg (rs_registry s) (rs_is_object s) (rs_identity s) p)
                (\<lambda>_. ok p))))"

subsection \<open>Completed writes survive\<close>

lemma first_node_rev:
  "distinct (map pn_id ns) \<Longrightarrow> first_node k (rev ns) = first_node k ns"
proof -
  assume d: "distinct (map pn_id ns)"
  show ?thesis
  proof (cases "first_node k ns")
    case None
    then show ?thesis by (metis first_node_None set_rev)
  next
    case (Some n)
    have "distinct (map pn_id (rev ns))" using d by (simp flip: rev_map)
    then show ?thesis
      using first_node_Some[OF Some] first_node_distinct[of "rev ns" n] Some by simp
  qed
qed

lemma carry_id: "pn_id (carry_node s old n) = pn_id n"
  by (auto simp: carry_node_def pristine_def split: option.splits dest: first_node_Some)

lemma carry_cases:
  "carry_node s old n = pristine n \<or>
   (\<exists>previous. first_node (pn_id n) (plan_nodes old) = Some previous \<and>
      pn_status previous = ''succeeded'' \<and> carry_node s old n = previous)"
  by (auto simp: carry_node_def split: option.splits)

lemma next_plan_nodes [simp]:
  "plan_nodes (next_plan dg s old candidate reason refs) = map (carry_node s old) (plan_nodes candidate)"
  "plan_version (next_plan dg s old candidate reason refs) = plan_version old + 1"
  by (simp_all add: next_plan_def)

lemma next_plan_refreshable:
  assumes "validate_plan dg reg isobj ident (next_plan dg s old candidate reason refs) = ok ()"
  shows "refreshable (next_plan dg s old candidate reason refs)"
proof -
  have "pn_attempt (carry_node s old n) = []" if "pn_status (carry_node s old n) = ''pending''" for n
    using that carry_cases[of s old n] by (auto simp: pristine_def)
  then show ?thesis
    using validated_plan_graph[OF assms] by (auto simp: refreshable_def)
qed

lemma refresh_node_version:
  "refresh_node dg ev now n (q, c) = Inr r \<Longrightarrow> plan_version (fst r) = plan_version q"
  by (auto simp: refresh_node_def bindR_ok_iff Let_def elim!: plan_transition_ok split: if_splits)

lemma refresh_pass_version:
  assumes "refresh_pass dg ev now q = Inr r"
  shows "plan_version (fst r) = plan_version q"
  by (rule foldR_invariant[OF assms[unfolded refresh_pass_def], of "\<lambda>pc. plan_version (fst pc) = plan_version q"])
     (use refresh_node_version in \<open>fastforce+\<close>)

lemma refresh_keeps_version:
  assumes "refresh_plan dg ev now p = Some (Inr p')"
  shows "plan_version p' = plan_version p"
proof -
  have "\<forall>p'. r = Inr p' \<longrightarrow> plan_version p' = plan_version q"
    if "refresh_plan dg ev now q = Some r" for dg ev now q r
    using that
    by (rule refresh_plan.raw_induct[rotated])
       (force split: sum.splits if_splits dest: refresh_pass_version)
  then show ?thesis using assms by blast
qed

lemma replan_ok:
  assumes "replan dg s now old candidate reason refs = Some (ok p')"
  shows "replan_gates s old candidate reason refs = ok ()"
    "validate_plan dg (rs_registry s) (rs_is_object s) (rs_identity s)
       (next_plan dg s old candidate reason refs) = ok ()"
    "refresh_plan dg (rs_evidence s) now (next_plan dg s old candidate reason refs) = Some (ok p')"
  using assms by (auto simp: replan_def bindR_ok_iff split: sum.splits option.splits)

lemma replan_gates_ok:
  assumes "replan_gates s old candidate reason refs = ok ()"
  shows "plan_version old \<le> MAX_REPLANS" "\<not> unsettled old" "\<not> active_attempts s"
    "\<forall>n \<in> set (plan_nodes old). check_previous s old candidate n = ok ()"
  using assms by (auto simp: replan_gates_def bindR_ok_iff foldR_unit_ok_iff)

text \<open>C19. Replanning never loses a completed write.  When it succeeds, the old plan was quiet and
  within the replan budget, the new plan is the next version of at most three, and every edit
  that had succeeded is in the new plan exactly as it was, results included, or its workspace
  was rolled back and confirmed and the node is gone.\<close>

theorem replan_keeps_completed_writes:
  assumes "replan dg s now old candidate reason refs = Some (ok p')" "distinct (node_keys old)"
  shows "plan_version p' = plan_version old + 1 \<and> plan_version p' \<le> 3 \<and>
    \<not> unsettled old \<and> \<not> active_attempts s \<and>
    (\<forall>n \<in> set (plan_nodes old). finished_write n \<longrightarrow>
       n \<in> set (plan_nodes p') \<or> (rolled_back s old \<and> pn_id n \<notin> set (node_keys p')))"
proof -
  let ?q = "next_plan dg s old candidate reason refs"
  note ok = replan_ok[OF assms(1)] and gates = replan_gates_ok[OF replan_ok(1)[OF assms(1)]]
  have ref: "list_all2 (refreshed (rs_evidence s)) (plan_nodes ?q) (plan_nodes p')"
    using refresh_plan_settles[OF next_plan_refreshable[OF ok(2)], of dg "rs_evidence s" now] ok(3)
    by auto
  have keys: "map pn_id (plan_nodes p') = map pn_id (plan_nodes candidate)"
    using refreshed_keys[OF ref] by (simp add: carry_id comp_def)
  have dist: "distinct (map pn_id (plan_nodes candidate))"
    using validated_plan_graph(2)[OF ok(2)] by (simp add: node_keys_def carry_id comp_def)
  have kept: "n \<in> set (plan_nodes p') \<or> (rolled_back s old \<and> pn_id n \<notin> set (node_keys p'))"
    if n: "n \<in> set (plan_nodes old)" "finished_write n" for n
  proof (cases "first_node (pn_id n) (plan_nodes candidate)")
    case None
    then have "pn_id n \<notin> set (node_keys p')"
      using keys by (auto simp: first_node_None node_keys_def simp flip: set_map)
    moreover have "rolled_back s old"
      using gates(4) n None first_node_rev[OF dist]
      by (fastforce simp: check_previous_def Let_def split: if_splits)
    ultimately show ?thesis by simp
  next
    case (Some m)
    have "first_node (pn_id n) (plan_nodes old) = Some n"
      using assms(2) n(1) by (simp add: first_node_distinct node_keys_def)
    then have "carry_node s old m = n"
      using first_node_Some[OF Some] n(2) by (simp add: carry_node_def finished_write_def)
    then have "n \<in> set (plan_nodes ?q)" using first_node_Some[OF Some] by auto
    then obtain n' where n': "n' \<in> set (plan_nodes p')" "refreshed (rs_evidence s) n n'"
      using ref by (fastforce simp: list_all2_conv_all_nth in_set_conv_nth)
    then have "n' = n" using n(2) by (auto simp: refreshed_def finished_write_def)
    then show ?thesis using n'(1) by simp
  qed
  show ?thesis
    using refresh_keeps_version[OF ok(3)] gates kept by (auto simp: MAX_REPLANS_def)
qed

definition sample_session :: "unit replan_session" where
  "sample_session = \<lparr>rs_allowed = ok (), rs_evidence = all_valid, rs_kind_of = \<lambda>_. Some ''tests_passed'',
     rs_attempt_phases = [''reconciled''], rs_rollbacks = [], rs_workspace = (),
     rs_registry = sample_registry, rs_is_object = \<lambda>s. ok (s = ''{}''), rs_identity = Map.empty\<rparr>"

definition edited_plan :: plan where
  "edited_plan = sample_task_plan\<lparr>plan_nodes :=
     [sample_explore\<lparr>pn_status := ''succeeded''\<rparr>, sample_edit\<lparr>pn_status := ''succeeded''\<rparr>]\<rparr>"

theorem replan_keeps_completed_writes_witness:
  "\<exists>p'. replan plain_digest sample_session 9 edited_plan sample_task_plan ''retry'' [''e''] = Some (ok p') \<and>
     sample_edit\<lparr>pn_status := ''succeeded''\<rparr> \<in> set (plan_nodes p')"
proof -
  have gates: "replan_gates sample_session edited_plan sample_task_plan ''retry'' [''e''] = ok ()"
    by code_simp
  have valid: "validate_plan plain_digest sample_registry (\<lambda>s. ok (s = ''{}'')) Map.empty
     (next_plan plain_digest sample_session edited_plan sample_task_plan ''retry'' [''e'']) = ok ()"
    by code_simp
  let ?q = "next_plan plain_digest sample_session edited_plan sample_task_plan ''retry'' [''e'']"
  have pass: "refresh_pass plain_digest all_valid 9 ?q = Inr (?q, False)" by code_simp
  have run: "replan plain_digest sample_session 9 edited_plan sample_task_plan ''retry'' [''e''] = Some (ok ?q)"
    using gates valid pass by (simp add: replan_def sample_session_def refresh_plan.simps)
  have "sample_edit\<lparr>pn_status := ''succeeded''\<rparr> \<in> set (plan_nodes edited_plan)"
    "finished_write (sample_edit\<lparr>pn_status := ''succeeded''\<rparr>)" "distinct (node_keys edited_plan)"
    "\<not> rolled_back sample_session edited_plan"
    by (simp_all add: edited_plan_def finished_write_def sample_edit_def sample_explore_def
        node_keys_def rolled_back_def sample_session_def)
  then show ?thesis using replan_keeps_completed_writes[OF run] run by blast
qed

end
