(* ===== verification/CollabTasks.thy ===== *)
theory CollabTasks
  imports Graphs Contracts
begin

text \<open>
  \<open>src/collaboration/contracts.py\<close> and \<open>dag.py\<close>: tasks, their validation and readiness, and the
  task graph with its additions, transitions and reload.  A task's free-form payload is kept as
  the two entries the code reads or writes (the pending cancellation and the last result) and
  the rest.  The clock is an argument.
\<close>

subsection \<open>Tasks\<close>

datatype task_status = TkPending | TkReady | TkRunning | TkBlocked | TkCompleted | TkFailed
  | TkCancelled | TkExpired

fun task_status_value :: "task_status \<Rightarrow> string" where
  "task_status_value TkPending = ''pending''"
| "task_status_value TkReady = ''ready''"
| "task_status_value TkRunning = ''running''"
| "task_status_value TkBlocked = ''blocked''"
| "task_status_value TkCompleted = ''completed''"
| "task_status_value TkFailed = ''failed''"
| "task_status_value TkCancelled = ''cancelled''"
| "task_status_value TkExpired = ''expired''"

definition all_task_statuses :: "task_status list" where
  "all_task_statuses = [TkPending, TkReady, TkRunning, TkBlocked, TkCompleted, TkFailed,
     TkCancelled, TkExpired]"

definition task_status_of :: "string \<Rightarrow> task_status res" where
  "task_status_of s =
     (case map_of (map (\<lambda>t. (task_status_value t, t)) all_task_statuses) s of
        Some t \<Rightarrow> ok t | None \<Rightarrow> raise (ValueError s))"

record agent_result =
  ar_task :: string
  ar_status :: task_status
  ar_output :: "(string, string) alist"
  ar_evidence :: "string list"
  ar_effects :: "string list"
  ar_error :: string
  ar_attempt :: int
  ar_produced :: real
  ar_consumed :: "string list"

text \<open>\<open>AgentResult(task_id, status=..., error=...)\<close>: the other fields at their defaults.\<close>

definition new_result :: "real \<Rightarrow> string \<Rightarrow> task_status \<Rightarrow> string \<Rightarrow> agent_result" where
  "new_result now k status error = \<lparr>ar_task = k, ar_status = status, ar_output = [], ar_evidence = [],
     ar_effects = [], ar_error = error, ar_attempt = 0, ar_produced = now, ar_consumed = []\<rparr>"

record agent_task =
  at_id :: string
  at_run :: string
  at_role :: string
  at_kind :: string
  at_phase :: string
  at_cancel :: string
  at_result :: "agent_result option"
  at_payload :: "(string, string) alist"
  at_inputs :: "string list"
  at_deps :: "string list"
  at_priority :: int
  at_deadline :: real
  at_budget :: "(string \<times> real) list"
  at_parent :: string
  at_attempt :: int
  at_max_attempts :: int
  at_status :: task_status
  at_version :: int
  at_owner :: string
  at_lease :: real
  at_retry :: real
  at_created :: real
  at_updated :: real

definition make_task :: "agent_task \<Rightarrow> agent_task" where
  "make_task t = t\<lparr>at_attempt := max 0 (at_attempt t),
     at_max_attempts := max 1 (if at_max_attempts t = 0 then 1 else at_max_attempts t),
     at_version := max 0 (at_version t),
     at_deps := dedup (filter (\<lambda>d. d \<noteq> []) (at_deps t)),
     at_inputs := dedup (filter (\<lambda>d. d \<noteq> []) (at_inputs t))\<rparr>"

definition task_terminal :: "agent_task \<Rightarrow> bool" where
  "task_terminal t \<longleftrightarrow> at_status t \<in> {TkCompleted, TkFailed, TkCancelled, TkExpired}"

definition task_errors :: "agent_task \<Rightarrow> string list" where
  "task_errors t =
    (if at_id t = [] then [''task_id is required''] else []) @
    (if at_role t = [] then [''role is required''] else []) @
    (if at_kind t = [] then [''kind is required''] else []) @
    (if at_attempt t > at_max_attempts t then [''attempt must be <= max_attempts''] else []) @
    (if at_deadline t \<noteq> 0 \<and> at_deadline t < at_created t
     then [''deadline_at must not precede created_at''] else []) @
    (if at_id t \<in> set (at_deps t) then [''task cannot depend on itself''] else [])"

definition task_ready :: "agent_task \<Rightarrow> string set \<Rightarrow> real \<Rightarrow> bool" where
  "task_ready t completed now \<longleftrightarrow>
     \<not> (task_terminal t \<or> at_status t \<notin> {TkPending, TkReady}) \<and>
     \<not> (at_deadline t \<noteq> 0 \<and> now \<ge> at_deadline t) \<and>
     \<not> (at_retry t \<noteq> 0 \<and> now < at_retry t) \<and>
     set (at_deps t) \<subseteq> completed"

datatype handoff_status = HoProposed | HoAccepted | HoRejected | HoCompleted | HoExpired

record handoff =
  ho_id :: string
  ho_task :: string
  ho_from :: string
  ho_to :: string
  ho_revision :: int
  ho_schema :: string
  ho_evidence :: "string list"
  ho_payload :: "(string, string) alist"
  ho_deadline :: real
  ho_status :: handoff_status
  ho_created :: real
  ho_accepted :: real

definition handoff_errors :: "handoff \<Rightarrow> string list" where
  "handoff_errors h =
    (if ho_id h = [] \<or> ho_task h = [] then [''handoff_id and task_id are required''] else []) @
    (if ho_from h = [] \<or> ho_to h = [] then [''from_role and to_role are required''] else []) @
    (if ho_from h = ho_to h then [''handoff roles must differ''] else []) @
    (if ho_schema h = [] then [''output_schema is required''] else [])"

subsection \<open>The task graph\<close>

type_synonym dag = "(string, agent_task) alist"

definition dag_deps :: "dag \<Rightarrow> string \<Rightarrow> string list" where
  "dag_deps g k = (case al_get g k of Some t \<Rightarrow> at_deps t | None \<Rightarrow> [])"

definition has_cycle :: "dag \<Rightarrow> bool" where
  "has_cycle g = cyclic_graph (al_keys g) (dag_deps g)"

definition dag_add :: "agent_task \<Rightarrow> dag \<Rightarrow> dag res" where
  "dag_add t g =
    (if task_errors t \<noteq> [] then raise (TaskDAGError (join_with ''; '' (task_errors t)))
     else if at_id t \<in> set (al_keys g) then raise (TaskDAGError (''duplicate task_id: '' @ at_id t))
     else if \<exists>d \<in> set (at_deps t). d \<notin> set (al_keys g) then raise (TaskDAGError ''unknown dependencies'')
     else if has_cycle (al_put (at_id t) t g) then raise (TaskDAGError ''task dependency cycle'')
     else ok (al_put (at_id t) t g))"

definition completed_ids :: "dag \<Rightarrow> string set" where
  "completed_ids g = set (map fst (filter (\<lambda>(k, t). at_status t = TkCompleted) g))"

definition task_key :: "agent_task \<Rightarrow> int \<times> real \<times> string" where
  "task_key t = (- at_priority t, at_created t, at_id t)"

definition dag_ready :: "real \<Rightarrow> dag \<Rightarrow> agent_task list" where
  "dag_ready now g =
     sort_key task_key (filter (\<lambda>t. task_ready t (completed_ids g) now) (map snd g))"

definition task_moves :: "task_status \<Rightarrow> task_status set" where
  "task_moves s =
    (case s of
       TkPending \<Rightarrow> {TkReady, TkRunning, TkBlocked, TkCancelled, TkExpired}
     | TkReady \<Rightarrow> {TkRunning, TkBlocked, TkCancelled, TkExpired}
     | TkRunning \<Rightarrow> {TkCompleted, TkFailed, TkCancelled, TkExpired, TkReady}
     | TkBlocked \<Rightarrow> {TkReady, TkCancelled}
     | _ \<Rightarrow> {})"

definition dag_transition :: "string \<Rightarrow> string \<Rightarrow> dag \<Rightarrow> (dag \<times> string) res" where
  "dag_transition k status g =
    (case al_get g k of
       None \<Rightarrow> raise (TaskDAGError (''unknown task_id: '' @ k))
     | Some t \<Rightarrow>
        bindR (task_status_of status) (\<lambda>target.
          if at_status t = target then ok (g, ''idempotent'')
          else if target \<notin> task_moves (at_status t)
          then raise (TaskDAGError (''invalid transition '' @ task_status_value (at_status t) @ ''->'' @
                 task_status_value target))
          else ok (al_put k (t\<lparr>at_status := target\<rparr>) g, ''accepted'')))"

text \<open>\<open>cancel_dependents\<close> asks each task's status for an attribute \<open>terminal\<close> that the
  enumeration does not have.\<close>

definition cancel_dependents :: "string \<Rightarrow> dag \<Rightarrow> string list res" where
  "cancel_dependents k g =
     (if g = [] then ok [] else raise (AttributeError ''TaskStatus has no attribute terminal''))"

definition dag_from_snapshot :: "agent_task list \<Rightarrow> dag res" where
  "dag_from_snapshot items =
    (let pending = map make_task items in
     bindR (foldR (\<lambda>t g. if task_errors t \<noteq> []
                       then raise (TaskDAGError (join_with ''; '' (task_errors t)))
                       else ok (al_put (at_id t) t g)) pending []) (\<lambda>g.
      if \<exists>t \<in> set (map snd g). \<exists>d \<in> set (at_deps t). d \<notin> set (al_keys g)
      then raise (TaskDAGError ''unknown dependencies in snapshot'')
      else if has_cycle g then raise (TaskDAGError ''task dependency cycle in snapshot'')
      else ok g))"

subsection \<open>Invariant\<close>

definition dag_inv :: "dag \<Rightarrow> bool" where
  "dag_inv g \<longleftrightarrow> distinct (al_keys g) \<and>
     (\<forall>k t. al_get g k = Some t \<longrightarrow> at_id t = k \<and> set (at_deps t) \<subseteq> set (al_keys g)) \<and>
     acyclic (dep_edges (al_keys g) (dag_deps g))"

lemma dag_deps_put:
  "dag_deps (al_put k t g) j = (if j = k then at_deps t else dag_deps g j)"
  by (simp add: dag_deps_def)

text \<open>A node nothing depends on closes no cycle, so the cycle check of an addition never fires.\<close>

lemma dag_add_acyclic:
  assumes "dag_inv g" "at_id t \<notin> set (al_keys g)" "set (at_deps t) \<subseteq> set (al_keys g)"
  shows "acyclic (dep_edges (al_keys (al_put (at_id t) t g)) (dag_deps (al_put (at_id t) t g)))"
proof -
  let ?k = "at_id t" and ?E = "dep_edges (al_keys g) (dag_deps g)"
  obtain rank where r: "ranked (al_keys g) (dag_deps g) (set (al_keys g)) rank"
    using accepted_ranked[of "al_keys g" "dag_deps g"] assms(1)
    by (auto simp: dag_inv_def cyclic_graph_iff)
  have sub: "set (dag_deps g j) \<subseteq> set (al_keys g)" for j
    using assms(1) by (cases "al_get g j") (auto simp: dag_inv_def dag_deps_def)
  let ?g' = "al_put ?k t g"
  have keys: "set (al_keys ?g') = insert ?k (set (al_keys g))" by simp
  have "ranked (al_keys ?g') (dag_deps ?g') (set (al_keys g)) rank"
    using r sub assms(2) by (auto simp: ranked_def dag_deps_put)
  from ranked_insert[OF this assms(2)] have
    "\<exists>rank'. ranked (al_keys ?g') (dag_deps ?g') (insert ?k (set (al_keys g))) rank'"
    using assms(3) by (auto simp: dag_deps_put)
  then show ?thesis using ranked_acyclic[of "al_keys ?g'" "dag_deps ?g'"] keys by auto
qed

lemma dag_add_ok_iff:
  assumes "dag_inv g"
  shows "dag_add t g = ok g' \<longleftrightarrow>
    task_errors t = [] \<and> at_id t \<notin> set (al_keys g) \<and> set (at_deps t) \<subseteq> set (al_keys g) \<and>
    g' = al_put (at_id t) t g"
  using dag_add_acyclic[OF assms, of t] by (auto simp: dag_add_def has_cycle_def cyclic_graph_iff)

lemma dag_add_inv:
  assumes "dag_inv g" "dag_add t g = ok g'"
  shows "dag_inv g'"
proof -
  have *: "at_id t \<notin> set (al_keys g)" "set (at_deps t) \<subseteq> set (al_keys g)" "g' = al_put (at_id t) t g"
    using assms by (simp_all add: dag_add_ok_iff)
  show ?thesis
    using assms(1) dag_add_acyclic[OF assms(1) *(1,2)] *(2)
    by (fastforce simp: dag_inv_def *(3))
qed

lemma dag_put_status_inv:
  assumes "dag_inv g" "al_get g k = Some t"
  shows "dag_inv (al_put k (t\<lparr>at_status := s\<rparr>) g)"
proof -
  have keys: "al_keys (al_put k (t\<lparr>at_status := s\<rparr>) g) = al_keys g"
    using al_get_Some_key[OF assms(2)] by (rule al_keys_put_old)
  have deps: "dag_deps (al_put k (t\<lparr>at_status := s\<rparr>) g) j = dag_deps g j" for j
    using assms(2) by (simp add: dag_deps_def)
  show ?thesis using assms by (auto simp: dag_inv_def keys deps cong: if_cong) (auto simp: dep_edges_def deps)
qed


datatype dag_op = DagAdd agent_task | DagMove string string

fun dag_step :: "dag_op \<Rightarrow> dag \<Rightarrow> dag" where
  "dag_step (DagAdd t) g = (case dag_add t g of Inr g' \<Rightarrow> g' | Inl e \<Rightarrow> g)"
| "dag_step (DagMove k s) g = (case dag_transition k s g of Inr (g', _) \<Rightarrow> g' | Inl e \<Rightarrow> g)"

lemma dag_transition_inv:
  "dag_inv g \<Longrightarrow> dag_transition k s g = ok (g', r) \<Longrightarrow> dag_inv g'"
  by (auto simp: dag_transition_def bindR_ok_iff dag_put_status_inv split: option.splits if_splits)

lemma dag_run_inv: "dag_inv g \<Longrightarrow> dag_inv (fold dag_step ops g)"
proof (induction ops arbitrary: g)
  case (Cons opn ops)
  have "dag_inv (dag_step opn g)"
    using Cons.prems by (cases opn) (auto split: sum.splits intro: dag_add_inv dag_transition_inv)
  then show ?case using Cons.IH by simp
qed simp

lemma dag_inv_empty: "dag_inv []"
  by (simp add: dag_inv_def al_keys_def dep_edges_def acyclic_def)

lemma dag_inv_task: "dag_inv g \<Longrightarrow> t \<in> set (map snd g) \<Longrightarrow> al_get g (at_id t) = Some t"
  by (fastforce simp: dag_inv_def al_keys_def)

subsection \<open>Properties\<close>

text \<open>However tasks are added and moved, the task graph stays well formed: identifiers are
  unique and match their entries, every dependency is present, and there is no cycle.  An
  addition is refused exactly for an invalid task, a duplicate identifier or an unknown
  dependency; the cycle error cannot occur.\<close>

theorem task_graph_invariant:
  "dag_inv (fold dag_step ops []) \<and>
   (is_ok (dag_add t (fold dag_step ops [])) \<longleftrightarrow>
      task_errors t = [] \<and> at_id t \<notin> set (al_keys (fold dag_step ops [])) \<and>
      set (at_deps t) \<subseteq> set (al_keys (fold dag_step ops [])))"
  using dag_run_inv[OF dag_inv_empty, of ops] by (simp add: is_ok_iff dag_add_ok_iff)

text \<open>Scheduling order and progress.  The ready list holds exactly the ready tasks of the
  graph, highest priority first, then oldest, then by identifier; and when every task is either
  completed or pending without deadline and backoff, and not all are completed, it is not empty.\<close>

theorem ready_sorted_and_live:
  assumes "dag_inv g"
  shows "sorted (map task_key (dag_ready now g)) \<and>
    (\<forall>t. t \<in> set (dag_ready now g) \<longleftrightarrow>
       al_get g (at_id t) = Some t \<and> task_ready t (completed_ids g) now) \<and>
    ((\<forall>t \<in> set (map snd g). at_status t = TkCompleted \<or>
        (at_status t = TkPending \<and> at_deadline t = 0 \<and> at_retry t = 0)) \<longrightarrow>
     (\<exists>t \<in> set (map snd g). at_status t \<noteq> TkCompleted) \<longrightarrow> dag_ready now g \<noteq> [])"
proof (intro conjI impI)
  show "sorted (map task_key (dag_ready now g))" by (simp add: dag_ready_def)
  have mem: "t \<in> set (map snd g) \<longleftrightarrow> al_get g (at_id t) = Some t" for t
    using dag_inv_task[OF assms] by (auto dest!: map_of_SomeD intro: image_eqI[rotated])
  then show "\<forall>t. t \<in> set (dag_ready now g) \<longleftrightarrow>
       al_get g (at_id t) = Some t \<and> task_ready t (completed_ids g) now"
    by (auto simp: dag_ready_def)
  assume all: "\<forall>t \<in> set (map snd g). at_status t = TkCompleted \<or>
        (at_status t = TkPending \<and> at_deadline t = 0 \<and> at_retry t = 0)"
    and some: "\<exists>t \<in> set (map snd g). at_status t \<noteq> TkCompleted"
  let ?P = "{k \<in> set (al_keys g). k \<notin> completed_ids g}"
  have fin: "k \<in> completed_ids g \<longleftrightarrow> (\<exists>t. al_get g k = Some t \<and> at_status t = TkCompleted)" for k
    using assms by (force simp: completed_ids_def dag_inv_def al_keys_def)
  from some obtain t where "t \<in> set (map snd g)" "at_status t \<noteq> TkCompleted" by blast
  then have "at_id t \<in> ?P" using dag_inv_task[OF assms] by (auto simp: fin al_get_Some_key)
  then have "?P \<noteq> {}" by blast
  moreover have "\<not> cyclic_graph (al_keys g) (dag_deps g)"
    using assms by (simp add: dag_inv_def cyclic_graph_iff)
  ultimately obtain k where k: "k \<in> ?P" "\<forall>d \<in> set (dag_deps g k) \<inter> set (al_keys g). d \<notin> ?P"
    using acyclic_source[of "al_keys g" "dag_deps g" ?P] by blast
  then obtain u where u: "al_get g k = Some u" "at_id u = k"
    using assms by (cases "al_get g k") (auto simp: al_get_None_key dag_inv_def)
  then have u_in: "u \<in> set (map snd g)" by (auto dest!: map_of_SomeD intro: image_eqI[rotated])
  have "set (at_deps u) \<subseteq> completed_ids g"
    using k u assms by (auto simp: dag_inv_def dag_deps_def)
  moreover have "at_status u \<noteq> TkCompleted" using k(1) u(1) by (simp add: fin)
  ultimately have "task_ready u (completed_ids g) now"
    using bspec[OF all u_in] by (auto simp: task_ready_def task_terminal_def)
  then have "u \<in> set (dag_ready now g)" using u_in by (simp add: dag_ready_def)
  then show "dag_ready now g \<noteq> []" by auto
qed

lemma put_all_tasks:
  assumes "distinct (map at_id ts)" "set (map at_id ts) \<inter> set (al_keys g) = {}"
    and "\<forall>t \<in> set ts. task_errors t = []"
  shows "foldR (\<lambda>t g. if task_errors t \<noteq> []
                       then raise (TaskDAGError (join_with ''; '' (task_errors t)))
                       else ok (al_put (at_id t) t g)) ts g = ok (g @ map (\<lambda>t. (at_id t, t)) ts)"
  using assms
proof (induction ts arbitrary: g)
  case (Cons t ts)
  then have "al_put (at_id t) t g = g @ [(at_id t, t)]" by (intro al_put_fresh) auto
  moreover have "set (map at_id ts) \<inter> set (al_keys (g @ [(at_id t, t)])) = {}"
    using Cons.prems by (auto simp: al_keys_def)
  ultimately show ?case using Cons.IH[of "g @ [(at_id t, t)]"] Cons.prems by simp
qed simp

text \<open>Reloading a well-formed graph from its snapshot gives the graph back, whatever order
  its tasks are listed in, provided the tasks are valid and normalised.\<close>

theorem snapshot_reload:
  assumes "dag_inv g" "\<forall>t \<in> set (map snd g). task_errors t = [] \<and> make_task t = t"
  shows "dag_from_snapshot (map snd g) = ok g"
proof -
  have pairs: "map (\<lambda>t. (at_id t, t)) (map snd g) = g"
  proof (rule nth_equalityI)
    fix i assume "i < length (map (\<lambda>t. (at_id t, t)) (map snd g))"
    then have i: "i < length g" by simp
    then have "al_get g (fst (g ! i)) = Some (snd (g ! i))"
      using assms(1) by (intro map_of_is_SomeI) (auto simp: dag_inv_def al_keys_def)
    then have "at_id (snd (g ! i)) = fst (g ! i)" using assms(1) by (auto simp: dag_inv_def)
    then show "map (\<lambda>t. (at_id t, t)) (map snd g) ! i = g ! i" using i by simp
  qed simp
  have ids: "map at_id (map snd g) = al_keys g"
    by (subst (2) pairs[symmetric]) (simp add: al_keys_def comp_def)
  have norm: "map make_task (map snd g) = map snd g"
    using assms(2) by (simp add: map_idI)
  have "foldR (\<lambda>t g. if task_errors t \<noteq> []
                       then raise (TaskDAGError (join_with ''; '' (task_errors t)))
                       else ok (al_put (at_id t) t g)) (map snd g) [] = ok ([] @ map (\<lambda>t. (at_id t, t)) (map snd g))"
  proof (rule put_all_tasks)
    show "distinct (map at_id (map snd g))"
      unfolding ids using assms(1) by (simp add: dag_inv_def)
  qed (use assms(2) in \<open>auto simp: al_keys_def\<close>)
  moreover have "\<forall>t \<in> set (map snd g). set (at_deps t) \<subseteq> set (al_keys g)"
    using assms(1) dag_inv_task[OF assms(1)] by (auto simp: dag_inv_def)
  moreover have "\<not> has_cycle g" using assms(1) by (simp add: dag_inv_def has_cycle_def cyclic_graph_iff)
  ultimately show ?thesis
    unfolding dag_from_snapshot_def Let_def norm pairs by auto
qed

text \<open>The status of a task has no \<open>terminal\<close>: on any graph with a task the call raises.\<close>

lemma cancel_dependents_raises:
  "g \<noteq> [] \<Longrightarrow> cancel_dependents k g = raise (AttributeError ''TaskStatus has no attribute terminal'')"
  by (simp add: cancel_dependents_def)

definition sample_task :: "string \<Rightarrow> string list \<Rightarrow> agent_task" where
  "sample_task k deps = \<lparr>at_id = k, at_run = ''r'', at_role = ''fixer'', at_kind = ''patch'',
     at_phase = [], at_cancel = [], at_result = None, at_payload = [], at_inputs = [], at_deps = deps, at_priority = 0,
     at_deadline = 0, at_budget = [], at_parent = [], at_attempt = 0, at_max_attempts = 1, at_status = TkPending,
     at_version = 0, at_owner = [], at_lease = 0, at_retry = 0, at_created = 1, at_updated = 1\<rparr>"

lemma sample_task_valid: "k \<noteq> [] \<Longrightarrow> k \<notin> set deps \<Longrightarrow> task_errors (sample_task k deps) = []"
  by (simp add: task_errors_def sample_task_def)

definition sample_dag :: dag where
  "sample_dag = fold dag_step [DagAdd (sample_task ''a'' []), DagAdd (sample_task ''b'' [''a''])] []"

lemma sample_dag_inv: "dag_inv sample_dag"
  unfolding sample_dag_def by (rule dag_run_inv[OF dag_inv_empty])

lemma sample_dag_eq:
  "sample_dag = [(''a'', sample_task ''a'' []), (''b'', sample_task ''b'' [''a''])]"
proof -
  have id: "at_id (sample_task k d) = k" "at_deps (sample_task k d) = d" for k d
    by (simp_all add: sample_task_def)
  have a: "dag_add (sample_task ''a'' []) [] = ok [(''a'', sample_task ''a'' [])]"
    by (simp add: dag_add_ok_iff dag_inv_empty sample_task_valid id al_keys_def)
  then have "dag_inv [(''a'', sample_task ''a'' [])]" using dag_add_inv[OF dag_inv_empty] by blast
  then have "dag_add (sample_task ''b'' [''a'']) [(''a'', sample_task ''a'' [])] =
      ok [(''a'', sample_task ''a'' []), (''b'', sample_task ''b'' [''a''])]"
    by (simp add: dag_add_ok_iff sample_task_valid id al_keys_def)
  with a show ?thesis by (simp add: sample_dag_def)
qed

theorem ready_sorted_and_live_witness: "dag_ready 5 sample_dag \<noteq> []"
proof -
  have "dag_inv sample_dag" by (rule sample_dag_inv)
  from ready_sorted_and_live[OF this, of 5] show ?thesis
    by (simp add: sample_dag_eq sample_task_def)
qed

theorem snapshot_reload_witness: "dag_from_snapshot (map snd sample_dag) = ok sample_dag"
proof (rule snapshot_reload)
  show "dag_inv sample_dag" by (rule sample_dag_inv)
  show "\<forall>t \<in> set (map snd sample_dag). task_errors t = [] \<and> make_task t = t"
    by (simp add: sample_dag_eq sample_task_valid) (simp add: make_task_def sample_task_def dedup_def)
qed

end
