(* ===== verification/CollabBudget.thy ===== *)
theory CollabBudget
  imports Contracts
begin

text \<open>
  \<open>src/collaboration/budget.py\<close>: the reservation ledger of the task scheduler.  A zero limit
  means unlimited.  The ledger is an instance of the capped ledger contract, with the number of
  open reservations as one more quantity under a cap.
\<close>

datatype resource = Tokens | Tools | WallSeconds

fun resource_name :: "resource \<Rightarrow> string" where
  "resource_name Tokens = ''tokens''"
| "resource_name Tools = ''tools''"
| "resource_name WallSeconds = ''wall_seconds''"

definition resources :: "resource list" where
  "resources = [Tokens, Tools, WallSeconds]"

type_synonym costs = "(string, real) alist"

definition cost_of :: "costs \<Rightarrow> resource \<Rightarrow> real" where
  "cost_of costs r = (case al_get costs (resource_name r) of Some c \<Rightarrow> c | None \<Rightarrow> 0)"

record budget_limits =
  bl_limit :: "resource \<Rightarrow> real"
  bl_concurrency :: int

record budget_ledger =
  bg_limits :: budget_limits
  bg_used :: "resource \<Rightarrow> real"
  bg_active :: int
  bg_reservations :: "(string, string \<times> (resource \<Rightarrow> real)) alist"

definition new_ledger :: "budget_limits \<Rightarrow> budget_ledger" where
  "new_ledger limits = \<lparr>bg_limits = limits, bg_used = \<lambda>_. 0, bg_active = 0, bg_reservations = []\<rparr>"

definition exhausted :: "budget_ledger \<Rightarrow> costs \<Rightarrow> resource \<Rightarrow> bool" where
  "exhausted l costs r \<longleftrightarrow>
     bl_limit (bg_limits l) r > 0 \<and> bg_used l r + cost_of costs r > bl_limit (bg_limits l) r"

text \<open>What is left of every quantity under a limit; no limit is \<open>None\<close>.\<close>

datatype quota = Amount resource | Slots

fun ledger_remaining :: "budget_ledger \<Rightarrow> quota \<Rightarrow> real option" where
  "ledger_remaining l (Amount r) =
     (if bl_limit (bg_limits l) r > 0 then Some (max 0 (bl_limit (bg_limits l) r - bg_used l r)) else None)"
| "ledger_remaining l Slots =
     (if bl_concurrency (bg_limits l) > 0
      then Some (of_int (max 0 (bl_concurrency (bg_limits l) - bg_active l))) else None)"

record budget_decision =
  bd_allowed :: bool
  bd_reason :: string
  bd_reservation :: string
  bd_remaining :: "quota \<Rightarrow> real option"

definition decide :: "bool \<Rightarrow> string \<Rightarrow> string \<Rightarrow> budget_ledger \<Rightarrow> budget_decision" where
  "decide allowed reason rid l = \<lparr>bd_allowed = allowed, bd_reason = reason, bd_reservation = rid,
     bd_remaining = ledger_remaining l\<rparr>"

definition ledger_reserve ::
  "string \<Rightarrow> costs \<Rightarrow> string \<Rightarrow> budget_ledger \<Rightarrow> budget_decision \<times> budget_ledger" where
  "ledger_reserve role costs rid l =
    (if rid \<in> set (al_keys (bg_reservations l))
     then (decide True ''idempotent'' rid l, l)
     else case filter (exhausted l costs) resources of
       r # _ \<Rightarrow> (decide False (resource_name r @ ''_budget_exhausted'') [] l, l)
     | [] \<Rightarrow>
        if bl_concurrency (bg_limits l) > 0 \<and> bg_active l \<ge> bl_concurrency (bg_limits l)
        then (decide False ''concurrency_limit'' [] l, l)
        else
         (let normalized = (\<lambda>r. max 0 (cost_of costs r));
              l = l\<lparr>bg_used := \<lambda>r. bg_used l r + normalized r, bg_active := bg_active l + 1,
                    bg_reservations := al_put rid (role, normalized) (bg_reservations l)\<rparr> in
          (decide True ''reserved'' rid l, l)))"

definition ledger_release ::
  "string \<Rightarrow> costs option \<Rightarrow> budget_ledger \<Rightarrow> bool \<times> budget_ledger" where
  "ledger_release rid actual_costs l =
    (case al_get (bg_reservations l) rid of
       None \<Rightarrow> (False, l)
     | Some (role, reserved) \<Rightarrow>
        (let actual = (case actual_costs of
               Some (c # cs) \<Rightarrow> cost_of (c # cs)
             | _ \<Rightarrow> reserved) in
         (True, l\<lparr>bg_used := \<lambda>r. max 0 (bg_used l r - reserved r + max 0 (actual r)),
                  bg_active := max 0 (bg_active l - 1),
                  bg_reservations := al_del rid (bg_reservations l)\<rparr>)))"

subsection \<open>The ledger under its caps\<close>

fun quota_used :: "budget_ledger \<Rightarrow> quota \<Rightarrow> real" where
  "quota_used l (Amount r) = bg_used l r"
| "quota_used l Slots = of_int (bg_active l)"

fun quota_cap :: "budget_ledger \<Rightarrow> quota \<Rightarrow> real option" where
  "quota_cap l (Amount r) = (if bl_limit (bg_limits l) r > 0 then Some (bl_limit (bg_limits l) r) else None)"
| "quota_cap l Slots =
     (if bl_concurrency (bg_limits l) > 0 then Some (of_int (bl_concurrency (bg_limits l))) else None)"

datatype reserve_request = ReserveRequest string costs string

fun reserve_granted :: "reserve_request \<Rightarrow> budget_ledger \<Rightarrow> bool" where
  "reserve_granted (ReserveRequest role costs rid) l = bd_allowed (fst (ledger_reserve role costs rid l))"

fun after_reserve :: "reserve_request \<Rightarrow> budget_ledger \<Rightarrow> budget_ledger" where
  "after_reserve (ReserveRequest role costs rid) l = snd (ledger_reserve role costs rid l)"

lemma reserve_cases:
  obtains (same) "after_reserve (ReserveRequest role costs rid) l = l"
  | (taken) "reserve_granted (ReserveRequest role costs rid) l" "rid \<notin> set (al_keys (bg_reservations l))"
      "\<forall>r. \<not> exhausted l costs r"
      "bl_concurrency (bg_limits l) > 0 \<longrightarrow> bg_active l < bl_concurrency (bg_limits l)"
      "after_reserve (ReserveRequest role costs rid) l =
         l\<lparr>bg_used := \<lambda>r. bg_used l r + max 0 (cost_of costs r), bg_active := bg_active l + 1,
           bg_reservations := al_put rid (role, \<lambda>r. max 0 (cost_of costs r)) (bg_reservations l)\<rparr>"
proof -
  have all: "filter (exhausted l costs) resources = [] \<longleftrightarrow> (\<forall>r. \<not> exhausted l costs r)"
  proof
    assume e: "filter (exhausted l costs) resources = []"
    show "\<forall>r. \<not> exhausted l costs r"
    proof
      fix r show "\<not> exhausted l costs r"
        using e by (cases r) (auto simp: resources_def split: if_splits)
    qed
  qed simp
  show thesis
  proof (cases "rid \<in> set (al_keys (bg_reservations l)) \<or> filter (exhausted l costs) resources \<noteq> [] \<or>
      (bl_concurrency (bg_limits l) > 0 \<and> bg_active l \<ge> bl_concurrency (bg_limits l))")
    case True
    then show thesis using same by (auto simp: ledger_reserve_def decide_def split: list.splits)
  next
    case False
    then have none: "filter (exhausted l costs) resources = []" by blast
    show thesis
      using False none all by (intro taken) (auto simp: ledger_reserve_def decide_def Let_def)
  qed
qed

lemma refused_same: "\<not> reserve_granted q l \<Longrightarrow> after_reserve q l = l"
  by (cases q) (auto simp: ledger_reserve_def Let_def decide_def split: if_splits list.splits)

interpretation role_budget: capped_ledger quota_used quota_cap reserve_granted after_reserve
proof
  fix q :: reserve_request and l :: budget_ledger and r and c
  obtain role costs rid where q: "q = ReserveRequest role costs rid" by (cases q)
  show "\<not> reserve_granted q l \<Longrightarrow> quota_used (after_reserve q l) r = quota_used l r"
    by (simp add: refused_same)
  show "quota_used l r \<le> quota_used (after_reserve q l) r"
    unfolding q by (cases rule: reserve_cases[of role costs rid l]) (cases r; simp)+
  show "quota_used (after_reserve q l) r \<le> c"
    if "reserve_granted q l" "quota_cap l r = Some c" "quota_used l r \<le> c"
    unfolding q
  proof (cases rule: reserve_cases[of role costs rid l])
    case taken
    show "quota_used (after_reserve (ReserveRequest role costs rid) l) r \<le> c"
    proof (cases r)
      case (Amount a)
      then show ?thesis
        using that(2,3) taken(3) unfolding taken(5) by (auto simp: exhausted_def max_def split: if_splits)
    next
      case Slots
      then show ?thesis using that(2) taken(4) unfolding taken(5) by (auto split: if_splits)
    qed
  qed (use that in auto)
  show "quota_cap (after_reserve q l) r = quota_cap l r"
    unfolding q by (cases rule: reserve_cases[of role costs rid l]) (cases r; simp)+
qed

subsection \<open>Settling reservations\<close>

datatype ledger_op = Reserve string costs string | Release string "costs option"

fun ledger_step :: "ledger_op \<Rightarrow> budget_ledger \<Rightarrow> budget_ledger" where
  "ledger_step (Reserve role costs rid) l = snd (ledger_reserve role costs rid l)"
| "ledger_step (Release rid actual) l = snd (ledger_release rid actual l)"

definition open_cost :: "budget_ledger \<Rightarrow> resource \<Rightarrow> real" where
  "open_cost l r = sum_list (map (\<lambda>(_, _, c). c r) (bg_reservations l))"

definition ledger_inv :: "budget_ledger \<Rightarrow> bool" where
  "ledger_inv l \<longleftrightarrow>
     distinct (al_keys (bg_reservations l)) \<and> bg_active l = int (length (bg_reservations l)) \<and>
     (\<forall>(_, _, c) \<in> set (bg_reservations l). \<forall>r. 0 \<le> c r) \<and>
     (\<forall>r. open_cost l r \<le> bg_used l r)"

lemma del_sum:
  fixes m :: "(string, string \<times> (resource \<Rightarrow> real)) alist"
  assumes "distinct (al_keys m)" "al_get m k = Some (role, c)"
  shows "sum_list (map (\<lambda>(_, _, c). c r) (al_del k m)) = sum_list (map (\<lambda>(_, _, c). c r) m) - c r"
    and "length (al_del k m) = length m - 1" "m \<noteq> []"
proof -
  have id: "al_del k m = m" if "k \<notin> set (al_keys m)" for m :: "(string, string \<times> (resource \<Rightarrow> real)) alist"
    using that by (auto simp: al_del_def al_keys_def intro!: filter_True)
  show "sum_list (map (\<lambda>(_, _, c). c r) (al_del k m)) = sum_list (map (\<lambda>(_, _, c). c r) m) - c r"
    using assms
  proof (induction m)
    case (Cons a m)
    obtain k' x where a: "a = (k', x)" by (cases a)
    show ?case using Cons id[of m] by (auto simp: a al_keys_def al_del_def split: if_splits)
  qed simp
  show "length (al_del k m) = length m - 1" using assms
  proof (induction m)
    case (Cons a m)
    obtain k' x where a: "a = (k', x)" by (cases a)
    have "m \<noteq> []" if "k' \<noteq> k" using that Cons.prems(2) by (auto simp: a)
    then show ?case
      using Cons id[of m] by (auto simp: a al_keys_def al_del_def Suc_diff_Suc split: if_splits)
  qed simp
  show "m \<noteq> []" using assms(2) by auto
qed

lemma open_reservation_covered:
  assumes "ledger_inv l" "al_get (bg_reservations l) rid = Some (role, c)"
  shows "c r \<le> bg_used l r" "0 \<le> c r"
proof -
  have mem: "(rid, role, c) \<in> set (bg_reservations l)" using assms(2) by (rule map_of_SomeD)
  then show "0 \<le> c r" using assms(1) by (fastforce simp: ledger_inv_def)
  have "c r \<le> open_cost l r"
    unfolding open_cost_def using assms(1) mem
    by (intro member_le_sum_list) (force simp: ledger_inv_def)+
  also have "\<dots> \<le> bg_used l r" using assms(1) by (simp add: ledger_inv_def)
  finally show "c r \<le> bg_used l r" .
qed

lemma release_open:
  assumes "ledger_inv l" "al_get (bg_reservations l) rid = Some (role, c)"
  shows "ledger_release rid actual l =
    (True, l\<lparr>bg_used := \<lambda>r. bg_used l r - c r +
               max 0 (case actual of Some (a # as) \<Rightarrow> cost_of (a # as) r | _ \<Rightarrow> c r),
             bg_active := bg_active l - 1, bg_reservations := al_del rid (bg_reservations l)\<rparr>)"
proof -
  have act: "1 \<le> bg_active l" using assms by (cases "bg_reservations l") (auto simp: ledger_inv_def)
  have pos: "0 \<le> bg_used l r - c r + max 0 x" for r x
    using open_reservation_covered[OF assms, of r] by (auto simp: max_def)
  have "max 0 (bg_used l r - c r + max 0 x) = bg_used l r - c r + max 0 x" for r x
    using pos by (simp add: max_absorb2)
  then show ?thesis
    using act by (auto simp: ledger_release_def assms(2) Let_def max_absorb2 split: option.splits list.splits)
qed

lemma ledger_step_inv: "ledger_inv l \<Longrightarrow> ledger_inv (ledger_step opn l)"
proof (cases opn)
  case (Reserve role costs rid)
  assume inv: "ledger_inv l"
  show ?thesis
  proof (cases rule: reserve_cases[of role costs rid l])
    case same
    then show ?thesis using inv Reserve by simp
  next
    case taken
    then have l': "ledger_step opn l = l\<lparr>bg_used := \<lambda>r. bg_used l r + max 0 (cost_of costs r),
        bg_active := bg_active l + 1,
        bg_reservations := bg_reservations l @ [(rid, role, \<lambda>r. max 0 (cost_of costs r))]\<rparr>"
      using Reserve by (simp add: al_put_fresh)
    show ?thesis
      using inv taken(2) unfolding l' by (auto simp: ledger_inv_def open_cost_def al_keys_def)
  qed
next
  case (Release rid actual)
  assume inv: "ledger_inv l"
  show ?thesis
  proof (cases "al_get (bg_reservations l) rid")
    case None
    then show ?thesis using inv Release by (simp add: ledger_release_def)
  next
    case (Some rc)
    obtain role c where rc: "al_get (bg_reservations l) rid = Some (role, c)" using Some by (cases rc) auto
    have dist: "distinct (al_keys (bg_reservations l))" using inv by (simp add: ledger_inv_def)
    note del = del_sum[OF dist rc]
    have sub: "set (al_del rid (bg_reservations l)) \<subseteq> set (bg_reservations l)" by (auto simp: al_del_def)
    have "open_cost l r - c r \<le> bg_used l r - c r + max 0 x" for r x
      using inv by (auto simp: ledger_inv_def max_def intro: add_increasing2)
    moreover have "\<forall>(_, _, c) \<in> set (al_del rid (bg_reservations l)). \<forall>r. 0 \<le> c r"
      using inv sub unfolding ledger_inv_def by blast
    ultimately show ?thesis
      using inv del Release
      by (auto simp: release_open[OF inv rc] ledger_inv_def open_cost_def of_nat_diff Suc_le_eq)
  qed
qed


subsection \<open>Properties\<close>

text \<open>The role budget is never overrun: from an empty ledger, whatever reservations are asked
  for, the reserved tokens, tools and seconds stay within every positive limit, and no more
  reservations are open than the concurrency limit allows.\<close>

theorem reservations_within_limits:
  assumes "0 < bl_limit limits r" "0 < bl_concurrency limits"
  shows "bg_used (fold after_reserve requests (new_ledger limits)) r \<le> bl_limit limits r \<and>
    bg_active (fold after_reserve requests (new_ledger limits)) \<le> bl_concurrency limits"
  using role_budget.run_within_cap[of "new_ledger limits" "Amount r" "bl_limit limits r" requests]
    role_budget.run_within_cap[of "new_ledger limits" Slots "of_int (bl_concurrency limits)" requests]
    assms by (simp add: new_ledger_def)

text \<open>Settling is exact.  After any sequence of reservations and releases, releasing an open
  reservation replaces what it reserved by what it actually cost (the reserved amount when no
  cost is reported, and also when an empty report is), closes one slot, and no clipping at zero
  occurs; releasing an unknown reservation changes nothing.\<close>

theorem release_settles_exactly:
  "let l = fold ledger_step ops (new_ledger limits) in case al_get (bg_reservations l) rid of
      None \<Rightarrow> ledger_release rid actual l = (False, l)
    | Some (role, c) \<Rightarrow>
        (\<forall>r. bg_used (snd (ledger_release rid actual l)) r = bg_used l r - c r +
           max 0 (case actual of Some (a # as) \<Rightarrow> cost_of (a # as) r | _ \<Rightarrow> c r)) \<and>
        bg_active (snd (ledger_release rid actual l)) = bg_active l - 1 \<and>
        al_get (bg_reservations (snd (ledger_release rid actual l))) rid = None \<and>
        bg_active l = int (length (bg_reservations l))"
proof -
  define l where "l = fold ledger_step ops (new_ledger limits)"
  have "ledger_inv (new_ledger limits)"
    by (simp add: ledger_inv_def new_ledger_def open_cost_def al_keys_def)
  then have inv: "ledger_inv l"
    unfolding l_def by (induction ops rule: rev_induct) (auto intro: ledger_step_inv)
  have "(\<forall>r. bg_used (snd (ledger_release rid actual l)) r = bg_used l r - c r +
           max 0 (case actual of Some (a # as) \<Rightarrow> cost_of (a # as) r | _ \<Rightarrow> c r)) \<and>
        bg_active (snd (ledger_release rid actual l)) = bg_active l - 1 \<and>
        al_get (bg_reservations (snd (ledger_release rid actual l))) rid = None \<and>
        bg_active l = int (length (bg_reservations l))"
    if rc: "al_get (bg_reservations l) rid = Some (role, c)" for role c
    using inv unfolding release_open[OF inv rc] by (simp add: ledger_inv_def)
  moreover have "ledger_release rid actual l = (False, l)" if "al_get (bg_reservations l) rid = None"
    using that by (simp add: ledger_release_def)
  ultimately show ?thesis
    unfolding l_def[symmetric] Let_def by (simp split: option.splits)
qed

definition one_limit :: budget_limits where
  "one_limit = \<lparr>bl_limit = \<lambda>_. 10, bl_concurrency = 2\<rparr>"

theorem reservations_within_limits_witness:
  "bg_used (fold after_reserve [ReserveRequest ''fixer'' [(''tokens'', 7)] ''a'',
      ReserveRequest ''fixer'' [(''tokens'', 7)] ''b''] (new_ledger one_limit)) Tokens
    \<le> bl_limit one_limit Tokens"
  by (rule conjunct1[OF reservations_within_limits]) (simp_all add: one_limit_def)

end
