(* ===== verification/CollabStore.thy ===== *)
theory CollabStore
  imports CollabTasks
begin

text \<open>
  \<open>src/collaboration/store.py\<close> and the records of \<open>effects.py\<close>: the durable task records with their leases and
  compare-and-swap updates, the event log, and the effect receipts the idempotency ledger writes
  through.  A table is an association list, each method one transaction; \<open>heartbeat\<close> and
  \<open>complete_task\<close> read in one transaction and write in another, so both halves are definitions.
  An operation reads the clock once.
\<close>

subsection \<open>Records\<close>

record task_row =
  rw_task :: agent_task
  rw_version :: int
  rw_owner :: string
  rw_lease :: real
  rw_priority :: int
  rw_updated :: real

datatype effect_status = EfPrepared | EfCommitted | EfUncertain | EfRevalidate | EfCompensated

record effect_receipt =
  er_id :: string
  er_action :: string
  er_key :: string
  er_status :: effect_status
  er_task :: string
  er_actor :: string
  er_hash :: string
  er_output :: string
  er_error :: string
  er_created :: real
  er_updated :: real

record collab_event =
  ce_run :: string
  ce_object :: string
  ce_type :: string

record collab_store =
  cs_tasks :: "(string, task_row) alist"
  cs_handoffs :: "(string, handoff) alist"
  cs_receipts :: "(string, effect_receipt) alist"
  cs_events :: "collab_event list"

definition add_event :: "string \<Rightarrow> string \<Rightarrow> string \<Rightarrow> collab_store \<Rightarrow> collab_store" where
  "add_event run obj kind st =
     st\<lparr>cs_events := cs_events st @ [\<lparr>ce_run = run, ce_object = obj, ce_type = kind\<rparr>]\<rparr>"

definition put_row :: "string \<Rightarrow> task_row \<Rightarrow> collab_store \<Rightarrow> collab_store" where
  "put_row k r st = st\<lparr>cs_tasks := al_put k r (cs_tasks st)\<rparr>"

abbreviation row :: "collab_store \<Rightarrow> string \<Rightarrow> task_row option" where
  "row st k \<equiv> al_get (cs_tasks st) k"

subsection \<open>Tasks\<close>

definition create_task :: "real \<Rightarrow> agent_task \<Rightarrow> collab_store \<Rightarrow> (agent_task \<times> collab_store) res" where
  "create_task now task st =
    (if task_errors task \<noteq> [] then raise (ValueError (join_with ''; '' (task_errors task)))
     else
      (let task = task\<lparr>at_created := (if at_created task \<noteq> 0 then at_created task else now),
                       at_updated := now\<rparr> in
       case row st (at_id task) of
         Some r \<Rightarrow> ok (make_task (rw_task r), st)
       | None \<Rightarrow>
          (let task = task\<lparr>at_version := 1\<rparr> in
           ok (task, add_event (at_run task) (at_id task) ''task_created''
             (put_row (at_id task) \<lparr>rw_task = task, rw_version = 1, rw_owner = [], rw_lease = 0,
                rw_priority = at_priority task, rw_updated = now\<rparr> st)))))"

definition get_task :: "string \<Rightarrow> collab_store \<Rightarrow> agent_task option" where
  "get_task k st = map_option (\<lambda>r. make_task (rw_task r)) (row st k)"

definition list_tasks :: "string \<Rightarrow> collab_store \<Rightarrow> agent_task list" where
  "list_tasks run st =
     map (\<lambda>r. make_task (rw_task r))
       (sort_key (\<lambda>r. (- rw_priority r, rw_updated r, at_id (rw_task r)))
         (filter (\<lambda>r. run = [] \<or> at_run (rw_task r) = run) (map snd (cs_tasks st))))"

definition claim_error :: "real \<Rightarrow> string \<Rightarrow> task_row \<Rightarrow> agent_task \<Rightarrow> string option" where
  "claim_error now worker r task =
    (if at_cancel task \<noteq> [] then Some ''task cancellation is pending''
     else if at_status task \<notin> {TkPending, TkReady, TkRunning} then Some ''task is not claimable''
     else if at_retry task \<noteq> 0 \<and> now < at_retry task then Some ''task retry backoff is active''
     else if at_deadline task \<noteq> 0 \<and> now \<ge> at_deadline task then Some ''task deadline has expired''
     else if at_status task = TkRunning \<and> \<not> rw_lease r \<le> now \<and> rw_owner r \<noteq> worker
       then Some ''task lease is held by another worker''
     else None)"

definition claim_task ::
  "real \<Rightarrow> string \<Rightarrow> string \<Rightarrow> real \<Rightarrow> collab_store \<Rightarrow> (agent_task \<times> collab_store) res" where
  "claim_task now k worker lease_seconds st =
    (case row st k of
       None \<Rightarrow> raise (KeyError k)
     | Some r \<Rightarrow>
        (let task = make_task (rw_task r) in
         case claim_error now worker r task of
           Some msg \<Rightarrow> raise (LeaseConflictError msg)
         | None \<Rightarrow>
            (let task = task\<lparr>at_status := TkRunning, at_attempt := at_attempt task + 1,
                   at_owner := worker, at_lease := now + max (1/10) lease_seconds,
                   at_version := rw_version r + 1, at_updated := now\<rparr> in
             ok (task, add_event (at_run task) (at_id task) ''task_claimed''
               (put_row k (r\<lparr>rw_task := task, rw_version := at_version task, rw_owner := worker,
                            rw_lease := at_lease task, rw_updated := now\<rparr>) st)))))"

definition request_cancel_task ::
  "real \<Rightarrow> string \<Rightarrow> string \<Rightarrow> collab_store \<Rightarrow> agent_task option \<times> collab_store" where
  "request_cancel_task now k request_id st =
    (case row st k of
       None \<Rightarrow> (None, st)
     | Some r \<Rightarrow>
        (let task = make_task (rw_task r) in
         if at_cancel task \<noteq> [] \<or> at_status task \<in> {TkCompleted, TkFailed, TkCancelled}
         then (Some task, st)
         else
          (let task = task\<lparr>at_cancel := request_id\<rparr>;
               task = (if at_status task \<in> {TkPending, TkReady} then task\<lparr>at_status := TkCancelled\<rparr> else task);
               task = task\<lparr>at_updated := now, at_version := at_version task + 1\<rparr> in
           (Some task, add_event (at_run task) (at_id task) ''task_cancel_requested''
             (put_row k (r\<lparr>rw_task := task, rw_version := at_version task, rw_updated := now\<rparr>) st)))))"

definition owned_task :: "real \<Rightarrow> string \<Rightarrow> string \<Rightarrow> collab_store \<Rightarrow> agent_task res" where
  "owned_task now k worker st =
    (case get_task k st of
       None \<Rightarrow> raise (KeyError k)
     | Some task \<Rightarrow>
        if at_status task \<noteq> TkRunning \<or> at_owner task \<noteq> worker
        then raise (LeaseConflictError ''worker does not own task lease'')
        else if at_lease task \<noteq> 0 \<and> at_lease task \<le> now
        then raise (LeaseConflictError ''task lease has expired'')
        else ok task)"

definition replace_task :: "agent_task \<Rightarrow> string \<Rightarrow> string \<Rightarrow> collab_store \<Rightarrow> (agent_task \<times> collab_store) res" where
  "replace_task task worker event_type st =
    (case row st (at_id task) of
       None \<Rightarrow> raise (LeaseConflictError ''task changed while updating'')
     | Some r \<Rightarrow>
        if rw_version r \<noteq> at_version task \<or> (worker \<noteq> [] \<and> rw_owner r \<noteq> worker)
        then raise (LeaseConflictError ''task changed while updating'')
        else if rw_owner r \<noteq> worker
        then raise (LeaseConflictError ''task changed while updating'')
        else
         (let task' = task\<lparr>at_version := rw_version r + 1\<rparr> in
          ok (task', add_event (at_run task') (at_id task') event_type
            (put_row (at_id task') (r\<lparr>rw_task := task', rw_version := at_version task',
               rw_owner := at_owner task', rw_lease := at_lease task', rw_updated := at_updated task'\<rparr>) st))))"

definition heartbeat_update :: "real \<Rightarrow> string \<Rightarrow> string \<Rightarrow> real \<Rightarrow> collab_store \<Rightarrow> agent_task res" where
  "heartbeat_update now k worker lease_seconds st =
     bindR (owned_task now k worker st) (\<lambda>task.
       ok (task\<lparr>at_lease := now + max (1/10) lease_seconds, at_updated := now\<rparr>))"

definition heartbeat ::
  "real \<Rightarrow> string \<Rightarrow> string \<Rightarrow> real \<Rightarrow> collab_store \<Rightarrow> (agent_task \<times> collab_store) res" where
  "heartbeat now k worker lease_seconds st =
     bindR (heartbeat_update now k worker lease_seconds st) (\<lambda>task.
       replace_task task worker ''task_heartbeat'' st)"

definition retry_delay :: "int \<Rightarrow> real" where
  "retry_delay attempt = min 60 (2 ^ nat (max 0 (attempt - 1)))"

definition completion_update :: "real \<Rightarrow> string \<Rightarrow> agent_result \<Rightarrow> string \<Rightarrow> collab_store \<Rightarrow> agent_task res" where
  "completion_update now k result worker st =
     bindR (owned_task now k worker st) (\<lambda>task.
       if ar_task result \<noteq> k then raise (ValueError ''result task_id mismatch'')
       else
        (let retry = (ar_status result = TkFailed \<and> at_attempt task < at_max_attempts task) in
         ok (task\<lparr>at_status := (if retry then TkReady else ar_status result),
                  at_retry := (if retry then now + retry_delay (at_attempt task) else 0),
                  at_result := Some result, at_owner := [], at_lease := 0, at_updated := now\<rparr>)))"

definition complete_task ::
  "real \<Rightarrow> string \<Rightarrow> agent_result \<Rightarrow> string \<Rightarrow> collab_store \<Rightarrow> (agent_task \<times> collab_store) res" where
  "complete_task now k result worker st =
     bindR (completion_update now k result worker st) (\<lambda>task.
       replace_task task worker ''task_completed'' st)"

subsection \<open>Handoffs and receipts\<close>

definition save_handoff :: "handoff \<Rightarrow> collab_store \<Rightarrow> collab_store res" where
  "save_handoff h st =
    (if handoff_errors h \<noteq> [] then raise (ValueError (join_with ''; '' (handoff_errors h)))
     else ok (add_event [] (ho_id h) ''handoff_updated''
       (st\<lparr>cs_handoffs := al_put (ho_id h) h (cs_handoffs st)\<rparr>)))"

definition get_handoff :: "string \<Rightarrow> collab_store \<Rightarrow> handoff option" where
  "get_handoff k st = al_get (cs_handoffs st) k"

definition save_receipt :: "effect_receipt \<Rightarrow> collab_store \<Rightarrow> collab_store" where
  "save_receipt r st = add_event [] (er_id r) ''effect_receipt_updated''
     (st\<lparr>cs_receipts := al_put (er_key r) r (cs_receipts st)\<rparr>)"

definition get_receipt :: "collab_store \<Rightarrow> string \<Rightarrow> effect_receipt option" where
  "get_receipt st k = al_get (cs_receipts st) k"

interpretation receipts: receipt_store get_receipt save_receipt er_key
  by unfold_locales (simp add: get_receipt_def save_receipt_def add_event_def)

definition store_events :: "string \<Rightarrow> string \<Rightarrow> collab_store \<Rightarrow> collab_event list" where
  "store_events run obj st =
     filter (\<lambda>e. (run = [] \<or> ce_run e = run) \<and> (obj = [] \<or> ce_object e = obj)) (cs_events st)"


subsection \<open>Runs of the store\<close>

datatype store_op =
    OpCreate real agent_task
  | OpClaim real string string real
  | OpCancel real string string
  | OpHeartbeat real string string real
  | OpComplete real string agent_result string

fun store_step :: "store_op \<Rightarrow> collab_store \<Rightarrow> collab_store" where
  "store_step (OpCreate now t) st = keep_on_error (create_task now (make_task t) st) st"
| "store_step (OpClaim now k w secs) st = keep_on_error (claim_task now k w secs st) st"
| "store_step (OpCancel now k req) st = snd (request_cancel_task now k req st)"
| "store_step (OpHeartbeat now k w secs) st = keep_on_error (heartbeat now k w secs st) st"
| "store_step (OpComplete now k result w) st = keep_on_error (complete_task now k result w st) st"

definition normal_task :: "agent_task \<Rightarrow> bool" where
  "normal_task t \<longleftrightarrow> 0 \<le> at_attempt t \<and> 1 \<le> at_max_attempts t \<and> 0 \<le> at_version t \<and>
     distinct (at_deps t) \<and> [] \<notin> set (at_deps t) \<and> distinct (at_inputs t) \<and> [] \<notin> set (at_inputs t)"

lemma normal_make [simp]: "normal_task (make_task t)"
  by (auto simp: normal_task_def make_task_def)

lemma make_normal [simp]: "normal_task t \<Longrightarrow> make_task t = t"
proof -
  assume t: "normal_task t"
  then have "filter (\<lambda>d. d \<noteq> []) (at_deps t) = at_deps t" "filter (\<lambda>d. d \<noteq> []) (at_inputs t) = at_inputs t"
    by (auto simp: normal_task_def intro!: filter_True)
  then show ?thesis using t by (simp add: normal_task_def make_task_def max_absorb2)
qed

definition store_inv :: "collab_store \<Rightarrow> bool" where
  "store_inv st \<longleftrightarrow> distinct (al_keys (cs_tasks st)) \<and>
     (\<forall>k r. row st k = Some r \<longrightarrow>
        at_id (rw_task r) = k \<and> rw_version r = at_version (rw_task r) \<and> normal_task (rw_task r))"

lemma row_add_event [simp]: "row (add_event a b c st) k = row st k"
  "cs_events (add_event a b c st) = cs_events st @ [\<lparr>ce_run = a, ce_object = b, ce_type = c\<rparr>]"
  by (simp_all add: add_event_def)

lemma row_put [simp]: "row (put_row j r st) k = (if k = j then Some r else row st k)"
  "cs_events (put_row j r st) = cs_events st"
  by (simp_all add: put_row_def)

lemma row_keys [simp]: "al_keys (cs_tasks (add_event a b c st)) = al_keys (cs_tasks st)"
  "distinct (al_keys (cs_tasks st)) \<Longrightarrow> distinct (al_keys (cs_tasks (put_row j r st)))"
  by (simp_all add: add_event_def put_row_def)

lemma store_inv_put:
  "store_inv st \<Longrightarrow> at_id (rw_task r) = k \<Longrightarrow> rw_version r = at_version (rw_task r) \<Longrightarrow>
   normal_task (rw_task r) \<Longrightarrow> store_inv (add_event a b c (put_row k r st))"
  by (simp add: store_inv_def)

text \<open>Every operation leaves the store alone or writes one row, a version later, and logs it.\<close>

definition row_write :: "string \<Rightarrow> task_row option \<Rightarrow> task_row \<Rightarrow> bool" where
  "row_write k old new \<longleftrightarrow>
     at_id (rw_task new) = k \<and> rw_version new = at_version (rw_task new) \<and> normal_task (rw_task new) \<and>
     (case old of None \<Rightarrow> rw_version new = 1
      | Some r \<Rightarrow> rw_version new = rw_version r + 1 \<and>
          (let s = at_status (rw_task r); s' = at_status (rw_task new) in
             (s' = TkRunning \<and> s \<in> {TkPending, TkReady, TkRunning}) \<or>
             (s' = TkCancelled \<and> s \<in> {TkPending, TkReady}) \<or> s = TkRunning \<or> s' = s))"

definition writes :: "collab_store \<Rightarrow> collab_store \<Rightarrow> bool" where
  "writes st st' \<longleftrightarrow>
     (\<exists>k r a b c. row_write k (row st k) r \<and> st' = add_event a b c (put_row k r st))"

lemma writesI: "row_write k (row st k) r \<Longrightarrow> writes st (add_event a b c (put_row k r st))"
  unfolding writes_def by blast

lemma create_writes:
  assumes "create_task now t st = Inr (u, st')" "normal_task t"
  shows "st' = st \<or> writes st st'"
proof (cases "row st (at_id t)")
  case None
  have "row_write (at_id t) None r"
    if "rw_task r = u'" "at_id u' = at_id t" "at_deps u' = at_deps t" "at_inputs u' = at_inputs t" "at_attempt u' = at_attempt t"
      "at_max_attempts u' = at_max_attempts t" "at_version u' = 1" "rw_version r = 1" for r u'
    using that assms(2) by (simp add: row_write_def normal_task_def)
  then show ?thesis
    using assms(1) None by (auto simp: create_task_def Let_def split: if_splits intro!: writesI)
qed (use assms in \<open>auto simp: create_task_def Let_def split: if_splits\<close>)

lemma claim_writes:
  assumes "claim_task now k w secs st = Inr (u, st')" "store_inv st"
  shows "writes st st'"
proof -
  obtain r0 where r0: "row st k = Some r0" "claim_error now w r0 (make_task (rw_task r0)) = None"
    using assms(1) by (auto simp: claim_task_def Let_def split: option.splits)
  have inv: "at_id (rw_task r0) = k" "rw_version r0 = at_version (rw_task r0)" "normal_task (rw_task r0)"
    using assms(2) r0(1) by (simp_all add: store_inv_def)
  have "at_status (rw_task r0) \<in> {TkPending, TkReady, TkRunning}"
    using r0(2) inv(3) by (auto simp: claim_error_def split: if_splits)
  then show ?thesis
    using assms(1) r0 inv
    by (auto simp: claim_task_def Let_def row_write_def normal_task_def intro!: writesI)
qed

lemma cancel_writes:
  assumes "store_inv st"
  shows "snd (request_cancel_task now k req st) = st \<or> writes st (snd (request_cancel_task now k req st))"
proof (cases "row st k")
  case (Some r0)
  then have inv: "at_id (rw_task r0) = k" "rw_version r0 = at_version (rw_task r0)" "normal_task (rw_task r0)"
    using assms by (simp_all add: store_inv_def)
  then show ?thesis
    using Some by (auto simp: request_cancel_task_def Let_def row_write_def normal_task_def intro!: writesI)
qed (simp add: request_cancel_task_def)

lemma owned_task_ok:
  assumes "owned_task now k w st = Inr t" "store_inv st"
  obtains r where "row st k = Some r" "t = rw_task r" "at_id t = k" "at_version t = rw_version r"
    "normal_task t" "at_status t = TkRunning" "at_owner t = w" "at_lease t = 0 \<or> now < at_lease t"
  using assms by (auto simp: owned_task_def get_task_def store_inv_def split: option.splits if_splits)

lemma replace_writes:
  assumes "replace_task t w ev st = Inr (u, st')" "row st k = Some r0" "at_id t = k"
    and "normal_task t" "at_status (rw_task r0) = TkRunning"
  shows "writes st st'"
  using assms
  by (auto simp: replace_task_def Let_def row_write_def normal_task_def split: if_splits intro!: writesI)

lemma complete_task_ok:
  assumes "complete_task now k result w st = Inr us"
  obtains t t' where "owned_task now k w st = Inr t"
    "at_id t' = at_id t" "at_attempt t' = at_attempt t" "at_max_attempts t' = at_max_attempts t"
    "at_version t' = at_version t" "at_deps t' = at_deps t" "at_inputs t' = at_inputs t"
    "replace_task t' w ''task_completed'' st = Inr us"
proof -
  from assms obtain t' where t': "completion_update now k result w st = Inr t'"
    and rep: "replace_task t' w ''task_completed'' st = Inr us"
    by (auto simp: complete_task_def bindR_ok_iff)
  from t' obtain t where t: "owned_task now k w st = Inr t"
    and eq: "t' = t\<lparr>at_status := at_status t', at_retry := at_retry t', at_result := Some result,
        at_owner := [], at_lease := 0, at_updated := now\<rparr>"
    by (auto simp: completion_update_def bindR_ok_iff Let_def split: if_splits)
  show thesis by (rule that[OF t _ _ _ _ _ _ rep]) (subst eq, simp)+
qed

lemma store_step_writes:
  assumes "store_inv st"
  shows "store_step opn st = st \<or> writes st (store_step opn st)"
proof (cases opn)
  case (OpCreate now t)
  then show ?thesis
    using create_writes[of now "make_task t" st]
    by (cases "create_task now (make_task t) st") (auto simp: keep_on_error_def)
next
  case (OpClaim now k w secs)
  then show ?thesis
    using claim_writes[of now k w secs st] assms
    by (cases "claim_task now k w secs st") (auto simp: keep_on_error_def)
next
  case (OpCancel now k req)
  then show ?thesis using cancel_writes[OF assms, of now k req] by simp
next
  case (OpHeartbeat now k w secs)
  show ?thesis
  proof (cases "heartbeat now k w secs st")
    case (Inr us)
    then obtain t u st' where t: "owned_task now k w st = Inr t"
      and rep: "replace_task (t\<lparr>at_lease := now + max (1/10) secs, at_updated := now\<rparr>) w ''task_heartbeat'' st = Inr (u, st')"
      and us: "us = (u, st')"
      by (cases us) (auto simp: heartbeat_def heartbeat_update_def bindR_ok_iff)
    obtain r where r: "row st k = Some r" "t = rw_task r" "at_id t = k" "normal_task t" "at_status t = TkRunning"
      using t assms by (rule owned_task_ok)
    have "writes st st'"
      using r by (intro replace_writes[OF rep]) (auto simp: normal_task_def)
    then show ?thesis using OpHeartbeat Inr us by (simp add: keep_on_error_def)
  qed (simp add: OpHeartbeat keep_on_error_def)
next
  case (OpComplete now k result w)
  show ?thesis
  proof (cases "complete_task now k result w st")
    case (Inr us)
    then obtain t t' where t: "owned_task now k w st = Inr t"
      and t': "at_id t' = at_id t" "at_attempt t' = at_attempt t" "at_max_attempts t' = at_max_attempts t"
        "at_version t' = at_version t" "at_deps t' = at_deps t" "at_inputs t' = at_inputs t"
      and rep: "replace_task t' w ''task_completed'' st = Inr us"
      by (rule complete_task_ok)
    obtain u st' where us: "us = (u, st')" by (cases us)
    obtain r where r: "row st k = Some r" "t = rw_task r" "at_id t = k" "normal_task t" "at_status t = TkRunning"
      using t assms by (rule owned_task_ok)
    have "writes st st'"
      using r t' by (intro replace_writes[OF rep[unfolded us]]) (auto simp: normal_task_def)
    then show ?thesis using OpComplete Inr us by (simp add: keep_on_error_def)
  qed (simp add: OpComplete keep_on_error_def)
qed

definition row_status :: "string \<Rightarrow> collab_store \<Rightarrow> task_status option" where
  "row_status k st = map_option (\<lambda>r. at_status (rw_task r)) (row st k)"

definition row_edge :: "task_status option \<Rightarrow> task_status option \<Rightarrow> bool" where
  "row_edge p q \<longleftrightarrow>
    (case p of
       None \<Rightarrow> q \<noteq> None
     | Some s \<Rightarrow> (s \<in> {TkPending, TkReady} \<and> q \<in> {Some TkRunning, Some TkCancelled}) \<or>
                 (s = TkRunning \<and> q \<noteq> None))"

lemma row_write_good: "store_inv st \<Longrightarrow> row_write k (row st k) r \<Longrightarrow> store_inv (add_event a b c (put_row k r st))"
  by (intro store_inv_put) (simp_all add: row_write_def)

lemma row_write_edge:
  "row_write k (row st k) r \<Longrightarrow> row_status k (put_row k r st) \<noteq> row_status k st \<Longrightarrow>
     row_edge (row_status k st) (row_status k (put_row k r st))"
  by (auto simp: row_write_def row_edge_def row_status_def Let_def split: option.splits)

interpretation stored_task: invariant_machine "row_status k"
  "\<lambda>st. int (length (cs_events st))" store_step row_edge store_inv for k
proof
  fix st opn
  assume inv: "store_inv st"
  note w = store_step_writes[OF inv, of opn]
  show "store_inv (store_step opn st)" using w inv row_write_good by (auto simp: writes_def)
  show "int (length (cs_events st)) \<le> int (length (cs_events (store_step opn st)))"
    using w by (auto simp: writes_def)
  assume ne: "row_status k (store_step opn st) \<noteq> row_status k st"
  then obtain j r a b c where j: "row_write j (row st j) r" "store_step opn st = add_event a b c (put_row j r st)"
    using w by (auto simp: writes_def)
  have "j = k" using ne by (auto simp: j(2) row_status_def split: if_splits)
  then show "row_edge (row_status k st) (row_status k (store_step opn st))"
    using row_write_edge[of k st r] j(1) ne by (simp add: j(2) row_status_def)
  show "int (length (cs_events st)) < int (length (cs_events (store_step opn st)))" by (simp add: j(2))
qed


subsection \<open>Leases\<close>

text \<open>Worker \<open>w\<close> holds task \<open>k\<close> until time \<open>until\<close>.\<close>

definition held :: "string \<Rightarrow> string \<Rightarrow> real \<Rightarrow> collab_store \<Rightarrow> bool" where
  "held k w until st \<longleftrightarrow>
    (\<exists>r. row st k = Some r \<and> at_status (rw_task r) = TkRunning \<and> rw_owner r = w \<and>
       at_owner (rw_task r) = w \<and> rw_lease r = until)"

text \<open>An operation that is not the holder's, before the lease runs out.\<close>

fun foreign_op :: "string \<Rightarrow> string \<Rightarrow> real \<Rightarrow> store_op \<Rightarrow> bool" where
  "foreign_op k w until (OpCreate now t) = True"
| "foreign_op k w until (OpCancel now j req) = True"
| "foreign_op k w until (OpClaim now j w' secs) = (j \<noteq> k \<or> (w' \<noteq> w \<and> now < until))"
| "foreign_op k w until (OpHeartbeat now j w' secs) = (j \<noteq> k \<or> w' \<noteq> w)"
| "foreign_op k w until (OpComplete now j result w') = (j \<noteq> k \<or> w' \<noteq> w)"

lemma held_put_other: "j \<noteq> k \<Longrightarrow> held k w until (add_event a b c (put_row j r st)) = held k w until st"
  by (simp add: held_def)

lemma owned_task_row: "owned_task now j w' st = Inr t \<Longrightarrow> store_inv st \<Longrightarrow> at_id t = j"
  by (erule owned_task_ok)

lemma replace_other:
  "replace_task t w' ev st = Inr (u, st') \<Longrightarrow> at_id t \<noteq> k \<Longrightarrow> row st' k = row st k"
  by (auto simp: replace_task_def Let_def split: option.splits if_splits)

lemma held_owned_refused:
  assumes "held k w until st" "store_inv st" "w' \<noteq> w"
  shows "\<exists>e. owned_task now k w' st = Inl e"
  using assms by (auto simp: held_def owned_task_def get_task_def store_inv_def)

lemma store_step_foreign:
  assumes "held k w until st" "store_inv st" "foreign_op k w until opn"
  shows "held k w until (store_step opn st)"
proof (cases opn)
  case (OpCreate now t)
  have "row (store_step opn st) k = row st k"
    using assms(1) by (auto simp: OpCreate keep_on_error_def create_task_def Let_def held_def
        split: sum.splits if_splits option.splits)
  then show ?thesis using assms(1) by (simp add: held_def)
next
  case (OpCancel now j req)
  show ?thesis
  proof (cases "j = k")
    case True
    then show ?thesis
      using assms(1,2) by (auto simp: OpCancel request_cancel_task_def Let_def held_def store_inv_def)
  next
    case False
    then have "row (store_step opn st) k = row st k"
      by (auto simp: OpCancel request_cancel_task_def Let_def split: option.splits)
    then show ?thesis using assms(1) by (simp add: held_def)
  qed
next
  case (OpClaim now j w' secs)
  show ?thesis
  proof (cases "j = k")
    case True
    have "\<exists>e. claim_task now k w' secs st = Inl e"
      using assms True by (auto simp: OpClaim claim_task_def claim_error_def Let_def held_def store_inv_def)
    then show ?thesis using assms(1) True by (auto simp: OpClaim keep_on_error_def)
  next
    case False
    have "row (store_step opn st) k = row st k"
      using False assms(2)
      by (auto simp: OpClaim keep_on_error_def claim_task_def Let_def store_inv_def
          split: sum.splits option.splits)
    then show ?thesis using assms(1) by (simp add: held_def)
  qed
next
  case (OpHeartbeat now j w' secs)
  show ?thesis
  proof (cases "heartbeat now j w' secs st")
    case (Inr us)
    then obtain t u where t: "owned_task now j w' st = Inr t"
      and rep: "replace_task (t\<lparr>at_lease := now + max (1/10) secs, at_updated := now\<rparr>) w' ''task_heartbeat'' st = Inr us"
      by (auto simp: heartbeat_def heartbeat_update_def bindR_ok_iff)
    have "j \<noteq> k" using t held_owned_refused[OF assms(1,2), of w' now] assms(3) by (auto simp: OpHeartbeat)
    then have "row (snd us) k = row st k"
      using replace_other[of _ w' _ st "fst us" "snd us" k] rep owned_task_row[OF t assms(2)] by simp
    then show ?thesis using assms(1) Inr by (cases us) (simp add: OpHeartbeat keep_on_error_def held_def)
  qed (use assms(1) in \<open>simp add: OpHeartbeat keep_on_error_def\<close>)
next
  case (OpComplete now j result w')
  show ?thesis
  proof (cases "complete_task now j result w' st")
    case (Inr us)
    then obtain t t' where t: "owned_task now j w' st = Inr t" and t': "at_id t' = at_id t"
      and rep: "replace_task t' w' ''task_completed'' st = Inr us"
      by (rule complete_task_ok)
    have "j \<noteq> k" using t held_owned_refused[OF assms(1,2), of w' now] assms(3) by (auto simp: OpComplete)
    then have "row (snd us) k = row st k"
      using replace_other[of _ w' _ st "fst us" "snd us" k] rep owned_task_row[OF t assms(2)] t' by simp
    then show ?thesis using assms(1) Inr by (cases us) (simp add: OpComplete keep_on_error_def held_def)
  qed (use assms(1) in \<open>simp add: OpComplete keep_on_error_def\<close>)
qed

lemma claim_holds:
  assumes "claim_task now k w secs st = Inr (t, st')" "store_inv st"
  shows "held k w (now + max (1/10) secs) st'"
  using assms by (auto simp: claim_task_def Let_def held_def store_inv_def split: option.splits)

lemma versions_grow:
  assumes "store_inv st" "row st k = Some r"
  shows "\<exists>r'. row (fold store_step ops st) k = Some r' \<and>
    (r' = r \<or> rw_version r < rw_version r')"
  using assms
proof (induction ops arbitrary: st r)
  case (Cons opn ops)
  have inv: "store_inv (store_step opn st)" using stored_task.good_step[OF Cons.prems(1)] .
  have "\<exists>r1. row (store_step opn st) k = Some r1 \<and> (r1 = r \<or> rw_version r < rw_version r1)"
  proof (cases "store_step opn st = st")
    case False
    then obtain j s a b c where w: "row_write j (row st j) s"
        "store_step opn st = add_event a b c (put_row j s st)"
      using store_step_writes[OF Cons.prems(1), of opn] by (auto simp: writes_def)
    show ?thesis
      using w(1) Cons.prems(2) by (cases "j = k") (auto simp: w(2) row_write_def)
  qed (use Cons.prems(2) in auto)
  then obtain r1 where r1: "row (store_step opn st) k = Some r1" "r1 = r \<or> rw_version r < rw_version r1"
    by blast
  from Cons.IH[OF inv r1(1)] show ?case using r1(2) by auto
qed simp


subsection \<open>Properties of the task records\<close>

text \<open>In every run of the store a task's status moves only along the stored life cycle, a
  completed, failed, cancelled, expired or blocked task keeps its status for good, and a status
  change always leaves an event in the log.\<close>

theorem stored_task_lifecycle:
  assumes "store_inv st"
  shows "row_edge\<^sup>*\<^sup>* (row_status k st) (row_status k (fold store_step ops st)) \<and>
    (row_status k st \<in> {Some TkCompleted, Some TkFailed, Some TkCancelled, Some TkExpired, Some TkBlocked}
       \<longrightarrow> row_status k (fold store_step ops st) = row_status k st) \<and>
    (length (cs_events (fold store_step ops st)) = length (cs_events st)
       \<longrightarrow> row_status k (fold store_step ops st) = row_status k st)"
proof -
  have "row_status k (fold store_step ops st) \<in> {row_status k st}"
    if "row_status k st \<in> {Some TkCompleted, Some TkFailed, Some TkCancelled, Some TkExpired, Some TkBlocked}"
    using that by (intro stored_task.good_closed[OF assms]) (auto simp: row_edge_def)
  then show ?thesis
    using stored_task.good_reaches[OF assms, of k ops] stored_task.good_same_rev[OF assms, of ops k]
    by auto
qed

text \<open>C16. Leases exclude: once a worker has claimed a task, no operation of anybody else before the
  lease runs out (claims, heartbeats and completions of other workers, cancellations, work on
  other tasks) takes the task away from it.\<close>

theorem lease_excludes_others:
  assumes "store_inv st" "claim_task now k w secs st = ok (t, st')"
    and "\<forall>opn \<in> set ops. foreign_op k w (now + max (1/10) secs) opn"
  shows "held k w (now + max (1/10) secs) (fold store_step ops st')"
proof -
  have inv: "store_inv st'"
    using stored_task.good_step[OF assms(1), of "OpClaim now k w secs"] assms(2)
    by (simp add: keep_on_error_def)
  have "held k w until (fold store_step ops s)"
    if "held k w until s" "store_inv s" "\<forall>opn \<in> set ops. foreign_op k w until opn" for until s
    using that
  proof (induction ops arbitrary: s)
    case (Cons opn ops)
    then show ?case using store_step_foreign[OF Cons.prems(1,2)] stored_task.good_step by simp
  qed simp
  then show ?thesis using claim_holds[OF assms(2,1)] inv assms(3) by blast
qed

text \<open>No lost updates: a heartbeat or a completion prepared from a read of the task is refused
  by the compare-and-swap when the record was changed by anything in between.\<close>

theorem stale_update_refused:
  assumes "store_inv st" "at_id task = k"
    and "completion_update now k result w st = ok task \<or> heartbeat_update now k w secs st = ok task"
    and "row (fold store_step ops st) k \<noteq> row st k"
  shows "\<exists>msg. replace_task task w event_type (fold store_step ops st) = raise (LeaseConflictError msg)"
proof -
  obtain t where t: "owned_task now k w st = Inr t" and v: "at_version task = at_version t"
    using assms(3) by (auto simp: completion_update_def heartbeat_update_def bindR_ok_iff Let_def
        split: if_splits)
  obtain r where r: "row st k = Some r" "at_version t = rw_version r"
    using t assms(1) by (rule owned_task_ok)
  obtain r' where "row (fold store_step ops st) k = Some r'" "r' = r \<or> rw_version r < rw_version r'"
    using versions_grow[OF assms(1) r(1)] by blast
  then show ?thesis using assms(2,4) r v by (auto simp: replace_task_def)
qed

text \<open>A reclaim after a crash goes past the attempt limit: when the lease of a running task on
  its last attempt has expired, the claim is granted and the stored task fails its own
  validation, so no task graph accepts it any more.\<close>

theorem reclaim_exceeds_attempts:
  assumes "store_inv st" "row st k = Some r" "at_status (rw_task r) = TkRunning"
    and "at_attempt (rw_task r) = at_max_attempts (rw_task r)" "rw_lease r \<le> now"
    and "at_cancel (rw_task r) = []" "at_retry (rw_task r) = 0" "at_deadline (rw_task r) = 0"
  shows "\<exists>t st'. claim_task now k w secs st = ok (t, st') \<and> get_task k st' = Some t \<and>
    (\<forall>g. \<exists>e. dag_add t g = raise e)"
proof -
  have n: "normal_task (rw_task r)" "at_id (rw_task r) = k" using assms(1,2) by (simp_all add: store_inv_def)
  define t where "t = (rw_task r)\<lparr>at_status := TkRunning, at_attempt := at_attempt (rw_task r) + 1,
      at_owner := w, at_lease := now + max (1/10) secs, at_version := rw_version r + 1, at_updated := now\<rparr>"
  have e: "claim_error now w r (rw_task r) = None" using assms(3,5-8) by (simp add: claim_error_def)
  have "0 \<le> rw_version r" using assms(1,2) n by (simp add: store_inv_def normal_task_def)
  then have t: "normal_task t" "at_id t = k" using n by (simp_all add: t_def normal_task_def)
  obtain st' where c: "claim_task now k w secs st = ok (t, st')" "get_task k st' = Some t"
    using t n(2) by (simp add: claim_task_def assms(2) n(1) e Let_def get_task_def t_def[symmetric])
  have "task_errors t \<noteq> []" using assms(4) by (simp add: task_errors_def t_def)
  then show ?thesis using c by (auto simp: dag_add_def)
qed

text \<open>A running task that was asked to cancel and then fails with attempts left ends up ready
  for good: its dependencies allow it, but every later claim is refused, whoever makes it and
  whenever.\<close>

theorem cancelled_retry_never_claimed:
  assumes "store_inv st" "row st k = Some r" "at_status (rw_task r) = TkRunning"
    and "at_owner (rw_task r) = w" "rw_owner r = w" "now < at_lease (rw_task r)" "at_cancel (rw_task r) = []"
    and "at_attempt (rw_task r) < at_max_attempts (rw_task r)"
    and "req \<noteq> []" "ar_task result = k" "ar_status result = TkFailed"
  shows "let st' = fold store_step [OpCancel now k req, OpComplete now k result w] st in
    row_status k st' = Some TkReady \<and>
    (\<forall>later w' secs. claim_task later k w' secs st' =
       raise (LeaseConflictError ''task cancellation is pending''))"
proof -
  have n: "normal_task (rw_task r)" "at_id (rw_task r) = k" "rw_version r = at_version (rw_task r)"
    using assms(1,2) by (simp_all add: store_inv_def)
  define t where "t = (rw_task r)\<lparr>at_cancel := req, at_updated := now, at_version := at_version (rw_task r) + 1\<rparr>"
  define st1 where "st1 = snd (request_cancel_task now k req st)"
  have nt: "normal_task t" using n by (simp add: normal_task_def t_def)
  have c: "row st1 k = Some (r\<lparr>rw_task := t, rw_version := at_version t, rw_updated := now\<rparr>)"
    using assms(2,3,7) n by (simp add: st1_def request_cancel_task_def Let_def t_def)
  have own: "owned_task now k w st1 = Inr t"
    using assms(3,4,6) nt by (simp add: owned_task_def get_task_def c) (simp add: t_def)
  define t2 where "t2 = t\<lparr>at_status := TkReady, at_retry := now + retry_delay (at_attempt t),
      at_result := Some result, at_owner := [], at_lease := 0, at_updated := now\<rparr>"
  have up: "completion_update now k result w st1 = Inr t2"
    using assms(8,10,11) by (simp add: completion_update_def own t2_def) (simp add: t_def)
  have t2: "at_id t2 = k" "at_version t2 = at_version t" "at_status t2 = TkReady" "at_cancel t2 = req"
    "normal_task (t2\<lparr>at_version := v\<rparr>) = (0 \<le> v)" for v
    using n nt by (simp_all add: t2_def t_def normal_task_def)
  obtain r3 st2 where rep: "complete_task now k result w st1 = Inr (rw_task r3, st2)"
    "row st2 k = Some r3" "rw_task r3 = t2\<lparr>at_version := at_version t + 1\<rparr>"
    using assms(5) by (simp add: complete_task_def up replace_task_def t2(1,2) c Let_def)
  have ready: "row_status k st2 = Some TkReady" using t2(3) by (simp add: row_status_def rep)
  have "0 \<le> at_version t" using nt by (simp add: normal_task_def)
  then have "make_task (rw_task r3) = rw_task r3" by (intro make_normal) (simp add: rep(3) t2(5))
  then have "claim_task later k w' secs st2 = raise (LeaseConflictError ''task cancellation is pending'')"
    for later w' secs
    using assms(9) by (simp add: claim_task_def rep(2) claim_error_def Let_def) (simp add: rep(3) t2(4))
  then show ?thesis
    using ready by (simp add: st1_def[symmetric] rep(1) keep_on_error_def)
qed

definition busy_task :: "int \<Rightarrow> agent_task" where
  "busy_task limit = (sample_task ''a'' [])\<lparr>at_status := TkRunning, at_attempt := 1,
     at_max_attempts := limit, at_owner := ''w'', at_lease := 10, at_version := 2\<rparr>"

definition busy_store :: "int \<Rightarrow> collab_store" where
  "busy_store limit = \<lparr>cs_tasks = [(''a'', \<lparr>rw_task = busy_task limit, rw_version = 2, rw_owner = ''w'',
       rw_lease = 10, rw_priority = 0, rw_updated = 1\<rparr>)], cs_handoffs = [], cs_receipts = [], cs_events = []\<rparr>"

lemma busy_store_inv: "1 \<le> limit \<Longrightarrow> store_inv (busy_store limit)"
  by (simp add: store_inv_def busy_store_def busy_task_def sample_task_def normal_task_def al_keys_def)

theorem stored_task_lifecycle_witness:
  "row_edge\<^sup>*\<^sup>* (Some TkRunning) (row_status ''a'' (fold store_step [OpCancel 5 ''a'' ''q''] (busy_store 1)))"
proof -
  have "row_status ''a'' (busy_store 1) = Some TkRunning"
    by (simp add: row_status_def busy_store_def busy_task_def)
  then show ?thesis
    using stored_task_lifecycle[OF busy_store_inv, of 1 "''a''" "[OpCancel 5 ''a'' ''q'']", THEN conjunct1]
    by simp
qed

theorem lease_excludes_others_witness:
  "\<exists>t st'. claim_task 11 ''a'' ''v'' 5 (busy_store 3) = ok (t, st') \<and>
     held ''a'' ''v'' 16 (fold store_step [OpClaim 12 ''a'' ''w'' 5] st')"
proof -
  have "\<exists>t st'. claim_task 11 ''a'' ''v'' 5 (busy_store 3) = ok (t, st')"
    by (simp add: claim_task_def claim_error_def busy_store_def busy_task_def make_task_def sample_task_def Let_def)
  then obtain t st' where c: "claim_task 11 ''a'' ''v'' 5 (busy_store 3) = ok (t, st')" by blast
  from lease_excludes_others[OF busy_store_inv c, of "[OpClaim 12 ''a'' ''w'' 5]"] c show ?thesis by simp
qed

theorem stale_update_refused_witness:
  "\<exists>task msg. heartbeat_update 5 ''a'' ''w'' 5 (busy_store 3) = ok task \<and>
     replace_task task ''w'' ''task_heartbeat'' (fold store_step [OpCancel 5 ''a'' ''q''] (busy_store 3))
       = raise (LeaseConflictError msg)"
proof -
  let ?task = "(busy_task 3)\<lparr>at_lease := 10, at_updated := 5\<rparr>"
  have u: "heartbeat_update 5 ''a'' ''w'' 5 (busy_store 3) = ok ?task"
    by (simp add: heartbeat_update_def owned_task_def get_task_def busy_store_def busy_task_def
        make_task_def sample_task_def dedup_def)
  have "row (fold store_step [OpCancel 5 ''a'' ''q''] (busy_store 3)) ''a'' \<noteq> row (busy_store 3) ''a''"
    by (simp add: request_cancel_task_def busy_store_def busy_task_def make_task_def sample_task_def Let_def)
  from stale_update_refused[OF busy_store_inv _ disjI2[OF u] this] u show ?thesis
    by (force simp: busy_task_def sample_task_def)
qed

theorem reclaim_exceeds_attempts_witness:
  "\<exists>t st'. claim_task 11 ''a'' ''v'' 5 (busy_store 1) = ok (t, st') \<and> (\<forall>g. \<exists>e. dag_add t g = raise e)"
proof -
  have "row (busy_store 1) ''a'' = Some \<lparr>rw_task = busy_task 1, rw_version = 2, rw_owner = ''w'',
       rw_lease = 10, rw_priority = 0, rw_updated = 1\<rparr>" by (simp add: busy_store_def)
  from reclaim_exceeds_attempts[OF busy_store_inv this, of 11 "''v''" 5] show ?thesis
    by (auto simp: busy_task_def sample_task_def)
qed

theorem cancelled_retry_never_claimed_witness:
  "claim_task 99 ''a'' ''v'' 5 (fold store_step [OpCancel 5 ''a'' ''q'',
      OpComplete 5 ''a'' (new_result 5 ''a'' TkFailed []) ''w'']
      (busy_store 3)) = raise (LeaseConflictError ''task cancellation is pending'')"
proof -
  have r: "row (busy_store 3) ''a'' = Some \<lparr>rw_task = busy_task 3, rw_version = 2, rw_owner = ''w'',
       rw_lease = 10, rw_priority = 0, rw_updated = 1\<rparr>" by (simp add: busy_store_def)
  show ?thesis
    using cancelled_retry_never_claimed[OF busy_store_inv r, of "''w''" 5 "''q''"
        "new_result 5 ''a'' TkFailed []"]
    by (simp add: busy_task_def sample_task_def new_result_def Let_def)
qed

end
