(* ===== verification/CollabEffects.thy ===== *)
theory CollabEffects
  imports CollabStore
begin

text \<open>
  \<open>src/collaboration/effects.py\<close>: the ledger of side effects.  It keeps receipts by idempotency
  key in memory and, when it has a store, writes every receipt through and reads missing ones
  back.  The ledger returns the object it keeps, so a move updates the kept receipt in place.
  A process restart is a ledger with the same store and an empty memory.
\<close>

subsection \<open>The ledger\<close>

fun effect_status_value :: "effect_status \<Rightarrow> string" where
  "effect_status_value EfPrepared = ''prepared''"
| "effect_status_value EfCommitted = ''committed''"
| "effect_status_value EfUncertain = ''uncertain''"
| "effect_status_value EfRevalidate = ''revalidate''"
| "effect_status_value EfCompensated = ''compensated''"

definition effect_status_of :: "string \<Rightarrow> effect_status res" where
  "effect_status_of s =
     (case map_of (map (\<lambda>t. (effect_status_value t, t))
          [EfPrepared, EfCommitted, EfUncertain, EfRevalidate, EfCompensated]) s of
        Some t \<Rightarrow> ok t | None \<Rightarrow> raise (ValueError s))"

record effect_ledger =
  el_store :: "collab_store option"
  el_receipts :: "(string, effect_receipt) alist"

definition effect_get :: "string \<Rightarrow> effect_ledger \<Rightarrow> effect_receipt option \<times> effect_ledger" where
  "effect_get k l =
    (case al_get (el_receipts l) k of
       Some r \<Rightarrow> (Some r, l)
     | None \<Rightarrow>
        (case el_store l of
           None \<Rightarrow> (None, l)
         | Some st \<Rightarrow>
            (case get_receipt st k of
               None \<Rightarrow> (None, l)
             | Some r \<Rightarrow> (Some r, l\<lparr>el_receipts := al_put k r (el_receipts l)\<rparr>))))"

definition effect_save :: "string \<Rightarrow> effect_receipt \<Rightarrow> effect_ledger \<Rightarrow> effect_ledger" where
  "effect_save k r l = l\<lparr>el_receipts := al_put k r (el_receipts l),
     el_store := map_option (save_receipt r) (el_store l)\<rparr>"

definition different_effect :: "effect_receipt \<Rightarrow> effect_receipt \<Rightarrow> bool" where
  "different_effect old r \<longleftrightarrow>
     er_action old \<noteq> er_action r \<or> (er_hash old \<noteq> [] \<and> er_hash r \<noteq> [] \<and> er_hash old \<noteq> er_hash r)"

definition effect_prepare :: "effect_receipt \<Rightarrow> effect_ledger \<Rightarrow> (effect_receipt \<times> effect_ledger) res" where
  "effect_prepare r l =
    (let existing = (case al_get (el_receipts l) (er_key r) of
           Some r' \<Rightarrow> Some r'
         | None \<Rightarrow> Option.bind (el_store l) (\<lambda>st. get_receipt st (er_key r))) in
     case existing of
       Some old \<Rightarrow>
         if different_effect old r
         then raise (ValueError ''idempotency key is bound to a different effect'')
         else ok (old, l\<lparr>el_receipts := al_put (er_key r) old (el_receipts l)\<rparr>)
     | None \<Rightarrow>
        (let r = r\<lparr>er_status := EfPrepared\<rparr> in ok (r, effect_save (er_key r) r l)))"

definition effect_moves :: "effect_status \<Rightarrow> effect_status set" where
  "effect_moves s =
    (case s of
       EfPrepared \<Rightarrow> {EfCommitted, EfUncertain, EfCompensated}
     | EfUncertain \<Rightarrow> {EfRevalidate, EfCommitted, EfCompensated}
     | EfRevalidate \<Rightarrow> {EfCommitted, EfUncertain, EfCompensated}
     | _ \<Rightarrow> {s})"

text \<open>Keyword updates: the attributes of a receipt other than the two the call names itself
  (its key and its status); other names are ignored.\<close>

datatype effect_update = SetId string | SetAction string | SetTask string | SetActor string
  | SetHash string | SetOutput string | SetError string | SetCreated real | SetUpdated real | SetOther

fun effect_set :: "effect_update \<Rightarrow> effect_receipt \<Rightarrow> effect_receipt" where
  "effect_set (SetId v) r = r\<lparr>er_id := v\<rparr>"
| "effect_set (SetAction v) r = r\<lparr>er_action := v\<rparr>"
| "effect_set (SetTask v) r = r\<lparr>er_task := v\<rparr>"
| "effect_set (SetActor v) r = r\<lparr>er_actor := v\<rparr>"
| "effect_set (SetHash v) r = r\<lparr>er_hash := v\<rparr>"
| "effect_set (SetOutput v) r = r\<lparr>er_output := v\<rparr>"
| "effect_set (SetError v) r = r\<lparr>er_error := v\<rparr>"
| "effect_set (SetCreated v) r = r\<lparr>er_created := v\<rparr>"
| "effect_set (SetUpdated v) r = r\<lparr>er_updated := v\<rparr>"
| "effect_set SetOther r = r"

definition effect_transition ::
  "real \<Rightarrow> string \<Rightarrow> string \<Rightarrow> effect_update list \<Rightarrow> effect_ledger \<Rightarrow> effect_receipt res \<times> effect_ledger" where
  "effect_transition now k status updates l =
    (case effect_get k l of
       (None, l) \<Rightarrow> (raise (KeyError k), l)
     | (Some r, l) \<Rightarrow>
        (case effect_status_of status of
           Inl e \<Rightarrow> (raise e, l)
         | Inr target \<Rightarrow>
            if target = er_status r then (ok r, l)
            else if target \<notin> effect_moves (er_status r)
            then (raise (ValueError (''invalid effect transition '' @ effect_status_value (er_status r) @
                    ''->'' @ effect_status_value target)), l)
            else
             (let r' = (fold effect_set updates (r\<lparr>er_status := target\<rparr>))\<lparr>er_updated := now\<rparr> in
              (ok r', effect_save k r' l))))"

definition effect_restart :: "effect_ledger \<Rightarrow> effect_ledger" where
  "effect_restart l = l\<lparr>el_receipts := []\<rparr>"

subsection \<open>Coherence with the store\<close>

text \<open>A durable ledger whose memory agrees with its store.\<close>

definition coherent :: "effect_ledger \<Rightarrow> bool" where
  "coherent l \<longleftrightarrow> (\<exists>st. el_store l = Some st \<and>
     (\<forall>k r. al_get (el_receipts l) k = Some r \<longrightarrow> get_receipt st k = Some r) \<and>
     (\<forall>k r. get_receipt st k = Some r \<longrightarrow> er_key r = k))"

definition stored_effect :: "string \<Rightarrow> effect_ledger \<Rightarrow> effect_receipt option" where
  "stored_effect k l = Option.bind (el_store l) (\<lambda>st. get_receipt st k)"

definition effect_events :: "effect_ledger \<Rightarrow> int" where
  "effect_events l = (case el_store l of None \<Rightarrow> 0 | Some st \<Rightarrow> int (length (cs_events st)))"

lemma key_of_update [simp]: "er_key (fold effect_set us r) = er_key r"
proof -
  have "er_key (effect_set u r) = er_key r" for u r by (cases u) simp_all
  then show ?thesis by (induction us arbitrary: r) simp_all
qed

lemma status_of_update [simp]: "er_status (fold effect_set us r) = er_status r"
proof -
  have "er_status (effect_set u r) = er_status r" for u r by (cases u) simp_all
  then show ?thesis by (induction us arbitrary: r) simp_all
qed

lemma coherent_save: "coherent l \<Longrightarrow> er_key r = k \<Longrightarrow> coherent (effect_save k r l)"
  by (auto simp: coherent_def effect_save_def receipts.get_after_save)

lemma stored_save:
  "coherent l \<Longrightarrow> er_key r = k \<Longrightarrow>
     stored_effect j (effect_save k r l) = (if j = k then Some r else stored_effect j l)"
  by (auto simp: coherent_def effect_save_def stored_effect_def receipts.get_after_save)

lemma events_save: "coherent l \<Longrightarrow> effect_events (effect_save k r l) = effect_events l + 1"
  by (auto simp: coherent_def effect_events_def effect_save_def save_receipt_def)

lemma stored_key: "coherent l \<Longrightarrow> stored_effect k l = Some r \<Longrightarrow> er_key r = k"
  by (auto simp: coherent_def stored_effect_def)

lemma coherent_cache:
  "coherent l \<Longrightarrow> stored_effect k l = Some r \<Longrightarrow> coherent (l\<lparr>el_receipts := al_put k r (el_receipts l)\<rparr>)"
  by (auto simp: coherent_def stored_effect_def)

lemma stored_cache [simp]: "stored_effect j (l\<lparr>el_receipts := c\<rparr>) = stored_effect j l"
  "effect_events (l\<lparr>el_receipts := c\<rparr>) = effect_events l"
  by (simp_all add: stored_effect_def effect_events_def)

text \<open>Reading returns what the store holds and changes nothing that is stored.\<close>

lemma effect_get_spec:
  assumes "coherent l"
  shows "fst (effect_get k l) = stored_effect k l" "coherent (snd (effect_get k l))"
    "stored_effect j (snd (effect_get k l)) = stored_effect j l"
    "effect_events (snd (effect_get k l)) = effect_events l"
proof -
  have "fst (effect_get k l) = stored_effect k l \<and> coherent (snd (effect_get k l)) \<and>
      stored_effect j (snd (effect_get k l)) = stored_effect j l \<and>
      effect_events (snd (effect_get k l)) = effect_events l"
  proof (cases "al_get (el_receipts l) k")
    case None
    then show ?thesis
      using assms coherent_cache[OF assms, of k]
      by (auto simp: effect_get_def stored_effect_def split: option.splits)
  next
    case (Some r)
    then show ?thesis using assms by (auto simp: effect_get_def stored_effect_def coherent_def)
  qed
  then show "fst (effect_get k l) = stored_effect k l" "coherent (snd (effect_get k l))"
    "stored_effect j (snd (effect_get k l)) = stored_effect j l"
    "effect_events (snd (effect_get k l)) = effect_events l" by simp_all
qed

lemma effect_prepare_spec:
  assumes "coherent l"
  shows "effect_prepare r l =
    (case stored_effect (er_key r) l of
       Some old \<Rightarrow>
         if different_effect old r
         then raise (ValueError ''idempotency key is bound to a different effect'')
         else ok (old, l\<lparr>el_receipts := al_put (er_key r) old (el_receipts l)\<rparr>)
     | None \<Rightarrow> ok (r\<lparr>er_status := EfPrepared\<rparr>, effect_save (er_key r) (r\<lparr>er_status := EfPrepared\<rparr>) l))"
proof (cases "al_get (el_receipts l) (er_key r)")
  case None
  then show ?thesis
    by (cases "stored_effect (er_key r) l") (simp_all add: effect_prepare_def stored_effect_def Let_def)
next
  case (Some old)
  then have "stored_effect (er_key r) l = Some old"
    using assms by (auto simp: coherent_def stored_effect_def)
  then show ?thesis using Some by (simp add: effect_prepare_def)
qed

subsection \<open>Runs of the ledger\<close>

datatype effect_op = EPrepare effect_receipt | EMove real string string "effect_update list"
  | EGet string | ERestart

fun effect_step :: "effect_op \<Rightarrow> effect_ledger \<Rightarrow> effect_ledger" where
  "effect_step (EPrepare r) l = (case effect_prepare r l of Inr (_, l') \<Rightarrow> l' | Inl e \<Rightarrow> l)"
| "effect_step (EMove now k s us) l = snd (effect_transition now k s us l)"
| "effect_step (EGet k) l = snd (effect_get k l)"
| "effect_step ERestart l = effect_restart l"

text \<open>Every step keeps what is stored or saves one receipt: a new one, or a moved one.\<close>

lemma effect_step_cases:
  assumes "coherent l"
  obtains (same) "coherent (effect_step opn l)" "\<And>j. stored_effect j (effect_step opn l) = stored_effect j l"
      "effect_events (effect_step opn l) = effect_events l"
  | (new) k r where "stored_effect k l = None" "er_key r = k" "effect_step opn l = effect_save k r l"
  | (moved) k r r' l' where "stored_effect k l = Some r" "er_key r' = k"
      "er_status r' \<in> effect_moves (er_status r)" "er_status r' \<noteq> er_status r"
      "coherent l'" "\<And>j. stored_effect j l' = stored_effect j l" "effect_events l' = effect_events l"
      "effect_step opn l = effect_save k r' l'"
proof (cases opn)
  case (EPrepare r)
  show thesis
  proof (cases "stored_effect (er_key r) l")
    case None
    then show thesis
      by (intro new[of "er_key r" "r\<lparr>er_status := EfPrepared\<rparr>"]) (simp_all add: EPrepare effect_prepare_spec[OF assms])
  next
    case (Some old)
    then show thesis
      using coherent_cache[OF assms Some] assms
      by (intro same) (simp_all add: EPrepare effect_prepare_spec[OF assms])
  qed
next
  case (EMove now k s us)
  note g = effect_get_spec[OF assms, of k]
  obtain l' where l': "effect_get k l = (stored_effect k l, l')" using g(1) by (cases "effect_get k l") auto
  then have l'': "coherent l'" "\<And>j. stored_effect j l' = stored_effect j l" "effect_events l' = effect_events l"
    using g(2,4) effect_get_spec(3)[OF assms, of _ k] by simp_all
  show thesis
  proof (cases "snd (effect_transition now k s us l) = l'")
    case True
    then show thesis using l'' by (intro same) (simp_all add: EMove)
  next
    case False
    then obtain r target where r: "stored_effect k l = Some r" "effect_status_of s = ok target"
        "target \<noteq> er_status r" "target \<in> effect_moves (er_status r)"
      using l' by (auto simp: effect_transition_def split: option.splits sum.splits if_splits)
    let ?r' = "(fold effect_set us (r\<lparr>er_status := target\<rparr>))\<lparr>er_updated := now\<rparr>"
    have step: "effect_step opn l = effect_save k ?r' l'"
      using l' r by (simp add: EMove effect_transition_def Let_def)
    have "er_key ?r' = k" using stored_key[OF assms r(1)] by simp
    then show thesis using r l'' step by (intro moved[of k r ?r' l']) simp_all
  qed
next
  case (EGet k)
  show thesis using effect_get_spec[OF assms] by (intro same) (simp_all add: EGet)
next
  case ERestart
  have "coherent (effect_restart l)" using assms by (auto simp: coherent_def effect_restart_def)
  then show thesis by (intro same) (simp_all add: ERestart effect_restart_def)
qed

definition effect_edge :: "effect_status option \<Rightarrow> effect_status option \<Rightarrow> bool" where
  "effect_edge p q \<longleftrightarrow>
    (case p of None \<Rightarrow> q \<noteq> None | Some s \<Rightarrow> \<exists>t \<in> effect_moves s. t \<noteq> s \<and> q = Some t)"

definition stored_status :: "string \<Rightarrow> effect_ledger \<Rightarrow> effect_status option" where
  "stored_status k l = map_option er_status (stored_effect k l)"

interpretation stored_receipt: invariant_machine "stored_status k" effect_events effect_step
  effect_edge coherent for k
proof
  fix l opn
  assume inv: "coherent l"
  show "coherent (effect_step opn l)"
    by (cases rule: effect_step_cases[OF inv, of opn]) (use inv in \<open>simp_all add: coherent_save\<close>)
  show "effect_events l \<le> effect_events (effect_step opn l)"
    by (cases rule: effect_step_cases[OF inv, of opn]) (use inv in \<open>simp_all add: events_save\<close>)
  assume ne: "stored_status k (effect_step opn l) \<noteq> stored_status k l"
  show "effect_edge (stored_status k l) (stored_status k (effect_step opn l))"
    by (cases rule: effect_step_cases[OF inv, of opn])
      (use inv ne in \<open>auto simp: stored_status_def effect_edge_def stored_save split: if_splits\<close>)
  show "effect_events l < effect_events (effect_step opn l)"
    by (cases rule: effect_step_cases[OF inv, of opn])
      (use inv ne in \<open>auto simp: stored_status_def events_save\<close>)
qed

lemma settled_receipt_kept:
  assumes "coherent l" "stored_effect k l = Some r" "er_status r \<in> {EfCommitted, EfCompensated}"
  shows "stored_effect k (fold effect_step ops l) = Some r"
  using assms
proof (induction ops arbitrary: l)
  case (Cons opn ops)
  have "stored_effect k (effect_step opn l) = Some r"
    by (cases rule: effect_step_cases[OF Cons.prems(1), of opn])
      (use Cons.prems in \<open>auto simp: stored_save effect_moves_def\<close>)
  then show ?case using Cons.IH stored_receipt.good_step[OF Cons.prems(1)] Cons.prems(3) by simp
qed simp

subsection \<open>Properties\<close>

text \<open>At most one effect per idempotency key, across restarts.  A receipt that was committed
  or compensated is never changed again by any later preparation, move, read or restart, and
  preparing the same key returns that receipt, or is refused exactly when it names another
  action or another payload.\<close>

theorem committed_effect_final:
  assumes "coherent l" "stored_effect (er_key req) l = Some r"
    and "er_status r \<in> {EfCommitted, EfCompensated}"
  shows "stored_effect (er_key req) (fold effect_step ops l) = Some r \<and>
    (if different_effect r req
     then effect_prepare req (fold effect_step ops l) =
       raise (ValueError ''idempotency key is bound to a different effect'')
     else \<exists>l'. effect_prepare req (fold effect_step ops l) = ok (r, l'))"
  using settled_receipt_kept[OF assms] stored_receipt.run_good[OF assms(1), of ops]
  by (simp add: effect_prepare_spec)

text \<open>The stored status of every key moves only along the effect table, whatever the order of
  preparations, moves, reads and restarts, each change is logged, and a ledger reads exactly
  what is stored.\<close>

theorem effect_status_follows_table:
  assumes "coherent l"
  shows "effect_edge\<^sup>*\<^sup>* (stored_status k l) (stored_status k (fold effect_step ops l)) \<and>
    (effect_events (fold effect_step ops l) = effect_events l \<longrightarrow>
       stored_status k (fold effect_step ops l) = stored_status k l) \<and>
    fst (effect_get k (fold effect_step ops l)) = stored_effect k (fold effect_step ops l) \<and>
    fst (effect_get k (effect_restart (fold effect_step ops l))) = stored_effect k (fold effect_step ops l)"
proof -
  let ?l = "fold effect_step ops l"
  have good: "coherent ?l" by (rule stored_receipt.run_good[OF assms])
  have "coherent (effect_restart ?l)" using stored_receipt.good_step[OF good, of ERestart] by simp
  then show ?thesis
    using stored_receipt.good_reaches[OF assms, of k ops] stored_receipt.good_same_rev[OF assms, of ops k]
      effect_get_spec(1)[OF good, of k] effect_get_spec(1)[of "effect_restart ?l" k]
    by (simp add: effect_restart_def)
qed

definition sample_receipt :: "string \<Rightarrow> effect_status \<Rightarrow> effect_receipt" where
  "sample_receipt k s = \<lparr>er_id = ''e'', er_action = ''write'', er_key = k, er_status = s, er_task = [],
     er_actor = [], er_hash = ''h'', er_output = [], er_error = [], er_created = 0, er_updated = 0\<rparr>"

definition one_effect :: effect_ledger where
  "one_effect = \<lparr>el_store = Some \<lparr>cs_tasks = [], cs_handoffs = [],
     cs_receipts = [(''k'', sample_receipt ''k'' EfCommitted)], cs_events = []\<rparr>, el_receipts = []\<rparr>"

lemma one_effect_coherent: "coherent one_effect"
  by (auto simp: coherent_def one_effect_def get_receipt_def sample_receipt_def)

theorem committed_effect_final_witness:
  "\<exists>l'. effect_prepare (sample_receipt ''k'' EfPrepared)
     (fold effect_step [EMove 1 ''k'' ''prepared'' [SetHash ''x''], ERestart] one_effect)
     = ok (sample_receipt ''k'' EfCommitted, l')"
proof -
  have r: "stored_effect (er_key (sample_receipt ''k'' EfPrepared)) one_effect = Some (sample_receipt ''k'' EfCommitted)"
    "er_status (sample_receipt ''k'' EfCommitted) \<in> {EfCommitted, EfCompensated}"
    "\<not> different_effect (sample_receipt ''k'' EfCommitted) (sample_receipt ''k'' EfPrepared)"
    by (simp_all add: stored_effect_def one_effect_def get_receipt_def sample_receipt_def different_effect_def)
  show ?thesis
    using committed_effect_final[OF one_effect_coherent r(1,2), of
        "[EMove 1 ''k'' ''prepared'' [SetHash ''x''], ERestart]"] r(3)
    by simp
qed

theorem effect_status_follows_table_witness:
  "fst (effect_get ''k'' (effect_restart (fold effect_step [EGet ''k'', ERestart] one_effect)))
     = stored_effect ''k'' (fold effect_step [EGet ''k'', ERestart] one_effect)"
  using effect_status_follows_table[OF one_effect_coherent, of "''k''" "[EGet ''k'', ERestart]"]
  by (simp del: fold.simps)

end
