(* ===== verification/CollabScheduler.thy ===== *)
theory CollabScheduler
  imports CollabBudget CollabEffects "HOL-Library.Multiset"
begin

text \<open>
  \<open>src/collaboration/scheduler.py\<close>: the scheduler over the task graph, the store and the role
  budget.  The handler is an argument, a function of the claimed task and of the store it may
  write to, that returns a result or raises.  A step reads the clock when it selects, claims and
  completes, and once more when it records a failure.
\<close>

subsection \<open>The scheduler\<close>

record scheduler =
  sd_store :: collab_store
  sd_budget :: "budget_ledger option"
  sd_dag :: dag
  sd_last_role :: string

definition submit_task :: "real \<Rightarrow> agent_task \<Rightarrow> scheduler \<Rightarrow> agent_task res \<times> scheduler" where
  "submit_task now task sch =
    (case create_task now task (sd_store sch) of
       Inl e \<Rightarrow> (raise e, sch)
     | Inr (stored, st) \<Rightarrow>
        (let sch = sch\<lparr>sd_store := st\<rparr> in
         if at_id stored \<in> set (al_keys (sd_dag sch)) then (ok stored, sch)
         else case dag_add stored (sd_dag sch) of
            Inl e \<Rightarrow> (raise e, sch)
          | Inr g \<Rightarrow> (ok stored, sch\<lparr>sd_dag := g\<rparr>)))"

text \<open>One round over the remaining tasks adds those whose dependencies are loaded; a round that
  adds none ends the reload.\<close>

fun refresh_round ::
  "agent_task list \<Rightarrow> agent_task list \<Rightarrow> bool \<Rightarrow> dag \<Rightarrow> exn option \<times> agent_task list \<times> bool \<times> dag" where
  "refresh_round [] remaining progressed g = (None, remaining, progressed, g)"
| "refresh_round (t # ts) remaining progressed g =
    (if set (at_deps t) \<subseteq> set (al_keys g)
     then case dag_add t g of
            Inl e \<Rightarrow> (Some e, remaining, progressed, g)
          | Inr g' \<Rightarrow> refresh_round ts (remove1 t remaining) True g'
     else refresh_round ts remaining progressed g)"

lemma refresh_round_shrinks:
  "refresh_round ts remaining p g = (e, remaining', p', g') \<Longrightarrow> mset ts \<subseteq># mset remaining \<Longrightarrow>
     length remaining' \<le> length remaining \<and> (p' \<longrightarrow> p \<or> length remaining' < length remaining)"
proof (induction ts remaining p g rule: refresh_round.induct)
  case (2 t ts remaining p g)
  have sub: "mset ts \<subseteq># mset remaining" "t \<in> set remaining" "mset ts \<subseteq># mset (remove1 t remaining)"
    using 2(4) by (auto simp: insert_subset_eq_iff intro: subset_mset.order_trans[OF _ diff_subset_eq_self])
  show ?case
  proof (cases "set (at_deps t) \<subseteq> set (al_keys g) \<and> (\<exists>g1. dag_add t g = Inr g1)")
    case True
    then obtain g1 where g1: "dag_add t g = Inr g1" "set (at_deps t) \<subseteq> set (al_keys g)" by blast
    have "length (remove1 t remaining) < length remaining"
      using sub(2) length_pos_if_in_set[of t remaining] by (simp add: length_remove1)
    then show ?thesis using 2(1)[OF g1(2,1) _ sub(3)] 2(3) g1 by auto
  next
    case False
    then show ?thesis using 2(2,3) sub(1) by (auto split: sum.splits if_splits)
  qed
qed simp

function refresh_loop :: "agent_task list \<Rightarrow> dag \<Rightarrow> unit res \<times> dag" where
  "refresh_loop remaining g =
    (if remaining = [] then (ok (), g)
     else case refresh_round remaining remaining False g of
       (Some e, _, _, g') \<Rightarrow> (raise e, g')
     | (None, remaining', progressed, g') \<Rightarrow>
        if \<not> progressed
        then (raise (ValueError ''persisted collaboration tasks contain unknown dependency or cycle''), g')
        else refresh_loop remaining' g')"
  by pat_completeness auto
termination
  by (relation "measure (\<lambda>(remaining, g). length remaining)") (auto dest!: refresh_round_shrinks[OF sym])


declare refresh_loop.simps [simp del]

definition refresh :: "string \<Rightarrow> scheduler \<Rightarrow> unit res \<times> scheduler" where
  "refresh run sch =
     (let (r, g) = refresh_loop (list_tasks run (sd_store sch)) [] in (r, sch\<lparr>sd_dag := g\<rparr>))"

definition pick_task :: "string \<Rightarrow> agent_task list \<Rightarrow> agent_task" where
  "pick_task last_role ready =
    (let candidates = filter (\<lambda>t. at_priority t = at_priority (hd ready)) ready;
         alternates = filter (\<lambda>t. at_role t \<noteq> last_role) candidates in
     hd (if alternates \<noteq> [] then alternates else candidates))"

text \<open>\<open>str(exc)\<close>: the message, quoted for a missing key.\<close>

fun exn_text :: "exn \<Rightarrow> string" where
  "exn_text (KeyError k) = [CHR 0x27] @ k @ [CHR 0x27]"
| "exn_text (ValueError s) = s"
| "exn_text (AttributeError s) = s"
| "exn_text (TypeErr s) = s"
| "exn_text (PatchError code s) = s"
| "exn_text (TaskDAGError s) = s"
| "exn_text (LeaseConflictError s) = s"
| "exn_text (CoordinationError code s) = s"
| "exn_text StopIter = []"

definition record_result ::
  "real \<Rightarrow> string \<Rightarrow> agent_task \<Rightarrow> agent_result \<Rightarrow> scheduler \<Rightarrow> agent_result res \<times> scheduler" where
  "record_result now worker claimed result sch =
    (case complete_task now (at_id claimed) result worker (sd_store sch) of
       Inl e \<Rightarrow> (raise e, sch)
     | Inr (_, st) \<Rightarrow>
        (case refresh (at_run claimed) (sch\<lparr>sd_store := st\<rparr>) of
           (Inl e, sch') \<Rightarrow> (raise e, sch')
         | (Inr _, sch') \<Rightarrow> (ok result, sch')))"

definition failed_result :: "real \<Rightarrow> agent_task \<Rightarrow> exn \<Rightarrow> agent_result" where
  "failed_result now claimed e = new_result now (at_id claimed) TkFailed (take 500 (exn_text e))"

type_synonym handler = "agent_task \<Rightarrow> collab_store \<Rightarrow> agent_result res \<times> collab_store"

definition run_claimed ::
  "real \<Rightarrow> real \<Rightarrow> string \<Rightarrow> handler \<Rightarrow> agent_task \<Rightarrow> scheduler \<Rightarrow> agent_result res \<times> scheduler" where
  "run_claimed t2 t3 worker handler claimed sch =
    (let (outcome, st) = handler claimed (sd_store sch);
         sch = sch\<lparr>sd_store := st\<rparr>;
         (r, sch) = (case outcome of
            Inl e \<Rightarrow> (raise e, sch)
          | Inr result \<Rightarrow> record_result t2 worker claimed result sch) in
     case r of
       Inr result \<Rightarrow> (ok result, sch)
     | Inl e \<Rightarrow> record_result t3 worker claimed (failed_result t3 claimed e) sch)"

definition claim_and_run ::
  "real \<Rightarrow> real \<Rightarrow> real \<Rightarrow> string \<Rightarrow> handler \<Rightarrow> real \<Rightarrow> agent_task \<Rightarrow> scheduler \<Rightarrow>
     agent_result res \<times> scheduler" where
  "claim_and_run t1 t2 t3 worker handler lease_seconds task sch =
    (case claim_task t1 (at_id task) worker lease_seconds (sd_store sch) of
       Inl e \<Rightarrow> (raise e, sch)
     | Inr (claimed, st) \<Rightarrow>
        run_claimed t2 t3 worker handler claimed
          (sch\<lparr>sd_store := st, sd_last_role := at_role claimed\<rparr>))"

definition reservation_id :: "agent_task \<Rightarrow> string" where
  "reservation_id task = ''task:'' @ at_id task @ '':attempt:'' @ nat_str (nat (at_attempt task + 1))"

definition release_budget :: "string \<Rightarrow> scheduler \<Rightarrow> scheduler" where
  "release_budget reservation sch =
     sch\<lparr>sd_budget := map_option (\<lambda>l. snd (ledger_release reservation None l)) (sd_budget sch)\<rparr>"

definition run_once ::
  "real \<Rightarrow> real \<Rightarrow> real \<Rightarrow> real \<Rightarrow> string \<Rightarrow> handler \<Rightarrow> real \<Rightarrow> scheduler \<Rightarrow>
     agent_result option res \<times> scheduler" where
  "run_once t0 t1 t2 t3 worker handler lease_seconds sch =
    (let ready = dag_ready t0 (sd_dag sch) in
     if ready = [] then (ok None, sch)
     else
      (let task = pick_task (sd_last_role sch) ready in
       case sd_budget sch of
         None \<Rightarrow>
           (case claim_and_run t1 t2 t3 worker handler lease_seconds task sch of
              (r, sch') \<Rightarrow> (map_sum id Some r, sch'))
       | Some l \<Rightarrow>
          (let rid = reservation_id task;
               (decision, l') = ledger_reserve (at_role task) (at_budget task) rid l;
               sch = sch\<lparr>sd_budget := Some l'\<rparr> in
           if \<not> bd_allowed decision
           then (ok (Some (new_result t0 (at_id task) TkBlocked (bd_reason decision))), sch)
           else
             (case claim_and_run t1 t2 t3 worker handler lease_seconds task sch of
                (r, sch') \<Rightarrow> (map_sum id Some r, release_budget rid sch')))))"

subsection \<open>Reloading the graph\<close>

definition keyed :: "agent_task list \<Rightarrow> dag" where
  "keyed ts = map (\<lambda>t. (at_id t, t)) ts"

text \<open>How far a reload of \<open>ts\<close> has come: the graph holds the tasks no longer remaining.\<close>

definition loaded :: "agent_task list \<Rightarrow> agent_task list \<Rightarrow> dag \<Rightarrow> bool" where
  "loaded ts remaining g \<longleftrightarrow> dag_inv g \<and> distinct (map at_id remaining) \<and>
     set (al_keys g) \<inter> at_id ` set remaining = {} \<and> set (map snd g) \<union> set remaining = set ts \<and>
     (\<forall>t \<in> set (map snd g). task_errors t = [])"

lemma loaded_add:
  assumes "loaded ts remaining g" "t \<in> set remaining" "dag_add t g = Inr g'"
  shows "loaded ts (remove1 t remaining) g'"
proof -
  have inv: "dag_inv g" using assms(1) by (simp add: loaded_def)
  have a: "task_errors t = []" "at_id t \<notin> set (al_keys g)" "g' = al_put (at_id t) t g"
    using assms(3) dag_add_ok_iff[OF inv] by auto
  have g': "g' = g @ [(at_id t, t)]" using a(2,3) by (simp add: al_put_fresh)
  have dist: "distinct remaining" "inj_on at_id (set remaining)"
    using assms(1) by (auto simp: loaded_def distinct_map)
  have rest: "set (remove1 t remaining) = set remaining - {t}" using dist(1) by simp
  have "distinct (map at_id (remove1 t remaining))"
    using dist by (simp add: distinct_map rest inj_on_diff)
  moreover have "at_id t \<notin> at_id ` set (remove1 t remaining)"
    using dist(2) assms(2) by (auto simp: rest inj_on_def)
  moreover have "set (al_keys g') = insert (at_id t) (set (al_keys g))" by (simp add: g' al_keys_def)
  moreover have "set (map snd g') = insert t (set (map snd g))" by (simp add: g')
  ultimately show ?thesis
    using assms(1,2) a(1) dag_add_inv[OF inv assms(3)] rest unfolding loaded_def by auto
qed

lemma refresh_round_spec:
  assumes "refresh_round xs remaining p g = (e, remaining', p', g')" "loaded ts remaining g"
    and "set xs \<subseteq> set remaining" "distinct xs"
  shows "(e \<noteq> None \<longrightarrow> (\<exists>t \<in> set ts. task_errors t \<noteq> [])) \<and>
    (e = None \<longrightarrow> loaded ts remaining' g' \<and>
       (\<not> p' \<longrightarrow> \<not> p \<and> g' = g \<and> remaining' = remaining \<and>
          (\<forall>t \<in> set xs. \<not> set (at_deps t) \<subseteq> set (al_keys g))))"
  using assms
proof (induction xs remaining p g rule: refresh_round.induct)
  case (2 t xs remaining p g)
  have inv: "dag_inv g" using 2(4) by (simp add: loaded_def)
  show ?case
  proof (cases "set (at_deps t) \<subseteq> set (al_keys g)")
    case True
    show ?thesis
    proof (cases "dag_add t g")
      case (Inl e1)
      have "at_id t \<notin> set (al_keys g)" using 2(4,5) by (auto simp: loaded_def)
      then have "task_errors t \<noteq> []" using Inl True dag_add_ok_iff[OF inv, of t] by fastforce
      moreover have "t \<in> set ts" using 2(4,5) by (auto simp: loaded_def)
      ultimately show ?thesis using 2(3) True Inl by auto
    next
      case (Inr g1)
      have l: "loaded ts (remove1 t remaining) g1" using loaded_add[OF 2(4) _ Inr] 2(5) by simp
      have "set xs \<subseteq> set (remove1 t remaining)"
        using 2(4-6) by (auto simp: loaded_def distinct_map in_set_remove1)
      then show ?thesis using 2(1)[OF True Inr _ l] 2(3,6) True Inr by auto
    qed
  next
    case False
    then show ?thesis using 2(2)[OF False _ 2(4)] 2(3,5,6) by auto
  qed
qed simp

lemma loaded_end:
  assumes "loaded ts [] g"
  shows "set (al_keys g) = at_id ` set ts" "t \<in> set ts \<Longrightarrow> al_get g (at_id t) = Some t"
    "t \<in> set ts \<Longrightarrow> task_errors t = [] \<and> set (at_deps t) \<subseteq> at_id ` set ts"
proof -
  have inv: "dag_inv g" and ts: "set (map snd g) = set ts" using assms by (simp_all add: loaded_def)
  have get: "al_get g (at_id t) = Some t" if "t \<in> set ts" for t
    using dag_inv_task[OF inv] ts that by simp
  have "k \<in> at_id ` set ts" if kin: "k \<in> set (al_keys g)" for k
  proof -
    obtain t where t: "al_get g k = Some t" using kin by (cases "al_get g k") (auto simp: al_get_None_key)
    then have "t \<in> set (map snd g)" by (auto dest!: map_of_SomeD intro: image_eqI[rotated])
    then have "t \<in> set ts" using ts by simp
    moreover have "at_id t = k" using inv t by (simp add: dag_inv_def)
    ultimately show ?thesis by blast
  qed
  moreover have "at_id t \<in> set (al_keys g)" if "t \<in> set ts" for t using get[OF that] by (rule al_get_Some_key)
  ultimately show keys: "set (al_keys g) = at_id ` set ts" by blast
  show "t \<in> set ts \<Longrightarrow> al_get g (at_id t) = Some t" by (rule get)
  show "task_errors t = [] \<and> set (at_deps t) \<subseteq> at_id ` set ts" if "t \<in> set ts"
  proof -
    have "t \<in> set (map snd g)" using ts that by simp
    then have "task_errors t = []" using assms unfolding loaded_def by blast
    moreover have "set (at_deps t) \<subseteq> set (al_keys g)"
      using inv get[OF that] unfolding dag_inv_def by blast
    ultimately show ?thesis using keys by simp
  qed
qed

lemma keyed_get: "distinct (map at_id ts) \<Longrightarrow> t \<in> set ts \<Longrightarrow> al_get (keyed ts) (at_id t) = Some t"
  by (intro map_of_is_SomeI) (auto simp: keyed_def comp_def)

lemma keyed_keys [simp]: "al_keys (keyed ts) = map at_id ts"
  by (simp add: al_keys_def keyed_def)

lemma keyed_deps:
  assumes "loaded ts [] g" "distinct (map at_id ts)"
  shows "has_cycle (keyed ts) = has_cycle g"
  unfolding has_cycle_def
proof (rule cyclic_graph_cong)
  show "set (al_keys (keyed ts)) = set (al_keys g)" by (simp add: loaded_end(1)[OF assms(1)])
  fix k assume "k \<in> set (al_keys (keyed ts))"
  then obtain t where "t \<in> set ts" "k = at_id t" by auto
  then show "set (dag_deps (keyed ts) k) = set (dag_deps g k)"
    by (simp add: dag_deps_def keyed_get[OF assms(2)] loaded_end(2)[OF assms(1)])
qed

text \<open>A task set the graph can hold.\<close>

definition loadable :: "agent_task list \<Rightarrow> bool" where
  "loadable ts \<longleftrightarrow> (\<forall>t \<in> set ts. task_errors t = [] \<and> set (at_deps t) \<subseteq> at_id ` set ts) \<and>
     \<not> has_cycle (keyed ts)"

lemma loadable_progress:
  assumes "loadable ts" "distinct (map at_id ts)" "loaded ts remaining g" "remaining \<noteq> []"
  shows "\<exists>t \<in> set remaining. set (at_deps t) \<subseteq> set (al_keys g)"
proof -
  let ?P = "at_id ` set remaining"
  have sub: "set remaining \<subseteq> set ts" "set (map snd g) \<union> set remaining = set ts" "dag_inv g"
    using assms(3) by (auto simp: loaded_def)
  have P: "?P \<subseteq> set (al_keys (keyed ts))" "?P \<noteq> {}"
    using sub(1) assms(4) by auto
  obtain k where k: "k \<in> ?P"
      "\<forall>d \<in> set (dag_deps (keyed ts) k) \<inter> set (al_keys (keyed ts)). d \<notin> ?P"
    using acyclic_source[of "al_keys (keyed ts)" "dag_deps (keyed ts)" ?P] P assms(1)
    unfolding loadable_def has_cycle_def by blast
  obtain t where t: "t \<in> set remaining" "k = at_id t" using k(1) by blast
  then have tin: "t \<in> set ts" using sub(1) by blast
  have deps: "set (at_deps t) \<subseteq> at_id ` set ts" using assms(1) tin by (simp add: loadable_def)
  have "d \<in> set (al_keys g)" if din: "d \<in> set (at_deps t)" for d
  proof -
    obtain u where u: "u \<in> set ts" "d = at_id u" using deps din by blast
    have "d \<notin> ?P" using k(2) din u t tin by (simp add: dag_deps_def keyed_get[OF assms(2)])
    then have "u \<notin> set remaining" using u(2) by blast
    then have "u \<in> set (map snd g)" using u(1) sub(2) by blast
    from dag_inv_task[OF sub(3) this] show ?thesis using u(2) al_get_Some_key by fastforce
  qed
  then show ?thesis using t(1) by blast
qed

lemma refresh_loop_spec:
  assumes "distinct (map at_id ts)" "loaded ts remaining g"
  shows "fst (refresh_loop remaining g) = ok () \<longleftrightarrow> loadable ts"
    "fst (refresh_loop remaining g) = ok () \<Longrightarrow> loaded ts [] (snd (refresh_loop remaining g))"
proof -
  have "(fst (refresh_loop remaining g) = ok () \<longleftrightarrow> loadable ts) \<and>
    (fst (refresh_loop remaining g) = ok () \<longrightarrow> loaded ts [] (snd (refresh_loop remaining g)))"
    using assms(2)
  proof (induction remaining g rule: refresh_loop.induct)
    case (1 remaining g)
    show ?case
    proof (cases "remaining = []")
      case True
      then have "\<not> has_cycle g" using 1(2) by (simp add: loaded_def has_cycle_def cyclic_graph_iff dag_inv_def)
      then have "loadable ts"
        using True 1(2) loaded_end[of ts g] keyed_deps[of ts g] assms(1) by (simp add: loadable_def)
      then show ?thesis using True 1(2) by (simp add: refresh_loop.simps)
    next
      case False
      obtain e remaining' p' g' where r: "refresh_round remaining remaining False g = (e, remaining', p', g')"
        by (cases "refresh_round remaining remaining False g") auto
      have dist: "distinct remaining" using 1(2) by (simp add: loaded_def distinct_map)
      note spec = refresh_round_spec[OF r 1(2) subset_refl dist]
      show ?thesis
      proof (cases e)
        case (Some x)
        then show ?thesis using False r spec by (auto simp: refresh_loop.simps[of remaining] loadable_def)
      next
        case None
        show ?thesis
        proof (cases p')
          case True
          then show ?thesis
            using 1(1)[OF False r[symmetric] None] None spec r False
            by (simp add: refresh_loop.simps[of remaining])
        next
          case p: False
          then have "\<not> loadable ts"
            using loadable_progress[OF _ assms(1) 1(2) False] spec None by blast
          then show ?thesis using p None r False by (simp add: refresh_loop.simps[of remaining])
        qed
      qed
    qed
  qed
  then show "fst (refresh_loop remaining g) = ok () \<longleftrightarrow> loadable ts"
    "fst (refresh_loop remaining g) = ok () \<Longrightarrow> loaded ts [] (snd (refresh_loop remaining g))" by auto
qed

lemma loaded_start: "distinct (map at_id ts) \<Longrightarrow> loaded ts ts []"
  by (simp add: loaded_def dag_inv_empty al_keys_def)

lemma list_tasks_distinct:
  assumes "store_inv st"
  shows "distinct (map at_id (list_tasks run st))"
proof -
  let ?rows = "filter (\<lambda>r. run = [] \<or> at_run (rw_task r) = run) (map snd (cs_tasks st))"
  let ?key = "\<lambda>r. (- rw_priority r, rw_updated r, at_id (rw_task r))"
  have id: "at_id (make_task (rw_task r)) = at_id (rw_task r)" for r by (simp add: make_task_def)
  have all: "map (\<lambda>kr. at_id (rw_task (snd kr))) (cs_tasks st) = al_keys (cs_tasks st)"
    unfolding al_keys_def
  proof (rule map_cong[OF refl])
    fix kr assume kr: "kr \<in> set (cs_tasks st)"
    have "row st (fst kr) = Some (snd kr)"
      using assms kr by (intro map_of_is_SomeI) (auto simp: store_inv_def al_keys_def)
    then show "at_id (rw_task (snd kr)) = fst kr" using assms by (simp add: store_inv_def)
  qed
  then have "distinct (map (\<lambda>r. at_id (rw_task r)) (map snd (cs_tasks st)))"
    using assms by (simp add: store_inv_def comp_def)
  then have "distinct (map (\<lambda>r. at_id (rw_task r)) ?rows)" by (rule distinct_map_filter)
  then have "distinct (map (\<lambda>r. at_id (rw_task r)) (sort_key ?key ?rows))"
    by (simp add: distinct_map)
  then show ?thesis by (simp add: list_tasks_def comp_def id)
qed

lemma refresh_pair:
  "refresh run sch = (fst (refresh_loop (list_tasks run (sd_store sch)) []),
     sch\<lparr>sd_dag := snd (refresh_loop (list_tasks run (sd_store sch)) [])\<rparr>)"
  by (simp add: refresh_def split: prod.splits)

lemma refresh_ok_iff:
  "store_inv (sd_store sch) \<Longrightarrow> fst (refresh run sch) = ok () \<longleftrightarrow> loadable (list_tasks run (sd_store sch))"
  using refresh_loop_spec(1)[OF list_tasks_distinct loaded_start[OF list_tasks_distinct]]
  by (simp add: refresh_pair)

lemma refresh_keeps [simp]: "sd_store (snd (refresh run sch)) = sd_store sch"
  "sd_budget (snd (refresh run sch)) = sd_budget sch"
  by (simp_all add: refresh_pair)

subsection \<open>One step\<close>

definition outcome_result :: "real \<Rightarrow> agent_task \<Rightarrow> agent_result res \<Rightarrow> agent_result" where
  "outcome_result now claimed outcome = (case outcome of Inr r \<Rightarrow> r | Inl e \<Rightarrow> failed_result now claimed e)"

definition budget_grants :: "agent_task \<Rightarrow> scheduler \<Rightarrow> bool" where
  "budget_grants task sch \<longleftrightarrow> (\<forall>l. sd_budget sch = Some l \<longrightarrow>
     bd_allowed (fst (ledger_reserve (at_role task) (at_budget task) (reservation_id task) l)))"

definition end_status :: "agent_task \<Rightarrow> agent_result \<Rightarrow> task_status" where
  "end_status claimed result =
     (if ar_status result = TkFailed \<and> at_attempt claimed < at_max_attempts claimed
      then TkReady else ar_status result)"

text \<open>Completing a claimed task before its lease runs out succeeds, and afterwards the worker no
  longer owns it.\<close>

lemma complete_claimed:
  assumes "store_inv st0" "claim_task t1 k worker secs st0 = Inr (claimed, st)" "worker \<noteq> []"
    and "ar_task result = k" "now < t1 + max (1/10) secs"
  obtains u st' where "complete_task now k result worker st = Inr (u, st')"
    "row_status k st' = Some (end_status claimed result)" "store_inv st'" "at_id claimed = k"
    "\<And>now' result'. complete_task now' k result' worker st' =
       Inl (LeaseConflictError ''worker does not own task lease'')"
proof -
  obtain r0 where r0: "row st0 k = Some r0" using assms(2) by (auto simp: claim_task_def split: option.splits)
  have n: "normal_task (rw_task r0)" "at_id (rw_task r0) = k" "rw_version r0 = at_version (rw_task r0)"
    using assms(1) r0 by (simp_all add: store_inv_def)
  have claimed: "claimed = (rw_task r0)\<lparr>at_status := TkRunning, at_attempt := at_attempt (rw_task r0) + 1,
      at_owner := worker, at_lease := t1 + max (1/10) secs, at_version := rw_version r0 + 1, at_updated := t1\<rparr>"
    and row: "row st k = Some (r0\<lparr>rw_task := claimed, rw_version := at_version claimed, rw_owner := worker,
      rw_lease := at_lease claimed, rw_updated := t1\<rparr>)"
    using assms(2) r0 n(1) by (auto simp: claim_task_def Let_def split: option.splits)
  have cl: "normal_task claimed" "at_id claimed = k" "at_status claimed = TkRunning"
    "at_owner claimed = worker" "at_lease claimed = t1 + max (1/10) secs"
    using n unfolding claimed by (simp_all add: normal_task_def)
  define up where "up = claimed\<lparr>at_status := end_status claimed result,
      at_retry := (if ar_status result = TkFailed \<and> at_attempt claimed < at_max_attempts claimed
        then now + retry_delay (at_attempt claimed) else 0),
      at_result := Some result, at_owner := [], at_lease := 0, at_updated := now\<rparr>"
  have "owned_task now k worker st = Inr claimed"
    using cl assms(5) by (simp add: owned_task_def get_task_def row)
  then have cu: "completion_update now k result worker st = Inr up"
    using assms(4) by (simp add: completion_update_def up_def end_status_def Let_def)
  have up: "at_id up = k" "at_version up = at_version claimed" "at_owner up = []"
    "at_status up = end_status claimed result"
    using cl by (simp_all add: up_def)
  define fin where "fin = up\<lparr>at_version := at_version claimed + 1\<rparr>"
  obtain u st' where c: "complete_task now k result worker st = Inr (u, st')"
      "row st' k = Some (r0\<lparr>rw_task := fin, rw_version := at_version fin, rw_owner := [],
         rw_lease := at_lease fin, rw_priority := rw_priority r0, rw_updated := at_updated fin\<rparr>)"
    by (simp add: complete_task_def cu replace_task_def row up Let_def fin_def)
  have inv: "store_inv st"
    using stored_task.good_step[OF assms(1), of "OpClaim t1 k worker secs"] assms(2) by (simp add: keep_on_error_def)
  have inv': "store_inv st'"
    using stored_task.good_step[OF inv, of "OpComplete now k result worker"] c(1) by (simp add: keep_on_error_def)
  have "normal_task fin" using cl(1) by (simp add: fin_def up_def normal_task_def)
  then have "owned_task now' k worker st' = Inl (LeaseConflictError ''worker does not own task lease'')" for now'
    using assms(3) up(3) by (simp add: owned_task_def get_task_def c(2)) (simp add: fin_def)
  then have lost: "complete_task now' k result' worker st' =
       Inl (LeaseConflictError ''worker does not own task lease'')" for now' result'
    by (simp add: complete_task_def completion_update_def)
  show thesis
    by (rule that[OF c(1) _ inv' cl(2) lost]) (use up(4) in \<open>simp add: row_status_def c(2) fin_def\<close>)
qed

lemma record_result_spec:
  assumes "complete_task now (at_id claimed) result worker (sd_store sch) = Inr (u, st')" "store_inv st'"
  shows "sd_store (snd (record_result now worker claimed result sch)) = st'"
    "fst (record_result now worker claimed result sch) = ok result \<longleftrightarrow> loadable (list_tasks (at_run claimed) st')"
    "is_ok (fst (record_result now worker claimed result sch)) \<longleftrightarrow> loadable (list_tasks (at_run claimed) st')"
proof -
  let ?s = "sch\<lparr>sd_store := st'\<rparr>"
  obtain r s where rs: "refresh (at_run claimed) ?s = (r, s)" by (cases "refresh (at_run claimed) ?s")
  have s: "sd_store s = st'" using refresh_keeps(1)[of "at_run claimed" ?s] rs by simp
  have r: "r = ok () \<longleftrightarrow> loadable (list_tasks (at_run claimed) st')"
    using refresh_ok_iff[of ?s "at_run claimed"] assms(2) rs by simp
  show "sd_store (snd (record_result now worker claimed result sch)) = st'"
    "fst (record_result now worker claimed result sch) = ok result \<longleftrightarrow> loadable (list_tasks (at_run claimed) st')"
    "is_ok (fst (record_result now worker claimed result sch)) \<longleftrightarrow> loadable (list_tasks (at_run claimed) st')"
    using assms(1) rs s r by (cases r; simp add: record_result_def)+
qed

text \<open>What running a claimed task does, whether the handler returns or raises.\<close>

lemma run_claimed_spec:
  assumes "store_inv st0" "claim_task t1 k worker secs st0 = Inr (claimed, sd_store sch)" "worker \<noteq> []"
    and "handler claimed (sd_store sch) = (outcome, sd_store sch)"
    and "case outcome of Inr r \<Rightarrow> ar_task r = k \<and> t2 < t1 + max (1/10) secs | Inl e \<Rightarrow> t3 < t1 + max (1/10) secs"
  shows "let rs = run_claimed t2 t3 worker handler claimed sch; result = outcome_result t3 claimed outcome in
    row_status k (sd_store (snd rs)) = Some (end_status claimed result) \<and>
    (fst rs = ok result \<longleftrightarrow> loadable (list_tasks (at_run claimed) (sd_store (snd rs)))) \<and>
    (is_ok outcome \<and> fst rs \<noteq> ok result \<longrightarrow>
       fst rs = raise (LeaseConflictError ''worker does not own task lease''))"
proof (cases outcome)
  case (Inl e)
  have id: "at_id claimed = k" using assms(1,2)
    by (auto simp: claim_task_def Let_def store_inv_def split: option.splits)
  have ft: "ar_task (failed_result t3 claimed e) = k" and lt: "t3 < t1 + max (1/10) secs"
    using assms(5) Inl id by (simp_all add: failed_result_def new_result_def)
  obtain u st' where c: "complete_task t3 k (failed_result t3 claimed e) worker (sd_store sch) = Inr (u, st')"
      "row_status k st' = Some (end_status claimed (failed_result t3 claimed e))" "store_inv st'"
    using complete_claimed[OF assms(1,2,3) ft lt] by metis
  note rec = record_result_spec[of t3 claimed "failed_result t3 claimed e" worker sch, OF c(1)[folded id] c(3)]
  show ?thesis
    using rec c(2) assms(4) Inl by (simp add: run_claimed_def outcome_result_def Let_def)
next
  case (Inr res)
  obtain u st' where c: "complete_task t2 k res worker (sd_store sch) = Inr (u, st')"
      "row_status k st' = Some (end_status claimed res)" "store_inv st'" "at_id claimed = k"
      "\<And>now' result'. complete_task now' k result' worker st' =
         Inl (LeaseConflictError ''worker does not own task lease'')"
    using complete_claimed[OF assms(1,2,3), of res t2] assms(5) Inr by auto
  obtain r s where rs: "record_result t2 worker claimed res sch = (r, s)"
    by (cases "record_result t2 worker claimed res sch")
  have rec: "sd_store s = st'" "r = ok res \<longleftrightarrow> loadable (list_tasks (at_run claimed) st')"
      "is_ok r \<longleftrightarrow> loadable (list_tasks (at_run claimed) st')"
    using record_result_spec[of t2 claimed res worker sch u st'] c rs by simp_all
  have again: "record_result t3 worker claimed e' s =
      (raise (LeaseConflictError ''worker does not own task lease''), s)" for e'
    using c(4,5) rec(1) by (simp add: record_result_def)
  show ?thesis
  proof (cases r)
    case (Inl e)
    then show ?thesis
      using rec c(2) assms(4) Inr rs again by (simp add: run_claimed_def outcome_result_def Let_def)
  next
    case (Inr r')
    then show ?thesis
      using rec c(2) assms(4) \<open>outcome = Inr res\<close> rs by (auto simp: run_claimed_def outcome_result_def Let_def)
  qed
qed

subsection \<open>Properties\<close>

text \<open>C17. A reload is exact.  It succeeds precisely when every stored task of the run is valid,
  depends on stored tasks of the run only, and no dependency cycle exists, in whatever order the
  store lists them; the graph then holds exactly the listed tasks and is well formed.\<close>

theorem refresh_exact:
  assumes "store_inv (sd_store sch)"
  shows "(fst (refresh run sch) = ok () \<longleftrightarrow> loadable (list_tasks run (sd_store sch))) \<and>
    (loadable (list_tasks run (sd_store sch)) \<longrightarrow>
       dag_inv (sd_dag (snd (refresh run sch))) \<and>
       (\<forall>t. al_get (sd_dag (snd (refresh run sch))) (at_id t) = Some t \<longleftrightarrow>
          t \<in> set (list_tasks run (sd_store sch))))"
proof -
  let ?ts = "list_tasks run (sd_store sch)"
  have dist: "distinct (map at_id ?ts)" by (rule list_tasks_distinct[OF assms])
  note spec = refresh_loop_spec[OF dist loaded_start[OF dist]]
  have fin: "al_get g (at_id t) = Some t \<longleftrightarrow> t \<in> set ?ts" if l: "loaded ?ts [] g" for g t
  proof
    assume "al_get g (at_id t) = Some t"
    then have "t \<in> set (map snd g)" by (auto dest!: map_of_SomeD intro: image_eqI[rotated])
    then show "t \<in> set ?ts" using l unfolding loaded_def by auto
  qed (rule loaded_end(2)[OF l])
  have "dag_inv (snd (refresh_loop ?ts []))" if "loaded ?ts [] (snd (refresh_loop ?ts []))"
    using that by (simp add: loaded_def)
  then show ?thesis using spec fin by (simp add: refresh_pair)
qed

text \<open>Fair selection: the chosen task is ready, has the highest priority, and belongs to
  another role than the last one whenever such a ready task of that priority exists.\<close>

theorem pick_task_rotates:
  assumes "dag_ready now g \<noteq> []"
  shows "pick_task prev (dag_ready now g) \<in> set (dag_ready now g) \<and>
    (\<forall>t \<in> set (dag_ready now g). at_priority t \<le> at_priority (pick_task prev (dag_ready now g))) \<and>
    ((\<exists>t \<in> set (dag_ready now g). at_role t \<noteq> prev \<and>
        at_priority t = at_priority (pick_task prev (dag_ready now g))) \<longrightarrow>
      at_role (pick_task prev (dag_ready now g)) \<noteq> prev)"
proof -
  let ?r = "dag_ready now g"
  let ?top = "at_priority (hd ?r)"
  let ?cand = "filter (\<lambda>t. at_priority t = ?top) ?r"
  let ?alt = "filter (\<lambda>t. at_role t \<noteq> prev) ?cand"
  have "sorted (map task_key ?r)" by (simp add: dag_ready_def)
  then have max: "\<forall>t \<in> set ?r. at_priority t \<le> ?top"
    using assms by (cases ?r) (auto simp: task_key_def less_eq_prod_def)
  have cand: "hd ?r \<in> set ?cand" using assms by simp
  have p: "pick_task prev ?r = (if ?alt \<noteq> [] then hd ?alt else hd ?cand)"
    by (simp add: pick_task_def Let_def)
  have "pick_task prev ?r \<in> set ?cand"
  proof (cases "?alt = []")
    case True
    have "hd ?cand \<in> set ?cand" using cand by (intro hd_in_set) (auto simp: filter_empty_conv)
    then show ?thesis using True by (simp only: p) simp
  next
    case False
    then have "hd ?alt \<in> set ?alt" by (rule hd_in_set)
    then show ?thesis using False by (simp only: p) simp
  qed
  moreover have "at_role (pick_task prev ?r) \<noteq> prev" if "?alt \<noteq> []"
    using hd_in_set[OF that] that by (simp only: p) simp
  moreover have "?alt \<noteq> []" if "t \<in> set ?r" "at_role t \<noteq> prev" "at_priority t = ?top" for t
    using that by (auto simp: filter_empty_conv)
  ultimately show ?thesis using max by auto
qed

text \<open>C37. The outcome of a handler that keeps its lease is recorded.  When the budget grants the picked task, it is
  claimed, and the handler, which leaves the store alone, returns a result with the identifier of that
  task, or raises, and this is recorded before the lease runs out, the stored task ends in
  the status of that result (a raise counts as a failed result) or goes back to ready while
  attempts are left; the step returns the result exactly when the run's graph still reloads.  If
  it does not, a step whose handler succeeded reports a lost lease, though the task is recorded.
  A handler that outlives its lease is not covered: both attempts to record its outcome are refused.\<close>

theorem run_once_records_outcome:
  assumes "store_inv (sd_store sch)" "dag_ready t0 (sd_dag sch) \<noteq> []"
    and "task = pick_task (sd_last_role sch) (dag_ready t0 (sd_dag sch))" "budget_grants task sch"
    and "claim_task t1 (at_id task) worker secs (sd_store sch) = ok (claimed, st)" "worker \<noteq> []"
    and "handler claimed st = (outcome, st)"
    and "case outcome of Inr r \<Rightarrow> ar_task r = at_id task \<and> t2 < t1 + max (1/10) secs
           | Inl e \<Rightarrow> t3 < t1 + max (1/10) secs"
  shows "let rs = run_once t0 t1 t2 t3 worker handler secs sch; result = outcome_result t3 claimed outcome in
    row_status (at_id task) (sd_store (snd rs)) = Some (end_status claimed result) \<and>
    (fst rs = ok (Some result) \<longleftrightarrow> loadable (list_tasks (at_run claimed) (sd_store (snd rs)))) \<and>
    (is_ok outcome \<and> fst rs \<noteq> ok (Some result) \<longrightarrow>
       fst rs = raise (LeaseConflictError ''worker does not own task lease''))"
proof -
  have "\<exists>r s s' b. run_once t0 t1 t2 t3 worker handler secs sch = (map_sum id Some r, s') \<and>
      sd_store s' = sd_store s \<and> (r, s) = run_claimed t2 t3 worker handler claimed b \<and> sd_store b = st"
  proof (cases "sd_budget sch")
    case None
    let ?b = "sch\<lparr>sd_store := st, sd_last_role := at_role claimed\<rparr>"
    obtain r s where rs: "run_claimed t2 t3 worker handler claimed ?b = (r, s)"
      by (cases "run_claimed t2 t3 worker handler claimed ?b")
    have "run_once t0 t1 t2 t3 worker handler secs sch = (map_sum id Some r, s)"
      using assms(2,5) None by (simp add: run_once_def claim_and_run_def assms(3)[symmetric] rs)
    then show ?thesis using rs[symmetric] by (intro exI[of _ r] exI[of _ s] exI[of _ ?b]) simp
  next
    case (Some l)
    obtain d l1 where d: "ledger_reserve (at_role task) (at_budget task) (reservation_id task) l = (d, l1)"
      by (cases "ledger_reserve (at_role task) (at_budget task) (reservation_id task) l")
    then have "bd_allowed d" using assms(4) Some by (simp add: budget_grants_def)
    let ?b = "sch\<lparr>sd_budget := Some l1, sd_store := st, sd_last_role := at_role claimed\<rparr>"
    obtain r s where rs: "run_claimed t2 t3 worker handler claimed ?b = (r, s)"
      by (cases "run_claimed t2 t3 worker handler claimed ?b")
    have "run_once t0 t1 t2 t3 worker handler secs sch = (map_sum id Some r, release_budget (reservation_id task) s)"
      using assms(2,5) Some d \<open>bd_allowed d\<close>
      by (simp add: run_once_def claim_and_run_def assms(3)[symmetric] rs)
    then show ?thesis
      using rs[symmetric]
      by (intro exI[of _ r] exI[of _ s] exI[of _ "release_budget (reservation_id task) s"] exI[of _ ?b])
        (simp add: release_budget_def)
  qed
  then obtain r s s' b where r: "run_once t0 t1 t2 t3 worker handler secs sch = (map_sum id Some r, s')"
      "sd_store s' = sd_store s" "(r, s) = run_claimed t2 t3 worker handler claimed b" "sd_store b = st"
    by blast
  have "map_sum id Some r = ok (Some x) \<longleftrightarrow> r = ok x" "map_sum id Some r = raise e \<longleftrightarrow> r = raise e" for x e
    by (cases r; simp)+
  moreover have "row_status (at_id task) (sd_store s) = Some (end_status claimed (outcome_result t3 claimed outcome)) \<and>
      (r = ok (outcome_result t3 claimed outcome) \<longleftrightarrow> loadable (list_tasks (at_run claimed) (sd_store s))) \<and>
      (is_ok outcome \<and> r \<noteq> ok (outcome_result t3 claimed outcome) \<longrightarrow>
         r = raise (LeaseConflictError ''worker does not own task lease''))"
    using run_claimed_spec[OF assms(1), of t1 "at_id task" worker secs claimed b handler outcome t3 t2]
      assms(5-8) r(4)
    unfolding Let_def r(3)[symmetric] fst_conv snd_conv by blast
  ultimately show ?thesis by (simp add: Let_def r(1,2))
qed

lemma claim_and_run_budget: "sd_budget (snd (claim_and_run t1 t2 t3 worker handler secs task sch)) = sd_budget sch"
proof -
  have rec: "sd_budget s' = sd_budget s" if "record_result now worker c res s = (r, s')" for now c res s r s'
    using that by (auto simp: record_result_def refresh_pair split: sum.splits)
  have run: "sd_budget s' = sd_budget s" if "run_claimed t2 t3 worker handler c s = (r, s')" for c s r s'
    using that by (auto simp: run_claimed_def Let_def split: sum.splits prod.splits dest!: rec)
  show ?thesis
    by (auto simp: claim_and_run_def split: sum.splits dest: run
        intro: run[of _ "_\<lparr>sd_store := _, sd_last_role := _\<rparr>", simplified, OF prod.collapse[symmetric]])
qed

text \<open>No reservation leaks: whatever happens in a step (nothing ready, budget refused, claim
  refused, handler raising, completion or reload failing), the open reservations and the number
  of active slots are afterwards what they were before, and nothing spent is given back.\<close>

theorem run_once_settles_budget:
  assumes "sd_budget sch = Some l" "ledger_inv l"
    and "reservation_id (pick_task (sd_last_role sch) (dag_ready t0 (sd_dag sch))) \<notin> set (al_keys (bg_reservations l))"
  shows "\<exists>l'. sd_budget (snd (run_once t0 t1 t2 t3 worker handler secs sch)) = Some l' \<and>
    bg_reservations l' = bg_reservations l \<and> bg_active l' = bg_active l \<and> (\<forall>r. bg_used l r \<le> bg_used l' r)"
proof (cases "dag_ready t0 (sd_dag sch) = []")
  case False
  define task where "task = pick_task (sd_last_role sch) (dag_ready t0 (sd_dag sch))"
  let ?rid = "reservation_id task"
  let ?q = "ReserveRequest (at_role task) (at_budget task) ?rid"
  define l1 where "l1 = after_reserve ?q l"
  have l1: "snd (ledger_reserve (at_role task) (at_budget task) ?rid l) = l1" by (simp add: l1_def)
  show ?thesis
  proof (cases "bd_allowed (fst (ledger_reserve (at_role task) (at_budget task) ?rid l))")
    case True
    have fresh: "?rid \<notin> set (al_keys (bg_reservations l))" using assms(3) by (simp add: task_def)
    have cases: "l1 = l\<lparr>bg_used := \<lambda>r. bg_used l r + max 0 (cost_of (at_budget task) r), bg_active := bg_active l + 1,
           bg_reservations := al_put ?rid (at_role task, \<lambda>r. max 0 (cost_of (at_budget task) r)) (bg_reservations l)\<rparr>"
      using True fresh by (auto simp: l1_def ledger_reserve_def Let_def decide_def split: list.splits if_splits)
    have inv1: "ledger_inv l1"
      using ledger_step_inv[OF assms(2), of "Reserve (at_role task) (at_budget task) ?rid"] l1 by simp
    have rc: "al_get (bg_reservations l1) ?rid = Some (at_role task, \<lambda>r. max 0 (cost_of (at_budget task) r))"
      by (simp add: cases)
    have del: "al_del ?rid (bg_reservations l1) = bg_reservations l"
      using fresh by (simp add: cases al_put_fresh) (force simp: al_del_def al_keys_def intro!: filter_True)
    obtain r s where rs: "claim_and_run t1 t2 t3 worker handler secs task (sch\<lparr>sd_budget := Some l1\<rparr>) = (r, s)"
      by (cases "claim_and_run t1 t2 t3 worker handler secs task (sch\<lparr>sd_budget := Some l1\<rparr>)")
    then have "sd_budget s = Some l1"
      using claim_and_run_budget[of t1 t2 t3 worker handler secs task "sch\<lparr>sd_budget := Some l1\<rparr>"] by simp
    then have "sd_budget (snd (run_once t0 t1 t2 t3 worker handler secs sch)) = Some (snd (ledger_release ?rid None l1))"
      using True False assms(1) rs
      by (simp add: run_once_def Let_def task_def[symmetric] release_budget_def case_prod_beta l1)
    then show ?thesis
      using release_open[OF inv1 rc, of None] del by (simp add: cases)
  next
    case False
    then have "l1 = l" unfolding l1_def by (intro refused_same) simp
    then have "sd_budget (snd (run_once t0 t1 t2 t3 worker handler secs sch)) = Some l"
      using False \<open>dag_ready t0 (sd_dag sch) \<noteq> []\<close> assms(1) l1
      by (simp add: run_once_def Let_def task_def[symmetric] case_prod_beta)
    then show ?thesis by simp
  qed
qed (use assms(1) in \<open>simp add: run_once_def\<close>)

definition demo_task :: agent_task where
  "demo_task = (sample_task ''a'' [])\<lparr>at_version := 1\<rparr>"

definition demo_scheduler :: scheduler where
  "demo_scheduler = \<lparr>sd_store = \<lparr>cs_tasks = [(''a'', \<lparr>rw_task = demo_task, rw_version = 1, rw_owner = [],
       rw_lease = 0, rw_priority = 0, rw_updated = 1\<rparr>)], cs_handoffs = [], cs_receipts = [], cs_events = []\<rparr>,
     sd_budget = Some (new_ledger one_limit), sd_dag = [(''a'', demo_task)], sd_last_role = []\<rparr>"

lemma demo_inv: "store_inv (sd_store demo_scheduler)"
  by (simp add: store_inv_def demo_scheduler_def demo_task_def sample_task_def normal_task_def al_keys_def)

lemma demo_ready: "dag_ready 5 (sd_dag demo_scheduler) = [demo_task]"
  by (simp add: dag_ready_def demo_scheduler_def task_ready_def task_terminal_def demo_task_def sample_task_def)

lemma demo_pick: "pick_task last_role [demo_task] = demo_task"
  by (simp add: pick_task_def)

lemma demo_list: "list_tasks ''r'' (sd_store demo_scheduler) = [demo_task]"
  by (simp add: list_tasks_def demo_scheduler_def)
    (simp add: demo_task_def sample_task_def make_task_def dedup_def)

lemma demo_loadable: "loadable [demo_task]"
proof -
  have v: "task_errors demo_task = []" "at_deps demo_task = []" "at_id demo_task = ''a''"
    by (simp_all add: task_errors_def demo_task_def sample_task_def)
  then have "dag_add demo_task [] = ok (keyed [demo_task])"
    by (simp add: dag_add_ok_iff dag_inv_empty keyed_def al_keys_def)
  then have "dag_inv (keyed [demo_task])" using dag_add_inv[OF dag_inv_empty] by blast
  then show ?thesis using v by (simp add: loadable_def has_cycle_def cyclic_graph_iff dag_inv_def)
qed

theorem refresh_exact_witness: "fst (refresh ''r'' demo_scheduler) = ok ()"
  using refresh_exact[OF demo_inv, of "''r''"] demo_list demo_loadable by simp

theorem pick_task_rotates_witness:
  "pick_task ''x'' (dag_ready 5 (sd_dag demo_scheduler)) \<in> set (dag_ready 5 (sd_dag demo_scheduler))"
proof -
  have "dag_ready 5 (sd_dag demo_scheduler) \<noteq> []" by (simp add: demo_ready)
  from pick_task_rotates[OF this] show ?thesis by blast
qed

theorem run_once_records_outcome_witness:
  "row_status ''a'' (sd_store (snd (run_once 5 5 6 6 ''w'' (\<lambda>t st. (ok (new_result 6 ''a'' TkCompleted []), st)) 9 demo_scheduler))) = Some TkCompleted"
proof -
  have id: "at_id demo_task = ''a''" by (simp add: demo_task_def sample_task_def)
  obtain claimed st where c: "claim_task 5 (at_id demo_task) ''w'' 9 (sd_store demo_scheduler) = ok (claimed, st)"
    by (simp add: claim_task_def claim_error_def demo_scheduler_def demo_task_def sample_task_def make_task_def Let_def)
  have grants: "budget_grants demo_task demo_scheduler"
    by (simp add: budget_grants_def demo_scheduler_def demo_task_def sample_task_def ledger_reserve_def decide_def
        new_ledger_def one_limit_def exhausted_def resources_def cost_of_def al_keys_def Let_def)
  show ?thesis
    using run_once_records_outcome[OF demo_inv _ _ grants c, of 5 "\<lambda>t st. (ok (new_result 6 ''a'' TkCompleted []), st)"
        "ok (new_result 6 ''a'' TkCompleted [])" 6 6]
    by (simp add: demo_ready demo_pick id outcome_result_def end_status_def new_result_def Let_def)
qed

theorem run_once_settles_budget_witness:
  "\<exists>l'. sd_budget (snd (run_once 5 5 6 6 ''w'' (\<lambda>t st. (raise StopIter, st)) 9 demo_scheduler)) = Some l' \<and>
     bg_active l' = 0"
proof -
  have l: "sd_budget demo_scheduler = Some (new_ledger one_limit)" by (simp add: demo_scheduler_def)
  have inv: "ledger_inv (new_ledger one_limit)"
    by (simp add: ledger_inv_def new_ledger_def open_cost_def al_keys_def)
  show ?thesis
    using run_once_settles_budget[OF l inv, of 5 5 6 6 "''w''" "\<lambda>t st. (raise StopIter, st)" 9]
    by (auto simp: new_ledger_def al_keys_def)
qed

end
