(* ===== verification/RunStore.thy ===== *)
theory RunStore
  imports Contracts
begin

text \<open>
  \<open>agent_runtime/run_coordination/store.py\<close> with the values of \<open>models.py\<close>: the registry of runs,
  their owners and their resources.  Every method is one immediate transaction, so one step; a
  raise rolls it back, so a failing step returns no state.  The clock, fresh tokens and request
  ids, the liveness test of a recorded owner process, the state of the sandbox lifecycle marker
  and the checksum of a seal are arguments.  JSON encoding is the identity.
\<close>

subsection \<open>Values\<close>

abbreviation stale :: exn where
  "stale \<equiv> CoordinationError ''stale_generation'' ''owner generation is stale''"

abbreviation integrity :: "string \<Rightarrow> exn" where
  "integrity code \<equiv> CoordinationError code code"

record owner_lease =
  ol_task :: string
  ol_run :: string
  ol_ws :: string
  ol_token :: string
  ol_gen :: int
  ol_rev :: int
  ol_expires :: real
  ol_status :: string

record run_row =
  rn_task :: string
  rn_run :: string
  rn_ws :: string
  rn_path :: string
  rn_status :: string
  rn_gen :: int
  rn_token :: string
  rn_identity :: string
  rn_expires :: real
  rn_cancel :: string
  rn_rev :: int
  rn_terminal :: string
  rn_created :: real
  rn_updated :: real

record res_row =
  re_id :: string
  re_key :: string
  re_task :: string
  re_run :: string
  re_ws :: string
  re_parent :: string
  re_kind :: string
  re_effect :: string
  re_status :: string
  re_gen :: int
  re_token :: string
  re_receipt :: string
  re_cleanup :: string
  re_error :: string
  re_payload :: "(string, string) alist"
  re_created :: real
  re_updated :: real

record coord_seal =
  se_run :: string
  se_ws :: string
  se_token :: string
  se_gen :: int
  se_rev :: int
  se_checksum :: string
  se_status :: string

datatype co_payload =
    PAcquired string string int string
  | PGeneration int
  | PFinished int string
  | PRequest string
  | PError string
  | PResidual string nat
  | PResource res_row
  | PMoved string string string
  | PSeal coord_seal
  | PFree "(string, string) alist"

record co_event =
  ev_key :: string
  ev_type :: string
  ev_payload :: co_payload
  ev_created :: real

record coord_db =
  cd_runs :: "(string, run_row) alist"
  cd_resources :: "(string, res_row) alist"
  cd_events :: "co_event list"

record run_snapshot =
  sn_task :: string
  sn_run :: string
  sn_ws :: string
  sn_path :: string
  sn_status :: string
  sn_gen :: int
  sn_token :: string
  sn_rev :: int
  sn_expires :: real
  sn_cancel :: string
  sn_resources :: "res_row list"

definition OPEN_STATES :: "string list" where
  "OPEN_STATES = [''acquiring'', ''reconciling'', ''active'', ''cancel_requested'', ''cancelling'',
     ''recovery_required'']"

definition RESOURCE_STATES :: "string list" where
  "RESOURCE_STATES = [''planned'', ''running'', ''completed'', ''failed'', ''cancel_requested'',
     ''cancelled'', ''not_started'', ''unknown'']"

definition LIVE_STATES :: "string list" where
  "LIVE_STATES = [''reconciling'', ''active'', ''cancel_requested'', ''cancelling'']"

subsection \<open>Rows\<close>

definition run_key :: "string \<Rightarrow> string \<Rightarrow> string" where
  "run_key ws run = ws @ '':'' @ run"

definition co_log :: "string \<Rightarrow> string \<Rightarrow> co_payload \<Rightarrow> real \<Rightarrow> coord_db \<Rightarrow> coord_db" where
  "co_log key kind payload now db = db\<lparr>cd_events := cd_events db @
     [\<lparr>ev_key = key, ev_type = kind, ev_payload = payload, ev_created = now\<rparr>]\<rparr>"

definition put_run :: "string \<Rightarrow> run_row \<Rightarrow> coord_db \<Rightarrow> coord_db" where
  "put_run key r db = db\<lparr>cd_runs := al_put key r (cd_runs db)\<rparr>"

definition put_res :: "res_row \<Rightarrow> coord_db \<Rightarrow> coord_db" where
  "put_res r db = db\<lparr>cd_resources := al_put (re_id r) r (cd_resources db)\<rparr>"

abbreviation run_at :: "coord_db \<Rightarrow> string \<Rightarrow> run_row option" where
  "run_at db k \<equiv> al_get (cd_runs db) k"

abbreviation res_at :: "coord_db \<Rightarrow> string \<Rightarrow> res_row option" where
  "res_at db k \<equiv> al_get (cd_resources db) k"

definition find_run :: "string \<Rightarrow> string \<Rightarrow> coord_db \<Rightarrow> run_row res" where
  "find_run ws run db =
    (case run_at db (run_key ws run) of
       None \<Rightarrow> raise (integrity ''run_registry_missing'')
     | Some r \<Rightarrow> ok r)"

definition owns :: "owner_lease \<Rightarrow> run_row \<Rightarrow> bool" where
  "owns lease r \<longleftrightarrow> rn_token r = ol_token lease \<and> rn_gen r = ol_gen lease"

text \<open>The fence every owner operation starts with.\<close>

definition fenced_row :: "string \<Rightarrow> owner_lease \<Rightarrow> coord_db \<Rightarrow> run_row res" where
  "fenced_row ws lease db =
     bindR (find_run ws (ol_run lease) db) (\<lambda>r. if owns lease r then ok r else raise stale)"

subsection \<open>Ownership\<close>

definition acquire ::
  "bool \<Rightarrow> (string \<Rightarrow> bool) \<Rightarrow> string \<Rightarrow> string \<Rightarrow> string \<Rightarrow> string \<Rightarrow> real \<Rightarrow> real \<Rightarrow> string \<Rightarrow> string \<Rightarrow>
     coord_db \<Rightarrow> (owner_lease \<times> coord_db) res" where
  "acquire retired exited identity token ws path now lease_seconds task run db =
    (let expires = now + max (1/10) lease_seconds;
         key = run_key ws run;
         lease = (\<lambda>g rev. \<lparr>ol_task = task, ol_run = run, ol_ws = ws, ol_token = token, ol_gen = g,
                    ol_rev = rev, ol_expires = expires, ol_status = ''reconciling''\<rparr>) in
     if retired then raise (integrity ''sandbox_task_retired'')
     else if \<exists>(k, r) \<in> set (cd_runs db). rn_ws r = ws \<and> rn_status r \<in> set OPEN_STATES \<and> k \<noteq> key
     then raise (integrity ''workspace_busy'')
     else case run_at db key of
       Some r \<Rightarrow>
         if rn_task r \<noteq> task then raise (integrity ''resume_task_identity_mismatch'')
         else if rn_status r \<in> {''cancelled'', ''failed''}
         then raise (CoordinationError ''resume_run_terminal'' ''run is terminal; create a new run identity'')
         else if rn_expires r > now \<and> rn_token r \<noteq> [] \<and> \<not> exited (rn_identity r)
         then raise (CoordinationError ''resume_owner_conflict'' ''owner is held by another execution'')
         else
          (let g = rn_gen r + 1; rev = rn_rev r + 1 in
           ok (lease g rev, co_log key ''resume_owner_acquired'' (PAcquired task run g token) now
             (put_run key (r\<lparr>rn_task := task, rn_status := ''reconciling'', rn_gen := g, rn_token := token,
                rn_identity := identity, rn_expires := expires, rn_rev := rev, rn_updated := now\<rparr>) db)))
     | None \<Rightarrow>
         ok (lease 1 1, co_log key ''resume_owner_acquired'' (PAcquired task run 1 token) now
           (put_run key \<lparr>rn_task = task, rn_run = run, rn_ws = ws, rn_path = path,
              rn_status = ''reconciling'', rn_gen = 1, rn_token = token, rn_identity = identity,
              rn_expires = expires, rn_cancel = [], rn_rev = 1, rn_terminal = [], rn_created = now,
              rn_updated = now\<rparr> db)))"

definition retirement_guard :: "string \<Rightarrow> string \<Rightarrow> coord_db \<Rightarrow> unit res" where
  "retirement_guard ws run db =
    (case run_at db (run_key ws run) of
       Some r \<Rightarrow> guardR (rn_token r = [] \<and> rn_status r \<in> {''released'', ''failed'', ''cancelled''})
                   (ValueError ''sandbox_retirement_blocked: run not terminal'')
     | None \<Rightarrow> ok ())"

definition assert_request_owner ::
  "string \<Rightarrow> string \<Rightarrow> string \<Rightarrow> int \<Rightarrow> int \<Rightarrow> real \<Rightarrow> coord_db \<Rightarrow> unit res" where
  "assert_request_owner ws run token generation revision now db =
    (if token = [] \<or> generation \<le> 0
     then raise (CoordinationError ''stale_generation'' ''owner envelope is incomplete'')
     else bindR (find_run ws run db) (\<lambda>r.
       if rn_token r \<noteq> token \<or> rn_gen r \<noteq> generation \<or> revision > rn_rev r \<or> rn_status r \<noteq> ''active'' \<or>
          rn_expires r \<le> now \<or> rn_cancel r \<noteq> []
       then raise (CoordinationError ''stale_generation'' ''dispatch owner envelope is stale'')
       else ok ()))"

definition assert_lease :: "string \<Rightarrow> owner_lease \<Rightarrow> bool \<Rightarrow> real \<Rightarrow> coord_db \<Rightarrow> run_row res" where
  "assert_lease ws lease allow_cancelling now db =
     bindR (find_run ws (ol_run lease) db) (\<lambda>r.
       if \<not> owns lease r \<or> rn_ws r \<noteq> ol_ws lease \<or>
          rn_status r \<notin> {''active''} \<union> (if allow_cancelling then {''cancelling'', ''cancel_requested''} else {}) \<or>
          rn_expires r \<le> now
       then raise stale else ok r)"

definition activate :: "string \<Rightarrow> owner_lease \<Rightarrow> real \<Rightarrow> coord_db \<Rightarrow> (owner_lease \<times> coord_db) res" where
  "activate ws lease now db =
     bindR (fenced_row ws lease db) (\<lambda>r.
       if rn_status r \<notin> {''reconciling'', ''cancel_requested''} then raise (integrity ''resume_activation_invalid'')
       else if rn_expires r \<le> now
       then raise (CoordinationError ''stale_generation'' ''expired owner cannot activate'')
       else if rn_cancel r \<noteq> [] then raise (integrity ''cancel_in_progress'')
       else
        (let key = run_key ws (ol_run lease); rev = rn_rev r + 1 in
         ok (lease\<lparr>ol_rev := rev, ol_status := ''active''\<rparr>,
             co_log key ''resume_activated'' (PGeneration (ol_gen lease)) now
              (put_run key (r\<lparr>rn_status := ''active'', rn_rev := rev,
                 rn_expires := max (rn_expires r) (now + 1/10), rn_updated := now\<rparr>) db))))"

definition renew_lease ::
  "string \<Rightarrow> owner_lease \<Rightarrow> real \<Rightarrow> real \<Rightarrow> coord_db \<Rightarrow> (owner_lease \<times> coord_db) res" where
  "renew_lease ws lease now lease_seconds db =
     bindR (fenced_row ws lease db) (\<lambda>r.
       if rn_status r \<notin> set LIVE_STATES then raise stale
       else if rn_expires r \<le> now
       then raise (CoordinationError ''stale_generation'' ''expired owner cannot renew'')
       else
        (let expires = now + max (1/10) lease_seconds; rev = rn_rev r + 1 in
         ok (lease\<lparr>ol_expires := expires, ol_rev := rev\<rparr>,
             put_run (run_key ws (ol_run lease)) (r\<lparr>rn_expires := expires, rn_rev := rev, rn_updated := now\<rparr>) db)))"

subsection \<open>Cancellation and recovery\<close>

definition co_request_cancel ::
  "string \<Rightarrow> owner_lease \<Rightarrow> string \<Rightarrow> string \<Rightarrow> real \<Rightarrow> coord_db \<Rightarrow> (string \<times> coord_db) res" where
  "co_request_cancel ws lease request_id fresh now db =
    (let request_id = (if request_id \<noteq> [] then request_id else fresh);
         key = run_key ws (ol_run lease) in
     bindR (fenced_row ws lease db) (\<lambda>r.
       if rn_cancel r \<noteq> [] then
         ok (rn_cancel r, if rn_status r = ''reconciling''
           then put_run key (r\<lparr>rn_status := ''cancel_requested'', rn_rev := rn_rev r + 1, rn_updated := now\<rparr>) db
           else db)
       else if rn_status r \<in> {''cancelled'', ''released'', ''failed''} then ok (request_id, db)
       else ok (request_id, co_log key ''cancel_requested'' (PRequest request_id) now
         (put_run key (r\<lparr>rn_status := ''cancel_requested'', rn_cancel := request_id,
            rn_rev := rn_rev r + 1, rn_updated := now\<rparr>) db))))"

definition begin_cancelling :: "string \<Rightarrow> owner_lease \<Rightarrow> real \<Rightarrow> coord_db \<Rightarrow> (owner_lease \<times> coord_db) res" where
  "begin_cancelling ws lease now db =
     bindR (fenced_row ws lease db) (\<lambda>r.
       if rn_status r = ''cancelling''
       then ok (lease\<lparr>ol_rev := rn_rev r, ol_status := ''cancelling''\<rparr>, db)
       else if rn_status r \<noteq> ''cancel_requested'' then raise (integrity ''cancel_transition_invalid'')
       else
        (let key = run_key ws (ol_run lease); rev = rn_rev r + 1 in
         ok (lease\<lparr>ol_rev := rev, ol_status := ''cancelling''\<rparr>,
             co_log key ''cancelling_started'' (PRequest (rn_cancel r)) now
              (put_run key (r\<lparr>rn_status := ''cancelling'', rn_rev := rev, rn_updated := now\<rparr>) db))))"

definition run_resources :: "string \<Rightarrow> string \<Rightarrow> coord_db \<Rightarrow> res_row list" where
  "run_resources ws run db =
     sort_key (\<lambda>r. (re_created r, re_id r))
       (filter (\<lambda>r. re_key r = run_key ws run) (map snd (cd_resources db)))"

definition co_snapshot :: "string \<Rightarrow> string \<Rightarrow> coord_db \<Rightarrow> run_snapshot res" where
  "co_snapshot ws run db =
     bindR (find_run ws run db) (\<lambda>r.
       ok \<lparr>sn_task = rn_task r, sn_run = rn_run r, sn_ws = rn_ws r, sn_path = rn_path r,
           sn_status = rn_status r, sn_gen = rn_gen r, sn_token = rn_token r, sn_rev = rn_rev r,
           sn_expires = rn_expires r, sn_cancel = rn_cancel r, sn_resources = run_resources ws run db\<rparr>)"

text \<open>Closing a run: the owner token and the lease are given up.\<close>

definition close_run :: "string \<Rightarrow> string \<Rightarrow> real \<Rightarrow> run_row \<Rightarrow> run_row" where
  "close_run status terminal now r = r\<lparr>rn_status := status, rn_terminal := terminal, rn_token := [],
     rn_expires := 0, rn_rev := rn_rev r + 1, rn_updated := now\<rparr>"

definition mark_recovery_required ::
  "string \<Rightarrow> owner_lease \<Rightarrow> string \<Rightarrow> real \<Rightarrow> coord_db \<Rightarrow> (run_snapshot \<times> coord_db) res" where
  "mark_recovery_required ws lease error_code now db =
     bindR (fenced_row ws lease db) (\<lambda>r.
       let key = run_key ws (ol_run lease);
           db' = co_log key ''recovery_required'' (PError error_code) now
                  (put_run key (close_run ''recovery_required'' error_code now r) db) in
       bindR (co_snapshot ws (ol_run lease) db') (\<lambda>s. ok (s, db')))"

subsection \<open>Resources\<close>

definition bump_run :: "string \<Rightarrow> coord_db \<Rightarrow> coord_db" where
  "bump_run key db =
     (case run_at db key of Some r \<Rightarrow> put_run key (r\<lparr>rn_rev := rn_rev r + 1\<rparr>) db | None \<Rightarrow> db)"

definition register_resource ::
  "string \<Rightarrow> owner_lease \<Rightarrow> string \<Rightarrow> string \<Rightarrow> string \<Rightarrow> string \<Rightarrow> string \<Rightarrow> (string, string) alist \<Rightarrow> bool \<Rightarrow>
     real \<Rightarrow> coord_db \<Rightarrow> (res_row \<times> coord_db) res" where
  "register_resource ws lease rid kind effect parent receipt payload allow_reconciling now db =
     bindR (fenced_row ws lease db) (\<lambda>r.
       let key = run_key ws (ol_run lease) in
       if rn_status r \<notin> (if allow_reconciling then set LIVE_STATES else {''active''}) \<or>
          (rn_cancel r \<noteq> [] \<and> \<not> allow_reconciling)
       then raise (integrity ''dispatch_closed'')
       else if rn_expires r \<le> now then raise stale
       else if parent \<noteq> [] \<and> \<not> (\<exists>p. res_at db parent = Some p \<and> re_key p = key)
       then raise (integrity ''resource_parent_missing'')
       else if res_at db rid \<noteq> None then raise (integrity ''resource_duplicate'')
       else
        (let record = \<lparr>re_id = rid, re_key = key, re_task = rn_task r, re_run = rn_run r, re_ws = rn_ws r,
               re_parent = parent, re_kind = kind, re_effect = effect, re_status = ''planned'',
               re_gen = ol_gen lease, re_token = ol_token lease, re_receipt = receipt,
               re_cleanup = ''unverified'', re_error = [], re_payload = payload, re_created = now,
               re_updated = now\<rparr> in
         ok (record, bump_run key (co_log key ''resource_planned'' (PResource record) now (put_res record db)))))"

definition merge_payload :: "(string, string) alist \<Rightarrow> (string, string) alist \<Rightarrow> (string, string) alist" where
  "merge_payload old new = foldl (\<lambda>m (k, v). al_put k v m) old new"

definition transition_resource ::
  "string \<Rightarrow> owner_lease \<Rightarrow> string \<Rightarrow> string \<Rightarrow> string \<Rightarrow> string \<Rightarrow> string \<Rightarrow> (string, string) alist \<Rightarrow> bool \<Rightarrow>
     real \<Rightarrow> coord_db \<Rightarrow> (res_row \<times> coord_db) res" where
  "transition_resource ws lease rid status cleanup receipt error_code payload adopt now db =
    (if status \<notin> set RESOURCE_STATES then raise (ValueError ''resource_status_invalid'')
     else bindR (fenced_row ws lease db) (\<lambda>r.
       let key = run_key ws (ol_run lease) in
       if rn_status r \<notin> set LIVE_STATES then raise stale
       else if status \<in> {''planned'', ''running''} \<and>
          (rn_status r \<noteq> ''active'' \<or> rn_cancel r \<noteq> [] \<or> rn_expires r \<le> now)
       then raise (integrity ''dispatch_closed'')
       else case res_at db rid of
         None \<Rightarrow> raise (integrity ''resource_identity_mismatch'')
       | Some item \<Rightarrow>
          if re_run item \<noteq> ol_run lease then raise (integrity ''resource_identity_mismatch'')
          else
           (let adopted = (re_gen item \<noteq> ol_gen lease) in
            if adopted \<and> \<not> (adopt \<and> rn_status r \<in> {''reconciling'', ''cancel_requested''} \<and>
                 re_gen item < ol_gen lease)
            then raise stale
            else
             (let item' = item\<lparr>re_status := status, re_cleanup := cleanup,
                    re_receipt := (if receipt \<noteq> [] then receipt else re_receipt item),
                    re_error := error_code, re_payload := merge_payload (re_payload item) payload,
                    re_gen := (if adopted then ol_gen lease else re_gen item),
                    re_token := (if adopted then ol_token lease else re_token item),
                    re_updated := now\<rparr> in
              ok (item', bump_run key (co_log key (''resource_'' @ status) (PMoved rid cleanup error_code) now
                (put_res item' db)))))))"

definition record_event ::
  "string \<Rightarrow> owner_lease \<Rightarrow> string \<Rightarrow> co_payload \<Rightarrow> real \<Rightarrow> coord_db \<Rightarrow> (unit \<times> coord_db) res" where
  "record_event ws lease kind payload now db =
     bindR (fenced_row ws lease db) (\<lambda>r.
       ok ((), co_log (run_key ws (ol_run lease)) kind payload now db))"

subsection \<open>Checkpoint seals\<close>

definition seal_material :: "res_row \<Rightarrow> string list \<times> int" where
  "seal_material r = ([re_id r, re_parent r, re_kind r, re_effect r, re_status r, re_cleanup r,
     re_receipt r, re_token r], re_gen r)"

definition checkpoint_seal ::
  "((string list \<times> int) list \<Rightarrow> string) \<Rightarrow> string \<Rightarrow> owner_lease \<Rightarrow> real \<Rightarrow> coord_db \<Rightarrow>
     (coord_seal \<times> coord_db) res" where
  "checkpoint_seal dg ws lease now db =
     bindR (find_run ws (ol_run lease) db) (\<lambda>r.
       if \<not> owns lease r \<or> rn_status r \<notin> set LIVE_STATES \<or> rn_expires r \<le> now then raise stale
       else
        (let seal = \<lparr>se_run = ol_run lease, se_ws = ol_ws lease, se_token = ol_token lease,
               se_gen = ol_gen lease, se_rev = rn_rev r,
               se_checksum = dg (map seal_material (run_resources ws (ol_run lease) db)),
               se_status = rn_status r\<rparr> in
         ok (seal, co_log (run_key ws (ol_run lease)) ''checkpoint_sealed'' (PSeal seal) now db)))"

fun payload_owner :: "co_payload \<Rightarrow> (int \<times> string) option" where
  "payload_owner (PAcquired task run g token) = Some (g, token)"
| "payload_owner (PSeal s) = Some (se_gen s, se_token s)"
| "payload_owner (PResource r) = Some (re_gen r, re_token r)"
| "payload_owner _ = None"

definition run_events :: "string \<Rightarrow> string \<Rightarrow> coord_db \<Rightarrow> co_event list" where
  "run_events ws run db = filter (\<lambda>e. ev_key e = run_key ws run) (cd_events db)"

definition verify_checkpoint_seal :: "string \<Rightarrow> owner_lease \<Rightarrow> coord_seal \<Rightarrow> coord_db \<Rightarrow> unit res" where
  "verify_checkpoint_seal ws lease seal db =
    (if se_run seal \<noteq> ol_run lease \<or> se_ws seal \<noteq> ol_ws lease \<or>
        \<not> (0 < se_gen seal \<and> se_gen seal \<le> ol_gen lease) \<or> se_token seal = []
     then raise (integrity ''checkpoint_coordination_mismatch'')
     else if \<not> (\<exists>e \<in> set (run_events ws (ol_run lease) db).
            ev_type e = ''checkpoint_sealed'' \<and> ev_payload e = PSeal seal)
     then raise (integrity ''checkpoint_coordination_unverified'')
     else if \<not> (\<exists>e \<in> set (run_events ws (ol_run lease) db).
            ev_type e = ''resume_owner_acquired'' \<and> payload_owner (ev_payload e) = Some (se_gen seal, se_token seal))
     then raise (integrity ''checkpoint_owner_unverified'')
     else ok ())"

subsection \<open>The end of a run\<close>

definition settled_res :: "res_row \<Rightarrow> bool" where
  "settled_res r \<longleftrightarrow> re_status r \<in> {''completed'', ''failed'', ''cancelled'', ''not_started''} \<and>
     re_cleanup r = ''confirmed''"

definition finish_run ::
  "string \<Rightarrow> owner_lease \<Rightarrow> string \<Rightarrow> string \<Rightarrow> real \<Rightarrow> coord_db \<Rightarrow> (run_snapshot \<times> coord_db) res" where
  "finish_run ws lease status error_code now db =
    (if status \<notin> {''cancelled'', ''failed'', ''released'', ''recovery_required''}
     then raise (ValueError ''terminal_status_invalid'')
     else bindR (fenced_row ws lease db) (\<lambda>r.
       let key = run_key ws (ol_run lease);
           unsafe = filter (\<lambda>item. \<not> settled_res item)
                      (filter (\<lambda>item. re_key item = key) (map snd (cd_resources db)));
           db' = (if unsafe \<noteq> [] \<and> status \<noteq> ''recovery_required''
             then co_log key ''recovery_required''
                    (PResidual ''finish_blocked_by_residual_resources'' (length unsafe)) now
                   (put_run key (close_run ''recovery_required'' ''finish_blocked_by_residual_resources'' now r) db)
             else
              (let closed = co_log key (''run_'' @ status) (PFinished (ol_gen lease) error_code) now
                     (put_run key (close_run status error_code now r) db) in
               if status = ''cancelled''
               then co_log key ''cancel_completed'' (PGeneration (ol_gen lease)) now closed else closed)) in
       bindR (co_snapshot ws (ol_run lease) db') (\<lambda>s. ok (s, db'))))"

end
