(* ===== verification/RunRegistry.thy ===== *)
theory RunRegistry
  imports RunStore
begin

text \<open>
  What the run registry guarantees to the processes of one workspace, whatever they do: an
  invariant of its tables kept by every operation, the status edges of a run, the fence of
  superseded owners, the closing of dispatch by a cancellation, and checkpoint seals that verify
  for later owners.
\<close>

subsection \<open>Operations as steps\<close>

text \<open>Owner tokens are never empty: they are fresh hexadecimal identifiers.\<close>

datatype co_op =
    OAcquire bool "string \<Rightarrow> bool" string string string real real string string
  | OActivate owner_lease real
  | ORenew owner_lease real real
  | ORequestCancel owner_lease string string real
  | OBeginCancel owner_lease real
  | ORecovery owner_lease string real
  | ORegister owner_lease string string string string string "(string, string) alist" bool real
  | OMove owner_lease string string string string string "(string, string) alist" bool real
  | OLog owner_lease string co_payload real
  | OSeal "(string list \<times> int) list \<Rightarrow> string" owner_lease real
  | OFinish owner_lease string string real

fun op_lease :: "co_op \<Rightarrow> owner_lease option" where
  "op_lease (OAcquire _ _ _ _ _ _ _ _ _) = None"
| "op_lease (OActivate l _) = Some l"
| "op_lease (ORenew l _ _) = Some l"
| "op_lease (ORequestCancel l _ _ _) = Some l"
| "op_lease (OBeginCancel l _) = Some l"
| "op_lease (ORecovery l _ _) = Some l"
| "op_lease (ORegister l _ _ _ _ _ _ _ _) = Some l"
| "op_lease (OMove l _ _ _ _ _ _ _ _) = Some l"
| "op_lease (OLog l _ _ _) = Some l"
| "op_lease (OSeal _ l _) = Some l"
| "op_lease (OFinish l _ _ _) = Some l"

fun op_ok :: "co_op \<Rightarrow> bool" where
  "op_ok (OAcquire _ _ _ token _ _ _ _ _) = (token \<noteq> [])"
| "op_ok (ORequestCancel l _ fresh _) = (ol_token l \<noteq> [] \<and> fresh \<noteq> [])"
| "op_ok opn = (\<forall>l. op_lease opn = Some l \<longrightarrow> ol_token l \<noteq> [])"

fun apply_op :: "string \<Rightarrow> co_op \<Rightarrow> coord_db \<Rightarrow> (unit \<times> coord_db) res" where
  "apply_op ws (OAcquire ret ex ident token path now secs task run) db =
     map_sum id (map_prod (\<lambda>_. ()) id) (acquire ret ex ident token ws path now secs task run db)"
| "apply_op ws (OActivate l now) db = map_sum id (map_prod (\<lambda>_. ()) id) (activate ws l now db)"
| "apply_op ws (ORenew l now secs) db = map_sum id (map_prod (\<lambda>_. ()) id) (renew_lease ws l now secs db)"
| "apply_op ws (ORequestCancel l rid fresh now) db =
     map_sum id (map_prod (\<lambda>_. ()) id) (co_request_cancel ws l rid fresh now db)"
| "apply_op ws (OBeginCancel l now) db = map_sum id (map_prod (\<lambda>_. ()) id) (begin_cancelling ws l now db)"
| "apply_op ws (ORecovery l err now) db =
     map_sum id (map_prod (\<lambda>_. ()) id) (mark_recovery_required ws l err now db)"
| "apply_op ws (ORegister l rid kind eff par rec pay allow now) db =
     map_sum id (map_prod (\<lambda>_. ()) id) (register_resource ws l rid kind eff par rec pay allow now db)"
| "apply_op ws (OMove l rid st cl rec err pay adopt now) db =
     map_sum id (map_prod (\<lambda>_. ()) id) (transition_resource ws l rid st cl rec err pay adopt now db)"
| "apply_op ws (OLog l kind pay now) db = record_event ws l kind pay now db"
| "apply_op ws (OSeal dg l now) db = map_sum id (map_prod (\<lambda>_. ()) id) (checkpoint_seal dg ws l now db)"
| "apply_op ws (OFinish l st err now) db =
     map_sum id (map_prod (\<lambda>_. ()) id) (finish_run ws l st err now db)"

definition co_step :: "string \<Rightarrow> co_op \<Rightarrow> coord_db \<Rightarrow> coord_db" where
  "co_step ws opn db = (if op_ok opn then keep_on_error (apply_op ws opn db) db else db)"

subsection \<open>The invariant\<close>

definition CLOSED_STATES :: "string list" where
  "CLOSED_STATES = [''cancelled'', ''failed'', ''released'']"

definition run_ok :: "string \<Rightarrow> coord_db \<Rightarrow> string \<Rightarrow> run_row \<Rightarrow> bool" where
  "run_ok ws db k r \<longleftrightarrow>
     k = run_key ws (rn_run r) \<and> rn_ws r = ws \<and> 1 \<le> rn_gen r \<and> 1 \<le> rn_rev r \<and>
     rn_status r \<in> set OPEN_STATES \<union> set CLOSED_STATES \<and>
     (rn_cancel r \<noteq> [] \<longrightarrow> rn_status r \<noteq> ''active'') \<and>
     (rn_status r \<in> {''cancel_requested'', ''cancelling''} \<longrightarrow> rn_cancel r \<noteq> []) \<and>
     (rn_status r \<in> set CLOSED_STATES \<longrightarrow> rn_token r = [] \<and>
        (\<forall>i s. res_at db i = Some s \<longrightarrow> re_key s = k \<longrightarrow> settled_res s)) \<and>
     (rn_token r \<noteq> [] \<longrightarrow> (\<exists>e \<in> set (cd_events db). ev_key e = k \<and> ev_type e = ''resume_owner_acquired'' \<and>
        payload_owner (ev_payload e) = Some (rn_gen r, rn_token r)))"

definition res_ok :: "string \<Rightarrow> coord_db \<Rightarrow> string \<Rightarrow> res_row \<Rightarrow> bool" where
  "res_ok ws db i s \<longleftrightarrow> re_id s = i \<and> re_key s = run_key ws (re_run s) \<and>
     (\<exists>r. run_at db (re_key s) = Some r \<and> re_gen s \<le> rn_gen r)"

definition one_open :: "coord_db \<Rightarrow> bool" where
  "one_open db \<longleftrightarrow> (\<forall>k r k' r'. run_at db k = Some r \<longrightarrow> run_at db k' = Some r' \<longrightarrow>
     rn_status r \<in> set OPEN_STATES \<longrightarrow> rn_status r' \<in> set OPEN_STATES \<longrightarrow> k = k')"

definition coord_inv :: "string \<Rightarrow> coord_db \<Rightarrow> bool" where
  "coord_inv ws db \<longleftrightarrow> distinct (al_keys (cd_runs db)) \<and> distinct (al_keys (cd_resources db)) \<and>
     (\<forall>k r. run_at db k = Some r \<longrightarrow> run_ok ws db k r) \<and>
     (\<forall>i s. res_at db i = Some s \<longrightarrow> res_ok ws db i s) \<and> one_open db"

lemma states_disjoint: "s \<in> set OPEN_STATES \<Longrightarrow> s \<notin> set CLOSED_STATES"
  by (auto simp: OPEN_STATES_def CLOSED_STATES_def)

lemma live_open: "s \<in> set LIVE_STATES \<Longrightarrow> s \<in> set OPEN_STATES"
  by (auto simp: OPEN_STATES_def LIVE_STATES_def)

lemma key_inj [simp]: "run_key ws a = run_key ws b \<longleftrightarrow> a = b"
  by (simp add: run_key_def)

lemma log_simps [simp]:
  "run_at (co_log a b c n db) k = run_at db k" "res_at (co_log a b c n db) k = res_at db k"
  "cd_runs (co_log a b c n db) = cd_runs db" "cd_resources (co_log a b c n db) = cd_resources db"
  "cd_events (co_log a b c n db) = cd_events db @ [\<lparr>ev_key = a, ev_type = b, ev_payload = c, ev_created = n\<rparr>]"
  by (simp_all add: co_log_def)

lemma put_simps [simp]:
  "run_at (put_run k r db) j = (if j = k then Some r else run_at db j)"
  "cd_resources (put_run k r db) = cd_resources db" "cd_events (put_run k r db) = cd_events db"
  "res_at (put_res s db) i = (if i = re_id s then Some s else res_at db i)"
  "cd_runs (put_res s db) = cd_runs db" "cd_events (put_res s db) = cd_events db"
  by (simp_all add: put_run_def put_res_def)

lemma run_ok_log: "run_ok ws db k r \<Longrightarrow> run_ok ws (co_log a b c n db) k r"
  by (auto simp: run_ok_def)

lemma res_ok_log [simp]: "res_ok ws (co_log a b c n db) i s = res_ok ws db i s"
  by (simp add: res_ok_def)

lemma inv_log: "coord_inv ws db \<Longrightarrow> coord_inv ws (co_log a b c n db)"
  by (simp add: coord_inv_def one_open_def run_ok_log)

lemma ok_put [simp]: "run_ok ws (put_run j x db) k r = run_ok ws db k r"
  "res_ok ws (put_res s db) i t = res_ok ws db i t"
  by (simp_all add: run_ok_def res_ok_def)

text \<open>Writing one run row keeps the invariant when the row is fine in itself, does not lose a
  generation, and is open only if it was open or nothing else is.\<close>

lemma inv_put_run:
  assumes "coord_inv ws db" "run_ok ws db k r'"
    and "\<And>r. run_at db k = Some r \<Longrightarrow> rn_gen r \<le> rn_gen r'"
    and "rn_status r' \<in> set OPEN_STATES \<Longrightarrow>
      (\<exists>r. run_at db k = Some r \<and> rn_status r \<in> set OPEN_STATES) \<or>
      (\<forall>j r. run_at db j = Some r \<longrightarrow> rn_status r \<in> set OPEN_STATES \<longrightarrow> j = k)"
  shows "coord_inv ws (put_run k r' db)"
proof -
  have "one_open (put_run k r' db)"
    using assms(1,4) unfolding coord_inv_def one_open_def by (auto split: if_splits)
  moreover have "run_ok ws (put_run k r' db) j r" if "run_at (put_run k r' db) j = Some r" for j r
    using assms(1,2) that by (cases "j = k") (simp_all add: coord_inv_def)
  moreover have "res_ok ws (put_run k r' db) i s" if "res_at db i = Some s" for i s
  proof -
    have "res_ok ws db i s" using assms(1) that by (simp add: coord_inv_def)
    then show ?thesis using assms(3) by (fastforce simp: res_ok_def)
  qed
  ultimately show ?thesis using assms(1) by (simp add: coord_inv_def put_run_def)
qed

text \<open>Writing one resource of an open run.\<close>

lemma inv_put_res:
  assumes "coord_inv ws db" "run_at db (re_key s) = Some r" "rn_status r \<in> set OPEN_STATES"
    and "re_key s = run_key ws (re_run s)" "re_gen s \<le> rn_gen r"
    and "\<And>s0. res_at db (re_id s) = Some s0 \<Longrightarrow> re_key s0 = re_key s"
  shows "coord_inv ws (put_res s db)"
proof -
  have "run_ok ws (put_res s db) k r'" if "run_at db k = Some r'" for k r'
  proof -
    have ok: "run_ok ws db k r'" using assms(1) that by (simp add: coord_inv_def)
    have "rn_status r' \<notin> set CLOSED_STATES" if "k = re_key s"
      using assms(2,3) \<open>run_at db k = Some r'\<close> that states_disjoint by simp
    then show ?thesis using ok by (auto simp: run_ok_def)
  qed
  moreover have "res_ok ws (put_res s db) i t" if "res_at (put_res s db) i = Some t" for i t
  proof (cases "i = re_id s")
    case True
    then show ?thesis using assms(2,4,5) that by (simp add: res_ok_def)
  next
    case False
    then show ?thesis using assms(1) that by (simp add: coord_inv_def)
  qed
  moreover have "one_open (put_res s db)" using assms(1) by (simp add: coord_inv_def one_open_def)
  ultimately show ?thesis using assms(1) by (simp add: coord_inv_def put_res_def)
qed


lemma fenced_rowD:
  "fenced_row ws l db = Inr r \<Longrightarrow> run_at db (run_key ws (ol_run l)) = Some r \<and> owns l r"
  by (auto simp: fenced_row_def find_run_def bindR_ok_iff split: option.splits if_splits)

lemma inv_row: "coord_inv ws db \<Longrightarrow> run_at db k = Some r \<Longrightarrow> run_ok ws db k r"
  by (simp add: coord_inv_def)

lemma owned_open:
  "run_ok ws db k r \<Longrightarrow> rn_token r \<noteq> [] \<Longrightarrow> rn_status r \<in> set OPEN_STATES"
  unfolding run_ok_def by blast

lemma run_ok_token:
  "run_ok ws db k r \<Longrightarrow> rn_token r \<noteq> [] \<Longrightarrow>
     \<exists>e \<in> set (cd_events db). ev_key e = k \<and> ev_type e = ''resume_owner_acquired'' \<and>
       payload_owner (ev_payload e) = Some (rn_gen r, rn_token r)"
  unfolding run_ok_def by blast

text \<open>The owner moves its run between open states, or closes it.\<close>

lemma inv_owner_moves:
  assumes "coord_inv ws db" "run_at db k = Some r" "rn_token r \<noteq> []"
    and "rn_run r' = rn_run r" "rn_ws r' = rn_ws r" "rn_gen r' = rn_gen r" "rn_token r' = rn_token r"
    and "rn_rev r \<le> rn_rev r'" "rn_status r' \<in> set OPEN_STATES"
    and "rn_cancel r' \<noteq> [] \<longrightarrow> rn_status r' \<noteq> ''active''"
    and "rn_status r' \<in> {''cancel_requested'', ''cancelling''} \<longrightarrow> rn_cancel r' \<noteq> []"
  shows "coord_inv ws (put_run k r' db)"
proof -
  have ok: "run_ok ws db k r" using assms(1,2) by (rule inv_row)
  have "run_ok ws db k r'"
    using ok assms(3-11) states_disjoint[OF assms(9)] unfolding run_ok_def by auto
  then show ?thesis
    using assms(1,2,6) owned_open[OF ok assms(3)] by (intro inv_put_run) auto
qed

lemma inv_owner_closes:
  assumes "coord_inv ws db" "run_at db k = Some r" "rn_token r \<noteq> []"
    and "rn_run r' = rn_run r" "rn_ws r' = rn_ws r" "rn_gen r' = rn_gen r" "rn_token r' = []"
    and "rn_rev r \<le> rn_rev r'" "rn_status r' \<in> {''recovery_required''} \<union> set CLOSED_STATES"
    and "rn_status r' \<in> set CLOSED_STATES \<Longrightarrow> \<forall>i s. res_at db i = Some s \<longrightarrow> re_key s = k \<longrightarrow> settled_res s"
  shows "coord_inv ws (put_run k r' db)"
proof -
  have ok: "run_ok ws db k r" using assms(1,2) by (rule inv_row)
  have "rn_status r' \<notin> {''active'', ''cancel_requested'', ''cancelling''}"
    "rn_status r' \<in> set OPEN_STATES \<union> set CLOSED_STATES"
    using assms(9) by (auto simp: CLOSED_STATES_def OPEN_STATES_def)
  then have "run_ok ws db k r'"
    using ok assms(3-10) unfolding run_ok_def by auto
  then show ?thesis
    using assms(1,2,6) owned_open[OF ok assms(3)] by (intro inv_put_run) auto
qed

lemma inv_bump:
  assumes "coord_inv ws db" "run_at db k = Some r" "rn_token r \<noteq> []"
  shows "coord_inv ws (bump_run k db)"
proof -
  have ok: "run_ok ws db k r" using assms(1,2) by (rule inv_row)
  then show ?thesis
    using assms owned_open[OF ok assms(3)] unfolding bump_run_def
    by (auto intro!: inv_owner_moves simp: run_ok_def)
qed

subsection \<open>Every operation keeps it\<close>

definition acquired ::
  "(string \<Rightarrow> bool) \<Rightarrow> string \<Rightarrow> string \<Rightarrow> real \<Rightarrow> string \<Rightarrow> string \<Rightarrow> owner_lease \<Rightarrow> run_row \<Rightarrow> coord_db \<Rightarrow> bool" where
  "acquired ex token ws now task run l r' db \<longleftrightarrow>
     rn_status r' = ''reconciling'' \<and> rn_token r' = token \<and> rn_gen r' = ol_gen l \<and>
     rn_expires r' = ol_expires l \<and> ol_token l = token \<and> ol_run l = run \<and> ol_ws l = ws \<and>
     (\<forall>(k, r) \<in> set (cd_runs db). rn_ws r = ws \<longrightarrow> rn_status r \<in> set OPEN_STATES \<longrightarrow> k = run_key ws run) \<and>
     (case run_at db (run_key ws run) of
        None \<Rightarrow> rn_run r' = run \<and> rn_gen r' = 1 \<and> rn_rev r' = 1 \<and> rn_cancel r' = [] \<and> rn_ws r' = ws
      | Some r \<Rightarrow> rn_run r' = rn_run r \<and> rn_gen r' = rn_gen r + 1 \<and> rn_rev r' = rn_rev r + 1 \<and>
          rn_cancel r' = rn_cancel r \<and> rn_ws r' = rn_ws r \<and> rn_status r \<notin> {''cancelled'', ''failed''} \<and>
          \<not> (rn_expires r > now \<and> rn_token r \<noteq> [] \<and> \<not> ex (rn_identity r)))"

lemma acquire_ok:
  assumes "acquire ret ex ident token ws path now secs task run db = Inr (l, db')"
  shows "\<exists>r'. db' = co_log (run_key ws run) ''resume_owner_acquired'' (PAcquired task run (rn_gen r') token)
        now (put_run (run_key ws run) r' db) \<and> acquired ex token ws now task run l r' db"
proof -
  have busy: "\<not> (\<exists>(k, r) \<in> set (cd_runs db). rn_ws r = ws \<and> rn_status r \<in> set OPEN_STATES \<and> k \<noteq> run_key ws run)"
    and ret: "\<not> ret"
    using assms by (auto simp: acquire_def Let_def split: if_splits)
  then have only: "\<forall>(k, r) \<in> set (cd_runs db). rn_ws r = ws \<longrightarrow> rn_status r \<in> set OPEN_STATES \<longrightarrow> k = run_key ws run"
    by blast
  show ?thesis
  proof (cases "run_at db (run_key ws run)")
    case None
    show ?thesis
      by (rule exI[of _ "\<lparr>rn_task = task, rn_run = run, rn_ws = ws, rn_path = path,
              rn_status = ''reconciling'', rn_gen = 1, rn_token = token, rn_identity = ident,
              rn_expires = now + max (1/10) secs, rn_cancel = [], rn_rev = 1, rn_terminal = [], rn_created = now,
              rn_updated = now\<rparr>"])
        (use assms busy ret None only in \<open>auto simp: acquire_def Let_def acquired_def\<close>)
  next
    case (Some r)
    show ?thesis
      by (rule exI[of _ "r\<lparr>rn_task := task, rn_status := ''reconciling'',
            rn_gen := rn_gen r + 1, rn_token := token, rn_identity := ident,
            rn_expires := now + max (1/10) secs, rn_rev := rn_rev r + 1, rn_updated := now\<rparr>"])
        (use assms busy ret Some only in \<open>auto simp: acquire_def Let_def acquired_def split: if_splits\<close>)
  qed
qed

lemma log_put_commute:
  "co_log a b c n (put_run k r db) = put_run k r (co_log a b c n db)"
  "co_log a b c n (put_res s db) = put_res s (co_log a b c n db)"
  by (simp_all add: co_log_def put_run_def put_res_def)

lemma inv_acquired:
  assumes "acquired ex token ws now task run l r' db" "coord_inv ws db" "token \<noteq> []"
  shows "coord_inv ws (co_log (run_key ws run) ''resume_owner_acquired'' (PAcquired task run (rn_gen r') token)
        now (put_run (run_key ws run) r' db))"
proof -
  note acq = assms(1)
  let ?k = "run_key ws run"
  have old_ok: "run_ok ws db ?k r" if "run_at db ?k = Some r" for r using assms(2) that by (rule inv_row)
  have st: "''reconciling'' \<notin> set CLOSED_STATES" "''reconciling'' \<in> set OPEN_STATES"
    by (simp_all add: CLOSED_STATES_def OPEN_STATES_def)
  have fields: "rn_run r' = run \<and> rn_ws r' = ws \<and> 1 \<le> rn_gen r' \<and> 1 \<le> rn_rev r'"
    using acq old_ok by (cases "run_at db ?k") (auto simp: run_ok_def acquired_def)
  let ?dbl = "co_log ?k ''resume_owner_acquired'' (PAcquired task run (rn_gen r') token) now db"
  have "run_ok ws ?dbl ?k r'" using fields acq st by (simp add: run_ok_def acquired_def)
  moreover have "rn_gen r \<le> rn_gen r'" if "run_at db ?k = Some r" for r using acq that by (simp add: acquired_def)
  moreover have "j = ?k" if "run_at db j = Some r" "rn_status r \<in> set OPEN_STATES" for j r
    using acq that(2) inv_row[OF assms(2) that(1)] map_of_SomeD[OF that(1)]
    unfolding acquired_def run_ok_def by blast
  ultimately have "coord_inv ws (put_run ?k r' ?dbl)"
    using inv_log[OF assms(2)] by (intro inv_put_run) auto
  then show ?thesis by (simp add: log_put_commute)
qed

lemma token_row:
  assumes "fenced_row ws l db = Inr r" "coord_inv ws db" "ol_token l \<noteq> []"
  shows "run_at db (run_key ws (ol_run l)) = Some r" "rn_token r \<noteq> []" "rn_token r = ol_token l"
    "rn_gen r = ol_gen l" "run_ok ws db (run_key ws (ol_run l)) r" "rn_status r \<in> set OPEN_STATES"
    "rn_run r = ol_run l"
proof -
  show row: "run_at db (run_key ws (ol_run l)) = Some r" and own: "rn_token r = ol_token l" "rn_gen r = ol_gen l"
    using fenced_rowD[OF assms(1)] by (simp_all add: owns_def)
  then show tok: "rn_token r \<noteq> []" using assms(3) by simp
  show ok: "run_ok ws db (run_key ws (ol_run l)) r" using inv_row[OF assms(2) row] .
  show "rn_status r \<in> set OPEN_STATES" using owned_open[OF ok tok] .
  show "rn_run r = ol_run l" using ok by (simp add: run_ok_def)
qed

text \<open>What an owner operation writes: log entries, its run kept open, its run closed, or one
  resource of its open run.\<close>

inductive owner_write :: "string \<Rightarrow> owner_lease \<Rightarrow> run_row \<Rightarrow> coord_db \<Rightarrow> coord_db \<Rightarrow> bool"
  for ws l r db where
  same: "owner_write ws l r db db"
| log: "owner_write ws l r db db' \<Longrightarrow> owner_write ws l r db (co_log (run_key ws (ol_run l)) b c n db')"
| move: "rn_run r' = rn_run r \<Longrightarrow> rn_ws r' = rn_ws r \<Longrightarrow> rn_gen r' = rn_gen r \<Longrightarrow> rn_token r' = rn_token r \<Longrightarrow>
    rn_rev r < rn_rev r' \<Longrightarrow> rn_status r' \<in> set LIVE_STATES \<Longrightarrow>
    (rn_cancel r \<noteq> [] \<longrightarrow> rn_cancel r' = rn_cancel r) \<Longrightarrow>
    (rn_cancel r' \<noteq> [] \<longrightarrow> rn_status r' \<noteq> ''active'') \<Longrightarrow>
    (rn_status r' \<in> {''cancel_requested'', ''cancelling''} \<longrightarrow> rn_cancel r' \<noteq> []) \<Longrightarrow>
    owner_write ws l r db (put_run (run_key ws (ol_run l)) r' db)"
| close: "st \<in> {''recovery_required''} \<union> set CLOSED_STATES \<Longrightarrow>
    (st \<in> set CLOSED_STATES \<longrightarrow>
      (\<forall>i s. res_at db i = Some s \<longrightarrow> re_key s = run_key ws (ol_run l) \<longrightarrow> settled_res s)) \<Longrightarrow>
    owner_write ws l r db (put_run (run_key ws (ol_run l)) (close_run st term now r) db)"
| resource: "re_run s = ol_run l \<Longrightarrow> re_key s = run_key ws (ol_run l) \<Longrightarrow> re_gen s = rn_gen r \<Longrightarrow>
    rn_status r \<in> set LIVE_STATES \<Longrightarrow>
    (\<forall>s0. res_at db (re_id s) = Some s0 \<longrightarrow> re_key s0 = re_key s) \<Longrightarrow>
    owner_write ws l r db (bump_run (run_key ws (ol_run l)) (co_log (run_key ws (ol_run l)) b c n (put_res s db)))"

lemma owner_write_inv:
  assumes "owner_write ws l r db db'" "coord_inv ws db" "fenced_row ws l db = Inr r" "ol_token l \<noteq> []"
  shows "coord_inv ws db'"
  using assms(1)
proof induction
  case (move r')
  then show ?case
    using token_row[OF assms(3,2,4)] assms(2) live_open by (intro inv_owner_moves[of ws db _ r]) auto
next
  case (close st "term" now)
  then show ?case
    using token_row[OF assms(3,2,4)] assms(2)
    by (intro inv_owner_closes[of ws db _ r]) (auto simp: close_run_def)
next
  case (resource s b c n)
  note row = token_row[OF assms(3,2,4)]
  have "coord_inv ws (put_res s db)"
    using resource row assms(2) by (intro inv_put_res[of ws db s r]) auto
  then show ?case using row by (intro inv_bump[of ws _ _ r]) (auto intro: inv_log)
qed (simp_all add: assms(2) inv_log)


lemma activate_writes:
  "activate ws l now db = Inr (l', db') \<Longrightarrow> \<exists>r. fenced_row ws l db = Inr r \<and> owner_write ws l r db db'"
  by (auto simp: activate_def bindR_ok_iff Let_def LIVE_STATES_def split: if_splits
      intro!: owner_write.log owner_write.move)

lemma run_ok_cancel:
  "run_ok ws db k r \<Longrightarrow> rn_cancel r \<noteq> [] \<longrightarrow> rn_status r \<noteq> ''active''"
  "run_ok ws db k r \<Longrightarrow> rn_status r \<in> {''cancel_requested'', ''cancelling''} \<longrightarrow> rn_cancel r \<noteq> []"
  unfolding run_ok_def by blast+

lemma renew_writes:
  assumes "renew_lease ws l now secs db = Inr (l', db')" "coord_inv ws db"
  shows "\<exists>r. fenced_row ws l db = Inr r \<and> owner_write ws l r db db'"
proof -
  obtain r where r: "fenced_row ws l db = Inr r" using assms(1) by (auto simp: renew_lease_def bindR_ok_iff)
  have "run_ok ws db (run_key ws (ol_run l)) r" using inv_row[OF assms(2)] fenced_rowD[OF r] by blast
  then show ?thesis
    using assms(1) r run_ok_cancel[of ws db _ r]
    by (auto simp: renew_lease_def Let_def split: if_splits intro!: owner_write.move)
qed

lemma request_cancel_writes:
  assumes "co_request_cancel ws l rid fresh now db = Inr (x, db')" "fresh \<noteq> []"
  shows "\<exists>r. fenced_row ws l db = Inr r \<and> owner_write ws l r db db'"
  using assms
  by (auto simp: co_request_cancel_def bindR_ok_iff Let_def LIVE_STATES_def split: if_splits
      intro: owner_write.same intro!: owner_write.log owner_write.move)

lemma begin_cancel_writes:
  assumes "begin_cancelling ws l now db = Inr (l', db')" "coord_inv ws db"
  shows "\<exists>r. fenced_row ws l db = Inr r \<and> owner_write ws l r db db'"
proof -
  obtain r where r: "fenced_row ws l db = Inr r" using assms(1) by (auto simp: begin_cancelling_def bindR_ok_iff)
  have "run_ok ws db (run_key ws (ol_run l)) r" using inv_row[OF assms(2)] fenced_rowD[OF r] by blast
  then show ?thesis
    using assms(1) r run_ok_cancel(2)[of ws db _ r]
    by (auto simp: begin_cancelling_def Let_def LIVE_STATES_def split: if_splits
        intro: owner_write.same intro!: owner_write.log owner_write.move)
qed

lemma recovery_writes:
  "mark_recovery_required ws l err now db = Inr (x, db') \<Longrightarrow>
     \<exists>r. fenced_row ws l db = Inr r \<and> owner_write ws l r db db'"
  by (auto simp: mark_recovery_required_def bindR_ok_iff Let_def CLOSED_STATES_def
      intro!: owner_write.log owner_write.close)

lemma register_writes:
  assumes "register_resource ws l rid kind eff par rec pay allow now db = Inr (x, db')" "coord_inv ws db"
  shows "\<exists>r. fenced_row ws l db = Inr r \<and> owner_write ws l r db db'"
proof -
  obtain r where r: "fenced_row ws l db = Inr r" using assms(1) by (auto simp: register_resource_def bindR_ok_iff)
  have row: "run_ok ws db (run_key ws (ol_run l)) r" "rn_gen r = ol_gen l"
    using inv_row[OF assms(2)] fenced_rowD[OF r] by (auto simp: owns_def)
  then have run: "rn_run r = ol_run l" by (simp add: run_ok_def)
  let ?s = "\<lparr>re_id = rid, re_key = run_key ws (ol_run l), re_task = rn_task r, re_run = rn_run r, re_ws = rn_ws r,
               re_parent = par, re_kind = kind, re_effect = eff, re_status = ''planned'',
               re_gen = ol_gen l, re_token = ol_token l, re_receipt = rec,
               re_cleanup = ''unverified'', re_error = [], re_payload = pay, re_created = now,
               re_updated = now\<rparr>"
  have "db' = bump_run (run_key ws (ol_run l)) (co_log (run_key ws (ol_run l)) ''resource_planned'' (PResource ?s) now (put_res ?s db))"
    "rn_status r \<in> set LIVE_STATES" "res_at db rid = None"
    using assms(1) r by (auto simp: register_resource_def Let_def LIVE_STATES_def split: if_splits)
  then show ?thesis
    using r row(2) run by (auto intro!: owner_write.resource)
qed

lemma transition_writes:
  assumes "transition_resource ws l rid st cl rec err pay adopt now db = Inr (x, db')" "coord_inv ws db"
  shows "\<exists>r. fenced_row ws l db = Inr r \<and> owner_write ws l r db db'"
proof -
  obtain r where r: "fenced_row ws l db = Inr r"
    using assms(1) by (auto simp: transition_resource_def bindR_ok_iff split: if_splits)
  have gen: "rn_gen r = ol_gen l" using fenced_rowD[OF r] by (simp add: owns_def)
  obtain item where item: "res_at db rid = Some item" "re_run item = ol_run l"
    using assms(1) r by (auto simp: transition_resource_def Let_def split: if_splits option.splits)
  have key: "re_key item = run_key ws (ol_run l)" "re_id item = rid"
    using assms(2) item by (auto simp: coord_inv_def res_ok_def)
  obtain s b c n where s: "db' = bump_run (run_key ws (ol_run l)) (co_log (run_key ws (ol_run l)) b c n (put_res s db))"
    "re_run s = re_run item" "re_key s = re_key item" "re_gen s = ol_gen l" "re_id s = re_id item"
    "rn_status r \<in> set LIVE_STATES"
    using assms(1) r item by (auto simp: transition_resource_def Let_def split: if_splits)
  then show ?thesis
    using r gen item key by (auto intro!: owner_write.resource)
qed

lemma finish_writes:
  assumes "finish_run ws l st err now db = Inr (x, db')" "coord_inv ws db"
  shows "\<exists>r. fenced_row ws l db = Inr r \<and> owner_write ws l r db db'"
proof -
  obtain r where r: "fenced_row ws l db = Inr r"
    using assms(1) by (auto simp: finish_run_def bindR_ok_iff split: if_splits)
  let ?k = "run_key ws (ol_run l)"
  let ?unsafe = "filter (\<lambda>i. \<not> settled_res i) (filter (\<lambda>i. re_key i = ?k) (map snd (cd_resources db)))"
  have settled: "settled_res s" if "?unsafe = []" "res_at db i = Some s" "re_key s = ?k" for i s
    using that map_of_SomeD[OF that(2)] by (force simp: filter_empty_conv)
  have st: "st \<in> {''recovery_required''} \<union> set CLOSED_STATES" "''recovery_required'' \<notin> set CLOSED_STATES"
    using assms(1) by (auto simp: finish_run_def CLOSED_STATES_def split: if_splits)
  have close: "owner_write ws l r db (put_run ?k (close_run st' t now r) db)"
    if "st' = ''recovery_required'' \<or> (st' = st \<and> (?unsafe = [] \<or> st = ''recovery_required''))" for st' t
  proof (rule owner_write.close)
    show "st' \<in> {''recovery_required''} \<union> set CLOSED_STATES" using that st(1) by blast
    have "?unsafe = []" if "st' \<in> set CLOSED_STATES"
      using that st(2) \<open>st' = ''recovery_required'' \<or> _\<close> by blast
    then show "st' \<in> set CLOSED_STATES \<longrightarrow> (\<forall>i s. res_at db i = Some s \<longrightarrow> re_key s = ?k \<longrightarrow> settled_res s)"
      using settled by blast
  qed
  have "owner_write ws l r db db'"
  proof (cases "?unsafe \<noteq> [] \<and> st \<noteq> ''recovery_required''")
    case True
    then have "\<exists>c. db' = co_log ?k ''recovery_required'' c now
        (put_run ?k (close_run ''recovery_required'' ''finish_blocked_by_residual_resources'' now r) db)"
      using assms(1) r by (auto simp: finish_run_def Let_def bindR_ok_iff split: if_splits)
    then show ?thesis using close[of "''recovery_required''"] by (auto intro: owner_write.log)
  next
    case False
    then have "db' = (let closed = co_log ?k (''run_'' @ st) (PFinished (ol_gen l) err) now
                     (put_run ?k (close_run st err now r) db) in
               if st = ''cancelled''
               then co_log ?k ''cancel_completed'' (PGeneration (ol_gen l)) now closed else closed)"
      using assms(1) r by (auto simp: finish_run_def Let_def bindR_ok_iff split: if_splits)
    then show ?thesis using close[of st err] False by (auto simp: Let_def intro!: owner_write.log)
  qed
  then show ?thesis using r by blast
qed

lemma seal_writes:
  "checkpoint_seal dg ws l now db = Inr (x, db') \<Longrightarrow> \<exists>r. fenced_row ws l db = Inr r \<and> owner_write ws l r db db'"
  by (auto simp: checkpoint_seal_def fenced_row_def bindR_ok_iff Let_def split: if_splits
      intro!: owner_write.log owner_write.same)

lemma event_writes:
  "record_event ws l kind pay now db = Inr (x, db') \<Longrightarrow> \<exists>r. fenced_row ws l db = Inr r \<and> owner_write ws l r db db'"
  by (auto simp: record_event_def bindR_ok_iff intro!: owner_write.log owner_write.same)

lemma map_res_ok: "map_sum id (map_prod f g) m = Inr y \<longleftrightarrow> (\<exists>a b. m = Inr (a, b) \<and> y = (f a, g b))"
  by (cases m) auto

lemma owner_op_writes:
  assumes "apply_op ws opn db = Inr (u, db')" "op_lease opn = Some l" "op_ok opn" "coord_inv ws db"
  shows "\<exists>r. fenced_row ws l db = Inr r \<and> owner_write ws l r db db'"
  using assms
  by (cases opn)
    (auto simp: map_res_ok dest!: activate_writes seal_writes event_writes recovery_writes request_cancel_writes
      renew_writes begin_cancel_writes register_writes transition_writes finish_writes)

lemma co_step_cases:
  assumes "coord_inv ws db"
  obtains (same) "co_step ws opn db = db"
  | (acquire) ex token now task run l r' where "token \<noteq> []" "acquired ex token ws now task run l r' db"
      "co_step ws opn db = co_log (run_key ws run) ''resume_owner_acquired'' (PAcquired task run (rn_gen r') token)
        now (put_run (run_key ws run) r' db)"
  | (owner) l r where "ol_token l \<noteq> []" "fenced_row ws l db = Inr r" "owner_write ws l r db (co_step ws opn db)"
proof (cases "op_ok opn \<and> (\<exists>u db'. apply_op ws opn db = Inr (u, db'))")
  case True
  then obtain u db' where ok: "op_ok opn" "apply_op ws opn db = Inr (u, db')" by blast
  then have step: "co_step ws opn db = db'" by (simp add: co_step_def)
  show thesis
  proof (cases "op_lease opn")
    case None
    then obtain ret ex ident token path now secs task run where opn: "opn = OAcquire ret ex ident token path now secs task run"
      by (cases opn) auto
    then obtain l where "acquire ret ex ident token ws path now secs task run db = Inr (l, db')"
      using ok by (auto simp: map_res_ok)
    then show thesis using acquire_ok acquire ok(1) opn step by fastforce
  next
    case (Some l)
    have "ol_token l \<noteq> []" using ok(1) Some by (cases opn) auto
    then show thesis using owner_op_writes[OF ok(2) Some ok(1) assms] owner step by blast
  qed
next
  case False
  then have "co_step ws opn db = db" by (cases "apply_op ws opn db") (auto simp: co_step_def)
  then show thesis by (rule same)
qed

lemma co_step_inv:
  assumes "coord_inv ws db"
  shows "coord_inv ws (co_step ws opn db)"
  by (cases rule: co_step_cases[OF assms, of opn])
    (use assms inv_acquired owner_write_inv in \<open>auto simp del: op_ok.simps\<close>)

lemma run_inv: "coord_inv ws db \<Longrightarrow> coord_inv ws (fold (co_step ws) ops db)"
  by (induction ops arbitrary: db) (auto intro: co_step_inv)

subsection \<open>The status of a run and its cancellation\<close>

inductive run_edge :: "(string \<times> string) option \<Rightarrow> (string \<times> string) option \<Rightarrow> bool" where
  create: "run_edge None (Some (''reconciling'', []))"
| take: "s \<notin> {''cancelled'', ''failed''} \<Longrightarrow> run_edge (Some (s, c)) (Some (''reconciling'', c))"
| activate: "s \<in> set OPEN_STATES \<Longrightarrow> run_edge (Some (s, [])) (Some (''active'', []))"
| live: "s \<in> set OPEN_STATES \<Longrightarrow> t \<in> set LIVE_STATES \<Longrightarrow> t \<noteq> ''active'' \<Longrightarrow> (c \<noteq> [] \<longrightarrow> c' = c) \<Longrightarrow>
    run_edge (Some (s, c)) (Some (t, c'))"
| close: "s \<in> set OPEN_STATES \<Longrightarrow> t \<in> {''recovery_required''} \<union> set CLOSED_STATES \<Longrightarrow>
    run_edge (Some (s, c)) (Some (t, c))"

inductive_cases run_edge_SomeE [elim]: "run_edge (Some (s, c)) q"
inductive_simps run_edge_None [simp]: "run_edge None q"

definition run_phase :: "string \<Rightarrow> coord_db \<Rightarrow> (string \<times> string) option" where
  "run_phase k db = map_option (\<lambda>r. (rn_status r, rn_cancel r)) (run_at db k)"

definition run_rev :: "string \<Rightarrow> coord_db \<Rightarrow> int" where
  "run_rev k db = (case run_at db k of Some r \<Rightarrow> rn_rev r | None \<Rightarrow> 0)"

lemma phase_log [simp]: "run_phase k (co_log a b c n db) = run_phase k db"
  "run_rev k (co_log a b c n db) = run_rev k db"
  by (simp_all add: run_phase_def run_rev_def)

lemma phase_bump [simp]: "run_phase k (bump_run j db) = run_phase k db"
  "run_at (bump_run j db) k = map_option (\<lambda>r. if k = j then r\<lparr>rn_rev := rn_rev r + 1\<rparr> else r) (run_at db k)"
  by (cases "run_at db j"; cases "run_at db k"; auto simp: run_phase_def bump_run_def)+

lemma owner_write_phase:
  assumes "owner_write ws l r db db'" "coord_inv ws db" "fenced_row ws l db = Inr r" "ol_token l \<noteq> []"
  shows "run_rev k db \<le> run_rev k db' \<and> (run_phase k db' \<noteq> run_phase k db \<longrightarrow>
    run_rev k db < run_rev k db' \<and> run_edge (run_phase k db) (run_phase k db'))"
  using assms(1)
proof induction
  case (move r')
  have "run_edge (Some (rn_status r, rn_cancel r)) (Some (rn_status r', rn_cancel r'))"
    using move token_row(6)[OF assms(3,2,4)]
    by (cases "rn_status r' = ''active''") (auto intro: run_edge.activate run_edge.live)
  then show ?case
    using move token_row(1)[OF assms(3,2,4)] by (auto simp: run_phase_def run_rev_def)
next
  case (close st "term" now)
  then show ?case
    using token_row(1,6)[OF assms(3,2,4)]
    by (auto simp: run_phase_def run_rev_def close_run_def intro: run_edge.close)
next
  case (resource s b c n)
  then show ?case by (auto simp: run_phase_def run_rev_def split: option.splits)
qed simp_all

interpretation registry: invariant_machine "run_phase k" "run_rev k" "co_step ws" run_edge "coord_inv ws"
  for ws k
proof
  fix db opn
  assume inv: "coord_inv ws db"
  show "coord_inv ws (co_step ws opn db)" by (rule co_step_inv[OF inv])
  have both: "run_rev k db \<le> run_rev k (co_step ws opn db) \<and> (run_phase k (co_step ws opn db) \<noteq> run_phase k db \<longrightarrow>
    run_rev k db < run_rev k (co_step ws opn db) \<and> run_edge (run_phase k db) (run_phase k (co_step ws opn db)))"
    using inv
  proof (cases rule: co_step_cases[where opn = opn])
    case (acquire ex token now task run l r')
    show ?thesis
    proof (cases "k = run_key ws run")
      case True
      then show ?thesis
        using acquire(2,3) inv_row[OF inv, of k]
        by (auto simp: acquired_def run_phase_def run_rev_def run_edge.take split: option.splits)
    next
      case False
      then show ?thesis using acquire(3) by (simp add: run_phase_def run_rev_def)
    qed
  next
    case (owner l r)
    then show ?thesis using owner_write_phase[OF _ inv] by blast
  qed simp
  show "run_rev k db \<le> run_rev k (co_step ws opn db)" using both by blast
  assume "run_phase k (co_step ws opn db) \<noteq> run_phase k db"
  then show "run_edge (run_phase k db) (run_phase k (co_step ws opn db))"
    "run_rev k db < run_rev k (co_step ws opn db)" using both by blast+
qed

subsection \<open>Generations and events only grow\<close>

lemma step_grows:
  assumes "coord_inv ws db"
  shows "run_at db k = Some r \<Longrightarrow> \<exists>r'. run_at (co_step ws opn db) k = Some r' \<and> rn_gen r \<le> rn_gen r'"
    "set (cd_events db) \<subseteq> set (cd_events (co_step ws opn db))"
proof -
  have ow: "(\<forall>r0. run_at db k = Some r0 \<longrightarrow> (\<exists>r'. run_at db' k = Some r' \<and> rn_gen r0 \<le> rn_gen r')) \<and>
      set (cd_events db) \<subseteq> set (cd_events db')"
    if "owner_write ws l r db db'" "fenced_row ws l db = Inr r" for l r db'
    using that(1)
  proof induction
    case (move r')
    then show ?case using fenced_rowD[OF that(2)] by auto
  next
    case (close st "term" now)
    then show ?case using fenced_rowD[OF that(2)] by (auto simp: close_run_def)
  next
    case (resource s b c n)
    then show ?case by (auto simp: bump_run_def split: option.splits)
  qed auto
  have "(\<forall>r0. run_at db k = Some r0 \<longrightarrow> (\<exists>r'. run_at (co_step ws opn db) k = Some r' \<and> rn_gen r0 \<le> rn_gen r')) \<and>
      set (cd_events db) \<subseteq> set (cd_events (co_step ws opn db))"
    using assms
  proof (cases rule: co_step_cases[where opn = opn])
    case (acquire ex token now task run l r')
    then show ?thesis by (auto simp: acquired_def split: option.splits)
  qed (use ow in auto)
  then show "run_at db k = Some r \<Longrightarrow> \<exists>r'. run_at (co_step ws opn db) k = Some r' \<and> rn_gen r \<le> rn_gen r'"
    "set (cd_events db) \<subseteq> set (cd_events (co_step ws opn db))" by blast+
qed

lemma gen_grows:
  "coord_inv ws db \<Longrightarrow> run_at db k = Some r \<Longrightarrow>
     \<exists>r'. run_at (fold (co_step ws) ops db) k = Some r' \<and> rn_gen r \<le> rn_gen r'"
proof (induction ops arbitrary: db r)
  case (Cons opn ops)
  obtain r1 where r1: "run_at (co_step ws opn db) k = Some r1" "rn_gen r \<le> rn_gen r1"
    using step_grows(1)[OF Cons.prems] by blast
  show ?case using Cons.IH[OF co_step_inv[OF Cons.prems(1)] r1(1)] r1(2) by fastforce
qed simp

lemma events_grow: "coord_inv ws db \<Longrightarrow> set (cd_events db) \<subseteq> set (cd_events (fold (co_step ws) ops db))"
proof (induction ops arbitrary: db)
  case (Cons opn ops)
  then show ?case using Cons.IH[OF co_step_inv[OF Cons.prems]] step_grows(2)[OF Cons.prems] by fastforce
qed simp

text \<open>Without the fence no owner operation succeeds.\<close>

lemma is_ok_map [simp]: "is_ok (map_sum id f m) = is_ok m"
  by (cases m) auto

lemma op_needs_fence:
  assumes "fenced_row ws l db = Inl e" "op_lease opn = Some l"
  shows "\<not> is_ok (apply_op ws opn db)"
proof -
  have "\<not> is_ok (checkpoint_seal dg ws l now db)" for dg now
    using assms(1) by (cases "find_run ws (ol_run l) db") (auto simp: checkpoint_seal_def fenced_row_def split: if_splits)
  then show ?thesis
    using assms
    by (cases opn)
      (simp_all add: activate_def renew_lease_def co_request_cancel_def begin_cancelling_def
        mark_recovery_required_def register_resource_def transition_resource_def record_event_def finish_run_def)
qed

lemma fence_broken:
  assumes "run_at db (run_key ws (ol_run l)) = Some r" "\<not> owns l r"
  shows "op_lease opn = Some l \<Longrightarrow> \<not> is_ok (apply_op ws opn db)"
    "\<not> is_ok (assert_lease ws l b now db)"
    "\<not> is_ok (assert_request_owner ws (ol_run l) (ol_token l) (ol_gen l) revn now db)"
proof -
  have "fenced_row ws l db = Inl stale" using assms by (simp add: fenced_row_def find_run_def)
  then show "op_lease opn = Some l \<Longrightarrow> \<not> is_ok (apply_op ws opn db)"
    by (rule op_needs_fence)
  show "\<not> is_ok (assert_lease ws l b now db)" using assms by (simp add: assert_lease_def find_run_def)
  show "\<not> is_ok (assert_request_owner ws (ol_run l) (ol_token l) (ol_gen l) revn now db)"
    using assms by (auto simp: assert_request_owner_def find_run_def owns_def)
qed

lemma superseded_forever:
  assumes "coord_inv ws db" "run_at db (run_key ws (ol_run l)) = Some r" "ol_gen l < rn_gen r"
  obtains r' where "run_at (fold (co_step ws) ops db) (run_key ws (ol_run l)) = Some r'" "\<not> owns l r'"
  using gen_grows[OF assms(1,2), of ops] assms(3) by (auto simp: owns_def)

subsection \<open>Properties\<close>

definition empty_db :: coord_db where
  "empty_db = \<lparr>cd_runs = [], cd_resources = [], cd_events = []\<rparr>"

lemma empty_inv: "coord_inv ws empty_db"
  by (simp add: coord_inv_def empty_db_def al_keys_def one_open_def)

text \<open>C4. The registry of a workspace, whatever its processes do to it: at most one run is open at
  a time; a run whose cancellation was requested is not active; a run that is cancelled, failed
  or released has no owner and only settled resources, all with confirmed cleanup; and every
  resource belongs to a registered run and is no younger than its owner generation.\<close>

theorem registry_invariant:
  assumes "db = fold (co_step ws) ops empty_db"
  shows "one_open db \<and>
    (\<forall>k r. run_at db k = Some r \<longrightarrow>
       (rn_cancel r \<noteq> [] \<longrightarrow> rn_status r \<noteq> ''active'') \<and>
       (rn_status r \<in> set CLOSED_STATES \<longrightarrow> rn_token r = [] \<and>
          (\<forall>i s. res_at db i = Some s \<longrightarrow> re_key s = k \<longrightarrow> settled_res s))) \<and>
    (\<forall>i s. res_at db i = Some s \<longrightarrow> (\<exists>r. run_at db (re_key s) = Some r \<and> re_gen s \<le> rn_gen r))"
proof -
  have inv: "coord_inv ws db" unfolding assms by (rule registry.run_good[OF empty_inv])
  have "one_open db" using inv by (simp add: coord_inv_def)
  moreover have "res_ok ws db i s" if "res_at db i = Some s" for i s using inv that by (simp add: coord_inv_def)
  ultimately show ?thesis using inv_row[OF inv] unfolding run_ok_def res_ok_def by blast
qed

text \<open>C5. Fencing: once the run has a younger owner, an older lease is worth nothing for good.
  After any further operations of anybody, every operation under the old lease and both dispatch
  checks are refused.\<close>

theorem superseded_owner_fenced:
  assumes "coord_inv ws db" "run_at db (run_key ws (ol_run l)) = Some r" "ol_gen l < rn_gen r"
  shows "(\<forall>opn. op_lease opn = Some l \<longrightarrow> \<not> is_ok (apply_op ws opn (fold (co_step ws) ops db))) \<and>
    (\<forall>b now. \<not> is_ok (assert_lease ws l b now (fold (co_step ws) ops db))) \<and>
    (\<forall>revn now. \<not> is_ok (assert_request_owner ws (ol_run l) (ol_token l) (ol_gen l) revn now
       (fold (co_step ws) ops db)))"
proof -
  obtain r' where "run_at (fold (co_step ws) ops db) (run_key ws (ol_run l)) = Some r'" "\<not> owns l r'"
    using superseded_forever[OF assms] .
  then show ?thesis using fence_broken by blast
qed

text \<open>C33. A takeover is granted exactly when it is safe.  While a run has an owner (it is then not in a
  terminal state), another run of the workspace is refused, and so is the same run under another
  task; the run itself is granted exactly when the task is its own and the lease is over or the
  recorded process has exited, and then it is granted to the next generation, and the old owner
  is fenced.\<close>

theorem takeover_exactly_when_safe:
  assumes "coord_inv ws db" "run_at db (run_key ws (ol_run old)) = Some r" "owns old r" "ol_token old \<noteq> []"
  shows "rn_status r \<notin> {''cancelled'', ''failed''} \<and>
    (run' \<noteq> ol_run old \<longrightarrow>
      acquire False ex ident token ws path now secs task run' db = raise (integrity ''workspace_busy'')) \<and>
    (task \<noteq> rn_task r \<longrightarrow>
      acquire False ex ident token ws path now secs task (ol_run old) db = raise (integrity ''resume_task_identity_mismatch'')) \<and>
    (is_ok (acquire False ex ident token ws path now secs task (ol_run old) db) \<longleftrightarrow>
      task = rn_task r \<and> (rn_expires r \<le> now \<or> ex (rn_identity r))) \<and>
    (rn_expires r \<le> now \<or> ex (rn_identity r) \<longrightarrow>
      (\<exists>l db'. acquire False ex ident token ws path now secs (rn_task r) (ol_run old) db = ok (l, db') \<and>
         ol_gen l = ol_gen old + 1 \<and> (\<forall>opn. op_lease opn = Some old \<longrightarrow> \<not> is_ok (apply_op ws opn db'))))"
proof -
  let ?k = "run_key ws (ol_run old)"
  have ok: "run_ok ws db ?k r" by (rule inv_row[OF assms(1,2)])
  have tok: "rn_token r \<noteq> []" "rn_gen r = ol_gen old" using assms(3,4) by (simp_all add: owns_def)
  have op: "rn_status r \<in> set OPEN_STATES" by (rule owned_open[OF ok tok(1)])
  have ws: "rn_ws r = ws" using ok by (simp add: run_ok_def)
  have busy: "\<exists>(k, r) \<in> set (cd_runs db). rn_ws r = ws \<and> rn_status r \<in> set OPEN_STATES \<and> k \<noteq> run_key ws run'"
    if "run' \<noteq> ol_run old"
    using op ws that by (intro bexI[OF _ map_of_SomeD[OF assms(2)]]) simp
  have only: "k = ?k" if "(k, r1) \<in> set (cd_runs db)" "rn_status r1 \<in> set OPEN_STATES" for k r1
  proof -
    have "run_at db k = Some r1"
      using assms(1) that(1) by (intro map_of_is_SomeI) (auto simp: coord_inv_def al_keys_def)
    then show ?thesis using assms(1,2) op that(2) unfolding coord_inv_def one_open_def by blast
  qed
  then have free: "\<not> (\<exists>(k, r) \<in> set (cd_runs db). rn_ws r = ws \<and> rn_status r \<in> set OPEN_STATES \<and> k \<noteq> ?k)"
    by blast
  have st: "rn_status r \<notin> {''cancelled'', ''failed''}" using op by (auto simp: OPEN_STATES_def)
  have grant: "\<exists>l db' r'. acquire False ex ident token ws path now secs (rn_task r) (ol_run old) db = ok (l, db') \<and>
      ol_gen l = rn_gen r + 1 \<and> run_at db' ?k = Some r' \<and> rn_gen r' = rn_gen r + 1"
    if "rn_expires r \<le> now \<or> ex (rn_identity r)"
    using that free st assms(2) by (auto simp: acquire_def Let_def)
  have mismatch: "acquire False ex ident token ws path now secs task (ol_run old) db = raise (integrity ''resume_task_identity_mismatch'')"
    if "task \<noteq> rn_task r"
    using that free assms(2) by (auto simp: acquire_def Let_def)
  have held: "\<not> is_ok (acquire False ex ident token ws path now secs task (ol_run old) db)"
    if "now < rn_expires r \<and> \<not> ex (rn_identity r)"
    using that free tok(1) st assms(2) by (simp add: acquire_def Let_def)
  have "is_ok (acquire False ex ident token ws path now secs task (ol_run old) db) \<longleftrightarrow>
      task = rn_task r \<and> (rn_expires r \<le> now \<or> ex (rn_identity r))"
    using mismatch held grant not_less[of now "rn_expires r"] by (cases "task = rn_task r") auto
  moreover note mismatch st
  moreover have "acquire False ex ident token ws path now secs task run' db = raise (integrity ''workspace_busy'')"
    if "run' \<noteq> ol_run old"
    using busy[OF that] by (simp add: acquire_def Let_def)
  moreover have "\<exists>l db'. acquire False ex ident token ws path now secs (rn_task r) (ol_run old) db = ok (l, db') \<and>
      ol_gen l = ol_gen old + 1 \<and> (\<forall>opn. op_lease opn = Some old \<longrightarrow> \<not> is_ok (apply_op ws opn db'))"
    if over: "rn_expires r \<le> now \<or> ex (rn_identity r)"
  proof -
    obtain l db' r' where l: "acquire False ex ident token ws path now secs (rn_task r) (ol_run old) db = ok (l, db')"
        "ol_gen l = rn_gen r + 1" "run_at db' ?k = Some r'" "rn_gen r' = rn_gen r + 1"
      using grant[OF over] by blast
    have "\<not> is_ok (apply_op ws opn db')" if "op_lease opn = Some old" for opn
      using fence_broken(1)[OF l(3) _ that] l(4) tok(2) by (simp add: owns_def)
    then show ?thesis using l(1,2) tok(2) by auto
  qed
  ultimately show ?thesis by blast
qed

text \<open>A cancellation closes dispatch for good.  Once a cancellation of the run is recorded, it
  stays recorded, the run is never active again, and under any lease and at any time no dispatch
  check passes, no activation succeeds, no resource is registered for dispatch and none is set
  running.\<close>

theorem cancel_closes_dispatch:
  assumes "coord_inv ws db" "run_at db (run_key ws (ol_run l)) = Some r" "rn_cancel r \<noteq> []"
  shows "let db' = fold (co_step ws) ops db in
    (\<exists>s. run_phase (run_key ws (ol_run l)) db' = Some (s, rn_cancel r) \<and> s \<noteq> ''active'') \<and>
    \<not> is_ok (assert_request_owner ws (ol_run l) token g revn now db') \<and>
    \<not> is_ok (assert_lease ws l False now db') \<and> \<not> is_ok (activate ws l now db') \<and>
    \<not> is_ok (register_resource ws l rid kind eff par rec pay False now db') \<and>
    \<not> is_ok (transition_resource ws l rid ''running'' cl rec err pay adopt now db')"
proof -
  let ?k = "run_key ws (ol_run l)" and ?db = "fold (co_step ws) ops db"
  have "run_phase ?k ?db \<in> {q. \<exists>s. q = Some (s, rn_cancel r) \<and> s \<noteq> ''active''}"
  proof (rule registry.good_closed[OF assms(1)])
    show "run_phase ?k db \<in> {q. \<exists>s. q = Some (s, rn_cancel r) \<and> s \<noteq> ''active''}"
      using assms(2,3) run_ok_cancel(1)[OF inv_row[OF assms(1,2)]] by (simp add: run_phase_def)
  next
    fix p q :: "(string \<times> string) option"
    assume "p \<in> {q. \<exists>s. q = Some (s, rn_cancel r) \<and> s \<noteq> ''active''}" "run_edge p q"
    then show "q \<in> {q. \<exists>s. q = Some (s, rn_cancel r) \<and> s \<noteq> ''active''}"
      using assms(3) by (auto simp: CLOSED_STATES_def)
  qed
  then obtain r' where r': "run_at ?db ?k = Some r'" "rn_cancel r' = rn_cancel r" "rn_status r' \<noteq> ''active''"
    by (auto simp: run_phase_def)
  have find: "find_run ws (ol_run l) ?db = Inr r'" "fenced_row ws l ?db = Inr r' \<or> fenced_row ws l ?db = Inl stale"
    using r'(1) by (auto simp: find_run_def fenced_row_def)
  have "\<not> is_ok (assert_request_owner ws (ol_run l) token g revn now ?db)"
    using r' by (simp add: assert_request_owner_def find)
  moreover have "\<not> is_ok (assert_lease ws l False now ?db)" using r' by (simp add: assert_lease_def find)
  moreover have "\<not> is_ok (activate ws l now ?db)" using find(2) r' assms(3) by (auto simp: activate_def split: if_splits)
  moreover have "\<not> is_ok (register_resource ws l rid kind eff par rec pay False now ?db)"
    using find(2) r' by (auto simp: register_resource_def Let_def)
  moreover have "\<not> is_ok (transition_resource ws l rid ''running'' cl rec err pay adopt now ?db)"
    using find(2) r'(3) by (elim disjE) (simp_all add: transition_resource_def Let_def)
  moreover have "\<exists>s. run_phase ?k ?db = Some (s, rn_cancel r) \<and> s \<noteq> ''active''"
    using r' by (simp add: run_phase_def)
  ultimately show ?thesis by (simp only: Let_def simp_thms)
qed

text \<open>Checkpoint seals verify for the owner that made them and for every later owner of the
  run, whatever happened in between, because the event log only grows.\<close>

theorem seal_verifies_later:
  assumes "coord_inv ws db" "ol_token l \<noteq> []" "checkpoint_seal dg ws l now db = ok (seal, db1)"
    and "ol_run l' = ol_run l" "ol_ws l' = ol_ws l" "ol_gen l \<le> ol_gen l'"
  shows "verify_checkpoint_seal ws l' seal (fold (co_step ws) ops db1) = ok ()"
proof -
  let ?k = "run_key ws (ol_run l)" and ?db = "fold (co_step ws) ops db1"
  obtain r where r: "find_run ws (ol_run l) db = Inr r" "owns l r"
    using assms(3) by (auto simp: checkpoint_seal_def bindR_ok_iff split: if_splits)
  have seal: "se_run seal = ol_run l" "se_ws seal = ol_ws l" "se_token seal = ol_token l" "se_gen seal = ol_gen l"
    and db1: "db1 = co_log ?k ''checkpoint_sealed'' (PSeal seal) now db"
    using assms(3) by (auto simp: checkpoint_seal_def bindR_ok_iff Let_def split: if_splits)
  have row: "run_at db ?k = Some r" using r(1) by (auto simp: find_run_def split: option.splits)
  have ok: "run_ok ws db ?k r" by (rule inv_row[OF assms(1) row])
  have own: "rn_token r = ol_token l" "rn_gen r = ol_gen l" using r(2) by (simp_all add: owns_def)
  have pos: "1 \<le> ol_gen l" using ok own by (simp add: run_ok_def)
  have "\<exists>e \<in> set (cd_events db). ev_key e = ?k \<and> ev_type e = ''resume_owner_acquired'' \<and>
      payload_owner (ev_payload e) = Some (ol_gen l, ol_token l)"
    using run_ok_token[OF ok] own assms(2) by simp
  then obtain e where e: "e \<in> set (cd_events db)" "ev_key e = ?k" "ev_type e = ''resume_owner_acquired''"
      "payload_owner (ev_payload e) = Some (ol_gen l, ol_token l)" by blast
  have grow: "set (cd_events db1) \<subseteq> set (cd_events ?db)"
    using events_grow[of ws db1 ops] inv_log[OF assms(1)] by (simp add: db1)
  let ?e = "\<lparr>ev_key = ?k, ev_type = ''checkpoint_sealed'', ev_payload = PSeal seal, ev_created = now\<rparr>"
  have "?e \<in> set (run_events ws (ol_run l) ?db)" "e \<in> set (run_events ws (ol_run l) ?db)"
    using grow e(1,2) by (auto simp: run_events_def db1)
  moreover have "ev_type ?e = ''checkpoint_sealed'' \<and> ev_payload ?e = PSeal seal" by simp
  ultimately have "\<exists>e \<in> set (run_events ws (ol_run l) ?db). ev_type e = ''checkpoint_sealed'' \<and> ev_payload e = PSeal seal"
    "\<exists>e \<in> set (run_events ws (ol_run l) ?db). ev_type e = ''resume_owner_acquired'' \<and>
       payload_owner (ev_payload e) = Some (se_gen seal, se_token seal)"
    using e(3,4) seal by metis+
  then show ?thesis
    using seal assms(2,4-6) pos by (simp add: verify_checkpoint_seal_def)
qed

definition demo_lease :: owner_lease where
  "demo_lease = \<lparr>ol_task = ''t'', ol_run = ''r'', ol_ws = ''w'', ol_token = ''k1'', ol_gen = 1, ol_rev = 1,
     ol_expires = 40, ol_status = ''reconciling''\<rparr>"

definition demo_ops :: "co_op list" where
  "demo_ops = [OAcquire False (\<lambda>_. False) ''p1'' ''k1'' ''/w'' 10 30 ''t'' ''r'', ORequestCancel demo_lease ''c'' ''f'' 11]"

definition demo_db :: "nat \<Rightarrow> coord_db" where
  "demo_db n = fold (co_step ''w'') (take n demo_ops) empty_db"

lemma demo_db_inv: "coord_inv ''w'' (demo_db n)"
  unfolding demo_db_def by (rule run_inv[OF empty_inv])

lemma demo_row: "\<exists>r. run_at (demo_db 1) (run_key ''w'' (ol_run demo_lease)) = Some r \<and> owns demo_lease r \<and>
    rn_expires r = 40 \<and> rn_status r = ''reconciling'' \<and> rn_identity r = ''p1''"
  by (simp add: demo_db_def demo_ops_def co_step_def acquire_def empty_db_def Let_def owns_def demo_lease_def)

lemma demo_cancelled: "\<exists>r. run_at (demo_db 2) (run_key ''w'' (ol_run demo_lease)) = Some r \<and> rn_cancel r = ''c''"
  by (simp add: demo_db_def demo_ops_def co_step_def acquire_def empty_db_def Let_def demo_lease_def
      co_request_cancel_def fenced_row_def find_run_def owns_def numeral_2_eq_2)

theorem registry_invariant_witness: "one_open (fold (co_step ''w'') demo_ops empty_db)"
  using registry_invariant[OF refl, of "''w''" demo_ops] by blast

theorem superseded_owner_fenced_witness:
  "\<not> is_ok (apply_op ''w'' (OActivate (demo_lease\<lparr>ol_gen := 0\<rparr>) 12) (fold (co_step ''w'') [] (demo_db 1)))"
proof -
  obtain r where r: "run_at (demo_db 1) (run_key ''w'' (ol_run (demo_lease\<lparr>ol_gen := 0\<rparr>))) = Some r" "owns demo_lease r"
    using demo_row by auto
  then have "ol_gen (demo_lease\<lparr>ol_gen := 0\<rparr>) < rn_gen r" by (simp add: owns_def demo_lease_def)
  from superseded_owner_fenced[OF demo_db_inv r(1) this, of "[]"] show ?thesis by (simp del: apply_op.simps)
qed

theorem takeover_exactly_when_safe_witness:
  "\<not> is_ok (acquire False (\<lambda>_. False) ''p2'' ''k2'' ''w'' ''/w'' 20 30 ''t'' ''r'' (demo_db 1)) \<and>
   (\<exists>l db'. acquire False (\<lambda>_. True) ''p2'' ''k2'' ''w'' ''/w'' 20 30 ''t'' ''r'' (demo_db 1) = ok (l, db') \<and> ol_gen l = 2)"
proof -
  obtain r where r: "run_at (demo_db 1) (run_key ''w'' (ol_run demo_lease)) = Some r" "owns demo_lease r" "rn_expires r = 40"
    using demo_row by blast
  have l: "ol_token demo_lease \<noteq> []" "ol_run demo_lease = ''r''" "ol_gen demo_lease = 1" by (simp_all add: demo_lease_def)
  have t: "rn_task r = ''t''"
    using r(1) by (simp add: demo_db_def demo_ops_def co_step_def acquire_def empty_db_def Let_def demo_lease_def) auto
  show ?thesis
    using takeover_exactly_when_safe[OF demo_db_inv r(1,2) l(1), of "''r''" "\<lambda>_. False" "''p2''" "''k2''" "''/w''" 20 30 "''t''"]
      takeover_exactly_when_safe[OF demo_db_inv r(1,2) l(1), of "''r''" "\<lambda>_. True" "''p2''" "''k2''" "''/w''" 20 30 "''t''"] r(3) t l
    by auto
qed

theorem cancel_closes_dispatch_witness:
  "\<not> is_ok (activate ''w'' demo_lease 12 (fold (co_step ''w'') [OBeginCancel demo_lease 12] (demo_db 2)))"
proof -
  obtain r where r: "run_at (demo_db 2) (run_key ''w'' (ol_run demo_lease)) = Some r" "rn_cancel r \<noteq> []"
    using demo_cancelled by auto
  from cancel_closes_dispatch[OF demo_db_inv r, of "[OBeginCancel demo_lease 12]"] show ?thesis
    by (simp add: Let_def del: fold.simps)
qed

theorem seal_verifies_later_witness:
  "\<exists>seal db1. checkpoint_seal (\<lambda>_. ''h'') ''w'' demo_lease 12 (demo_db 1) = ok (seal, db1) \<and>
     verify_checkpoint_seal ''w'' (demo_lease\<lparr>ol_gen := 2, ol_token := ''k2''\<rparr>) seal
       (fold (co_step ''w'') [OAcquire False (\<lambda>_. True) ''p2'' ''k2'' ''/w'' 20 30 ''t'' ''r''] db1) = ok ()"
proof -
  obtain r where r: "run_at (demo_db 1) (run_key ''w'' (ol_run demo_lease)) = Some r" "owns demo_lease r"
      "rn_expires r = 40" "rn_status r = ''reconciling''"
    using demo_row by blast
  then obtain seal db1 where s: "checkpoint_seal (\<lambda>_. ''h'') ''w'' demo_lease 12 (demo_db 1) = ok (seal, db1)"
    by (simp add: checkpoint_seal_def find_run_def LIVE_STATES_def Let_def)
  have t: "ol_token demo_lease \<noteq> []" by (simp add: demo_lease_def)
  show ?thesis
    using seal_verifies_later[OF demo_db_inv t s, of "demo_lease\<lparr>ol_gen := 2, ol_token := ''k2''\<rparr>"
        "[OAcquire False (\<lambda>_. True) ''p2'' ''k2'' ''/w'' 20 30 ''t'' ''r'']"] s
    by (simp add: demo_lease_def del: fold.simps)
qed

end
