(* ===== verification/RunCoordinator.thy ===== *)
theory RunCoordinator
  imports RunRegistry "HOL-Library.Multiset"
begin

text \<open>
  \<open>agent_runtime/run_coordination/coordinator.py\<close>: one owner's procedures over the run registry:
  reconciling inherited resources before activation, dispatching under the fence, and cancelling
  with confirmed cleanup.  Resource adapters and the dispatched runner are arguments; they do not
  write to the registry.  A call reads the clock once, and runs without other processes'
  transactions in between.
\<close>

subsection \<open>Values\<close>

record res_result =
  rr_id :: string
  rr_status :: string
  rr_cleanup :: string
  rr_error :: string
  rr_receipt :: string
  rr_changed :: "string list"
  rr_details :: "(string, string) alist"

definition new_res_result :: "string \<Rightarrow> string \<Rightarrow> string \<Rightarrow> string \<Rightarrow> string \<Rightarrow> (string, string) alist \<Rightarrow> res_result" where
  "new_res_result i status cleanup error receipt details = \<lparr>rr_id = i, rr_status = status, rr_cleanup = cleanup,
     rr_error = error, rr_receipt = receipt, rr_changed = [], rr_details = details\<rparr>"

definition FINAL_STATES :: "string list" where
  "FINAL_STATES = [''completed'', ''failed'', ''cancelled'', ''not_started'']"

definition rr_confirmed :: "res_result \<Rightarrow> bool" where
  "rr_confirmed r \<longleftrightarrow> rr_cleanup r = ''confirmed'' \<and> rr_status r \<in> set FINAL_STATES"

record cancel_report =
  cr_run :: string
  cr_request :: string
  cr_status :: string
  cr_results :: "res_result list"
  cr_error :: string
  cr_created :: real

definition cr_confirmed :: "cancel_report \<Rightarrow> bool" where
  "cr_confirmed r \<longleftrightarrow> cr_status r = ''cancelled'' \<and> (\<forall>x \<in> set (cr_results r). rr_confirmed x)"

record adapter =
  ad_cancel :: "res_row \<Rightarrow> string \<Rightarrow> res_result res"
  ad_reconcile :: "res_row \<Rightarrow> res_result res"

definition unknown_adapter :: adapter where
  "unknown_adapter =
    \<lparr>ad_cancel = \<lambda>r req. ok (new_res_result (re_id r) ''unknown'' ''unknown'' ''resource_adapter_missing'' [] []),
     ad_reconcile = \<lambda>r. ok (new_res_result (re_id r) ''unknown'' ''unknown'' ''resource_adapter_missing'' [] [])\<rparr>"

record coordinator =
  cn_ws :: string
  cn_path :: string
  cn_task :: string
  cn_run :: string
  cn_seconds :: real
  cn_adapters :: "(string, adapter) alist"
  cn_lease :: "owner_lease option"
  cn_cancel :: bool
  cn_db :: coord_db

definition at_store :: "(coord_db \<Rightarrow> ('a \<times> coord_db) res) \<Rightarrow> (coordinator, 'a) proc" where
  "at_store f c = (case f (cn_db c) of Inl e \<Rightarrow> (Inl e, c) | Inr (x, db) \<Rightarrow> (Inr x, c\<lparr>cn_db := db\<rparr>))"

definition read_store :: "(coord_db \<Rightarrow> 'a res) \<Rightarrow> (coordinator, 'a) proc" where
  "read_store f c = (f (cn_db c), c)"

definition set_lease :: "owner_lease \<Rightarrow> (coordinator, unit) proc" where
  "set_lease l c = (Inr (), c\<lparr>cn_lease := Some l\<rparr>)"

definition require_lease :: "(coordinator, owner_lease) proc" where
  "require_lease c =
     (case cn_lease c of Some l \<Rightarrow> Inr l | None \<Rightarrow> raise (integrity ''resume_owner_missing''), c)"

definition adapter_for :: "coordinator \<Rightarrow> res_row \<Rightarrow> adapter" where
  "adapter_for c r = (case al_get (cn_adapters c) (re_kind r) of
       Some a \<Rightarrow> a
     | None \<Rightarrow> (case al_get (cn_adapters c) ''*'' of Some a \<Rightarrow> a | None \<Rightarrow> unknown_adapter))"

subsection \<open>Simple operations\<close>

definition cn_acquire :: "bool \<Rightarrow> (string \<Rightarrow> bool) \<Rightarrow> string \<Rightarrow> string \<Rightarrow> real \<Rightarrow> (coordinator, owner_lease) proc" where
  "cn_acquire retired exited ident token now c =
     bindS (at_store (acquire retired exited ident token (cn_ws c) (cn_path c) now (cn_seconds c) (cn_task c) (cn_run c)))
       (\<lambda>l. bindS (set_lease l) (\<lambda>_. returnS l)) c"

definition cn_heartbeat :: "real \<Rightarrow> (coordinator, owner_lease) proc" where
  "cn_heartbeat now c = bindS require_lease (\<lambda>l.
     bindS (at_store (renew_lease (cn_ws c) l now (cn_seconds c))) (\<lambda>l'.
       bindS (set_lease l') (\<lambda>_. returnS l'))) c"

definition cn_request_cancel :: "string \<Rightarrow> string \<Rightarrow> real \<Rightarrow> (coordinator, string) proc" where
  "cn_request_cancel request_id fresh now c = bindS require_lease (\<lambda>l.
     bindS (read_store (co_snapshot (cn_ws c) (cn_run c))) (\<lambda>current.
       if sn_gen current = ol_gen l \<and> sn_token current = [] \<and>
          sn_status current \<in> {''cancelled'', ''recovery_required''} \<and> sn_cancel current \<noteq> []
       then returnS (sn_cancel current)
       else at_store (co_request_cancel (cn_ws c) l request_id fresh now))) c"

definition assert_can_dispatch :: "string \<Rightarrow> real \<Rightarrow> (coordinator, unit) proc" where
  "assert_can_dispatch fresh now c =
     bindS (if cn_cancel c then bindS (cn_request_cancel [] fresh now) (\<lambda>_. returnS ()) else returnS ()) (\<lambda>_.
     bindS require_lease (\<lambda>l.
     bindS (read_store (assert_lease (cn_ws c) l False now)) (\<lambda>_. returnS ()))) c"

definition cn_register ::
  "string \<Rightarrow> real \<Rightarrow> string \<Rightarrow> string \<Rightarrow> string \<Rightarrow> string \<Rightarrow> string \<Rightarrow> (string, string) alist \<Rightarrow> (coordinator, res_row) proc" where
  "cn_register fresh now rid kind effect parent receipt payload c =
     bindS (assert_can_dispatch fresh now) (\<lambda>_. bindS require_lease (\<lambda>l.
       at_store (register_resource (cn_ws c) l rid kind effect parent receipt payload False now))) c"

definition cn_register_recovery ::
  "real \<Rightarrow> string \<Rightarrow> string \<Rightarrow> string \<Rightarrow> string \<Rightarrow> string \<Rightarrow> (string, string) alist \<Rightarrow> (coordinator, res_row) proc" where
  "cn_register_recovery now rid kind effect parent receipt payload c = bindS require_lease (\<lambda>l.
     at_store (register_resource (cn_ws c) l rid kind effect parent receipt payload True now)) c"

definition cn_transition ::
  "string \<Rightarrow> string \<Rightarrow> string \<Rightarrow> string \<Rightarrow> string \<Rightarrow> (string, string) alist \<Rightarrow> bool \<Rightarrow> real \<Rightarrow> (coordinator, res_row) proc" where
  "cn_transition rid status cleanup receipt error details adopt now c = bindS require_lease (\<lambda>l.
     at_store (transition_resource (cn_ws c) l rid status cleanup receipt error details adopt now)) c"

definition cn_event :: "string \<Rightarrow> co_payload \<Rightarrow> real \<Rightarrow> (coordinator, unit) proc" where
  "cn_event kind payload now c = bindS require_lease (\<lambda>l. at_store (record_event (cn_ws c) l kind payload now)) c"

definition cn_finish :: "string \<Rightarrow> string \<Rightarrow> real \<Rightarrow> (coordinator, run_snapshot) proc" where
  "cn_finish status error_code now c = bindS require_lease (\<lambda>l. at_store (finish_run (cn_ws c) l status error_code now)) c"

subsection \<open>Children before parents\<close>

function depth_from :: "(string, res_row) alist \<Rightarrow> string list \<Rightarrow> string \<Rightarrow> nat \<Rightarrow> nat" where
  "depth_from by_id seen parent v =
    (if parent \<noteq> [] \<and> parent \<in> set (al_keys by_id) \<and> parent \<notin> set seen
     then depth_from by_id (parent # seen) (re_parent (the (al_get by_id parent))) (v + 1)
     else v)"
  by pat_completeness auto
termination
  by (relation "measure (\<lambda>(by_id, seen, _, _). card (set (al_keys by_id) - set seen))")
    (auto intro!: diff_less simp: card_gt_0_iff)

declare depth_from.simps [simp del]

definition by_ids :: "res_row list \<Rightarrow> (string, res_row) alist" where
  "by_ids rs = map (\<lambda>r. (re_id r, r)) (rev rs)"

definition res_depth :: "res_row list \<Rightarrow> res_row \<Rightarrow> nat" where
  "res_depth rs r = depth_from (by_ids rs) [] (re_parent r) 0"

definition reverse_depth :: "res_row list \<Rightarrow> res_row list" where
  "reverse_depth rs = sort_key (\<lambda>r. (- int (res_depth rs r), re_created r, re_id r)) rs"

subsection \<open>Reconciling and cancelling\<close>

fun exn_name :: "exn \<Rightarrow> string" where
  "exn_name (ValueError _) = ''ValueError''"
| "exn_name (KeyError _) = ''KeyError''"
| "exn_name (AttributeError _) = ''AttributeError''"
| "exn_name (TypeErr _) = ''TypeError''"
| "exn_name (PatchError _ _) = ''PatchError''"
| "exn_name (TaskDAGError _) = ''TaskDAGError''"
| "exn_name (LeaseConflictError _) = ''LeaseConflictError''"
| "exn_name (CoordinationError _ _) = ''CoordinationError''"
| "exn_name (ContextBlocked _) = ''ContextBuildBlockedError''"
| "exn_name (CancelledError _) = ''CancelledError''"
| "exn_name StopIter = ''StopIteration''"

text \<open>An adapter that raises, or answers for another resource, leaves the resource unknown.\<close>

definition safe_result :: "res_row \<Rightarrow> res_result res \<Rightarrow> res_result" where
  "safe_result r m =
    (let failed = (\<lambda>name. new_res_result (re_id r) ''unknown'' ''unknown'' ''resource_cleanup_exception'' []
                    [(''exception'', name)]) in
     case m of
       Inl e \<Rightarrow> failed (exn_name e)
     | Inr x \<Rightarrow> if rr_id x \<notin> {[], re_id r} then failed ''CoordinationIntegrityError'' else x)"

definition kept_result :: "res_row \<Rightarrow> res_result" where
  "kept_result r = new_res_result (re_id r) (re_status r) ''confirmed'' [] (re_receipt r) []"

definition stored_state :: "res_result \<Rightarrow> string" where
  "stored_state x = (if rr_status x \<in> set FINAL_STATES \<union> {''unknown''} then rr_status x else ''unknown'')"

definition reconcile_one :: "owner_lease \<Rightarrow> real \<Rightarrow> res_row \<Rightarrow> (coordinator, res_result) proc" where
  "reconcile_one l now r c =
    (let x = (if settled_res r then kept_result r else safe_result r (ad_reconcile (adapter_for c r) r)) in
     bindS (at_store (transition_resource (cn_ws c) l (re_id r) (stored_state x) (rr_cleanup x) (rr_receipt x)
              (rr_error x) (rr_details x) True now)) (\<lambda>_. returnS x)) c"

definition cancel_one :: "string \<Rightarrow> real \<Rightarrow> res_row \<Rightarrow> (coordinator, res_result) proc" where
  "cancel_one request_id now r c =
    (if settled_res r then returnS (kept_result r) c
     else
      bindS (cn_event ''resource_cancel_sent'' (PFree [(''resource_id'', re_id r), (''kind'', re_kind r), (''request_id'', request_id)]) now) (\<lambda>_.
       let x = safe_result r (ad_cancel (adapter_for c r) r request_id) in
       bindS (cn_transition (re_id r) (stored_state x) (rr_cleanup x) (rr_receipt x) (rr_error x) (rr_details x) False now) (\<lambda>_.
       bindS (cn_event (if rr_confirmed x then ''resource_cleanup_confirmed'' else ''resource_cleanup_failed'')
                (PFree [(''resource_id'', re_id r), (''error_code'', rr_error x)]) now) (\<lambda>_. returnS x))) c)"

definition report_of :: "coordinator \<Rightarrow> string \<Rightarrow> string \<Rightarrow> res_result list \<Rightarrow> string \<Rightarrow> real \<Rightarrow> cancel_report" where
  "report_of c req status results error now = \<lparr>cr_run = cn_run c, cr_request = req, cr_status = status,
     cr_results = results, cr_error = error, cr_created = now\<rparr>"

definition end_cancel :: "bool \<Rightarrow> real \<Rightarrow> res_result list \<Rightarrow> (coordinator, string) proc" where
  "end_cancel finalize now results c =
    (if \<forall>x \<in> set results. rr_confirmed x
     then bindS (if finalize then bindS (cn_finish ''cancelled'' [] now) (\<lambda>_. returnS ()) else returnS ())
            (\<lambda>_. returnS ''cancelled'') c
     else bindS require_lease (\<lambda>l.
       bindS (at_store (mark_recovery_required (cn_ws c) l ''resource_cleanup_failed'' now))
         (\<lambda>_. returnS ''recovery_required'')) c)"

definition drive_cancel :: "string \<Rightarrow> bool \<Rightarrow> string \<Rightarrow> real \<Rightarrow> (coordinator, cancel_report) proc" where
  "drive_cancel request_id finalize fresh now c =
    bindS require_lease (\<lambda>l.
    bindS (at_store (co_request_cancel (cn_ws c) l request_id fresh now)) (\<lambda>req.
    bindS (at_store (begin_cancelling (cn_ws c) l now)) (\<lambda>l'.
    bindS (set_lease l') (\<lambda>_.
    bindS (read_store (\<lambda>db. ok (run_resources (cn_ws c) (cn_run c) db))) (\<lambda>rs.
    bindS (mapS (cancel_one req now) (reverse_depth rs)) (\<lambda>results.
    bindS (end_cancel finalize now results) (\<lambda>status.
      returnS (report_of c req status results
        (if status = ''cancelled'' then [] else ''resource_cleanup_failed'') now)))))))) c"

definition cn_cancel_run :: "string \<Rightarrow> bool \<Rightarrow> string \<Rightarrow> real \<Rightarrow> (coordinator, cancel_report) proc" where
  "cn_cancel_run request_id finalize fresh now c =
    bindS (read_store (co_snapshot (cn_ws c) (cn_run c))) (\<lambda>current.
     if sn_status current = ''cancelled'' then
       returnS (report_of c (if sn_cancel current \<noteq> [] then sn_cancel current else request_id) ''cancelled''
         (map kept_result (sn_resources current)) [] now)
     else
      bindS (if sn_status current = ''recovery_required'' \<and> sn_cancel current \<noteq> [] \<and> sn_token current = []
             then bindS require_lease (\<lambda>l. returnS (sn_gen current = ol_gen l)) else returnS False) (\<lambda>over.
       if over then
         returnS (report_of c (sn_cancel current) (sn_status current)
           (map (\<lambda>r. new_res_result (re_id r) (re_status r) (re_cleanup r) (re_error r) (re_receipt r) [])
              (sn_resources current)) ''resource_cleanup_failed'' now)
       else drive_cancel request_id finalize fresh now)) c"

definition end_reconcile ::
  "string \<Rightarrow> real \<Rightarrow> owner_lease \<Rightarrow> res_result list \<Rightarrow> run_snapshot \<Rightarrow> (coordinator, string \<times> res_result list) proc" where
  "end_reconcile fresh now l results snap c =
    (if \<exists>x \<in> set results. \<not> rr_confirmed x then
       bindS (at_store (mark_recovery_required (cn_ws c) l ''old_execution_unconfirmed'' now)) (\<lambda>_.
         returnS (''recovery_required'', results)) c
     else if sn_cancel snap \<noteq> [] then
       bindS (at_store (co_request_cancel (cn_ws c) l (sn_cancel snap) fresh now)) (\<lambda>_.
       bindS (at_store (begin_cancelling (cn_ws c) l now)) (\<lambda>l'.
       bindS (set_lease l') (\<lambda>_.
       bindS (cn_cancel_run (sn_cancel snap) True fresh now) (\<lambda>report.
         returnS (cr_status report, cr_results report))))) c
     else
       bindS (at_store (activate (cn_ws c) l now)) (\<lambda>l'.
       bindS (set_lease l') (\<lambda>_. returnS (''active'', results))) c)"

definition cn_reconcile :: "string \<Rightarrow> real \<Rightarrow> (coordinator, string \<times> res_result list) proc" where
  "cn_reconcile fresh now c =
    bindS require_lease (\<lambda>l.
    bindS (read_store (co_snapshot (cn_ws c) (cn_run c))) (\<lambda>snap.
    bindS (mapS (reconcile_one l now) (reverse_depth (sn_resources snap))) (\<lambda>results.
    bindS (read_store (co_snapshot (cn_ws c) (cn_run c))) (\<lambda>snap.
      end_reconcile fresh now l results snap)))) c"

text \<open>The dispatched runner: whether its result is fine and whether its execution has stopped (both
  assumed when the result does not say).\<close>

definition cn_dispatch :: "string \<Rightarrow> real \<Rightarrow> res_row \<Rightarrow> (bool \<times> bool) res \<Rightarrow> (coordinator, bool \<times> bool) proc" where
  "cn_dispatch fresh now r runner c =
    bindS (assert_can_dispatch fresh now) (\<lambda>_.
    bindS (cn_transition (re_id r) ''running'' ''unverified'' [] [] [] False now) (\<lambda>_.
     case runner of
       Inl e \<Rightarrow> bindS (cn_transition (re_id r) ''unknown'' ''unknown'' [] ''resource_execution_uncertain''
                  [(''exception'', exn_name e)] False now) (\<lambda>_. raiseS e)
     | Inr (fine, stopped) \<Rightarrow>
         bindS (cn_transition (re_id r) (if fine then ''completed'' else ''failed'')
                  (if stopped then ''confirmed'' else ''unknown'') [] [] [] False now) (\<lambda>_.
           returnS (fine, stopped)))) c"

subsection \<open>Statements\<close>

named_theorems proc_iff "when a statement returns"

lemma at_store_iff [proc_iff]:
  "at_store f c = (Inr x, c') \<longleftrightarrow> (\<exists>db. f (cn_db c) = Inr (x, db) \<and> c' = c\<lparr>cn_db := db\<rparr>)"
  by (auto simp: at_store_def split: sum.splits)

lemma read_store_iff [proc_iff]: "read_store f c = (Inr x, c') \<longleftrightarrow> f (cn_db c) = Inr x \<and> c' = c"
  by (auto simp: read_store_def)

lemma set_lease_iff [proc_iff]: "set_lease l c = (Inr u, c') \<longleftrightarrow> c' = c\<lparr>cn_lease := Some l\<rparr>"
  by (auto simp: set_lease_def)

lemma require_lease_iff [proc_iff]: "require_lease c = (Inr l, c') \<longleftrightarrow> cn_lease c = Some l \<and> c' = c"
  by (auto simp: require_lease_def split: option.splits)

declare bindS_ok_iff [proc_iff]

lemma op_keeps_inv:
  "coord_inv ws db \<Longrightarrow> apply_op ws opn db = Inr (u, db') \<Longrightarrow> op_ok opn \<Longrightarrow> coord_inv ws db'"
  using co_step_inv[of ws db opn] by (simp add: co_step_def)

lemma bump_resources [simp]: "cd_resources (bump_run k db) = cd_resources db"
  by (simp add: bump_run_def split: option.splits)

lemma transition_effect:
  assumes "transition_resource ws l rid st cl rec err pay adopt now db = Inr (s, db')" "coord_inv ws db"
    and "res_at db rid = Some r"
  shows "res_at db' i = (if i = rid then Some s else res_at db i)" "re_key s = re_key r" "re_status s = st"
    "re_cleanup s = cl" "re_id s = rid"
proof -
  have id: "re_id r = rid" using assms(2,3) by (simp add: coord_inv_def res_ok_def)
  obtain row where row: "fenced_row ws l db = Inr row"
    using assms(1) by (auto simp: transition_resource_def bindR_ok_iff split: if_splits)
  obtain r' k b c n where r': "s = r'" "db' = bump_run k (co_log k b c n (put_res r' db))" "re_id r' = re_id r"
      "re_key r' = re_key r" "re_status r' = st" "re_cleanup r' = cl"
    using assms(1,3) row by (auto simp: transition_resource_def Let_def split: if_splits)
  then show "res_at db' i = (if i = rid then Some s else res_at db i)" "re_key s = re_key r" "re_status s = st"
    "re_cleanup s = cl" "re_id s = rid"
    using id by simp_all
qed

text \<open>One resource of a pass: only this resource changes, and its stored state is the result's.\<close>

definition same_owner :: "coordinator \<Rightarrow> coordinator \<Rightarrow> bool" where
  "same_owner c c' \<longleftrightarrow> c' = c\<lparr>cn_db := cn_db c'\<rparr>"

definition one_result :: "coordinator \<Rightarrow> coordinator \<Rightarrow> res_row \<Rightarrow> res_result \<Rightarrow> bool" where
  "one_result c c' r x \<longleftrightarrow> coord_inv (cn_ws c) (cn_db c') \<and> same_owner c c' \<and>
     (\<forall>i. i \<noteq> re_id r \<longrightarrow> res_at (cn_db c') i = res_at (cn_db c) i) \<and>
     (\<exists>s. res_at (cn_db c') (re_id r) = Some s \<and> re_key s = re_key r \<and> re_status s = stored_state x \<and>
        re_cleanup s = rr_cleanup x)"

lemma kept_stored: "settled_res r \<Longrightarrow> stored_state (kept_result r) = re_status r \<and> rr_cleanup (kept_result r) = re_cleanup r"
  by (auto simp: stored_state_def kept_result_def new_res_result_def settled_res_def FINAL_STATES_def)

lemma reconcile_one_result:
  assumes "reconcile_one l now r c = (Inr x, c')" "coord_inv (cn_ws c) (cn_db c)" "ol_token l \<noteq> []"
    and "res_at (cn_db c) (re_id r) = Some r"
  shows "one_result c c' r x"
proof -
  obtain s db where s: "transition_resource (cn_ws c) l (re_id r) (stored_state x) (rr_cleanup x) (rr_receipt x)
              (rr_error x) (rr_details x) True now (cn_db c) = Inr (s, db)" "c' = c\<lparr>cn_db := db\<rparr>"
    using assms(1) by (auto simp: reconcile_one_def Let_def proc_iff)
  have "coord_inv (cn_ws c) db"
    using op_keeps_inv[OF assms(2), of "OMove l (re_id r) (stored_state x) (rr_cleanup x) (rr_receipt x)
              (rr_error x) (rr_details x) True now"] s(1) assms(3) by simp
  then show ?thesis
    using transition_effect[OF s(1) assms(2,4)] s(2) by (simp add: one_result_def same_owner_def)
qed

lemma cancel_one_result:
  assumes "cancel_one req now r c = (Inr x, c')" "coord_inv (cn_ws c) (cn_db c)"
    and "cn_lease c = Some l" "ol_token l \<noteq> []" "res_at (cn_db c) (re_id r) = Some r"
  shows "one_result c c' r x"
proof (cases "settled_res r")
  case True
  then show ?thesis
    using assms(1,2,5) kept_stored[OF True] by (auto simp: cancel_one_def one_result_def same_owner_def)
next
  case False
  obtain k1 p1 db1 s db2 k2 p2 db3 where
    1: "record_event (cn_ws c) l k1 p1 now (cn_db c) = Inr ((), db1)"
    and 2: "transition_resource (cn_ws c) l (re_id r) (stored_state x) (rr_cleanup x) (rr_receipt x)
              (rr_error x) (rr_details x) False now db1 = Inr (s, db2)"
    and 3: "record_event (cn_ws c) l k2 p2 now db2 = Inr ((), db3)" and c': "c' = c\<lparr>cn_db := db3\<rparr>"
    using assms(1,3) False
    by (auto simp: cancel_one_def Let_def proc_iff cn_event_def cn_transition_def)
  have i1: "coord_inv (cn_ws c) db1"
    using op_keeps_inv[OF assms(2), of "OLog l k1 p1 now"] 1 assms(4) by simp
  have i2: "coord_inv (cn_ws c) db2"
    using op_keeps_inv[OF i1, of "OMove l (re_id r) (stored_state x) (rr_cleanup x) (rr_receipt x)
              (rr_error x) (rr_details x) False now"] 2 assms(4) by simp
  have i3: "coord_inv (cn_ws c) db3"
    using op_keeps_inv[OF i2, of "OLog l k2 p2 now"] 3 assms(4) by simp
  have r13: "res_at db1 i = res_at (cn_db c) i" "res_at db3 i = res_at db2 i" for i
    using 1 3 by (auto simp: record_event_def bindR_ok_iff)
  show ?thesis
    using transition_effect[OF 2 i1, of r] assms(5) i3 r13 c' by (simp add: one_result_def same_owner_def)
qed

lemma pass_results:
  assumes "mapS f rs c = (Inr xs, c')" "coord_inv (cn_ws c) (cn_db c)" "distinct (map re_id rs)"
    and "\<forall>r \<in> set rs. res_at (cn_db c) (re_id r) = Some r"
    and "\<And>r x d d'. f r d = (Inr x, d') \<Longrightarrow> same_owner c d \<Longrightarrow> coord_inv (cn_ws c) (cn_db d) \<Longrightarrow>
       res_at (cn_db d) (re_id r) = Some r \<Longrightarrow> one_result d d' r x"
  shows "coord_inv (cn_ws c) (cn_db c') \<and> same_owner c c' \<and> length xs = length rs \<and>
    (\<forall>i. i \<notin> set (map re_id rs) \<longrightarrow> res_at (cn_db c') i = res_at (cn_db c) i) \<and>
    (\<forall>n < length rs. \<exists>s. res_at (cn_db c') (re_id (rs ! n)) = Some s \<and> re_key s = re_key (rs ! n) \<and>
       re_status s = stored_state (xs ! n) \<and> re_cleanup s = rr_cleanup (xs ! n))"
proof -
  have "coord_inv (cn_ws c) (cn_db c') \<and> same_owner c c' \<and> length xs = length rs \<and>
    (\<forall>i. i \<notin> set (map re_id rs) \<longrightarrow> res_at (cn_db c') i = res_at (cn_db d) i) \<and>
    (\<forall>n < length rs. \<exists>s. res_at (cn_db c') (re_id (rs ! n)) = Some s \<and> re_key s = re_key (rs ! n) \<and>
       re_status s = stored_state (xs ! n) \<and> re_cleanup s = rr_cleanup (xs ! n))"
    if "mapS f rs d = (Inr xs, c')" "same_owner c d" "coord_inv (cn_ws c) (cn_db d)"
      "\<forall>r \<in> set rs. res_at (cn_db d) (re_id r) = Some r" for d
    using that assms(3)
  proof (induction rs arbitrary: d xs)
    case (Cons r rs)
    obtain x d1 ys where x: "f r d = (Inr x, d1)" "mapS f rs d1 = (Inr ys, c')" "xs = x # ys"
      using Cons.prems(1) by (auto simp: proc_iff)
    have one: "one_result d d1 r x" using assms(5)[OF x(1)] Cons.prems by simp
    have ws: "cn_ws d = cn_ws c" using Cons.prems(2) by (cases c; cases d) (simp add: same_owner_def)
    have same: "same_owner c d1"
      using one Cons.prems(2) by (cases c; cases d; cases d1) (simp add: one_result_def same_owner_def)
    have rest: "\<forall>q \<in> set rs. res_at (cn_db d1) (re_id q) = Some q"
    proof
      fix q assume q: "q \<in> set rs"
      then have "re_id q \<noteq> re_id r" using Cons.prems(5) imageI[of q "set rs" re_id] by force
      then show "res_at (cn_db d1) (re_id q) = Some q"
        using one Cons.prems(4) q by (simp add: one_result_def)
    qed
    have IH: "coord_inv (cn_ws c) (cn_db c') \<and> same_owner c c' \<and> length ys = length rs \<and>
        (\<forall>i. i \<notin> set (map re_id rs) \<longrightarrow> res_at (cn_db c') i = res_at (cn_db d1) i) \<and>
        (\<forall>n < length rs. \<exists>s. res_at (cn_db c') (re_id (rs ! n)) = Some s \<and> re_key s = re_key (rs ! n) \<and>
           re_status s = stored_state (ys ! n) \<and> re_cleanup s = rr_cleanup (ys ! n))"
      using Cons.IH[OF x(2) same _ rest] one ws Cons.prems(5) by (simp add: one_result_def)
    have fst: "\<exists>s. res_at (cn_db c') (re_id r) = Some s \<and> re_key s = re_key r \<and>
        re_status s = stored_state x \<and> re_cleanup s = rr_cleanup x"
      using one IH Cons.prems(5) by (auto simp: one_result_def)
    have frame: "res_at (cn_db c') i = res_at (cn_db d) i" if "i \<notin> set (map re_id (r # rs))" for i
      using one IH that by (simp add: one_result_def)
    show ?case
      unfolding x(3) using IH fst frame by (auto simp: less_Suc_eq_0_disj)
  qed simp
  then show ?thesis using assms(1,2,4) by (simp add: same_owner_def)
qed

subsection \<open>Passes over the resources of a run\<close>

lemma set_reverse_depth [simp]: "set (reverse_depth rs) = set rs"
  by (simp add: reverse_depth_def)

lemma distinct_reverse_depth: "distinct (map re_id rs) \<Longrightarrow> distinct (map re_id (reverse_depth rs))"
  by (simp add: reverse_depth_def distinct_map)

lemma run_resources_iff:
  assumes "coord_inv ws db"
  shows "r \<in> set (run_resources ws run db) \<longleftrightarrow> res_at db (re_id r) = Some r \<and> re_key r = run_key ws run"
proof -
  have "r \<in> set (map snd (cd_resources db)) \<longleftrightarrow> res_at db (re_id r) = Some r"
  proof
    assume "r \<in> set (map snd (cd_resources db))"
    then obtain i where i: "(i, r) \<in> set (cd_resources db)" by auto
    then have "res_at db i = Some r" using assms by (intro map_of_is_SomeI) (auto simp: coord_inv_def al_keys_def)
    moreover have "re_id r = i" using calculation assms by (simp add: coord_inv_def res_ok_def)
    ultimately show "res_at db (re_id r) = Some r" by simp
  next
    assume "res_at db (re_id r) = Some r"
    then have "snd (re_id r, r) \<in> snd ` set (cd_resources db)" by (intro imageI map_of_SomeD)
    then show "r \<in> set (map snd (cd_resources db))" by simp
  qed
  then show ?thesis by (auto simp: run_resources_def)
qed

lemma run_resources_distinct:
  assumes "coord_inv ws db"
  shows "distinct (map re_id (run_resources ws run db))"
proof -
  have ids: "map (\<lambda>ir. re_id (snd ir)) (cd_resources db) = al_keys (cd_resources db)"
    unfolding al_keys_def
  proof (rule map_cong[OF refl])
    fix ir assume ir: "ir \<in> set (cd_resources db)"
    then have "res_at db (fst ir) = Some (snd ir)"
      using assms by (intro map_of_is_SomeI) (auto simp: coord_inv_def al_keys_def)
    then show "re_id (snd ir) = fst ir" using assms by (simp add: coord_inv_def res_ok_def)
  qed
  have "distinct (al_keys (cd_resources db))" using assms by (simp add: coord_inv_def)
  then have "distinct (map re_id (map snd (cd_resources db)))" by (simp add: comp_def ids)
  then have "distinct (map re_id (filter (\<lambda>r. re_key r = run_key ws run) (map snd (cd_resources db))))"
    by (rule distinct_map_filter)
  then show ?thesis by (simp add: run_resources_def distinct_map)
qed

lemma confirmed_settles: "rr_confirmed x \<Longrightarrow> re_status s = stored_state x \<Longrightarrow> re_cleanup s = rr_cleanup x \<Longrightarrow> settled_res s"
  by (auto simp: rr_confirmed_def stored_state_def settled_res_def FINAL_STATES_def)

text \<open>A pass over all resources of the run whose results are all confirmed settles them all.\<close>

lemma pass_settles:
  assumes "mapS f (reverse_depth (run_resources ws run (cn_db c))) c = (Inr xs, c')"
    and "coord_inv ws (cn_db c)" "cn_ws c = ws" "\<forall>x \<in> set xs. rr_confirmed x"
    and "\<And>r x d d'. f r d = (Inr x, d') \<Longrightarrow> same_owner c d \<Longrightarrow> coord_inv (cn_ws c) (cn_db d) \<Longrightarrow>
       res_at (cn_db d) (re_id r) = Some r \<Longrightarrow> one_result d d' r x"
  shows "\<forall>i s. res_at (cn_db c') i = Some s \<longrightarrow> re_key s = run_key ws run \<longrightarrow> settled_res s"
proof (intro allI impI)
  fix i s assume s: "res_at (cn_db c') i = Some s" "re_key s = run_key ws run"
  let ?rs = "reverse_depth (run_resources ws run (cn_db c))"
  have inv: "coord_inv (cn_ws c) (cn_db c)" using assms(2,3) by simp
  have dist: "distinct (map re_id ?rs)" using run_resources_distinct[OF assms(2)] by (rule distinct_reverse_depth)
  have at: "\<forall>r \<in> set ?rs. res_at (cn_db c) (re_id r) = Some r"
    using run_resources_iff[OF assms(2)] by simp
  note pass = pass_results[OF assms(1) inv dist at assms(5)]
  show "settled_res s"
  proof (cases "i \<in> set (map re_id ?rs)")
    case True
    then obtain n where n: "n < length ?rs" "i = re_id (?rs ! n)" by (auto simp: in_set_conv_nth simp del: set_reverse_depth)
    obtain t where t: "res_at (cn_db c') (re_id (?rs ! n)) = Some t" "re_status t = stored_state (xs ! n)"
        "re_cleanup t = rr_cleanup (xs ! n)"
      using pass n(1) by blast
    have "length xs = length ?rs" using pass by blast
    then have "xs ! n \<in> set xs" using n(1) by simp
    then have "rr_confirmed (xs ! n)" using assms(4) by blast
    moreover have "t = s" using t(1) n(2) s(1) by simp
    ultimately show ?thesis using confirmed_settles t(2,3) by simp
  next
    case False
    then have "res_at (cn_db c') i = res_at (cn_db c) i" using pass by blast
    then have old: "res_at (cn_db c) i = Some s" using s(1) by simp
    then have "re_id s = i" using assms(2) by (simp add: coord_inv_def res_ok_def)
    then have "s \<in> set ?rs" using run_resources_iff[OF assms(2)] old s(2) by simp
    then have "re_id s \<in> set (map re_id ?rs)" unfolding set_map by (rule imageI)
    then show ?thesis using False \<open>re_id s = i\<close> by simp
  qed
qed

subsection \<open>The calls of the coordinator\<close>

lemma same_lease: "same_owner c d \<Longrightarrow> cn_ws d = cn_ws c \<and> cn_run d = cn_run c \<and> cn_lease d = cn_lease c"
  by (cases c; cases d) (simp add: same_owner_def)

lemma reconcile_pass:
  assumes "mapS (reconcile_one l now) (reverse_depth (run_resources (cn_ws c) run (cn_db c))) c = (Inr xs, c')"
    and "coord_inv (cn_ws c) (cn_db c)" "ol_token l \<noteq> []"
  shows "coord_inv (cn_ws c) (cn_db c') \<and> same_owner c c' \<and>
    ((\<forall>x \<in> set xs. rr_confirmed x) \<longrightarrow>
       (\<forall>i s. res_at (cn_db c') i = Some s \<longrightarrow> re_key s = run_key (cn_ws c) run \<longrightarrow> settled_res s))"
proof -
  have one: "one_result d d' r x"
    if "reconcile_one l now r d = (Inr x, d')" "same_owner c d" "coord_inv (cn_ws c) (cn_db d)"
      "res_at (cn_db d) (re_id r) = Some r" for r x d d'
    using reconcile_one_result[OF that(1) _ assms(3) that(4)] that(3) same_lease[OF that(2)] by simp
  have at: "\<forall>r \<in> set (reverse_depth (run_resources (cn_ws c) run (cn_db c))). res_at (cn_db c) (re_id r) = Some r"
    using run_resources_iff[OF assms(2)] by simp
  note dist = distinct_reverse_depth[OF run_resources_distinct[OF assms(2)]]
  show ?thesis
    using pass_results[OF assms(1,2) dist at one] pass_settles[OF assms(1,2) refl _ one] by blast
qed

lemma cancel_pass:
  assumes "mapS (cancel_one req now) (reverse_depth (run_resources (cn_ws c) run (cn_db c))) c = (Inr xs, c')"
    and "coord_inv (cn_ws c) (cn_db c)" "cn_lease c = Some l" "ol_token l \<noteq> []"
  shows "coord_inv (cn_ws c) (cn_db c') \<and> same_owner c c' \<and>
    ((\<forall>x \<in> set xs. rr_confirmed x) \<longrightarrow>
       (\<forall>i s. res_at (cn_db c') i = Some s \<longrightarrow> re_key s = run_key (cn_ws c) run \<longrightarrow> settled_res s))"
proof -
  have one: "one_result d d' r x"
    if "cancel_one req now r d = (Inr x, d')" "same_owner c d" "coord_inv (cn_ws c) (cn_db d)"
      "res_at (cn_db d) (re_id r) = Some r" for r x d d'
    using cancel_one_result[OF that(1) _ _ assms(4) that(4)] that(3) same_lease[OF that(2)] assms(3) by simp
  have at: "\<forall>r \<in> set (reverse_depth (run_resources (cn_ws c) run (cn_db c))). res_at (cn_db c) (re_id r) = Some r"
    using run_resources_iff[OF assms(2)] by simp
  note dist = distinct_reverse_depth[OF run_resources_distinct[OF assms(2)]]
  show ?thesis
    using pass_results[OF assms(1,2) dist at one] pass_settles[OF assms(1,2) refl _ one] by blast
qed

lemma snapshot_iff:
  "co_snapshot ws run db = Inr s \<longleftrightarrow> (\<exists>r. run_at db (run_key ws run) = Some r \<and>
     s = \<lparr>sn_task = rn_task r, sn_run = rn_run r, sn_ws = rn_ws r, sn_path = rn_path r,
           sn_status = rn_status r, sn_gen = rn_gen r, sn_token = rn_token r, sn_rev = rn_rev r,
           sn_expires = rn_expires r, sn_cancel = rn_cancel r, sn_resources = run_resources ws run db\<rparr>)"
  by (auto simp: co_snapshot_def find_run_def bindR_ok_iff split: option.splits)

lemma activate_opens:
  "activate ws l now db = Inr (l', db') \<Longrightarrow>
     cd_resources db' = cd_resources db \<and> run_phase (run_key ws (ol_run l)) db' = Some (''active'', [])"
  by (auto simp: activate_def bindR_ok_iff Let_def run_phase_def split: if_splits)

definition reported :: "string \<Rightarrow> string \<Rightarrow> coord_db \<Rightarrow> string \<Rightarrow> bool" where
  "reported ws run db status \<longleftrightarrow> (\<exists>r. run_at db (run_key ws run) = Some r \<and> rn_status r = status \<and>
     rn_token r = [])"

lemma end_cancel_reports:
  assumes "end_cancel True now xs c = (Inr status, c')" "coord_inv (cn_ws c) (cn_db c)"
    and "cn_lease c = Some l" "ol_run l = run" "ol_token l \<noteq> []"
    and "(\<forall>x \<in> set xs. rr_confirmed x) \<longrightarrow>
       (\<forall>i s. res_at (cn_db c) i = Some s \<longrightarrow> re_key s = run_key (cn_ws c) run \<longrightarrow> settled_res s)"
  shows "status = (if \<forall>x \<in> set xs. rr_confirmed x then ''cancelled'' else ''recovery_required'') \<and>
    reported (cn_ws c) run (cn_db c') status \<and> cd_resources (cn_db c') = cd_resources (cn_db c)"
proof (cases "\<forall>x \<in> set xs. rr_confirmed x")
  case True
  let ?k = "run_key (cn_ws c) run"
  have "filter (\<lambda>i. \<not> settled_res i) (filter (\<lambda>i. re_key i = ?k) (map snd (cd_resources (cn_db c)))) = []"
  proof -
    have "settled_res s" if s: "(i, s) \<in> set (cd_resources (cn_db c))" "re_key s = ?k" for i s
    proof -
      have "res_at (cn_db c) i = Some s"
        using assms(2) s(1) by (intro map_of_is_SomeI) (auto simp: coord_inv_def al_keys_def)
      then show ?thesis using assms(6) True s(2) by blast
    qed
    then show ?thesis by (auto simp: filter_empty_conv)
  qed
  then show ?thesis
    using assms(1,3,4) True
    by (auto simp: end_cancel_def cn_finish_def proc_iff finish_run_def bindR_ok_iff Let_def reported_def close_run_def)
next
  case False
  then show ?thesis
    using assms(1)[unfolded end_cancel_def if_not_P[OF False]] assms(3,4)
    by (auto simp: proc_iff mark_recovery_required_def bindR_ok_iff Let_def reported_def close_run_def)
qed

lemma drive_cancel_reports:
  assumes "drive_cancel req0 True fresh now c = (Inr rep, c')" "coord_inv (cn_ws c) (cn_db c)" "fresh \<noteq> []"
    and "cn_lease c = Some l" "ol_run l = cn_run c" "ol_token l \<noteq> []"
  shows "cr_status rep = (if \<forall>x \<in> set (cr_results rep). rr_confirmed x then ''cancelled'' else ''recovery_required'') \<and>
    reported (cn_ws c) (cn_run c) (cn_db c') (cr_status rep) \<and>
    ((\<forall>x \<in> set (cr_results rep). rr_confirmed x) \<longrightarrow>
      (\<forall>i s. res_at (cn_db c') i = Some s \<longrightarrow> re_key s = run_key (cn_ws c) (cn_run c) \<longrightarrow> settled_res s))"
proof -
  obtain req db1 l' db2 xs c3 status where
    1: "co_request_cancel (cn_ws c) l req0 fresh now (cn_db c) = Inr (req, db1)"
    and 2: "begin_cancelling (cn_ws c) l now db1 = Inr (l', db2)"
    and 3: "mapS (cancel_one req now) (reverse_depth (run_resources (cn_ws c) (cn_run c) db2))
              (c\<lparr>cn_db := db2, cn_lease := Some l'\<rparr>) = (Inr xs, c3)"
    and 4: "end_cancel True now xs c3 = (Inr status, c')"
    and rep: "cr_status rep = status" "cr_results rep = xs"
    using assms(1,4) by (auto simp: drive_cancel_def proc_iff report_of_def)
  have l': "ol_run l' = cn_run c" "ol_token l' \<noteq> []"
    using 2 assms(5,6) by (auto simp: begin_cancelling_def bindR_ok_iff Let_def split: if_splits)
  have i1: "coord_inv (cn_ws c) db1"
    using op_keeps_inv[OF assms(2), of "ORequestCancel l req0 fresh now"] 1 assms(3,6) by simp
  have i2: "coord_inv (cn_ws c) db2"
    using op_keeps_inv[OF i1, of "OBeginCancel l now"] 2 assms(6) by simp
  let ?c = "c\<lparr>cn_db := db2, cn_lease := Some l'\<rparr>"
  have pass: "coord_inv (cn_ws c) (cn_db c3) \<and> same_owner ?c c3 \<and> ((\<forall>x \<in> set xs. rr_confirmed x) \<longrightarrow>
      (\<forall>i s. res_at (cn_db c3) i = Some s \<longrightarrow> re_key s = run_key (cn_ws c) (cn_run c) \<longrightarrow> settled_res s))"
    using cancel_pass[of req now ?c "cn_run c" xs c3 l'] 3 i2 l'(2) by simp
  have own: "cn_ws c3 = cn_ws c" "cn_lease c3 = Some l'" using pass same_lease[of ?c c3] by simp_all
  have "status = (if \<forall>x \<in> set xs. rr_confirmed x then ''cancelled'' else ''recovery_required'') \<and>
      reported (cn_ws c) (cn_run c) (cn_db c') status \<and> cd_resources (cn_db c') = cd_resources (cn_db c3)"
    using end_cancel_reports[OF 4, unfolded own(1), OF _ own(2) l'(1,2)] pass by blast
  then show ?thesis
    using pass unfolding rep by (cases "\<forall>x \<in> set xs. rr_confirmed x") auto
qed

lemma settled_confirmed [simp]: "settled_res r \<Longrightarrow> rr_confirmed (kept_result r)"
  by (simp add: settled_res_def rr_confirmed_def kept_result_def new_res_result_def FINAL_STATES_def)

definition repeats_failure :: "coordinator \<Rightarrow> bool" where
  "repeats_failure c \<longleftrightarrow> (\<exists>r l. run_at (cn_db c) (run_key (cn_ws c) (cn_run c)) = Some r \<and> cn_lease c = Some l \<and>
     rn_status r = ''recovery_required'' \<and> rn_cancel r \<noteq> [] \<and> rn_token r = [] \<and> rn_gen r = ol_gen l)"

lemma cancel_reports:
  assumes "cn_cancel_run req True fresh now c = (Inr rep, c')" "coord_inv (cn_ws c) (cn_db c)" "fresh \<noteq> []"
    and "cn_lease c = Some l" "ol_run l = cn_run c" "ol_token l \<noteq> []"
  shows "reported (cn_ws c) (cn_run c) (cn_db c') (cr_status rep) \<and>
    (if repeats_failure c then cr_status rep = ''recovery_required'' \<and> c' = c
     else cr_status rep = (if \<forall>x \<in> set (cr_results rep). rr_confirmed x then ''cancelled'' else ''recovery_required'')) \<and>
    (cr_status rep = ''cancelled'' \<longrightarrow>
      (\<forall>i s. res_at (cn_db c') i = Some s \<longrightarrow> re_key s = run_key (cn_ws c) (cn_run c) \<longrightarrow> settled_res s))"
proof -
  obtain r where r: "run_at (cn_db c) (run_key (cn_ws c) (cn_run c)) = Some r"
    using assms(1) by (auto simp: cn_cancel_run_def proc_iff snapshot_iff)
  note ok = inv_row[OF assms(2) r]
  consider (closed) "rn_status r = ''cancelled''" "\<not> repeats_failure c" | (over) "repeats_failure c" "rn_status r = ''recovery_required''"
      "rn_token r = []" "cr_status rep = ''recovery_required''" "c' = c"
    | (drive) "drive_cancel req True fresh now c = (Inr rep, c')" "\<not> repeats_failure c"
    using assms(1,4) r by (auto simp: cn_cancel_run_def proc_iff snapshot_iff report_of_def repeats_failure_def split: if_splits)
  then show ?thesis
  proof cases
    case closed
    have idle: "rn_token r = []" "\<forall>i s. res_at (cn_db c) i = Some s \<longrightarrow>
        re_key s = run_key (cn_ws c) (cn_run c) \<longrightarrow> settled_res s"
      using ok closed(1) unfolding run_ok_def CLOSED_STATES_def by auto
    have "\<forall>s \<in> set (run_resources (cn_ws c) (cn_run c) (cn_db c)). settled_res s"
      using run_resources_iff[OF assms(2)] idle(2) by blast
    then show ?thesis
      using assms(1) r closed idle
      by (auto simp: cn_cancel_run_def proc_iff snapshot_iff report_of_def reported_def)
  next
    case over
    then show ?thesis using r by (simp add: reported_def)
  next
    case drive
    from drive_cancel_reports[OF drive(1) assms(2-6)] drive(2) show ?thesis
      by (cases "\<forall>x \<in> set (cr_results rep). rr_confirmed x") auto
  qed
qed

text \<open>C6. Cancellation never reports more than the registry knows.  Whenever a finalizing cancel
  returns a report, the run has the reported status and no owner any more.  The early return
  (a run already left in recovery by a failed cleanup of this very owner) repeats recovery_required
  and changes nothing; every other report says cancelled exactly when each of its results is confirmed
  (a final status and a confirmed cleanup) and recovery_required otherwise.  Behind a report that says
  cancelled every resource of the run is settled in the registry, and the report's own flag (which also
  asks for the status) is set exactly then: nothing is left running or uncleaned behind a cancelled
  run.\<close>

theorem cancel_report_truthful:
  assumes "cn_cancel_run req True fresh now c = (Inr rep, c')" "coord_inv (cn_ws c) (cn_db c)" "fresh \<noteq> []"
    and "cn_lease c = Some l" "ol_run l = cn_run c" "ol_token l \<noteq> []"
  shows "(\<exists>r. run_at (cn_db c') (run_key (cn_ws c) (cn_run c)) = Some r \<and> rn_status r = cr_status rep \<and> rn_token r = []) \<and>
    (if repeats_failure c then cr_status rep = ''recovery_required'' \<and> c' = c
     else cr_status rep = (if \<forall>x \<in> set (cr_results rep). rr_confirmed x then ''cancelled'' else ''recovery_required'')) \<and>
    (cr_status rep = ''cancelled'' \<longrightarrow>
      (\<forall>i s. res_at (cn_db c') i = Some s \<longrightarrow> re_key s = run_key (cn_ws c) (cn_run c) \<longrightarrow> settled_res s)) \<and>
    (cr_confirmed rep \<longleftrightarrow> cr_status rep = ''cancelled'')"
proof -
  from cancel_reports[OF assms]
  have "cr_confirmed rep \<longleftrightarrow> cr_status rep = ''cancelled''"
    by (auto simp: cr_confirmed_def split: if_splits)
  with cancel_reports[OF assms] show ?thesis unfolding reported_def by blast
qed

text \<open>C7. A run is opened for dispatch only over a clean slate.  Whenever reconciling ends with the
  run active, no cancellation is recorded and every resource the run ever registered, also those of
  earlier owners, has a final status and a confirmed cleanup.\<close>

theorem reconcile_opens_only_settled:
  assumes "cn_reconcile fresh now c = (Inr (''active'', xs), c')" "coord_inv (cn_ws c) (cn_db c)" "fresh \<noteq> []"
    and "cn_lease c = Some l" "ol_run l = cn_run c" "ol_token l \<noteq> []"
  shows "run_phase (run_key (cn_ws c) (cn_run c)) (cn_db c') = Some (''active'', []) \<and>
    (\<forall>i s. res_at (cn_db c') i = Some s \<longrightarrow> re_key s = run_key (cn_ws c) (cn_run c) \<longrightarrow> settled_res s)"
proof -
  obtain rs c1 snap where 1: "mapS (reconcile_one l now)
        (reverse_depth (run_resources (cn_ws c) (cn_run c) (cn_db c))) c = (Inr rs, c1)"
    and 2: "end_reconcile fresh now l rs snap c1 = (Inr (''active'', xs), c')"
    using assms(1,4) by (auto simp: cn_reconcile_def proc_iff snapshot_iff)
  have pass: "coord_inv (cn_ws c) (cn_db c1)" "cn_ws c1 = cn_ws c" "cn_run c1 = cn_run c"
      "(\<forall>x \<in> set rs. rr_confirmed x) \<longrightarrow>
       (\<forall>i s. res_at (cn_db c1) i = Some s \<longrightarrow> re_key s = run_key (cn_ws c) (cn_run c) \<longrightarrow> settled_res s)"
    using reconcile_pass[OF 1 assms(2,6)] same_lease[of c c1] by blast+
  have all: "\<forall>x \<in> set rs. rr_confirmed x"
    using 2 by (auto simp: end_reconcile_def proc_iff split: if_splits)
  have "sn_cancel snap = []"
  proof (rule ccontr)
    assume "sn_cancel snap \<noteq> []"
    then obtain req db1 l' db2 rep where
      a: "co_request_cancel (cn_ws c) l (sn_cancel snap) fresh now (cn_db c1) = Inr (req, db1)"
      and b: "begin_cancelling (cn_ws c) l now db1 = Inr (l', db2)"
      and d: "cn_cancel_run (sn_cancel snap) True fresh now (c1\<lparr>cn_db := db2, cn_lease := Some l'\<rparr>) = (Inr rep, c')"
      and e: "cr_status rep = ''active''"
      using 2 all pass(2) by (auto simp: end_reconcile_def proc_iff)
    have i1: "coord_inv (cn_ws c) db1"
      using op_keeps_inv[OF pass(1), of "ORequestCancel l (sn_cancel snap) fresh now"] a assms(3,6) by simp
    have i2: "coord_inv (cn_ws c) db2"
      using op_keeps_inv[OF i1, of "OBeginCancel l now"] b assms(6) by simp
    have "ol_run l' = cn_run c" "ol_token l' \<noteq> []"
      using b assms(5,6) by (auto simp: begin_cancelling_def bindR_ok_iff Let_def split: if_splits)
    then show False using cancel_reports[OF d _ assms(3), of l'] i2 pass(2,3) e by (simp split: if_splits)
  qed
  then obtain l' db where "activate (cn_ws c) l now (cn_db c1) = Inr (l', db)" "cn_db c' = db"
    using 2 all pass(2) by (auto simp: end_reconcile_def proc_iff)
  then have "run_phase (run_key (cn_ws c) (cn_run c)) (cn_db c') = Some (''active'', [])"
      "cd_resources (cn_db c') = cd_resources (cn_db c1)"
    using activate_opens assms(5) by metis+
  then show ?thesis using all pass(4) by simp
qed

subsection \<open>Children come before their parents\<close>

text \<open>\<open>rank\<close> strictly decreases from a resource to its parent: the parent links have no cycle.\<close>

definition ranked :: "(string \<Rightarrow> nat) \<Rightarrow> res_row list \<Rightarrow> bool" where
  "ranked rank rs \<longleftrightarrow> (\<forall>r \<in> set rs. \<forall>q \<in> set rs. re_parent r = re_id q \<longrightarrow> rank (re_id q) < rank (re_id r))"

lemma by_ids_get: "distinct (map re_id rs) \<Longrightarrow> r \<in> set rs \<Longrightarrow> al_get (by_ids rs) (re_id r) = Some r"
  by (intro map_of_is_SomeI) (auto simp: by_ids_def comp_def rev_map[symmetric])

lemma by_ids_keys [simp]: "set (al_keys (by_ids rs)) = re_id ` set rs"
  by (auto simp: al_keys_def by_ids_def)

lemma depth_stop: "p = [] \<or> p \<notin> set (al_keys m) \<Longrightarrow> depth_from m seen p v = v"
  by (auto simp: depth_from.simps[of m seen p])

lemma depth_step:
  "p \<noteq> [] \<Longrightarrow> p \<in> set (al_keys m) \<Longrightarrow> p \<notin> set seen \<Longrightarrow>
     depth_from m seen p v = depth_from m (p # seen) (re_parent (the (al_get m p))) (v + 1)"
  by (simp add: depth_from.simps[of m seen p])

lemma depth_ranked:
  assumes "distinct (map re_id rs)" "ranked rank rs"
    and "x \<in> re_id ` set rs \<Longrightarrow> \<forall>s \<in> set seen. rank x < rank s"
  shows "depth_from (by_ids rs) seen x v = v + depth_from (by_ids rs) [] x 0"
  using assms(3)
proof (induction "rank x" arbitrary: x seen v rule: less_induct)
  case less
  show ?case
  proof (cases "x \<noteq> [] \<and> x \<in> re_id ` set rs")
    case True
    then obtain r where r: "r \<in> set rs" "re_id r = x" by auto
    let ?p = "re_parent r"
    have get: "al_get (by_ids rs) x = Some r" using by_ids_get[OF assms(1) r(1)] r(2) by simp
    have up: "rank ?p < rank x" if "?p \<in> re_id ` set rs"
      using that r assms(2) unfolding ranked_def by auto
    have below: "\<forall>s \<in> set seen. rank ?p < rank s" if "?p \<in> re_id ` set rs"
      using less.prems True up[OF that] less_trans by blast
    have new: "x \<notin> set seen" using less.prems True by blast
    have "depth_from (by_ids rs) (x # seen) ?p (v + 1) = v + 1 + depth_from (by_ids rs) [] ?p 0 \<and>
        depth_from (by_ids rs) [x] ?p (0 + 1) = 0 + 1 + depth_from (by_ids rs) [] ?p 0"
    proof (cases "?p \<in> re_id ` set rs")
      case in_rs: True
      show "depth_from (by_ids rs) (x # seen) ?p (v + 1) = v + 1 + depth_from (by_ids rs) [] ?p 0 \<and>
        depth_from (by_ids rs) [x] ?p (0 + 1) = 0 + 1 + depth_from (by_ids rs) [] ?p 0"
        using less.hyps[OF up[OF in_rs], where v = "v + 1" and seen = "x # seen"]
          less.hyps[OF up[OF in_rs], where v = "0 + 1" and seen = "[x]"] up[OF in_rs] below by simp_all
    next
      case False
      then show "depth_from (by_ids rs) (x # seen) ?p (v + 1) = v + 1 + depth_from (by_ids rs) [] ?p 0 \<and>
        depth_from (by_ids rs) [x] ?p (0 + 1) = 0 + 1 + depth_from (by_ids rs) [] ?p 0"
        by (simp add: depth_stop)
    qed
    then show ?thesis using True new get by (simp add: depth_step)
  next
    case False
    then show ?thesis by (auto simp: depth_stop)
  qed
qed

lemma depth_of_child:
  assumes "distinct (map re_id rs)" "ranked rank rs" "r \<in> set rs" "q \<in> set rs" "re_parent r = re_id q" "re_id q \<noteq> []"
  shows "res_depth rs r = res_depth rs q + 1"
proof -
  have "re_parent q \<in> re_id ` set rs \<Longrightarrow> \<forall>s \<in> set [re_id q]. rank (re_parent q) < rank s"
    using assms(2,4) unfolding ranked_def by auto
  from depth_ranked[OF assms(1,2) this, where v = 1] show ?thesis
    using assms(4-6) by_ids_get[OF assms(1,4)] by (simp add: res_depth_def depth_step)
qed

text \<open>The order of reconciliation and cancellation: a pass visits every resource of the run once,
  and when the parent links have no cycle, a resource comes before its parent, so a parent is never
  settled over a child that is still open.\<close>

theorem children_before_parents:
  assumes "distinct (map re_id rs)" "ranked rank rs" "i < length rs" "j < length rs"
    and "re_parent (reverse_depth rs ! i) = re_id (reverse_depth rs ! j)" "re_id (reverse_depth rs ! j) \<noteq> []"
  shows "mset (reverse_depth rs) = mset rs \<and> i < j"
proof -
  let ?key = "\<lambda>r. (- int (res_depth rs r), re_created r, re_id r)"
  have sorted: "sorted (map ?key (reverse_depth rs))" by (simp add: reverse_depth_def)
  have len: "length (reverse_depth rs) = length rs" by (simp add: reverse_depth_def)
  have "reverse_depth rs ! i \<in> set rs" "reverse_depth rs ! j \<in> set rs"
    using assms(3,4) len nth_mem[of _ "reverse_depth rs"] by simp_all
  then have deeper: "res_depth rs (reverse_depth rs ! i) = res_depth rs (reverse_depth rs ! j) + 1"
    using depth_of_child[OF assms(1,2)] assms(5,6) by blast
  have "i < j"
  proof (rule ccontr)
    assume "\<not> i < j"
    then have "?key (reverse_depth rs ! j) \<le> ?key (reverse_depth rs ! i)"
      using sorted_nth_mono[OF sorted, of j i] assms(3,4) len by simp
    then show False using deeper by (simp add: less_eq_prod_def)
  qed
  then show ?thesis by (simp add: reverse_depth_def)
qed

subsection \<open>A run with one sandbox\<close>

definition demo_adapter :: "string \<Rightarrow> adapter" where
  "demo_adapter status =
    \<lparr>ad_cancel = \<lambda>r req. ok (new_res_result (re_id r) status ''confirmed'' [] ''stopped'' []),
     ad_reconcile = \<lambda>r. ok (new_res_result (re_id r) status ''confirmed'' [] ''stopped'' [])\<rparr>"

definition demo_reg :: "co_op list" where
  "demo_reg = [OAcquire False (\<lambda>_. False) ''p1'' ''k1'' ''/w'' 10 30 ''t'' ''r'',
     ORegister demo_lease ''s'' ''sandbox'' [] [] [] [] True 11]"

definition demo_coord :: coordinator where
  "demo_coord = \<lparr>cn_ws = ''w'', cn_path = ''/w'', cn_task = ''t'', cn_run = ''r'', cn_seconds = 30,
     cn_adapters = [(''*'', demo_adapter ''cancelled'')], cn_lease = Some demo_lease, cn_cancel = False,
     cn_db = fold (co_step ''w'') demo_reg empty_db\<rparr>"

lemma demo_coord_inv: "coord_inv (cn_ws demo_coord) (cn_db demo_coord)"
  unfolding demo_coord_def by simp (rule run_inv[OF empty_inv])

lemma demo_coord_facts: "cn_lease demo_coord = Some demo_lease" "ol_run demo_lease = cn_run demo_coord" "ol_token demo_lease \<noteq> []"
  by (simp_all add: demo_coord_def demo_lease_def)

lemmas demo_eval = demo_coord_def demo_reg_def demo_lease_def demo_adapter_def co_step_def acquire_def empty_db_def
  register_resource_def Let_def fenced_row_def find_run_def owns_def LIVE_STATES_def OPEN_STATES_def
  bindS_def at_store_def read_store_def require_lease_def set_lease_def returnS_def co_snapshot_def run_resources_def
  settled_res_def safe_result_def adapter_for_def new_res_result_def stored_state_def FINAL_STATES_def
  RESOURCE_STATES_def transition_resource_def rr_confirmed_def reverse_depth_def merge_payload_def
  put_res_def put_run_def co_log_def bump_run_def

lemma demo_cancel: "\<exists>rep c'. cn_cancel_run ''c'' True ''f'' 12 demo_coord = (Inr rep, c') \<and> cr_confirmed rep"
  by (simp add: demo_eval cn_cancel_run_def drive_cancel_def co_request_cancel_def begin_cancelling_def cancel_one_def
      cn_event_def record_event_def cn_transition_def end_cancel_def cn_finish_def finish_run_def close_run_def report_of_def
      cr_confirmed_def)

lemma demo_reconcile: "\<exists>xs c'. cn_reconcile ''f'' 12 demo_coord = (Inr (''active'', xs), c')"
  by (simp add: demo_eval cn_reconcile_def reconcile_one_def end_reconcile_def activate_def)

theorem cancel_report_truthful_witness:
  "\<exists>rep c'. cn_cancel_run ''c'' True ''f'' 12 demo_coord = (Inr rep, c') \<and> cr_status rep = ''cancelled''"
proof -
  obtain rep c' where c: "cn_cancel_run ''c'' True ''f'' 12 demo_coord = (Inr rep, c')" "cr_confirmed rep"
    using demo_cancel by blast
  have "''f'' \<noteq> []" by simp
  from cancel_report_truthful[OF c(1) demo_coord_inv this demo_coord_facts] c show ?thesis by blast
qed

theorem reconcile_opens_only_settled_witness:
  "\<exists>xs c'. cn_reconcile ''f'' 12 demo_coord = (Inr (''active'', xs), c') \<and>
     run_phase (run_key (cn_ws demo_coord) (cn_run demo_coord)) (cn_db c') = Some (''active'', [])"
proof -
  obtain xs c' where c: "cn_reconcile ''f'' 12 demo_coord = (Inr (''active'', xs), c')"
    using demo_reconcile by blast
  have "''f'' \<noteq> []" by simp
  from reconcile_opens_only_settled[OF c demo_coord_inv this demo_coord_facts] c show ?thesis by blast
qed

definition demo_res :: "string \<Rightarrow> string \<Rightarrow> res_row" where
  "demo_res i parent = \<lparr>re_id = i, re_key = run_key ''w'' ''r'', re_task = ''t'', re_run = ''r'', re_ws = ''w'',
     re_parent = parent, re_kind = ''sandbox'', re_effect = [], re_status = ''planned'', re_gen = 1, re_token = ''k1'',
     re_receipt = [], re_cleanup = ''unverified'', re_error = [], re_payload = [], re_created = 11, re_updated = 11\<rparr>"

theorem children_before_parents_witness:
  "mset (reverse_depth [demo_res ''a'' [], demo_res ''b'' ''a'']) = mset [demo_res ''a'' [], demo_res ''b'' ''a'']"
proof -
  let ?rs = "[demo_res ''a'' [], demo_res ''b'' ''a'']"
  have ord: "reverse_depth ?rs = [demo_res ''b'' ''a'', demo_res ''a'' []]"
    by (simp add: reverse_depth_def res_depth_def by_ids_def demo_res_def depth_from.simps al_keys_def)
  have "ranked (\<lambda>i. if i = ''a'' then 0 else 1) ?rs" by (simp add: ranked_def demo_res_def)
  moreover have "distinct (map re_id ?rs)" by (simp add: demo_res_def)
  moreover have "re_parent (reverse_depth ?rs ! 0) = re_id (reverse_depth ?rs ! 1)"
    "re_id (reverse_depth ?rs ! 1) \<noteq> []" unfolding ord by (simp_all add: demo_res_def)
  ultimately have "mset (reverse_depth ?rs) = mset ?rs \<and> (0::nat) < 1"
    by (intro children_before_parents) simp_all
  then show ?thesis by (rule conjunct1)
qed

end
