(* ===== verification/HistoryItems.thy ===== *)
theory HistoryItems
  imports Prelude
begin

text \<open>
  The entries of a session history and their grouping: the helpers of
  \<open>agent_runtime/history_summary.py\<close> (\<open>is_summary\<close>, \<open>interaction_groups\<close>, \<open>has_tool_call\<close>,
  \<open>content_text\<close>, \<open>evidence_refs\<close>) and of \<open>turn_tracking.py\<close>.  A history entry (a dictionary in
  the code) is a record; an absent text or flag is the empty string or \<open>False\<close>.  Strings are UTF-8
  bytes.  Token counting and JSON encoding and decoding are arguments, gathered in a record.
\<close>

subsection \<open>Text\<close>

definition utf8 :: "nat list \<Rightarrow> string" where
  "utf8 bs = map char_of bs"

text \<open>The first characters of a UTF-8 text: a continuation byte belongs to the character before it.\<close>

definition cont_byte :: "char \<Rightarrow> bool" where
  "cont_byte c = (128 \<le> (of_char c :: nat) \<and> (of_char c :: nat) < 192)"

fun first_chars :: "nat \<Rightarrow> string \<Rightarrow> string" where
  "first_chars n [] = []"
| "first_chars n (c # s) =
     (if cont_byte c then c # first_chars n s
      else case n of 0 \<Rightarrow> [] | Suc m \<Rightarrow> c # first_chars m s)"

fun contains :: "string \<Rightarrow> string \<Rightarrow> bool" where
  "contains p [] = (p = [])"
| "contains p (c # s) = (starts_with (c # s) p \<or> contains p s)"

text \<open>\<open>str.strip\<close> of ASCII white space.\<close>

definition space_char :: "char \<Rightarrow> bool" where
  "space_char c = (let n = (of_char c :: nat) in n = 32 \<or> (9 \<le> n \<and> n \<le> 13) \<or> (28 \<le> n \<and> n \<le> 31))"

definition strip_text :: "string \<Rightarrow> string" where
  "strip_text s = rev (dropWhile space_char (rev (dropWhile space_char s)))"

definition blank_text :: "string \<Rightarrow> bool" where
  "blank_text s \<longleftrightarrow> list_all space_char s"

subsection \<open>JSON values\<close>

datatype json =
    JNull
  | JBool bool
  | JNum string
  | JStr string
  | JArr "json list"
  | JObj "(string \<times> json) list"

subsection \<open>Entries\<close>

datatype block =
    ToolUse "string option" string
  | ToolResult "string option" string
  | OtherBlock string

datatype item_content = Plain string | Blocks "block list"

record hitem =
  hi_role :: string
  hi_content :: item_content
  hi_tool :: string
  hi_calls :: "string option list"
  hi_call_id :: string
  hi_turn :: "int option"
  hi_obs :: string
  hi_ref :: string
  hi_refs :: "string list"
  hi_repair :: bool
  hi_long :: bool
  hi_snip :: bool
  hi_collapsed :: bool
  hi_ref_id :: "nat option"
  hi_compact :: "nat option"
  hi_summary :: bool
  hi_omission :: bool
  hi_lost :: int
  hi_lost_items :: int

definition system_item :: "string \<Rightarrow> hitem" where
  "system_item text = \<lparr>hi_role = ''system'', hi_content = Plain text, hi_tool = [], hi_calls = [], hi_call_id = [],
     hi_turn = None, hi_obs = [], hi_ref = [], hi_refs = [], hi_repair = False, hi_long = False, hi_snip = False,
     hi_collapsed = False, hi_ref_id = None, hi_compact = None, hi_summary = False, hi_omission = False,
     hi_lost = 0, hi_lost_items = 0\<rparr>"

text \<open>What the code takes from elsewhere: the token counter, the JSON library (encoding of a value and
  of an entry, decoding), the text Python prints for a list of blocks, and a digest.\<close>

record henv =
  he_count :: "string \<Rightarrow> nat"
  he_fit :: "string \<Rightarrow> int \<Rightarrow> string"
  he_total :: int
  he_dumps :: "json \<Rightarrow> string"
  he_loads :: "string \<Rightarrow> json option"
  he_json :: "hitem \<Rightarrow> json"
  he_repr :: "block list \<Rightarrow> string"
  he_digest :: "string \<Rightarrow> string"

definition plain_content :: "henv \<Rightarrow> hitem \<Rightarrow> string" where
  "plain_content env x = (case hi_content x of Plain s \<Rightarrow> s | Blocks bs \<Rightarrow> he_repr env bs)"

definition item_blocks :: "hitem \<Rightarrow> block list" where
  "item_blocks x = (case hi_content x of Plain _ \<Rightarrow> [] | Blocks bs \<Rightarrow> bs)"

definition has_blocks :: "hitem \<Rightarrow> bool" where
  "has_blocks x = (case hi_content x of Plain _ \<Rightarrow> False | Blocks _ \<Rightarrow> True)"

definition is_summary :: "henv \<Rightarrow> hitem \<Rightarrow> bool" where
  "is_summary env x \<longleftrightarrow> hi_role x = ''system'' \<and> starts_with (plain_content env x) ''[Earlier summary]''"

fun block_result :: "block \<Rightarrow> string option list" where
  "block_result (ToolResult r _) = [r]"
| "block_result _ = []"

fun block_call :: "block \<Rightarrow> string option list" where
  "block_call (ToolUse r _) = [r]"
| "block_call _ = []"

definition result_ids :: "hitem \<Rightarrow> string option list" where
  "result_ids x = concat (map block_result (item_blocks x)) @
     (if hi_role x = ''tool'' \<and> hi_call_id x \<noteq> [] then [Some (hi_call_id x)] else [])"

definition call_ids :: "hitem \<Rightarrow> string option list" where
  "call_ids x = concat (map block_call (item_blocks x)) @ hi_calls x"

definition has_tool_call :: "hitem list \<Rightarrow> bool" where
  "has_tool_call g \<longleftrightarrow> (\<exists>x \<in> set g. hi_calls x \<noteq> [] \<or> hi_role x = ''assistant'' \<and> hi_tool x \<noteq> [] \<or>
     (\<exists>b \<in> set (item_blocks x). block_call b \<noteq> []))"

definition content_text :: "henv \<Rightarrow> hitem \<Rightarrow> string" where
  "content_text env x =
    (if has_blocks x \<or> hi_calls x \<noteq> [] \<or> hi_call_id x \<noteq> [] then he_dumps env (he_json env x)
     else plain_content env x)"

definition evidence_refs :: "hitem list \<Rightarrow> string list" where
  "evidence_refs h = dedup (concat (map (\<lambda>x.
     (if hi_obs x \<noteq> [] then [hi_obs x] else []) @ (if hi_ref x \<noteq> [] then [hi_ref x] else []) @ hi_refs x) h))"

definition turn_id_of :: "hitem list \<Rightarrow> int option" where
  "turn_id_of g = (case concat (map (\<lambda>x. case hi_turn x of Some t \<Rightarrow> [t] | None \<Rightarrow> []) g) of
     [] \<Rightarrow> None | t # _ \<Rightarrow> Some t)"

definition is_current_turn :: "hitem list \<Rightarrow> int option \<Rightarrow> bool" where
  "is_current_turn g active \<longleftrightarrow> active \<noteq> None \<and> turn_id_of g = active"

subsection \<open>Interaction groups\<close>

record grouping =
  gr_done :: "hitem list list"
  gr_cur :: "hitem list"
  gr_pending :: "string option set"
  gr_seen :: "string option set"
  gr_simple :: bool

definition bad_ids :: "string option list \<Rightarrow> bool" where
  "bad_ids ids \<longleftrightarrow> None \<in> set ids \<or> Some [] \<in> set ids \<or> \<not> distinct ids"

abbreviation pair_mismatch :: exn where
  "pair_mismatch \<equiv> ContextBlocked ''history_tool_pair_mismatch''"

text \<open>An entry goes on with the open interaction, or starts a new group when none is open.\<close>

definition continues :: "hitem \<Rightarrow> grouping \<Rightarrow> bool" where
  "continues x g \<longleftrightarrow> result_ids x \<noteq> [] \<or> hi_role x = ''tool'' \<or> gr_simple g \<and> hi_role x = ''user''"

definition splits_at :: "henv \<Rightarrow> hitem \<Rightarrow> grouping \<Rightarrow> bool" where
  "splits_at env x g \<longleftrightarrow> (is_summary env x \<or> hi_role x = ''user'' \<and> \<not> continues x g) \<and>
     gr_cur g \<noteq> [] \<and> gr_pending g = {} \<and> \<not> gr_simple g"

definition group_item :: "henv \<Rightarrow> hitem \<Rightarrow> grouping \<Rightarrow> grouping res" where
  "group_item env x g =
    (let results = result_ids x; calls = call_ids x in
     if results \<noteq> [] \<and> (bad_ids results \<or> \<not> set results \<subseteq> gr_pending g) then raise pair_mismatch
     else if calls \<noteq> [] \<and> (bad_ids calls \<or> gr_seen g \<inter> set calls \<noteq> {}) then raise pair_mismatch
     else
      (let done1 = (if splits_at env x g then gr_done g @ [gr_cur g] else gr_done g);
           cur1 = (if splits_at env x g then [] else gr_cur g) @ [x];
           pending = gr_pending g - set results \<union> set calls;
           close = (is_summary env x \<and> pending = {}) in
       ok \<lparr>gr_done = (if close then done1 @ [cur1] else done1), gr_cur = (if close then [] else cur1),
           gr_pending = pending, gr_seen = gr_seen g \<union> set calls,
           gr_simple = (if hi_role x = ''assistant'' \<and> hi_tool x \<noteq> [] then True
             else if continues x g then False else gr_simple g)\<rparr>))"

definition interaction_groups :: "henv \<Rightarrow> hitem list \<Rightarrow> hitem list list res" where
  "interaction_groups env h =
     bindR (foldR (group_item env) h \<lparr>gr_done = [], gr_cur = [], gr_pending = {}, gr_seen = {}, gr_simple = False\<rparr>) (\<lambda>g.
       if gr_pending g \<noteq> {} then raise pair_mismatch
       else ok (if gr_cur g = [] then gr_done g else gr_done g @ [gr_cur g]))"

subsection \<open>Calls and their results\<close>

definition all_calls :: "hitem list \<Rightarrow> string option list" where
  "all_calls h = concat (map call_ids h)"

text \<open>The open calls after a stretch of history: a result must answer an open call.\<close>

fun settle :: "string option set \<Rightarrow> hitem list \<Rightarrow> string option set option" where
  "settle p [] = Some p"
| "settle p (x # h) =
     (if result_ids x = [] \<or> \<not> bad_ids (result_ids x) \<and> set (result_ids x) \<subseteq> p
      then settle (p - set (result_ids x) \<union> set (call_ids x)) h else None)"

definition paired :: "hitem list \<Rightarrow> bool" where
  "paired h \<longleftrightarrow> settle {} h = Some {} \<and> \<not> bad_ids (all_calls h)"

lemma settle_append: "settle p (xs @ ys) = Option.bind (settle p xs) (\<lambda>q. settle q ys)"
  by (induction p xs rule: settle.induct) auto

lemma settle_concat: "\<forall>g \<in> set gs. settle {} g = Some {} \<Longrightarrow> settle {} (concat gs) = Some {}"
  by (induction gs) (auto simp: settle_append)

lemma all_calls_simps [simp]:
  "all_calls [] = []" "all_calls (x # h) = call_ids x @ all_calls h" "all_calls (g @ h) = all_calls g @ all_calls h"
  by (simp_all add: all_calls_def)

lemma bad_ids_append: "bad_ids (xs @ ys) \<longleftrightarrow> bad_ids xs \<or> bad_ids ys \<or> set xs \<inter> set ys \<noteq> {}"
  by (auto simp: bad_ids_def)

lemma bad_ids_Nil [simp]: "\<not> bad_ids []"
  by (simp add: bad_ids_def)

lemma subseq_set_le: "subseq xs ys \<Longrightarrow> set xs \<subseteq> set ys"
  by (induction rule: list_emb.induct) auto

lemma subseq_keeps_distinct: "subseq xs ys \<Longrightarrow> distinct ys \<Longrightarrow> distinct xs"
proof (induction rule: list_emb.induct)
  case (list_emb_Cons2 x y xs ys)
  then show ?case using subseq_set_le[of xs ys] by auto
qed simp_all

lemma bad_ids_subseq: "subseq xs ys \<Longrightarrow> \<not> bad_ids ys \<Longrightarrow> \<not> bad_ids xs"
  using subseq_set_le subseq_keeps_distinct by (fastforce simp: bad_ids_def)

definition grouped :: "hitem list \<Rightarrow> grouping \<Rightarrow> bool" where
  "grouped h g \<longleftrightarrow> concat (gr_done g) @ gr_cur g = h \<and> (\<forall>c \<in> set (gr_done g). c \<noteq> [] \<and> settle {} c = Some {}) \<and>
     settle {} (gr_cur g) = Some (gr_pending g) \<and> \<not> bad_ids (all_calls h) \<and> gr_seen g = set (all_calls h)"

definition item_fits :: "hitem \<Rightarrow> grouping \<Rightarrow> bool" where
  "item_fits x g \<longleftrightarrow> (result_ids x = [] \<or> \<not> bad_ids (result_ids x) \<and> set (result_ids x) \<subseteq> gr_pending g) \<and>
     \<not> bad_ids (call_ids x) \<and> gr_seen g \<inter> set (call_ids x) = {}"

lemma group_item_fits: "(\<exists>g'. group_item env x g = Inr g') \<longleftrightarrow> item_fits x g"
proof (cases "item_fits x g")
  case True
  then have "\<not> (result_ids x \<noteq> [] \<and> (bad_ids (result_ids x) \<or> \<not> set (result_ids x) \<subseteq> gr_pending g))"
    "\<not> (call_ids x \<noteq> [] \<and> (bad_ids (call_ids x) \<or> gr_seen g \<inter> set (call_ids x) \<noteq> {}))"
    by (auto simp: item_fits_def)
  then show ?thesis using True by (simp add: group_item_def Let_def)
next
  case False
  then have "\<exists>e. group_item env x g = Inl e"
    by (cases "call_ids x = []") (auto simp: group_item_def item_fits_def Let_def)
  then show ?thesis using False by auto
qed

lemma group_item_result:
  assumes "group_item env x g = Inr g'"
  shows "gr_pending g' = gr_pending g - set (result_ids x) \<union> set (call_ids x)"
    "gr_seen g' = gr_seen g \<union> set (call_ids x)"
    "(gr_done g', gr_cur g') =
       (let (done1, cur1) = (if splits_at env x g then (gr_done g @ [gr_cur g], [x]) else (gr_done g, gr_cur g @ [x])) in
        if is_summary env x \<and> gr_pending g' = {} then (done1 @ [cur1], []) else (done1, cur1))"
proof -
  have "item_fits x g" using assms group_item_fits by blast
  then have "\<not> (result_ids x \<noteq> [] \<and> (bad_ids (result_ids x) \<or> \<not> set (result_ids x) \<subseteq> gr_pending g))"
    "\<not> (call_ids x \<noteq> [] \<and> (bad_ids (call_ids x) \<or> gr_seen g \<inter> set (call_ids x) \<noteq> {}))"
    by (auto simp: item_fits_def)
  note g' = assms[unfolded group_item_def Let_def if_not_P[OF this(1)] if_not_P[OF this(2)] sum.inject, symmetric]
  show "gr_pending g' = gr_pending g - set (result_ids x) \<union> set (call_ids x)"
    "gr_seen g' = gr_seen g \<union> set (call_ids x)" by (simp_all add: g')
  show "(gr_done g', gr_cur g') =
       (let (done1, cur1) = (if splits_at env x g then (gr_done g @ [gr_cur g], [x]) else (gr_done g, gr_cur g @ [x])) in
        if is_summary env x \<and> gr_pending g' = {} then (done1 @ [cur1], []) else (done1, cur1))"
    by (simp add: g')
qed

text \<open>The groups so far: closed ones, and the current one with its open calls.\<close>

lemma group_item_grouped:
  assumes "group_item env x g = Inr g'" "grouped h g"
  shows "grouped (h @ [x]) g'"
proof -
  have fits: "item_fits x g" using assms(1) group_item_fits by blast
  note res = group_item_result[OF assms(1)]
  have cur: "settle {} (gr_cur g @ [x]) = Some (gr_pending g')"
    using assms(2) fits by (auto simp: grouped_def settle_append item_fits_def res(1))
  have new: "settle {} [x] = Some (gr_pending g')" "gr_cur g \<noteq> []" "gr_pending g = {}" if "splits_at env x g"
    using fits that by (auto simp: item_fits_def splits_at_def res(1))
  have "concat (gr_done g') @ gr_cur g' = h @ [x] \<and> (\<forall>c \<in> set (gr_done g'). c \<noteq> [] \<and> settle {} c = Some {}) \<and>
      settle {} (gr_cur g') = Some (gr_pending g')"
    using assms(2) cur new res(3)
    by (cases "splits_at env x g"; cases "is_summary env x \<and> gr_pending g' = {}") (auto simp: grouped_def)
  then show ?thesis
    using assms(2) res(2) fits by (auto simp: grouped_def bad_ids_append item_fits_def)
qed

abbreviation no_groups :: grouping where
  "no_groups \<equiv> \<lparr>gr_done = [], gr_cur = [], gr_pending = {}, gr_seen = {}, gr_simple = False\<rparr>"

lemma grouping_grouped: "foldR (group_item env) h no_groups = Inr g \<Longrightarrow> grouped h g"
proof (induction h arbitrary: g rule: rev_induct)
  case Nil
  then have "g = no_groups" by simp
  then show ?case by (simp add: grouped_def)
next
  case (snoc x h)
  then show ?case by (auto simp: foldR_append bindR_ok_iff intro: group_item_grouped)
qed

lemma grouping_total:
  "settle {} h = Some p \<Longrightarrow> \<not> bad_ids (all_calls h) \<Longrightarrow> \<exists>g. foldR (group_item env) h no_groups = Inr g \<and> gr_pending g = p"
proof (induction h arbitrary: p rule: rev_induct)
  case (snoc x h)
  obtain q where q: "settle {} h = Some q" "result_ids x = [] \<or> \<not> bad_ids (result_ids x) \<and> set (result_ids x) \<subseteq> q"
    using snoc.prems(1) by (auto simp: settle_append bind_eq_Some_conv split: if_splits)
  then obtain g where g: "foldR (group_item env) h no_groups = Inr g" "gr_pending g = q"
    using snoc.IH snoc.prems(2) by (auto simp: bad_ids_append)
  have gr: "grouped h g" using grouping_grouped[OF g(1)] .
  have "item_fits x g"
    using q(2) g(2) gr snoc.prems(2) by (auto simp: item_fits_def bad_ids_append grouped_def)
  then obtain g' where g': "group_item env x g = Inr g'" using group_item_fits by blast
  have "gr_pending g' = p"
    using group_item_result(1)[OF g'] g(2) q snoc.prems(1) by (auto simp: settle_append split: if_splits)
  then show ?case using g(1) g' by (auto simp: foldR_append)
qed simp

lemma groups_ok:
  assumes "interaction_groups env h = Inr gs"
  shows "concat gs = h \<and> (\<forall>g \<in> set gs. g \<noteq> [] \<and> settle {} g = Some {}) \<and> paired h"
proof -
  obtain g where g: "foldR (group_item env) h no_groups = Inr g" "gr_pending g = {}"
      "gs = (if gr_cur g = [] then gr_done g else gr_done g @ [gr_cur g])"
    using assms by (auto simp: interaction_groups_def bindR_ok_iff split: if_splits)
  have gr: "grouped h g" using grouping_grouped[OF g(1)] .
  have all: "concat gs = h" "\<forall>g \<in> set gs. g \<noteq> [] \<and> settle {} g = Some {}"
    using gr g(2,3) by (auto simp: grouped_def)
  then have "settle {} h = Some {}" using settle_concat[of gs] by auto
  then show ?thesis using all gr by (simp add: paired_def grouped_def)
qed

lemma groups_ok_iff: "(\<exists>gs. interaction_groups env h = Inr gs) \<longleftrightarrow> paired h"
proof
  assume "paired h"
  then show "\<exists>gs. interaction_groups env h = Inr gs"
    using grouping_total[of h "{}" env] by (auto simp: paired_def interaction_groups_def)
qed (use groups_ok in blast)

text \<open>Rebuilding a history from closed pieces whose calls come from it keeps it paired.\<close>

lemma paired_pieces:
  assumes "\<forall>g \<in> set gs. settle {} g = Some {}" "subseq (all_calls (concat gs)) (all_calls h)" "paired h"
  shows "paired (concat gs)"
  using settle_concat[OF assms(1)] bad_ids_subseq[OF assms(2)] assms(3) by (simp add: paired_def)

lemma all_calls_subseq: "subseq gs hs \<Longrightarrow> subseq (all_calls (concat gs)) (all_calls (concat hs))"
proof (induction rule: list_emb.induct)
  case (list_emb_Cons xs ys y)
  then show ?case by (simp add: list_emb_append2)
next
  case (list_emb_Cons2 x y xs ys)
  then show ?case by (auto intro: list_emb_append_mono)
qed simp

text \<open>C28. Grouping is exact and its groups are independent.  A history is grouped exactly when every
  result answers an open call, no call stays open and no call identifier is missing, empty or used
  twice.  The groups are the history cut into nonempty pieces that hold each call together with its
  results, so any selection of whole groups, in their order, is again such a history.\<close>

theorem interaction_groups_exact:
  "((\<exists>gs. interaction_groups env h = Inr gs) \<longleftrightarrow> paired h) \<and>
   (\<forall>gs. interaction_groups env h = Inr gs \<longrightarrow>
      concat gs = h \<and> (\<forall>g \<in> set gs. g \<noteq> [] \<and> settle {} g = Some {}) \<and>
      (\<forall>sel. subseq sel gs \<longrightarrow> (\<exists>gs'. interaction_groups env (concat sel) = Inr gs')))"
proof (intro conjI allI impI)
  show "(\<exists>gs. interaction_groups env h = Inr gs) \<longleftrightarrow> paired h" by (rule groups_ok_iff)
next
  fix gs assume gs: "interaction_groups env h = Inr gs"
  note ok = groups_ok[OF gs]
  show "concat gs = h" "\<forall>g \<in> set gs. g \<noteq> [] \<and> settle {} g = Some {}" using ok by blast+
  fix sel assume sel: "subseq sel gs"
  have "\<forall>g \<in> set sel. settle {} g = Some {}" using ok subseq_set_le[OF sel] by blast
  moreover have "subseq (all_calls (concat sel)) (all_calls h)" using all_calls_subseq[OF sel] ok by simp
  ultimately show "\<exists>gs'. interaction_groups env (concat sel) = Inr gs'" using paired_pieces ok groups_ok_iff by blast
qed

subsection \<open>A small history\<close>

definition text_item :: "string \<Rightarrow> string \<Rightarrow> hitem" where
  "text_item role s = (system_item s)\<lparr>hi_role := role\<rparr>"

definition call_item :: "string \<Rightarrow> hitem" where
  "call_item c = (text_item ''assistant'' [])\<lparr>hi_calls := [Some c]\<rparr>"

definition result_item :: "string \<Rightarrow> string \<Rightarrow> hitem" where
  "result_item c s = (text_item ''tool'' s)\<lparr>hi_call_id := c, hi_tool := ''grep''\<rparr>"

definition length_env :: henv where
  "length_env = \<lparr>he_count = length, he_fit = \<lambda>s n. take (nat n) s, he_total = 100, he_dumps = \<lambda>j. ''{}'',
     he_loads = \<lambda>s. None, he_json = \<lambda>x. JNull, he_repr = \<lambda>b. ''[]'', he_digest = \<lambda>s. s\<rparr>"

definition demo_history :: "hitem list" where
  "demo_history = [text_item ''user'' ''fix'', call_item ''a'', result_item ''a'' ''found'', text_item ''user'' ''thanks'']"

lemmas item_defs = text_item_def system_item_def call_item_def result_item_def

lemma demo_groups: "interaction_groups length_env demo_history = Inr [take 3 demo_history, drop 3 demo_history]"
  by (simp add: interaction_groups_def demo_history_def item_defs group_item_def Let_def result_ids_def call_ids_def
      item_blocks_def bad_ids_def continues_def splits_at_def is_summary_def plain_content_def starts_with_def)

theorem interaction_groups_exact_witness:
  "\<exists>gs'. interaction_groups length_env (concat [drop 3 demo_history]) = Inr gs'"
proof -
  have "subseq [drop 3 demo_history] [take 3 demo_history, drop 3 demo_history]" by simp
  then show ?thesis using interaction_groups_exact[of length_env demo_history] demo_groups by blast
qed

end
