(* ===== verification/Compression.thy ===== *)
theory Compression
  imports HistoryItems
begin

text \<open>
  Stages L0 to L4 of \<open>agent_runtime/compression_pipeline.py\<close>, with the history filter of
  \<open>tier_policy.py\<close>: what is dropped, truncated, snipped, compacted or collapsed, and in which
  order.  The counters and reports the code collects in its metadata are left out.  Percentages of
  the window are computed in real numbers.
\<close>

subsection \<open>Kinds of entries\<close>

definition REPAIR_PREFIXES :: "string list" where
  "REPAIR_PREFIXES = [utf8 [228, 191, 174, 229, 164, 141, 231, 138, 182, 230, 128, 129],
     utf8 [233, 149, 191, 228, 187, 187, 229, 138, 161, 231, 138, 182, 230, 128, 129], ''[repair-context]'']"

definition is_repair_state_item :: "henv \<Rightarrow> hitem \<Rightarrow> bool" where
  "is_repair_state_item env x \<longleftrightarrow> hi_repair x \<or> hi_ref x \<noteq> [] \<or> hi_long x \<or>
     (\<exists>p \<in> set REPAIR_PREFIXES. starts_with (plain_content env x) p)"

definition PROTECTED_KEYWORDS :: "string list" where
  "PROTECTED_KEYWORDS = [''Error'', ''Traceback'', ''Fail'', ''FAILED'', ''error:'']"

definition has_protected_tool_content :: "string \<Rightarrow> bool" where
  "has_protected_tool_content s \<longleftrightarrow> (\<exists>k \<in> set PROTECTED_KEYWORDS. contains k s)"

definition item_text :: "henv \<Rightarrow> hitem \<Rightarrow> string" where
  "item_text env x = hi_role x @ '': '' @ content_text env x"

definition count_history :: "henv \<Rightarrow> hitem list \<Rightarrow> int" where
  "count_history env h = (if h = [] then 0 else int (he_count env (join_with [LF] (map (item_text env) h))))"

definition turn_tool_names :: "hitem list \<Rightarrow> string list" where
  "turn_tool_names g = concat (map (\<lambda>x.
     if hi_snip x then []
     else if hi_role x = ''tool'' then [if hi_tool x \<noteq> [] then hi_tool x else ''tool'']
     else if hi_role x = ''assistant'' \<and> hi_tool x \<noteq> [] then [hi_tool x] else []) g)"

subsection \<open>L0: entries that do not belong into the window\<close>

record tier_policy =
  tp_allowed :: "string list"
  tp_pin_roles :: "string list"
  tp_drop_rejected :: bool
  tp_drop_empty :: bool
  tp_drop_low :: bool
  tp_turn :: "int option"
  tp_protect :: bool
  tp_tail :: int

definition ORCHESTRATOR_PINS :: "string list" where
  "ORCHESTRATOR_PINS = [''issue'', ''stack'', ''request'']"

definition PIN_CONTENT_MARKERS :: "string list" where
  "PIN_CONTENT_MARKERS = ''[Earlier summary]'' # ORCHESTRATOR_PINS"

definition PIN_ERROR_KEYWORDS :: "string list" where
  "PIN_ERROR_KEYWORDS = [''Traceback'', ''Fail'', ''FAILED'', ''error:'']"

definition LOW_VALUE_PHRASE :: string where
  "LOW_VALUE_PHRASE = utf8 [229, 183, 165, 229, 133, 183, 232, 176, 131, 231, 148, 168, 230, 160, 188, 229, 188, 143,
     233, 148, 153, 232, 175, 175]"

definition REJECTED_TOOL_MARKERS :: "string list" where
  "REJECTED_TOOL_MARKERS = [
     utf8 [228, 184, 141, 229, 156, 168, 229, 133, 129, 232, 174, 184, 229, 136, 151, 232, 161, 168, 228, 184, 173],
     utf8 [228, 184, 141, 229, 143, 175, 231, 148, 168, 227, 128, 130],
     utf8 [230, 156, 170, 230, 179, 168, 229, 134, 140, 227, 128, 130],
     utf8 [233, 135, 141, 229, 164, 141, 232, 176, 131, 231, 148, 168, 230, 163, 128, 230, 181, 139],
     utf8 [232, 182, 133, 229, 135, 186, 233, 133, 141, 233, 162, 157, 233, 153, 144, 229, 136, 182],
     utf8 [229, 143, 130, 230, 149, 176, 230, 160, 161, 233, 170, 140, 229, 164, 177, 232, 180, 165],
     utf8 [229, 174, 161, 230, 137, 185, 232, 162, 171, 230, 139, 146, 231, 187, 157]]"

definition allows_tool :: "tier_policy \<Rightarrow> string \<Rightarrow> bool" where
  "allows_tool tp name \<longleftrightarrow> tp_allowed tp = [] \<or> name = [] \<or> name \<in> set (tp_allowed tp)"

definition is_pinned_history_item :: "henv \<Rightarrow> tier_policy \<Rightarrow> hitem \<Rightarrow> bool" where
  "is_pinned_history_item env tp x =
    (let c = plain_content env x in
     hi_role x \<in> set (tp_pin_roles tp) \<or>
     (\<exists>m \<in> set PIN_CONTENT_MARKERS. contains m c) \<or>
     (\<exists>f \<in> set ORCHESTRATOR_PINS. contains f (first_chars 50 c) \<or>
        contains ([LF] @ f @ '':'') (first_chars 200 (casefold c))) \<or>
     (\<exists>k \<in> set PIN_ERROR_KEYWORDS. contains k c) \<or> hi_snip x \<or> hi_collapsed x \<or>
     tp_protect tp \<and> tp_turn tp \<noteq> None \<and> hi_turn x = tp_turn tp)"

definition is_rejected_tool_content :: "string \<Rightarrow> bool" where
  "is_rejected_tool_content s =
    (let t = strip_text s in starts_with t ''Error:'' \<and> (\<exists>m \<in> set REJECTED_TOOL_MARKERS. contains m t))"

definition is_low_value_system_content :: "string \<Rightarrow> bool" where
  "is_low_value_system_content s = contains LOW_VALUE_PHRASE (strip_text s)"

definition l0_keeps :: "henv \<Rightarrow> tier_policy \<Rightarrow> hitem \<Rightarrow> bool" where
  "l0_keeps env tp x =
    (let c = plain_content env x in
     if hi_role x = ''tool'' \<and> \<not> allows_tool tp (hi_tool x) then False
     else if hi_role x = ''tool'' \<and> tp_drop_rejected tp \<and> is_rejected_tool_content c then False
     else if is_pinned_history_item env tp x then True
     else if tp_drop_empty tp \<and> strip_text c = [] then False
     else if tp_drop_low tp \<and> hi_role x = ''system'' \<and> is_low_value_system_content c then False
     else True)"

definition l0_filter_history :: "henv \<Rightarrow> tier_policy \<Rightarrow> hitem list \<Rightarrow> hitem list" where
  "l0_filter_history env tp h = filter (l0_keeps env tp) h"

definition l0_group :: "henv \<Rightarrow> tier_policy \<Rightarrow> hitem list \<Rightarrow> hitem list" where
  "l0_group env tp g =
    (if has_tool_call g \<or> (\<exists>x \<in> set g. is_repair_state_item env x) then g else l0_filter_history env tp g)"

definition l0_tier_guard :: "henv \<Rightarrow> tier_policy \<Rightarrow> hitem list \<Rightarrow> hitem list res" where
  "l0_tier_guard env tp h = bindR (interaction_groups env h) (\<lambda>gs. ok (concat (map (l0_group env tp) gs)))"

subsection \<open>L1: truncation of tool texts\<close>

definition TOOL_TRUNCATION_TOKENS :: "(string, int) alist" where
  "TOOL_TRUNCATION_TOKENS = [(''list_files'', 60), (''grep'', 230), (''read_file'', 570), (''write_file'', 90),
     (''patch_file'', 90), (''run_shell'', 145)]"

text \<open>The length of the line break a text starts with, as \<open>str.splitlines\<close> counts them.\<close>

definition line_break :: "string \<Rightarrow> nat" where
  "line_break s =
    (let bs = map (\<lambda>c. of_char c :: nat) (take 3 s) in
     if take 2 bs = [13, 10] then 2
     else if bs \<noteq> [] \<and> hd bs \<in> {10, 11, 12, 13, 28, 29, 30} then 1
     else if take 2 bs = [194, 133] then 2
     else if bs = [226, 128, 168] \<or> bs = [226, 128, 169] then 3 else 0)"

fun split_lines :: "string \<Rightarrow> string \<Rightarrow> string list" where
  "split_lines acc [] = (if acc = [] then [] else [rev acc])"
| "split_lines acc (c # s) =
    (case line_break (c # s) of
       0 \<Rightarrow> split_lines (c # acc) s
     | Suc k \<Rightarrow> rev acc # split_lines [] (drop k s))"

definition important_line :: "string \<Rightarrow> bool" where
  "important_line l \<longleftrightarrow> contains ''Error'' l \<or> contains ''error'' l \<or> contains ''Fail'' l \<or> contains ''/'' l"

text \<open>Lines are taken while they fit; a first line that does not fit is cut (left result).\<close>

fun take_lines :: "henv \<Rightarrow> int \<Rightarrow> string list \<Rightarrow> string list \<Rightarrow> string + string list" where
  "take_lines env limit acc [] = Inr acc"
| "take_lines env limit acc (l # ls) =
    (if int (he_count env (join_with [LF] (acc @ [l]))) \<le> limit then take_lines env limit (acc @ [l]) ls
     else if acc = [] then Inl (he_fit env l limit) else Inr acc)"

definition truncate_tool_content :: "henv \<Rightarrow> string \<Rightarrow> string \<Rightarrow> string" where
  "truncate_tool_content env s tool =
    (let limit = (case al_get TOOL_TRUNCATION_TOKENS tool of Some n \<Rightarrow> n | None \<Rightarrow> 150);
         total = he_count env s in
     if int total \<le> limit then s
     else
      (let suffix = [LF] @ ''... ('' @ utf8 [230, 136, 170, 230, 150, 173, 239, 188, 140, 229, 133, 177] @ '' '' @
             nat_str total @ '' tokens)'';
           body_limit = max 16 (limit - int (he_count env suffix));
           ls = split_lines [] s in
       case take_lines env body_limit [] (filter important_line ls @ filter (\<lambda>l. \<not> important_line l) ls) of
         Inl body \<Rightarrow> body @ suffix
       | Inr kept \<Rightarrow>
          (let body = join_with [LF] kept in
           (if body = [] then he_fit env s body_limit
            else if int (he_count env body) > body_limit then he_fit env body body_limit else body) @ suffix)))"

definition l1_item :: "henv \<Rightarrow> hitem \<Rightarrow> hitem" where
  "l1_item env x =
    (if hi_role x \<noteq> ''tool'' \<or> is_repair_state_item env x \<or> has_blocks x \<or> hi_call_id x \<noteq> [] then x
     else x\<lparr>hi_content := Plain (truncate_tool_content env (plain_content env x) (hi_tool x))\<rparr>)"

definition l1_budget_reduction :: "henv \<Rightarrow> hitem list \<Rightarrow> hitem list" where
  "l1_budget_reduction env h = map (l1_item env) h"

subsection \<open>The protected tail\<close>

definition py_int :: "real \<Rightarrow> int" where
  "py_int x = (if 0 \<le> x then \<lfloor>x\<rfloor> else \<lceil>x\<rceil>)"

definition compression_threshold :: "real \<Rightarrow> int \<Rightarrow> int" where
  "compression_threshold ratio window = py_int (ratio * of_int window)"

definition effective_tail_protect_tokens :: "int \<Rightarrow> int \<Rightarrow> int" where
  "effective_tail_protect_tokens tail window =
    (if window \<le> 0 then 0 else min (max 0 tail) (py_int (of_int window * (2000 / 2600))))"

fun tail_indices :: "henv \<Rightarrow> hitem list list \<Rightarrow> int \<Rightarrow> int \<Rightarrow> nat list \<Rightarrow> nat list" where
  "tail_indices env turns eff tokens [] = []"
| "tail_indices env turns eff tokens (i # is) =
    (let t = count_history env (turns ! i) in
     if tokens \<ge> eff then []
     else if tokens + t > eff then [i]
     else i # tail_indices env turns eff (tokens + t) is)"

definition protected_turn_indices :: "henv \<Rightarrow> hitem list list \<Rightarrow> int \<Rightarrow> int option \<Rightarrow> int \<Rightarrow> nat set" where
  "protected_turn_indices env turns window cur tail =
    (let n = length turns in
     {i \<in> {0..<n}. is_current_turn (turns ! i) cur} \<union> {n - 2..<n} \<union>
     set (tail_indices env turns (effective_tail_protect_tokens tail window) 0 (rev [0..<n])))"

subsection \<open>Squeezing\<close>

text \<open>The loop L2, L3 and L4 share: while the history is too long, the first eligible element is
  edited; it stops when none is left.  An edited element is not eligible any more, so as many
  rounds as there are elements are enough.\<close>

fun squeeze :: "nat \<Rightarrow> ('a list \<Rightarrow> bool) \<Rightarrow> (nat \<Rightarrow> 'a \<Rightarrow> bool) \<Rightarrow> (nat \<Rightarrow> 'a \<Rightarrow> 'a) \<Rightarrow> 'a list \<Rightarrow> 'a list" where
  "squeeze 0 over elig edit xs = xs"
| "squeeze (Suc n) over elig edit xs =
    (if over xs
     then case filter (\<lambda>i. elig i (xs ! i)) [0..<length xs] of
         [] \<Rightarrow> xs
       | i # _ \<Rightarrow> squeeze n over elig edit (xs[i := edit i (xs ! i)])
     else xs)"

subsection \<open>L2: snipping read-only turns\<close>

definition READONLY_TOOLS :: "string list" where
  "READONLY_TOOLS = [''list_files'', ''read_file'', ''grep'']"

definition HIGH_VALUE_TOOLS :: "string list" where
  "HIGH_VALUE_TOOLS = [''write_file'', ''patch_file'', ''run_shell'']"

definition snips :: "henv \<Rightarrow> int option \<Rightarrow> hitem list \<Rightarrow> bool" where
  "snips env cur g =
    (let names = turn_tool_names g in
     if is_current_turn g cur \<or> (\<exists>x \<in> set g. hi_snip x) \<or> (\<exists>x \<in> set g. is_repair_state_item env x) then False
     else if has_protected_tool_content (join_with [LF] (map (plain_content env) g)) then False
     else if \<exists>n \<in> set names. n \<in> set HIGH_VALUE_TOOLS then False
     else names \<noteq> [] \<and> (\<forall>n \<in> set names. n \<in> set READONLY_TOOLS))"

definition make_snip_marker :: "hitem list \<Rightarrow> nat \<Rightarrow> hitem" where
  "make_snip_marker g i =
    (let names = turn_tool_names g;
         part = (\<lambda>n. let k = length (filter (\<lambda>m. m = n) names) in
                   if k > 1 then n @ utf8 [195, 151] @ nat_str k else n) in
     (system_item (''[snipped turn #'' @ nat_str (i + 1) @ '': '' @
        (if names = [] then ''dialogue'' else join_with '','' (map part (dedup names))) @ '']''))\<lparr>hi_snip := True\<rparr>)"

definition l2_snip :: "henv \<Rightarrow> int \<Rightarrow> int option \<Rightarrow> int \<Rightarrow> hitem list \<Rightarrow> hitem list res" where
  "l2_snip env window cur tail h =
    (let threshold = compression_threshold (55/100) window in
     if count_history env h \<le> threshold then ok h
     else bindR (interaction_groups env h) (\<lambda>turns.
       if length turns \<le> 2 then ok h
       else
        (let prot = protected_turn_indices env turns window cur tail in
         ok (concat (squeeze (length turns) (\<lambda>ts. count_history env (concat ts) > threshold)
           (\<lambda>i t. i \<notin> prot \<and> \<not> (\<exists>x \<in> set t. hi_snip x) \<and> snips env cur t)
           (\<lambda>i t. [make_snip_marker t i]) turns)))))"

subsection \<open>L3: stubs for old tool texts\<close>

fun flat_index_to_turn :: "nat \<Rightarrow> hitem list list \<Rightarrow> nat \<Rightarrow> nat option" where
  "flat_index_to_turn k [] t = None"
| "flat_index_to_turn k (g # gs) t = (if k < length g then Some t else flat_index_to_turn (k - length g) gs (t + 1))"

definition turn_index :: "nat \<Rightarrow> hitem list list \<Rightarrow> nat" where
  "turn_index k turns = (case flat_index_to_turn k turns 0 of Some t \<Rightarrow> t | None \<Rightarrow> length turns - 1)"

fun assign_tool_ref_ids :: "nat \<Rightarrow> hitem list \<Rightarrow> hitem list" where
  "assign_tool_ref_ids n [] = []"
| "assign_tool_ref_ids n (x # h) =
    (if hi_role x \<noteq> ''tool'' \<or> hi_snip x then x # assign_tool_ref_ids n h
     else x\<lparr>hi_ref_id := Some (n + 1)\<rparr> # assign_tool_ref_ids (n + 1) h)"

definition make_compact_stub :: "string \<Rightarrow> nat \<Rightarrow> nat \<Rightarrow> string \<Rightarrow> string" where
  "make_compact_stub tool ref tokens obs =
     (if obs \<noteq> [] then ''[observation:'' @ obs @ ''] '' else ''[ref:#'' @ nat_str ref @ ''] '') @
     (if tool = [] then ''tool'' else tool) @ '' ('' @ nat_str tokens @ '' tok compacted)''"

definition compactable :: "henv \<Rightarrow> hitem \<Rightarrow> bool" where
  "compactable env x \<longleftrightarrow> hi_role x = ''tool'' \<and>
     \<not> (is_repair_state_item env x \<or> has_blocks x \<or> hi_call_id x \<noteq> []) \<and>
     \<not> (hi_snip x \<or> hi_compact x \<noteq> None) \<and> \<not> has_protected_tool_content (plain_content env x)"

definition compact_item :: "henv \<Rightarrow> nat \<Rightarrow> hitem \<Rightarrow> hitem" where
  "compact_item env k x =
    (let ref = (case hi_ref_id x of Some n \<Rightarrow> n | None \<Rightarrow> k + 1); original = plain_content env x in
     x\<lparr>hi_content := Plain (make_compact_stub (hi_tool x) ref (he_count env original) (hi_obs x)),
       hi_compact := Some ref\<rparr>)"

definition l3_microcompact :: "henv \<Rightarrow> int \<Rightarrow> int option \<Rightarrow> int \<Rightarrow> hitem list \<Rightarrow> hitem list res" where
  "l3_microcompact env window cur tail h =
    (let threshold = compression_threshold (70/100) window in
     if count_history env h \<le> threshold then ok h
     else bindR (interaction_groups env h) (\<lambda>turns.
       let prot = protected_turn_indices env turns window cur tail in
       ok (squeeze (length h) (\<lambda>xs. count_history env xs > threshold)
         (\<lambda>k x. turn_index k turns \<notin> prot \<and> compactable env x) (compact_item env) (assign_tool_ref_ids 0 h))))"

subsection \<open>L4: collapsing old turns\<close>

definition is_collapsible_turn :: "henv \<Rightarrow> int option \<Rightarrow> hitem list \<Rightarrow> bool" where
  "is_collapsible_turn env cur g \<longleftrightarrow> \<not> is_current_turn g cur \<and>
     \<not> (\<exists>x \<in> set g. hi_snip x \<or> hi_collapsed x) \<and>
     \<not> (\<exists>x \<in> set g. is_repair_state_item env x \<or> is_summary env x) \<and>
     \<not> (\<exists>x \<in> set g. has_protected_tool_content (plain_content env x)) \<and> count_history env g \<ge> 40"

definition make_collapse_marker :: "henv \<Rightarrow> hitem list \<Rightarrow> nat \<Rightarrow> hitem" where
  "make_collapse_marker env g i =
    (let user = (case filter (\<lambda>x. hi_role x = ''user'') g of [] \<Rightarrow> [] | x # _ \<Rightarrow> first_chars 60 (plain_content env x));
         names = turn_tool_names g in
     (system_item (''[collapsed turn #'' @ nat_str (i + 1) @ '': user='' @ [CHR 0x27] @ user @ [CHR 0x27] @ '' | tools='' @
        (if names = [] then ''none'' else join_with '','' (dedup names)) @ '' | refs='' @
        nat_str (length (filter (\<lambda>x. hi_compact x \<noteq> None) g)) @ '']''))\<lparr>hi_collapsed := True\<rparr>)"

definition l4_collapse :: "henv \<Rightarrow> int \<Rightarrow> int option \<Rightarrow> int \<Rightarrow> hitem list \<Rightarrow> hitem list res" where
  "l4_collapse env window cur tail h =
    (let threshold = compression_threshold (82/100) window in
     if count_history env h \<le> threshold then ok h
     else bindR (interaction_groups env h) (\<lambda>turns.
       if length turns \<le> 2 then ok h
       else
        (let prot = protected_turn_indices env turns window cur tail in
         ok (concat (squeeze (length turns) (\<lambda>ts. count_history env (concat ts) > threshold)
           (\<lambda>i t. i \<notin> prot \<and> is_collapsible_turn env cur t) (\<lambda>i t. [make_collapse_marker env t i]) turns)))))"

subsection \<open>What squeezing does\<close>

text \<open>The eligible elements are edited from the front, and no more of them than needed.\<close>

definition squeezed :: "(nat \<Rightarrow> 'a \<Rightarrow> bool) \<Rightarrow> (nat \<Rightarrow> 'a \<Rightarrow> 'a) \<Rightarrow> 'a list \<Rightarrow> 'a list \<Rightarrow> bool" where
  "squeezed elig edit xs ys \<longleftrightarrow> length ys = length xs \<and>
     (\<forall>i < length xs. ys ! i = xs ! i \<or> elig i (xs ! i) \<and> ys ! i = edit i (xs ! i)) \<and>
     (\<forall>i j. i < j \<longrightarrow> j < length xs \<longrightarrow> elig i (xs ! i) \<longrightarrow> ys ! j \<noteq> xs ! j \<longrightarrow> ys ! i = edit i (xs ! i))"

locale squeezing =
  fixes elig :: "nat \<Rightarrow> 'a \<Rightarrow> bool"
    and edit :: "nat \<Rightarrow> 'a \<Rightarrow> 'a"
  assumes edited: "\<not> elig i (edit i x)"
begin

lemma fewer:
  assumes "i < length xs" "elig i (xs ! i)"
  shows "length (filter (\<lambda>k. elig k (xs[i := edit i (xs ! i)] ! k)) [0..<length xs]) <
    length (filter (\<lambda>k. elig k (xs ! k)) [0..<length xs])"
proof -
  let ?ys = "xs[i := edit i (xs ! i)]"
  have "{k. k < length xs \<and> elig k (?ys ! k)} \<subset> {k. k < length xs \<and> elig k (xs ! k)}"
    using assms edited by (auto simp: nth_list_update)
  then have "card {k. k < length xs \<and> elig k (?ys ! k)} < card {k. k < length xs \<and> elig k (xs ! k)}"
    by (intro psubset_card_mono) auto
  moreover have "length (filter P [0..<n]) = card {k. k < n \<and> P k}" for P and n :: nat
    using distinct_card[of "filter P [0..<n]"] by (simp add: conj_commute set_filter atLeast0LessThan Collect_conj_eq lessThan_def)
  ultimately show ?thesis by simp
qed

lemma squeeze_squeezed:
  assumes "length (filter (\<lambda>k. elig k (xs ! k)) [0..<length xs]) \<le> n"
  shows "squeezed elig edit xs (squeeze n over elig edit xs) \<and>
    (over (squeeze n over elig edit xs) \<longrightarrow> (\<forall>i < length xs. \<not> elig i (squeeze n over elig edit xs ! i)))"
  using assms
proof (induction n arbitrary: xs)
  case 0
  then show ?case by (auto simp: squeezed_def filter_empty_conv)
next
  case (Suc n)
  let ?E = "filter (\<lambda>k. elig k (xs ! k)) [0..<length xs]"
  show ?case
  proof (cases "over xs")
    case over: True
    show ?thesis
    proof (cases ?E)
      case Nil
      then show ?thesis using over by (auto simp: squeezed_def filter_empty_conv)
    next
      case (Cons i ks)
      let ?xs = "xs[i := edit i (xs ! i)]"
      have "i \<in> set ?E" unfolding Cons by simp
      then have i: "i < length xs" "elig i (xs ! i)" by simp_all
      have first: "i \<le> k" if "k < length xs" "elig k (xs ! k)" for k
      proof -
        have "k \<in> set (i # ks)" using that Cons[symmetric] by simp
        moreover have "sorted (i # ks)" unfolding Cons[symmetric] by (simp add: sorted_wrt_filter)
        ultimately show ?thesis by auto
      qed
      let ?ys = "squeeze n over elig edit ?xs"
      have step: "squeeze (Suc n) over elig edit xs = ?ys" using over Cons by simp
      have IH: "squeezed elig edit ?xs ?ys" "over ?ys \<longrightarrow> (\<forall>k < length xs. \<not> elig k (?ys ! k))"
        using Suc.IH[of ?xs] fewer[OF i] Suc.prems by auto
      have at: "?ys ! i = edit i (xs ! i)" using IH(1) i edited by (auto simp: squeezed_def)
      have "squeezed elig edit xs ?ys"
        unfolding squeezed_def
      proof (intro conjI allI impI)
        show "length ?ys = length xs" using IH(1) by (simp add: squeezed_def)
      next
        fix k assume k: "k < length xs"
        show "?ys ! k = xs ! k \<or> elig k (xs ! k) \<and> ?ys ! k = edit k (xs ! k)"
          using IH(1) i at k by (cases "k = i") (auto simp: squeezed_def)
      next
        fix k j assume k: "k < j" "j < length xs" "elig k (xs ! k)" "?ys ! j \<noteq> xs ! j"
        show "?ys ! k = edit k (xs ! k)"
        proof (cases "k = i")
          case True
          then show ?thesis using at by simp
        next
          case False
          then have "i < k" using first[of k] k by simp
          then show ?thesis using IH(1) k by (auto simp: squeezed_def)
        qed
      qed
      then show ?thesis unfolding step using IH(2) by blast
    qed
  next
    case False
    then show ?thesis by (simp add: squeezed_def)
  qed
qed

lemma squeeze_all:
  "squeezed elig edit xs (squeeze (length xs) over elig edit xs) \<and>
    (over (squeeze (length xs) over elig edit xs) \<longrightarrow>
      (\<forall>i < length xs. \<not> elig i (squeeze (length xs) over elig edit xs ! i)))"
  by (rule squeeze_squeezed) (simp add: order_trans[OF length_filter_le])

end

lemma no_snip_marker [simp]: "hi_snip (make_snip_marker g i)"
  by (simp add: make_snip_marker_def Let_def)

lemma collapse_marker_collapsed [simp]: "hi_collapsed (make_collapse_marker env g i)"
  by (simp add: make_collapse_marker_def Let_def)

lemma compact_item_compact [simp]: "hi_compact (compact_item env k x) \<noteq> None"
  by (simp add: compact_item_def Let_def)

interpretation snipping: squeezing
  "\<lambda>i t. i \<notin> prot \<and> \<not> (\<exists>x \<in> set t. hi_snip x) \<and> snips env cur t" "\<lambda>i t. [make_snip_marker t i]"
  for prot env cur
  by unfold_locales simp

interpretation compacting: squeezing "\<lambda>k x. turn_index k turns \<notin> prot \<and> compactable env x" "compact_item env"
  for turns prot env
  by unfold_locales (auto simp: compactable_def compact_item_def Let_def)

interpretation collapsing: squeezing
  "\<lambda>i t. i \<notin> prot \<and> is_collapsible_turn env cur t" "\<lambda>i t. [make_collapse_marker env t i]"
  for prot env cur
  by unfold_locales (simp add: is_collapsible_turn_def)

subsection \<open>Every stage keeps calls and results together\<close>

definition same_ids :: "hitem \<Rightarrow> hitem \<Rightarrow> bool" where
  "same_ids x y \<longleftrightarrow> result_ids y = result_ids x \<and> call_ids y = call_ids x"

lemma same_ids_paired:
  assumes "list_all2 same_ids xs ys"
  shows "settle p ys = settle p xs" "all_calls ys = all_calls xs"
  using assms by (induction arbitrary: p rule: list_all2_induct) (auto simp: same_ids_def)

lemma marker_ids [simp]:
  "result_ids (make_snip_marker g i) = []" "call_ids (make_snip_marker g i) = []"
  "result_ids (make_collapse_marker env g i) = []" "call_ids (make_collapse_marker env g i) = []"
  by (simp_all add: make_snip_marker_def make_collapse_marker_def Let_def system_item_def result_ids_def call_ids_def
      item_blocks_def)

lemma calls_pieces:
  "list_all2 (\<lambda>a b. subseq (all_calls a) (all_calls b)) ys gs \<Longrightarrow> subseq (all_calls (concat ys)) (all_calls (concat gs))"
  by (induction rule: list_all2_induct) (auto intro: list_emb_append_mono)

lemma replaced_turns_paired:
  assumes "interaction_groups env h = Inr gs" "length ys = length gs"
    and "\<And>i. i < length gs \<Longrightarrow> ys ! i = gs ! i \<or> settle {} (ys ! i) = Some {} \<and> all_calls (ys ! i) = []"
  shows "paired (concat ys)"
proof -
  note gs = groups_ok[OF assms(1)]
  have "list_all2 (\<lambda>a b. subseq (all_calls a) (all_calls b)) ys gs"
    using assms(2,3) by (fastforce simp: list_all2_conv_all_nth)
  then have "subseq (all_calls (concat ys)) (all_calls h)" using calls_pieces gs by blast
  moreover have "\<forall>g \<in> set ys. settle {} g = Some {}"
    using assms(2,3) gs by (fastforce simp: in_set_conv_nth)
  ultimately show ?thesis using paired_pieces gs by blast
qed

lemma l0_group_settles:
  assumes "settle {} g = Some {}"
  shows "settle {} (l0_group env tp g) = Some {} \<and> subseq (all_calls (l0_group env tp g)) (all_calls g)"
proof (cases "has_tool_call g")
  case False
  have no_call: "call_ids x = []" if "x \<in> set g" for x
    using False that by (auto simp: has_tool_call_def call_ids_def)
  have "result_ids x = []" if "x \<in> set g" for x
    using assms no_call that by (induction g) (auto split: if_splits)
  then have "settle {} (filter P g) = Some {} \<and> all_calls (filter P g) = []" for P
    using no_call by (induction g) auto
  then show ?thesis using assms by (simp add: l0_group_def l0_filter_history_def)
qed (use assms in \<open>simp add: l0_group_def\<close>)

lemma l0_paired: "l0_tier_guard env tp h = Inr h' \<Longrightarrow> paired h'"
proof -
  assume "l0_tier_guard env tp h = Inr h'"
  then obtain gs where gs: "interaction_groups env h = Inr gs" "h' = concat (map (l0_group env tp) gs)"
    by (auto simp: l0_tier_guard_def bindR_ok_iff)
  note ok = groups_ok[OF gs(1)]
  have "list_all2 (\<lambda>a b. subseq (all_calls a) (all_calls b)) (map (l0_group env tp) gs) gs"
    using ok l0_group_settles by (auto simp: list_all2_conv_all_nth)
  then have "subseq (all_calls h') (all_calls h)" using calls_pieces ok gs(2) by blast
  then show "paired h'" unfolding gs(2) using ok l0_group_settles by (intro paired_pieces[of _ h]) auto
qed

lemma l1_same_ids: "same_ids x (l1_item env x)"
  by (auto simp: same_ids_def l1_item_def result_ids_def call_ids_def item_blocks_def has_blocks_def
      split: item_content.splits)

lemma l1_paired: "paired h \<Longrightarrow> paired (l1_budget_reduction env h)"
proof -
  have "list_all2 same_ids h (l1_budget_reduction env h)"
    by (simp add: l1_budget_reduction_def list_all2_conv_all_nth l1_same_ids)
  then show "paired h \<Longrightarrow> paired (l1_budget_reduction env h)" using same_ids_paired by (simp add: paired_def)
qed

lemma l2_ok:
  assumes "l2_snip env window cur tail h = Inr h'"
  shows "h' = h \<or> (\<exists>turns ys. interaction_groups env h = Inr turns \<and> h' = concat ys \<and>
    squeezed (\<lambda>i t. i \<notin> protected_turn_indices env turns window cur tail \<and> \<not> (\<exists>x \<in> set t. hi_snip x) \<and> snips env cur t)
      (\<lambda>i t. [make_snip_marker t i]) turns ys)"
  using assms snipping.squeeze_all by (fastforce simp: l2_snip_def Let_def bindR_ok_iff split: if_splits)

lemma l4_ok:
  assumes "l4_collapse env window cur tail h = Inr h'"
  shows "h' = h \<or> (\<exists>turns ys. interaction_groups env h = Inr turns \<and> h' = concat ys \<and>
    squeezed (\<lambda>i t. i \<notin> protected_turn_indices env turns window cur tail \<and> is_collapsible_turn env cur t)
      (\<lambda>i t. [make_collapse_marker env t i]) turns ys)"
  using assms collapsing.squeeze_all by (fastforce simp: l4_collapse_def Let_def bindR_ok_iff split: if_splits)

lemma l3_ok:
  assumes "l3_microcompact env window cur tail h = Inr h'"
  shows "h' = h \<or> (\<exists>turns. interaction_groups env h = Inr turns \<and>
    squeezed (\<lambda>k x. turn_index k turns \<notin> protected_turn_indices env turns window cur tail \<and> compactable env x)
      (compact_item env) (assign_tool_ref_ids 0 h) h')"
proof (cases "count_history env h \<le> compression_threshold (70/100) window")
  case False
  then obtain turns where t: "interaction_groups env h = Inr turns"
    "h' = squeeze (length h) (\<lambda>xs. count_history env xs > compression_threshold (70/100) window)
         (\<lambda>k x. turn_index k turns \<notin> protected_turn_indices env turns window cur tail \<and> compactable env x)
         (compact_item env) (assign_tool_ref_ids 0 h)"
    using assms by (auto simp: l3_microcompact_def Let_def bindR_ok_iff)
  have "length (assign_tool_ref_ids n h) = length h" for n
    by (induction n h rule: assign_tool_ref_ids.induct) auto
  then show ?thesis using t compacting.squeeze_all by metis
qed (use assms in \<open>simp add: l3_microcompact_def\<close>)

lemma l2_paired: "l2_snip env window cur tail h = Inr h' \<Longrightarrow> paired h \<Longrightarrow> paired h'"
  using l2_ok[of env window cur tail h h'] replaced_turns_paired[of env h] by (fastforce simp: squeezed_def)

lemma l4_paired: "l4_collapse env window cur tail h = Inr h' \<Longrightarrow> paired h \<Longrightarrow> paired h'"
  using l4_ok[of env window cur tail h h'] replaced_turns_paired[of env h] by (fastforce simp: squeezed_def)

lemma refs_same_ids: "list_all2 same_ids h (assign_tool_ref_ids n h)"
  by (induction n h rule: assign_tool_ref_ids.induct)
    (auto simp: same_ids_def result_ids_def call_ids_def item_blocks_def)

lemma compact_same_ids: "compactable env x \<Longrightarrow> same_ids x (compact_item env k x)"
  by (auto simp: same_ids_def compact_item_def compactable_def Let_def result_ids_def call_ids_def item_blocks_def has_blocks_def
      split: item_content.splits)

lemma same_ids_refl [simp]: "same_ids x x"
  by (simp add: same_ids_def)

lemma l3_paired:
  assumes "l3_microcompact env window cur tail h = Inr h'" "paired h"
  shows "paired h'"
proof (cases "h' = h")
  case False
  then have "list_all2 same_ids (assign_tool_ref_ids 0 h) h'"
    using l3_ok[OF assms(1)] compact_same_ids by (fastforce simp: squeezed_def list_all2_conv_all_nth)
  from same_ids_paired[OF this] same_ids_paired[OF refs_same_ids[of h 0]] show ?thesis
    using assms(2) by (simp add: paired_def)
qed (use assms in simp)

lemma stages_total:
  assumes "paired h"
  shows "\<exists>h'. l2_snip env window cur tail h = Inr h'" "\<exists>h'. l3_microcompact env window cur tail h = Inr h'"
    "\<exists>h'. l4_collapse env window cur tail h = Inr h'" "\<exists>h'. l0_tier_guard env tp h = Inr h'"
proof -
  obtain gs where "interaction_groups env h = Inr gs" using groups_ok_iff assms by blast
  then show "\<exists>h'. l2_snip env window cur tail h = Inr h'" "\<exists>h'. l3_microcompact env window cur tail h = Inr h'"
    "\<exists>h'. l4_collapse env window cur tail h = Inr h'" "\<exists>h'. l0_tier_guard env tp h = Inr h'"
    by (simp_all add: l2_snip_def l3_microcompact_def l4_collapse_def l0_tier_guard_def Let_def)
qed

subsection \<open>Every stage keeps the repair state\<close>

text \<open>An entry up to the reference number L3 gives it.\<close>

definition same_entry :: "hitem \<Rightarrow> hitem \<Rightarrow> bool" where
  "same_entry x y \<longleftrightarrow> y\<lparr>hi_ref_id := hi_ref_id x\<rparr> = x"

definition kept_in :: "hitem list \<Rightarrow> hitem \<Rightarrow> bool" where
  "kept_in h x \<longleftrightarrow> (\<exists>y \<in> set h. same_entry x y)"

lemma same_entry_refl [simp]: "same_entry x x"
  by (simp add: same_entry_def)

lemma same_entry_trans: "same_entry x y \<Longrightarrow> same_entry y z \<Longrightarrow> same_entry x z"
  by (cases x; cases y; cases z) (simp add: same_entry_def)

lemma same_entry_fields:
  assumes "same_entry x y"
  shows "is_repair_state_item env y = is_repair_state_item env x" "is_summary env y = is_summary env x"
    "hi_omission y = hi_omission x" "hi_role y = hi_role x" "hi_turn y = hi_turn x"
  using assms by (cases x; cases y; auto simp: same_entry_def is_repair_state_item_def is_summary_def plain_content_def)+

lemma l0_keeps_state:
  assumes "l0_tier_guard env tp h = Inr h'" "x \<in> set h" "is_repair_state_item env x"
  shows "x \<in> set h'"
proof -
  obtain gs where gs: "interaction_groups env h = Inr gs" "h' = concat (map (l0_group env tp) gs)"
    using assms(1) by (auto simp: l0_tier_guard_def bindR_ok_iff)
  have "x \<in> set (concat gs)" using groups_ok[OF gs(1)] assms(2) by simp
  then obtain g where "g \<in> set gs" "x \<in> set g" by auto
  moreover have "l0_group env tp g = g" using \<open>x \<in> set g\<close> assms(3) by (auto simp: l0_group_def)
  ultimately show ?thesis unfolding gs(2) by force
qed

lemma l1_keeps_state: "x \<in> set h \<Longrightarrow> is_repair_state_item env x \<Longrightarrow> x \<in> set (l1_budget_reduction env h)"
  by (force simp: l1_budget_reduction_def l1_item_def)

lemma kept_turns:
  assumes "interaction_groups env h = Inr turns" "squeezed elig edit turns ys" "x \<in> set h"
    and "\<And>i t. elig i t \<Longrightarrow> x \<notin> set t"
  shows "x \<in> set (concat ys)"
proof -
  have "x \<in> set (concat turns)" using groups_ok[OF assms(1)] assms(3) by simp
  then obtain t where "t \<in> set turns" "x \<in> set t" by auto
  then obtain i where i: "i < length turns" "x \<in> set (turns ! i)" by (metis in_set_conv_nth)
  then have "ys ! i = turns ! i" "i < length ys" using assms(2,4) by (auto simp: squeezed_def)
  then have "turns ! i \<in> set ys" using nth_mem[of i ys] by simp
  then show ?thesis using i(2) by auto
qed

lemma l2_keeps_state:
  assumes "l2_snip env window cur tail h = Inr h'" "x \<in> set h" "is_repair_state_item env x"
  shows "x \<in> set h'"
proof (cases "h' = h")
  case False
  have "x \<notin> set t" if "snips env cur t" for t
    using that assms(3) by (auto simp: snips_def Let_def split: if_splits)
  then show ?thesis using l2_ok[OF assms(1)] False kept_turns[OF _ _ assms(2)] by blast
qed (use assms in simp)

lemma l4_keeps_state:
  assumes "l4_collapse env window cur tail h = Inr h'" "x \<in> set h" "is_repair_state_item env x"
  shows "x \<in> set h'"
proof (cases "h' = h")
  case False
  have "x \<notin> set t" if "is_collapsible_turn env cur t" for t
    using that assms(3) by (auto simp: is_collapsible_turn_def)
  then show ?thesis using l4_ok[OF assms(1)] False kept_turns[OF _ _ assms(2)] by blast
qed (use assms in simp)

lemma refs_same_entry: "list_all2 same_entry h (assign_tool_ref_ids n h)"
  by (induction n h rule: assign_tool_ref_ids.induct) (auto simp: same_entry_def)

lemma l3_keeps_state:
  assumes "l3_microcompact env window cur tail h = Inr h'" "x \<in> set h" "is_repair_state_item env x"
  shows "kept_in h' x"
proof (cases "h' = h")
  case False
  then obtain turns where sq: "squeezed (\<lambda>k x. turn_index k turns \<notin> protected_turn_indices env turns window cur tail \<and> compactable env x)
      (compact_item env) (assign_tool_ref_ids 0 h) h'"
    using l3_ok[OF assms(1)] by blast
  obtain i where i: "i < length h" "h ! i = x" using assms(2) by (auto simp: in_set_conv_nth)
  let ?y = "assign_tool_ref_ids 0 h ! i"
  have y: "same_entry x ?y" "length (assign_tool_ref_ids 0 h) = length h"
    using refs_same_entry[of h 0] i by (auto simp: list_all2_conv_all_nth)
  then have "\<not> compactable env ?y" using same_entry_fields(1)[OF y(1)] assms(3) by (simp add: compactable_def)
  then have "h' ! i = ?y" "i < length h'" using sq i(1) y(2) by (auto simp: squeezed_def)
  then show ?thesis using y(1) nth_mem[of i h'] unfolding kept_in_def by force
qed (use assms in \<open>force simp: kept_in_def\<close>)

subsection \<open>Snipping\<close>

lemma l2_turns:
  assumes "interaction_groups env h = Inr turns" "length turns > 2"
    and "count_history env h > compression_threshold (55/100) window"
  obtains ys where "l2_snip env window cur tail h = Inr (concat ys)"
    "squeezed (\<lambda>i t. i \<notin> protected_turn_indices env turns window cur tail \<and> \<not> (\<exists>x \<in> set t. hi_snip x) \<and> snips env cur t)
      (\<lambda>i t. [make_snip_marker t i]) turns ys"
    "count_history env (concat ys) > compression_threshold (55/100) window \<longrightarrow>
      (\<forall>i < length turns. \<not> (i \<notin> protected_turn_indices env turns window cur tail \<and> \<not> (\<exists>x \<in> set (ys ! i). hi_snip x) \<and> snips env cur (ys ! i)))"
  using that assms snipping.squeeze_all[where xs = turns and env = env and cur = cur
      and over = "\<lambda>ts. count_history env (concat ts) > compression_threshold (55/100) window"
      and prot = "protected_turn_indices env turns window cur tail"]
  by (simp add: l2_snip_def Let_def)

text \<open>Snipping takes the oldest read-only turns and no more than needed.  Over the threshold, every
  turn is kept word for word or replaced by one marker; a replaced turn is outside the protected
  tail and only read; of two such turns the older one goes first; and snipping stops as soon as the
  history is within the threshold, or when nothing is left that may be snipped.\<close>

theorem snip_oldest_first:
  assumes "interaction_groups env h = Inr turns" "length turns > 2"
    and "count_history env h > compression_threshold (55/100) window"
  shows "\<exists>ys. l2_snip env window cur tail h = Inr (concat ys) \<and> length ys = length turns \<and>
    (\<forall>i < length turns. ys ! i = turns ! i \<or>
       i \<notin> protected_turn_indices env turns window cur tail \<and> snips env cur (turns ! i) \<and> ys ! i = [make_snip_marker (turns ! i) i]) \<and>
    (\<forall>i j. i < j \<and> j < length turns \<and> ys ! j \<noteq> turns ! j \<and> i \<notin> protected_turn_indices env turns window cur tail \<and>
       snips env cur (turns ! i) \<longrightarrow> ys ! i = [make_snip_marker (turns ! i) i]) \<and>
    (count_history env (concat ys) \<le> compression_threshold (55/100) window \<or>
     (\<forall>i < length turns. i \<in> protected_turn_indices env turns window cur tail \<or> \<not> snips env cur (ys ! i)))"
proof -
  obtain ys where ys: "l2_snip env window cur tail h = Inr (concat ys)"
    "squeezed (\<lambda>i t. i \<notin> protected_turn_indices env turns window cur tail \<and> \<not> (\<exists>x \<in> set t. hi_snip x) \<and> snips env cur t)
      (\<lambda>i t. [make_snip_marker t i]) turns ys"
    "count_history env (concat ys) > compression_threshold (55/100) window \<longrightarrow>
      (\<forall>i < length turns. \<not> (i \<notin> protected_turn_indices env turns window cur tail \<and> \<not> (\<exists>x \<in> set (ys ! i). hi_snip x) \<and> snips env cur (ys ! i)))"
    by (rule l2_turns[OF assms])
  have unsnipped: "\<not> (\<exists>x \<in> set t. hi_snip x)" if "snips env cur t" for t
    using that by (auto simp: snips_def Let_def split: if_splits)
  have "squeezed (\<lambda>i t. i \<notin> protected_turn_indices env turns window cur tail \<and> snips env cur t)
      (\<lambda>i t. [make_snip_marker t i]) turns ys"
    using ys(2) unsnipped by (simp add: squeezed_def) blast
  moreover have "count_history env (concat ys) \<le> compression_threshold (55/100) window \<or>
     (\<forall>i < length turns. i \<in> protected_turn_indices env turns window cur tail \<or> \<not> snips env cur (ys ! i))"
    using ys(3) unsnipped by (meson not_le)
  ultimately show ?thesis using ys(1) unfolding squeezed_def by (intro exI[of _ ys]) blast
qed

text \<open>The user's request is not pinned against snipping.  User entries are never dropped by L0, but
  the oldest read-only turn goes as a whole: when the history is over the threshold, the request
  that opened such a turn is gone from the projection.\<close>

theorem user_request_snipped:
  assumes "interaction_groups env h = Inr turns" "length turns > 2"
    and "count_history env h > compression_threshold (55/100) window"
    and "i < length turns" "i \<notin> protected_turn_indices env turns window cur tail" "snips env cur (turns ! i)"
    and "\<forall>j < i. j \<in> protected_turn_indices env turns window cur tail \<or> \<not> snips env cur (turns ! j)"
    and "x \<in> set (turns ! i)" "hi_role x = ''user''" "\<forall>j < length turns. j \<noteq> i \<longrightarrow> x \<notin> set (turns ! j)"
    and "''user'' \<in> set (tp_pin_roles tp)"
  shows "l0_keeps env tp x \<and> (\<exists>h'. l2_snip env window cur tail h = Inr h' \<and> x \<notin> set h')"
proof -
  let ?el = "\<lambda>i t. i \<notin> protected_turn_indices env turns window cur tail \<and> \<not> (\<exists>x \<in> set t. hi_snip x) \<and> snips env cur t"
  obtain ys where ys: "l2_snip env window cur tail h = Inr (concat ys)"
    "squeezed ?el (\<lambda>i t. [make_snip_marker t i]) turns ys"
    "count_history env (concat ys) > compression_threshold (55/100) window \<longrightarrow> (\<forall>i < length turns. \<not> ?el i (ys ! i))"
    by (rule l2_turns[OF assms(1-3)])
  have el: "?el i (turns ! i)" using assms(5,6) by (auto simp: snips_def Let_def split: if_splits)
  have at: "ys ! i = [make_snip_marker (turns ! i) i]"
  proof (rule ccontr)
    assume no: "ys ! i \<noteq> [make_snip_marker (turns ! i) i]"
    have "ys ! j = turns ! j" if "j < length turns" for j
    proof (cases "j < i")
      case True
      then show ?thesis using ys(2) assms(7) that by (auto simp: squeezed_def)
    next
      case False
      then consider "j = i" | "i < j" by linarith
      then show ?thesis
      proof cases
        case 1
        then show ?thesis using ys(2) no that unfolding squeezed_def by blast
      next
        case 2
        then show ?thesis using ys(2) no el that unfolding squeezed_def by blast
      qed
    qed
    then have "ys = turns" using ys(2) by (intro nth_equalityI) (auto simp: squeezed_def)
    then have "\<forall>i < length turns. \<not> ?el i (turns ! i)" using ys(3) assms(3) groups_ok[OF assms(1)] by simp
    then show False using el assms(4) by blast
  qed
  have marker: "x \<noteq> make_snip_marker t k" for t k
    using assms(9) by (auto simp: make_snip_marker_def system_item_def Let_def)
  have "x \<notin> set (ys ! j)" if "j < length turns" for j
    using ys(2) at marker assms(10) that by (cases "j = i") (auto simp: squeezed_def)
  moreover have "length ys = length turns" using ys(2) by (simp add: squeezed_def)
  ultimately have "\<forall>t \<in> set ys. x \<notin> set t" by (metis in_set_conv_nth)
  then have "x \<notin> set (concat ys)" by simp
  moreover have "l0_keeps env tp x" using assms(9,11) by (simp add: l0_keeps_def is_pinned_history_item_def Let_def)
  ultimately show ?thesis using ys(1) by blast
qed

subsection \<open>Three turns\<close>

definition read_turn :: "hitem list" where
  "read_turn = [text_item ''user'' ''fix the parser'', call_item ''a'', result_item ''a'' ''text'']"

definition talk_turn :: "hitem list" where
  "talk_turn = [text_item ''user'' ''and then a longer question'']"

definition demo_turns :: "hitem list list" where
  "demo_turns = [read_turn, talk_turn, talk_turn]"

lemma demo_turn_groups: "interaction_groups length_env (concat demo_turns) = Inr demo_turns"
  by (simp add: interaction_groups_def demo_turns_def read_turn_def talk_turn_def item_defs group_item_def Let_def
      result_ids_def call_ids_def item_blocks_def bad_ids_def continues_def splits_at_def is_summary_def plain_content_def
      starts_with_def)

lemma turn_counts: "count_history length_env (concat demo_turns) = 109" "count_history length_env talk_turn = 32"
  by (simp_all add: count_history_def demo_turns_def read_turn_def talk_turn_def item_defs item_text_def content_text_def
      has_blocks_def plain_content_def length_env_def)

lemma demo_protected: "protected_turn_indices length_env demo_turns 100 None 10 = {1, 2}"
  using turn_counts(2)
  by (auto simp: protected_turn_indices_def Let_def is_current_turn_def effective_tail_protect_tokens_def py_int_def
      upt_rec demo_turns_def)

lemma demo_snips: "snips length_env None read_turn" "\<not> snips length_env None talk_turn"
  by code_simp+

lemma demo_threshold: "compression_threshold (55/100) 100 = 55" "length demo_turns > 2"
  by (simp_all add: compression_threshold_def py_int_def demo_turns_def)

theorem snip_oldest_first_witness:
  "\<exists>ys. l2_snip length_env 100 None 10 (concat demo_turns) = Inr (concat ys) \<and> length ys = 3"
proof -
  have "count_history length_env (concat demo_turns) > compression_threshold (55/100) 100"
    unfolding turn_counts(1) demo_threshold(1) by simp
  from snip_oldest_first[OF demo_turn_groups demo_threshold(2) this, where tail = 10 and cur = None] show ?thesis
    by (auto simp: demo_turns_def)
qed

theorem user_request_snipped_witness:
  "\<exists>h'. l2_snip length_env 100 None 10 (concat demo_turns) = Inr h' \<and> text_item ''user'' ''fix the parser'' \<notin> set h'"
proof -
  let ?tp = "\<lparr>tp_allowed = [], tp_pin_roles = [''user''], tp_drop_rejected = True, tp_drop_empty = True, tp_drop_low = True,
     tp_turn = None, tp_protect = True, tp_tail = 10\<rparr>"
  have "count_history length_env (concat demo_turns) > compression_threshold (55/100) 100"
    unfolding turn_counts(1) demo_threshold(1) by simp
  from user_request_snipped[OF demo_turn_groups demo_threshold(2) this, where i = 0 and tail = 10 and cur = None
      and x = "text_item ''user'' ''fix the parser''" and tp = ?tp]
  show ?thesis
    using demo_snips(1) demo_protected by (auto simp: demo_turns_def read_turn_def talk_turn_def item_defs less_Suc_eq)
qed

end
