(* ===== verification/CompressionFit.thy ===== *)
theory CompressionFit
  imports Compression HistorySummary
begin

text \<open>
  Stage L5 of \<open>agent_runtime/compression_pipeline.py\<close> and the pipeline itself: old interactions are
  replaced by one summary, complete interactions are fitted into the window or the request is
  blocked, and the repair state is put in front when the projection lost it (\<open>repair_context.py\<close>).
  The summarizing model is an argument; its answers are kept in a cache, which is the state here.
\<close>

subsection \<open>Fitting complete interactions\<close>

definition first_user_group :: "hitem list list \<Rightarrow> nat option" where
  "first_user_group gs = (case filter (\<lambda>i. \<exists>x \<in> set (gs ! i). hi_role x = ''user'') [0..<length gs] of
     [] \<Rightarrow> None | i # _ \<Rightarrow> Some i)"

definition pinned_group :: "henv \<Rightarrow> int option \<Rightarrow> hitem list \<Rightarrow> bool" where
  "pinned_group env cur g \<longleftrightarrow> is_current_turn g cur \<or> (\<exists>x \<in> set g. is_repair_state_item env x \<or> is_summary env x)"

definition l5_pinned :: "henv \<Rightarrow> int option \<Rightarrow> hitem list list \<Rightarrow> nat list" where
  "l5_pinned env cur gs = filter (\<lambda>i. first_user_group gs = Some i \<or> pinned_group env cur (gs ! i)) [0..<length gs]"

definition int_str :: "int \<Rightarrow> string" where
  "int_str n = (if n < 0 then ''-'' @ nat_str (nat (- n)) else nat_str (nat n))"

definition omission_marker :: "int \<Rightarrow> int \<Rightarrow> hitem" where
  "omission_marker lost items = (system_item (''[History omitted: '' @ int_str lost @ '' interactions; '' @
     int_str items @ '' summary items. Not current evidence.]''))
       \<lparr>hi_omission := True, hi_lost := lost, hi_lost_items := items\<rparr>"

definition render_groups :: "hitem list list \<Rightarrow> int \<Rightarrow> int \<Rightarrow> nat list \<Rightarrow> hitem list" where
  "render_groups gs omitted items sel =
    (let lost = int (length gs) - int (length sel) + omitted in
     concat (picked gs sel) @ (if lost \<noteq> 0 \<or> items \<noteq> 0 then [omission_marker lost items] else []))"

definition select_group ::
  "henv \<Rightarrow> int \<Rightarrow> hitem list list \<Rightarrow> nat option \<Rightarrow> int \<Rightarrow> int \<Rightarrow> nat list \<Rightarrow> nat \<Rightarrow> nat list" where
  "select_group env window gs max_groups omitted items sel i =
    (if i \<in> set sel \<or> (case max_groups of Some m \<Rightarrow> length sel \<ge> m | None \<Rightarrow> False) then sel
     else if count_history env (render_groups gs omitted items (i # sel)) > window then sel
     else i # sel)"

abbreviation over_budget :: exn where
  "over_budget \<equiv> ContextBlocked ''history_protected_over_budget''"

definition fit_l5_groups ::
  "henv \<Rightarrow> int \<Rightarrow> int option \<Rightarrow> nat option \<Rightarrow> int \<Rightarrow> int \<Rightarrow> hitem list \<Rightarrow> hitem list res" where
  "fit_l5_groups env window cur max_groups omitted items h =
     bindR (interaction_groups env h) (\<lambda>gs.
       let pinned = l5_pinned env cur gs in
       if count_history env (render_groups gs omitted items pinned) > window then raise over_budget
       else ok (render_groups gs omitted items
         (foldl (select_group env window gs max_groups omitted items) pinned (rev [0..<length gs]))))"

subsection \<open>L5\<close>

record summarizer =
  su_call :: "string \<Rightarrow> string res"
  su_input :: "int option"

definition summary_cache_key :: "henv \<Rightarrow> hitem list \<Rightarrow> string" where
  "summary_cache_key env h = he_digest env (concat (map (\<lambda>x. first_chars 100 (plain_content env x)) (drop (length h - 10) h)))"

definition find_existing_summary :: "henv \<Rightarrow> hitem list \<Rightarrow> nat option" where
  "find_existing_summary env h = (case filter (\<lambda>i. is_summary env (h ! i)) [0..<length h] of
     [] \<Rightarrow> None | i # _ \<Rightarrow> Some i)"

definition remove_summary_prefix :: "string \<Rightarrow> string" where
  "remove_summary_prefix s = (if starts_with s SUMMARY_PREFIX then drop (length SUMMARY_PREFIX) s else s)"

definition old_groups :: "nat list \<Rightarrow> hitem list list \<Rightarrow> nat list" where
  "old_groups pinned gs =
    (let eligible = filter (\<lambda>i. i \<notin> set pinned) [0..<length gs - 2] in
     take (max 1 (length eligible div 2)) eligible)"

text \<open>The answer of the model, from the cache when it is there; a nonempty answer is cached at once.\<close>

definition ask_summary ::
  "summarizer option \<Rightarrow> string \<Rightarrow> string \<Rightarrow> (string, string) alist \<Rightarrow> string res \<times> (string, string) alist" where
  "ask_summary su key prompt cache =
    (case al_get cache key of
       Some raw \<Rightarrow> (ok raw, cache)
     | None \<Rightarrow>
        (case su of
           None \<Rightarrow> (raise (ValueError ''summary_unavailable''), cache)
         | Some s \<Rightarrow>
            (case su_call s prompt of
               Inl e \<Rightarrow> (Inl e, cache)
             | Inr raw \<Rightarrow> (ok raw, if raw \<noteq> [] then al_put key raw cache else cache))))"

definition read_summaries :: "henv \<Rightarrow> hitem list \<Rightarrow> summary list res" where
  "read_summaries env h = foldR (\<lambda>x vs. bindR (parse_summary env (remove_summary_prefix (plain_content env x)) None)
     (\<lambda>v. ok (vs @ [v]))) (filter (is_summary env) h) []"

definition summary_marker :: "string \<Rightarrow> hitem" where
  "summary_marker s = (system_item (SUMMARY_PREFIX @ s))\<lparr>hi_summary := True\<rparr>"

definition summary_input_limit :: "henv \<Rightarrow> summarizer option \<Rightarrow> int" where
  "summary_input_limit env su = min 6000 (case su of
     Some s \<Rightarrow> (case su_input s of Some n \<Rightarrow> n | None \<Rightarrow> he_total env) | None \<Rightarrow> he_total env)"

definition summary_key :: "henv \<Rightarrow> hitem list \<Rightarrow> hitem list \<Rightarrow> string" where
  "summary_key env h old = summary_cache_key env old @
     (case find_existing_summary env h of Some i \<Rightarrow> ''@offset'' @ nat_str i | None \<Rightarrow> [])"

text \<open>What becomes of an answer: checked, fitted, and put in front of the recent interactions.\<close>

definition use_summary ::
  "henv \<Rightarrow> int \<Rightarrow> int option \<Rightarrow> hitem list \<Rightarrow> hitem list \<Rightarrow> string list \<Rightarrow> nat \<Rightarrow> string \<Rightarrow> hitem list res" where
  "use_summary env window cur h recent refs lost raw =
     bindR (parse_summary env raw (Some refs)) (\<lambda>v.
     bindR (fit_summary env (min 512 (max 0 (window div 3))) v 0) (\<lambda>(s, dropped).
       fit_l5_groups env window cur None (sum_list (map hi_lost h) + int lost)
         (sum_list (map hi_lost_items h) + int dropped) (summary_marker s # recent)))"

text \<open>The part that may fail over to trimming: one summary in front of the recent interactions.\<close>

definition summarize_history ::
  "henv \<Rightarrow> summarizer option \<Rightarrow> int \<Rightarrow> int option \<Rightarrow> bool \<Rightarrow> bool \<Rightarrow> hitem list \<Rightarrow> hitem list \<Rightarrow> hitem list \<Rightarrow>
     (string, string) alist \<Rightarrow> hitem list res \<times> (string, string) alist" where
  "summarize_history env su window cur allow fits h old recent cache =
    (if \<not> allow then (raise (ValueError ''summary_sealed_prefix_retained''), cache)
     else case read_summaries env h of
       Inl e \<Rightarrow> (Inl e, cache)
     | Inr previous \<Rightarrow>
        if fits \<and> length previous = 1 then (ok h, cache)
        else if old = [] \<and> previous = [] then (raise (ValueError ''summary_no_old_interactions''), cache)
        else case build_summary_prompt env (summary_input_limit env su) old previous of
          Inl e \<Rightarrow> (Inl e, cache)
        | Inr (prompt, refs, lost) \<Rightarrow>
           (case ask_summary su (summary_key env h old) prompt cache of
              (Inl e, cache') \<Rightarrow> (Inl e, cache')
            | (Inr raw, cache') \<Rightarrow> (use_summary env window cur h recent refs lost raw, cache')))"

definition l5_auto_compact ::
  "henv \<Rightarrow> summarizer option \<Rightarrow> int option \<Rightarrow> int \<Rightarrow> int option \<Rightarrow> bool \<Rightarrow> hitem list \<Rightarrow>
     (string, string) alist \<Rightarrow> hitem list res \<times> (string, string) alist" where
  "l5_auto_compact env su trigger_tokens window cur allow h cache =
    (let trigger = (case trigger_tokens of Some t \<Rightarrow> t | None \<Rightarrow> compression_threshold 1 window);
         tokens = count_history env h in
     if tokens \<le> trigger \<and> \<not> (\<exists>x \<in> set h. is_summary env x) then (ok h, cache)
     else
      (let working = filter (\<lambda>x. \<not> is_summary env x \<and> \<not> hi_omission x) h in
       case interaction_groups env working of
         Inl e \<Rightarrow> (Inl e, cache)
       | Inr gs \<Rightarrow>
         (let pinned = l5_pinned env cur gs in
          if count_history env (concat (picked gs pinned)) > window then (raise over_budget, cache)
          else
           (let old = old_groups pinned gs;
                recent = concat (map (\<lambda>i. gs ! i) (filter (\<lambda>i. i \<notin> set old) [0..<length gs])) in
            case summarize_history env su window cur allow (tokens \<le> trigger) h (concat (picked gs old)) recent cache of
              (Inr out, cache') \<Rightarrow> (ok out, cache')
            | (Inl (CancelledError m), cache') \<Rightarrow> (raise (CancelledError m), cache')
            | (Inl e, cache') \<Rightarrow>
               (fit_l5_groups env window cur (Some 8) (sum_list (map hi_lost h))
                 (sum_list (map hi_lost_items h) + int (length (filter (is_summary env) h))) working, cache')))))"

subsection \<open>The repair state\<close>

type_synonym repair_context = "(string \<times> json) list"

fun truthy :: "json \<Rightarrow> bool" where
  "truthy JNull = False"
| "truthy (JBool b) = b"
| "truthy (JNum n) = (n \<noteq> ''0'')"
| "truthy (JStr s) = (s \<noteq> [])"
| "truthy (JArr vs) = (vs \<noteq> [])"
| "truthy (JObj kvs) = (kvs \<noteq> [])"

text \<open>A recorded text that is set must occur in the projected history with its first 80 characters.\<close>

definition state_check :: "repair_context \<Rightarrow> string \<Rightarrow> string \<Rightarrow> bool res" where
  "state_check state key s =
    (case al_get state key of
       Some v \<Rightarrow> if \<not> truthy v then ok True
         else (case v of JStr t \<Rightarrow> ok (contains (first_chars 80 t) s) | _ \<Rightarrow> raise (TypeErr ''in <string>''))
     | None \<Rightarrow> ok True)"

definition context_integrity :: "henv \<Rightarrow> repair_context \<Rightarrow> string \<Rightarrow> hitem list \<Rightarrow> bool res" where
  "context_integrity env state issue h =
    (let s = join_with [LF] (map (plain_content env) h) in
     bindR (if issue \<noteq> [] then ok True else state_check state ''goal'' s) (\<lambda>goal.
     bindR (state_check state ''current_hypothesis'' s) (\<lambda>hyp.
     bindR (state_check state ''next_action'' s) (\<lambda>next_action.
       ok (goal \<and> hyp \<and> next_action \<and>
         (case al_get state ''verification'' of Some v \<Rightarrow> \<not> truthy v \<or> contains ''verif'' (casefold s) | None \<Rightarrow> True))))))"

definition STATE_HEADER :: string where
  "STATE_HEADER = utf8 [228, 191, 174, 229, 164, 141, 231, 138, 182, 230, 128, 129, 239, 188, 136, 229, 189, 147, 229, 137, 141,
     228, 187, 187, 229, 138, 161, 228, 186, 139, 229, 174, 158, 228, 188, 152, 229, 133, 136, 239, 188, 155, 229, 142, 134, 229,
     143, 178, 232, 174, 176, 229, 191, 134, 228, 187, 133, 228, 189, 156, 229, 128, 153, 233, 128, 137, 239, 188, 137, 58, 10]"

definition render_repair_context :: "henv \<Rightarrow> nat \<Rightarrow> repair_context \<Rightarrow> string" where
  "render_repair_context env max_chars state =
    (let compact = filter (\<lambda>kv. snd kv \<notin> {JStr [], JArr [], JObj []}) state in
     if compact = [] then [] else STATE_HEADER @ first_chars max_chars (he_dumps env (JObj compact)))"

definition state_item :: "string \<Rightarrow> hitem" where
  "state_item s = (system_item s)\<lparr>hi_repair := True\<rparr>"

definition restore_state :: "henv \<Rightarrow> repair_context option \<Rightarrow> string \<Rightarrow> hitem list \<Rightarrow> hitem list res" where
  "restore_state env memory issue h =
    (case memory of
       None \<Rightarrow> ok h
     | Some state \<Rightarrow> bindR (context_integrity env state issue h) (\<lambda>fine.
         let s = render_repair_context env 2400 state in
         ok (if \<not> fine \<and> s \<noteq> [] then state_item s # h else h)))"

subsection \<open>The pipeline\<close>

definition early_stages :: "henv \<Rightarrow> int \<Rightarrow> tier_policy \<Rightarrow> hitem list \<Rightarrow> hitem list res" where
  "early_stages env window tp h =
    (let cur = (if tp_protect tp then tp_turn tp else None) in
     bindR (l0_tier_guard env tp h) (\<lambda>h0.
     bindR (l2_snip env window cur (tp_tail tp) (l1_budget_reduction env h0)) (\<lambda>h2.
     bindR (l3_microcompact env window cur (tp_tail tp) h2) (\<lambda>h3.
       l4_collapse env window cur (tp_tail tp) h3))))"

definition run_compression_pipeline ::
  "henv \<Rightarrow> summarizer option \<Rightarrow> int option \<Rightarrow> int \<Rightarrow> tier_policy \<Rightarrow> bool \<Rightarrow> repair_context option \<Rightarrow> string \<Rightarrow> hitem list \<Rightarrow>
     (string, string) alist \<Rightarrow> hitem list res \<times> (string, string) alist" where
  "run_compression_pipeline env su trigger window tp allow memory issue h cache =
    (case early_stages env window tp h of
       Inl e \<Rightarrow> (Inl e, cache)
     | Inr h4 \<Rightarrow>
        (case l5_auto_compact env su trigger window (if tp_protect tp then tp_turn tp else None) allow h4 cache of
           (m, cache') \<Rightarrow> (bindR m (restore_state env memory issue), cache')))"

definition compression_violations :: "henv \<Rightarrow> hitem list \<Rightarrow> hitem list \<Rightarrow> string list" where
  "compression_violations env original projected =
    dedup (concat (map (\<lambda>x.
        (if hi_role x = ''tool'' \<and> hi_compact x \<noteq> None \<and> starts_with (plain_content env x) ''[observation:'' \<and> hi_obs x = []
         then [''compact_tool_missing_reference''] else []) @
        (if hi_repair x \<and> strip_text (plain_content env x) = [] then [''empty_repair_state''] else [])) projected) @
      (if (\<exists>x \<in> set original. hi_obs x \<noteq> []) \<and>
          \<not> (\<exists>x \<in> set projected. hi_obs x \<noteq> [] \<and> hi_obs x \<in> hi_obs ` set original) \<and>
          \<not> (\<exists>x \<in> set projected. hi_compact x \<noteq> None)
       then [''observation_provenance_lost''] else []))"

subsection \<open>Fitting keeps the pinned groups and the pairing\<close>

lemma l5_pinned_set: "set (l5_pinned env cur gs) = {i. i < length gs \<and> (first_user_group gs = Some i \<or> pinned_group env cur (gs ! i))}"
  by (auto simp: l5_pinned_def)

lemma select_keeps: "set sel \<subseteq> set (select_group env window gs m omitted items sel i)"
  by (auto simp: select_group_def)

lemma selection_keeps: "set sel \<subseteq> set (foldl (select_group env window gs m omitted items) sel is)"
  by (induction "is" arbitrary: sel) (auto dest: subsetD[OF select_keeps])

lemma selection_fits:
  "count_history env (render_groups gs omitted items sel) \<le> window \<Longrightarrow>
     count_history env (render_groups gs omitted items (foldl (select_group env window gs m omitted items) sel is)) \<le> window"
  by (induction "is" arbitrary: sel) (auto simp: select_group_def)

lemma picked_subseq: "subseq (picked gs sel) gs"
proof (induction gs rule: rev_induct)
  case (snoc g gs)
  have "picked (gs @ [g]) sel = picked gs sel @ (if length gs \<in> set sel then [g] else [])"
    by (auto simp: picked_def nth_append)
  moreover have "subseq (if length gs \<in> set sel then [g] else []) [g]" by simp
  ultimately show ?case using list_emb_append_mono[OF snoc] by metis
qed (simp add: picked_def)

lemma picked_set: "set (picked gs sel) = {gs ! i | i. i < length gs \<and> i \<in> set sel}"
  by (auto simp: picked_def)

lemma picked_paired:
  assumes "interaction_groups env h = Inr gs"
  shows "settle {} (concat (picked gs sel)) = Some {}" "subseq (all_calls (concat (picked gs sel))) (all_calls h)"
proof -
  note gs = groups_ok[OF assms]
  have "\<forall>g \<in> set (picked gs sel). settle {} g = Some {}" using gs by (auto simp: picked_set)
  then show "settle {} (concat (picked gs sel)) = Some {}" by (rule settle_concat)
  show "subseq (all_calls (concat (picked gs sel))) (all_calls h)"
    using all_calls_subseq[OF picked_subseq[of gs sel]] gs by simp
qed

lemma omission_ids [simp]: "result_ids (omission_marker l i) = []" "call_ids (omission_marker l i) = []"
  "result_ids (summary_marker s) = []" "call_ids (summary_marker s) = []"
  by (simp_all add: omission_marker_def summary_marker_def system_item_def result_ids_def call_ids_def item_blocks_def)

lemma render_paired:
  assumes "interaction_groups env h = Inr gs"
  shows "paired (render_groups gs omitted items sel)"
  using picked_paired[OF assms, of sel] groups_ok[OF assms] bad_ids_subseq[OF picked_paired(2)[OF assms, of sel]]
  by (auto simp: paired_def render_groups_def Let_def settle_append)

lemma render_split:
  "\<exists>notice. render_groups gs omitted items sel = concat (picked gs sel) @ notice \<and>
     (notice = [] \<or> (\<exists>l k. notice = [omission_marker l k]))"
  by (cases "int (length gs) - int (length sel) + omitted \<noteq> 0 \<or> items \<noteq> 0") (auto simp: render_groups_def Let_def)

lemma fit_result:
  assumes "fit_l5_groups env window cur m omitted items h = Inr out"
  obtains gs sel where "interaction_groups env h = Inr gs" "out = render_groups gs omitted items sel"
    "set (l5_pinned env cur gs) \<subseteq> set sel" "count_history env out \<le> window"
proof -
  obtain gs where gs: "interaction_groups env h = Inr gs"
      "count_history env (render_groups gs omitted items (l5_pinned env cur gs)) \<le> window"
      "out = render_groups gs omitted items
         (foldl (select_group env window gs m omitted items) (l5_pinned env cur gs) (rev [0..<length gs]))"
    using assms by (auto simp: fit_l5_groups_def Let_def bindR_ok_iff split: if_splits)
  then show ?thesis using that selection_keeps selection_fits by blast
qed

lemma fit_ok:
  assumes "fit_l5_groups env window cur m omitted items h = Inr out"
  shows "count_history env out \<le> window" "paired out"
    "x \<in> set h \<Longrightarrow> is_repair_state_item env x \<Longrightarrow> x \<in> set out"
proof -
  obtain gs sel where f: "interaction_groups env h = Inr gs" "out = render_groups gs omitted items sel"
    "set (l5_pinned env cur gs) \<subseteq> set sel" "count_history env out \<le> window"
    using fit_result[OF assms] .
  then show "count_history env out \<le> window" "paired out" using render_paired by simp_all
  show "x \<in> set out" if "x \<in> set h" "is_repair_state_item env x"
  proof -
    have "x \<in> set (concat gs)" using groups_ok[OF f(1)] that(1) by simp
    then obtain g where g: "g \<in> set gs" "x \<in> set g" by auto
    then obtain i where i: "i < length gs" "gs ! i = g" by (metis in_set_conv_nth)
    have "i \<in> set sel" using f(3) i g(2) that(2) by (auto simp: l5_pinned_set pinned_group_def)
    then have "g \<in> set (picked gs sel)" using i by (auto simp: picked_set)
    then show ?thesis unfolding f(2) render_groups_def Let_def using g(2) by auto
  qed
qed

lemma py_int_whole [simp]: "py_int (of_int w) = w"
  by (simp add: py_int_def)

lemma default_trigger [simp]:
  "(case trig of Some t \<Rightarrow> t | None \<Rightarrow> compression_threshold 1 window) = (case trig of Some t \<Rightarrow> t | None \<Rightarrow> window)"
  by (cases trig) (simp_all add: compression_threshold_def)

lemma summarized:
  assumes "summarize_history env su window cur allow fits h old recent cache = (Inr out, cache')"
  shows "fits \<and> out = h \<or> (\<exists>omitted items s. fit_l5_groups env window cur None omitted items (summary_marker s # recent) = Inr out)"
  using assms
  by (auto simp: summarize_history_def use_summary_def bindR_ok_iff split: if_splits sum.splits prod.splits)

text \<open>Either the history is returned as it is, or complete groups were fitted: of the history without
  its old summaries, or of a new summary and the groups that were not summarized.\<close>

lemma l5_cases:
  assumes "l5_auto_compact env su trig window cur allow h cache = (Inr out, cache')"
  obtains (same) "out = h" "count_history env h \<le> (case trig of Some t \<Rightarrow> t | None \<Rightarrow> window)"
  | (fitted) gs m omitted items pre where
      "interaction_groups env (filter (\<lambda>x. \<not> is_summary env x \<and> \<not> hi_omission x) h) = Inr gs"
      "fit_l5_groups env window cur m omitted items pre = Inr out"
      "\<And>x. x \<in> set (concat (picked gs (l5_pinned env cur gs))) \<Longrightarrow> x \<in> set pre"
proof (cases "count_history env h \<le> (case trig of Some t \<Rightarrow> t | None \<Rightarrow> window) \<and> \<not> (\<exists>x \<in> set h. is_summary env x)")
  case True
  then have "out = h" using assms by (simp add: l5_auto_compact_def Let_def)
  then show ?thesis using True same by blast
next
  case False
  let ?trig = "case trig of Some t \<Rightarrow> t | None \<Rightarrow> window"
  let ?w = "filter (\<lambda>x. \<not> is_summary env x \<and> \<not> hi_omission x) h"
  note run = assms[unfolded l5_auto_compact_def Let_def default_trigger if_not_P[OF False]]
  obtain gs where gs: "interaction_groups env ?w = Inr gs"
    using run by (cases "interaction_groups env ?w") auto
  let ?pin = "l5_pinned env cur gs"
  let ?old = "old_groups ?pin gs"
  let ?recent = "concat (map (\<lambda>i. gs ! i) (filter (\<lambda>i. i \<notin> set ?old) [0..<length gs]))"
  obtain m c where tried: "summarize_history env su window cur allow (count_history env h \<le> ?trig) h
      (concat (picked gs ?old)) ?recent cache = (m, c)" by fastforce
  have unpinned: "i \<notin> set ?pin" if "i \<in> set ?old" for i
    using that set_take_subset by (fastforce simp: old_groups_def Let_def)
  have recent: "x \<in> set ?recent" if "x \<in> set (concat (picked gs ?pin))" for x
    using that unpinned by (fastforce simp: picked_def)
  have whole: "x \<in> set ?w" if "x \<in> set (concat (picked gs ?pin))" for x
  proof -
    have "x \<in> set (concat gs)" using that by (auto simp: picked_set)
    then show ?thesis using groups_ok[OF gs] by simp
  qed
  have over: "\<not> count_history env (concat (picked gs ?pin)) > window"
    using run gs by auto
  show ?thesis
  proof (cases m)
    case (Inr o1)
    then have "out = o1" using run gs over tried by simp
    then consider "count_history env h \<le> ?trig" "out = h"
      | omitted items t where "fit_l5_groups env window cur None omitted items (summary_marker t # ?recent) = Inr out"
      using summarized tried Inr by blast
    then show ?thesis
    proof cases
      case 1
      then show ?thesis using same by blast
    next
      case 2
      then show ?thesis using fitted[OF gs] recent by fastforce
    qed
  next
    case (Inl e)
    then have "\<exists>omitted items. fit_l5_groups env window cur (Some 8) omitted items ?w = Inr out"
      using run gs over tried by (cases e) auto
    then show ?thesis using fitted[OF gs] whole by blast
  qed
qed

lemma l5_ok:
  assumes "l5_auto_compact env su trig window cur allow h cache = (Inr out, cache')" "paired h"
  shows "count_history env out \<le> max window (case trig of Some t \<Rightarrow> t | None \<Rightarrow> window)" "paired out"
    "x \<in> set h \<Longrightarrow> is_repair_state_item env x \<Longrightarrow> \<not> is_summary env x \<Longrightarrow> \<not> hi_omission x \<Longrightarrow> x \<in> set out"
proof -
  have "count_history env out \<le> max window (case trig of Some t \<Rightarrow> t | None \<Rightarrow> window) \<and> paired out \<and>
    (x \<in> set h \<longrightarrow> is_repair_state_item env x \<longrightarrow> \<not> is_summary env x \<longrightarrow> \<not> hi_omission x \<longrightarrow> x \<in> set out)" for x
    using assms(1)
  proof (cases rule: l5_cases)
    case same
    then show ?thesis using assms(2) by auto
  next
    case (fitted gs m omitted items pre)
    have "x \<in> set out" if x: "x \<in> set h" "is_repair_state_item env x" "\<not> is_summary env x" "\<not> hi_omission x"
    proof -
      have "x \<in> set (concat gs)" using groups_ok[OF fitted(1)] x by simp
      then obtain g where g: "g \<in> set gs" "x \<in> set g" by auto
      then obtain i where i: "i < length gs" "gs ! i = g" by (metis in_set_conv_nth)
      have "i \<in> set (l5_pinned env cur gs)" using i g(2) x(2) by (auto simp: l5_pinned_set pinned_group_def)
      then have "g \<in> set (picked gs (l5_pinned env cur gs))" using i by (auto simp: picked_set)
      then have "x \<in> set pre" using fitted(3) g(2) by auto
      then show ?thesis using fit_ok(3)[OF fitted(2)] x(2) by blast
    qed
    then show ?thesis using fit_ok(1,2)[OF fitted(2)] by auto
  qed
  then show "count_history env out \<le> max window (case trig of Some t \<Rightarrow> t | None \<Rightarrow> window)" "paired out"
    "x \<in> set h \<Longrightarrow> is_repair_state_item env x \<Longrightarrow> \<not> is_summary env x \<Longrightarrow> \<not> hi_omission x \<Longrightarrow> x \<in> set out"
    by blast+
qed

lemma groups_err: "interaction_groups env h = Inl e \<Longrightarrow> e = pair_mismatch"
proof -
  have "foldR (group_item env) h g = Inl e \<Longrightarrow> e = pair_mismatch" for g
    by (induction h arbitrary: g) (auto simp: bindR_err_iff group_item_def Let_def split: if_splits)
  then show "interaction_groups env h = Inl e \<Longrightarrow> e = pair_mismatch"
    by (auto simp: interaction_groups_def bindR_err_iff split: if_splits)
qed

lemma early_ok:
  assumes "early_stages env window tp h = Inr h4"
  shows "paired h4" "x \<in> set h \<Longrightarrow> is_repair_state_item env x \<Longrightarrow> kept_in h4 x"
proof -
  let ?cur = "if tp_protect tp then tp_turn tp else None"
  obtain h0 h2 h3 where st: "l0_tier_guard env tp h = Inr h0"
      "l2_snip env window ?cur (tp_tail tp) (l1_budget_reduction env h0) = Inr h2"
      "l3_microcompact env window ?cur (tp_tail tp) h2 = Inr h3" "l4_collapse env window ?cur (tp_tail tp) h3 = Inr h4"
    using assms by (auto simp: early_stages_def Let_def bindR_ok_iff)
  show "paired h4"
    using l4_paired[OF st(4)] l3_paired[OF st(3)] l2_paired[OF st(2)] l1_paired l0_paired[OF st(1)] by blast
  show "kept_in h4 x" if x: "x \<in> set h" "is_repair_state_item env x"
  proof -
    have "x \<in> set h2" using l2_keeps_state[OF st(2) l1_keeps_state[OF l0_keeps_state[OF st(1) x] x(2)] x(2)] .
    then obtain y where y: "y \<in> set h3" "same_entry x y" using l3_keeps_state[OF st(3) _ x(2)] by (auto simp: kept_in_def)
    then have "y \<in> set h4" using l4_keeps_state[OF st(4) y(1)] same_entry_fields(1)[OF y(2)] x(2) by simp
    then show ?thesis using y(2) by (auto simp: kept_in_def)
  qed
qed

lemma state_ids [simp]: "result_ids (state_item s) = []" "call_ids (state_item s) = []"
  by (simp_all add: state_item_def system_item_def result_ids_def call_ids_def item_blocks_def)

lemma restore_cases:
  "restore_state env memory issue h = Inr out \<Longrightarrow> out = h \<or> memory \<noteq> None \<and> (\<exists>s. out = state_item s # h)"
  by (auto simp: restore_state_def bindR_ok_iff Let_def split: option.splits if_splits)

text \<open>C3. The projection of a history is safe to send.  A history whose tool results do not answer
  open tool calls is refused.  Otherwise, whatever L0 to L5 drop, stub, collapse, summarize or trim,
  and whatever the summarizing model answers: in a returned projection every tool result still
  follows its call and every call has its results; every repair-state record of the history is in it
  unchanged (up to the number L3 gives an entry); and it fits the window, apart from the repair
  state put in front when the projection lost it.\<close>

theorem compression_projection_safe:
  assumes "run_compression_pipeline env su None window tp allow memory issue h cache = (m, cache')"
  shows "(\<not> paired h \<longrightarrow> m = Inl pair_mismatch) \<and>
    (\<forall>out. m = Inr out \<longrightarrow> paired out \<and>
      (\<forall>x \<in> set h. is_repair_state_item env x \<and> \<not> is_summary env x \<and> \<not> hi_omission x \<longrightarrow> kept_in out x) \<and>
      (\<exists>core. count_history env core \<le> window \<and> (out = core \<or> memory \<noteq> None \<and> (\<exists>s. out = state_item s # core))))"
proof (intro conjI impI allI)
  assume "\<not> paired h"
  then have "interaction_groups env h = Inl pair_mismatch"
    using groups_ok_iff groups_err by (cases "interaction_groups env h") auto
  then show "m = Inl pair_mismatch"
    using assms by (auto simp: run_compression_pipeline_def early_stages_def l0_tier_guard_def)
next
  fix out assume "m = Inr out"
  then obtain h4 core where e: "early_stages env window tp h = Inr h4"
      and l5: "l5_auto_compact env su None window (if tp_protect tp then tp_turn tp else None) allow h4 cache = (Inr core, cache')"
      and r: "restore_state env memory issue core = Inr out"
    using assms by (auto simp: run_compression_pipeline_def bindR_ok_iff split: sum.splits prod.splits)
  note ok = l5_ok[OF l5 early_ok(1)[OF e]]
  have out: "out = core \<or> memory \<noteq> None \<and> (\<exists>s. out = state_item s # core)" using restore_cases[OF r] .
  then show "paired out" using ok(2) by (auto simp: paired_def)
  show "\<exists>core. count_history env core \<le> window \<and> (out = core \<or> memory \<noteq> None \<and> (\<exists>s. out = state_item s # core))"
    using ok(1) out by auto
  have "kept_in core x" if x: "x \<in> set h" "is_repair_state_item env x" "\<not> is_summary env x" "\<not> hi_omission x" for x
  proof -
    obtain y where y: "y \<in> set h4" "same_entry x y" using early_ok(2)[OF e x(1,2)] by (auto simp: kept_in_def)
    then have "y \<in> set core" using ok(3)[OF y(1)] same_entry_fields[OF y(2)] x by simp
    then show ?thesis using y(2) by (auto simp: kept_in_def)
  qed
  then show "\<forall>x \<in> set h. is_repair_state_item env x \<and> \<not> is_summary env x \<and> \<not> hi_omission x \<longrightarrow> kept_in out x"
    using out by (auto simp: kept_in_def)
qed

text \<open>C30. Trimming is exact: interactions are fitted whenever the pinned ones (the first user request,
  the current turn, repair state and summaries) fit with their omission notice; then the result fits
  the window, holds all pinned interactions, whole interactions only and in their order; otherwise
  the request is blocked.\<close>

theorem window_fit_exact:
  assumes "interaction_groups env h = Inr gs"
  shows "case fit_l5_groups env window cur m omitted items h of
      Inl e \<Rightarrow> e = over_budget \<and> count_history env (render_groups gs omitted items (l5_pinned env cur gs)) > window
    | Inr out \<Rightarrow> count_history env (render_groups gs omitted items (l5_pinned env cur gs)) \<le> window \<and>
        count_history env out \<le> window \<and>
        (\<exists>kept notice. out = concat kept @ notice \<and> subseq kept gs \<and> (notice = [] \<or> (\<exists>l k. notice = [omission_marker l k])) \<and>
           (\<forall>i < length gs. first_user_group gs = Some i \<or> pinned_group env cur (gs ! i) \<longrightarrow> gs ! i \<in> set kept))"
proof (cases "fit_l5_groups env window cur m omitted items h")
  case (Inl e)
  then show ?thesis using assms by (auto simp: fit_l5_groups_def Let_def split: if_splits)
next
  case (Inr out)
  obtain sel where f: "out = render_groups gs omitted items sel" "set (l5_pinned env cur gs) \<subseteq> set sel"
      "count_history env out \<le> window"
    using fit_result[OF Inr] assms by auto
  have fits: "count_history env (render_groups gs omitted items (l5_pinned env cur gs)) \<le> window"
    using Inr assms by (auto simp: fit_l5_groups_def Let_def split: if_splits)
  have pins: "\<forall>i < length gs. first_user_group gs = Some i \<or> pinned_group env cur (gs ! i) \<longrightarrow> gs ! i \<in> set (picked gs sel)"
  proof (intro allI impI)
    fix i assume i: "i < length gs" "first_user_group gs = Some i \<or> pinned_group env cur (gs ! i)"
    then have "i \<in> set (l5_pinned env cur gs)" unfolding l5_pinned_set by blast
    then have "i \<in> set sel" using f(2) by blast
    then show "gs ! i \<in> set (picked gs sel)" using i(1) unfolding picked_set mem_Collect_eq
      by (intro exI[of _ i] conjI refl)
  qed
  obtain notice where notice: "out = concat (picked gs sel) @ notice" "notice = [] \<or> (\<exists>l k. notice = [omission_marker l k])"
    using render_split f(1) by blast
  show ?thesis
    unfolding Inr sum.case
    by (intro conjI exI[of _ "picked gs sel"] exI[of _ notice] fits f(3) notice picked_subseq pins)
qed

text \<open>A failed summary sticks.  The answer of the model is cached before it is checked, so when a
  summary fails after the model has answered, every later attempt on the same history fails in the
  same way without asking the model again, whatever it would answer now.\<close>

theorem failed_summary_sticks:
  assumes "summarize_history env (Some s) window cur allow fits h old recent cache = (Inl e, cache')" "cache' \<noteq> cache"
    and "su_input s' = su_input s"
  shows "summarize_history env (Some s') window cur allow fits h old recent cache' = (Inl e, cache')"
proof -
  obtain previous prompt refs lost raw where p: "allow" "read_summaries env h = Inr previous" "\<not> (fits \<and> length previous = 1)"
      "\<not> (old = [] \<and> previous = [])" "build_summary_prompt env (summary_input_limit env (Some s)) old previous = Inr (prompt, refs, lost)"
      "ask_summary (Some s) (summary_key env h old) prompt cache = (Inr raw, cache')"
      "use_summary env window cur h recent refs lost raw = Inl e"
  proof -
    have unasked: "c = cache" if "ask_summary (Some s) key prompt cache = (Inl e, c)" for key prompt e c
      using that by (auto simp: ask_summary_def split: option.splits sum.splits)
    show thesis
      using assms(1,2) that unfolding summarize_history_def
      by (auto dest: unasked split: if_splits sum.splits prod.splits)
  qed
  have "al_get cache' (summary_key env h old) = Some raw"
    using p(6) assms(2) by (auto simp: ask_summary_def split: option.splits sum.splits if_splits)
  then have "ask_summary (Some s') (summary_key env h old) prompt cache' = (Inr raw, cache')"
    by (simp add: ask_summary_def)
  moreover have "summary_input_limit env (Some s') = summary_input_limit env (Some s)"
    using assms(3) by (simp add: summary_input_limit_def)
  ultimately show ?thesis using p(1-5,7) by (auto simp: summarize_history_def)
qed

subsection \<open>Small histories\<close>

definition demo_policy :: tier_policy where
  "demo_policy = \<lparr>tp_allowed = [], tp_pin_roles = [''user''], tp_drop_rejected = True, tp_drop_empty = True,
     tp_drop_low = True, tp_turn = None, tp_protect = True, tp_tail = 10\<rparr>"

theorem compression_projection_safe_witness:
  "fst (run_compression_pipeline length_env None None 100 demo_policy True None [] [result_item ''a'' ''x''] []) = Inl pair_mismatch"
proof -
  have "\<not> paired [result_item ''a'' ''x'']"
    by (simp add: paired_def result_ids_def item_defs item_blocks_def)
  then show ?thesis using compression_projection_safe[OF surjective_pairing] by blast
qed

lemma demo_first_user: "l5_pinned length_env None [take 3 demo_history, drop 3 demo_history] = [0]"
  by code_simp

theorem window_fit_exact_witness:
  "\<exists>out. fit_l5_groups length_env 200 None (Some 8) 0 0 demo_history = Inr out \<and> count_history length_env out \<le> 200"
proof -
  have "count_history length_env (render_groups [take 3 demo_history, drop 3 demo_history] 0 0 [0]) \<le> 200"
    by code_simp
  then show ?thesis
    using window_fit_exact[OF demo_groups, where window = 200 and cur = None and m = "Some 8" and omitted = 0 and items = 0] demo_first_user by (auto split: sum.splits)
qed

definition parrot :: "string \<Rightarrow> summarizer" where
  "parrot s = \<lparr>su_call = \<lambda>prompt. ok s, su_input = None\<rparr>"

definition flat_env :: henv where
  "flat_env = length_env\<lparr>he_count := \<lambda>s. 1\<rparr>"

lemma demo_failure:
  "summarize_history flat_env (Some (parrot ''no json'')) 100 None True False demo_history demo_history [] [] =
     (Inl (ValueError ''summary_invalid_json''), [(summary_key flat_env demo_history demo_history, ''no json'')])"
  by code_simp

theorem failed_summary_sticks_witness:
  "fst (summarize_history flat_env (Some (parrot ''{}'')) 100 None True False demo_history demo_history []
     [(summary_key flat_env demo_history demo_history, ''no json'')]) = Inl (ValueError ''summary_invalid_json'')"
proof -
  have "su_input (parrot ''{}'') = su_input (parrot ''no json'')" by (simp add: parrot_def)
  from failed_summary_sticks[OF demo_failure _ this] show ?thesis by simp
qed

end
