(* ===== verification/Json.thy ===== *)
theory Json
  imports Prelude
begin

text \<open>
  JSON values as the durable records of \<open>agent_runtime/plan_runtime\<close> hold them.  A dictionary is
  its list of entries in key order: the records are written with \<open>sort_keys\<close>, and equality of
  dictionaries ignores the order.  \<open>dget\<close> is \<open>d.get(k)\<close> (\<open>None\<close> for a missing key), \<open>dict_at\<close> is
  \<open>d[k]\<close> with its \<open>KeyError\<close>, \<open>jput\<close> is \<open>d[k] = v\<close>, \<open>jdel\<close> is \<open>d.pop(k, ...)\<close>, \<open>jtruthy\<close> is \<open>bool(v)\<close>.
  A digest is an argument: a function from values to the hexadecimal text of their hash.
\<close>

datatype jvalue =
    JNull
  | JBool bool
  | JInt int
  | JReal real
  | JStr string
  | JList "jvalue list"
  | JObj "(string \<times> jvalue) list"

type_synonym jdict = "(string \<times> jvalue) list"
type_synonym jdigest = "jvalue \<Rightarrow> string"

fun jtruthy :: "jvalue \<Rightarrow> bool" where
  "jtruthy JNull = False"
| "jtruthy (JBool b) = b"
| "jtruthy (JInt i) = (i \<noteq> 0)"
| "jtruthy (JReal r) = (r \<noteq> 0)"
| "jtruthy (JStr s) = (s \<noteq> [])"
| "jtruthy (JList xs) = (xs \<noteq> [])"
| "jtruthy (JObj d) = (d \<noteq> [])"

fun jput :: "string \<Rightarrow> jvalue \<Rightarrow> jdict \<Rightarrow> jdict" where
  "jput k v [] = [(k, v)]"
| "jput k v ((k', v') # d) =
     (if k = k' then (k, v) # d
      else if k < k' then (k, v) # (k', v') # d
      else (k', v') # jput k v d)"

definition jdel :: "string \<Rightarrow> jdict \<Rightarrow> jdict" where
  "jdel k d = filter (\<lambda>kv. fst kv \<noteq> k) d"

definition dget_or :: "jdict \<Rightarrow> string \<Rightarrow> jvalue \<Rightarrow> jvalue" where
  "dget_or d k v = (case map_of d k of Some w \<Rightarrow> w | None \<Rightarrow> v)"

abbreviation dget :: "jdict \<Rightarrow> string \<Rightarrow> jvalue" where
  "dget d k \<equiv> dget_or d k JNull"

definition dict_at :: "jdict \<Rightarrow> string \<Rightarrow> jvalue res" where
  "dict_at d k = (case map_of d k of Some w \<Rightarrow> ok w | None \<Rightarrow> raise (KeyError k))"

text \<open>A value used as a dictionary, list or string by the code; anything else has no such
  method.\<close>

fun as_dict :: "jvalue \<Rightarrow> jdict res" where
  "as_dict (JObj d) = ok d"
| "as_dict v = raise (AttributeError ''get'')"

fun as_list :: "jvalue \<Rightarrow> jvalue list res" where
  "as_list (JList xs) = ok xs"
| "as_list v = raise (TypeErr ''not iterable as a list'')"

fun as_str :: "jvalue \<Rightarrow> string res" where
  "as_str (JStr s) = ok s"
| "as_str v = raise (TypeErr ''str expected'')"

fun as_int :: "jvalue \<Rightarrow> int res" where
  "as_int (JInt i) = ok i"
| "as_int v = raise (TypeErr ''int expected'')"

fun as_real :: "jvalue \<Rightarrow> real res" where
  "as_real (JReal r) = ok r"
| "as_real (JInt i) = ok (of_int i)"
| "as_real v = raise (TypeErr ''float expected'')"

fun mapR :: "('a \<Rightarrow> 'b res) \<Rightarrow> 'a list \<Rightarrow> 'b list res" where
  "mapR f [] = ok []"
| "mapR f (x # xs) = bindR (f x) (\<lambda>y. bindR (mapR f xs) (\<lambda>ys. ok (y # ys)))"

text \<open>\<open>isinstance(v, str)\<close> with a value left after \<open>strip()\<close>.\<close>

definition py_blank :: "char \<Rightarrow> bool" where
  "py_blank c = (let n = (of_char c :: nat) in (9 \<le> n \<and> n \<le> 13) \<or> (28 \<le> n \<and> n \<le> 32))"

fun nonblank :: "jvalue \<Rightarrow> bool" where
  "nonblank (JStr s) = list_ex (\<lambda>c. \<not> py_blank c) s"
| "nonblank v = False"

fun is_str :: "jvalue \<Rightarrow> bool" where
  "is_str (JStr s) = True"
| "is_str v = False"

fun int_of :: "jvalue \<Rightarrow> int" where
  "int_of (JInt i) = i"
| "int_of v = 0"

definition strs :: "string list \<Rightarrow> jvalue" where
  "strs xs = JList (map JStr xs)"

definition sealed_with :: "jdigest \<Rightarrow> string \<Rightarrow> jdict \<Rightarrow> jdict" where
  "sealed_with jd k d = jput k (JStr (jd (JObj d))) d"

subsection \<open>Lemmas\<close>

lemma map_of_jput [simp]: "map_of (jput k v d) = (map_of d)(k \<mapsto> v)"
  by (induction k v d rule: jput.induct) (auto simp: fun_eq_iff)

lemma map_of_jdel [simp]: "map_of (jdel k d) k' = (if k' = k then None else map_of d k')"
  by (induction d) (auto simp: jdel_def)

lemma dget_jput [simp]: "dget_or (jput k v d) k' w = (if k' = k then v else dget_or d k' w)"
  by (simp add: dget_or_def)

lemma dget_jdel [simp]: "dget_or (jdel k d) k' w = (if k' = k then w else dget_or d k' w)"
  by (simp add: dget_or_def)

lemma dict_at_jput [simp]: "dict_at (jput k v d) k' = (if k' = k then ok v else dict_at d k')"
  by (simp add: dict_at_def)

lemma dict_at_jdel [simp]:
  "dict_at (jdel k d) k' = (if k' = k then raise (KeyError k) else dict_at d k')"
  by (simp add: dict_at_def)

lemma jdel_jput [simp]: "k \<notin> fst ` set d \<Longrightarrow> jdel k (jput k v d) = d"
  by (induction k v d rule: jput.induct) (auto simp: jdel_def intro: filter_True)

lemma jdel_jdel [simp]: "jdel k (jdel k d) = jdel k d"
  by (simp add: jdel_def)

lemma not_in_jdel [simp]: "k \<notin> fst ` set (jdel k d)"
  by (auto simp: jdel_def)

lemma jput_ne [simp]: "jput k v d \<noteq> []"
  by (induction k v d rule: jput.induct) auto

lemma foldR_single [simp]: "foldR f [x] s = f x s"
  by (cases "f x s") auto

lemma bindR_foldR_Nil [simp]: "bindR m (foldR f []) = m"
  by (cases m) auto

lemma sealed_with_get [simp]: "dget_or (sealed_with jd k d) k w = JStr (jd (JObj d))"
  by (simp add: sealed_with_def)

lemma sealed_with_other [simp]: "k' \<noteq> k \<Longrightarrow> dget_or (sealed_with jd k d) k' w = dget_or d k' w"
  by (simp add: sealed_with_def)

lemma jdel_sealed [simp]: "k \<notin> fst ` set d \<Longrightarrow> jdel k (sealed_with jd k d) = d"
  by (simp add: sealed_with_def)

lemma mapR_ok_iff: "mapR f xs = Inr ys \<longleftrightarrow> list_all2 (\<lambda>x y. f x = Inr y) xs ys"
proof (induction xs arbitrary: ys)
  case (Cons x xs)
  then show ?case by (cases ys) (auto simp: monad_simps)
qed (simp; auto)

lemma mapR_mem: "mapR f xs = Inr ys \<Longrightarrow> x \<in> set xs \<Longrightarrow> \<exists>y \<in> set ys. f x = Inr y"
  by (induction xs arbitrary: ys) (auto simp: bindR_ok_iff)

lemma mapR_map: "(\<And>x. x \<in> set xs \<Longrightarrow> f (g x) = Inr (h x)) \<Longrightarrow> mapR f (map g xs) = Inr (map h xs)"
  by (induction xs) auto

lemma as_str_iff [simp]: "as_str v = Inr s \<longleftrightarrow> v = JStr s" by (cases v) auto
lemma as_dict_iff [simp]: "as_dict v = Inr d \<longleftrightarrow> v = JObj d" by (cases v) auto
lemma as_list_iff [simp]: "as_list v = Inr xs \<longleftrightarrow> v = JList xs" by (cases v) auto
lemma as_int_iff [simp]: "as_int v = Inr i \<longleftrightarrow> v = JInt i" by (cases v) auto

lemma as_strs [simp]: "mapR as_str (map JStr xs) = ok xs"
  by (induction xs) auto

lemma is_str_iff: "is_str v \<longleftrightarrow> (\<exists>s. v = JStr s)" by (cases v) auto

lemma nonblank_str: "nonblank v \<Longrightarrow> is_str v" by (cases v) auto

end
