(* ===== verification/PlanConstraints.thy ===== *)
theory PlanConstraints
  imports Json
begin

text \<open>
  \<open>agent_runtime/plan_runtime/constraint_records.py\<close>: the append-only revisions of the explicit
  constraints of a task, each sealed by its checksum, and the active constraints derived from them.
  The records refine an ordered dictionary of constraints: adding, replacing and revoking a
  record are the operations of the dictionary.
\<close>

subsection \<open>The chain of revisions\<close>

text \<open>Setting the previous revision to superseded changes the record in the history; its older
  revisions have that status already.\<close>

definition supersede :: "string \<Rightarrow> string \<Rightarrow> jdict list \<Rightarrow> jdict list" where
  "supersede field key history =
     map (\<lambda>r. if dget r field = JStr key then jput ''status'' (JStr ''superseded'') r else r) history"

definition superseded_ref :: "string \<Rightarrow> string \<Rightarrow> jdict option \<Rightarrow> jvalue" where
  "superseded_ref field key previous =
     (case previous of Some p \<Rightarrow> JObj [(field, JStr key), (''revision'', dget p ''revision'')] | None \<Rightarrow> JNull)"

definition next_revision :: "jdict option \<Rightarrow> int" where
  "next_revision previous = (case previous of Some p \<Rightarrow> int_of (dget p ''revision'') + 1 | None \<Rightarrow> 1)"

definition constraint_ok :: "string \<Rightarrow> jdict option \<Rightarrow> jdict \<Rightarrow> bool" where
  "constraint_ok key previous r \<longleftrightarrow>
     dget r ''revision'' = JInt (next_revision previous) \<and>
     dget r ''status'' \<in> {JStr ''active'', JStr ''revoked''} \<and>
     \<not> (dget r ''status'' = JStr ''revoked'' \<and> previous = None) \<and>
     \<not> (case previous of Some p \<Rightarrow> dget p ''status'' = JStr ''revoked'' | None \<Rightarrow> False) \<and>
     nonblank (dget r ''statement'') \<and>
     dget r ''source_kind'' \<in> {JStr ''user'', JStr ''runtime''} \<and>
     (case dget r ''source_refs'' of JList refs \<Rightarrow> refs \<noteq> [] | _ \<Rightarrow> False) \<and>
     dget r ''supersedes_ref'' = superseded_ref ''constraint_id'' key previous"

type_synonym revisions = "jdict list \<times> (string, jdict) alist"

definition constraint_step :: "jdigest \<Rightarrow> jdict \<Rightarrow> revisions \<Rightarrow> revisions res" where
  "constraint_step jd raw hl =
    (let r = jdel ''checksum'' raw; c = dget_or raw ''checksum'' (JStr []) in
     bindR (guardR (c = JStr (jd (JObj r))) (ValueError ''constraint_checksum_invalid'')) (\<lambda>_.
     (let r = jput ''checksum'' c r in
      case dget r ''constraint_id'' of
        JStr key \<Rightarrow>
         (let previous = al_get (snd hl) key in
          bindR (guardR (key \<noteq> [] \<and> constraint_ok key previous r) (ValueError ''constraint_chain_invalid'')) (\<lambda>_.
            ok ((if previous = None then fst hl else supersede ''constraint_id'' key (fst hl)) @ [r],
                al_put key r (snd hl))))
      | _ \<Rightarrow> raise (ValueError ''constraint_chain_invalid''))))"

definition constraint_history :: "jdigest \<Rightarrow> jdict list \<Rightarrow> revisions res" where
  "constraint_history jd records = foldR (constraint_step jd) records ([], [])"

definition active_of :: "(string, jdict) alist \<Rightarrow> (string \<times> jvalue) list" where
  "active_of latest =
     map (\<lambda>(k, r). (k, dget r ''statement'')) (filter (\<lambda>(k, r). dget r ''status'' = JStr ''active'') latest)"

definition active_constraints :: "jdigest \<Rightarrow> jdict list \<Rightarrow> jvalue list res" where
  "active_constraints jd records =
     bindR (constraint_history jd records) (\<lambda>hl. ok (map snd (active_of (snd hl))))"

definition constraint_record ::
  "string \<Rightarrow> string \<Rightarrow> jdict option \<Rightarrow> jvalue \<Rightarrow> jvalue \<Rightarrow> jvalue list \<Rightarrow> jdict" where
  "constraint_record action key previous statement source_kind source_refs =
     [(''constraint_id'', JStr key),
      (''revision'', JInt (next_revision previous)),
      (''source_kind'', source_kind),
      (''source_refs'', JList source_refs),
      (''statement'', (case previous of Some p \<Rightarrow> if action = ''revoke'' then dget p ''statement'' else statement
                         | None \<Rightarrow> statement)),
      (''status'', JStr (if action = ''revoke'' then ''revoked'' else ''active'')),
      (''supersedes_ref'', superseded_ref ''constraint_id'' key previous)]"

text \<open>\<open>fresh\<close> is the identifier drawn by \<open>new_id("constraint")\<close>.\<close>

definition new_constraint ::
  "jdigest \<Rightarrow> string \<Rightarrow> jdict list \<Rightarrow> string \<Rightarrow> jvalue list \<Rightarrow> jvalue \<Rightarrow> jvalue \<Rightarrow> string option \<Rightarrow> int option
     \<Rightarrow> jdict res" where
  "new_constraint jd fresh records action source_refs source_kind statement constraint_id expected_revision =
     bindR (constraint_history jd records) (\<lambda>hl.
     (let previous = (case constraint_id of Some k \<Rightarrow> al_get (snd hl) k | None \<Rightarrow> None) in
      bindR (guardR (action \<in> {''add'', ''replace'', ''revoke''}) (ValueError ''constraint_action_invalid'')) (\<lambda>_.
      bindR (guardR
        (if action = ''add'' then constraint_id = None \<and> expected_revision = None
         else (case previous of
                 Some p \<Rightarrow> dget p ''status'' = JStr ''active'' \<and> expected_revision \<noteq> None \<and>
                   dget p ''revision'' = JInt (the expected_revision)
               | None \<Rightarrow> False))
        (ValueError ''constraint_revision_conflict'')) (\<lambda>_.
      (let key = (case constraint_id of Some k \<Rightarrow> if k = [] then fresh else k | None \<Rightarrow> fresh);
           r = sealed_with jd ''checksum''
                 (constraint_record action key previous statement source_kind source_refs) in
       bindR (constraint_history jd (records @ [r])) (\<lambda>_. ok r))))))"

subsection \<open>Appending a revision\<close>

lemma constraint_history_snoc:
  "constraint_history jd (records @ [r]) =
     bindR (constraint_history jd records) (constraint_step jd r)"
  by (cases "foldR (constraint_step jd) records ([], [])") (simp_all add: constraint_history_def foldR_append)

lemma constraint_step_ok:
  "constraint_step jd raw hl = Inr hl' \<longleftrightarrow>
     (\<exists>key. dget raw ''constraint_id'' = JStr key \<and> key \<noteq> [] \<and>
       dget_or raw ''checksum'' (JStr []) = JStr (jd (JObj (jdel ''checksum'' raw))) \<and>
       (let r = jput ''checksum'' (dget_or raw ''checksum'' (JStr [])) (jdel ''checksum'' raw);
            previous = al_get (snd hl) key
        in constraint_ok key previous r \<and>
           hl' = ((if previous = None then fst hl else supersede ''constraint_id'' key (fst hl)) @ [r],
             al_put key r (snd hl))))"
  unfolding constraint_step_def Let_def bindR_guardR_ok
  by (cases "dget raw ''constraint_id''") (auto simp: dget_or_def)

definition chain_keyed :: "(string, jdict) alist \<Rightarrow> bool" where
  "chain_keyed latest \<longleftrightarrow> distinct (al_keys latest) \<and> [] \<notin> set (al_keys latest)"

lemma constraint_history_keyed:
  assumes "constraint_history jd records = Inr hl" shows "chain_keyed (snd hl)"
proof -
  have step: "chain_keyed (snd v)" if "chain_keyed (snd u)" "constraint_step jd raw u = Inr v" for raw u v
    using that by (auto simp: constraint_step_ok chain_keyed_def Let_def)
  have base: "chain_keyed (snd (([], []) :: revisions))" by (simp add: chain_keyed_def al_keys_def)
  show ?thesis
    by (rule foldR_invariant[where I = "\<lambda>hl. chain_keyed (snd hl)", OF assms[unfolded constraint_history_def] base])
       (rule step)
qed

lemma active_of_simps [simp]:
  "active_of [] = []"
  "active_of ((k, r) # m) =
     (if dget r ''status'' = JStr ''active'' then (k, dget r ''statement'') # active_of m else active_of m)"
  "active_of (m @ m') = active_of m @ active_of m'"
  by (simp_all add: active_of_def)

lemma active_of_keys: "set (al_keys (active_of m)) \<subseteq> set (al_keys m)"
  by (force simp: active_of_def al_keys_def)

lemma active_of_replace:
  "al_get m k = Some p \<Longrightarrow> dget p ''status'' = JStr ''active'' \<Longrightarrow> dget r ''status'' = JStr ''active'' \<Longrightarrow>
     active_of (al_put k r m) = al_put k (dget r ''statement'') (active_of m)"
  by (induction m) (auto split: if_splits)

lemma active_of_revoke:
  "distinct (al_keys m) \<Longrightarrow> dget r ''status'' \<noteq> JStr ''active'' \<Longrightarrow> k \<in> set (al_keys m) \<Longrightarrow>
     active_of (al_put k r m) = al_del k (active_of m)"
proof (induction m)
  case (Cons e m)
  obtain k' r' where e: "e = (k', r')" by (cases e)
  have "al_del k (active_of m) = active_of m" if "k \<notin> set (al_keys m)"
    using that active_of_keys[of m] by (auto simp: al_del_def al_keys_def intro!: filter_True)
  with Cons e show ?case by (auto simp: al_keys_def al_del_def)
qed (simp add: al_keys_def)

lemma new_constraint_ok:
  assumes "new_constraint jd fresh records action refs kind stmt cid rv = Inr r"
  obtains hl key where
    "constraint_history jd records = Inr hl" "chain_keyed (snd hl)"
    "key = (case cid of Some k \<Rightarrow> k | None \<Rightarrow> fresh)" "key \<noteq> []"
    "action = ''add'' \<and> cid = None \<and> al_get (snd hl) key = None \<or>
     action \<in> {''replace'', ''revoke''} \<and> cid = Some key \<and>
       (\<exists>p. al_get (snd hl) key = Some p \<and> dget p ''status'' = JStr ''active'' \<and>
            rv \<noteq> None \<and> dget p ''revision'' = JInt (the rv))"
    "r = sealed_with jd ''checksum'' (constraint_record action key
           (case cid of Some k \<Rightarrow> al_get (snd hl) k | None \<Rightarrow> None) stmt kind refs)"
    "constraint_history jd (records @ [r]) =
       Inr ((if al_get (snd hl) key = None then fst hl else supersede ''constraint_id'' key (fst hl)) @ [r],
            al_put key r (snd hl))"
proof -
  from assms obtain hl where hl: "constraint_history jd records = Inr hl"
    by (auto simp: new_constraint_def bindR_ok_iff)
  let ?prev = "case cid of Some k \<Rightarrow> al_get (snd hl) k | None \<Rightarrow> None"
  let ?key = "case cid of Some k \<Rightarrow> if k = [] then fresh else k | None \<Rightarrow> fresh"
  let ?rec = "constraint_record action ?key ?prev stmt kind refs"
  note chain_keyed = constraint_history_keyed[OF hl]
  have parts: "action \<in> {''add'', ''replace'', ''revoke''}"
    "if action = ''add'' then cid = None \<and> rv = None
         else (case ?prev of Some p \<Rightarrow> dget p ''status'' = JStr ''active'' \<and> rv \<noteq> None \<and>
                   dget p ''revision'' = JInt (the rv)
               | None \<Rightarrow> False)"
    "r = sealed_with jd ''checksum'' ?rec"
    and "\<exists>hl'. constraint_history jd (records @ [r]) = Inr hl'"
    using assms by (auto simp: new_constraint_def hl Let_def bindR_ok_iff)
  then obtain hl' where hl': "constraint_history jd (records @ [r]) = Inr hl'" by blast
  then have step: "constraint_step jd r hl = Inr hl'" by (simp add: constraint_history_snoc hl)
  have fresh_key: "''checksum'' \<notin> fst ` set ?rec" by (simp add: constraint_record_def)
  have canon: "jdel ''checksum'' r = ?rec" "jput ''checksum'' (dget_or r ''checksum'' (JStr [])) (jdel ''checksum'' r) = r"
    using fresh_key by (simp_all add: parts(3)) (simp add: sealed_with_def)
  have field: "dget r f = dget ?rec f" if "f \<noteq> ''checksum''" for f
    using that by (simp add: parts(3))
  have "dget r ''constraint_id'' = JStr ?key"
    by (simp add: field) (simp add: constraint_record_def dget_or_def)
  with step canon have key: "?key \<noteq> []"
    and okr: "constraint_ok ?key (al_get (snd hl) ?key) r"
    and hl'': "hl' = ((if al_get (snd hl) ?key = None then fst hl
        else supersede ''constraint_id'' ?key (fst hl)) @ [r], al_put ?key r (snd hl))"
    by (auto simp: constraint_step_ok Let_def)
  have sup: "superseded_ref ''constraint_id'' ?key ?prev = superseded_ref ''constraint_id'' ?key (al_get (snd hl) ?key)"
    using okr by (simp add: constraint_ok_def field) (simp add: constraint_record_def dget_or_def)
  have ne: "al_get (snd hl) [] = None" using chain_keyed by (simp add: chain_keyed_def al_get_None_key)
  have key': "?key = (case cid of Some k \<Rightarrow> k | None \<Rightarrow> fresh)" if "action = ''add'' \<or> ?prev \<noteq> None"
    using that parts(2) ne by (auto split: option.splits if_splits)
  have "action = ''add'' \<or> ?prev \<noteq> None" using parts(2) by (cases ?prev) (simp_all split: if_splits)
  note k = key'[OF this]
  have cases: "action = ''add'' \<and> cid = None \<and> al_get (snd hl) ?key = None \<or>
     action \<in> {''replace'', ''revoke''} \<and> cid = Some ?key \<and>
       (\<exists>p. al_get (snd hl) ?key = Some p \<and> dget p ''status'' = JStr ''active'' \<and>
            rv \<noteq> None \<and> dget p ''revision'' = JInt (the rv))"
  proof (cases "action = ''add''")
    case True
    then have "cid = None" using parts(2) by simp
    moreover have "al_get (snd hl) ?key = None"
      using sup \<open>cid = None\<close> by (simp add: superseded_ref_def split: option.splits)
    ultimately show ?thesis using True by blast
  next
    case False
    then obtain p where p: "?prev = Some p" "dget p ''status'' = JStr ''active''" "rv \<noteq> None"
      "dget p ''revision'' = JInt (the rv)" using parts(2) by (auto split: option.splits)
    then obtain c where c: "cid = Some c" "al_get (snd hl) c = Some p" by (auto split: option.splits)
    with ne have "c \<noteq> []" by auto
    with c p False parts(1) show ?thesis by auto
  qed
  show ?thesis
    using that[OF hl chain_keyed k key cases parts(3)] hl' hl'' by simp
qed

text \<open>The ordered dictionary of active constraints a list of records stands for.\<close>

definition constraint_view :: "jdigest \<Rightarrow> jdict list \<Rightarrow> (string, jvalue) alist" where
  "constraint_view jd records =
     (case constraint_history jd records of Inr hl \<Rightarrow> active_of (snd hl) | Inl e \<Rightarrow> [])"

text \<open>C18. A record that \<open>new_constraint\<close> returns extends the valid chain to a valid chain, and on the
  ordered dictionary of active constraints it is the named operation: an added constraint
  comes last under the new identifier, a replacement keeps the place of the active constraint it
  replaces, a revocation removes it. The record carries the next revision of its constraint
  and is only issued for the revision the caller expected.\<close>

theorem constraint_revisions_refine:
  assumes "new_constraint jd fresh records action refs kind stmt cid rv = ok r"
  shows "active_constraints jd records = ok (map snd (constraint_view jd records)) \<and>
    active_constraints jd (records @ [r]) = ok (map snd (constraint_view jd (records @ [r]))) \<and>
    constraint_view jd (records @ [r]) =
      (if action = ''add'' then constraint_view jd records @ [(fresh, stmt)]
       else if action = ''replace'' then al_put (the cid) stmt (constraint_view jd records)
       else al_del (the cid) (constraint_view jd records)) \<and>
    (if action = ''add'' then dget r ''revision'' = JInt 1
     else dget r ''revision'' = JInt (the rv + 1) \<and>
          the cid \<in> set (al_keys (constraint_view jd records)))"
proof -
  obtain hl key where hl: "constraint_history jd records = Inr hl" "chain_keyed (snd hl)"
    and key: "key = (case cid of Some k \<Rightarrow> k | None \<Rightarrow> fresh)" "key \<noteq> []"
    and cases: "action = ''add'' \<and> cid = None \<and> al_get (snd hl) key = None \<or>
     action \<in> {''replace'', ''revoke''} \<and> cid = Some key \<and>
       (\<exists>p. al_get (snd hl) key = Some p \<and> dget p ''status'' = JStr ''active'' \<and>
            rv \<noteq> None \<and> dget p ''revision'' = JInt (the rv))"
    and r: "r = sealed_with jd ''checksum'' (constraint_record action key
           (case cid of Some k \<Rightarrow> al_get (snd hl) k | None \<Rightarrow> None) stmt kind refs)"
    and new: "constraint_history jd (records @ [r]) =
       Inr ((if al_get (snd hl) key = None then fst hl else supersede ''constraint_id'' key (fst hl)) @ [r],
            al_put key r (snd hl))"
    by (rule new_constraint_ok[OF assms])
  have view: "constraint_view jd records = active_of (snd hl)"
    "constraint_view jd (records @ [r]) = active_of (al_put key r (snd hl))"
    by (simp_all add: constraint_view_def hl new)
  have lists: "active_constraints jd records = ok (map snd (active_of (snd hl)))"
    "active_constraints jd (records @ [r]) = ok (map snd (active_of (al_put key r (snd hl))))"
    by (simp_all add: active_constraints_def hl new)
  note rec = r constraint_record_def dget_or_def[of "[_]"] dget_or_def[of "_ # _"]
  from cases show ?thesis
  proof
    assume a: "action = ''add'' \<and> cid = None \<and> al_get (snd hl) key = None"
    then have "al_put key r (snd hl) = snd hl @ [(key, r)]"
      by (intro al_put_fresh) (simp add: al_get_None_key)
    with a key lists view show ?thesis by (simp add: rec next_revision_def)
  next
    assume a: "action \<in> {''replace'', ''revoke''} \<and> cid = Some key \<and>
       (\<exists>p. al_get (snd hl) key = Some p \<and> dget p ''status'' = JStr ''active'' \<and>
            rv \<noteq> None \<and> dget p ''revision'' = JInt (the rv))"
    then obtain p where p: "al_get (snd hl) key = Some p" "dget p ''status'' = JStr ''active''"
      "dget p ''revision'' = JInt (the rv)" by blast
    have mem: "key \<in> set (al_keys (active_of (snd hl)))"
      using map_of_SomeD[OF p(1)] p(2) by (force simp: active_of_def al_keys_def)
    have old: "key \<in> set (al_keys (snd hl))" by (rule al_get_Some_key[OF p(1)])
    show ?thesis
    proof (cases "action = ''replace''")
      case True
      with a p have "dget r ''status'' = JStr ''active''" "dget r ''statement'' = stmt"
        "dget r ''revision'' = JInt (the rv + 1)" by (simp_all add: rec next_revision_def)
      with True a mem lists view active_of_replace[OF p(1,2)] show ?thesis by simp
    next
      case False
      with a have act: "action = ''revoke''" by simp
      with a p have "dget r ''status'' \<noteq> JStr ''active''" "dget r ''revision'' = JInt (the rv + 1)"
        by (simp_all add: rec next_revision_def)
      with act a mem lists view active_of_revoke[OF _ _ old] hl(2) show ?thesis by (simp add: chain_keyed_def)
    qed
  qed
qed

definition demo_digest :: jdigest where
  "demo_digest v = ''d''"

definition demo_constraint :: "jdict list" where
  "demo_constraint =
     [sealed_with demo_digest ''checksum''
       (constraint_record ''add'' ''k'' None (JStr ''keep the API'') (JStr ''user'') [JStr ''m1''])]"

theorem constraint_revisions_refine_witness:
  "constraint_view demo_digest demo_constraint = [(''k'', JStr ''keep the API'')] \<and>
   (\<exists>r. new_constraint demo_digest ''n'' demo_constraint ''revoke'' [JStr ''m2''] (JStr ''user'') JNull
          (Some ''k'') (Some 1) = ok r \<and>
        active_constraints demo_digest (demo_constraint @ [r]) = ok [])"
proof -
  have "is_ok (new_constraint demo_digest ''n'' demo_constraint ''revoke'' [JStr ''m2''] (JStr ''user'')
      JNull (Some ''k'') (Some 1))" by code_simp
  then obtain r where r: "new_constraint demo_digest ''n'' demo_constraint ''revoke'' [JStr ''m2''] (JStr ''user'')
      JNull (Some ''k'') (Some 1) = ok r" by (auto simp: is_ok_iff)
  have v: "constraint_view demo_digest demo_constraint = [(''k'', JStr ''keep the API'')]" by code_simp
  show ?thesis using constraint_revisions_refine[OF r] r v by (auto simp: al_del_def)
qed

end
