(* ===== verification/PlanLongTask.thy ===== *)
theory PlanLongTask
  imports PlanConstraints
begin

text \<open>
  The durable state of a long task, \<open>LongTaskState\<close> of \<open>agent_runtime/plan_runtime/long_task.py\<close>,
  with the operations of \<open>LongTaskContext\<close> that change it.  \<open>from_dict\<close> converts with \<open>str\<close> and
  \<open>int\<close>; a field that holds a value of another type is refused here.  Unknown entries are dropped,
  as in the code.
\<close>

record long_task =
  lt_task :: string
  lt_run :: string
  lt_request :: string
  lt_constraints :: "string list"
  lt_records :: "jdict list"
  lt_request_ref :: jvalue
  lt_config :: string
  lt_context_rev :: int
  lt_decisions :: "jdict list"
  lt_node :: string
  lt_history :: "jdict list"
  lt_evidence :: "string list"
  lt_stale :: "string list"
  lt_rev :: int
  lt_schema :: string

definition long_task_dict :: "long_task \<Rightarrow> jdict" where
  "long_task_dict s =
     [(''configuration_checksum'', JStr (lt_config s)),
      (''constraint_records'', JList (map JObj (lt_records s))),
      (''context_revision'', JInt (lt_context_rev s)),
      (''current_node_id'', JStr (lt_node s)),
      (''evidence_refs'', strs (lt_evidence s)),
      (''hard_constraints'', strs (lt_constraints s)),
      (''key_decisions'', JList (map JObj (lt_decisions s))),
      (''node_history'', JList (map JObj (lt_history s))),
      (''original_request'', JStr (lt_request s)),
      (''original_request_ref'', lt_request_ref s),
      (''run_id'', JStr (lt_run s)),
      (''schema_version'', JStr (lt_schema s)),
      (''stale_evidence'', strs (lt_stale s)),
      (''state_revision'', JInt (lt_rev s)),
      (''task_id'', JStr (lt_task s))]"

definition text_field :: "jdict \<Rightarrow> string \<Rightarrow> string \<Rightarrow> string res" where
  "text_field d k dflt = as_str (dget_or d k (JStr dflt))"

definition texts_field :: "jdict \<Rightarrow> string \<Rightarrow> string list res" where
  "texts_field d k = bindR (as_list (dget_or d k (JList []))) (mapR as_str)"

definition dicts_field :: "jdict \<Rightarrow> string \<Rightarrow> jdict list res" where
  "dicts_field d k = bindR (as_list (dget_or d k (JList []))) (mapR as_dict)"

definition long_task_of :: "jdict \<Rightarrow> long_task res" where
  "long_task_of d =
     bindR (text_field d ''task_id'' []) (\<lambda>task.
     bindR (text_field d ''run_id'' []) (\<lambda>run.
     bindR (text_field d ''original_request'' []) (\<lambda>request.
     bindR (texts_field d ''hard_constraints'') (\<lambda>constraints.
     bindR (dicts_field d ''constraint_records'') (\<lambda>records.
     bindR (text_field d ''configuration_checksum'' []) (\<lambda>config.
     bindR (as_int (dget_or d ''context_revision'' (JInt 0))) (\<lambda>context_rev.
     bindR (dicts_field d ''key_decisions'') (\<lambda>decisions.
     bindR (text_field d ''current_node_id'' []) (\<lambda>node.
     bindR (dicts_field d ''node_history'') (\<lambda>history.
     bindR (texts_field d ''evidence_refs'') (\<lambda>evidence.
     bindR (texts_field d ''stale_evidence'') (\<lambda>stale.
     bindR (let v = dget_or d ''state_revision'' (JInt 0) in if jtruthy v then as_int v else ok 0) (\<lambda>rv.
     bindR (text_field d ''schema_version'' ''long-task-v1'') (\<lambda>schema.
       ok \<lparr>lt_task = task, lt_run = run, lt_request = request, lt_constraints = constraints,
           lt_records = records, lt_request_ref = dget_or d ''original_request_ref'' (JObj []),
           lt_config = config, lt_context_rev = context_rev, lt_decisions = decisions,
           lt_node = node, lt_history = history, lt_evidence = evidence, lt_stale = stale,
           lt_rev = rv, lt_schema = schema\<rparr>))))))))))))))"

definition long_task_seal :: "jdigest \<Rightarrow> long_task \<Rightarrow> jdict" where
  "long_task_seal jd s = sealed_with jd ''state_checksum'' (long_task_dict s)"

text \<open>What \<open>_persist_long_task_state\<close> writes to the journal: the state with its \<open>state_id\<close>.\<close>

definition long_task_durable :: "jdigest \<Rightarrow> string \<Rightarrow> long_task \<Rightarrow> jdict" where
  "long_task_durable jd sid s =
     sealed_with jd ''state_checksum'' (jput ''state_id'' (JStr sid) (long_task_dict s))"

definition long_task_verify :: "jdigest \<Rightarrow> jdict \<Rightarrow> long_task res" where
  "long_task_verify jd raw =
    (let checksum = dget_or raw ''state_checksum'' (JStr []); d = jdel ''state_checksum'' raw in
     bindR (guardR (jtruthy checksum \<and> checksum = JStr (jd (JObj d)))
       (ValueError ''long_task_state_checksum_invalid'')) (\<lambda>_.
     bindR (long_task_of d) (\<lambda>s.
     bindR (guardR (lt_task s \<noteq> [] \<and> lt_run s \<noteq> []) (ValueError ''long_task_state_identity_missing'')) (\<lambda>_.
     if lt_config s \<noteq> [] then
       bindR (active_constraints jd (lt_records s)) (\<lambda>active.
       bindR (guardR (map JStr (lt_constraints s) = active) (ValueError ''constraint_projection_mismatch'')) (\<lambda>_.
         ok s))
     else ok s))))"

subsection \<open>Changing the state\<close>

definition touch :: "long_task \<Rightarrow> long_task" where
  "touch s = s\<lparr>lt_rev := lt_rev s + 1\<rparr>"

definition record_fact ::
  "string \<Rightarrow> string \<Rightarrow> string \<Rightarrow> string \<Rightarrow> string list \<Rightarrow> long_task \<Rightarrow> long_task res" where
  "record_fact fresh note kind source refs s =
     bindR (guardR (kind \<in> {''source_review'', ''audit_note''}) (ValueError ''audit_fact_kind_invalid'')) (\<lambda>_.
       ok (touch (s\<lparr>lt_decisions := lt_decisions s @
         [[(''evidence_refs'', strs refs), (''fact'', JStr note), (''id'', JStr fresh),
           (''record_type'', JStr kind), (''source'', JStr source)]]\<rparr>)))"

definition set_node :: "string \<Rightarrow> string \<Rightarrow> long_task \<Rightarrow> long_task" where
  "set_node node_id status s =
     touch (s\<lparr>lt_node := node_id,
       lt_history := keep_last 100 (lt_history s @ [[(''node_id'', JStr node_id), (''status'', JStr status)]])\<rparr>)"

definition add_evidence :: "string list \<Rightarrow> long_task \<Rightarrow> long_task" where
  "add_evidence refs s =
     touch (s\<lparr>lt_evidence := dedup (lt_evidence s @ refs),
       lt_stale := filter (\<lambda>r. r \<notin> set refs) (lt_stale s)\<rparr>)"

text \<open>\<open>valid\<close> is the evidence check of the ledger, \<open>replacement\<close> the reference the fetcher returned.\<close>

definition refresh_evidence ::
  "(string \<Rightarrow> bool) \<Rightarrow> string \<Rightarrow> string \<Rightarrow> string \<Rightarrow> long_task \<Rightarrow> (string \<times> long_task) res" where
  "refresh_evidence valid fresh ref replacement s =
     bindR (guardR (ref \<in> set (lt_evidence s)) (ValueError ''unknown_evidence_ref'')) (\<lambda>_.
     bindR (guardR (replacement \<noteq> []) (ValueError ''evidence_refresh_empty'')) (\<lambda>_.
     bindR (guardR (replacement \<noteq> ref) (ValueError ''evidence_refresh_did_not_replace'')) (\<lambda>_.
     bindR (guardR (valid replacement) (ValueError ''evidence_refresh_not_valid'')) (\<lambda>_.
       ok (replacement, touch (s\<lparr>
         lt_evidence := map (\<lambda>item. if item = ref then replacement else item) (lt_evidence s),
         lt_stale := filter (\<lambda>item. item \<noteq> ref) (lt_stale s),
         lt_decisions := lt_decisions s @
           [[(''id'', JStr fresh), (''record_type'', JStr ''evidence_replacement''),
             (''replacement'', JStr replacement), (''supersedes'', JStr ref)]]\<rparr>))))))"

subsection \<open>Reading a sealed state back\<close>

lemma mapR_JObj [simp]: "mapR as_dict (map JObj xs) = ok xs"
  by (induction xs) auto

lemma field_jput [simp]:
  "f \<noteq> k \<Longrightarrow> text_field (jput k v d) f x = text_field d f x"
  "f \<noteq> k \<Longrightarrow> texts_field (jput k v d) f = texts_field d f"
  "f \<noteq> k \<Longrightarrow> dicts_field (jput k v d) f = dicts_field d f"
  by (simp_all add: text_field_def texts_field_def dicts_field_def)

lemma long_task_of_other [simp]:
  "long_task_of (jput ''state_id'' v d) = long_task_of d"
  by (simp add: long_task_of_def)

lemma long_task_of_dict [simp]: "long_task_of (long_task_dict s) = ok s"
  by (simp add: long_task_of_def long_task_dict_def dget_or_def text_field_def texts_field_def
      dicts_field_def strs_def)

definition restorable :: "jdigest \<Rightarrow> long_task \<Rightarrow> bool" where
  "restorable jd s \<longleftrightarrow> lt_task s \<noteq> [] \<and> lt_run s \<noteq> [] \<and>
     (lt_config s \<noteq> [] \<longrightarrow> active_constraints jd (lt_records s) = ok (map JStr (lt_constraints s)))"

lemma long_task_dict_keys [simp]:
  "''state_id'' \<notin> fst ` set (long_task_dict s)" "''state_checksum'' \<notin> fst ` set (long_task_dict s)"
  by (simp_all add: long_task_dict_def)

lemma set_jput: "fst ` set (jput k v d) = insert k (fst ` set d)"
  by (induction k v d rule: jput.induct) auto

lemma long_task_verify_seal:
  assumes "restorable jd s" "\<And>v. jd v \<noteq> []"
  shows "long_task_verify jd (long_task_seal jd s) = ok s"
    "long_task_verify jd (long_task_durable jd sid s) = ok s"
proof -
  have chk: "long_task_verify jd (sealed_with jd ''state_checksum'' d) = ok s"
    if d: "''state_checksum'' \<notin> fst ` set d" "long_task_of d = ok s" for d
    unfolding long_task_verify_def Let_def
    using assms d by (cases "lt_config s = []") (simp_all add: restorable_def guardR_def)
  show "long_task_verify jd (long_task_seal jd s) = ok s"
    unfolding long_task_seal_def by (rule chk) simp_all
  show "long_task_verify jd (long_task_durable jd sid s) = ok s"
    unfolding long_task_durable_def by (rule chk) (simp_all add: set_jput)
qed

end
