(* ===== verification/PlanJournal.thy ===== *)
theory PlanJournal
  imports PlanLongTask PlanModel
begin

text \<open>
  \<open>agent_runtime/plan_runtime/journal.py\<close>: the append-only journal of a plan with its checksum chain,
  the plans saved in it, and content-addressed blobs.  The table of events is the list of its rows in
  the order of their sequence numbers; writing and reading a payload as JSON text is the identity.
\<close>

subsection \<open>The chain of events\<close>

record event =
  ev_seq :: int
  ev_kind :: string
  ev_payload :: jdict
  ev_previous :: string
  ev_checksum :: string

record plan_store =
  ps_identity :: jdict
  ps_rows :: "event list"
  ps_blobs :: "(string, string) alist"

definition event_body :: "event \<Rightarrow> jvalue" where
  "event_body e = JObj [(''kind'', JStr (ev_kind e)), (''payload'', JObj (ev_payload e)),
     (''previous'', JStr (ev_previous e)), (''seq'', JInt (ev_seq e))]"

definition make_event :: "jdigest \<Rightarrow> int \<Rightarrow> string \<Rightarrow> string \<times> jdict \<Rightarrow> event" where
  "make_event jd seq previous entry =
    (let e = \<lparr>ev_seq = seq, ev_kind = fst entry, ev_payload = snd entry, ev_previous = previous, ev_checksum = []\<rparr>
     in e\<lparr>ev_checksum := jd (event_body e)\<rparr>)"

fun make_events :: "jdigest \<Rightarrow> int \<Rightarrow> string \<Rightarrow> (string \<times> jdict) list \<Rightarrow> event list" where
  "make_events jd seq previous [] = []"
| "make_events jd seq previous (entry # entries) =
    (let e = make_event jd seq previous entry
     in e # make_events jd (seq + 1) (ev_checksum e) entries)"

definition journal_tip :: "event list \<Rightarrow> int \<times> string" where
  "journal_tip rows = (if rows = [] then (1, []) else (ev_seq (last rows) + 1, ev_checksum (last rows)))"

definition append_many ::
  "jdigest \<Rightarrow> (string \<times> jdict) list \<Rightarrow> plan_store \<Rightarrow> int list \<times> plan_store" where
  "append_many jd entries st =
    (let new = make_events jd (fst (journal_tip (ps_rows st))) (snd (journal_tip (ps_rows st))) entries
     in (map ev_seq new, st\<lparr>ps_rows := ps_rows st @ new\<rparr>))"

definition append_event :: "jdigest \<Rightarrow> string \<Rightarrow> jdict \<Rightarrow> plan_store \<Rightarrow> int \<times> plan_store" where
  "append_event jd kind payload st =
    (let (seqs, st') = append_many jd [(kind, payload)] st in (hd seqs, st'))"

fun read_events :: "jdigest \<Rightarrow> int \<Rightarrow> string \<Rightarrow> event list \<Rightarrow> event list res" where
  "read_events jd n previous [] = ok []"
| "read_events jd n previous (e # rows) =
    (if ev_seq e \<noteq> n \<or> ev_previous e \<noteq> previous \<or> jd (event_body e) \<noteq> ev_checksum e
     then raise (ValueError ''journal_integrity_invalid'')
     else bindR (read_events jd (n + 1) (ev_checksum e) rows) (\<lambda>es. ok (e # es)))"

definition events :: "jdigest \<Rightarrow> plan_store \<Rightarrow> event list res" where
  "events jd st = read_events jd 1 [] (ps_rows st)"

text \<open>Opening the store of an identity on the rows and blobs found on disk.\<close>

definition open_store ::
  "jdigest \<Rightarrow> jdict \<Rightarrow> event list \<Rightarrow> (string, string) alist \<Rightarrow> plan_store res" where
  "open_store jd identity rows blobs =
    (let st = \<lparr>ps_identity = identity, ps_rows = rows, ps_blobs = blobs\<rparr> in
     bindR (events jd st) (\<lambda>history.
       if history \<noteq> [] then
         bindR (guardR (ev_kind (hd history) = ''identity'' \<and> ev_payload (hd history) = identity)
           (ValueError ''resume_identity_mismatch'')) (\<lambda>_. ok st)
       else ok (snd (append_event jd ''identity'' identity st))))"

definition latest :: "jdigest \<Rightarrow> string \<Rightarrow> string \<Rightarrow> plan_store \<Rightarrow> (jvalue, jdict) alist res" where
  "latest jd kind key st =
     bindR (events jd st) (\<lambda>es.
       foldR (\<lambda>e result. if ev_kind e = kind
           then bindR (dict_at (ev_payload e) key) (\<lambda>k. ok (al_put k (ev_payload e) result))
           else ok result) es [])"

subsection \<open>Plans in the journal\<close>

definition completion_json :: "completion \<Rightarrow> jvalue" where
  "completion_json c = JObj [(''evidence_refs'', strs (cp_refs c)), (''kind'', JStr (cp_kind c))]"

definition node_json :: "plan_node \<Rightarrow> jvalue" where
  "node_json n = JObj
     [(''arguments_json'', JStr (pn_args_json n)), (''attempt_id'', JStr (pn_attempt n)),
      (''completion'', JList (map completion_json (pn_completion n))),
      (''depends_on'', strs (pn_deps n)), (''ended_at'', JReal (pn_ended n)),
      (''failure'', JStr (pn_failure n)), (''input_evidence_refs'', strs (pn_inputs n)),
      (''kind'', JStr (pn_kind n)), (''node_id'', JStr (pn_id n)),
      (''objective'', JStr (pn_objective n)), (''output_evidence_refs'', strs (pn_outputs n)),
      (''receipt_refs'', strs (pn_receipts n)), (''side_effect'', JStr (pn_effect n)),
      (''started_at'', JReal (pn_started n)), (''status'', JStr (pn_status n)),
      (''tool_allowlist'', strs (pn_tools n)), (''tool_name'', JStr (pn_tool n))]"

definition plan_dict :: "plan \<Rightarrow> jdict" where
  "plan_dict p =
     [(''created_at'', JReal (plan_created p)), (''nodes'', JList (map node_json (plan_nodes p))),
      (''parent_plan_checksum'', JStr (plan_parent p)), (''plan_checksum'', JStr (plan_checksum p)),
      (''plan_id'', JStr (plan_pid p)), (''plan_version'', JInt (plan_version p)),
      (''replan_evidence_refs'', strs (plan_replan_refs p)), (''replan_reason'', JStr (plan_reason p)),
      (''run_id'', JStr (plan_run p)), (''schema_version'', JStr (plan_schema p)),
      (''session_id'', JStr (plan_session p)), (''state_revision'', JInt (plan_revision p)),
      (''status'', JStr (plan_status p)), (''task_id'', JStr (plan_task p)),
      (''workspace_id'', JStr (plan_workspace p))]"

text \<open>The checksum of a plan over the digest of the journal.\<close>

definition plan_digest :: "jdigest \<Rightarrow> digest" where
  "plan_digest jd p = jd (JObj (jdel ''plan_checksum'' (plan_dict p)))"

definition completion_of :: "jvalue \<Rightarrow> completion res" where
  "completion_of v =
     bindR (as_dict v) (\<lambda>d.
     bindR (bindR (dict_at d ''kind'') as_str) (\<lambda>k.
     bindR (texts_field d ''evidence_refs'') (\<lambda>refs. ok \<lparr>cp_kind = k, cp_refs = refs\<rparr>)))"

definition node_keywords :: "string list" where
  "node_keywords = [''node_id'', ''kind'', ''objective'', ''depends_on'', ''tool_allowlist'', ''side_effect'',
     ''completion'', ''input_evidence_refs'', ''output_evidence_refs'', ''status'', ''attempt_id'', ''failure'',
     ''receipt_refs'', ''started_at'', ''ended_at'', ''tool_name'', ''arguments_json'']"

definition plan_keywords :: "string list" where
  "plan_keywords = [''plan_id'', ''task_id'', ''run_id'', ''workspace_id'', ''session_id'', ''nodes'',
     ''schema_version'', ''plan_version'', ''state_revision'', ''created_at'', ''status'', ''plan_checksum'',
     ''parent_plan_checksum'', ''replan_reason'', ''replan_evidence_refs'']"

text \<open>Calling a data class with the entries of a dictionary: no unknown field, every field without
  a default present.\<close>

definition keywords_ok :: "string list \<Rightarrow> string list \<Rightarrow> jdict \<Rightarrow> unit res" where
  "keywords_ok allowed required d =
     guardR (list_all (\<lambda>kv. fst kv \<in> set allowed) d \<and> list_all (\<lambda>k. map_of d k \<noteq> None) required)
       (TypeErr ''__init__'')"

definition parse_node :: "jvalue \<Rightarrow> plan_node res" where
  "parse_node v =
     bindR (as_dict v) (\<lambda>d.
     bindR (bindR (as_list (dget_or d ''completion'' (JList []))) (mapR completion_of)) (\<lambda>completion.
     bindR (texts_field d ''depends_on'') (\<lambda>deps.
     bindR (texts_field d ''tool_allowlist'') (\<lambda>tools.
     bindR (texts_field d ''input_evidence_refs'') (\<lambda>inputs.
     bindR (texts_field d ''output_evidence_refs'') (\<lambda>outputs.
     bindR (texts_field d ''receipt_refs'') (\<lambda>receipts.
     bindR (keywords_ok node_keywords [''node_id'', ''kind'', ''objective''] d) (\<lambda>_.
     bindR (text_field d ''node_id'' []) (\<lambda>nid.
     bindR (text_field d ''kind'' []) (\<lambda>kind.
     bindR (text_field d ''objective'' []) (\<lambda>objective.
     bindR (text_field d ''side_effect'' ''read'') (\<lambda>effect.
     bindR (text_field d ''status'' ''pending'') (\<lambda>status.
     bindR (text_field d ''attempt_id'' []) (\<lambda>attempt.
     bindR (text_field d ''failure'' []) (\<lambda>failure.
     bindR (as_real (dget_or d ''started_at'' (JInt 0))) (\<lambda>started.
     bindR (as_real (dget_or d ''ended_at'' (JInt 0))) (\<lambda>ended.
     bindR (text_field d ''tool_name'' []) (\<lambda>tool.
     bindR (text_field d ''arguments_json'' ''{}'') (\<lambda>args.
       ok \<lparr>pn_id = nid, pn_kind = kind, pn_objective = objective, pn_deps = deps, pn_tools = tools,
           pn_effect = effect, pn_completion = completion, pn_inputs = inputs, pn_outputs = outputs,
           pn_status = status, pn_attempt = attempt, pn_failure = failure, pn_receipts = receipts,
           pn_started = started, pn_ended = ended, pn_tool = tool, pn_args_json = args\<rparr>)))))))))))))))))))"

text \<open>\<open>now\<close> is the clock read when the plan has no creation time.\<close>

definition plan_of :: "real \<Rightarrow> jdict \<Rightarrow> plan res" where
  "plan_of now d =
     bindR (bindR (bindR (dict_at d ''nodes'') as_list) (mapR parse_node)) (\<lambda>nodes.
     bindR (texts_field d ''replan_evidence_refs'') (\<lambda>replan_refs.
     bindR (keywords_ok plan_keywords [''plan_id'', ''task_id'', ''run_id'', ''workspace_id'', ''session_id''] d) (\<lambda>_.
     bindR (text_field d ''plan_id'' []) (\<lambda>pid.
     bindR (text_field d ''task_id'' []) (\<lambda>task.
     bindR (text_field d ''run_id'' []) (\<lambda>run.
     bindR (text_field d ''workspace_id'' []) (\<lambda>workspace.
     bindR (text_field d ''session_id'' []) (\<lambda>session.
     bindR (text_field d ''schema_version'' ''1'') (\<lambda>schema.
     bindR (as_int (dget_or d ''plan_version'' (JInt 1))) (\<lambda>version.
     bindR (as_int (dget_or d ''state_revision'' (JInt 0))) (\<lambda>revision.
     bindR (as_real (dget_or d ''created_at'' (JReal now))) (\<lambda>created.
     bindR (text_field d ''status'' ''active'') (\<lambda>status.
     bindR (text_field d ''plan_checksum'' []) (\<lambda>checksum.
     bindR (text_field d ''parent_plan_checksum'' []) (\<lambda>parent.
     bindR (text_field d ''replan_reason'' []) (\<lambda>reason.
       ok \<lparr>plan_pid = pid, plan_task = task, plan_run = run, plan_workspace = workspace,
           plan_session = session, plan_nodes = nodes, plan_schema = schema, plan_version = version,
           plan_revision = revision, plan_created = created, plan_status = status,
           plan_checksum = checksum, plan_parent = parent, plan_reason = reason,
           plan_replan_refs = replan_refs\<rparr>))))))))))))))))"

definition save_plan :: "jdigest \<Rightarrow> plan \<Rightarrow> plan_store \<Rightarrow> plan_store res" where
  "save_plan jd p st =
     bindR (guardR (plan_verify (plan_digest jd) p) (ValueError ''plan_checksum_invalid'')) (\<lambda>_.
       ok (snd (append_event jd ''plan'' (plan_dict p) st)))"

definition load_plan :: "jdigest \<Rightarrow> real \<Rightarrow> plan_store \<Rightarrow> plan option res" where
  "load_plan jd now st =
     bindR (events jd st) (\<lambda>es.
       case find (\<lambda>e. ev_kind e = ''plan'') (rev es) of
         None \<Rightarrow> ok None
       | Some e \<Rightarrow>
          bindR (plan_of now (ev_payload e)) (\<lambda>p.
          bindR (guardR (plan_verify (plan_digest jd) p) (ValueError ''plan_checksum_invalid'')) (\<lambda>_.
            ok (Some p))))"

subsection \<open>Blobs\<close>

text \<open>\<open>sha\<close> is the hexadecimal SHA-256 of a text; the files of the blob directory are a dictionary by
  name.\<close>

definition put_blob :: "(string \<Rightarrow> string) \<Rightarrow> string \<Rightarrow> plan_store \<Rightarrow> string \<times> plan_store" where
  "put_blob sha text st =
    (let key = sha text in
     (key, if al_get (ps_blobs st) key = None then st\<lparr>ps_blobs := al_put key text (ps_blobs st)\<rparr> else st))"

definition hex_digit :: "char \<Rightarrow> bool" where
  "hex_digit c \<longleftrightarrow> c \<in> set ''0123456789abcdef''"

definition get_blob :: "(string \<Rightarrow> string) \<Rightarrow> string \<Rightarrow> plan_store \<Rightarrow> string res" where
  "get_blob sha key st =
     bindR (guardR (length key = 64 \<and> list_all hex_digit key) (ValueError ''blob_reference_invalid'')) (\<lambda>_.
       case al_get (ps_blobs st) key of
         None \<Rightarrow> raise (OSErr key)
       | Some raw \<Rightarrow>
          bindR (guardR (sha raw = key) (ValueError ''blob_checksum_invalid'')) (\<lambda>_. ok raw))"

subsection \<open>The chain\<close>

fun chained :: "jdigest \<Rightarrow> int \<Rightarrow> string \<Rightarrow> event list \<Rightarrow> bool" where
  "chained jd n previous [] = True"
| "chained jd n previous (e # rows) \<longleftrightarrow>
     ev_seq e = n \<and> ev_previous e = previous \<and> ev_checksum e = jd (event_body e) \<and>
     chained jd (n + 1) (ev_checksum e) rows"

lemma read_events_ok [simp]: "read_events jd n prev rows = Inr es \<longleftrightarrow> es = rows \<and> chained jd n prev rows"
  by (induction jd n prev rows arbitrary: es rule: read_events.induct) (auto simp: monad_simps)

lemma events_ok [simp]: "events jd st = Inr es \<longleftrightarrow> es = ps_rows st \<and> chained jd 1 [] (ps_rows st)"
  by (simp add: events_def)

lemma chained_append:
  "chained jd n prev (xs @ ys) \<longleftrightarrow>
     chained jd n prev xs \<and>
     chained jd (n + int (length xs)) (if xs = [] then prev else ev_checksum (last xs)) ys"
  by (induction jd n prev xs rule: chained.induct) (auto simp: add.assoc add.commute)

lemma chained_seq: "chained jd n prev rows \<Longrightarrow> i < length rows \<Longrightarrow> ev_seq (rows ! i) = n + int i"
proof (induction jd n prev rows arbitrary: i rule: chained.induct)
  case (2 jd n prev e rows)
  then show ?case by (cases i) auto
qed simp

lemma chained_seqs:
  "chained jd n prev rows \<Longrightarrow> map ev_seq rows = map (\<lambda>i. n + int i) [0..<length rows]"
  by (rule nth_equalityI) (simp_all add: chained_seq)

lemma make_event_simps [simp]:
  "ev_seq (make_event jd n prev en) = n" "ev_kind (make_event jd n prev en) = fst en"
  "ev_payload (make_event jd n prev en) = snd en" "ev_previous (make_event jd n prev en) = prev"
  "ev_checksum (make_event jd n prev en) = jd (event_body (make_event jd n prev en))"
  by (simp_all add: make_event_def Let_def event_body_def)

lemma chained_make: "chained jd n prev (make_events jd n prev entries)"
  by (induction jd n prev entries rule: make_events.induct) (auto simp: Let_def)

lemma make_events_entries:
  "map (\<lambda>e. (ev_kind e, ev_payload e)) (make_events jd n prev entries) = entries"
  by (induction jd n prev entries rule: make_events.induct) (auto simp: Let_def)

lemma make_events_seqs:
  "map ev_seq (make_events jd n prev entries) = map (\<lambda>i. n + int i) [0..<length entries]"
proof (induction jd n prev entries rule: make_events.induct)
  case (2 jd n prev en entries)
  then show ?case
    by (simp add: Let_def map_upt_Suc add.assoc add.commute del: upt_Suc)
qed simp

lemma journal_tip_chained:
  assumes "chained jd 1 [] rows"
  shows "journal_tip rows = (1 + int (length rows), if rows = [] then [] else ev_checksum (last rows))"
  using chained_seq[OF assms, of "length rows - 1"]
  by (auto simp: journal_tip_def last_conv_nth)

text \<open>What an append does to a readable journal.\<close>

definition appended :: "jdigest \<Rightarrow> (string \<times> jdict) list \<Rightarrow> plan_store \<Rightarrow> event list" where
  "appended jd entries st = make_events jd (fst (journal_tip (ps_rows st))) (snd (journal_tip (ps_rows st))) entries"

lemma append_many_rows:
  "snd (append_many jd entries st) = st\<lparr>ps_rows := ps_rows st @ appended jd entries st\<rparr>"
  by (simp add: append_many_def appended_def Let_def)

lemma append_event_rows:
  "snd (append_event jd kind payload st) = st\<lparr>ps_rows := ps_rows st @ appended jd [(kind, payload)] st\<rparr>"
  by (simp add: append_event_def append_many_def appended_def Let_def)

lemma appended_entries: "map (\<lambda>e. (ev_kind e, ev_payload e)) (appended jd entries st) = entries"
  by (simp add: appended_def make_events_entries)

lemma appended_kinds: "map ev_kind (appended jd entries st) = map fst entries"
  using arg_cong[OF appended_entries, of "map fst"] by (simp add: comp_def)

lemma chained_appended:
  "chained jd 1 [] (ps_rows st) \<Longrightarrow> chained jd 1 [] (ps_rows st @ appended jd entries st)"
  by (simp add: chained_append appended_def journal_tip_chained chained_make)

text \<open>C32. The journal is append-only and gap-free: appending facts to a readable journal
  yields a readable journal that consists of the old events followed by exactly the new facts in order,
  numbered on from the last event, and these numbers are returned.\<close>

theorem journal_appends_facts:
  assumes "events jd st = ok es" "append_many jd entries st = (seqs, st')"
  shows "\<exists>new. events jd st' = ok (es @ new) \<and>
    map (\<lambda>e. (ev_kind e, ev_payload e)) new = entries \<and>
    seqs = map ev_seq new \<and> map ev_seq (es @ new) = map (\<lambda>i. 1 + int i) [0..<length (es @ new)]"
proof -
  have es: "es = ps_rows st" "chained jd 1 [] es" using assms(1) by auto
  have st': "ps_rows st' = es @ appended jd entries st" "seqs = map ev_seq (appended jd entries st)"
    using assms(2) by (auto simp: append_many_def appended_def es Let_def)
  have ch: "chained jd 1 [] (es @ appended jd entries st)" using chained_appended es by simp
  have "map ev_seq (es @ appended jd entries st) = map (\<lambda>i. 1 + int i) [0..<length (es @ appended jd entries st)]"
    by (rule chained_seqs[OF ch])
  with st' ch show ?thesis by (intro exI[of _ "appended jd entries st"]) (simp add: appended_entries)
qed

definition sum_digest :: jdigest where
  "sum_digest v = CHR ''x'' # (case v of JObj d \<Rightarrow> concat (map fst d) | _ \<Rightarrow> [])"

definition demo_store :: plan_store where
  "demo_store = snd (append_event sum_digest ''identity'' [(''run_id'', JStr ''r''), (''task_id'', JStr ''t'')]
     \<lparr>ps_identity = [(''run_id'', JStr ''r''), (''task_id'', JStr ''t'')], ps_rows = [], ps_blobs = []\<rparr>)"

lemma demo_store_reads: "events sum_digest demo_store = ok (ps_rows demo_store)"
  by (simp add: demo_store_def append_event_rows appended_def chained_make journal_tip_def)

theorem journal_appends_facts_witness:
  "\<exists>new. events sum_digest (snd (append_many sum_digest [(''note'', []), (''note'', [])] demo_store)) =
     ok (ps_rows demo_store @ new) \<and> length new = 2"
proof -
  obtain new where new: "events sum_digest (snd (append_many sum_digest [(''note'', []), (''note'', [])] demo_store)) =
      ok (ps_rows demo_store @ new)"
    and entries: "map (\<lambda>e. (ev_kind e, ev_payload e)) new = [(''note'', []), (''note'', [])]"
    using journal_appends_facts[OF demo_store_reads prod.collapse[symmetric]] by blast
  have "length new = 2" using arg_cong[OF entries, of length] by (simp only: length_map list.size)
  with new show ?thesis by blast
qed

subsection \<open>Reading back plans and blobs\<close>

lemma completion_of_json [simp]: "completion_of (completion_json c) = ok c"
  by (simp add: completion_of_def completion_json_def dict_at_def texts_field_def dget_or_def strs_def)

lemma mapR_inverse: "(\<And>x. x \<in> set xs \<Longrightarrow> f (g x) = ok x) \<Longrightarrow> mapR f (map g xs) = ok xs"
  by (induction xs) auto

lemmas field_defs = text_field_def texts_field_def dget_or_def strs_def

lemma node_of_json [simp]: "parse_node (node_json n) = ok n"
proof -
  have "keywords_ok node_keywords [''node_id'', ''kind'', ''objective'']
      (case node_json n of JObj d \<Rightarrow> d | _ \<Rightarrow> []) = ok ()"
    by (simp add: keywords_ok_def node_json_def node_keywords_def guardR_def)
  then show ?thesis
    by (simp add: parse_node_def node_json_def field_defs mapR_inverse)
qed

lemma plan_of_dict [simp]: "plan_of now (plan_dict p) = ok p"
proof -
  have "keywords_ok plan_keywords [''plan_id'', ''task_id'', ''run_id'', ''workspace_id'', ''session_id'']
      (plan_dict p) = ok ()"
    by (simp add: keywords_ok_def plan_dict_def plan_keywords_def guardR_def)
  then show ?thesis
    by (simp add: plan_of_def plan_dict_def field_defs mapR_inverse dict_at_def)
qed

lemma find_append: "find P (xs @ ys) = (case find P xs of None \<Rightarrow> find P ys | Some x \<Rightarrow> Some x)"
  by (induction xs) auto

lemma find_None_map: "list_all (\<lambda>x. \<not> P (f x)) xs \<Longrightarrow> find (\<lambda>x. P (f x)) (rev xs) = None"
  by (auto simp: find_None_iff list_all_iff)

text \<open>C36. A saved plan is the one loaded: after \<open>save_plan\<close> on a readable journal, and after any
  facts of other kinds, \<open>load_plan\<close> returns exactly this plan with its nodes, whatever the time; only a
  plan with a valid seal is saved.\<close>

theorem saved_plan_reloads:
  assumes "events jd st = ok es" "save_plan jd p st = ok st'"
    and "list_all (\<lambda>entry. fst entry \<noteq> ''plan'') later"
  shows "plan_verify (plan_digest jd) p \<and>
    load_plan jd now (snd (append_many jd later st')) = ok (Some p)"
proof -
  from assms(1,2) have ch: "chained jd 1 [] (ps_rows st)" and sealed: "plan_verify (plan_digest jd) p"
    and st': "st' = snd (append_event jd ''plan'' (plan_dict p) st)"
    by (auto simp: save_plan_def)
  define saved where "saved = appended jd [(''plan'', plan_dict p)] st"
  define rest where "rest = appended jd later st'"
  have rows': "ps_rows st' = ps_rows st @ saved" by (simp add: st' append_event_rows saved_def)
  have ch': "chained jd 1 [] (ps_rows st')" unfolding rows' saved_def by (rule chained_appended[OF ch])
  obtain e where e: "saved = [e]" "ev_kind e = ''plan''" "ev_payload e = plan_dict p"
    unfolding saved_def appended_def by (simp add: Let_def)
  have "list_all (\<lambda>e. ev_kind e \<noteq> ''plan'') rest"
    using assms(3) appended_kinds[of jd later st']
    unfolding rest_def list_all_iff by (metis (no_types, lifting) image_iff list.set_map)
  then have none: "find (\<lambda>e. ev_kind e = ''plan'') (rev rest) = None"
    by (rule find_None_map)
  have "load_plan jd now (snd (append_many jd later st')) = ok (Some p)"
    unfolding load_plan_def append_many_rows rest_def[symmetric]
    using chained_appended[OF ch', of later, folded rest_def] none e sealed
    by (simp add: rows' bindR_ok_iff find_append)
  with sealed show ?thesis by blast
qed

theorem saved_plan_reloads_witness:
  "\<exists>st'. save_plan sum_digest (plan_seal (plan_digest sum_digest) sample_task_plan) demo_store = ok st' \<and>
     load_plan sum_digest 5 (snd (append_many sum_digest [(''note'', [])] st')) =
       ok (Some (plan_seal (plan_digest sum_digest) sample_task_plan))"
proof -
  have "plan_verify (plan_digest sum_digest) (plan_seal (plan_digest sum_digest) sample_task_plan)"
    by (rule plan_seal_verify) (simp add: plan_digest_def plan_dict_def jdel_def sum_digest_def)
  then obtain st' where st': "save_plan sum_digest (plan_seal (plan_digest sum_digest) sample_task_plan) demo_store = ok st'"
    by (simp add: save_plan_def guardR_def)
  show ?thesis using saved_plan_reloads[OF demo_store_reads st', of "[(''note'', [])]" 5] st' by auto
qed

text \<open>The checksum of its last event binds the whole journal: two readable journals whose last
  events carry the same checksum are equal, event by event, when the digest does not collide on their
  events.\<close>

theorem journal_tip_binds:
  assumes "events jd st1 = ok es1" "events jd st2 = ok es2" "es1 \<noteq> []" "es2 \<noteq> []"
    and "ev_checksum (last es1) = ev_checksum (last es2)"
    and "inj_on jd (event_body ` (set es1 \<union> set es2))"
  shows "es1 = es2"
  using assms
proof -
  have body: "e = e'" if "event_body e = event_body e'" "ev_checksum e = ev_checksum e'" for e e'
    using that by (cases e, cases e') (simp add: event_body_def)
  have gen: "chained jd 1 [] xs \<Longrightarrow> chained jd 1 [] ys \<Longrightarrow> xs \<noteq> [] \<Longrightarrow> ys \<noteq> [] \<Longrightarrow>
      ev_checksum (last xs) = ev_checksum (last ys) \<Longrightarrow> inj_on jd (event_body ` (set xs \<union> set ys)) \<Longrightarrow> xs = ys"
    for xs ys
  proof (induction xs arbitrary: ys rule: rev_induct)
    case (snoc x xs)
    obtain y zs where ys: "ys = zs @ [y]" using snoc.prems(4) by (cases ys rule: rev_cases) auto
    have sum: "ev_checksum x = jd (event_body x)" "ev_checksum y = jd (event_body y)"
      using snoc.prems(1,2) by (auto simp: ys chained_append)
    have "event_body x = event_body y"
      by (rule inj_onD[OF snoc.prems(6)]) (use snoc.prems(5) sum in \<open>simp_all add: ys\<close>)
    with snoc.prems(5) have xy: "x = y" by (intro body) (simp_all add: ys)
    have tips: "ev_previous x = (if xs = [] then [] else ev_checksum (last xs))" "ev_seq x = 1 + int (length xs)"
      "ev_previous y = (if zs = [] then [] else ev_checksum (last zs))" "ev_seq y = 1 + int (length zs)"
      using snoc.prems(1,2) by (auto simp: ys chained_append)
    then have len: "length xs = length zs" using xy by simp
    have "xs = zs"
    proof (cases "xs = []")
      case False
      with len have ne: "zs \<noteq> []" by auto
      show ?thesis
        using snoc.IH[of zs] snoc.prems(1,2,6) tips xy False ne
        by (auto simp: ys chained_append intro: inj_on_subset)
    qed (use len in simp)
    with xy ys show ?case by simp
  qed simp
  show ?thesis using gen[of es1 es2] assms by auto
qed

theorem journal_tip_binds_witness:
  "ps_rows (demo_store\<lparr>ps_identity := []\<rparr>) = ps_rows demo_store \<and> ps_rows demo_store \<noteq> []"
proof -
  have reads: "events sum_digest (demo_store\<lparr>ps_identity := []\<rparr>) = ok (ps_rows demo_store)"
    using demo_store_reads by simp
  have ne: "ps_rows demo_store \<noteq> []" by (simp add: demo_store_def append_event_rows appended_def Let_def)
  have "length (ps_rows demo_store) = 1" by (simp add: demo_store_def append_event_rows appended_def Let_def)
  then obtain e where e: "ps_rows demo_store = [e]" by (auto simp: length_Suc_conv)
  have "inj_on sum_digest (event_body ` (set (ps_rows demo_store) \<union> set (ps_rows demo_store)))"
    by (simp add: e)
  from journal_tip_binds[OF reads demo_store_reads ne ne refl this] ne
  show ?thesis by simp
qed

text \<open>Blobs are content-addressed: stored under a hexadecimal hash, a new text is read back
  unchanged, no stored blob is overwritten, and whatever the blob directory contains, a read returns
  only a text that has the requested hash.\<close>

theorem blob_roundtrip:
  assumes "put_blob sha content st = (key, st')" "length (sha content) = 64" "list_all hex_digit (sha content)"
  shows "key = sha content \<and>
    (al_get (ps_blobs st) key = None \<longrightarrow> get_blob sha key st' = ok content) \<and>
    (\<forall>k raw. al_get (ps_blobs st) k = Some raw \<longrightarrow> al_get (ps_blobs st') k = Some raw) \<and>
    (\<forall>k raw. get_blob sha k st' = ok raw \<longrightarrow> sha raw = k)"
proof -
  have key: "key = sha content" and st': "st' = (if al_get (ps_blobs st) (sha content) = None
      then st\<lparr>ps_blobs := al_put (sha content) content (ps_blobs st)\<rparr> else st)"
    using assms(1) by (auto simp: put_blob_def Let_def)
  have "sha raw = k" if "get_blob sha k st' = ok raw" for k raw
    using that by (auto simp: get_blob_def split: option.splits)
  moreover have "get_blob sha key st' = ok content" if "al_get (ps_blobs st) key = None"
    using that assms(2,3) by (simp add: key st' get_blob_def guardR_def)
  moreover have "al_get (ps_blobs st') k = Some raw" if "al_get (ps_blobs st) k = Some raw" for k raw
    using that by (auto simp: st')
  ultimately show ?thesis using key by blast
qed

definition zero_hash :: "string \<Rightarrow> string" where
  "zero_hash s = replicate 64 (CHR ''0'')"

theorem blob_roundtrip_witness:
  "get_blob zero_hash (replicate 64 (CHR ''0'')) (snd (put_blob zero_hash ''text'' demo_store)) = ok ''text''"
proof -
  have "length (zero_hash ''text'') = 64" "list_all hex_digit (zero_hash ''text'')"
    by (simp_all add: zero_hash_def hex_digit_def list_all_iff)
  note blob = blob_roundtrip[where sha = zero_hash and content = "''text''" and st = demo_store, OF prod.collapse[symmetric] this]
  have "al_get (ps_blobs demo_store) k = None" for k by (simp add: demo_store_def append_event_rows)
  then show ?thesis
    using conjunct1[OF blob] conjunct1[OF conjunct2[OF blob]] by (simp add: zero_hash_def)
qed

end
