(* ===== verification/PlanHistory.thy ===== *)
theory PlanHistory
  imports PlanJournal
begin

text \<open>
  The other half of \<open>agent_runtime/plan_runtime/journal.py\<close>: the rules for the recorded attempts and
  operations (\<open>validate_execution_history\<close>), and checkpoints, which refer to a position of the journal
  and are verified against it.  The receipt digest is an argument, the identity is that of the store.
\<close>

subsection \<open>Attempts and operations\<close>

definition phase_rank :: "jvalue \<Rightarrow> nat option" where
  "phase_rank v =
     (if v = JStr ''prepared'' then Some 0 else if v = JStr ''dispatched'' then Some 1
      else if v = JStr ''result_recorded'' then Some 2 else if v = JStr ''reconciled'' then Some 3
      else None)"

definition immutable_fields :: "string \<Rightarrow> string list" where
  "immutable_fields kind =
     (if kind = ''attempt''
      then [''attempt_id'', ''plan_id'', ''plan_version'', ''node_id'', ''allowed_tools'', ''idempotency_key'',
        ''workspace_before'', ''owner'']
      else [''operation_id'', ''attempt_id'', ''node_id'', ''plan_version'', ''tool'', ''call_id'', ''args_hash'',
        ''effect'', ''workspace_before''])"

definition key_field :: "string \<Rightarrow> string" where
  "key_field kind = (if kind = ''attempt'' then ''attempt_id'' else ''operation_id'')"

text \<open>The checks of one fact against the previous fact of its key.\<close>

definition check_phase :: "jdict option \<Rightarrow> jdict \<Rightarrow> unit res" where
  "check_phase previous v =
     bindR (guardR (phase_rank (dget v ''phase'') \<noteq> None \<and>
         (previous = None \<longrightarrow> dget v ''phase'' = JStr ''prepared''))
       (ValueError ''journal_execution_phase_invalid'')) (\<lambda>_.
     case previous of None \<Rightarrow> ok () | Some p \<Rightarrow>
       bindR (dict_at p ''phase'') (\<lambda>old.
         guardR (the (phase_rank old) \<le> the (phase_rank (dget v ''phase'')))
           (ValueError ''journal_execution_phase_invalid'')))"

definition check_identity :: "string \<Rightarrow> jdict option \<Rightarrow> jdict \<Rightarrow> unit res" where
  "check_identity kind previous v =
     (case previous of None \<Rightarrow> ok () | Some p \<Rightarrow>
       guardR (list_all (\<lambda>k. dget v k = dget p k) (immutable_fields kind))
         (ValueError ''journal_execution_identity_invalid''))"

text \<open>\<open>value[k] != other\<close>, with the \<open>KeyError\<close> of a missing entry.\<close>

definition require_at :: "jdict \<Rightarrow> string \<Rightarrow> jvalue \<Rightarrow> exn \<Rightarrow> unit res" where
  "require_at d k v e = bindR (dict_at d k) (\<lambda>w. guardR (w = v) e)"

definition check_attempt :: "(jvalue, jdict) alist \<Rightarrow> jdict \<Rightarrow> unit res" where
  "check_attempt attempts v =
     bindR (dict_at v ''attempt_id'') (\<lambda>aid.
     case al_get attempts aid of
       None \<Rightarrow> raise (ValueError ''journal_operation_attempt_mismatch'')
     | Some a \<Rightarrow>
        bindR (dict_at v ''node_id'') (\<lambda>node.
        bindR (require_at a ''node_id'' node (ValueError ''journal_operation_attempt_mismatch'')) (\<lambda>_.
        bindR (dict_at v ''plan_version'') (\<lambda>version.
          require_at a ''plan_version'' version (ValueError ''journal_operation_attempt_mismatch'')))))"

definition check_receipt :: "(jvalue \<Rightarrow> string) \<Rightarrow> jdict \<Rightarrow> jdict \<Rightarrow> unit res" where
  "check_receipt rdigest identity v =
     (if \<not> jtruthy (dget v ''receipt'') then ok ()
      else bindR (as_dict (dget v ''receipt'')) (\<lambda>r.
        bindR (require_at v ''call_id'' (dget r ''call_id'') (ValueError ''journal_receipt_identity_invalid'')) (\<lambda>_.
        bindR (require_at v ''tool'' (dget r ''tool'') (ValueError ''journal_receipt_identity_invalid'')) (\<lambda>_.
        bindR (require_at identity ''run_id'' (dget r ''run_id'') (ValueError ''journal_receipt_identity_invalid'')) (\<lambda>_.
          guardR (dget r ''receipt_id'' = JStr (''receipt-'' @ take 20 (rdigest (JObj (jdel ''receipt_id'' r)))))
            (ValueError ''journal_receipt_checksum_invalid''))))))"

type_synonym executions = "(jvalue, jdict) alist \<times> (jvalue, jdict) alist"

definition history_step ::
  "(jvalue \<Rightarrow> string) \<Rightarrow> jdict \<Rightarrow> event \<Rightarrow> executions \<Rightarrow> executions res" where
  "history_step rdigest identity e ao =
    (let kind = ev_kind e; v = ev_payload e in
     if kind \<notin> {''attempt'', ''operation''} then ok ao
     else bindR (dict_at v (key_field kind)) (\<lambda>key.
       (let previous = al_get (if kind = ''attempt'' then fst ao else snd ao) key in
        bindR (check_phase previous v) (\<lambda>_.
        bindR (check_identity kind previous v) (\<lambda>_.
          if kind = ''attempt'' then ok (al_put key v (fst ao), snd ao)
          else
            bindR (check_attempt (fst ao) v) (\<lambda>_.
            bindR (check_receipt rdigest identity v) (\<lambda>_.
              ok (fst ao, al_put key v (snd ao)))))))))"

definition validate_execution_history ::
  "jdigest \<Rightarrow> (jvalue \<Rightarrow> string) \<Rightarrow> plan_store \<Rightarrow> unit res" where
  "validate_execution_history jd rdigest st =
     bindR (events jd st) (\<lambda>es.
     bindR (foldR (history_step rdigest (ps_identity st)) es ([], [])) (\<lambda>_. ok ()))"

subsection \<open>What the history of an attempt or operation looks like\<close>

definition revisions_of :: "string \<Rightarrow> jvalue \<Rightarrow> event list \<Rightarrow> jdict list" where
  "revisions_of kind key es =
     map ev_payload (filter (\<lambda>e. ev_kind e = kind \<and> map_of (ev_payload e) (key_field kind) = Some key) es)"

definition follows :: "string \<Rightarrow> jdict \<Rightarrow> jdict \<Rightarrow> bool" where
  "follows kind p v \<longleftrightarrow>
     the (phase_rank (dget p ''phase'')) \<le> the (phase_rank (dget v ''phase'')) \<and>
     list_all (\<lambda>k. dget v k = dget p k) (immutable_fields kind)"

lemma follows_trans: "follows kind p v \<Longrightarrow> follows kind v w \<Longrightarrow> follows kind p w"
  by (auto simp: follows_def list_all_iff)

text \<open>The facts of one key: never back to an earlier phase, identity fields constant, prepared first.\<close>

definition lifecycle :: "string \<Rightarrow> jvalue \<Rightarrow> event list \<Rightarrow> bool" where
  "lifecycle kind key es \<longleftrightarrow>
    (let vs = revisions_of kind key es in
     sorted_wrt (follows kind) vs \<and> list_all (\<lambda>v. phase_rank (dget v ''phase'') \<noteq> None) vs \<and>
     (vs \<noteq> [] \<longrightarrow> dget (hd vs) ''phase'' = JStr ''prepared''))"

definition backed :: "event list \<Rightarrow> event \<Rightarrow> bool" where
  "backed before e \<longleftrightarrow>
     (let v = ev_payload e in
      list_ex (\<lambda>a. dget a ''node_id'' = dget v ''node_id'' \<and> dget a ''plan_version'' = dget v ''plan_version'')
        (revisions_of ''attempt'' (dget v ''attempt_id'') before))"

definition last_of :: "'a list \<Rightarrow> 'a option" where
  "last_of xs = (if xs = [] then None else Some (last xs))"

lemma revisions_snoc:
  "revisions_of kind key (es @ [e]) = revisions_of kind key es @
     (if ev_kind e = kind \<and> map_of (ev_payload e) (key_field kind) = Some key then [ev_payload e] else [])"
  by (simp add: revisions_of_def)

lemma dict_at_ok [simp]: "dict_at d k = Inr v \<longleftrightarrow> map_of d k = Some v"
  by (auto simp: dict_at_def split: option.splits)

lemma dget_Some: "map_of d k = Some v \<Longrightarrow> dget_or d k w = v"
  by (simp add: dget_or_def)

lemma lifecycle_snoc:
  assumes "lifecycle kind key es"
    and "ev_kind e = kind \<Longrightarrow> map_of (ev_payload e) (key_field kind) = Some key \<Longrightarrow>
      check_phase (last_of (revisions_of kind key es)) (ev_payload e) = ok () \<and>
      check_identity kind (last_of (revisions_of kind key es)) (ev_payload e) = ok ()"
  shows "lifecycle kind key (es @ [e])"
proof (cases "ev_kind e = kind \<and> map_of (ev_payload e) (key_field kind) = Some key")
  case True
  let ?vs = "revisions_of kind key es" and ?v = "ev_payload e"
  have chk: "check_phase (last_of ?vs) ?v = ok ()" "check_identity kind (last_of ?vs) ?v = ok ()"
    using assms(2) True by auto
  have ranked: "phase_rank (dget ?v ''phase'') \<noteq> None" using chk(1) by (auto simp: check_phase_def)
  show ?thesis
  proof (cases "?vs = []")
    case True': True
    have "dget ?v ''phase'' = JStr ''prepared''" using chk(1) True' by (simp add: check_phase_def last_of_def)
    with True True' ranked show ?thesis by (simp add: lifecycle_def revisions_snoc)
  next
    case False
    have new: "follows kind (last ?vs) ?v"
      using chk False by (auto simp: check_phase_def check_identity_def last_of_def follows_def
          bindR_ok_iff dget_Some)
    have "follows kind p ?v" if "p \<in> set ?vs" for p
    proof -
      obtain us where us: "?vs = us @ [last ?vs]" using False by (metis append_butlast_last_id)
      have "p = last ?vs \<or> follows kind p (last ?vs)"
        using assms(1) that us unfolding lifecycle_def Let_def
        by (metis (no_types, lifting) Un_iff empty_iff list.set(1) list.set_intros(1) set_ConsD set_append sorted_wrt_append)
      with new show ?thesis using follows_trans by blast
    qed
    with assms(1) True False ranked show ?thesis
      by (auto simp: lifecycle_def revisions_snoc sorted_wrt_append Let_def hd_append)
  qed
next
  case False
  then have "revisions_of kind key (es @ [e]) = revisions_of kind key es" by (auto simp: revisions_snoc)
  with assms(1) show ?thesis by (simp add: lifecycle_def)
qed

definition tracks :: "event list \<Rightarrow> executions \<Rightarrow> bool" where
  "tracks es ao \<longleftrightarrow> (\<forall>key.
     al_get (fst ao) key = last_of (revisions_of ''attempt'' key es) \<and>
     al_get (snd ao) key = last_of (revisions_of ''operation'' key es))"

lemma tracks_snoc_other:
  "tracks es ao \<Longrightarrow> ev_kind e \<notin> {''attempt'', ''operation''} \<Longrightarrow> tracks (es @ [e]) ao"
  by (auto simp: tracks_def revisions_snoc)

lemma tracks_snoc:
  "tracks es ao \<Longrightarrow> ev_kind e = ''attempt'' \<Longrightarrow> map_of (ev_payload e) ''attempt_id'' = Some key \<Longrightarrow>
     tracks (es @ [e]) (al_put key (ev_payload e) (fst ao), snd ao)"
  "tracks es ao \<Longrightarrow> ev_kind e = ''operation'' \<Longrightarrow> map_of (ev_payload e) ''operation_id'' = Some key \<Longrightarrow>
     tracks (es @ [e]) (fst ao, al_put key (ev_payload e) (snd ao))"
  by (auto simp: tracks_def revisions_snoc key_field_def last_of_def)

lemma check_attempt_backed:
  assumes "check_attempt attempts v = ok ()" "\<And>key. al_get attempts key = last_of (revisions_of ''attempt'' key es)"
    and "ev_payload e = v"
  shows "backed es e"
proof -
  from assms(1) obtain aid a node version where a: "map_of v ''attempt_id'' = Some aid" "al_get attempts aid = Some a"
    "map_of v ''node_id'' = Some node" "map_of a ''node_id'' = Some node"
    "map_of v ''plan_version'' = Some version" "map_of a ''plan_version'' = Some version"
    by (auto simp: check_attempt_def bindR_ok_iff require_at_def split: option.splits)
  have "a \<in> set (revisions_of ''attempt'' aid es)"
    using a(2) assms(2)[of aid] by (auto simp: last_of_def split: if_splits)
  with a show ?thesis by (auto simp: backed_def assms(3) list_ex_iff dget_or_def intro!: bexI[of _ a])
qed

lemma history_step_sound:
  assumes "history_step rdigest identity e ao = Inr ao'" "tracks es ao"
    "\<And>key. lifecycle ''attempt'' key es \<and> lifecycle ''operation'' key es"
  shows "tracks (es @ [e]) ao'" "lifecycle ''attempt'' key (es @ [e])" "lifecycle ''operation'' key (es @ [e])"
    "ev_kind e = ''operation'' \<Longrightarrow> backed es e"
proof -
  let ?v = "ev_payload e"
  consider (other) "ev_kind e \<notin> {''attempt'', ''operation''}" "ao' = ao"
    | (attempt) k where "ev_kind e = ''attempt''" "map_of ?v ''attempt_id'' = Some k"
        "check_phase (al_get (fst ao) k) ?v = ok ()" "check_identity ''attempt'' (al_get (fst ao) k) ?v = ok ()"
        "ao' = (al_put k ?v (fst ao), snd ao)"
    | (operation) k where "ev_kind e = ''operation''" "map_of ?v ''operation_id'' = Some k"
        "check_phase (al_get (snd ao) k) ?v = ok ()" "check_identity ''operation'' (al_get (snd ao) k) ?v = ok ()"
        "check_attempt (fst ao) ?v = ok ()" "ao' = (fst ao, al_put k ?v (snd ao))"
    using assms(1)
    by (auto simp: history_step_def Let_def bindR_ok_iff key_field_def split: if_splits)
  then have "tracks (es @ [e]) ao' \<and> lifecycle ''attempt'' key (es @ [e]) \<and> lifecycle ''operation'' key (es @ [e]) \<and>
     (ev_kind e = ''operation'' \<longrightarrow> backed es e)"
  proof cases
    case other
    then show ?thesis using assms(2,3) tracks_snoc_other by (auto intro!: lifecycle_snoc)
  next
    case attempt
    have "lifecycle ''attempt'' key (es @ [e])" "lifecycle ''operation'' key (es @ [e])"
      using attempt assms(2,3) by (auto intro!: lifecycle_snoc simp: tracks_def key_field_def)
    with attempt tracks_snoc(1)[OF assms(2)] show ?thesis by simp
  next
    case operation
    have "lifecycle ''attempt'' key (es @ [e])" "lifecycle ''operation'' key (es @ [e])"
      using operation assms(2,3) by (auto intro!: lifecycle_snoc simp: tracks_def key_field_def)
    moreover have "backed es e"
      using check_attempt_backed[OF operation(5)] assms(2) by (simp add: tracks_def)
    ultimately show ?thesis using operation tracks_snoc(2)[OF assms(2)] by simp
  qed
  then show "tracks (es @ [e]) ao'" "lifecycle ''attempt'' key (es @ [e])" "lifecycle ''operation'' key (es @ [e])"
    "ev_kind e = ''operation'' \<Longrightarrow> backed es e" by blast+
qed

lemma history_sound:
  "foldR (history_step rdigest identity) es ([], []) = Inr ao \<Longrightarrow>
     tracks es ao \<and> (\<forall>key. lifecycle ''attempt'' key es \<and> lifecycle ''operation'' key es) \<and>
     (\<forall>i < length es. ev_kind (es ! i) = ''operation'' \<longrightarrow> backed (take i es) (es ! i))"
proof (induction es arbitrary: ao rule: rev_induct)
  case Nil
  then show ?case by (auto simp: tracks_def revisions_of_def last_of_def lifecycle_def)
next
  case (snoc e es)
  from snoc.prems obtain bo where bo: "foldR (history_step rdigest identity) es ([], []) = Inr bo"
    "history_step rdigest identity e bo = Inr ao"
    by (auto simp: foldR_append bindR_ok_iff)
  note IH = snoc.IH[OF bo(1)]
  note new = history_step_sound[OF bo(2) conjunct1[OF IH]]
  show ?case
    using new IH by (auto simp: nth_append less_Suc_eq)
qed

text \<open>C15. An accepted execution history is a set of proper lifecycles: the facts of an attempt or
  operation start with \<open>prepared\<close>, never return to an earlier phase and never change their identity
  fields, and every operation belongs to an attempt recorded before it, for the same plan node and
  plan version.\<close>

theorem execution_history_sound:
  assumes "validate_execution_history jd rdigest st = ok ()"
  shows "lifecycle ''attempt'' key (ps_rows st) \<and> lifecycle ''operation'' key (ps_rows st) \<and>
    (\<forall>i < length (ps_rows st). ev_kind (ps_rows st ! i) = ''operation'' \<longrightarrow>
       backed (take i (ps_rows st)) (ps_rows st ! i))"
proof -
  from assms obtain ao where "foldR (history_step rdigest (ps_identity st)) (ps_rows st) ([], []) = Inr ao"
    by (auto simp: validate_execution_history_def bindR_ok_iff)
  from history_sound[OF this] show ?thesis by blast
qed

definition demo_attempt :: "string \<Rightarrow> string \<times> jdict" where
  "demo_attempt phase = (''attempt'', [(''attempt_id'', JStr ''a''), (''node_id'', JStr ''n''),
     (''phase'', JStr phase), (''plan_version'', JInt 1)])"

definition demo_operation :: "string \<times> jdict" where
  "demo_operation = (''operation'', [(''attempt_id'', JStr ''a''), (''node_id'', JStr ''n''),
     (''operation_id'', JStr ''o''), (''phase'', JStr ''prepared''), (''plan_version'', JInt 1)])"

definition demo_run_log :: plan_store where
  "demo_run_log = snd (append_many sum_digest
     [demo_attempt ''prepared'', demo_attempt ''dispatched'', demo_operation, demo_attempt ''reconciled'']
     demo_store)"

lemma demo_history_valid: "validate_execution_history sum_digest sum_digest demo_run_log = ok ()"
  by code_simp

theorem execution_history_sound_witness:
  "lifecycle ''attempt'' (JStr ''a'') (ps_rows demo_run_log) \<and>
   length (revisions_of ''attempt'' (JStr ''a'') (ps_rows demo_run_log)) = 3"
proof -
  have "length (revisions_of ''attempt'' (JStr ''a'') (ps_rows demo_run_log)) = 3" by code_simp
  with execution_history_sound[OF demo_history_valid, of "JStr ''a''"] show ?thesis by blast
qed

subsection \<open>Checkpoints\<close>

text \<open>The identifiers of the attempts that are not reconciled, sorted; identifiers are strings.\<close>

definition open_names :: "(jvalue, jvalue) alist \<Rightarrow> jvalue res" where
  "open_names phases =
     bindR (mapR as_str (map fst (filter (\<lambda>kp. snd kp \<noteq> JStr ''reconciled'') phases)))
       (\<lambda>names. ok (strs (sort names)))"

definition phases_of :: "(jvalue, jdict) alist \<Rightarrow> (jvalue, jvalue) alist res" where
  "phases_of attempts = mapR (\<lambda>(k, v). bindR (dict_at v ''phase'') (\<lambda>p. ok (k, p))) attempts"

definition checkpoint_payload ::
  "jdict \<Rightarrow> plan option \<Rightarrow> jdict \<Rightarrow> jdict option \<Rightarrow> event \<Rightarrow> jvalue \<Rightarrow> jdict" where
  "checkpoint_payload identity plan long_task_state seal e active =
    (let payload =
      [(''active_attempts'', active), (''identity'', JObj identity),
       (''journal_checksum'', JStr (ev_checksum e)), (''journal_sequence'', JInt (ev_seq e)),
       (''long_task_state'', JObj long_task_state),
       (''plan_checksum'', JStr (case plan of Some p \<Rightarrow> plan_checksum p | None \<Rightarrow> [])),
       (''plan_version'', JInt (case plan of Some p \<Rightarrow> plan_version p | None \<Rightarrow> 0)),
       (''schema_version'', JStr (case seal of Some d \<Rightarrow> if d \<noteq> [] then ''2'' else ''1'' | None \<Rightarrow> ''1'')),
       (''state_revision'', JInt (case plan of Some p \<Rightarrow> plan_revision p | None \<Rightarrow> 0))]
     in case seal of Some d \<Rightarrow> jput ''coordination_seal'' (JObj d) payload | None \<Rightarrow> payload)"

definition checkpoint ::
  "jdigest \<Rightarrow> plan option \<Rightarrow> jdict \<Rightarrow> jdict option \<Rightarrow> plan_store \<Rightarrow> (jdict \<times> plan_store) res" where
  "checkpoint jd plan long_task_state seal st =
     bindR (events jd st) (\<lambda>es.
     bindR (latest jd ''attempt'' ''attempt_id'' st) (\<lambda>attempts.
     if es = [] then raise IndexErr else
     bindR (phases_of attempts) (\<lambda>phases.
     bindR (open_names phases) (\<lambda>active.
       (let cp = sealed_with jd ''checksum''
              (checkpoint_payload (ps_identity st) plan long_task_state seal (last es) active)
        in ok (cp, snd (append_event jd ''checkpoint'' cp st)))))))"

definition payloads :: "string \<Rightarrow> event list \<Rightarrow> jdict list" where
  "payloads kind es = map ev_payload (filter (\<lambda>e. ev_kind e = kind) es)"

definition verify_position :: "jdict \<Rightarrow> event list \<Rightarrow> event list res" where
  "verify_position payload es =
     (case dget_or payload ''journal_sequence'' (JInt 0) of
        JInt n \<Rightarrow>
          if 1 \<le> n \<and> n \<le> int (length es)
          then bindR (guardR (JStr (ev_checksum (es ! (nat n - 1))) = dget payload ''journal_checksum'')
                 (ValueError ''checkpoint_journal_mismatch'')) (\<lambda>_. ok (take (nat n) es))
          else raise (ValueError ''checkpoint_journal_mismatch'')
      | _ \<Rightarrow> raise (ValueError ''checkpoint_journal_mismatch''))"

definition verify_plan :: "jdict \<Rightarrow> event list \<Rightarrow> unit res" where
  "verify_plan payload front =
    (let saved = (case last_of (payloads ''plan'' front) of Some d \<Rightarrow> d | None \<Rightarrow> []) in
     foldR (\<lambda>key _. require_at payload key
         (dget_or saved key (if key = ''plan_checksum'' then JStr [] else JInt 0))
         (ValueError ''checkpoint_plan_mismatch''))
       [''plan_checksum'', ''plan_version'', ''state_revision''] ())"

definition active_step :: "event \<Rightarrow> (jvalue, jvalue) alist \<Rightarrow> (jvalue, jvalue) alist res" where
  "active_step e active =
     (if ev_kind e = ''attempt''
      then bindR (dict_at (ev_payload e) ''attempt_id'') (\<lambda>k.
           bindR (dict_at (ev_payload e) ''phase'') (\<lambda>p. ok (al_put k p active)))
      else ok active)"

definition verify_attempts :: "jdict \<Rightarrow> event list \<Rightarrow> unit res" where
  "verify_attempts payload front =
     bindR (foldR active_step front []) (\<lambda>active.
     bindR (dict_at payload ''active_attempts'') (\<lambda>listed.
     bindR (open_names active) (\<lambda>names.
       guardR (listed = names) (ValueError ''checkpoint_attempt_mismatch''))))"

definition verify_long_task :: "jdigest \<Rightarrow> jdict \<Rightarrow> jdict \<Rightarrow> event list \<Rightarrow> unit res" where
  "verify_long_task jd identity payload front =
    (let v = dget payload ''long_task_state''; e = ValueError ''checkpoint_long_task_journal_mismatch'' in
     if \<not> jtruthy v then ok ()
     else bindR (as_dict v) (\<lambda>d.
       bindR (long_task_verify jd d) (\<lambda>saved.
       (case last_of (payloads ''long_task_state'' front) of
          None \<Rightarrow> raise e
        | Some recorded \<Rightarrow>
           bindR (long_task_verify jd recorded) (\<lambda>s.
           bindR (guardR (long_task_dict saved = long_task_dict s) e) (\<lambda>_.
           bindR (require_at identity ''task_id'' (JStr (lt_task saved)) e) (\<lambda>_.
             require_at identity ''run_id'' (JStr (lt_run saved)) e)))))))"

definition verify_checkpoint :: "jdigest \<Rightarrow> jdict \<Rightarrow> jdict option \<Rightarrow> plan_store \<Rightarrow> unit res" where
  "verify_checkpoint jd cp seal st =
    (let payload = jdel ''checksum'' cp in
     bindR (guardR (dget cp ''checksum'' = JStr (jd (JObj payload)) \<and>
         dget payload ''identity'' = JObj (ps_identity st))
       (ValueError ''checkpoint_identity_or_checksum_invalid'')) (\<lambda>_.
     bindR (guardR (case seal of None \<Rightarrow> True
         | Some d \<Rightarrow> jtruthy (dget payload ''coordination_seal'') \<and> dget payload ''coordination_seal'' = JObj d)
       (ValueError ''checkpoint_coordination_mismatch'')) (\<lambda>_.
     bindR (events jd st) (\<lambda>es.
     bindR (verify_position payload es) (\<lambda>front.
     bindR (verify_plan payload front) (\<lambda>_.
     bindR (verify_attempts payload front) (\<lambda>_.
       verify_long_task jd (ps_identity st) payload front)))))))"

text \<open>\<open>PlanSession.checkpoint\<close> without the lease check: the state of the long task is recorded, then
  the checkpoint is taken.\<close>

definition session_checkpoint ::
  "jdigest \<Rightarrow> string \<Rightarrow> plan option \<Rightarrow> long_task \<Rightarrow> jdict option \<Rightarrow> plan_store \<Rightarrow> (jdict \<times> plan_store) res" where
  "session_checkpoint jd session_id plan s seal st =
     checkpoint jd plan (long_task_seal jd s) seal
       (snd (append_event jd ''long_task_state'' (long_task_durable jd session_id s) st))"

subsection \<open>A checkpoint verifies later\<close>

lemma al_put_map: "al_put k (f v) (map (\<lambda>(k, v). (k, f v)) m) = map (\<lambda>(k, v). (k, f v)) (al_put k v m)"
  by (induction k v m rule: al_put.induct) auto

lemma active_attempts_agree:
  assumes "foldR (\<lambda>e result. if ev_kind e = ''attempt''
           then bindR (dict_at (ev_payload e) ''attempt_id'') (\<lambda>k. ok (al_put k (ev_payload e) result))
           else ok result) es r0 = Inr attempts"
    and "\<And>e. e \<in> set es \<Longrightarrow> ev_kind e = ''attempt'' \<Longrightarrow> map_of (ev_payload e) ''phase'' \<noteq> None"
  shows "foldR active_step es (map (\<lambda>(k, v). (k, dget v ''phase'')) r0) =
    Inr (map (\<lambda>(k, v). (k, dget v ''phase'')) attempts)"
  using assms
proof (induction es arbitrary: r0)
  case (Cons e es)
  show ?case
  proof (cases "ev_kind e = ''attempt''")
    case True
    with Cons.prems obtain k p where k: "map_of (ev_payload e) ''attempt_id'' = Some k"
      "map_of (ev_payload e) ''phase'' = Some p"
      by (fastforce simp: bindR_ok_iff)
    then have "active_step e (map (\<lambda>(k, v). (k, dget v ''phase'')) r0) =
        ok (map (\<lambda>(k, v). (k, dget v ''phase'')) (al_put k (ev_payload e) r0))"
      using True al_put_map[of k "\<lambda>v. dget v ''phase''" "ev_payload e" r0]
      by (simp add: active_step_def dict_at_def dget_or_def)
    with Cons k True show ?thesis by (simp add: dict_at_def)
  next
    case False
    with Cons show ?thesis by (simp add: active_step_def)
  qed
qed simp

lemma phases_of_ok: "phases_of attempts = Inr phases \<Longrightarrow> phases = map (\<lambda>(k, v). (k, dget v ''phase'')) attempts"
  unfolding phases_of_def
  by (induction attempts arbitrary: phases) (auto simp: bindR_ok_iff dget_or_def)

lemma history_has_phases:
  assumes "foldR (history_step rdigest identity) es ([], []) = Inr ao" "e \<in> set es" "ev_kind e = ''attempt''"
  shows "map_of (ev_payload e) ''phase'' \<noteq> None"
proof -
  obtain xs ys where es: "es = xs @ e # ys" using split_list[OF assms(2)] by blast
  then obtain u v where "history_step rdigest identity e u = Inr v"
    using assms(1) by (auto simp: foldR_append bindR_ok_iff)
  then have "phase_rank (dget (ev_payload e) ''phase'') \<noteq> None"
    using assms(3) by (auto simp: history_step_def bindR_ok_iff check_phase_def Let_def)
  then show ?thesis by (cases "map_of (ev_payload e) ''phase''") (simp_all add: dget_or_def phase_rank_def)
qed

lemma checkpoint_payload_fields:
  fixes identity plan lts seal e active
  defines "d \<equiv> checkpoint_payload identity plan lts seal e active"
  shows "map_of d ''active_attempts'' = Some active" "map_of d ''identity'' = Some (JObj identity)"
    "map_of d ''journal_checksum'' = Some (JStr (ev_checksum e))"
    "map_of d ''journal_sequence'' = Some (JInt (ev_seq e))"
    "map_of d ''long_task_state'' = Some (JObj lts)"
    "map_of d ''plan_checksum'' = Some (JStr (case plan of Some p \<Rightarrow> plan_checksum p | None \<Rightarrow> []))"
    "map_of d ''plan_version'' = Some (JInt (case plan of Some p \<Rightarrow> plan_version p | None \<Rightarrow> 0))"
    "map_of d ''state_revision'' = Some (JInt (case plan of Some p \<Rightarrow> plan_revision p | None \<Rightarrow> 0))"
    "map_of d ''coordination_seal'' = map_option JObj seal"
    "''checksum'' \<notin> fst ` set d"
  by (cases seal; simp add: d_def checkpoint_payload_def Let_def set_jput)+

lemma chained_last:
  "chained jd 1 [] es \<Longrightarrow> es \<noteq> [] \<Longrightarrow> ev_seq (last es) = int (length es)"
  by (cases es rule: rev_cases) (auto simp: chained_append)

lemma payloads_append [simp]: "payloads kind (xs @ ys) = payloads kind xs @ payloads kind ys"
  by (simp add: payloads_def)

lemma payloads_appended:
  "payloads kind (appended jd entries st) = map snd (filter (\<lambda>en. fst en = kind) entries)"
proof -
  have "payloads kind es = map snd (filter (\<lambda>en. fst en = kind) (map (\<lambda>e. (ev_kind e, ev_payload e)) es))" for es
    by (simp add: payloads_def filter_map comp_def)
  then show ?thesis by (simp add: appended_entries)
qed

lemma verify_position_last:
  assumes "chained jd 1 [] (es @ later_es)" "es \<noteq> []"
    "map_of d ''journal_sequence'' = Some (JInt (ev_seq (last es)))"
    "map_of d ''journal_checksum'' = Some (JStr (ev_checksum (last es)))"
  shows "verify_position d (es @ later_es) = ok es"
proof -
  have "ev_seq (last es) = int (length es)"
    using assms(1,2) by (auto simp: chained_append intro: chained_last)
  moreover have "1 \<le> length es" using assms(2) by (cases es) auto
  ultimately show ?thesis
    using assms by (simp add: verify_position_def dget_or_def guardR_def nth_append last_conv_nth nat_diff_distrib)
qed

lemma verify_plan_last:
  assumes "map_option plan_dict plan = last_of (payloads ''plan'' es)"
    "map_of d ''plan_checksum'' = Some (JStr (case plan of Some p \<Rightarrow> plan_checksum p | None \<Rightarrow> []))"
    "map_of d ''plan_version'' = Some (JInt (case plan of Some p \<Rightarrow> plan_version p | None \<Rightarrow> 0))"
    "map_of d ''state_revision'' = Some (JInt (case plan of Some p \<Rightarrow> plan_revision p | None \<Rightarrow> 0))"
  shows "verify_plan d es = ok ()"
  using assms(2-4)
  by (cases plan)
     (simp_all add: verify_plan_def assms(1)[symmetric] require_at_def dict_at_def dget_or_def plan_dict_def
        guardR_def)

lemma verify_attempts_last:
  assumes "latest jd ''attempt'' ''attempt_id'' st = Inr attempts" "phases_of attempts = Inr phases"
    "open_names phases = Inr active" "map_of d ''active_attempts'' = Some active"
    "\<And>e. e \<in> set (ps_rows st) \<Longrightarrow> ev_kind e = ''attempt'' \<Longrightarrow> map_of (ev_payload e) ''phase'' \<noteq> None"
  shows "verify_attempts d (ps_rows st) = ok ()"
proof -
  have "foldR active_step (ps_rows st) [] = ok phases"
    using active_attempts_agree[of "ps_rows st" "[]" attempts] assms(1,5) phases_of_ok[OF assms(2)]
    by (auto simp: latest_def bindR_ok_iff)
  with assms(3,4) show ?thesis by (simp add: verify_attempts_def dict_at_def guardR_def)
qed

lemma verify_long_task_last:
  assumes "restorable jd s" "\<And>v. jd v \<noteq> []" "map_of d ''long_task_state'' = Some (JObj (long_task_seal jd s))"
    "last_of (payloads ''long_task_state'' es) = Some (long_task_durable jd sid s)"
    "map_of identity ''task_id'' = Some (JStr (lt_task s))" "map_of identity ''run_id'' = Some (JStr (lt_run s))"
  shows "verify_long_task jd identity d es = ok ()"
proof -
  have "long_task_seal jd s \<noteq> []" by (simp add: long_task_seal_def sealed_with_def)
  then show ?thesis
    using assms long_task_verify_seal[OF assms(1,2)]
    by (simp add: verify_long_task_def dget_or_def[of d] require_at_def dict_at_def guardR_def Let_def)
qed

text \<open>C29. A checkpoint of a session verifies at every later moment: whatever facts are appended after
  it, the checkpoint taken of the current plan and the long task state on a validated journal
  passes \<open>verify_checkpoint\<close>, with its coordination seal or without asking for one.\<close>

theorem session_checkpoint_verifies:
  assumes "session_checkpoint jd sid plan s seal st = ok (cp, st')"
    and "validate_execution_history jd rdigest st = ok ()"
    and "map_option plan_dict plan = last_of (payloads ''plan'' (ps_rows st))"
    and "restorable jd s" "\<And>v. jd v \<noteq> []"
    and "map_of (ps_identity st) ''task_id'' = Some (JStr (lt_task s))"
    and "map_of (ps_identity st) ''run_id'' = Some (JStr (lt_run s))"
    and "wanted = None \<or> wanted = seal" "seal \<noteq> Some []"
  shows "verify_checkpoint jd cp wanted (snd (append_many jd later st')) = ok ()"
proof -
  define st1 where "st1 = snd (append_event jd ''long_task_state'' (long_task_durable jd sid s) st)"
  define es where "es = ps_rows st1"
  have es: "es = ps_rows st @ appended jd [(''long_task_state'', long_task_durable jd sid s)] st"
    and ident: "ps_identity st1 = ps_identity st"
    by (simp_all add: es_def st1_def append_event_rows)
  obtain attempts phases active where parts: "chained jd 1 [] es"
      "latest jd ''attempt'' ''attempt_id'' st1 = Inr attempts" "es \<noteq> []"
      "phases_of attempts = Inr phases" "open_names phases = Inr active"
    and cp: "cp = sealed_with jd ''checksum''
        (checkpoint_payload (ps_identity st) plan (long_task_seal jd s) seal (last es) active)"
    and st': "st' = snd (append_event jd ''checkpoint'' cp st1)"
    using assms(1)
    by (auto simp: session_checkpoint_def checkpoint_def bindR_ok_iff Let_def es_def ident
        simp flip: st1_def split: if_splits)
  let ?d = "checkpoint_payload (ps_identity st) plan (long_task_seal jd s) seal (last es) active"
  note fields = checkpoint_payload_fields[of "ps_identity st" plan "long_task_seal jd s" seal "last es" active]
  let ?st = "snd (append_many jd later st')"
  obtain later_es where rows: "ps_rows ?st = es @ later_es" "ps_identity ?st = ps_identity st"
    by (simp add: append_many_rows st' append_event_rows es_def ident)
  have "chained jd 1 [] (ps_rows st')"
    using chained_appended[OF parts(1)[unfolded es_def]] by (simp add: st' append_event_rows)
  then have ch: "chained jd 1 [] (ps_rows ?st)"
    by (simp add: append_many_rows chained_appended)
  obtain ao where hist: "foldR (history_step rdigest (ps_identity st)) (ps_rows st) ([], []) = Inr ao"
    using assms(2) by (auto simp: validate_execution_history_def bindR_ok_iff)
  have phases: "map_of (ev_payload e) ''phase'' \<noteq> None" if "e \<in> set es" "ev_kind e = ''attempt''" for e
    using that history_has_phases[OF hist, of e] by (auto simp: es appended_def Let_def)
  have sealed: "jdel ''checksum'' cp = ?d" "dget cp ''checksum'' = JStr (jd (JObj ?d))"
    using fields(10) by (simp_all add: cp)
  have coord: "case wanted of None \<Rightarrow> True
         | Some d \<Rightarrow> jtruthy (dget ?d ''coordination_seal'') \<and> dget ?d ''coordination_seal'' = JObj d"
    using assms(8,9) fields(9) by (auto simp: dget_or_def split: option.splits)
  have "verify_position ?d (es @ later_es) = ok es"
    by (rule verify_position_last[OF ch[unfolded rows] parts(3) fields(4,3)])
  moreover have "verify_plan ?d es = ok ()"
    by (rule verify_plan_last[OF _ fields(6-8)]) (simp add: assms(3) es payloads_appended)
  moreover have "verify_attempts ?d es = ok ()"
    unfolding es_def by (rule verify_attempts_last[OF parts(2,4,5) fields(1)[unfolded es_def]]) (rule phases[unfolded es_def])
  moreover have "verify_long_task jd (ps_identity st) ?d es = ok ()"
    by (rule verify_long_task_last[OF assms(4,5) fields(5) _ assms(6,7)])
       (simp add: es payloads_appended last_of_def)
  moreover have "events jd ?st = ok (es @ later_es)" using ch rows by simp
  moreover have "dget ?d ''identity'' = JObj (ps_identity st)" using fields(2) by (simp add: dget_or_def)
  ultimately show ?thesis
    using coord by (simp add: verify_checkpoint_def Let_def sealed rows(2) guardR_def del: events_ok)
qed

definition demo_long_task :: long_task where
  "demo_long_task = \<lparr>lt_task = ''t'', lt_run = ''r'', lt_request = ''fix it'', lt_constraints = [], lt_records = [],
     lt_request_ref = JObj [], lt_config = [], lt_context_rev = 0, lt_decisions = [], lt_node = [],
     lt_history = [], lt_evidence = [], lt_stale = [], lt_rev = 0, lt_schema = ''long-task-v2''\<rparr>"

theorem session_checkpoint_verifies_witness:
  "\<exists>cp st'. session_checkpoint sum_digest ''s'' None demo_long_task None demo_run_log = ok (cp, st') \<and>
     verify_checkpoint sum_digest cp None (snd (append_many sum_digest [demo_operation] st')) = ok ()"
proof -
  have "is_ok (session_checkpoint sum_digest ''s'' None demo_long_task None demo_run_log)" by code_simp
  then obtain cp st' where taken: "session_checkpoint sum_digest ''s'' None demo_long_task None demo_run_log = ok (cp, st')"
    by (auto simp: is_ok_iff)
  have "last_of (payloads ''plan'' (ps_rows demo_run_log)) = None" by code_simp
  then have plan: "map_option plan_dict None = last_of (payloads ''plan'' (ps_rows demo_run_log))" by simp
  have task: "restorable sum_digest demo_long_task" by (simp add: restorable_def demo_long_task_def)
  have ids: "map_of (ps_identity demo_run_log) ''task_id'' = Some (JStr (lt_task demo_long_task))"
    "map_of (ps_identity demo_run_log) ''run_id'' = Some (JStr (lt_run demo_long_task))"
    by code_simp+
  have "sum_digest v \<noteq> []" for v by (simp add: sum_digest_def)
  from session_checkpoint_verifies[OF taken demo_history_valid plan task this ids, of None] taken
  show ?thesis by blast
qed

end
