(* ===== verification/PlanEvidence.thy ===== *)
theory PlanEvidence
  imports PlanJournal PlanReducer
begin

text \<open>
  The evidence ledger of \<open>agent_runtime/plan_runtime/evidence.py\<close>: evidence records in the journal, the
  recursive check of a record with its dependencies, and the completion predicates of a plan
  node.  A check is valid exactly when the record has a finite, cycle-free support.  The current
  workspace versions, the verification environment, the observation store and the hash are
  arguments; \<open>None\<close> stands for the provider that raises \<open>OSError\<close> or \<open>ValueError\<close>.
\<close>

subsection \<open>The ledger\<close>

record observation =
  ob_run :: jvalue
  ob_session :: jvalue
  ob_checksum :: jvalue
  ob_text :: string

record evidence_ledger =
  el_digest :: jdigest
  el_sha :: "string \<Rightarrow> string"
  el_store :: plan_store
  el_snapshot :: "jdict option"
  el_environment :: "jvalue option option"
  el_observe :: "jvalue \<Rightarrow> observation option"

definition evidence_records :: "evidence_ledger \<Rightarrow> (jvalue, jdict) alist res" where
  "evidence_records l = latest (el_digest l) ''evidence'' ''evidence_id'' (el_store l)"

abbreviation ledger_identity :: "evidence_ledger \<Rightarrow> jdict" where
  "ledger_identity l \<equiv> ps_identity (el_store l)"

definition evidence_record ::
  "jdigest \<Rightarrow> string \<Rightarrow> string \<Rightarrow> jdict \<Rightarrow> string \<Rightarrow> jdict \<Rightarrow> jdict" where
  "evidence_record jd fresh kind identity attempt_id extra =
     sealed_with jd ''checksum''
       (fold (\<lambda>(k, v). jput k v) extra
         [(''attempt_id'', JStr attempt_id), (''evidence_id'', JStr fresh), (''identity'', JObj identity),
          (''kind'', JStr kind)])"

definition ledger_add ::
  "string \<Rightarrow> string \<Rightarrow> string \<Rightarrow> jdict \<Rightarrow> evidence_ledger \<Rightarrow> jvalue res \<times> evidence_ledger" where
  "ledger_add fresh kind attempt_id extra l =
    (let r = evidence_record (el_digest l) fresh kind (ledger_identity l) attempt_id extra
     in (dict_at r ''evidence_id'',
         l\<lparr>el_store := snd (append_event (el_digest l) ''evidence'' r (el_store l))\<rparr>))"

definition sealed_record :: "evidence_ledger \<Rightarrow> jdict \<Rightarrow> bool" where
  "sealed_record l r \<longleftrightarrow> dget r ''checksum'' = JStr (el_digest l (JObj (jdel ''checksum'' r)))"

definition in_scope :: "evidence_ledger \<Rightarrow> jdict \<Rightarrow> bool" where
  "in_scope l r \<longleftrightarrow> dget r ''identity'' = JObj (ledger_identity l)"

definition ledger_get :: "evidence_ledger \<Rightarrow> jvalue \<Rightarrow> jdict option res" where
  "ledger_get l key =
     bindR (evidence_records l) (\<lambda>records.
       ok (case al_get records key of
             None \<Rightarrow> None
           | Some r \<Rightarrow> if r \<noteq> [] \<and> sealed_record l r \<and> in_scope l r then Some r else None))"

subsection \<open>The check of one record\<close>

text \<open>A check either stops with a status and a reason or goes on.\<close>

type_synonym verdict = "(string \<times> string) option"

definition stop_unless :: "bool \<Rightarrow> string \<Rightarrow> string \<Rightarrow> verdict" where
  "stop_unless c status reason = (if c then None else Some (status, reason))"

definition environment_check :: "evidence_ledger \<Rightarrow> jdict \<Rightarrow> verdict res" where
  "environment_check l r =
     (if dget r ''kind'' \<notin> {JStr ''tests_passed'', JStr ''static_checked''} then ok None
      else case el_environment l of
        None \<Rightarrow> ok None
      | Some env \<Rightarrow>
         bindR (as_dict (dget_or r ''receipt'' (JObj []))) (\<lambda>receipt.
           ok (if \<not> jtruthy (dget receipt ''verification_binding'')
               then Some (''unknown'', ''verification_environment_binding_missing'')
               else case env of
                 None \<Rightarrow> Some (''unknown'', ''verification_environment_unverifiable'')
               | Some now \<Rightarrow> stop_unless (now = dget receipt ''verification_binding'')
                   ''stale'' ''verification_environment_changed'')))"

definition versions_current :: "jdict \<Rightarrow> jdict \<Rightarrow> jdict \<Rightarrow> bool" where
  "versions_current r versions current \<longleftrightarrow>
     \<not> (jtruthy (dget r ''whole_workspace'') \<and> versions \<noteq> current) \<and>
     list_all (\<lambda>(p, h). dget current p = h) versions"

definition current_check :: "evidence_ledger \<Rightarrow> jdict \<Rightarrow> verdict res" where
  "current_check l r =
     (case dget r ''file_versions'' of
        JObj versions \<Rightarrow>
         (case el_snapshot l of
            None \<Rightarrow> ok (Some (''unknown'', ''workspace_unverifiable''))
          | Some current \<Rightarrow>
             if \<not> versions_current r versions current then ok (Some (''stale'', ''source_changed''))
             else environment_check l r)
      | _ \<Rightarrow> ok (Some (''unknown'', ''file_versions_missing'')))"

definition scope_check :: "evidence_ledger \<Rightarrow> jdict \<Rightarrow> verdict" where
  "scope_check l r =
     (if \<not> sealed_record l r then Some (''invalid'', ''evidence_checksum_mismatch'')
      else if \<not> in_scope l r then Some (''invalid'', ''evidence_scope_mismatch'')
      else None)"

text \<open>An archived observation is read from its blob, another one from the observation store.\<close>

definition text_check :: "evidence_ledger \<Rightarrow> bool \<Rightarrow> jvalue \<Rightarrow> string \<Rightarrow> verdict" where
  "text_check l identity_ok expected content =
     (if \<not> identity_ok then Some (''invalid'', ''observation_scope_or_checksum_mismatch'')
      else stop_unless (jtruthy expected \<and> JStr (el_sha l content) = expected)
        ''invalid'' ''blob_checksum_mismatch'')"

definition observation_check :: "evidence_ledger \<Rightarrow> jdict \<Rightarrow> verdict res" where
  "observation_check l r =
     (if jtruthy (dget r ''observation_record'') \<and> jtruthy (dget r ''blob_ref'')
      then
        bindR (as_str (dget r ''blob_ref'')) (\<lambda>ref.
        case get_blob (el_sha l) ref (el_store l) of
          Inl e \<Rightarrow> ok (Some (''invalid'', ''blob_unavailable''))
        | Inr content \<Rightarrow>
           bindR (as_dict (dget r ''observation_record'')) (\<lambda>a.
           bindR (dict_at (ledger_identity l) ''run_id'') (\<lambda>run.
           bindR (dict_at (ledger_identity l) ''session_id'') (\<lambda>session.
           (let expected = dget_or r ''observation_checksum'' (JStr []) in
            ok (text_check l (dget a ''observation_id'' = dget r ''observation_id'' \<and>
                  dget a ''run_id'' = run \<and> dget a ''session_id'' = session \<and> dget a ''checksum'' = expected)
                expected content))))))
      else
        bindR (dict_at (ledger_identity l) ''session_id'') (\<lambda>session.
        case el_observe l (dget_or r ''observation_id'' (JStr [])) of
          None \<Rightarrow> ok (Some (''invalid'', ''observation_missing''))
        | Some ob \<Rightarrow>
           bindR (dict_at (ledger_identity l) ''run_id'') (\<lambda>run.
             ok (text_check l (ob_run ob = run \<and> ob_session ob = session \<and>
                   ob_checksum ob = dget r ''observation_checksum'')
                 (ob_checksum ob) (ob_text ob)))))"

definition patch_check :: "evidence_ledger \<Rightarrow> jdict \<Rightarrow> verdict res" where
  "patch_check l r =
     bindR (as_dict (dget_or r ''receipt'' (JObj []))) (\<lambda>receipt.
     bindR (dict_at (ledger_identity l) ''run_id'') (\<lambda>run.
       ok (stop_unless
         (dget receipt ''status'' = JStr ''success'' \<and> jtruthy (dget r ''changed_paths'') \<and>
          dget receipt ''run_id'' = run \<and> jtruthy (dget receipt ''call_id'') \<and>
          jtruthy (dget receipt ''receipt_id'') \<and> dget r ''execution_stopped'' = JBool True \<and>
          jtruthy (dget r ''observation_refs''))
         ''invalid'' ''patch_receipt_invalid'')))"

fun positive_count :: "jvalue \<Rightarrow> bool" where
  "positive_count (JInt n) = (n > 0)"
| "positive_count (JReal x) = (x > 0)"
| "positive_count (JBool b) = b"
| "positive_count v = False"

definition verification_check :: "evidence_ledger \<Rightarrow> jdict \<Rightarrow> verdict res" where
  "verification_check l r =
     bindR (as_dict (dget_or r ''receipt'' (JObj []))) (\<lambda>receipt.
     bindR (dict_at (ledger_identity l) ''run_id'') (\<lambda>run.
     bindR (dict_at r ''attempt_id'') (\<lambda>attempt.
     (let static = (dget r ''kind'' = JStr ''static_checked'') in
      ok (stop_unless
        (jtruthy (dget receipt (if static then ''operation'' else ''command'')) \<and>
         dget receipt ''completed'' = JBool True \<and> dget receipt ''all_passed'' = JBool True \<and>
         (if static
          then dget receipt ''mode'' = JStr ''static'' \<and> dget receipt ''category'' = JStr ''static_passed''
          else positive_count (dget_or receipt ''total_tests'' (JInt 0)) \<and>
            dget_or receipt ''mode'' (JStr ''tests'') = JStr ''tests'') \<and>
         dget receipt ''run_id'' = run \<and> dget receipt ''attempt_id'' = attempt \<and>
         dget r ''execution_stopped'' = JBool True)
        ''invalid'' ''verification_receipt_invalid'')))))"

definition kind_check :: "evidence_ledger \<Rightarrow> jdict \<Rightarrow> verdict res" where
  "kind_check l r =
     bindR (dict_at r ''kind'') (\<lambda>kind.
       if kind = JStr ''observation_present'' then observation_check l r
       else if kind = JStr ''analysis_recorded'' then
         ok (stop_unless (jtruthy (dget r ''conclusion'') \<and> jtruthy (dget r ''input_refs''))
           ''invalid'' ''analysis_inputs_or_conclusion_missing'')
       else if kind = JStr ''patch_applied'' then patch_check l r
       else if kind \<in> {JStr ''tests_passed'', JStr ''static_checked''} then verification_check l r
       else ok (Some (''invalid'', ''evidence_kind_unsupported'')))"

text \<open>The references a record depends on, and whether they are checked as historical.\<close>

definition dependency_refs :: "jdict \<Rightarrow> jvalue list res" where
  "dependency_refs r =
     (if dget r ''kind'' = JStr ''analysis_recorded'' then as_list (dget r ''input_refs'')
      else if dget r ''kind'' = JStr ''patch_applied'' then as_list (dget r ''observation_refs'')
      else ok [])"

definition dependency_mode :: "bool \<Rightarrow> jdict \<Rightarrow> bool" where
  "dependency_mode historical r \<longleftrightarrow> historical \<or> dget r ''kind'' = JStr ''patch_applied''"

definition and_then :: "verdict res \<Rightarrow> verdict res \<Rightarrow> verdict res" where
  "and_then m m' = bindR m (\<lambda>v. case v of None \<Rightarrow> m' | Some s \<Rightarrow> ok (Some s))"

definition record_check :: "evidence_ledger \<Rightarrow> bool \<Rightarrow> jdict \<Rightarrow> verdict res" where
  "record_check l historical r =
     and_then (ok (scope_check l r))
    (and_then (ok (stop_unless (dget r ''status'' = JStr ''success'') ''invalid'' ''evidence_not_successful''))
    (and_then (if historical then ok None else current_check l r)
       (kind_check l r)))"

subsection \<open>The check of a record with its dependencies\<close>

datatype inspection = Inspection
  (in_ref: jvalue) (in_use: string) (in_kind: jvalue) (in_checksum: jvalue) (in_observation: jvalue)
  (in_deps: "inspection list") (in_failed: jvalue) (in_status: string) (in_reason: string)

definition use_of :: "bool \<Rightarrow> string" where
  "use_of historical = (if historical then ''historical'' else ''current'')"

text \<open>The entries of the result that are set while the record is checked.\<close>

definition report :: "evidence_ledger \<Rightarrow> bool \<Rightarrow> jvalue \<Rightarrow> jdict \<Rightarrow> inspection list \<Rightarrow> jvalue \<Rightarrow> string \<times> string \<Rightarrow> inspection" where
  "report l historical key r deps failed verdict =
    (let scoped = (scope_check l r = None) in
     Inspection key (use_of historical)
       (if scoped then dget_or r ''kind'' (JStr []) else JStr [])
       (if scoped then dget r ''checksum'' else JNull)
       (if scoped \<and> dget r ''kind'' = JStr ''observation_present''
            \<and> dget r ''status'' = JStr ''success'' \<and> (historical \<or> current_check l r = ok None)
        then dget_or r ''observation_id'' (JStr []) else JNull)
       deps failed (fst verdict) (snd verdict))"

definition conclude :: "evidence_ledger \<Rightarrow> bool \<Rightarrow> jvalue \<Rightarrow> jdict \<Rightarrow> inspection list \<Rightarrow> inspection" where
  "conclude l historical key r deps =
     (case find (\<lambda>d. in_status d \<noteq> ''valid'') deps of
        Some d \<Rightarrow> report l historical key r deps (in_ref d)
          (in_status d, ''dependency_unusable:'' @ in_reason d)
      | None \<Rightarrow> report l historical key r deps JNull
          (''valid'', if historical then ''historical_integrity_checked'' else ''current_predicate_checked''))"

definition no_record :: "bool \<Rightarrow> jvalue \<Rightarrow> string \<Rightarrow> inspection" where
  "no_record historical key reason =
     Inspection key (use_of historical) (JStr []) JNull JNull [] JNull ''invalid'' reason"

lemma mapR_cong [fundef_cong]:
  "xs = ys \<Longrightarrow> (\<And>x. x \<in> set ys \<Longrightarrow> f x = g x) \<Longrightarrow> mapR f xs = mapR g ys"
  by (induction ys arbitrary: xs) auto

function inspect_records ::
  "evidence_ledger \<Rightarrow> (jvalue, jdict) alist \<Rightarrow> bool \<Rightarrow> jvalue list \<Rightarrow> jvalue \<Rightarrow> inspection res" where
  "inspect_records l records historical seen key =
     (if key \<in> set seen then ok (no_record historical key ''evidence_cycle'')
      else case al_get records key of
        None \<Rightarrow> ok (no_record historical key ''evidence_missing'')
      | Some r \<Rightarrow>
         if r = [] then ok (no_record historical key ''evidence_missing'')
         else bindR (record_check l historical r) (\<lambda>v.
           case v of
             Some verdict \<Rightarrow> ok (report l historical key r [] JNull verdict)
           | None \<Rightarrow>
              bindR (dependency_refs r) (\<lambda>refs.
              bindR (mapR (inspect_records l records (dependency_mode historical r) (key # seen)) refs) (\<lambda>deps.
                ok (conclude l historical key r deps)))))"
  by pat_completeness auto
termination
proof (relation "measure (\<lambda>(l, records, historical, seen, key). card (set (al_keys records) - set seen))", goal_cases)
  case (2 l records historical seen key r v refs ref)
  then have "key \<in> set (al_keys records)" by (auto intro: al_get_Some_key)
  with 2 have "set (al_keys records) - set (key # seen) \<subset> set (al_keys records) - set seen" by auto
  then show ?case by (simp add: psubset_card_mono)
qed simp

declare inspect_records.simps [simp del]

definition inspect :: "evidence_ledger \<Rightarrow> bool \<Rightarrow> jvalue \<Rightarrow> inspection res" where
  "inspect l historical key =
     bindR (evidence_records l) (\<lambda>records. inspect_records l records historical [] key)"

definition valid_evidence :: "evidence_ledger \<Rightarrow> bool \<Rightarrow> jvalue \<Rightarrow> bool res" where
  "valid_evidence l historical key =
     bindR (inspect l historical key) (\<lambda>d. ok (in_status d = ''valid''))"

subsection \<open>Support\<close>

text \<open>A record is supported when its own checks pass and every record it depends on is supported: the
  least such relation, hence without infinite or circular chains.\<close>

inductive supported :: "evidence_ledger \<Rightarrow> (jvalue, jdict) alist \<Rightarrow> bool \<Rightarrow> jvalue \<Rightarrow> bool"
  for l :: evidence_ledger and records :: "(jvalue, jdict) alist" where
  supportedI: "al_get records key = Some r \<Longrightarrow> r \<noteq> [] \<Longrightarrow> record_check l h r = Inr None \<Longrightarrow>
     dependency_refs r = Inr refs \<Longrightarrow>
     \<forall>ref \<in> set refs. supported l records (dependency_mode h r) ref \<Longrightarrow> supported l records h key"

inductive_cases supportedE: "supported l records h key"

lemma and_then_ok [simp]:
  "and_then m m' = Inr None \<longleftrightarrow> m = Inr None \<and> m' = Inr None"
  "and_then m m' = Inr (Some s) \<longleftrightarrow> m = Inr (Some s) \<or> m = Inr None \<and> m' = Inr (Some s)"
  by (auto simp: and_then_def bindR_ok_iff split: option.splits)

definition negative :: "verdict res \<Rightarrow> bool" where
  "negative m \<longleftrightarrow> (\<forall>s. m = Inr (Some s) \<longrightarrow> fst s \<noteq> ''valid'')"

lemma negative_stop [simp]: "s \<noteq> ''valid'' \<Longrightarrow> negative (ok (stop_unless c s w))"
  "negative (ok None)" "s \<noteq> ''valid'' \<Longrightarrow> negative (ok (Some (s, w)))" "negative (Inl e)"
  by (auto simp: negative_def stop_unless_def)

lemma negative_bind: "(\<And>x. m = Inr x \<Longrightarrow> negative (f x)) \<Longrightarrow> negative (bindR m f)"
  by (cases m) auto

lemma negative_and_then: "negative m \<Longrightarrow> negative m' \<Longrightarrow> negative (and_then m m')"
  by (auto simp: negative_def)

lemma negative_text: "negative (ok (text_check l c e t))"
  by (auto simp: text_check_def)

lemma negative_checks: "negative (environment_check l r)" "negative (observation_check l r)"
  "negative (patch_check l r)" "negative (verification_check l r)"
  unfolding environment_check_def observation_check_def patch_check_def verification_check_def
  by (auto intro!: negative_bind negative_text simp: Let_def split: option.splits sum.splits)

lemma negative_record_check: "negative (record_check l h r)"
proof -
  have "negative (ok (scope_check l r))" by (simp add: scope_check_def)
  moreover have "negative (current_check l r)"
    by (auto simp: current_check_def negative_checks split: jvalue.splits option.splits)
  moreover have "negative (kind_check l r)"
    unfolding kind_check_def by (rule negative_bind) (auto simp: negative_checks)
  ultimately show ?thesis
    unfolding record_check_def by (intro negative_and_then) auto
qed

lemma report_status [simp]: "in_status (report l h key r deps failed v) = fst v"
  by (simp add: report_def Let_def)

lemma conclude_valid [simp]:
  "in_status (conclude l h key r deps) = ''valid'' \<longleftrightarrow> list_all (\<lambda>d. in_status d = ''valid'') deps"
  by (auto simp: conclude_def list_all_iff find_None_iff find_Some_iff split: option.splits)

lemma inspect_validE:
  assumes "inspect_records l records h seen key = Inr rep" "in_status rep = ''valid''"
  obtains r refs deps where "key \<notin> set seen" "al_get records key = Some r" "r \<noteq> []"
    "record_check l h r = Inr None" "dependency_refs r = Inr refs"
    "mapR (inspect_records l records (dependency_mode h r) (key # seen)) refs = Inr deps"
    "list_all (\<lambda>d. in_status d = ''valid'') deps" "rep = conclude l h key r deps"
proof -
  have not_seen: "key \<notin> set seen"
    using assms by (subst (asm) inspect_records.simps) (auto simp: no_record_def split: if_splits)
  then obtain r where r: "al_get records key = Some r" "r \<noteq> []"
    using assms by (subst (asm) inspect_records.simps) (auto simp: no_record_def split: option.splits if_splits)
  then obtain v where v: "record_check l h r = Inr v"
    using assms not_seen by (subst (asm) inspect_records.simps) (auto simp: bindR_ok_iff)
  have "v = None"
    using assms not_seen r v negative_record_check[of l h r]
    by (subst (asm) inspect_records.simps) (auto simp: negative_def split: option.splits)
  then obtain refs deps where "dependency_refs r = Inr refs"
    "mapR (inspect_records l records (dependency_mode h r) (key # seen)) refs = Inr deps"
    "list_all (\<lambda>d. in_status d = ''valid'') deps" "rep = conclude l h key r deps"
    using assms not_seen r v by (subst (asm) inspect_records.simps) (auto simp: bindR_ok_iff)
  with not_seen r v \<open>v = None\<close> that show ?thesis by blast
qed

lemma inspect_supported:
  "inspect_records l records h seen key = Inr rep \<Longrightarrow> in_status rep = ''valid'' \<Longrightarrow> supported l records h key"
proof (induction l records h seen key arbitrary: rep rule: inspect_records.induct)
  case (1 l records h seen key)
  from "1.prems" obtain r refs deps where r: "key \<notin> set seen" "al_get records key = Some r" "r \<noteq> []"
    "record_check l h r = Inr None" "dependency_refs r = Inr refs"
    "mapR (inspect_records l records (dependency_mode h r) (key # seen)) refs = Inr deps"
    "list_all (\<lambda>d. in_status d = ''valid'') deps"
    by (rule inspect_validE)
  have "supported l records (dependency_mode h r) ref" if ref: "ref \<in> set refs" for ref
    using mapR_mem[OF r(6) ref] "1.IH"[OF r(1-4) refl r(5) ref] r(7) by (auto simp: list_all_iff)
  with r(2-5) show ?case by (auto intro: supportedI)
qed

text \<open>A valid inspection reports the seal of the record it stands for.\<close>

lemma inspect_valid_checksum:
  assumes "inspect l h key = Inr rep" "in_status rep = ''valid''"
  shows "in_ref rep = key" "\<exists>v. in_checksum rep = JStr (el_digest l v)"
proof -
  from assms(1) obtain records where "inspect_records l records h [] key = Inr rep"
    by (auto simp: inspect_def bindR_ok_iff)
  then obtain r deps where r: "record_check l h r = Inr None" "list_all (\<lambda>d. in_status d = ''valid'') deps"
    and rep: "rep = conclude l h key r deps"
    using assms(2) by (rule inspect_validE)
  have "find (\<lambda>d. in_status d \<noteq> ''valid'') deps = None"
    using r(2) by (auto simp: find_None_iff list_all_iff)
  then have rep': "rep = report l h key r deps JNull
      (''valid'', if h then ''historical_integrity_checked'' else ''current_predicate_checked'')"
    by (simp add: rep conclude_def)
  have "scope_check l r = None" using r(1) by (simp add: record_check_def)
  then have "sealed_record l r" "scope_check l r = None" by (auto simp: scope_check_def split: if_splits)
  then show "in_ref rep = key" "\<exists>v. in_checksum rep = JStr (el_digest l v)"
    by (auto simp: rep' report_def sealed_record_def)
qed

definition dependency_edges :: "(jvalue, jdict) alist \<Rightarrow> (jvalue \<times> jvalue) set" where
  "dependency_edges records =
     {(ref, key). \<exists>r refs. al_get records key = Some r \<and> dependency_refs r = Inr refs \<and> ref \<in> set refs}"

lemma supported_acc: "supported l records h key \<Longrightarrow> key \<in> Wellfounded.acc (dependency_edges records)"
proof (induction rule: supported.induct)
  case (supportedI key r h refs)
  show ?case
  proof (rule acc.accI)
    fix y assume "(y, key) \<in> dependency_edges records"
    then have "y \<in> set refs"
      using supportedI.hyps(1,4) by (simp add: dependency_edges_def)
    then show "y \<in> Wellfounded.acc (dependency_edges records)" using supportedI.IH by blast
  qed
qed

lemma acc_no_cycle: "x \<in> Wellfounded.acc R \<Longrightarrow> (x, x) \<notin> R\<^sup>+"
proof (induction rule: acc.induct)
  case (accI x)
  show ?case
  proof
    assume "(x, x) \<in> R\<^sup>+"
    then obtain y where y: "(x, y) \<in> R\<^sup>*" "(y, x) \<in> R" by (meson tranclD2)
    then have "(y, y) \<in> R\<^sup>+" by (meson rtrancl_into_trancl2)
    with accI.IH[OF y(2)] show False by blast
  qed
qed

lemma supported_inspects:
  "supported l records h key \<Longrightarrow> (\<forall>s \<in> set seen. (s, key) \<notin> (dependency_edges records)\<^sup>*) \<Longrightarrow>
     \<exists>rep. inspect_records l records h seen key = Inr rep \<and> in_status rep = ''valid''"
proof (induction arbitrary: seen rule: supported.induct)
  case (supportedI key r h refs)
  let ?E = "dependency_edges records"
  have "supported l records h key"
    using supportedI.hyps supportedI.IH by (intro supported.supportedI) auto
  then have acyc: "(key, key) \<notin> ?E\<^sup>+" by (rule acc_no_cycle[OF supported_acc])
  have "key \<notin> set seen" using supportedI.prems by blast
  have dep: "\<exists>d. inspect_records l records (dependency_mode h r) (key # seen) ref = Inr d \<and> in_status d = ''valid''"
    if ref: "ref \<in> set refs" for ref
  proof -
    have edge: "(ref, key) \<in> ?E" using supportedI.hyps(1,4) ref by (auto simp: dependency_edges_def)
    have "(s, ref) \<notin> ?E\<^sup>*" if "s \<in> set (key # seen)" for s
      using that supportedI.prems acyc edge
      by (auto dest: rtrancl_into_trancl1 rtrancl_into_rtrancl)
    with supportedI.IH ref show ?thesis by blast
  qed
  then obtain f where f: "\<And>ref. ref \<in> set refs \<Longrightarrow>
      inspect_records l records (dependency_mode h r) (key # seen) ref = Inr (f ref) \<and> in_status (f ref) = ''valid''"
    by metis
  have "mapR (inspect_records l records (dependency_mode h r) (key # seen)) refs = Inr (map f refs)"
    using f by (auto simp: mapR_ok_iff list_all2_conv_all_nth)
  then show ?case
    using supportedI.hyps \<open>key \<notin> set seen\<close> f
    by (subst inspect_records.simps) (auto simp: list_all_iff)
qed

text \<open>C13. The recursive check of evidence, with the records on the current path as its cycle guard,
  returns \<open>valid\<close> exactly for the records with a cycle-free support: its own seal, scope, status,
  currency and kind checks pass, and so do those of every record it rests on.\<close>

theorem evidence_valid_iff_supported:
  "valid_evidence l historical key = ok True \<longleftrightarrow>
     (\<exists>records. evidence_records l = ok records \<and> supported l records historical key)"
proof
  assume "valid_evidence l historical key = ok True"
  then show "\<exists>records. evidence_records l = ok records \<and> supported l records historical key"
    by (auto simp: valid_evidence_def inspect_def bindR_ok_iff dest: inspect_supported)
next
  assume "\<exists>records. evidence_records l = ok records \<and> supported l records historical key"
  then obtain records where records: "evidence_records l = ok records" "supported l records historical key" by blast
  from supported_inspects[OF this(2), of "[]"] obtain rep where
    "inspect_records l records historical [] key = Inr rep" "in_status rep = ''valid''" by auto
  with records(1) show "valid_evidence l historical key = ok True"
    by (simp add: valid_evidence_def inspect_def)
qed

text \<open>A record and a ledger in which it is valid: an observation archived in a blob.\<close>

definition plain_hash :: "string \<Rightarrow> string" where
  "plain_hash s = replicate 64 (CHR ''a'')"

definition demo_identity :: jdict where
  "demo_identity = [(''run_id'', JStr ''r''), (''session_id'', JStr ''s''), (''task_id'', JStr ''t'')]"

definition empty_ledger :: evidence_ledger where
  "empty_ledger = \<lparr>el_digest = sum_digest, el_sha = plain_hash,
     el_store = snd (put_blob plain_hash ''seen'' (snd (append_event sum_digest ''identity'' demo_identity
       \<lparr>ps_identity = demo_identity, ps_rows = [], ps_blobs = []\<rparr>))),
     el_snapshot = Some [(''a.py'', JStr ''v1'')], el_environment = None, el_observe = (\<lambda>_. None)\<rparr>"

definition demo_observation :: jdict where
  "demo_observation =
     [(''status'', JStr ''success''), (''observation_id'', JStr ''o''),
      (''observation_checksum'', JStr (plain_hash [])),
      (''observation_record'', JObj [(''checksum'', JStr (plain_hash [])), (''observation_id'', JStr ''o''),
         (''run_id'', JStr ''r''), (''session_id'', JStr ''s'')]),
      (''blob_ref'', JStr (plain_hash [])), (''file_versions'', JObj [(''a.py'', JStr ''v1'')]),
      (''whole_workspace'', JBool True)]"

definition demo_ledger :: evidence_ledger where
  "demo_ledger = snd (ledger_add ''E2'' ''analysis_recorded'' ''a''
     [(''status'', JStr ''success''), (''conclusion'', JStr ''cause''), (''input_refs'', JList [JStr ''E1'']),
      (''file_versions'', JObj [(''a.py'', JStr ''v1'')])]
     (snd (ledger_add ''E1'' ''observation_present'' ''a'' demo_observation empty_ledger)))"

lemma demo_ledger_valid:
  "valid_evidence demo_ledger False (JStr ''E2'') = ok True"
  "valid_evidence (demo_ledger\<lparr>el_snapshot := Some [(''a.py'', JStr ''v2'')]\<rparr>) False (JStr ''E2'') = ok False"
  by code_simp+

theorem evidence_valid_iff_supported_witness:
  "\<exists>records. evidence_records demo_ledger = ok records \<and> supported demo_ledger records False (JStr ''E2'')"
  using evidence_valid_iff_supported[of demo_ledger False "JStr ''E2''"] demo_ledger_valid(1) by blast

abbreviation at_another_time :: "jdict option \<Rightarrow> jvalue option option \<Rightarrow> evidence_ledger \<Rightarrow> evidence_ledger" where
  "at_another_time snap env l \<equiv> l\<lparr>el_snapshot := snap, el_environment := env\<rparr>"

lemma timeless_fields:
  "el_sha (at_another_time snap env l) = el_sha l" "el_store (at_another_time snap env l) = el_store l"
  "el_observe (at_another_time snap env l) = el_observe l"
  by simp_all

lemma timeless_checks:
  "scope_check (at_another_time snap env l) r = scope_check l r"
  "text_check (at_another_time snap env l) c v t = text_check l c v t"
  by (simp_all add: scope_check_def sealed_record_def in_scope_def text_check_def)

lemma timeless_kind: "kind_check (at_another_time snap env l) r = kind_check l r"
proof -
  have obs: "observation_check (at_another_time snap env l) r = observation_check l r"
    unfolding observation_check_def timeless_checks timeless_fields ..
  have patch: "patch_check (at_another_time snap env l) r = patch_check l r"
    unfolding patch_check_def timeless_fields ..
  have verification: "verification_check (at_another_time snap env l) r = verification_check l r"
    unfolding verification_check_def timeless_fields ..
  show ?thesis unfolding kind_check_def obs patch verification ..
qed

lemma timeless_report:
  "report (at_another_time snap env l) True key r deps failed v = report l True key r deps failed v"
  "conclude (at_another_time snap env l) True key r deps = conclude l True key r deps"
  "record_check (at_another_time snap env l) True r = record_check l True r"
  by (simp_all add: report_def conclude_def record_check_def timeless_checks timeless_kind split: option.splits)

lemma timeless_inspect:
  "h \<Longrightarrow> inspect_records (at_another_time snap env l) recs h seen k = inspect_records l recs h seen k"
proof (induction l recs h seen k rule: inspect_records.induct)
  case (1 l recs h seen k)
  have IH: "inspect_records (at_another_time snap env l) recs (dependency_mode h r) (k # seen) ref =
      inspect_records l recs (dependency_mode h r) (k # seen) ref"
    if "k \<notin> set seen" "al_get recs k = Some r" "r \<noteq> []" "record_check l h r = Inr None"
      "dependency_refs r = Inr refs" "ref \<in> set refs" for r refs ref
    using "1.IH"[OF that(1-4) refl that(5,6)] "1.prems" by (simp add: dependency_mode_def)
  have deps: "mapR (inspect_records (at_another_time snap env l) recs (dependency_mode h r) (k # seen)) refs =
      mapR (inspect_records l recs (dependency_mode h r) (k # seen)) refs"
    if "k \<notin> set seen" "al_get recs k = Some r" "r \<noteq> []" "record_check l h r = Inr None"
      "dependency_refs r = Inr refs" for r refs
    by (rule mapR_cong[OF refl]) (rule IH[OF that])
  show ?case
  proof (cases "k \<in> set seen \<or> al_get recs k = None \<or> al_get recs k = Some []")
    case True
    then show ?thesis by (subst (1 2) inspect_records.simps) auto
  next
    case False
    then obtain r where r: "al_get recs k = Some r" "r \<noteq> []" "k \<notin> set seen" by auto
    show ?thesis
    proof (cases "record_check l h r = Inr None")
      case True
      then show ?thesis
        using r deps[OF r(3,1,2) True] "1.prems"
        by (subst (1 2) inspect_records.simps) (cases "dependency_refs r"; simp add: timeless_report)
    next
      case False
      then show ?thesis
        using r "1.prems"
        by (subst (1 2) inspect_records.simps)
           (cases "record_check l h r"; auto simp: timeless_report split: option.splits)
    qed
  qed
qed

text \<open>A historical check never depends on the current workspace or environment: its whole result
  is the same for every current snapshot and environment, because the records it follows are
  checked as historical too.\<close>

theorem historical_check_is_timeless:
  "inspect (l\<lparr>el_snapshot := snap, el_environment := env\<rparr>) True key = inspect l True key"
  by (simp add: inspect_def evidence_records_def timeless_inspect)

subsection \<open>Completion of a plan node\<close>

fun filterR :: "('a \<Rightarrow> bool res) \<Rightarrow> 'a list \<Rightarrow> 'a list res" where
  "filterR f [] = ok []"
| "filterR f (x # xs) =
     bindR (f x) (\<lambda>b. bindR (filterR f xs) (\<lambda>ys. ok (if b then x # ys else ys)))"

fun allR :: "('a \<Rightarrow> bool res) \<Rightarrow> 'a list \<Rightarrow> bool res" where
  "allR f [] = ok True"
| "allR f (x # xs) = bindR (f x) (\<lambda>b. if b then allR f xs else ok False)"

definition ledger_entry :: "evidence_ledger \<Rightarrow> string \<Rightarrow> string \<Rightarrow> jvalue res" where
  "ledger_entry l k ref =
     bindR (ledger_get l (JStr ref)) (\<lambda>g. ok (case g of Some d \<Rightarrow> dget d k | None \<Rightarrow> JNull))"

definition serves :: "evidence_ledger \<Rightarrow> string \<Rightarrow> string \<Rightarrow> string \<Rightarrow> bool res" where
  "serves l kind attempt_id ref =
     bindR (valid_evidence l False (JStr ref)) (\<lambda>v.
       if \<not> v then ok False
       else if kind = ''observation_present'' then ok True
       else bindR (ledger_entry l ''attempt_id'' ref) (\<lambda>a. ok (a = JStr attempt_id)))"

definition predicate_holds :: "evidence_ledger \<Rightarrow> string list \<Rightarrow> string \<Rightarrow> completion \<Rightarrow> bool res" where
  "predicate_holds l refs attempt_id c =
     bindR (filterR (\<lambda>ref. bindR (ledger_entry l ''kind'' ref) (\<lambda>k. ok (k = JStr (cp_kind c))))
              (if cp_refs c \<noteq> [] then cp_refs c else refs)) (\<lambda>matching.
       if matching = [] then ok False else allR (serves l (cp_kind c) attempt_id) matching)"

definition completion_holds :: "evidence_ledger \<Rightarrow> plan_node \<Rightarrow> string list \<Rightarrow> string \<Rightarrow> bool res" where
  "completion_holds l n refs attempt_id = allR (predicate_holds l refs attempt_id) (pn_completion n)"

text \<open>The ledger as the reducer asks it.\<close>

definition ledger_view :: "evidence_ledger \<Rightarrow> evidence_view" where
  "ledger_view l = \<lparr>ev_valid = (\<lambda>ref. valid_evidence l False (JStr ref) = ok True),
     ev_completion = (\<lambda>n refs attempt_id. completion_holds l n refs attempt_id = ok True)\<rparr>"

lemma allR_True: "allR f xs = Inr True \<longleftrightarrow> (\<forall>x \<in> set xs. f x = Inr True)"
proof (induction xs)
  case (Cons x xs)
  then show ?case by (cases "f x") auto
qed simp

lemma filterR_mem: "filterR f xs = Inr ys \<Longrightarrow> y \<in> set ys \<Longrightarrow> y \<in> set xs \<and> f y = Inr True"
  by (induction xs arbitrary: ys) (auto simp: bindR_ok_iff split: if_splits)

text \<open>What a current piece of evidence for a predicate is.  An observation (the completion of explore nodes)
  may come from another attempt: \<open>completion\<close> of the evidence ledger does not compare attempts there.\<close>

definition current_proof :: "evidence_ledger \<Rightarrow> string \<Rightarrow> string \<Rightarrow> jdict \<Rightarrow> bool" where
  "current_proof l kind attempt_id d \<longleftrightarrow>
     dget d ''kind'' = JStr kind \<and> dget d ''status'' = JStr ''success'' \<and>
     (kind = ''observation_present'' \<or> dget d ''attempt_id'' = JStr attempt_id) \<and>
     (\<exists>versions current. dget d ''file_versions'' = JObj versions \<and> el_snapshot l = Some current \<and>
        versions_current d versions current)"

lemma supported_current:
  assumes "evidence_records l = ok records" "supported l records False key"
  shows "\<exists>d. ledger_get l key = ok (Some d) \<and> dget d ''status'' = JStr ''success'' \<and>
     (\<exists>versions current. dget d ''file_versions'' = JObj versions \<and> el_snapshot l = Some current \<and>
        versions_current d versions current)"
proof -
  from assms(2) obtain r where r: "al_get records key = Some r" "r \<noteq> []" "record_check l False r = Inr None"
    by (auto elim: supportedE)
  have chk: "scope_check l r = None" "dget r ''status'' = JStr ''success''" "current_check l r = Inr None"
    using r(3) by (auto simp: record_check_def stop_unless_def split: if_splits)
  have "sealed_record l r" "in_scope l r" using chk(1) by (auto simp: scope_check_def split: if_splits)
  then have "ledger_get l key = ok (Some r)" using assms(1) r by (simp add: ledger_get_def)
  moreover have "\<exists>versions current. dget r ''file_versions'' = JObj versions \<and> el_snapshot l = Some current \<and>
        versions_current r versions current"
    using chk(3) by (auto simp: current_check_def split: jvalue.splits option.splits if_splits)
  ultimately show ?thesis using chk(2) by blast
qed

text \<open>C8. A node succeeds only on current evidence, of its own attempt except for observations: when the reducer accepts the
  transition of a node to \<open>succeeded\<close> with this ledger, every completion predicate of the node is met by a
  referenced record of the right kind that is supported now, whose file versions are those of
  the current workspace, and which belongs to the attempt that reports the success, unless the
  predicate asks for an observation, which may come from another attempt.\<close>

theorem success_rests_on_current_evidence:
  assumes "plan_transition dg (Some (ledger_view l)) now p k ''succeeded'' attempt_id expected f = ok p'"
    and "plan_node_of p k = ok node" "c \<in> set (pn_completion node)"
  shows "\<exists>ref d. ref \<in> set (if cp_refs c \<noteq> [] then cp_refs c
        else case nf_outputs f of Some refs \<Rightarrow> refs | None \<Rightarrow> pn_outputs node) \<and>
     ledger_get l (JStr ref) = ok (Some d) \<and> current_proof l (cp_kind c) attempt_id d \<and>
     (\<exists>records. evidence_records l = ok records \<and> supported l records False (JStr ref))"
proof -
  let ?refs = "case nf_outputs f of Some refs \<Rightarrow> refs | None \<Rightarrow> pn_outputs node"
  have "check_transition (Some (ledger_view l)) p node ''succeeded'' attempt_id expected f = ok ()"
    using assms(1,2) by (auto simp: plan_transition_def bindR_ok_iff)
  then have "completion_holds l node ?refs attempt_id = ok True"
    by (auto simp: check_transition_def ledger_view_def split: if_splits option.splits)
  then have "predicate_holds l ?refs attempt_id c = Inr True"
    using assms(3) by (simp add: completion_holds_def allR_True)
  then obtain matching where matching:
    "filterR (\<lambda>ref. bindR (ledger_entry l ''kind'' ref) (\<lambda>k. ok (k = JStr (cp_kind c))))
        (if cp_refs c \<noteq> [] then cp_refs c else ?refs) = Inr matching"
    "matching \<noteq> []" "\<forall>ref \<in> set matching. serves l (cp_kind c) attempt_id ref = Inr True"
    by (auto simp: predicate_holds_def bindR_ok_iff allR_True split: if_splits)
  then obtain ref where ref: "ref \<in> set matching" by (cases matching) auto
  note mem = filterR_mem[OF matching(1) ref]
  have serves: "serves l (cp_kind c) attempt_id ref = Inr True" using matching(3) ref by blast
  then have "valid_evidence l False (JStr ref) = ok True"
    by (auto simp: serves_def bindR_ok_iff split: if_splits)
  then obtain records where records: "evidence_records l = ok records" "supported l records False (JStr ref)"
    by (auto simp: valid_evidence_def inspect_def bindR_ok_iff dest: inspect_supported)
  from supported_current[OF records] obtain d where d: "ledger_get l (JStr ref) = ok (Some d)"
    "dget d ''status'' = JStr ''success''"
    "\<exists>versions current. dget d ''file_versions'' = JObj versions \<and> el_snapshot l = Some current \<and>
        versions_current d versions current" by blast
  have "dget d ''kind'' = JStr (cp_kind c)"
    using mem d(1) by (simp add: ledger_entry_def)
  moreover have "cp_kind c = ''observation_present'' \<or> dget d ''attempt_id'' = JStr attempt_id"
    using serves d(1) \<open>valid_evidence l False (JStr ref) = ok True\<close>
    by (simp add: serves_def ledger_entry_def split: if_splits)
  ultimately have "current_proof l (cp_kind c) attempt_id d" using d by (simp add: current_proof_def)
  with mem d(1) records show ?thesis by blast
qed

definition running_explore :: plan_node where
  "running_explore = sample_explore\<lparr>pn_status := ''running'', pn_attempt := ''a''\<rparr>"

definition running_plan :: plan where
  "running_plan = sample_task_plan\<lparr>plan_nodes := [running_explore, sample_edit]\<rparr>"

theorem success_rests_on_current_evidence_witness:
  "\<exists>d records. ledger_get demo_ledger (JStr ''E1'') = ok (Some d) \<and>
     current_proof demo_ledger ''observation_present'' ''a'' d \<and>
     evidence_records demo_ledger = ok records \<and> supported demo_ledger records False (JStr ''E1'')"
proof -
  let ?f = "no_fields\<lparr>nf_outputs := Some [''E1'']\<rparr>"
  have "is_ok (plan_transition plain_digest (Some (ledger_view demo_ledger)) 0 running_plan ''look'' ''succeeded''
      ''a'' None ?f)" by code_simp
  then obtain p' where p': "plan_transition plain_digest (Some (ledger_view demo_ledger)) 0 running_plan ''look''
      ''succeeded'' ''a'' None ?f = ok p'" by (auto simp: is_ok_iff)
  have node: "plan_node_of running_plan ''look'' = ok running_explore"
    by (simp add: plan_node_of_def running_plan_def running_explore_def sample_explore_def)
  have "\<lparr>cp_kind = ''observation_present'', cp_refs = []\<rparr> \<in> set (pn_completion running_explore)"
    by (simp add: running_explore_def sample_explore_def)
  from success_rests_on_current_evidence[OF p' node this] show ?thesis by auto
qed

end
