(* ===== verification/PlanDecisions.thy ===== *)
theory PlanDecisions
  imports PlanEvidence
begin

text \<open>
  \<open>agent_runtime/plan_runtime/decisions.py\<close>: decisions of a long task as append-only revision chains
  between its notes, issuing and revoking a decision, and the projection of the decisions that
  hold for a plan node now, which asks the evidence ledger again for every reference.
\<close>

subsection \<open>The chain\<close>

definition source_kind_of :: "jdict \<Rightarrow> jvalue" where
  "source_kind_of r = dget_or r ''source_kind'' (JStr ''technical'')"

definition refs_ok :: "jdict \<Rightarrow> bool" where
  "refs_ok r \<longleftrightarrow>
     (case dget r ''evidence_refs'' of
        JList refs \<Rightarrow>
          \<not> (source_kind_of r \<noteq> JStr ''user'' \<and> refs = []) \<and>
          list_all (\<lambda>v. is_str v \<and> jtruthy v) refs \<and>
          (case dget r ''evidence_checksums'' of
             JObj csums \<Rightarrow>
               set (map (JStr \<circ> fst) csums) = set refs \<and>
               list_all (\<lambda>kv. case snd kv of JStr s \<Rightarrow> length s = 64 | _ \<Rightarrow> False) csums
           | _ \<Rightarrow> False)
      | _ \<Rightarrow> False)"

definition decision_ok :: "string \<Rightarrow> jdict option \<Rightarrow> jdict \<Rightarrow> bool" where
  "decision_ok key previous r \<longleftrightarrow>
     dget r ''revision'' = JInt (next_revision previous) \<and>
     dget r ''supersedes_ref'' = superseded_ref ''decision_id'' key previous \<and>
     dget r ''status'' \<in> {JStr ''active'', JStr ''revoked''} \<and>
     \<not> (dget r ''status'' = JStr ''revoked'' \<and> previous = None) \<and>
     \<not> (case previous of Some p \<Rightarrow> dget p ''status'' = JStr ''revoked'' | None \<Rightarrow> False) \<and>
     list_all (\<lambda>f. nonblank (dget r f)) [''statement'', ''source'', ''node_id'', ''plan_id''] \<and>
     is_str (dget r ''rationale'') \<and>
     (case dget r ''plan_version'' of JInt n \<Rightarrow> n \<ge> 1 | _ \<Rightarrow> False) \<and>
     refs_ok r"

definition source_ok :: "jdict \<Rightarrow> bool" where
  "source_ok r \<longleftrightarrow>
     source_kind_of r \<in> {JStr ''user'', JStr ''technical''} \<and>
     \<not> (dget r ''source_kind'' = JStr ''user'' \<and> \<not> jtruthy (dget r ''source_refs''))"

definition scope_kept :: "jdict option \<Rightarrow> jdict \<Rightarrow> bool" where
  "scope_kept previous r \<longleftrightarrow>
     (case previous of None \<Rightarrow> True | Some p \<Rightarrow>
        dget p ''node_id'' = dget r ''node_id'' \<and> dget p ''plan_id'' = dget r ''plan_id'' \<and>
        \<not> int_of (dget p ''plan_version'') > int_of (dget r ''plan_version'') \<and>
        source_kind_of p = source_kind_of r)"

definition decision_step :: "jdigest \<Rightarrow> jdict \<Rightarrow> revisions \<Rightarrow> revisions res" where
  "decision_step jd raw hl =
    (if dget raw ''record_type'' \<noteq> JStr ''decision'' then ok hl
     else
      (let r = jdel ''checksum'' raw; c = dget_or raw ''checksum'' (JStr []) in
       bindR (guardR (c = JStr (jd (JObj r))) (ValueError ''decision_checksum_invalid'')) (\<lambda>_.
       (let r = jput ''checksum'' c r in
        case dget r ''decision_id'' of
          JStr key \<Rightarrow>
           (let previous = al_get (snd hl) key in
            bindR (guardR (key \<noteq> [] \<and> decision_ok key previous r) (ValueError ''decision_chain_invalid'')) (\<lambda>_.
            bindR (guardR (source_ok r) (ValueError ''decision_source_invalid'')) (\<lambda>_.
            bindR (guardR (scope_kept previous r) (ValueError ''decision_chain_scope_invalid'')) (\<lambda>_.
              ok ((if previous = None then fst hl else supersede ''decision_id'' key (fst hl)) @ [r],
                  al_put key r (snd hl))))))
        | _ \<Rightarrow> raise (ValueError ''decision_chain_invalid'')))))"

definition decision_history :: "jdigest \<Rightarrow> jdict list \<Rightarrow> revisions res" where
  "decision_history jd records = foldR (decision_step jd) records ([], [])"

subsection \<open>Issuing and revoking\<close>

record decision_request =
  dr_statement :: string
  dr_rationale :: string
  dr_source :: string
  dr_refs :: "string list"
  dr_node :: string
  dr_id :: "string option"
  dr_revision :: "int option"
  dr_source_kind :: string
  dr_source_refs :: "jvalue list"

definition decision_record ::
  "string \<Rightarrow> jdict option \<Rightarrow> plan \<Rightarrow> decision_request \<Rightarrow> string list \<Rightarrow> (string \<times> jvalue) list \<Rightarrow> jdict" where
  "decision_record key previous p q refs csums =
     [(''decision_id'', JStr key),
      (''evidence_checksums'', JObj (fold (\<lambda>(k, v). jput k v) csums [])),
      (''evidence_refs'', strs refs),
      (''node_id'', JStr (dr_node q)),
      (''plan_id'', JStr (plan_pid p)),
      (''plan_version'', JInt (plan_version p)),
      (''rationale'', JStr (dr_rationale q)),
      (''record_type'', JStr ''decision''),
      (''revision'', JInt (next_revision previous)),
      (''source'', JStr (dr_source q)),
      (''source_kind'', JStr (dr_source_kind q)),
      (''source_refs'', JList (dr_source_refs q)),
      (''statement'', JStr (dr_statement q)),
      (''status'', JStr ''active''),
      (''supersedes_ref'', superseded_ref ''decision_id'' key previous)]"

definition request_ok :: "decision_request \<Rightarrow> bool" where
  "request_ok q \<longleftrightarrow>
     nonblank (JStr (dr_statement q)) \<and> nonblank (JStr (dr_source q)) \<and>
     \<not> (dr_source_kind q \<noteq> ''user'' \<and> dr_refs q = []) \<and>
     dr_source_kind q \<in> {''user'', ''technical''} \<and>
     \<not> (dr_source_kind q = ''user'' \<and> dr_source_refs q = []) \<and>
     list_all (\<lambda>r. r \<noteq> []) (dr_refs q)"

definition new_decision ::
  "jdigest \<Rightarrow> evidence_ledger \<Rightarrow> string \<Rightarrow> jdict list \<Rightarrow> plan \<Rightarrow> decision_request \<Rightarrow> jdict res" where
  "new_decision jd l fresh records p q =
     bindR (decision_history jd records) (\<lambda>hl.
     bindR (guardR (list_all (\<lambda>(k, r). dget r ''plan_id'' = JStr (plan_pid p)) (snd hl))
       (ValueError ''decision_plan_identity_mismatch'')) (\<lambda>_.
     bindR (guardR (case dr_id q of Some k \<Rightarrow> k \<noteq> [] \<and> dr_revision q \<noteq> None \<and> the (dr_revision q) \<ge> 1
         | None \<Rightarrow> dr_revision q = None) (ValueError ''decision_revision_conflict'')) (\<lambda>_.
     (let previous = (case dr_id q of Some k \<Rightarrow> al_get (snd hl) k | None \<Rightarrow> None) in
     bindR (guardR (dr_id q \<noteq> None \<longrightarrow>
         (case previous of Some r \<Rightarrow> dget r ''revision'' = JInt (the (dr_revision q)) | None \<Rightarrow> False))
       (ValueError ''decision_revision_conflict'')) (\<lambda>_.
     bindR (guardR (case previous of None \<Rightarrow> True | Some r \<Rightarrow>
         dget r ''node_id'' = JStr (dr_node q) \<and> source_kind_of r = JStr (dr_source_kind q) \<and>
         dget r ''status'' \<noteq> JStr ''revoked'') (ValueError ''decision_scope_change_requires_new_id'')) (\<lambda>_.
     bindR (guardR (request_ok q) (ValueError ''decision_content_or_source_missing'')) (\<lambda>_.
     (let refs = dedup (dr_refs q) in
     bindR (mapR (\<lambda>ref. bindR (inspect l False (JStr ref)) (\<lambda>d. ok (ref, d))) refs) (\<lambda>inputs.
     bindR (guardR (list_all (\<lambda>(ref, d). in_status d = ''valid'') inputs)
       (ValueError ''decision_evidence_unusable'')) (\<lambda>_.
     (let key = (case dr_id q of Some k \<Rightarrow> k | None \<Rightarrow> fresh) in
      ok (sealed_with jd ''checksum''
        (decision_record key previous p q refs (map (\<lambda>(ref, d). (ref, in_checksum d)) inputs))))))))))))))"

definition revoked_decision ::
  "jdigest \<Rightarrow> jdict list \<Rightarrow> plan \<Rightarrow> string \<Rightarrow> int \<Rightarrow> jvalue \<Rightarrow> jdict res" where
  "revoked_decision jd records p decision_id expected source_refs =
     bindR (decision_history jd records) (\<lambda>hl.
     case al_get (snd hl) decision_id of
       None \<Rightarrow> raise (ValueError ''decision_revision_conflict'')
     | Some previous \<Rightarrow>
        bindR (guardR (dget previous ''status'' = JStr ''active'' \<and> dget previous ''revision'' = JInt expected \<and>
            dget previous ''plan_id'' = JStr (plan_pid p)) (ValueError ''decision_revision_conflict'')) (\<lambda>_.
        (let r = jdel ''checksum''
             (jput ''revision'' (JInt (expected + 1)) (jput ''status'' (JStr ''revoked'')
             (jput ''plan_version'' (JInt (plan_version p)) (jput ''source_refs'' source_refs
             (jput ''supersedes_ref''
               (JObj [(''decision_id'', JStr decision_id), (''revision'', JInt expected)]) previous)))));
             r = sealed_with jd ''checksum'' r
         in bindR (decision_history jd (records @ [r])) (\<lambda>_. ok r))))"

subsection \<open>The decisions that hold for a node\<close>

record decision_check =
  dc_id :: jvalue
  dc_revision :: jvalue
  dc_checksum :: jvalue
  dc_status :: string
  dc_reason :: string
  dc_inputs :: "inspection list"
  dc_expected :: jvalue

definition check_entry :: "jdict \<Rightarrow> string \<Rightarrow> string \<Rightarrow> inspection list \<Rightarrow> decision_check" where
  "check_entry r status reason inputs =
     \<lparr>dc_id = dget r ''decision_id'', dc_revision = dget r ''revision'', dc_checksum = dget r ''checksum'',
      dc_status = status, dc_reason = reason, dc_inputs = inputs, dc_expected = dget r ''evidence_checksums''\<rparr>"

text \<open>The entry of \<open>evidence_checksums\<close> for an inspected reference, a string.\<close>

definition expected_checksum :: "jdict \<Rightarrow> inspection \<Rightarrow> jvalue res" where
  "expected_checksum r d =
     bindR (dict_at r ''evidence_checksums'') (\<lambda>csums.
     bindR (as_dict csums) (\<lambda>csums.
     bindR (as_str (in_ref d)) (\<lambda>ref. dict_at csums ref)))"

definition unchanged_inputs :: "jdict \<Rightarrow> inspection list \<Rightarrow> bool res" where
  "unchanged_inputs r inputs = allR (\<lambda>d. bindR (expected_checksum r d) (\<lambda>c. ok (in_checksum d = c))) inputs"

definition decision_reason :: "plan \<Rightarrow> jdict \<Rightarrow> inspection list \<Rightarrow> bool \<Rightarrow> string" where
  "decision_reason p r inputs same =
     (if dget r ''plan_version'' \<noteq> JInt (plan_version p) then ''plan_version_changed''
      else case find (\<lambda>d. in_status d \<noteq> ''valid'') inputs of
        Some d \<Rightarrow> ''evidence_unusable:'' @ in_reason d
      | None \<Rightarrow> if \<not> same then ''evidence_record_changed'' else ''current_inputs_checked'')"

definition decision_projection :: "jdict \<Rightarrow> jdict" where
  "decision_projection r =
     map (\<lambda>k. (k, dget r k)) [''decision_id'', ''evidence_refs'', ''rationale'', ''revision'', ''source''] @
     [(''source_kind'', source_kind_of r), (''source_refs'', dget_or r ''source_refs'' (JList [])),
      (''statement'', dget r ''statement'')]"

definition project_step ::
  "evidence_ledger \<Rightarrow> plan \<Rightarrow> string \<Rightarrow> jdict \<Rightarrow> jdict list \<times> decision_check list \<Rightarrow>
     (jdict list \<times> decision_check list) res" where
  "project_step l p node_id r ac =
     bindR (guardR (dget r ''plan_id'' = JStr (plan_pid p)) (ValueError ''decision_plan_identity_mismatch'')) (\<lambda>_.
     if dget r ''node_id'' \<noteq> JStr node_id then ok ac
     else if dget r ''status'' = JStr ''revoked''
     then ok (fst ac, snd ac @ [check_entry r ''revoked'' ''explicitly_revoked'' []])
     else
       bindR (as_list (dget r ''evidence_refs'')) (\<lambda>refs.
       bindR (mapR (inspect l False) refs) (\<lambda>inputs.
       bindR (unchanged_inputs r inputs) (\<lambda>same.
       (let reason = decision_reason p r inputs same;
            holds = (reason = ''current_inputs_checked'')
        in ok (if holds then fst ac @ [decision_projection r] else fst ac,
               snd ac @ [check_entry r (if holds then ''active'' else ''needs_review'') reason inputs]))))))"

definition project_decisions ::
  "jdigest \<Rightarrow> evidence_ledger \<Rightarrow> jdict list \<Rightarrow> plan \<Rightarrow> string \<Rightarrow>
     (jdict list \<times> decision_check list) res" where
  "project_decisions jd l records p node_id =
     bindR (decision_history jd records) (\<lambda>hl.
       foldR (project_step l p node_id) (map snd (snd hl)) ([], []))"

subsection \<open>What is projected holds\<close>

lemma project_step_ok:
  assumes "project_step l p node_id r ac = Inr ac'"
  shows "fst ac' = fst ac \<or>
    fst ac' = fst ac @ [decision_projection r] \<and> dget r ''plan_id'' = JStr (plan_pid p) \<and>
    dget r ''node_id'' = JStr node_id \<and> dget r ''status'' \<noteq> JStr ''revoked'' \<and>
    (\<exists>refs inputs. dget r ''evidence_refs'' = JList refs \<and> mapR (inspect l False) refs = Inr inputs \<and>
      unchanged_inputs r inputs = Inr True \<and> decision_reason p r inputs True = ''current_inputs_checked'')"
  using assms
  by (auto simp: project_step_def bindR_ok_iff Let_def decision_reason_def split: if_splits option.splits)

lemma decision_reason_current:
  "decision_reason p r inputs same = ''current_inputs_checked'' \<Longrightarrow>
     dget r ''plan_version'' = JInt (plan_version p) \<and> (\<forall>d \<in> set inputs. in_status d = ''valid'')"
  by (auto simp: decision_reason_def find_None_iff split: if_splits option.splits)

text \<open>A decision shown as active for a plan node holds now: it is the latest revision of its
  chain in the current plan version, not revoked, and every evidence record it was based on
  is supported at this moment and carries the same checksum as when the decision was made.\<close>

theorem active_decisions_hold:
  assumes "project_decisions jd l records p node_id = ok (active, checks)" "a \<in> set active"
  shows "\<exists>hl r refs. decision_history jd records = ok hl \<and> r \<in> snd ` set (snd hl) \<and>
    a = decision_projection r \<and> dget r ''status'' \<noteq> JStr ''revoked'' \<and>
    dget r ''node_id'' = JStr node_id \<and> dget r ''plan_id'' = JStr (plan_pid p) \<and>
    dget r ''plan_version'' = JInt (plan_version p) \<and> dget r ''evidence_refs'' = JList refs \<and>
    (\<forall>ref \<in> set refs. valid_evidence l False ref = ok True \<and>
       (\<exists>d. inspect l False ref = ok d \<and> expected_checksum r d = ok (in_checksum d)))"
proof -
  from assms(1) obtain hl where hl: "decision_history jd records = Inr hl"
    and loop: "foldR (project_step l p node_id) (map snd (snd hl)) ([], []) = Inr (active, checks)"
    by (auto simp: project_decisions_def bindR_ok_iff)
  let ?holds = "\<lambda>r. dget r ''status'' \<noteq> JStr ''revoked'' \<and> dget r ''node_id'' = JStr node_id \<and>
    dget r ''plan_id'' = JStr (plan_pid p) \<and>
    (\<exists>refs inputs. dget r ''evidence_refs'' = JList refs \<and> mapR (inspect l False) refs = Inr inputs \<and>
      unchanged_inputs r inputs = Inr True \<and> decision_reason p r inputs True = ''current_inputs_checked'')"
  let ?I = "\<lambda>ac. \<forall>a \<in> set (fst ac). \<exists>r \<in> snd ` set (snd hl). a = decision_projection r \<and> ?holds r"
  have "?I (active, checks)"
  proof (rule foldR_invariant[where I = ?I, OF loop])
    fix r ac ac' assume r: "r \<in> set (map snd (snd hl))" and I: "?I ac" and "project_step l p node_id r ac = Inr ac'"
    then have step: "fst ac' = fst ac \<or> fst ac' = fst ac @ [decision_projection r] \<and> ?holds r"
      using project_step_ok by blast
    show "?I ac'"
    proof
      fix a assume "a \<in> set (fst ac')"
      with step have "a \<in> set (fst ac) \<or> a = decision_projection r \<and> ?holds r" by auto
      moreover have "r \<in> snd ` set (snd hl)" using r by simp
      ultimately show "\<exists>r \<in> snd ` set (snd hl). a = decision_projection r \<and> ?holds r" using I by blast
    qed
  qed simp
  then have "\<exists>r \<in> snd ` set (snd hl). a = decision_projection r \<and> ?holds r"
    using assms(2) by (simp only: fst_conv)
  then obtain r refs inputs where r: "r \<in> snd ` set (snd hl)" "a = decision_projection r"
      "dget r ''status'' \<noteq> JStr ''revoked''" "dget r ''node_id'' = JStr node_id"
      "dget r ''plan_id'' = JStr (plan_pid p)" "dget r ''evidence_refs'' = JList refs"
    and inputs: "mapR (inspect l False) refs = Inr inputs" "unchanged_inputs r inputs = Inr True"
      "decision_reason p r inputs True = ''current_inputs_checked''"
    by blast
  note current = decision_reason_current[OF inputs(3)]
  have "valid_evidence l False ref = ok True \<and>
       (\<exists>d. inspect l False ref = ok d \<and> expected_checksum r d = ok (in_checksum d))"
    if ref: "ref \<in> set refs" for ref
  proof -
    obtain d where d: "d \<in> set inputs" "inspect l False ref = Inr d" using mapR_mem[OF inputs(1) ref] by blast
    then have "expected_checksum r d = Inr (in_checksum d)"
      using inputs(2) by (auto simp: unchanged_inputs_def allR_True bindR_ok_iff)
    with d current show ?thesis by (auto simp: valid_evidence_def)
  qed
  with hl r current show ?thesis by blast
qed

definition demo_plan :: plan where
  "demo_plan = sample_task_plan"

definition demo_request :: decision_request where
  "demo_request = \<lparr>dr_statement = ''cache it'', dr_rationale = [], dr_source = ''agent'', dr_refs = [''E2''],
     dr_node = ''look'', dr_id = None, dr_revision = None, dr_source_kind = ''technical'', dr_source_refs = []\<rparr>"

text \<open>A digest of the length decisions expect, and the ledger of the evidence example over it.\<close>

definition long_digest :: jdigest where
  "long_digest v = replicate 64 (CHR ''f'')"

definition decision_ledger :: evidence_ledger where
  "decision_ledger = snd (ledger_add ''E2'' ''analysis_recorded'' ''a''
     [(''status'', JStr ''success''), (''conclusion'', JStr ''cause''), (''input_refs'', JList [JStr ''E1'']),
      (''file_versions'', JObj [(''a.py'', JStr ''v1'')])]
     (snd (ledger_add ''E1'' ''observation_present'' ''a'' demo_observation
       (empty_ledger\<lparr>el_digest := long_digest,
         el_store := snd (put_blob plain_hash ''seen'' \<lparr>ps_identity = demo_identity, ps_rows = [], ps_blobs = []\<rparr>)\<rparr>))))"

definition demo_decisions :: "jdict list" where
  "demo_decisions = (case new_decision long_digest decision_ledger ''d1'' [] demo_plan demo_request of
     Inr r \<Rightarrow> [r] | Inl e \<Rightarrow> [])"

lemma demo_decisions_projected:
  "is_ok (project_decisions long_digest decision_ledger demo_decisions demo_plan ''look'')"
  "(case project_decisions long_digest decision_ledger demo_decisions demo_plan ''look'' of
     Inr ac \<Rightarrow> length (fst ac) | Inl e \<Rightarrow> 0) = 1"
  by code_simp+

theorem active_decisions_hold_witness:
  "\<exists>hl r. decision_history long_digest demo_decisions = ok hl \<and> r \<in> snd ` set (snd hl) \<and>
     dget r ''node_id'' = JStr ''look''"
proof -
  obtain active checks where ac: "project_decisions long_digest decision_ledger demo_decisions demo_plan ''look''
      = ok (active, checks)" using demo_decisions_projected(1) by (auto simp: is_ok_iff)
  then have "length active = 1" using demo_decisions_projected(2) by simp
  then obtain a where "a \<in> set active" by (cases active) auto
  from active_decisions_hold[OF ac this] show ?thesis by blast
qed

subsection \<open>An issued decision extends the chain\<close>

lemma fold_jput_keys: "fst ` set (fold (\<lambda>(k, v). jput k v) xs d) = fst ` set d \<union> fst ` set xs"
proof (induction xs arbitrary: d)
  case (Cons x xs)
  obtain k v where x: "x = (k, v)" by (cases x)
  show ?case using Cons.IH[of "jput k v d"] by (simp add: x set_jput)
qed simp

lemma jput_entries: "set (jput k v d) \<subseteq> insert (k, v) (set d)"
  by (induction k v d rule: jput.induct) auto

lemma fold_jput_entries: "set (fold (\<lambda>(k, v). jput k v) xs d) \<subseteq> set d \<union> set xs"
proof (induction xs arbitrary: d)
  case (Cons x xs)
  obtain k v where x: "x = (k, v)" by (cases x)
  have "set (fold (\<lambda>(k, v). jput k v) xs (jput k v d)) \<subseteq> set (jput k v d) \<union> set xs" by (rule Cons.IH)
  with jput_entries[of k v d] show ?case by (auto simp: x)
qed simp

lemma decision_record_fields:
  "r = sealed_with jd ''checksum'' (decision_record key previous p q refs csums) \<Longrightarrow>
     dget r ''record_type'' = JStr ''decision'' \<and> dget r ''decision_id'' = JStr key \<and>
     jdel ''checksum'' r = decision_record key previous p q refs csums \<and>
     jput ''checksum'' (dget_or r ''checksum'' w) (jdel ''checksum'' r) = r \<and>
     dget_or r ''checksum'' w = JStr (jd (JObj (jdel ''checksum'' r)))"
proof -
  assume r: "r = sealed_with jd ''checksum'' (decision_record key previous p q refs csums)"
  have key: "''checksum'' \<notin> fst ` set (decision_record key previous p q refs csums)"
    by (simp add: decision_record_def)
  have "jdel ''checksum'' r = decision_record key previous p q refs csums" by (simp add: r key)
  moreover have "dget r f = dget (decision_record key previous p q refs csums) f" if "f \<noteq> ''checksum''" for f
    using that by (simp add: r)
  ultimately show ?thesis
    by (simp add: r) (simp add: sealed_with_def decision_record_def dget_or_def)
qed

lemma inspected_inputs:
  assumes "mapR (\<lambda>ref. bindR (inspect l False (JStr ref)) (\<lambda>d. ok (ref, d))) refs = Inr inputs"
  shows "map fst inputs = refs"
    "(ref, d) \<in> set inputs \<Longrightarrow> inspect l False (JStr ref) = Inr d"
  using assms
proof (induction refs arbitrary: inputs)
  case (Cons x xs)
  { case 1 with Cons.IH(1) show ?case by (auto simp: bindR_ok_iff) }
  { case 2 with Cons.IH(2) show ?case by (auto simp: bindR_ok_iff) }
qed auto

lemma issued_refs_ok:
  assumes inputs: "mapR (\<lambda>ref. bindR (inspect l False (JStr ref)) (\<lambda>d. ok (ref, d))) (dedup (dr_refs q)) = Inr inputs"
    and valid: "list_all (\<lambda>(ref, d). in_status d = ''valid'') inputs" and req: "request_ok q"
    and len: "\<And>v. length (el_digest l v) = 64"
    and r: "dget r ''evidence_refs'' = strs (dedup (dr_refs q))"
      "dget r ''evidence_checksums'' =
        JObj (fold (\<lambda>(k, v). jput k v) (map (\<lambda>(ref, d). (ref, in_checksum d)) inputs) [])"
      "source_kind_of r = JStr (dr_source_kind q)"
  shows "refs_ok r"
proof -
  have "dedup (dr_refs q) = [] \<Longrightarrow> dr_refs q = []" using set_dedup[of "dr_refs q"] by auto
  then have user: "\<not> (dr_source_kind q \<noteq> ''user'' \<and> dedup (dr_refs q) = [])" using req by (auto simp: request_ok_def)
  have strings: "list_all (\<lambda>v. is_str v \<and> jtruthy v) (map JStr (dedup (dr_refs q)))"
    using req by (auto simp: request_ok_def list_all_iff)
  let ?csums = "fold (\<lambda>(k, v). jput k v) (map (\<lambda>(ref, d). (ref, in_checksum d)) inputs) []"
  have "fst ` set ?csums = set (dedup (dr_refs q))"
    unfolding fold_jput_keys inspected_inputs(1)[OF inputs, symmetric]
    by (simp add: image_image case_prod_beta)
  then have keys: "set (map (JStr \<circ> fst) ?csums) = set (map JStr (dedup (dr_refs q)))"
    by (auto simp: image_comp[symmetric])
  have lens: "list_all (\<lambda>kv. case snd kv of JStr s \<Rightarrow> length s = 64 | _ \<Rightarrow> False) ?csums"
  proof (unfold list_all_iff, rule ballI)
    fix kv assume "kv \<in> set ?csums"
    then have "kv \<in> set (map (\<lambda>(ref, d). (ref, in_checksum d)) inputs)"
      using fold_jput_entries[of "map (\<lambda>(ref, d). (ref, in_checksum d)) inputs" "[]"] by auto
    then obtain ref d where d: "(ref, d) \<in> set inputs" "kv = (ref, in_checksum d)" by auto
    have "in_status d = ''valid''" using valid d(1) by (auto simp: list_all_iff)
    from inspect_valid_checksum(2)[OF inspected_inputs(2)[OF inputs d(1)] this] obtain v
      where "in_checksum d = JStr (el_digest l v)" ..
    then show "case snd kv of JStr s \<Rightarrow> length s = 64 | _ \<Rightarrow> False" using d(2) len by simp
  qed
  show ?thesis using user strings keys lens by (simp add: refs_ok_def r strs_def)
qed

lemma new_decision_ok:
  assumes "decision_history jd records = Inr hl"
  shows "new_decision jd l fresh records p q = Inr r \<longleftrightarrow>
    (let previous = (case dr_id q of Some k \<Rightarrow> al_get (snd hl) k | None \<Rightarrow> None);
         key = (case dr_id q of Some k \<Rightarrow> k | None \<Rightarrow> fresh) in
     list_all (\<lambda>(k, r). dget r ''plan_id'' = JStr (plan_pid p)) (snd hl) \<and>
     (case dr_id q of Some k \<Rightarrow> k \<noteq> [] \<and> dr_revision q \<noteq> None \<and> the (dr_revision q) \<ge> 1
       | None \<Rightarrow> dr_revision q = None) \<and>
     (dr_id q \<noteq> None \<longrightarrow>
       (case previous of Some r \<Rightarrow> dget r ''revision'' = JInt (the (dr_revision q)) | None \<Rightarrow> False)) \<and>
     (case previous of None \<Rightarrow> True | Some r \<Rightarrow>
         dget r ''node_id'' = JStr (dr_node q) \<and> source_kind_of r = JStr (dr_source_kind q) \<and>
         dget r ''status'' \<noteq> JStr ''revoked'') \<and>
     request_ok q \<and>
     (\<exists>inputs. mapR (\<lambda>ref. bindR (inspect l False (JStr ref)) (\<lambda>d. ok (ref, d))) (dedup (dr_refs q)) = Inr inputs \<and>
        list_all (\<lambda>(ref, d). in_status d = ''valid'') inputs \<and>
        sealed_with jd ''checksum'' (decision_record key previous p q (dedup (dr_refs q))
          (map (\<lambda>(ref, d). (ref, in_checksum d)) inputs)) = r))"
  by (simp only: new_decision_def assms bindR.simps Let_def bindR_ok_iff guardR_ok_iff sum.inject ex_simps simp_thms)

text \<open>A decision that is issued never breaks the log: for an identifier that is new, a plan whose
  version has not gone back and node and plan identifiers that are not blank, the record
  returned by \<open>new_decision\<close> extends the chain to a valid chain in which it is the latest revision.\<close>

theorem issued_decision_extends_history:
  assumes "new_decision jd l fresh records p q = ok r" "decision_history jd records = ok hl"
    and "nonblank (JStr (dr_node q))" "nonblank (JStr (plan_pid p))" "1 \<le> plan_version p"
    and "fresh \<noteq> []" "fresh \<notin> set (al_keys (snd hl))" "\<And>v. length (el_digest l v) = 64"
    and "\<And>key old. al_get (snd hl) key = Some old \<Longrightarrow> int_of (dget old ''plan_version'') \<le> plan_version p"
  shows "\<exists>h. decision_history jd (records @ [r]) =
    ok (h @ [r], al_put (case dr_id q of Some k \<Rightarrow> k | None \<Rightarrow> fresh) r (snd hl))"
proof -
  let ?previous = "case dr_id q of Some k \<Rightarrow> al_get (snd hl) k | None \<Rightarrow> None"
  let ?key = "case dr_id q of Some k \<Rightarrow> k | None \<Rightarrow> fresh"
  from assms(1) obtain inputs where
    plan: "list_all (\<lambda>(k, r). dget r ''plan_id'' = JStr (plan_pid p)) (snd hl)"
    and id: "case dr_id q of Some k \<Rightarrow> k \<noteq> [] \<and> dr_revision q \<noteq> None \<and> the (dr_revision q) \<ge> 1
         | None \<Rightarrow> dr_revision q = None"
      "dr_id q \<noteq> None \<longrightarrow>
         (case ?previous of Some r \<Rightarrow> dget r ''revision'' = JInt (the (dr_revision q)) | None \<Rightarrow> False)"
    and scope: "case ?previous of None \<Rightarrow> True | Some r \<Rightarrow>
         dget r ''node_id'' = JStr (dr_node q) \<and> source_kind_of r = JStr (dr_source_kind q) \<and>
         dget r ''status'' \<noteq> JStr ''revoked''"
    and req: "request_ok q"
    and inputs: "mapR (\<lambda>ref. bindR (inspect l False (JStr ref)) (\<lambda>d. ok (ref, d))) (dedup (dr_refs q)) = Inr inputs"
      "list_all (\<lambda>(ref, d). in_status d = ''valid'') inputs"
    and r: "r = sealed_with jd ''checksum'' (decision_record ?key ?previous p q (dedup (dr_refs q))
        (map (\<lambda>(ref, d). (ref, in_checksum d)) inputs))"
    using iffD1[OF new_decision_ok[OF assms(2)] assms(1)] unfolding Let_def by blast
  have canon: "dget r ''record_type'' = JStr ''decision''" "dget r ''decision_id'' = JStr ?key"
    "dget_or r ''checksum'' (JStr []) = JStr (jd (JObj (jdel ''checksum'' r)))"
    "jput ''checksum'' (JStr (jd (JObj (jdel ''checksum'' r)))) (jdel ''checksum'' r) = r"
    using decision_record_fields[OF r, of "JStr []"] by metis+
  have get: "dget r f = dget (decision_record ?key ?previous p q (dedup (dr_refs q))
        (map (\<lambda>(ref, d). (ref, in_checksum d)) inputs)) f" if "f \<noteq> ''checksum''" for f
    using that by (simp add: r)
  note rec = decision_record_def dget_or_def[of "_ # _"]
  have key: "?key \<noteq> []" using id(1) assms(6) by (auto split: option.splits)
  have prev: "al_get (snd hl) ?key = ?previous"
    using assms(7) by (auto simp: al_get_None_key split: option.splits)
  have old_plan: "dget old ''plan_id'' = JStr (plan_pid p)" if "?previous = Some old" for old
    using that plan by (auto simp: list_all_iff split: option.splits dest!: map_of_SomeD)
  have old_version: "int_of (dget old ''plan_version'') \<le> plan_version p" if "?previous = Some old" for old
    using that assms(9) by (auto split: option.splits)
  have kind: "source_kind_of r = JStr (dr_source_kind q)"
    by (simp add: source_kind_of_def r) (simp add: rec)
  have refs: "refs_ok r"
    by (rule issued_refs_ok[OF inputs req assms(8) _ _ kind]) (simp_all add: get, simp_all add: rec)
  have vals: "dget r ''revision'' = JInt (next_revision ?previous)"
    "dget r ''supersedes_ref'' = superseded_ref ''decision_id'' ?key ?previous"
    "dget r ''status'' = JStr ''active''" "dget r ''statement'' = JStr (dr_statement q)"
    "dget r ''source'' = JStr (dr_source q)" "dget r ''node_id'' = JStr (dr_node q)"
    "dget r ''plan_id'' = JStr (plan_pid p)" "dget r ''rationale'' = JStr (dr_rationale q)"
    "dget r ''plan_version'' = JInt (plan_version p)" "dget r ''source_kind'' = JStr (dr_source_kind q)"
    "dget r ''source_refs'' = JList (dr_source_refs q)"
    by (simp_all add: get) (simp_all add: rec)
  have okr: "decision_ok ?key ?previous r"
    using scope assms(3-5) req refs
    by (auto simp: decision_ok_def vals request_ok_def split: option.splits)
  have src: "source_ok r" using req by (auto simp: source_ok_def kind vals request_ok_def)
  have kept: "scope_kept ?previous r"
  proof (cases ?previous)
    case (Some old)
    with scope old_plan[OF Some] old_version[OF Some] show ?thesis
      by (simp add: scope_kept_def vals kind)
  qed (simp add: scope_kept_def)
  have "decision_step jd r hl = ok ((if ?previous = None then fst hl else supersede ''decision_id'' ?key (fst hl)) @ [r],
      al_put ?key r (snd hl))"
    unfolding decision_step_def Let_def
    using key okr src kept by (simp add: canon prev guardR_def)
  moreover have "decision_history jd (records @ [r]) = decision_step jd r hl"
    using assms(2) by (simp add: decision_history_def foldR_append)
  ultimately show ?thesis by auto
qed

theorem issued_decision_extends_history_witness:
  "\<exists>r h. new_decision long_digest decision_ledger ''d1'' [] demo_plan demo_request = ok r \<and>
     decision_history long_digest [r] = ok (h @ [r], [(''d1'', r)])"
proof -
  have "is_ok (new_decision long_digest decision_ledger ''d1'' [] demo_plan demo_request)" by code_simp
  then obtain r where r: "new_decision long_digest decision_ledger ''d1'' [] demo_plan demo_request = ok r"
    by (auto simp: is_ok_iff)
  have none: "decision_history long_digest [] = ok ([], [])" by (simp add: decision_history_def)
  have names: "nonblank (JStr (dr_node demo_request))" "nonblank (JStr (plan_pid demo_plan))"
    "1 \<le> plan_version demo_plan"
    by code_simp+
  have len: "length (el_digest decision_ledger v) = 64" for v
    by (simp add: decision_ledger_def ledger_add_def Let_def empty_ledger_def long_digest_def)
  have fresh: "''d1'' \<noteq> []" "''d1'' \<notin> set (al_keys (snd ([] :: jdict list, [] :: (string, jdict) alist)))"
    by (simp_all add: al_keys_def)
  have "dr_id demo_request = None" by (simp add: demo_request_def)
  with issued_decision_extends_history[OF r none names fresh len] r show ?thesis by auto
qed

end
