(* ===== verification/RunBudget.thy ===== *)
theory RunBudget
  imports Contracts
begin

text \<open>
  \<open>agent_runtime/budget_manager.py\<close>: the ledger of one run over turns, calls, tools and tokens, and the
  dispatch gate of \<open>model_call_budget.py\<close> over it.  Amounts are idealised as reals, the remainder \<open>None\<close>
  stands for infinity, a dictionary is an association list, and the lock makes every method one step.
  Rendered numbers in messages are left out.
\<close>

subsection \<open>The ledger\<close>

type_synonym amounts = "(string, real) alist"

record spend_decision =
  sd_resource :: string
  sd_allowed :: bool
  sd_used :: real
  sd_limit :: real
  sd_remaining :: "real option"
  sd_action :: string
  sd_reason :: string

record budget_manager =
  bm_limits :: amounts
  bm_used :: amounts
  bm_rejected :: "(string, int) alist"
  bm_scopes :: "(string, amounts) alist"
  bm_calls :: "(string, string \<times> string) alist"

definition ACTIONS :: "(string \<times> string) list" where
  "ACTIONS = [(''prompt_tokens'', ''compress_context''), (''turns'', ''stop''), (''llm_calls'', ''stop''),
     (''tool_calls'', ''stop''), (''writes'', ''read_only''), (''verifies'', ''partial_verify''),
     (''recoveries'', ''stop''), (''hard_cost_limit_usd'', ''stop''), (''soft_cost_limit_usd'', ''degrade'')]"

definition action_of :: "string \<Rightarrow> string" where
  "action_of k = (case map_of ACTIONS k of Some a \<Rightarrow> a | None \<Rightarrow> ''stop'')"

definition amount_of :: "amounts \<Rightarrow> string \<Rightarrow> real" where
  "amount_of d k = (case al_get d k of Some v \<Rightarrow> v | None \<Rightarrow> 0)"

definition setdefault :: "string \<Rightarrow> real \<Rightarrow> amounts \<Rightarrow> amounts" where
  "setdefault k v d = (if al_get d k = None then al_put k v d else d)"

definition non_negative :: "amounts \<Rightarrow> amounts" where
  "non_negative d = fold (\<lambda>(k, v). al_put k (max 0 v)) d []"

definition new_budget :: "amounts \<Rightarrow> budget_manager" where
  "new_budget limits =
    (let l = non_negative limits in
     \<lparr>bm_limits = l, bm_used = map (\<lambda>(k, v). (k, 0)) l, bm_rejected = map (\<lambda>(k, v). (k, 0)) l,
      bm_scopes = [], bm_calls = []\<rparr>)"

definition touch_resource :: "string \<Rightarrow> budget_manager \<Rightarrow> budget_manager" where
  "touch_resource k m = m\<lparr>bm_used := setdefault k 0 (bm_used m), bm_limits := setdefault k 0 (bm_limits m)\<rparr>"

definition fits :: "real \<Rightarrow> real \<Rightarrow> real \<Rightarrow> bool" where
  "fits limit used amount \<longleftrightarrow> limit \<le> 0 \<or> used + amount \<le> limit"

definition left_over :: "real \<Rightarrow> real \<Rightarrow> real option" where
  "left_over limit used = (if limit \<le> 0 then None else Some (max 0 (limit - used)))"

definition decision_for :: "string \<Rightarrow> bool \<Rightarrow> real \<Rightarrow> real \<Rightarrow> spend_decision" where
  "decision_for k allowed used limit =
     \<lparr>sd_resource = k, sd_allowed = allowed, sd_used = used, sd_limit = limit,
      sd_remaining = left_over limit used,
      sd_action = (if allowed then ''continue'' else action_of k),
      sd_reason = (if allowed then [] else k @ ''_budget_exhausted'')\<rparr>"

definition reject :: "string \<Rightarrow> budget_manager \<Rightarrow> budget_manager" where
  "reject k m = m\<lparr>bm_rejected := al_put k ((case al_get (bm_rejected m) k of Some n \<Rightarrow> n | None \<Rightarrow> 0) + 1)
     (bm_rejected m)\<rparr>"

definition spend :: "string \<Rightarrow> real \<Rightarrow> budget_manager \<Rightarrow> budget_manager" where
  "spend k v m = m\<lparr>bm_used := al_put k (amount_of (bm_used m) k + v) (bm_used m)\<rparr>"

definition reserve :: "string \<Rightarrow> real \<Rightarrow> budget_manager \<Rightarrow> spend_decision \<times> budget_manager" where
  "reserve k amount m =
    (let v = max 0 amount; m = touch_resource k m; limit = amount_of (bm_limits m) k;
         allowed = fits limit (amount_of (bm_used m) k) v;
         m = (if allowed then spend k v m else reject k m)
     in (decision_for k allowed (amount_of (bm_used m) k) limit, m))"

definition reserve_many :: "amounts \<Rightarrow> budget_manager \<Rightarrow> spend_decision list \<times> budget_manager" where
  "reserve_many reservations m =
    (let wanted = non_negative reservations;
         m = fold (\<lambda>(k, v). touch_resource k) wanted m;
         decisions = map (\<lambda>(k, v). decision_for k (fits (amount_of (bm_limits m) k) (amount_of (bm_used m) k) v)
                            (amount_of (bm_used m) k) (amount_of (bm_limits m) k)) wanted
     in if list_ex (\<lambda>d. \<not> sd_allowed d) decisions
        then (decisions, fold (\<lambda>d m. if sd_allowed d then m else reject (sd_resource d) m) decisions m)
        else (let m' = fold (\<lambda>(k, v). spend k v) wanted m
              in (map (\<lambda>d. decision_for (sd_resource d) True (amount_of (bm_used m') (sd_resource d)) (sd_limit d)) decisions,
                  m')))"

definition reserve_scope :: "string \<Rightarrow> amounts \<Rightarrow> budget_manager \<Rightarrow> bool \<times> budget_manager" where
  "reserve_scope key costs m =
     (if al_get (bm_scopes m) key \<noteq> None then (True, m)
      else case reserve_many costs m of (decisions, m') \<Rightarrow>
        if list_ex (\<lambda>d. \<not> sd_allowed d) decisions then (False, m')
        else (True, m'\<lparr>bm_scopes := al_put key (non_negative costs) (bm_scopes m')\<rparr>))"

definition scope_of :: "string \<Rightarrow> budget_manager \<Rightarrow> amounts" where
  "scope_of key m = (case al_get (bm_scopes m) key of Some d \<Rightarrow> d | None \<Rightarrow> [])"

definition reconcile_scope :: "string \<Rightarrow> amounts \<Rightarrow> budget_manager \<Rightarrow> budget_manager" where
  "reconcile_scope key costs m =
    (let previous = scope_of key m; wanted = non_negative costs;
         m = fold (\<lambda>k m. m\<lparr>bm_used := al_put k (max 0 (amount_of (bm_used m) k - amount_of previous k
                + amount_of wanted k)) (bm_used m)\<rparr>) (dedup (al_keys previous @ al_keys wanted)) m
     in m\<lparr>bm_scopes := al_put key wanted (bm_scopes m)\<rparr>)"

definition check_budget :: "string \<Rightarrow> real \<Rightarrow> budget_manager \<Rightarrow> spend_decision \<times> budget_manager" where
  "check_budget k amount m =
    (let v = max 0 amount; m = touch_resource k m; limit = amount_of (bm_limits m) k;
         used = amount_of (bm_used m) k
     in (decision_for k (fits limit used v) used limit, m))"

definition record_usage :: "string \<Rightarrow> real \<Rightarrow> budget_manager \<Rightarrow> spend_decision \<times> budget_manager" where
  "record_usage k amount m = check_budget k 0 (spend k (max 0 amount) m)"

definition reserve_model_call :: "string \<Rightarrow> string \<Rightarrow> amounts \<Rightarrow> budget_manager \<Rightarrow> bool \<times> budget_manager" where
  "reserve_model_call key purpose costs m =
    (case reserve_scope key costs m of
       (False, m') \<Rightarrow> (False, m')
     | (True, m') \<Rightarrow> (True, m'\<lparr>bm_calls := al_put key (purpose, ''unknown'') (bm_calls m')\<rparr>))"

definition settle_model_call :: "string \<Rightarrow> amounts \<Rightarrow> string \<Rightarrow> (budget_manager, unit) proc" where
  "settle_model_call key costs status m =
    (let m = reconcile_scope key costs m in
     case al_get (bm_calls m) key of
       None \<Rightarrow> (raise (KeyError key), m)
     | Some (purpose, _) \<Rightarrow> (ok (), m\<lparr>bm_calls := al_put key (purpose, status) (bm_calls m)\<rparr>))"

definition remaining_budget :: "string \<Rightarrow> budget_manager \<Rightarrow> real option" where
  "remaining_budget k m = left_over (amount_of (bm_limits m) k) (amount_of (bm_used m) k)"

definition backpressure :: "budget_manager \<Rightarrow> (string \<times> real \<times> real \<times> string) list" where
  "backpressure m =
     map (\<lambda>k. (k, amount_of (bm_used m) k, amount_of (bm_limits m) k, action_of k))
       (filter (\<lambda>k. amount_of (bm_limits m) k > 0 \<and> amount_of (bm_used m) k \<ge> amount_of (bm_limits m) k)
         (sort (dedup (al_keys (bm_limits m) @ al_keys (bm_used m)))))"

definition budget_summary :: "budget_manager \<Rightarrow> (string \<times> real \<times> real \<times> real option \<times> int \<times> string) list" where
  "budget_summary m =
     map (\<lambda>k. (k, amount_of (bm_used m) k, amount_of (bm_limits m) k, remaining_budget k m,
               (case al_get (bm_rejected m) k of Some n \<Rightarrow> n | None \<Rightarrow> 0), action_of k))
       (sort (dedup (al_keys (bm_limits m) @ al_keys (bm_used m))))"

text \<open>A snapshot is the ledger itself; restoring keeps the entries the snapshot does not have.\<close>

definition restore_budget :: "budget_manager \<Rightarrow> budget_manager \<Rightarrow> budget_manager" where
  "restore_budget s m =
     m\<lparr>bm_limits := fold (\<lambda>(k, v). al_put k (max 0 v)) (bm_limits s) (bm_limits m),
       bm_used := fold (\<lambda>(k, v). al_put k (max 0 v)) (bm_used s) (bm_used m),
       bm_rejected := fold (\<lambda>(k, v). al_put k (max 0 v)) (bm_rejected s) (bm_rejected m),
       bm_scopes := bm_scopes s, bm_calls := bm_calls s\<rparr>"

fun restore_calls ::
  "budget_manager \<Rightarrow> string \<Rightarrow> (string \<times> string \<times> string) list \<Rightarrow> (budget_manager, unit) proc" where
  "restore_calls s purpose [] m = (ok (), m)"
| "restore_calls s purpose ((key, call) # calls) m =
     (if fst call \<noteq> purpose \<or> al_get (bm_calls m) key \<noteq> None then restore_calls s purpose calls m
      else if scope_of key s = [] then (raise (ValueError ''model_call_scope_missing''), m)
      else restore_calls s purpose calls
        ((reconcile_scope key (scope_of key s) m)\<lparr>bm_calls := al_put key call (bm_calls m)\<rparr>))"

definition restore_missing_model_calls :: "budget_manager \<Rightarrow> string \<Rightarrow> (budget_manager, unit) proc" where
  "restore_missing_model_calls s purpose = restore_calls s purpose (bm_calls s)"

subsection \<open>The dispatch gate\<close>

record call_request =
  cr_key :: string
  cr_purpose :: string
  cr_input :: int
  cr_output :: int
  cr_timeout :: "real option"
  cr_input_limit :: "int option"
  cr_cancelled :: "string option"
  cr_expired :: bool

definition call_costs :: "int \<Rightarrow> int \<Rightarrow> amounts" where
  "call_costs i out = [(''llm_calls'', 1), (''prompt_tokens'', of_int i), (''output_tokens'', of_int out),
     (''total_tokens'', of_int i + of_int out)]"

definition call_guard :: "call_request \<Rightarrow> unit res" where
  "call_guard q =
     bindR (guardR (cr_purpose q \<noteq> []) (ValueError ''invalid_model_call_purpose'')) (\<lambda>_.
     bindR (guardR (\<not> (cr_input q < 0 \<or> cr_output q \<le> 0)) (ValueError ''invalid_model_call_reservation'')) (\<lambda>_.
     bindR (guardR (case cr_input_limit q of Some n \<Rightarrow> cr_input q \<le> n | None \<Rightarrow> True)
       (ValueError ''model_input_window_exceeded'')) (\<lambda>_.
     bindR (guardR (case cr_timeout q of Some t \<Rightarrow> t > 0 | None \<Rightarrow> True)
       (TimeoutErr ''model_call_deadline_exceeded'')) (\<lambda>_.
     bindR (case cr_cancelled q of Some why \<Rightarrow> raise (CancelledError why) | None \<Rightarrow> ok ()) (\<lambda>_.
       guardR (\<not> cr_expired q) (TimeoutErr ''repair deadline exceeded''))))))"

definition accumulate_cost :: "real \<Rightarrow> budget_manager \<Rightarrow> budget_manager" where
  "accumulate_cost cost m =
     (if cost \<le> 0 then m
      else snd (record_usage ''soft_cost_limit_usd'' cost (snd (record_usage ''hard_cost_limit_usd'' cost m))))"

text \<open>\<open>outcome\<close> is what the dispatched call does: it raises, or returns with the usage it reports or the
  client counted, if any. \<open>price\<close> is the estimated cost for the client's model.\<close>

definition known_usage :: "(int \<times> int) option \<Rightarrow> (int \<times> int) option" where
  "known_usage u = (case u of Some (i, out) \<Rightarrow> if i \<ge> 0 \<and> out \<ge> 0 then u else None | None \<Rightarrow> None)"

definition invoke_model_call ::
  "(int \<Rightarrow> int \<Rightarrow> real) \<Rightarrow> ('a \<times> (int \<times> int) option) res \<Rightarrow> call_request \<Rightarrow> (budget_manager, 'a) proc" where
  "invoke_model_call price outcome q m =
    (case call_guard q of Inl e \<Rightarrow> (Inl e, m) | Inr _ \<Rightarrow>
     (case check_budget ''hard_cost_limit_usd'' 0 m of (hard, m) \<Rightarrow>
      if \<not> sd_allowed hard then (raise (BudgetExceeded ''cost_limit_exhausted''), m)
      else
       (let costs = call_costs (cr_input q) (cr_output q) in
        case reserve_model_call (cr_key q) (cr_purpose q) costs m of
          (False, m) \<Rightarrow>
            (raise (BudgetExceeded ''model_call_budget_exhausted''),
             fold (\<lambda>(k, v) m. snd (check_budget k v m)) costs m)
        | (True, m) \<Rightarrow>
            (case outcome of
               Inl e \<Rightarrow> (Inl e, m)
             | Inr (value, usage) \<Rightarrow>
                (let (i, out, status) = (case known_usage usage of
                       Some (i, out) \<Rightarrow> (i, out, ''actual'')
                     | None \<Rightarrow> (cr_input q, cr_output q, ''estimated''))
                 in bindS (settle_model_call (cr_key q) (call_costs i out) status)
                      (\<lambda>_ m. (ok value, accumulate_cost (price i out) m)) m)))))"

subsection \<open>Amounts\<close>

abbreviation used :: "budget_manager \<Rightarrow> string \<Rightarrow> real" where
  "used m r \<equiv> amount_of (bm_used m) r"

abbreviation limit_of :: "budget_manager \<Rightarrow> string \<Rightarrow> real" where
  "limit_of m r \<equiv> amount_of (bm_limits m) r"

lemma amount_of_simps [simp]:
  "amount_of [] r = 0"
  "amount_of ((k, v) # d) r = (if r = k then v else amount_of d r)"
  "amount_of (al_put k v d) r = (if r = k then v else amount_of d r)"
  "amount_of (setdefault k 0 d) r = amount_of d r"
  by (auto simp: amount_of_def setdefault_def)

lemma amount_of_absent: "r \<notin> set (al_keys d) \<Longrightarrow> amount_of d r = 0"
  by (induction d) (auto simp: al_keys_def)

lemma touch_same [simp]:
  "used (touch_resource k m) r = used m r" "limit_of (touch_resource k m) r = limit_of m r"
  "bm_scopes (touch_resource k m) = bm_scopes m" "bm_calls (touch_resource k m) = bm_calls m"
  by (simp_all add: touch_resource_def)

lemma reject_same [simp]:
  "bm_used (reject k m) = bm_used m" "bm_limits (reject k m) = bm_limits m"
  "bm_scopes (reject k m) = bm_scopes m" "bm_calls (reject k m) = bm_calls m"
  by (simp_all add: reject_def)

lemma spend_simps [simp]:
  "used (spend k v m) r = (if r = k then used m r + v else used m r)"
  "bm_limits (spend k v m) = bm_limits m" "bm_scopes (spend k v m) = bm_scopes m" "bm_calls (spend k v m) = bm_calls m"
  by (simp_all add: spend_def)

lemma fold_put_distinct:
  "distinct (al_keys d) \<Longrightarrow> distinct (al_keys (fold (\<lambda>(k, v). al_put k (max 0 v)) xs d))"
  by (induction xs arbitrary: d) auto

lemma fold_put_nonneg:
  "(\<forall>r. 0 \<le> amount_of d r) \<Longrightarrow> 0 \<le> amount_of (fold (\<lambda>(k, v). al_put k (max 0 v)) xs d) r"
  by (induction xs arbitrary: d) auto

lemma non_negative_distinct [simp]: "distinct (al_keys (non_negative d))"
  unfolding non_negative_def by (rule fold_put_distinct) (simp add: al_keys_def)

lemma non_negative_amount [simp]: "0 \<le> amount_of (non_negative d) r"
  by (simp add: non_negative_def fold_put_nonneg)

lemma distinct_amount: "distinct (al_keys d) \<Longrightarrow> (k, v) \<in> set d \<Longrightarrow> amount_of d k = v"
  by (auto simp: amount_of_def al_keys_def)

lemma fold_touch [simp]:
  "used (fold (\<lambda>(k, v). touch_resource k) xs m) r = used m r"
  "limit_of (fold (\<lambda>(k, v). touch_resource k) xs m) r = limit_of m r"
  "bm_scopes (fold (\<lambda>(k, v). touch_resource k) xs m) = bm_scopes m"
  "bm_calls (fold (\<lambda>(k, v). touch_resource k) xs m) = bm_calls m"
  by (induction xs arbitrary: m) auto

lemma fold_reject [simp]:
  "bm_used (fold (\<lambda>d m. if sd_allowed d then m else reject (sd_resource d) m) ds m) = bm_used m"
  "bm_limits (fold (\<lambda>d m. if sd_allowed d then m else reject (sd_resource d) m) ds m) = bm_limits m"
  "bm_scopes (fold (\<lambda>d m. if sd_allowed d then m else reject (sd_resource d) m) ds m) = bm_scopes m"
  "bm_calls (fold (\<lambda>d m. if sd_allowed d then m else reject (sd_resource d) m) ds m) = bm_calls m"
  by (induction ds arbitrary: m) auto

lemma fold_spend [simp]:
  "distinct (al_keys xs) \<Longrightarrow> used (fold (\<lambda>(k, v). spend k v) xs m) r = used m r + amount_of xs r"
  "bm_limits (fold (\<lambda>(k, v). spend k v) xs m) = bm_limits m"
  "bm_scopes (fold (\<lambda>(k, v). spend k v) xs m) = bm_scopes m"
  "bm_calls (fold (\<lambda>(k, v). spend k v) xs m) = bm_calls m"
proof (induction xs arbitrary: m)
  case (Cons x xs)
  obtain k v where x: "x = (k, v)" by (cases x)
  { case 1 then show ?case using Cons.IH(1)[of "spend k v m"] amount_of_absent[of k xs]
      by (auto simp: x al_keys_def) }
  { case 2 show ?case using Cons.IH(2) by (simp add: x) }
  { case 3 show ?case using Cons.IH(3) by (simp add: x) }
  { case 4 show ?case using Cons.IH(4) by (simp add: x) }
qed simp_all

subsection \<open>Reservations respect the limits\<close>

definition fits_all :: "amounts \<Rightarrow> budget_manager \<Rightarrow> bool" where
  "fits_all wanted m \<longleftrightarrow> (\<forall>(k, v) \<in> set wanted. fits (limit_of m k) (used m k) v)"

lemma refused_iff:
  "list_ex (\<lambda>d. \<not> sd_allowed d)
     (map (\<lambda>(k, v). decision_for k (fits (limit_of m k) (used m k) v) (used m k) (limit_of m k)) wanted) \<longleftrightarrow>
   \<not> fits_all wanted m"
  by (induction wanted) (auto simp: fits_all_def decision_for_def)

lemma fits_all_touch [simp]: "fits_all wanted (fold (\<lambda>(k, v). touch_resource k) xs m) = fits_all wanted m"
  by (simp add: fits_all_def)

lemma decision_allowed [simp]: "sd_allowed (decision_for k b u l) = b"
  by (simp add: decision_for_def)

lemma reserve_many_granted:
  "list_ex (\<lambda>d. \<not> sd_allowed d) (fst (reserve_many costs m)) \<longleftrightarrow> \<not> fits_all (non_negative costs) m"
  by (simp add: reserve_many_def Let_def refused_iff) (simp add: list_ex_iff)

lemma reserve_many_same [simp]:
  "limit_of (snd (reserve_many costs m)) r = limit_of m r"
  "bm_scopes (snd (reserve_many costs m)) = bm_scopes m" "bm_calls (snd (reserve_many costs m)) = bm_calls m"
  by (simp_all add: reserve_many_def Let_def)

lemma reserve_many_used:
  "used (snd (reserve_many costs m)) r =
     used m r + (if fits_all (non_negative costs) m then amount_of (non_negative costs) r else 0)"
  by (simp add: reserve_many_def Let_def refused_iff)

datatype budget_request =
    ReserveOne string real
  | ReserveAll amounts
  | ReserveScope string amounts
  | ReserveCall string string amounts

fun request_granted :: "budget_request \<Rightarrow> budget_manager \<Rightarrow> bool" where
  "request_granted (ReserveOne k v) m = sd_allowed (fst (reserve k v m))"
| "request_granted (ReserveAll costs) m = (\<not> list_ex (\<lambda>d. \<not> sd_allowed d) (fst (reserve_many costs m)))"
| "request_granted (ReserveScope key costs) m = fst (reserve_scope key costs m)"
| "request_granted (ReserveCall key purpose costs) m = fst (reserve_model_call key purpose costs m)"

fun after_request :: "budget_request \<Rightarrow> budget_manager \<Rightarrow> budget_manager" where
  "after_request (ReserveOne k v) m = snd (reserve k v m)"
| "after_request (ReserveAll costs) m = snd (reserve_many costs m)"
| "after_request (ReserveScope key costs) m = snd (reserve_scope key costs m)"
| "after_request (ReserveCall key purpose costs) m = snd (reserve_model_call key purpose costs m)"

lemma reserve_scope_used:
  "used (snd (reserve_scope key costs m)) r =
     used m r + (if al_get (bm_scopes m) key = None \<and> fits_all (non_negative costs) m
                 then amount_of (non_negative costs) r else 0)"
  "limit_of (snd (reserve_scope key costs m)) r = limit_of m r"
  "fst (reserve_scope key costs m) \<longleftrightarrow> al_get (bm_scopes m) key \<noteq> None \<or> fits_all (non_negative costs) m"
  using reserve_many_used[of costs m r] reserve_many_granted[of costs m] reserve_many_same(1)[of costs m r]
  by (cases "reserve_many costs m"; auto simp: reserve_scope_def)+

lemma reserve_call_scope:
  "bm_used (snd (reserve_model_call key purpose costs m)) = bm_used (snd (reserve_scope key costs m))"
  "bm_limits (snd (reserve_model_call key purpose costs m)) = bm_limits (snd (reserve_scope key costs m))"
  "bm_scopes (snd (reserve_model_call key purpose costs m)) = bm_scopes (snd (reserve_scope key costs m))"
  "fst (reserve_model_call key purpose costs m) = fst (reserve_scope key costs m)"
  by (auto simp: reserve_model_call_def split: prod.splits bool.splits)

definition budget_cap :: "budget_manager \<Rightarrow> string \<Rightarrow> real option" where
  "budget_cap m r = (if limit_of m r > 0 then Some (limit_of m r) else None)"

lemma fits_all_bound:
  assumes "fits_all (non_negative costs) m" "limit_of m r > 0" "used m r \<le> limit_of m r"
  shows "used m r + amount_of (non_negative costs) r \<le> limit_of m r"
proof (cases "r \<in> set (al_keys (non_negative costs))")
  case True
  then obtain v where "(r, v) \<in> set (non_negative costs)" by (auto simp: al_keys_def)
  with assms show ?thesis by (auto simp: fits_all_def fits_def distinct_amount)
next
  case False
  with assms show ?thesis by (simp add: amount_of_absent)
qed

interpretation run_budget: capped_ledger used budget_cap request_granted after_request
proof
  fix q :: budget_request and m :: budget_manager and r and c
  show "used (after_request q m) r = used m r" if "\<not> request_granted q m"
    using that by (cases q)
      (auto simp: reserve_def Let_def decision_for_def reserve_many_granted reserve_many_used reserve_scope_used
        reserve_call_scope)
  show "used m r \<le> used (after_request q m) r"
    by (cases q) (auto simp: reserve_def Let_def reserve_many_used reserve_scope_used reserve_call_scope)
  show "budget_cap (after_request q m) r = budget_cap m r"
    by (cases q) (auto simp: budget_cap_def reserve_def Let_def reserve_scope_used reserve_call_scope)
  show "used (after_request q m) r \<le> c"
    if "request_granted q m" "budget_cap m r = Some c" "used m r \<le> c"
  proof -
    have c: "limit_of m r > 0" "c = limit_of m r" using that(2) by (auto simp: budget_cap_def split: if_splits)
    show ?thesis
      using that(1,3) c
      by (cases q)
         (auto simp: reserve_def Let_def decision_for_def fits_def max_def reserve_many_granted reserve_many_used
           reserve_scope_used reserve_call_scope fits_all_bound)
  qed
qed

text \<open>Reservations never exceed a limit: whatever mixture of single, joint, scope and model call
  reservations is attempted, a resource with a limit that is not exceeded yet never is, and
  refused requests spend nothing at all, of no resource.\<close>

theorem budget_never_exceeded:
  assumes "0 < limit_of m r" "used m r \<le> limit_of m r"
  shows "used (fold after_request qs m) r \<le> limit_of m r \<and>
    (\<not> request_granted q m \<longrightarrow> (\<forall>k. used (after_request q m) k = used m k))"
  using run_budget.run_within_cap[of m r "limit_of m r" qs] run_budget.refused_spends_nothing[of q m] assms
  by (simp add: budget_cap_def)

definition demo_budget :: budget_manager where
  "demo_budget = new_budget [(''tool_calls'', 2)]"

definition demo_requests :: "budget_request list" where
  "demo_requests = [ReserveOne ''tool_calls'' 1, ReserveOne ''tool_calls'' 5, ReserveAll [(''tool_calls'', 1)]]"

theorem budget_never_exceeded_witness:
  "used (fold after_request demo_requests demo_budget) ''tool_calls'' \<le> 2 \<and> limit_of demo_budget ''tool_calls'' = 2"
proof -
  have l: "limit_of demo_budget ''tool_calls'' = 2" "used demo_budget ''tool_calls'' = 0"
    by (simp_all add: demo_budget_def new_budget_def non_negative_def amount_of_def)
  then show ?thesis using budget_never_exceeded[of demo_budget "''tool_calls''" demo_requests] by simp
qed

subsection \<open>Every call is charged once\<close>

definition scoped :: "budget_manager \<Rightarrow> string \<Rightarrow> real" where
  "scoped m r = (\<Sum>(key, d) \<leftarrow> bm_scopes m. amount_of d r)"

datatype charge =
    Open string amounts
  | Call string string amounts
  | Settle string amounts string
  | Record string real

fun charge_step :: "charge \<Rightarrow> budget_manager \<Rightarrow> budget_manager" where
  "charge_step (Open key costs) m = snd (reserve_scope key costs m)"
| "charge_step (Call key purpose costs) m = snd (reserve_model_call key purpose costs m)"
| "charge_step (Settle key costs status) m = snd (settle_model_call key costs status m)"
| "charge_step (Record k v) m = snd (record_usage k v m)"

fun recorded :: "string \<Rightarrow> charge \<Rightarrow> real" where
  "recorded r (Record k v) = (if k = r then max 0 v else 0)"
| "recorded r c = 0"

lemma sum_al_put:
  "(\<Sum>(k, d) \<leftarrow> al_put key d s. f d) =
     (\<Sum>(k, d) \<leftarrow> s. f d) - (case al_get s key of Some d' \<Rightarrow> f d' | None \<Rightarrow> (0::real)) + f d"
  by (induction key d s rule: al_put.induct) auto

lemma reconcile_fold:
  "distinct ks \<Longrightarrow> used (fold (\<lambda>k m. m\<lparr>bm_used := al_put k (max 0 (amount_of (bm_used m) k - amount_of p k + amount_of w k))
      (bm_used m)\<rparr>) ks m) r =
     (if r \<in> set ks then max 0 (used m r - amount_of p r + amount_of w r) else used m r)"
  "bm_scopes (fold (\<lambda>k m. m\<lparr>bm_used := al_put k (max 0 (amount_of (bm_used m) k - amount_of p k + amount_of w k))
      (bm_used m)\<rparr>) ks m) = bm_scopes m"
  "bm_calls (fold (\<lambda>k m. m\<lparr>bm_used := al_put k (max 0 (amount_of (bm_used m) k - amount_of p k + amount_of w k))
      (bm_used m)\<rparr>) ks m) = bm_calls m"
  by (induction ks arbitrary: m) auto

lemma reconcile_scope_used:
  assumes "0 \<le> used m r"
  shows "used (reconcile_scope key costs m) r =
      max 0 (used m r - amount_of (scope_of key m) r + amount_of (non_negative costs) r)"
proof (cases "r \<in> set (al_keys (scope_of key m) @ al_keys (non_negative costs))")
  case True
  then show ?thesis by (simp add: reconcile_scope_def Let_def reconcile_fold)
next
  case False
  then have "amount_of (scope_of key m) r = 0" "amount_of (non_negative costs) r = 0"
    by (auto simp: amount_of_absent)
  with False assms show ?thesis by (simp add: reconcile_scope_def Let_def reconcile_fold)
qed

lemma reconcile_scope_others:
  "bm_scopes (reconcile_scope key costs m) = al_put key (non_negative costs) (bm_scopes m)"
  "bm_calls (reconcile_scope key costs m) = bm_calls m"
  by (simp_all add: reconcile_scope_def Let_def reconcile_fold)

lemma settle_same:
  "bm_used (snd (settle_model_call key costs status m)) = bm_used (reconcile_scope key costs m)"
  "bm_scopes (snd (settle_model_call key costs status m)) = bm_scopes (reconcile_scope key costs m)"
  by (auto simp: settle_model_call_def Let_def split: option.splits)

lemma record_usage_used:
  "used (snd (record_usage k v m)) r = used m r + recorded r (Record k v)"
  "bm_scopes (snd (record_usage k v m)) = bm_scopes m" "bm_calls (snd (record_usage k v m)) = bm_calls m"
  by (simp_all add: record_usage_def check_budget_def Let_def)

lemma reserve_scope_scopes:
  "bm_scopes (snd (reserve_scope key costs m)) =
     (if al_get (bm_scopes m) key = None \<and> fits_all (non_negative costs) m
      then al_put key (non_negative costs) (bm_scopes m) else bm_scopes m)"
  using reserve_many_granted[of costs m] reserve_many_same(2)[of costs m]
  by (cases "reserve_many costs m"; auto simp: reserve_scope_def)

text \<open>What a ledger has charged beside its scopes, and the sign of the scopes' costs.\<close>

definition sound_scopes :: "budget_manager \<Rightarrow> bool" where
  "sound_scopes m \<longleftrightarrow> (\<forall>(key, d) \<in> set (bm_scopes m). \<forall>r. 0 \<le> amount_of d r)"

lemma sound_put: "sound_scopes m \<Longrightarrow> bm_scopes m' = al_put key (non_negative costs) (bm_scopes m) \<Longrightarrow> sound_scopes m'"
proof -
  have "set (al_put key d s) \<subseteq> insert (key, d) (set s)" for d :: amounts and s
    by (induction key d s rule: al_put.induct) auto
  then show "sound_scopes m \<Longrightarrow> bm_scopes m' = al_put key (non_negative costs) (bm_scopes m) \<Longrightarrow> sound_scopes m'"
    by (fastforce simp: sound_scopes_def)
qed

lemma scope_below:
  assumes "sound_scopes m"
  shows "0 \<le> amount_of (scope_of key m) r" "amount_of (scope_of key m) r \<le> scoped m r"
proof -
  have all: "\<forall>x \<in> set (map (\<lambda>(k, d). amount_of d r) (bm_scopes m)). 0 \<le> x"
    using assms by (auto simp: sound_scopes_def)
  have "0 \<le> amount_of (scope_of key m) r \<and> amount_of (scope_of key m) r \<le> scoped m r"
  proof (cases "al_get (bm_scopes m) key")
    case None
    have "0 \<le> sum_list (map (\<lambda>(k, d). amount_of d r) (bm_scopes m))"
      using all by (intro sum_list_nonneg) blast
    with None show ?thesis by (simp add: scope_of_def scoped_def)
  next
    case (Some d)
    then have "amount_of d r \<in> set (map (\<lambda>(k, d). amount_of d r) (bm_scopes m))" by (force dest: map_of_SomeD)
    with all Some show ?thesis
      by (auto simp: scope_of_def scoped_def simp del: set_map intro: member_le_sum_list)
  qed
  then show "0 \<le> amount_of (scope_of key m) r" "amount_of (scope_of key m) r \<le> scoped m r" by auto
qed

lemma charge_step_exact:
  assumes "sound_scopes m" "scoped m r \<le> used m r"
  shows "sound_scopes (charge_step c m)"
    "used (charge_step c m) r - scoped (charge_step c m) r = used m r - scoped m r + recorded r c"
proof -
  have open_case: "sound_scopes m' \<and> used m' r - scoped m' r = used m r - scoped m r"
    if "used m' r = used (snd (reserve_scope key costs m)) r" "bm_scopes m' = bm_scopes (snd (reserve_scope key costs m))"
    for m' key costs
  proof (cases "al_get (bm_scopes m) key = None \<and> fits_all (non_negative costs) m")
    case True
    then have "bm_scopes m' = al_put key (non_negative costs) (bm_scopes m)"
      using that(2) by (simp add: reserve_scope_scopes)
    with True that(1) sound_put[OF assms(1) this] show ?thesis
      by (simp add: reserve_scope_used scoped_def sum_al_put)
  next
    case False
    have "bm_scopes m' = bm_scopes m" using that(2) unfolding reserve_scope_scopes if_not_P[OF False] .
    moreover have "used m' r = used m r" using that(1) unfolding reserve_scope_used(1) if_not_P[OF False] by simp
    ultimately show ?thesis using assms(1) by (simp add: scoped_def sound_scopes_def)
  qed
  have settle: "sound_scopes m' \<and> used m' r - scoped m' r = used m r - scoped m r"
    if m': "bm_used m' = bm_used (reconcile_scope key costs m)" "bm_scopes m' = bm_scopes (reconcile_scope key costs m)"
    for m' key costs
  proof -
    note below = scope_below[OF assms(1), where key = key and r = r]
    have "used m' r = used m r - amount_of (scope_of key m) r + amount_of (non_negative costs) r"
      using assms(2) below non_negative_amount[of costs r] by (simp add: m' reconcile_scope_used)
    moreover have "scoped m' r = scoped m r - amount_of (scope_of key m) r + amount_of (non_negative costs) r"
      by (simp add: scoped_def m' reconcile_scope_others sum_al_put scope_of_def split: option.splits)
    ultimately show ?thesis using sound_put[OF assms(1)] m'(2) by (auto simp: reconcile_scope_others)
  qed
  have "sound_scopes (charge_step c m) \<and>
      used (charge_step c m) r - scoped (charge_step c m) r = used m r - scoped m r + recorded r c"
  proof (cases c)
    case (Open key costs)
    then show ?thesis using open_case[of "charge_step c m" key costs] by simp
  next
    case (Call key purpose costs)
    then show ?thesis using open_case[of "charge_step c m" key costs] by (simp add: reserve_call_scope)
  next
    case (Settle key costs status)
    then show ?thesis using settle[of "charge_step c m" key costs] by (simp add: settle_same)
  next
    case (Record k v)
    then show ?thesis using assms(1) by (simp add: record_usage_used scoped_def sound_scopes_def)
  qed
  then show "sound_scopes (charge_step c m)"
    "used (charge_step c m) r - scoped (charge_step c m) r = used m r - scoped m r + recorded r c" by auto
qed

text \<open>Every scope and model call is charged exactly once, at its last known costs: after any
  sequence of scope openings, model call reservations, settlements and recorded usage on a fresh ledger, the usage of a
  resource is the sum over the scopes of the costs they hold now (reserved while the outcome is
  unknown, settled afterwards) plus the recorded usage.\<close>

theorem budget_charges_once:
  "used (fold charge_step cs (new_budget limits)) r =
     scoped (fold charge_step cs (new_budget limits)) r + (\<Sum>c \<leftarrow> cs. recorded r c)"
proof -
  have gen: "used (fold charge_step cs m) r - scoped (fold charge_step cs m) r =
      used m r - scoped m r + (\<Sum>c \<leftarrow> cs. recorded r c)"
    if "sound_scopes m" "scoped m r \<le> used m r" for m
    using that
  proof (induction cs arbitrary: m)
    case (Cons c cs)
    note step = charge_step_exact[OF Cons.prems, of c]
    have "0 \<le> recorded r c" by (cases c) auto
    with step(2) Cons.prems(2) have "scoped (charge_step c m) r \<le> used (charge_step c m) r" by linarith
    from Cons.IH[OF step(1) this] step(2) show ?case by simp
  qed simp
  have zero: "amount_of (map (\<lambda>(k, v). (k, 0)) l) r = 0" for l :: amounts
    by (induction l) auto
  have start: "sound_scopes (new_budget limits)" "scoped (new_budget limits) r = 0" "used (new_budget limits) r = 0"
    by (simp_all add: new_budget_def sound_scopes_def scoped_def Let_def zero)
  from gen[OF start(1)] start show ?thesis by simp
qed

subsection \<open>What a dispatched call costs\<close>

definition admitted :: "call_request \<Rightarrow> budget_manager \<Rightarrow> bool" where
  "admitted q m \<longleftrightarrow> call_guard q = ok () \<and>
     fits (limit_of m ''hard_cost_limit_usd'') (used m ''hard_cost_limit_usd'') 0 \<and>
     fits_all (non_negative (call_costs (cr_input q) (cr_output q))) m"

lemma call_costs_amount:
  "0 \<le> i \<Longrightarrow> 0 \<le> out \<Longrightarrow> amount_of (non_negative (call_costs i out)) r = amount_of (call_costs i out) r"
  by (simp add: call_costs_def non_negative_def)

lemma check_budget_touch: "check_budget k v m =
    (decision_for k (fits (limit_of m k) (used m k) (max 0 v)) (used m k) (limit_of m k), touch_resource k m)"
  by (simp add: check_budget_def Let_def)

lemma fold_check_used: "used (fold (\<lambda>(k, v) m. snd (check_budget k v m)) costs m) r = used m r"
  by (induction costs arbitrary: m) (auto simp: check_budget_touch)

lemma fits_all_touch1 [simp]: "fits_all wanted (touch_resource k m) = fits_all wanted m"
  by (simp add: fits_all_def)

lemma accumulate_used:
  "used (accumulate_cost cost m) r =
     used m r + (if r \<in> {''hard_cost_limit_usd'', ''soft_cost_limit_usd''} then max 0 cost else 0)"
  "bm_calls (accumulate_cost cost m) = bm_calls m"
  by (simp_all add: accumulate_cost_def record_usage_used)

lemma settle_reserved:
  assumes "al_get (bm_scopes m) key = Some (non_negative reserved)" "al_get (bm_calls m) key = Some (purpose, st)"
    and "\<And>r. amount_of (non_negative reserved) r \<le> used m r"
  obtains m' where "settle_model_call key costs status m = (ok (), m')"
    "\<And>r. used m' r = used m r - amount_of (non_negative reserved) r + amount_of (non_negative costs) r"
    "al_get (bm_calls m') key = Some (purpose, status)"
proof -
  have nn: "0 \<le> used m r" for r using assms(3)[of r] non_negative_amount[of reserved r] by linarith
  let ?m = "(reconcile_scope key costs m)\<lparr>bm_calls := al_put key (purpose, status) (bm_calls m)\<rparr>"
  have "settle_model_call key costs status m = (ok (), ?m)"
    using assms(2) by (simp add: settle_model_call_def Let_def reconcile_scope_others)
  moreover have "used ?m r = used m r - amount_of (non_negative reserved) r + amount_of (non_negative costs) r" for r
    using assms(1) assms(3)[of r] reconcile_scope_used[OF nn, of key costs r] non_negative_amount[of costs r]
    by (simp add: scope_of_def)
  ultimately show ?thesis using that by simp
qed

text \<open>C26. What a model call costs: a call that is not admitted (bad request, cancelled, deadline or
  budget exhausted) costs nothing; an admitted call whose dispatch raises keeps its whole reservation and
  stays \<open>unknown\<close>; a call that returns is charged its actual usage when that is known and otherwise
  what it reserved, and its price goes to both cost ledgers.\<close>

theorem model_call_charging:
  assumes "invoke_model_call price outcome q m = (res, m')"
    and "al_get (bm_scopes m) (cr_key q) = None" "\<And>r. 0 \<le> used m r"
  shows "if \<not> admitted q m then (\<exists>e. res = Inl e) \<and> (\<forall>r. used m' r = used m r)
    else case outcome of
      Inl e \<Rightarrow> res = Inl e \<and> al_get (bm_calls m') (cr_key q) = Some (cr_purpose q, ''unknown'') \<and>
        (\<forall>r. used m' r = used m r + amount_of (call_costs (cr_input q) (cr_output q)) r)
    | Inr (v, usage) \<Rightarrow>
        (let (i, out, status) = (case known_usage usage of Some (i, out) \<Rightarrow> (i, out, ''actual'')
              | None \<Rightarrow> (cr_input q, cr_output q, ''estimated''))
         in res = ok v \<and> al_get (bm_calls m') (cr_key q) = Some (cr_purpose q, status) \<and>
            (\<forall>r. used m' r = used m r + amount_of (call_costs i out) r +
              (if r \<in> {''hard_cost_limit_usd'', ''soft_cost_limit_usd''} then max 0 (price i out) else 0)))"
proof -
  let ?hard = "''hard_cost_limit_usd''" and ?key = "cr_key q"
  let ?costs = "call_costs (cr_input q) (cr_output q)"
  let ?m1 = "touch_resource ?hard m"
  show ?thesis
  proof (cases "call_guard q")
    case (Inl e)
    with assms(1) show ?thesis by (auto simp: invoke_model_call_def admitted_def)
  next
    case guard: (Inr u)
    then have tokens: "0 \<le> cr_input q" "0 \<le> cr_output q" by (auto simp: call_guard_def)
    show ?thesis
    proof (cases "fits (limit_of m ?hard) (used m ?hard) 0 \<and> fits_all (non_negative ?costs) m")
      case False
      then have "\<not> admitted q m" by (auto simp: admitted_def)
      moreover have "(\<exists>e. res = Inl e) \<and> (\<forall>r. used m' r = used m r)"
      proof (cases "fits (limit_of m ?hard) (used m ?hard) 0")
        case hard: True
        with False have nofit: "\<not> fits_all (non_negative ?costs) m" by blast
        obtain b m2 where call: "reserve_model_call ?key (cr_purpose q) ?costs ?m1 = (b, m2)"
          by (cases "reserve_model_call ?key (cr_purpose q) ?costs ?m1") auto
        have "\<not> b" "used m2 r = used m r" for r
          using reserve_call_scope(1,4)[of ?key "cr_purpose q" ?costs ?m1] reserve_scope_used(1,3)[of ?key ?costs ?m1]
            assms(2) nofit call by simp_all
        with assms(1) guard hard call show ?thesis
          by (auto simp: invoke_model_call_def check_budget_touch Let_def fold_check_used)
      next
        case hard: False
        with assms(1) guard show ?thesis by (auto simp: invoke_model_call_def check_budget_touch)
      qed
      ultimately show ?thesis by simp
    next
      case fits: True
      then have adm: "admitted q m" using guard by (simp add: admitted_def)
      obtain b m2 where call: "reserve_model_call ?key (cr_purpose q) ?costs ?m1 = (b, m2)"
        by (cases "reserve_model_call ?key (cr_purpose q) ?costs ?m1") auto
      have m2: "b" "used m2 r = used m r + amount_of (non_negative ?costs) r"
        "al_get (bm_scopes m2) ?key = Some (non_negative ?costs)" for r
        using reserve_call_scope[of ?key "cr_purpose q" ?costs ?m1] reserve_scope_used[of ?key ?costs ?m1]
          reserve_scope_scopes[of ?key ?costs ?m1] assms(2) fits call by simp_all
      have calls: "al_get (bm_calls m2) ?key = Some (cr_purpose q, ''unknown'')"
        using call m2(1) by (auto simp: reserve_model_call_def split: prod.splits bool.splits)
      have enough: "amount_of (non_negative ?costs) r \<le> used m2 r" for r using assms(3)[of r] m2(2)[of r] by simp
      show ?thesis
      proof (cases outcome)
        case (Inl e)
        with assms(1) guard fits call m2 calls adm show ?thesis
          by (simp add: invoke_model_call_def check_budget_touch Let_def call_costs_amount tokens)
      next
        case (Inr vu)
        obtain v usage where vu: "vu = (v, usage)" by (cases vu)
        obtain i out status where u: "(case known_usage usage of Some (i, out) \<Rightarrow> (i, out, ''actual'')
              | None \<Rightarrow> (cr_input q, cr_output q, ''estimated'')) = (i, out, status)" by (metis prod_cases3)
        have pos: "0 \<le> i" "0 \<le> out"
          using u tokens by (auto simp: known_usage_def split: option.splits if_splits)
        obtain m3 where m3: "settle_model_call ?key (call_costs i out) status m2 = (ok (), m3)"
          "\<And>r. used m3 r = used m2 r - amount_of (non_negative ?costs) r + amount_of (non_negative (call_costs i out)) r"
          "al_get (bm_calls m3) ?key = Some (cr_purpose q, status)"
          by (rule settle_reserved[OF m2(3) calls enough, where costs = "call_costs i out" and status = status]) (rule that)
        have "res = ok v" "m' = accumulate_cost (price i out) m3"
          using assms(1) guard fits call m2(1) Inr vu u m3(1)
          by (simp_all add: invoke_model_call_def check_budget_touch Let_def bindS_def)
        then show ?thesis
          using adm Inr vu u m3(2,3) m2(2) by (simp add: accumulate_used call_costs_amount pos)
      qed
    qed
  qed
qed

definition demo_call :: call_request where
  "demo_call = \<lparr>cr_key = ''model:1'', cr_purpose = ''answer'', cr_input = 10, cr_output = 5, cr_timeout = None,
     cr_input_limit = None, cr_cancelled = None, cr_expired = False\<rparr>"

theorem model_call_charging_witness:
  "(let (res, m') = invoke_model_call (\<lambda>i out. 1) (Inr (''done'', Some (8, 2))) demo_call demo_budget
    in res = ok ''done'' \<and> used m' ''total_tokens'' = 10 \<and> used m' ''hard_cost_limit_usd'' = 1) \<and>
   (let (res, m') = invoke_model_call (\<lambda>i out. 1) (Inl StopIter :: (string \<times> (int \<times> int) option) res) demo_call demo_budget
    in res = Inl StopIter \<and> used m' ''total_tokens'' = 15)"
proof -
  have zero: "used demo_budget r = 0" for r
    by (simp add: demo_budget_def new_budget_def non_negative_def amount_of_def)
  have fresh: "al_get (bm_scopes demo_budget) (cr_key demo_call) = None"
    by (simp add: demo_budget_def new_budget_def Let_def)
  have limit: "limit_of demo_budget r = (if r = ''tool_calls'' then 2 else 0)" for r
    by (simp add: demo_budget_def new_budget_def non_negative_def amount_of_def)
  have adm: "admitted demo_call demo_budget"
    by (simp add: admitted_def demo_call_def call_guard_def guardR_def fits_all_def fits_def limit zero
        call_costs_def non_negative_def)
  obtain res1 m1 where r1: "invoke_model_call (\<lambda>i out. 1) (Inr (''done'', Some (8, 2))) demo_call demo_budget = (res1, m1)"
    by fastforce
  obtain res2 m2 where r2: "invoke_model_call (\<lambda>i out. 1) (Inl StopIter :: (string \<times> (int \<times> int) option) res)
      demo_call demo_budget = (res2, m2)" by fastforce
  note c1 = model_call_charging[OF r1 fresh eq_refl[OF zero[symmetric]]]
  note c2 = model_call_charging[OF r2 fresh eq_refl[OF zero[symmetric]]]
  show ?thesis
    using c1 c2 adm by (simp add: r1 r2 known_usage_def zero call_costs_def) (simp add: demo_call_def)
qed

end
