(* ===== verification/StepGuard.thy ===== *)
theory StepGuard
  imports Json
begin

text \<open>
  \<open>agent_runtime/step_guard.py\<close>: the guard that stops a run without progress.  It counts idle steps and
  steps on unrelated files, moves from exploring to converging to patching, and blocks reads that repeat
  known evidence or exceed what the converging phase allows.  Sets are lists, tool arguments JSON
  dictionaries, ratios are computed exactly.  \<open>json.dumps\<close> and \<open>str\<close> of a value that is no string are
  arguments; the explanatory texts of a verdict are left out.
\<close>

subsection \<open>State\<close>

record printing =
  pr_dumps :: "jdict \<Rightarrow> string"
  pr_str :: "jvalue \<Rightarrow> string"

record guard_limits =
  gl_stall :: nat
  gl_warn :: nat
  gl_drift :: nat
  gl_reads :: nat

definition default_limits :: guard_limits where
  "default_limits = \<lparr>gl_stall = 3, gl_warn = 2, gl_drift = 3, gl_reads = 6\<rparr>"

record step_guard =
  sg_limits :: guard_limits
  sg_stall :: nat
  sg_drift :: nat
  sg_suspects :: "string list"
  sg_warned :: bool
  sg_phase :: string
  sg_keys :: "string list"
  sg_ranges :: "(string, (int \<times> int) list) alist"
  sg_reads :: nat
  sg_targeted :: bool
  sg_novel :: nat
  sg_local :: bool
  sg_closed :: bool
  sg_reason :: string

record step_context =
  sc_tool :: string
  sc_args :: jdict
  sc_affected :: bool
  sc_key :: string

record step_verdict =
  sv_reason :: string
  sv_action :: string

definition FILE_TOOLS :: "string list" where
  "FILE_TOOLS = [''read_file'', ''write_file'', ''patch_file'', ''ast_parse'', ''code_lookup'', ''code_relations'',
     ''inspect_file'']"

definition READ_TOOLS :: "string list" where
  "READ_TOOLS = [''read_file'', ''list_files'', ''grep'', ''ast_parse'', ''inspect_file'', ''find_test'', ''git_blame'',
     ''git_diff'', ''java_ast_parse'', ''stack_parse'', ''java_stack_parse'', ''expand_observation'', ''web_search'',
     ''web_fetch'']"

definition WRITE_TOOLS :: "string list" where
  "WRITE_TOOLS = [''write_file'', ''patch_file'', ''apply_patch'']"

text \<open>The matches of \<open>[\w/\-]+\.py\<close>: a maximal run of name characters before \<open>.py\<close>; of each the last
  path component.\<close>

definition name_char :: "char \<Rightarrow> bool" where
  "name_char c = (let n = (of_char c :: nat) in
     (48 \<le> n \<and> n \<le> 57) \<or> (65 \<le> n \<and> n \<le> 90) \<or> (97 \<le> n \<and> n \<le> 122) \<or> n = 95 \<or> n = 47 \<or> n = 45)"

function py_names :: "string \<Rightarrow> string \<Rightarrow> string list" where
  "py_names run [] = []"
| "py_names run (c # cs) =
     (if name_char c then py_names (run @ [c]) cs
      else if run \<noteq> [] \<and> c = CHR ''.'' \<and> starts_with cs ''py'' then (run @ ''.py'') # py_names [] (drop 2 cs)
      else py_names [] cs)"
  by pat_completeness auto
termination by (relation "measure (\<lambda>(run, s). length s)") auto

definition last_component :: "string \<Rightarrow> string" where
  "last_component s = last (split_on (CHR ''/'') s)"

definition extract_filenames :: "string \<Rightarrow> string list" where
  "extract_filenames s = dedup (map last_component (py_names [] s))"

definition forward_slashes :: "string \<Rightarrow> string" where
  "forward_slashes s = map (\<lambda>c. if c = CHR 0x5C then CHR ''/'' else c) s"

definition tool_target_file :: "string \<Rightarrow> jdict \<Rightarrow> string option res" where
  "tool_target_file tool args =
     (if tool \<notin> set FILE_TOOLS \<or> \<not> jtruthy (dget_or args ''path'' (JStr [])) then ok None
      else case dget args ''path'' of
        JStr p \<Rightarrow> ok (Some (last_component (forward_slashes p)))
      | _ \<Rightarrow> raise (AttributeError ''replace''))"

definition new_guard :: "guard_limits \<Rightarrow> step_guard" where
  "new_guard l = \<lparr>sg_limits = l, sg_stall = 0, sg_drift = 0, sg_suspects = [], sg_warned = False,
     sg_phase = ''explore'', sg_keys = [], sg_ranges = [], sg_reads = 0, sg_targeted = False, sg_novel = 0,
     sg_local = False, sg_closed = False, sg_reason = []\<rparr>"

definition reset_guard :: "string \<Rightarrow> string list option \<Rightarrow> bool \<Rightarrow> step_guard \<Rightarrow> step_guard" where
  "reset_guard task suspects localization g =
     (new_guard (sg_limits g))\<lparr>sg_local := localization,
       sg_suspects := (case suspects of Some s \<Rightarrow> dedup s | None \<Rightarrow> extract_filenames task)\<rparr>"

definition enter_convergence :: "string \<Rightarrow> step_guard \<Rightarrow> bool \<times> step_guard" where
  "enter_convergence reason g =
     (if sg_phase g \<noteq> ''explore'' then (False, g)
      else (True, g\<lparr>sg_phase := ''converge'', sg_reason := reason\<rparr>))"

definition request_targeted_reread :: "string \<Rightarrow> step_guard \<Rightarrow> bool \<times> step_guard" where
  "request_targeted_reread reason g =
     (if sg_targeted g \<and> reason \<notin> {''stale_preimage'', ''no_change''} then (False, g)
      else (True, g\<lparr>sg_targeted := False, sg_phase := ''converge'',
              sg_reason := (if reason \<noteq> [] then reason else ''targeted_reread'')\<rparr>))"

definition localization_reads_available :: "step_guard \<Rightarrow> bool" where
  "localization_reads_available g \<longleftrightarrow>
     sg_local g \<and> sg_phase g = ''converge'' \<and> \<not> sg_closed g \<and> sg_novel g < 3"

definition targeted_read_available :: "step_guard \<Rightarrow> bool" where
  "targeted_read_available g \<longleftrightarrow> sg_phase g = ''converge'' \<and> \<not> sg_targeted g"

subsection \<open>Reads\<close>

fun str_of :: "printing \<Rightarrow> jvalue \<Rightarrow> string" where
  "str_of pr (JStr s) = s"
| "str_of pr v = pr_str pr v"

definition or_else :: "jvalue \<Rightarrow> jvalue \<Rightarrow> jvalue" where
  "or_else v w = (if jtruthy v then v else w)"

definition path_arg :: "printing \<Rightarrow> jdict \<Rightarrow> string" where
  "path_arg pr args = forward_slashes (str_of pr (or_else (dget args ''path'') (JStr [])))"

text \<open>\<open>int(v)\<close>; of texts, decimal digits with an optional sign are read.\<close>

fun int_text :: "string \<Rightarrow> int option" where
  "int_text [] = None"
| "int_text (c # s) =
     (if list_all is_digit (c # s) then Some (int (digits_val (c # s)))
      else if s \<noteq> [] \<and> list_all is_digit s \<and> c = CHR ''-'' then Some (- int (digits_val s))
      else if s \<noteq> [] \<and> list_all is_digit s \<and> c = CHR ''+'' then Some (int (digits_val s))
      else None)"

fun int_arg :: "jvalue \<Rightarrow> int res" where
  "int_arg (JInt n) = ok n"
| "int_arg (JBool b) = ok (if b then 1 else 0)"
| "int_arg (JReal x) = ok (if x \<ge> 0 then \<lfloor>x\<rfloor> else - \<lfloor>- x\<rfloor>)"
| "int_arg (JStr s) = (case int_text s of Some n \<Rightarrow> ok n | None \<Rightarrow> raise (ValueError ''int''))"
| "int_arg v = raise (TypeErr ''int'')"

definition read_range :: "jdict \<Rightarrow> (int \<times> int) res" where
  "read_range args =
     bindR (int_arg (or_else (dget_or args ''start'' (JInt 1)) (JInt 1))) (\<lambda>a.
     bindR (int_arg (or_else (dget_or args ''end'' (JInt 200)) (JInt 200))) (\<lambda>b.
       ok (max 1 a, max (max 1 a) b)))"

definition read_progress_key :: "printing \<Rightarrow> string \<Rightarrow> jdict \<Rightarrow> string" where
  "read_progress_key pr tool args =
     (if tool \<notin> set READ_TOOLS then []
      else tool @ '':'' @ pr_dumps pr
        (if map_of args ''path'' = None then args
         else jput ''path'' (JStr (forward_slashes (str_of pr (or_else (dget args ''path'') (JStr ''.''))))) args))"

text \<open>Two ranges repeat each other when they share at least seven tenths of the shorter one.\<close>

definition overlaps :: "int \<times> int \<Rightarrow> int \<times> int \<Rightarrow> bool" where
  "overlaps new old =
    (let (a, b) = new; (c, d) = old;
         overlap = max 0 (min b d - max a c + 1); shorter = min (b - a + 1) (d - c + 1)
     in shorter > 0 \<and> 10 * overlap \<ge> 7 * shorter)"

definition ranges_of :: "string \<Rightarrow> step_guard \<Rightarrow> (int \<times> int) list" where
  "ranges_of path g = (case al_get (sg_ranges g) path of Some rs \<Rightarrow> rs | None \<Rightarrow> [])"

definition is_duplicate_read :: "printing \<Rightarrow> string \<Rightarrow> jdict \<Rightarrow> step_guard \<Rightarrow> bool res" where
  "is_duplicate_read pr tool args g =
     (if read_progress_key pr tool args \<in> set (sg_keys g) then ok True
      else if tool \<noteq> ''read_file'' \<or> path_arg pr args = [] then ok False
      else bindR (read_range args) (\<lambda>r. ok (list_ex (overlaps r) (ranges_of (path_arg pr args) g))))"

definition remember_read_range :: "printing \<Rightarrow> string \<Rightarrow> jdict \<Rightarrow> (step_guard, unit) proc" where
  "remember_read_range pr tool args g =
     (if tool \<noteq> ''read_file'' \<or> path_arg pr args = [] then (ok (), g)
      else case read_range args of
        Inl e \<Rightarrow> (Inl e, g)
      | Inr r \<Rightarrow> (ok (), g\<lparr>sg_ranges := al_put (path_arg pr args) (ranges_of (path_arg pr args) g @ [r]) (sg_ranges g)\<rparr>))"

definition silent :: "string \<Rightarrow> step_verdict" where
  "silent action = \<lparr>sv_reason = [], sv_action = action\<rparr>"

definition post_lock_read :: "printing \<Rightarrow> string \<Rightarrow> jdict \<Rightarrow> jdict option \<Rightarrow> bool" where
  "post_lock_read pr tool args reservation \<longleftrightarrow>
     tool = ''read_file'' \<and>
     (case reservation of
        Some d \<Rightarrow> dget d ''kind'' = JStr ''post_lock'' \<and> dget d ''path'' = JStr (path_arg pr args)
      | None \<Rightarrow> False)"

definition preflight ::
  "printing \<Rightarrow> string \<Rightarrow> jdict \<Rightarrow> jdict option \<Rightarrow> (step_guard, step_verdict option) proc" where
  "preflight pr tool args reservation g =
     (if tool \<notin> set READ_TOOLS then (ok None, g)
      else if post_lock_read pr tool args reservation then (ok (Some (silent ''allow_reserved_read'')), g)
      else case is_duplicate_read pr tool args g of
        Inl e \<Rightarrow> (Inl e, g)
      | Inr True \<Rightarrow>
          (ok (Some (silent ''block_duplicate_read'')),
           snd (enter_convergence ''duplicate_read''
             (if sg_local g \<and> sg_phase g = ''converge'' then g\<lparr>sg_closed := True\<rparr> else g)))
      | Inr False \<Rightarrow>
          (if sg_phase g \<noteq> ''converge'' then (ok None, g)
           else if sg_local g \<and> sg_novel g < 3
           then (ok (Some (silent ''allow_localization_read'')), g\<lparr>sg_novel := sg_novel g + 1\<rparr>)
           else if \<not> sg_targeted g
           then (ok (Some (silent ''allow_targeted_read'')), g\<lparr>sg_targeted := True\<rparr>)
           else (ok (Some (silent ''block_convergence_read'')), g)))"

subsection \<open>Evaluation of a step\<close>

definition novel_evidence :: "step_context \<Rightarrow> step_guard \<Rightarrow> bool" where
  "novel_evidence c g \<longleftrightarrow> sc_key c \<noteq> [] \<and> sc_key c \<notin> set (sg_keys g)"

definition evaluate_stall :: "step_context \<Rightarrow> bool \<Rightarrow> step_guard \<Rightarrow> step_verdict option \<times> step_guard" where
  "evaluate_stall c novel g =
     (if sc_affected c \<or> novel then (None, g\<lparr>sg_stall := 0\<rparr>)
      else (let g = g\<lparr>sg_stall := sg_stall g + 1\<rparr> in
        (if sg_stall g \<ge> gl_stall (sg_limits g)
         then Some \<lparr>sv_reason = ''stall'', sv_action = ''replan_then_terminate''\<rparr> else None, g)))"

definition record_progress :: "printing \<Rightarrow> step_context \<Rightarrow> bool \<Rightarrow> (step_guard, step_verdict option) proc" where
  "record_progress pr c novel g =
     (if sc_tool c \<in> set WRITE_TOOLS \<and> sc_affected c then (ok None, g\<lparr>sg_phase := ''patch'', sg_reads := 0\<rparr>)
      else if sc_tool c \<notin> set READ_TOOLS \<or> sc_key c = [] then (ok None, g)
      else bindS (if novel then (\<lambda>g. remember_read_range pr (sc_tool c) (sc_args c) (g\<lparr>sg_keys := sc_key c # sg_keys g\<rparr>))
                  else returnS ())
        (\<lambda>_ g. let g = g\<lparr>sg_reads := sg_reads g + 1\<rparr> in
           if sg_phase g = ''explore'' \<and> sg_reads g \<ge> gl_reads (sg_limits g)
           then (ok (Some (silent ''enter_convergence'')), snd (enter_convergence ''read_limit_without_write'' g))
           else (ok None, g)) g)"

definition evaluate_drift :: "step_context \<Rightarrow> (step_guard, step_verdict option) proc" where
  "evaluate_drift c g =
     (case tool_target_file (sc_tool c) (sc_args c) of
        Inl e \<Rightarrow> (Inl e, g)
      | Inr None \<Rightarrow> (ok None, g)
      | Inr (Some target) \<Rightarrow>
          if sg_suspects g = [] then (ok None, g)
          else if target \<in> set (sg_suspects g) then (ok None, g\<lparr>sg_drift := 0, sg_warned := False\<rparr>)
          else
           (let g = g\<lparr>sg_drift := sg_drift g + 1\<rparr> in
            if sg_drift g \<ge> gl_drift (sg_limits g)
            then (ok (Some \<lparr>sv_reason = ''goal_drift'', sv_action = ''replan_then_terminate''\<rparr>), g)
            else if sg_drift g \<ge> gl_warn (sg_limits g) \<and> \<not> sg_warned g
            then (ok (Some (silent ''warn'')), g\<lparr>sg_warned := True\<rparr>)
            else (ok None, g)))"

definition evaluate :: "printing \<Rightarrow> step_context \<Rightarrow> (step_guard, step_verdict option) proc" where
  "evaluate pr c g =
    (let novel = novel_evidence c g in
     case evaluate_stall c novel g of
       (Some v, g) \<Rightarrow> (ok (Some v), g)
     | (None, g) \<Rightarrow>
        bindS (record_progress pr c novel) (\<lambda>progress.
        bindS (evaluate_drift c) (\<lambda>drift.
          returnS (case drift of Some v \<Rightarrow> Some v | None \<Rightarrow> progress))) g)"

subsection \<open>Idle steps stop the run\<close>

definition idle :: "step_context \<Rightarrow> step_guard \<Rightarrow> bool" where
  "idle c g \<longleftrightarrow> \<not> sc_affected c \<and> \<not> novel_evidence c g"

text \<open>What the guard keeps: \<open>stable\<close> relates the guard before and after a step that is no reset.\<close>

definition stable :: "step_guard \<Rightarrow> step_guard \<Rightarrow> bool" where
  "stable g g' \<longleftrightarrow> sg_limits g' = sg_limits g \<and> sg_local g' = sg_local g \<and> sg_suspects g' = sg_suspects g \<and>
     sg_novel g' = sg_novel g \<and> sg_targeted g' = sg_targeted g"

lemma stable_refl [simp]: "stable g g"
  by (simp add: stable_def)

lemma stable_trans: "stable g h \<Longrightarrow> stable h k \<Longrightarrow> stable g k"
  by (simp add: stable_def)

lemma remember_read_range_keeps:
  assumes "remember_read_range pr tool args g = (r, g')"
  shows "stable g g' \<and> sg_stall g' = sg_stall g \<and> sg_phase g' = sg_phase g"
  using assms by (auto simp: remember_read_range_def stable_def split: if_splits sum.splits)

lemma enter_convergence_keeps:
  "stable g (snd (enter_convergence reason g))" "sg_stall (snd (enter_convergence reason g)) = sg_stall g"
  "sg_phase g \<noteq> ''explore'' \<Longrightarrow> snd (enter_convergence reason g) = g"
  by (simp_all add: enter_convergence_def stable_def)

lemma record_progress_keeps:
  assumes "record_progress pr c novel g = (r, g')"
  shows "stable g g'" "sg_stall g' = sg_stall g"
    "sg_phase g = ''converge'' \<Longrightarrow> \<not> (sc_tool c \<in> set WRITE_TOOLS \<and> sc_affected c) \<Longrightarrow> sg_phase g' = ''converge''"
    "r = ok (Some v) \<Longrightarrow> sv_reason v = []"
proof -
  let ?effective = "sc_tool c \<in> set WRITE_TOOLS \<and> sc_affected c"
  consider (effective) "?effective" "(r, g') = (ok None, g\<lparr>sg_phase := ''patch'', sg_reads := 0\<rparr>)"
    | (other) "(r, g') = (ok None, g)"
    | (failed) e where "r = Inl e" "stable g g'" "sg_stall g' = sg_stall g" "sg_phase g' = sg_phase g"
    | (read) h where "stable g h" "sg_stall h = sg_stall g" "sg_phase h = sg_phase g"
        "(r, g') = (if sg_phase h = ''explore'' \<and> sg_reads h + 1 \<ge> gl_reads (sg_limits h)
           then (ok (Some (silent ''enter_convergence'')),
             snd (enter_convergence ''read_limit_without_write'' (h\<lparr>sg_reads := sg_reads h + 1\<rparr>)))
           else (ok None, h\<lparr>sg_reads := sg_reads h + 1\<rparr>))"
  proof (cases "?effective \<or> sc_tool c \<notin> set READ_TOOLS \<or> sc_key c = []")
    case True
    then show ?thesis using assms that(1,2) by (auto simp: record_progress_def split: if_splits)
  next
    case False
    let ?note = "if novel then (\<lambda>g. remember_read_range pr (sc_tool c) (sc_args c) (g\<lparr>sg_keys := sc_key c # sg_keys g\<rparr>))
        else returnS ()"
    have run: "record_progress pr c novel g = bindS ?note (\<lambda>_ g. let g = g\<lparr>sg_reads := sg_reads g + 1\<rparr> in
           if sg_phase g = ''explore'' \<and> sg_reads g \<ge> gl_reads (sg_limits g)
           then (ok (Some (silent ''enter_convergence'')), snd (enter_convergence ''read_limit_without_write'' g))
           else (ok None, g)) g"
      using False unfolding record_progress_def by auto
    obtain q h where q: "?note g = (q, h)" by fastforce
    have h: "stable g h \<and> sg_stall h = sg_stall g \<and> sg_phase h = sg_phase g"
      using q by (cases novel) (auto dest!: remember_read_range_keeps simp: stable_def returnS_def)
    show ?thesis
    proof (cases q)
      case (Inl e)
      then have "r = Inl e \<and> g' = h"
        using assms unfolding run bindS_def q by simp
      then show ?thesis using h that(3) by blast
    next
      case (Inr u)
      then show ?thesis
        using assms h unfolding run bindS_def q by (intro that(4) [of h]) (auto simp: Let_def split: if_splits)
    qed
  qed
  then have "stable g g' \<and> sg_stall g' = sg_stall g \<and>
      (sg_phase g = ''converge'' \<longrightarrow> \<not> ?effective \<longrightarrow> sg_phase g' = ''converge'') \<and>
      (r = ok (Some v) \<longrightarrow> sv_reason v = [])"
  proof cases
    case (read h)
    then show ?thesis
      by (auto simp: enter_convergence_def stable_def silent_def split: if_splits)
  qed (auto simp: stable_def)
  then show "stable g g'" "sg_stall g' = sg_stall g"
    "sg_phase g = ''converge'' \<Longrightarrow> \<not> ?effective \<Longrightarrow> sg_phase g' = ''converge''"
    "r = ok (Some v) \<Longrightarrow> sv_reason v = []"
    by blast+
qed

lemma evaluate_drift_keeps:
  assumes "evaluate_drift c g = (r, g')"
  shows "stable g g'" "sg_stall g' = sg_stall g" "sg_phase g' = sg_phase g"
    "r = ok (Some v) \<Longrightarrow> sv_reason v \<noteq> ''stall''"
  using assms by (auto simp: evaluate_drift_def stable_def silent_def Let_def split: sum.splits option.splits if_splits)

lemma evaluate_cases:
  obtains (stalled) "idle c g" "gl_stall (sg_limits g) \<le> Suc (sg_stall g)"
      "evaluate pr c g = (ok (Some \<lparr>sv_reason = ''stall'', sv_action = ''replan_then_terminate''\<rparr>), g\<lparr>sg_stall := Suc (sg_stall g)\<rparr>)"
  | (moving) h where "evaluate pr c g = bindS (record_progress pr c (novel_evidence c g)) (\<lambda>progress.
        bindS (evaluate_drift c) (\<lambda>drift. returnS (case drift of Some v \<Rightarrow> Some v | None \<Rightarrow> progress))) h"
      "h = g\<lparr>sg_stall := (if idle c g then Suc (sg_stall g) else 0)\<rparr>"
      "idle c g \<Longrightarrow> Suc (sg_stall g) < gl_stall (sg_limits g)"
proof (cases "idle c g \<and> gl_stall (sg_limits g) \<le> Suc (sg_stall g)")
  case True
  then have "evaluate pr c g = (ok (Some \<lparr>sv_reason = ''stall'', sv_action = ''replan_then_terminate''\<rparr>),
      g\<lparr>sg_stall := Suc (sg_stall g)\<rparr>)"
    by (simp add: evaluate_def evaluate_stall_def idle_def Let_def)
  then show ?thesis using True that(1) by blast
next
  case False
  have "evaluate_stall c (novel_evidence c g) g = (None, g\<lparr>sg_stall := (if idle c g then Suc (sg_stall g) else 0)\<rparr>)"
    using False by (auto simp: evaluate_stall_def idle_def Let_def)
  then have "evaluate pr c g = bindS (record_progress pr c (novel_evidence c g)) (\<lambda>progress.
        bindS (evaluate_drift c) (\<lambda>drift. returnS (case drift of Some v \<Rightarrow> Some v | None \<Rightarrow> progress)))
      (g\<lparr>sg_stall := (if idle c g then Suc (sg_stall g) else 0)\<rparr>)"
    by (simp add: evaluate_def Let_def)
  then show ?thesis using False by (intro that(2) [OF _ refl]) auto
qed

lemma evaluate_keeps:
  assumes "evaluate pr c g = (r, g')"
  shows "stable g g'" "sg_stall g' = (if idle c g then Suc (sg_stall g) else 0)"
    "sg_phase g = ''converge'' \<Longrightarrow> \<not> (sc_tool c \<in> set WRITE_TOOLS \<and> sc_affected c) \<Longrightarrow> sg_phase g' = ''converge''"
    "(\<exists>v. r = ok (Some v) \<and> sv_reason v = ''stall'') \<longleftrightarrow> idle c g \<and> gl_stall (sg_limits g) \<le> Suc (sg_stall g)"
proof -
  have "stable g g' \<and> sg_stall g' = (if idle c g then Suc (sg_stall g) else 0) \<and>
      (sg_phase g = ''converge'' \<longrightarrow> \<not> (sc_tool c \<in> set WRITE_TOOLS \<and> sc_affected c) \<longrightarrow> sg_phase g' = ''converge'') \<and>
      ((\<exists>v. r = ok (Some v) \<and> sv_reason v = ''stall'') \<longleftrightarrow> idle c g \<and> gl_stall (sg_limits g) \<le> Suc (sg_stall g))"
  proof (cases rule: evaluate_cases [where c = c and g = g and pr = pr, case_names stalled moving])
    case stalled
    then show ?thesis using assms by (auto simp: stable_def)
  next
    case (moving h)
    have h: "stable g h" "sg_stall h = (if idle c g then Suc (sg_stall g) else 0)" "sg_phase h = sg_phase g"
      by (simp_all add: moving(2) stable_def)
    have quiet: "\<not> (idle c g \<and> gl_stall (sg_limits g) \<le> Suc (sg_stall g))"
      using moving(3) by auto
    obtain p k where p: "record_progress pr c (novel_evidence c g) h = (p, k)" by fastforce
    note keeps = record_progress_keeps [OF p]
    show ?thesis
    proof (cases p)
      case (Inl e)
      then have "r = Inl e \<and> g' = k" using assms moving(1) p by (simp add: bindS_def)
      then show ?thesis using h keeps(1-3) quiet by (auto intro: stable_trans)
    next
      case (Inr progress)
      obtain q l where q: "evaluate_drift c k = (q, l)" by fastforce
      note drift = evaluate_drift_keeps [OF q]
      have "g' = l" "r = ok (Some v) \<Longrightarrow> q = ok (Some v) \<or> p = ok (Some v)" for v
        using assms moving(1) p q Inr
        by (auto simp: bindS_def returnS_def split: sum.splits option.splits)
      then have "\<not> (\<exists>v. r = ok (Some v) \<and> sv_reason v = ''stall'')" "stable g l" "sg_stall l = sg_stall h"
        using keeps(4) drift(4) h(1) keeps(1,2) drift(1,2)
        by (fastforce, blast intro: stable_trans, simp)
      then show ?thesis
        using \<open>g' = l\<close> h(2,3) keeps(3) drift(3) quiet by auto
    qed
  qed
  then show "stable g g'" "sg_stall g' = (if idle c g then Suc (sg_stall g) else 0)"
    "sg_phase g = ''converge'' \<Longrightarrow> \<not> (sc_tool c \<in> set WRITE_TOOLS \<and> sc_affected c) \<Longrightarrow> sg_phase g' = ''converge''"
    "(\<exists>v. r = ok (Some v) \<and> sv_reason v = ''stall'') \<longleftrightarrow> idle c g \<and> gl_stall (sg_limits g) \<le> Suc (sg_stall g)"
    by blast+
qed

text \<open>The steps of a run as the loop reports them: which were idle, and what the guard said.\<close>

fun idle_steps :: "printing \<Rightarrow> step_context list \<Rightarrow> step_guard \<Rightarrow> bool list" where
  "idle_steps pr [] g = []"
| "idle_steps pr (c # cs) g = idle c g # idle_steps pr cs (snd (evaluate pr c g))"

fun evaluations :: "printing \<Rightarrow> step_context list \<Rightarrow> step_guard \<Rightarrow> step_verdict option res list" where
  "evaluations pr [] g = []"
| "evaluations pr (c # cs) g = fst (evaluate pr c g) # evaluations pr cs (snd (evaluate pr c g))"

definition says_stall :: "step_verdict option res \<Rightarrow> bool" where
  "says_stall r \<longleftrightarrow> (case r of Inr (Some v) \<Rightarrow> sv_reason v = ''stall'' | _ \<Rightarrow> False)"

lemma says_stall_iff: "says_stall r \<longleftrightarrow> (\<exists>v. r = ok (Some v) \<and> sv_reason v = ''stall'')"
  by (auto simp: says_stall_def split: sum.splits option.splits)

lemma length_steps [simp]:
  "length (idle_steps pr cs g) = length cs" "length (evaluations pr cs g) = length cs"
  by (induction cs arbitrary: g) auto

lemma stall_after:
  assumes "i < length cs" "0 < gl_stall (sg_limits g)"
  shows "says_stall (evaluations pr cs g ! i) \<longleftrightarrow>
     (\<forall>j. j \<le> i \<longrightarrow> i < j + gl_stall (sg_limits g) \<longrightarrow> idle_steps pr cs g ! j) \<and>
     gl_stall (sg_limits g) \<le> Suc i + (if \<forall>j \<le> i. idle_steps pr cs g ! j then sg_stall g else 0)"
  using assms
proof (induction cs arbitrary: g i)
  case Nil
  then show ?case by simp
next
  case (Cons c cs)
  obtain r g' where e: "evaluate pr c g = (r, g')" by fastforce
  note keeps = evaluate_keeps [OF e]
  have lim: "sg_limits g' = sg_limits g" using keeps(1) by (simp add: stable_def)
  show ?case
  proof (cases i)
    case 0
    then show ?thesis using keeps(4) Cons.prems by (auto simp: e says_stall_iff)
  next
    case (Suc k)
    have all: "(\<forall>j \<le> Suc k. idle_steps pr (c # cs) g ! j) \<longleftrightarrow> idle c g \<and> (\<forall>j \<le> k. idle_steps pr cs g' ! j)"
      by (auto simp: e nth_Cons split: nat.splits)
    have window: "(\<forall>j. j \<le> Suc k \<longrightarrow> Suc k < j + n \<longrightarrow> idle_steps pr (c # cs) g ! j) \<longleftrightarrow>
        (Suc k < n \<longrightarrow> idle c g) \<and> (\<forall>j. j \<le> k \<longrightarrow> k < j + n \<longrightarrow> idle_steps pr cs g' ! j)" for n
      by (auto simp: e nth_Cons split: nat.splits)
    have "says_stall (evaluations pr (c # cs) g ! i) \<longleftrightarrow> says_stall (evaluations pr cs g' ! k)"
      by (simp add: Suc e)
    also have "\<dots> \<longleftrightarrow> (\<forall>j. j \<le> k \<longrightarrow> k < j + gl_stall (sg_limits g) \<longrightarrow> idle_steps pr cs g' ! j) \<and>
        gl_stall (sg_limits g) \<le> Suc k + (if \<forall>j \<le> k. idle_steps pr cs g' ! j then sg_stall g' else 0)"
      using Cons.IH [of k g'] Cons.prems Suc lim by simp
    finally show ?thesis
      unfolding Suc all window keeps(2) by (auto split: if_splits)
  qed
qed

text \<open>Over the reported steps of a run, started with a fresh guard, the guard says \<open>stall\<close> at a step
  exactly when that step and the steps before it, as many as the limit says, were all idle: none changed a
  file and none brought a key of evidence that was not known before.\<close>

theorem stall_detected_exactly:
  assumes "i < length cs" "0 < gl_stall l"
  shows "says_stall (evaluations pr cs (reset_guard task suspects loc (new_guard l)) ! i) \<longleftrightarrow>
     gl_stall l \<le> Suc i \<and>
     (\<forall>j \<le> i. i < j + gl_stall l \<longrightarrow> idle_steps pr cs (reset_guard task suspects loc (new_guard l)) ! j)"
proof -
  have "sg_limits (reset_guard task suspects loc (new_guard l)) = l"
    "sg_stall (reset_guard task suspects loc (new_guard l)) = 0"
    by (simp_all add: reset_guard_def new_guard_def)
  then show ?thesis
    using stall_after [OF assms(1), of "reset_guard task suspects loc (new_guard l)" pr] assms(2)
    by (auto split: if_splits)
qed

subsection \<open>Reads of the converging phase are bounded\<close>

text \<open>What happens to the guard between two resets, apart from a requested reread.\<close>

datatype guard_event = Asked string jdict "jdict option" | Reported step_context

definition let_through :: "string \<Rightarrow> step_verdict option res \<Rightarrow> bool" where
  "let_through tool r \<longleftrightarrow> tool \<in> set READ_TOOLS \<and>
     r \<in> {ok None, ok (Some (silent ''allow_localization_read'')), ok (Some (silent ''allow_targeted_read''))}"

fun reads_let_through :: "printing \<Rightarrow> guard_event list \<Rightarrow> step_guard \<Rightarrow> nat" where
  "reads_let_through pr [] g = 0"
| "reads_let_through pr (Asked tool args reservation # es) g =
     (let (r, h) = preflight pr tool args reservation g
      in (if let_through tool r then 1 else 0) + reads_let_through pr es h)"
| "reads_let_through pr (Reported c # es) g = reads_let_through pr es (snd (evaluate pr c g))"

fun no_write :: "guard_event \<Rightarrow> bool" where
  "no_write (Reported c) = (\<not> (sc_tool c \<in> set WRITE_TOOLS \<and> sc_affected c))"
| "no_write _ = True"

definition reads_left :: "step_guard \<Rightarrow> nat" where
  "reads_left g = (if sg_local g then 3 - sg_novel g else 0) + (if sg_targeted g then 0 else 1)"

lemma let_through_silent [simp]:
  "let_through tool (ok None) \<longleftrightarrow> tool \<in> set READ_TOOLS"
  "\<not> let_through tool (Inl e)"
  "let_through tool (ok (Some (silent a))) \<longleftrightarrow>
     tool \<in> set READ_TOOLS \<and> a \<in> {''allow_localization_read'', ''allow_targeted_read''}"
  by (auto simp: let_through_def silent_def)

lemma preflight_spends:
  assumes "preflight pr tool args reservation g = (r, h)" "sg_phase g = ''converge''"
  shows "sg_phase h = ''converge''" "reads_left h + (if let_through tool r then 1 else 0) \<le> reads_left g"
proof -
  have "sg_phase h = ''converge'' \<and> reads_left h + (if let_through tool r then 1 else 0) \<le> reads_left g"
  proof (cases "tool \<notin> set READ_TOOLS \<or> post_lock_read pr tool args reservation")
    case True
    then show ?thesis using assms by (auto simp: preflight_def split: if_splits)
  next
    case False
    then have tool: "tool \<in> set READ_TOOLS" "\<not> post_lock_read pr tool args reservation" by auto
    show ?thesis
    proof (cases "is_duplicate_read pr tool args g = ok False")
      case True
      then have run: "(r, h) = (if sg_local g \<and> sg_novel g < 3
           then (ok (Some (silent ''allow_localization_read'')), g\<lparr>sg_novel := sg_novel g + 1\<rparr>)
           else if \<not> sg_targeted g
           then (ok (Some (silent ''allow_targeted_read'')), g\<lparr>sg_targeted := True\<rparr>)
           else (ok (Some (silent ''block_convergence_read'')), g))"
        using assms tool by (simp add: preflight_def)
      consider "sg_local g \<and> sg_novel g < 3" | "\<not> (sg_local g \<and> sg_novel g < 3)" "\<not> sg_targeted g"
        | "\<not> (sg_local g \<and> sg_novel g < 3)" "sg_targeted g" by blast
      then show ?thesis
        using run assms(2) by cases (simp_all add: reads_left_def, auto)
    next
      case False
      then have "(\<exists>e. (r, h) = (Inl e, g)) \<or>
          r = ok (Some (silent ''block_duplicate_read'')) \<and> h \<in> {g, g\<lparr>sg_closed := True\<rparr>}"
        using assms tool
        by (auto simp: preflight_def enter_convergence_def split: sum.splits bool.splits if_splits)
      then show ?thesis using assms(2) by (auto simp: reads_left_def)
    qed
  qed
  then show "sg_phase h = ''converge''" "reads_left h + (if let_through tool r then 1 else 0) \<le> reads_left g"
    by blast+
qed

text \<open>Once the guard is converging, and until a write takes effect or a reread is requested, it lets at
  most \<open>reads_left\<close> further reads through (three of localization and one targeted read at the most),
  whatever is asked and reported in the meantime; only reads reserved after a lock are not counted.\<close>

theorem converging_reads_bounded:
  assumes "sg_phase g = ''converge''" "list_all no_write es"
  shows "reads_let_through pr es g \<le> reads_left g \<and> reads_left g \<le> 4"
proof
  show "reads_let_through pr es g \<le> reads_left g"
    using assms
  proof (induction es arbitrary: g)
    case Nil
    then show ?case by simp
  next
    case (Cons e es)
    show ?case
    proof (cases e)
      case (Asked tool args reservation)
      obtain r h where p: "preflight pr tool args reservation g = (r, h)" by fastforce
      show ?thesis
        using preflight_spends [OF p Cons.prems(1)] Cons.IH [of h] Cons.prems(2)
        by (auto simp: Asked p)
    next
      case (Reported c)
      obtain r h where p: "evaluate pr c g = (r, h)" by fastforce
      show ?thesis
        using evaluate_keeps(1,3) [OF p] Cons.IH [of h] Cons.prems
        by (auto simp: Reported p stable_def reads_left_def)
    qed
  qed
  show "reads_left g \<le> 4"
    by (auto simp: reads_left_def)
qed

subsection \<open>Witnesses\<close>

definition plain_printing :: printing where
  "plain_printing = \<lparr>pr_dumps = (\<lambda>d. concat (map fst d)), pr_str = (\<lambda>v. ''v'')\<rparr>"

definition look :: "string \<Rightarrow> step_context" where
  "look k = \<lparr>sc_tool = ''grep'', sc_args = [], sc_affected = False, sc_key = k\<rparr>"

lemma stall_detected_exactly_witness:
  "says_stall (evaluations plain_printing [look ''a'', look ''a'', look ''a'', look ''a'']
     (reset_guard ''fix a.py'' None False (new_guard default_limits)) ! 3) \<and>
   \<not> says_stall (evaluations plain_printing [look ''a'', look ''a'', look ''a'', look ''a'']
     (reset_guard ''fix a.py'' None False (new_guard default_limits)) ! 2)"
proof -
  let ?cs = "[look ''a'', look ''a'', look ''a'', look ''a'']"
  let ?g = "reset_guard ''fix a.py'' None False (new_guard default_limits)"
  have idle: "idle_steps plain_printing ?cs ?g = [False, True, True, True]"
    by code_simp
  have limit: "gl_stall default_limits = 3" by (simp add: default_limits_def)
  have steps: "(\<forall>j \<le> 3. 3 < j + 3 \<longrightarrow> idle_steps plain_printing ?cs ?g ! j)"
      "\<not> (\<forall>j \<le> 2. 2 < j + 3 \<longrightarrow> idle_steps plain_printing ?cs ?g ! j)"
  proof -
    have "j \<le> 3 \<Longrightarrow> 3 < j + 3 \<Longrightarrow> j = 1 \<or> j = 2 \<or> j = 3" for j :: nat by presburger
    then show "\<forall>j \<le> 3. 3 < j + 3 \<longrightarrow> idle_steps plain_printing ?cs ?g ! j"
      unfolding idle by fastforce
    show "\<not> (\<forall>j \<le> 2. 2 < j + 3 \<longrightarrow> idle_steps plain_printing ?cs ?g ! j)"
      unfolding idle by (auto intro!: exI [of _ 0])
  qed
  show ?thesis
    using stall_detected_exactly [of 3 ?cs default_limits plain_printing "''fix a.py''" None False]
      stall_detected_exactly [of 2 ?cs default_limits plain_printing "''fix a.py''" None False]
    unfolding limit using steps by simp
qed

lemma converging_reads_bounded_witness:
  "reads_let_through plain_printing
     [Asked ''grep'' [] None, Reported (look ''a''), Asked ''grep'' [] None, Asked ''list_files'' [] None]
     ((new_guard default_limits)\<lparr>sg_phase := ''converge''\<rparr>) \<le> 1"
  using converging_reads_bounded [of "(new_guard default_limits)\<lparr>sg_phase := ''converge''\<rparr>"
      "[Asked ''grep'' [] None, Reported (look ''a''), Asked ''grep'' [] None, Asked ''list_files'' [] None]"
      plain_printing]
  by (simp add: reads_left_def new_guard_def look_def WRITE_TOOLS_def)

end
