(* ===== verification/ModelDispatch.thy ===== *)
theory ModelDispatch
  imports Prelude
begin

text \<open>
  What stands between a run and the model provider: the circuit breaker
  (\<open>providers/circuit_breaker.py\<close>), the retry decisions (\<open>providers/retry_policy.py\<close>) and cooperative
  cancellation (\<open>cancellation.py\<close>).  Clock readings, the jitter drawn and the outcome of the wrapped
  function are arguments; the listeners are the list of events they are told.
\<close>

subsection \<open>The circuit breaker\<close>

datatype breaker_state = BrClosed | BrOpen | BrHalfOpen

datatype breaker_event = ProbeStarted | CircuitOpened string int | CircuitClosed int

record breaker =
  br_threshold :: int
  br_timeout :: real
  br_probes :: int
  br_state :: breaker_state
  br_failures :: int
  br_last_failure :: real
  br_opened :: real
  br_successes :: int
  br_told :: "breaker_event list"

definition new_breaker :: "int \<Rightarrow> real \<Rightarrow> int \<Rightarrow> breaker" where
  "new_breaker threshold timeout probes =
     \<lparr>br_threshold = threshold, br_timeout = timeout, br_probes = max 1 probes, br_state = BrClosed,
      br_failures = 0, br_last_failure = 0, br_opened = 0, br_successes = 0, br_told = []\<rparr>"

definition notify :: "breaker_event \<Rightarrow> breaker \<Rightarrow> breaker" where
  "notify ev b = b\<lparr>br_told := br_told b @ [ev]\<rparr>"

definition enter_half_open :: "breaker \<Rightarrow> breaker" where
  "enter_half_open b = notify ProbeStarted (b\<lparr>br_state := BrHalfOpen, br_successes := 0\<rparr>)"

definition open_circuit :: "real \<Rightarrow> string \<Rightarrow> breaker \<Rightarrow> breaker" where
  "open_circuit now reason b =
     notify (CircuitOpened reason (br_failures b)) (b\<lparr>br_state := BrOpen, br_opened := now\<rparr>)"

definition on_success :: "breaker \<Rightarrow> breaker" where
  "on_success b =
    (let b = (if br_state b = BrHalfOpen
              then (let b = b\<lparr>br_successes := br_successes b + 1\<rparr> in
                    if br_successes b \<ge> br_probes b
                    then notify (CircuitClosed (br_probes b)) (b\<lparr>br_state := BrClosed, br_successes := 0\<rparr>)
                    else b)
              else b)
     in b\<lparr>br_failures := 0\<rparr>)"

definition on_failure :: "real \<Rightarrow> breaker \<Rightarrow> breaker" where
  "on_failure now b =
     (if br_state b = BrHalfOpen
      then open_circuit now ''half_open_probe_failed'' (b\<lparr>br_successes := 0\<rparr>)
      else (let b = b\<lparr>br_failures := br_failures b + 1, br_last_failure := now\<rparr> in
            if br_failures b \<ge> br_threshold b then open_circuit now ''consecutive_failures'' b else b))"

text \<open>The wrapped function returns, raises, or gives up on rate limits (which is no failure of the
  service; an interrupt that is no \<open>Exception\<close> leaves the breaker alone in the same way).\<close>

datatype 'a outcome = Returns 'a | Fails exn | RateLimited exn

definition refuses :: "real \<Rightarrow> breaker \<Rightarrow> bool" where
  "refuses now b \<longleftrightarrow> br_state b = BrOpen \<and> now - br_opened b < br_timeout b"

definition breaker_call :: "real \<Rightarrow> real \<Rightarrow> 'a outcome \<Rightarrow> (breaker, 'a) proc" where
  "breaker_call now now' outcome b =
     (if refuses now b then (raise CircuitOpen, b)
      else (let b = (if br_state b = BrOpen then enter_half_open b else b) in
        case outcome of
          Returns v \<Rightarrow> (ok v, on_success b)
        | RateLimited e \<Rightarrow> (raise e, b)
        | Fails e \<Rightarrow> (raise e, on_failure now' b)))"

text \<open>A history of calls: when each was made, when it ended, and how.\<close>

type_synonym 'a call = "real \<times> real \<times> 'a outcome"

fun breaker_step :: "'a call \<Rightarrow> breaker \<Rightarrow> breaker" where
  "breaker_step (now, now', outcome) b = snd (breaker_call now now' outcome b)"

fun call_results :: "'a call list \<Rightarrow> breaker \<Rightarrow> 'a res list" where
  "call_results [] b = []"
| "call_results ((now, now', outcome) # cs) b =
     fst (breaker_call now now' outcome b) # call_results cs (breaker_step (now, now', outcome) b)"

text \<open>The failures in a row at the end of a history; rate limits neither count nor interrupt.\<close>

fun failure_run :: "nat \<Rightarrow> 'a call list \<Rightarrow> nat" where
  "failure_run n [] = n"
| "failure_run n ((_, _, Returns v) # cs) = failure_run 0 cs"
| "failure_run n ((_, _, Fails e) # cs) = failure_run (Suc n) cs"
| "failure_run n ((_, _, RateLimited e) # cs) = failure_run n cs"

lemma closed_step:
  assumes "br_state b = BrClosed" "0 \<le> br_failures b"
  shows "int (failure_run (nat (br_failures b)) [c]) = br_failures (breaker_step c b)"
    "br_threshold (breaker_step c b) = br_threshold b"
    "br_failures b < br_threshold b \<Longrightarrow>
       br_state (breaker_step c b) = BrClosed \<longleftrightarrow> br_failures (breaker_step c b) < br_threshold b"
    "br_state (breaker_step c b) \<in> {BrClosed, BrOpen}"
  using assms
  by (cases c; cases "snd (snd c)"; auto simp: breaker_call_def refuses_def on_success_def on_failure_def
      open_circuit_def notify_def Let_def)+

lemma failure_run_append: "failure_run n (cs @ ds) = failure_run (failure_run n cs) ds"
  by (induction n cs rule: failure_run.induct) auto

text \<open>A fresh circuit breaker opens exactly when the threshold of failures in a row is reached: along a
  history of calls it stays closed as long as no prefix ends with that many failures without a success
  between them, whatever rate limits occur in between.\<close>

theorem breaker_trips_exactly:
  assumes "0 < threshold"
  shows "(\<forall>k \<le> length cs. br_state (fold breaker_step (take k cs) (new_breaker threshold timeout probes)) = BrClosed)
     \<longleftrightarrow> (\<forall>k \<le> length cs. int (failure_run 0 (take k cs)) < threshold)"
proof -
  let ?b = "\<lambda>k. fold breaker_step (take k cs) (new_breaker threshold timeout probes)"
  have sync: "k \<le> length cs \<Longrightarrow> (\<forall>j < k. br_state (?b j) = BrClosed) \<Longrightarrow>
      br_failures (?b k) = int (failure_run 0 (take k cs)) \<and> br_threshold (?b k) = threshold \<and>
      (br_state (?b k) = BrClosed \<longleftrightarrow> int (failure_run 0 (take k cs)) < threshold)" for k
  proof (induction k)
    case 0
    then show ?case using assms by (simp add: new_breaker_def)
  next
    case (Suc k)
    then have IH: "br_failures (?b k) = int (failure_run 0 (take k cs))" "br_threshold (?b k) = threshold"
        "int (failure_run 0 (take k cs)) < threshold" and closed: "br_state (?b k) = BrClosed"
      by auto
    have step: "?b (Suc k) = breaker_step (cs ! k) (?b k)" "take (Suc k) cs = take k cs @ [cs ! k]"
      using Suc.prems(1) by (simp_all add: take_Suc_conv_app_nth)
    show ?case
      using closed_step [OF closed, of "cs ! k"] IH unfolding step by (simp add: failure_run_append)
  qed
  have "(\<forall>k \<le> n. br_state (?b k) = BrClosed) \<longleftrightarrow> (\<forall>k \<le> n. int (failure_run 0 (take k cs)) < threshold)"
    if "n \<le> length cs" for n
    using that
  proof (induction n)
    case 0
    then show ?case using sync [of 0] by simp
  next
    case (Suc n)
    then show ?case using sync [of "Suc n"] by (auto simp: le_Suc_eq less_Suc_eq_le)
  qed
  then show ?thesis by simp
qed

lemma refused_step: "refuses now b \<Longrightarrow> breaker_call now now' outcome b = (raise CircuitOpen, b)"
  by (simp add: breaker_call_def)

text \<open>The open breaker shields the service: when a dispatched call leaves it open, every call made less than
  the recovery time after that is refused without being dispatched, and none of them changes the
  breaker.\<close>

theorem open_breaker_shields:
  assumes "breaker_call now now' outcome b = (r, b')" "\<not> refuses now b" "br_state b' = BrOpen"
    and "\<forall>(t, _, _) \<in> set cs. t - now' < br_timeout b"
  shows "call_results cs b' = replicate (length cs) (raise CircuitOpen) \<and> fold breaker_step cs b' = b'"
proof -
  have "br_opened b' = now' \<and> br_timeout b' = br_timeout b"
    using assms(1-3)
    by (auto simp: breaker_call_def on_success_def on_failure_def open_circuit_def enter_half_open_def
        notify_def Let_def split: outcome.splits if_splits)
  then have "\<forall>(t, _, _) \<in> set cs. refuses t b'"
    using assms(3,4) by (auto simp: refuses_def)
  then show ?thesis
    by (induction cs) (auto simp: refused_step)
qed

lemma probing_closes:
  assumes "br_state b = BrHalfOpen" "0 \<le> br_successes b" "br_successes b < br_probes b"
    and "int (length cs) = br_probes b - br_successes b" "\<forall>(_, _, o') \<in> set cs. \<exists>v. o' = Returns v"
  shows "br_state (fold breaker_step cs b) = BrClosed \<and> br_failures (fold breaker_step cs b) = 0"
  using assms
proof (induction cs arbitrary: b)
  case (Cons c cs)
  obtain t t' v where c: "c = (t, t', Returns v)" using Cons.prems(5) by (cases c) auto
  have step: "breaker_step c b = on_success b"
    using Cons.prems(1) by (simp add: c breaker_call_def refuses_def)
  show ?case
  proof (cases "br_successes b + 1 \<ge> br_probes b")
    case True
    moreover have "int (length cs) + 1 = br_probes b - br_successes b" using Cons.prems(4) by simp
    ultimately have "length cs = 0" using Cons.prems(3) by linarith
    then have "cs = []" by simp
    then show ?thesis using Cons.prems(1) True
      by (simp add: step on_success_def notify_def Let_def)
  next
    case False
    have next_b: "on_success b = b\<lparr>br_successes := br_successes b + 1, br_failures := 0\<rparr>"
      using Cons.prems(1) False by (simp add: on_success_def Let_def)
    show ?thesis
      using Cons.IH [of "on_success b"] Cons.prems False by (simp add: step next_b)
  qed
qed simp

text \<open>The breaker recovers: once the recovery time is over, as many successful calls in a row as probes are
  asked for close the circuit and clear its failure count.\<close>

theorem breaker_recovers:
  assumes "br_state b = BrOpen" "1 \<le> br_probes b" "int (length cs) = br_probes b"
    and "\<forall>(t, _, o') \<in> set cs. br_timeout b \<le> t - br_opened b \<and> (\<exists>v. o' = Returns v)"
  shows "br_state (fold breaker_step cs b) = BrClosed \<and> br_failures (fold breaker_step cs b) = 0"
proof -
  obtain c cs' where cs: "cs = c # cs'" using assms(2,3) by (cases cs) auto
  obtain t t' v where c: "c = (t, t', Returns v)" using assms(4) cs by (cases c) auto
  let ?p = "enter_half_open b"
  have p: "br_state ?p = BrHalfOpen" "br_successes ?p = 0" "br_probes ?p = br_probes b"
    by (simp_all add: enter_half_open_def notify_def)
  have "breaker_step c b = on_success ?p"
    using assms(1,4) by (auto simp: cs c breaker_call_def refuses_def)
  also have "\<dots> = breaker_step c ?p"
    using p by (simp add: c breaker_call_def refuses_def)
  finally have "fold breaker_step cs b = fold breaker_step cs ?p" by (simp add: cs)
  moreover have "\<forall>(_, _, o') \<in> set cs. \<exists>v. o' = Returns v" using assms(4) by fastforce
  ultimately show ?thesis
    using probing_closes [of ?p cs] p assms(2,3) by simp
qed

definition tripped :: breaker where
  "tripped = (new_breaker 2 30 2)\<lparr>br_state := BrOpen, br_failures := 2, br_opened := 10\<rparr>"

definition flaky :: "unit call list" where
  "flaky = [(1, 1, Fails StopIter), (2, 2, RateLimited StopIter), (3, 3, Fails StopIter)]"

lemma breaker_trips_exactly_witness:
  "\<exists>k \<le> length flaky. br_state (fold breaker_step (take k flaky) (new_breaker 2 30 2)) \<noteq> BrClosed"
proof -
  have "length flaky = 3" "int (failure_run 0 (take 3 flaky)) = 2" by (simp_all add: flaky_def)
  then have "\<not> (\<forall>k \<le> length flaky. int (failure_run 0 (take k flaky)) < 2)" by (metis order_refl order_less_irrefl)
  then show ?thesis
    using breaker_trips_exactly [of 2 flaky 30 2, OF zero_less_numeral] by blast
qed

lemma open_breaker_shields_witness:
  "call_results [(12, 12, Returns ()), (20, 21, Returns ())] tripped = [raise CircuitOpen, raise CircuitOpen]"
proof -
  let ?b = "tripped\<lparr>br_state := BrClosed, br_failures := 1, br_told := []\<rparr>"
  have step: "breaker_call 9 10 (Fails StopIter :: unit outcome) ?b =
      (raise StopIter, open_circuit 10 ''consecutive_failures'' (?b\<lparr>br_failures := 2, br_last_failure := 10\<rparr>))"
    by (simp add: breaker_call_def refuses_def on_failure_def tripped_def new_breaker_def Let_def)
  have "call_results [(12, 12, Returns ()), (20, 21, Returns ())]
      (open_circuit 10 ''consecutive_failures'' (?b\<lparr>br_failures := 2, br_last_failure := 10\<rparr>)) =
      [raise CircuitOpen, raise CircuitOpen]"
    using open_breaker_shields [OF step, of "[(12, 12, Returns ()), (20, 21, Returns ())]"]
    by (simp add: refuses_def open_circuit_def notify_def tripped_def new_breaker_def numeral_2_eq_2)
  then show ?thesis
    by (simp add: breaker_call_def refuses_def open_circuit_def notify_def tripped_def new_breaker_def)
qed

lemma breaker_recovers_witness:
  "br_state (fold breaker_step [(40, 41, Returns ()), (42, 43, Returns ())] tripped) = BrClosed"
  using breaker_recovers [of tripped "[(40, 41, Returns ()), (42, 43, Returns ())]"]
  by (simp add: tripped_def new_breaker_def)

subsection \<open>Retries\<close>

record retry_policy =
  rp_attempts :: int
  rp_base :: real
  rp_cap :: real
  rp_idempotent :: bool

definition should_retry :: "int \<Rightarrow> bool \<Rightarrow> real option \<Rightarrow> retry_policy \<Rightarrow> bool" where
  "should_retry attempt retryable deadline p =
     (if \<not> rp_idempotent p \<or> \<not> retryable \<or> attempt \<ge> max 1 (rp_attempts p) then False
      else case deadline of None \<Rightarrow> True | Some d \<Rightarrow> d > 0)"

text \<open>\<open>u\<close> in the unit interval is the random draw: \<open>uniform(0, x)\<close> is \<open>u * x\<close>.\<close>

definition apply_equal_jitter :: "real \<Rightarrow> real \<Rightarrow> real" where
  "apply_equal_jitter u delay = (if delay \<le> 0 then 0 else (let half = delay / 2 in half + u * half))"

definition apply_full_jitter :: "real \<Rightarrow> real \<Rightarrow> real" where
  "apply_full_jitter u cap = (if cap \<le> 0 then 0 else u * cap)"

definition backoff_delay :: "real \<Rightarrow> int \<Rightarrow> real option \<Rightarrow> retry_policy \<Rightarrow> real" where
  "backoff_delay u attempt retry_after p =
     (case retry_after of
        Some d \<Rightarrow> max 0 d
      | None \<Rightarrow> apply_equal_jitter u (min (rp_cap p) (rp_base p * 2 ^ nat (max 0 (attempt - 1)))))"

definition compute_rate_limit_delay :: "real \<Rightarrow> nat \<Rightarrow> real option \<Rightarrow> real \<Rightarrow> real \<Rightarrow> real" where
  "compute_rate_limit_delay u attempt retry_after base cap =
     (case retry_after of
        Some d \<Rightarrow> max 0 d
      | None \<Rightarrow> apply_equal_jitter u (min cap (base * 2 ^ attempt)))"

definition compute_server_error_delay :: "real \<Rightarrow> nat \<Rightarrow> real \<Rightarrow> real \<Rightarrow> real" where
  "compute_server_error_delay u attempt base cap = apply_full_jitter u (min cap (base * 2 ^ attempt))"

lemma jitter_bounds:
  assumes "0 \<le> u" "u \<le> 1" "0 \<le> d"
  shows "d / 2 \<le> apply_equal_jitter u d" "apply_equal_jitter u d \<le> d"
    "0 \<le> apply_full_jitter u d" "apply_full_jitter u d \<le> d"
  using assms mult_left_le_one_le [of "d / 2" u] mult_left_le_one_le [of d u]
  by (auto simp: apply_equal_jitter_def apply_full_jitter_def Let_def)

text \<open>Waiting times are bounded: with a server's Retry-After the wait is never shorter than asked; without one
  it lies between half of the exponential ceiling and the ceiling, which never exceeds the cap; and the
  wait after a server error lies between zero and its ceiling.\<close>

theorem retry_delays_bounded:
  assumes "0 \<le> u" "u \<le> 1" "0 \<le> rp_base p" "0 \<le> rp_cap p"
  shows "(case retry_after of
      Some d \<Rightarrow> d \<le> backoff_delay u attempt retry_after p \<and> 0 \<le> backoff_delay u attempt retry_after p
    | None \<Rightarrow> (let ceiling = min (rp_cap p) (rp_base p * 2 ^ nat (max 0 (attempt - 1)))
        in ceiling / 2 \<le> backoff_delay u attempt retry_after p \<and> backoff_delay u attempt retry_after p \<le> ceiling \<and>
           ceiling \<le> rp_cap p)) \<and>
    0 \<le> compute_server_error_delay u n (rp_base p) (rp_cap p) \<and>
    compute_server_error_delay u n (rp_base p) (rp_cap p) \<le> min (rp_cap p) (rp_base p * 2 ^ n)"
proof -
  have pos: "0 \<le> min (rp_cap p) (rp_base p * 2 ^ k)" for k using assms(3,4) by simp
  have "case retry_after of
      Some d \<Rightarrow> d \<le> backoff_delay u attempt retry_after p \<and> 0 \<le> backoff_delay u attempt retry_after p
    | None \<Rightarrow> (let ceiling = min (rp_cap p) (rp_base p * 2 ^ nat (max 0 (attempt - 1)))
        in ceiling / 2 \<le> backoff_delay u attempt retry_after p \<and> backoff_delay u attempt retry_after p \<le> ceiling \<and>
           ceiling \<le> rp_cap p)"
    using jitter_bounds(1,2) [OF assms(1,2) pos [of "nat (max 0 (attempt - 1))"]]
    by (simp add: backoff_delay_def Let_def split: option.split)
  moreover have "0 \<le> compute_server_error_delay u n (rp_base p) (rp_cap p)"
    "compute_server_error_delay u n (rp_base p) (rp_cap p) \<le> min (rp_cap p) (rp_base p * 2 ^ n)"
    unfolding compute_server_error_delay_def by (rule jitter_bounds(3,4) [OF assms(1,2) pos])+
  ultimately show ?thesis by blast
qed

lemma retry_delays_bounded_witness:
  "backoff_delay (1/2) 3 None \<lparr>rp_attempts = 4, rp_base = 1/2, rp_cap = 120, rp_idempotent = True\<rparr> \<le> 2 \<and>
   compute_server_error_delay (1/2) 1 (1/2) 120 \<le> 1"
  using retry_delays_bounded [where u = "1/2" and retry_after = None and attempt = 3 and n = 1
      and p = "\<lparr>rp_attempts = 4, rp_base = 1/2, rp_cap = 120, rp_idempotent = True\<rparr>"]
  by (simp add: Let_def eval_nat_numeral)

subsection \<open>Cooperative cancellation\<close>

record 'c token =
  tk_cancelled :: bool
  tk_reason :: string
  tk_cause :: "string option"
  tk_callbacks :: "'c list"
  tk_drained :: bool
  tk_log :: "'c list"

text \<open>\<open>tk_log\<close> is no field of the class: it lists the callbacks that were called.\<close>

definition new_token :: "'c token" where
  "new_token = \<lparr>tk_cancelled = False, tk_reason = [], tk_cause = None, tk_callbacks = [], tk_drained = False,
     tk_log = []\<rparr>"

definition mark_cancelled :: "string \<Rightarrow> 'c token \<Rightarrow> 'c token" where
  "mark_cancelled reason t =
    (let why = (if reason = [] then ''user'' else reason)
     in t\<lparr>tk_cancelled := True, tk_reason := why, tk_cause := Some why\<rparr>)"

text \<open>The parts of the methods that run under the lock: they return the callbacks to call.\<close>

definition claim_pending :: "'c token \<Rightarrow> 'c list \<times> 'c token" where
  "claim_pending t =
     (if tk_drained t \<or> \<not> tk_cancelled t then ([], t) else (tk_callbacks t, t\<lparr>tk_drained := True\<rparr>))"

definition claim_cancel :: "string \<Rightarrow> 'c token \<Rightarrow> 'c list \<times> 'c token" where
  "claim_cancel reason t = (tk_callbacks t, (mark_cancelled reason t)\<lparr>tk_drained := True\<rparr>)"

definition claim_add :: "'c \<Rightarrow> 'c token \<Rightarrow> 'c list \<times> 'c token" where
  "claim_add c t =
     (if tk_cancelled t \<and> tk_drained t then [c] else [], t\<lparr>tk_callbacks := tk_callbacks t @ [c]\<rparr>)"

definition unsubscribe :: "'c \<Rightarrow> 'c token \<Rightarrow> 'c token" where
  "unsubscribe c t = t\<lparr>tk_callbacks := remove1 c (tk_callbacks t)\<rparr>"

text \<open>Every callback is called; the first error is raised afterwards.\<close>

fun first_error :: "('c \<Rightarrow> exn option) \<Rightarrow> 'c list \<Rightarrow> unit res" where
  "first_error fails [] = ok ()"
| "first_error fails (c # cs) = (case fails c of Some e \<Rightarrow> raise e | None \<Rightarrow> first_error fails cs)"

definition call_all :: "('c \<Rightarrow> exn option) \<Rightarrow> 'c list \<Rightarrow> ('c token, unit) proc" where
  "call_all fails cs t = (first_error fails cs, t\<lparr>tk_log := tk_log t @ cs\<rparr>)"

definition request_cancel :: "string \<Rightarrow> 'c token \<Rightarrow> 'c token" where
  "request_cancel = mark_cancelled"

definition run_pending_callbacks :: "('c \<Rightarrow> exn option) \<Rightarrow> ('c token, unit) proc" where
  "run_pending_callbacks fails t = (let (cs, t) = claim_pending t in call_all fails cs t)"

definition cancel_token :: "('c \<Rightarrow> exn option) \<Rightarrow> string \<Rightarrow> ('c token, unit) proc" where
  "cancel_token fails reason t = (let (cs, t) = claim_cancel reason t in call_all fails cs t)"

definition add_callback :: "('c \<Rightarrow> exn option) \<Rightarrow> 'c \<Rightarrow> ('c token, unit) proc" where
  "add_callback fails c t =
    (let (cs, t) = claim_add c t in
     case call_all fails cs t of
       (Inl e, t) \<Rightarrow> (Inl e, unsubscribe c t)
     | (Inr u, t) \<Rightarrow> (ok u, t))"

definition check_token :: "'c token \<Rightarrow> unit res" where
  "check_token t =
     (if tk_cancelled t then raise (CancelledError (if tk_reason t = [] then ''user'' else tk_reason t)) else ok ())"

text \<open>Threads interleave at the lock sections: a batch of claimed callbacks is called one by one, later.\<close>

datatype 'c token_event =
    Request string
  | ClaimPending
  | ClaimCancel string
  | Subscribe 'c
  | Unsubscribe 'c
  | CallNext nat

fun enqueue :: "'c list \<times> 'c token \<Rightarrow> 'c list list \<Rightarrow> 'c token \<times> 'c list list" where
  "enqueue (cs, t) bs = (t, bs @ [cs])"

fun step_token :: "'c token_event \<Rightarrow> 'c token \<times> 'c list list \<Rightarrow> 'c token \<times> 'c list list" where
  "step_token (Request why) (t, bs) = (mark_cancelled why t, bs)"
| "step_token ClaimPending (t, bs) = enqueue (claim_pending t) bs"
| "step_token (ClaimCancel why) (t, bs) = enqueue (claim_cancel why t) bs"
| "step_token (Subscribe c) (t, bs) = enqueue (claim_add c t) bs"
| "step_token (Unsubscribe c) (t, bs) = (unsubscribe c t, bs)"
| "step_token (CallNext i) (t, bs) =
     (if i < length bs \<and> bs ! i \<noteq> []
      then (t\<lparr>tk_log := tk_log t @ [hd (bs ! i)]\<rparr>, bs[i := tl (bs ! i)])
      else (t, bs))"

definition token_inv :: "'c token \<times> 'c list list \<Rightarrow> bool" where
  "token_inv tb \<longleftrightarrow> (case tb of (t, bs) \<Rightarrow>
     (tk_drained t \<longrightarrow> tk_cancelled t \<and> set (tk_callbacks t) \<subseteq> set (tk_log t) \<union> set (concat bs)) \<and>
     (tk_log t \<noteq> [] \<or> concat bs \<noteq> [] \<longrightarrow> tk_cancelled t))"

lemma concat_update: "i < length bs \<Longrightarrow> bs ! i = c # cs \<Longrightarrow> set (concat bs) = insert c (set (concat (bs[i := cs])))"
proof (induction bs arbitrary: i)
  case (Cons b bs)
  then show ?case by (cases i) auto
qed simp

lemma step_token_inv: "token_inv tb \<Longrightarrow> token_inv (step_token e tb)"
proof (cases tb)
  fix t bs assume inv: "token_inv tb" and tb: "tb = (t, bs)"
  show ?thesis
  proof (cases e)
    case (CallNext i)
    show ?thesis
    proof (cases "i < length bs \<and> bs ! i \<noteq> []")
      case True
      then obtain c cs where b: "bs ! i = c # cs" by (cases "bs ! i") auto
      have eq: "set (concat bs) = insert c (set (concat (bs[i := cs])))"
        using True b by (intro concat_update) auto
      then have "c \<in> set (concat bs)" by simp
      then have "concat bs \<noteq> []" by (metis empty_iff list.set(1))
      then have "tk_cancelled t" using inv by (simp add: token_inv_def tb)
      then show ?thesis using inv eq True b by (auto simp: token_inv_def tb CallNext)
    next
      case False
      then have "step_token e tb = tb" by (auto simp: tb CallNext)
      then show ?thesis using inv by simp
    qed
  next
    case (Unsubscribe c)
    have "set (remove1 c (tk_callbacks t)) \<subseteq> set (tk_callbacks t)" by (rule set_remove1_subset)
    then show ?thesis using inv by (auto simp: token_inv_def tb Unsubscribe unsubscribe_def)
  next
    case (Request why)
    then show ?thesis using inv by (simp add: token_inv_def tb mark_cancelled_def Let_def)
  next
    case ClaimPending
    then show ?thesis using inv
      by (cases "tk_drained t \<or> \<not> tk_cancelled t") (auto simp: token_inv_def tb claim_pending_def)
  next
    case (ClaimCancel why)
    then show ?thesis by (auto simp: token_inv_def tb claim_cancel_def mark_cancelled_def Let_def)
  next
    case (Subscribe c)
    then show ?thesis using inv
      by (cases "tk_cancelled t \<and> tk_drained t") (auto simp: token_inv_def tb claim_add_def)
  qed
qed

text \<open>No callback is missed: however cancelling, draining, subscribing and unsubscribing threads interleave, no
  callback is called before cancellation is requested, and once the token was drained and the claimed
  batches have been worked off, every callback still subscribed has been called, the late ones included.\<close>

theorem no_callback_missed:
  assumes "fold step_token es (new_token, []) = (t, bs)"
  shows "(tk_log t \<noteq> [] \<longrightarrow> tk_cancelled t) \<and>
    (tk_drained t \<and> concat bs = [] \<longrightarrow> set (tk_callbacks t) \<subseteq> set (tk_log t))"
proof -
  have start: "token_inv (new_token, [])" by (simp add: token_inv_def new_token_def)
  have "token_inv (fold step_token es tb)" if "token_inv tb" for tb
    using that
  proof (induction es arbitrary: tb)
    case (Cons e es)
    show ?case using Cons.IH [OF step_token_inv [OF Cons.prems]] by simp
  qed simp
  from this [OF start] show ?thesis unfolding assms token_inv_def prod.case by (metis empty_iff empty_set subset_iff sup_bot.right_neutral)
qed

lemma no_callback_missed_witness:
  "(let (t, bs) = fold step_token [Subscribe (1::nat), Request ''stop'', ClaimPending, Subscribe 2, CallNext 0,
      CallNext 1, CallNext 2] (new_token, [])
    in tk_drained t \<and> concat bs = [] \<and> {1, 2} \<subseteq> set (tk_log t))"
proof -
  let ?es = "[Subscribe (1::nat), Request ''stop'', ClaimPending, Subscribe 2, CallNext 0, CallNext 1, CallNext 2]"
  obtain t bs where r: "fold step_token ?es (new_token, []) = (t, bs)" by fastforce
  have "tk_drained t \<and> concat bs = [] \<and> set (tk_callbacks t) = {1, 2}"
    using r by (auto simp: new_token_def mark_cancelled_def claim_pending_def claim_add_def Let_def)
  then have "tk_drained t \<and> concat bs = [] \<and> {1, 2} \<subseteq> set (tk_log t)" using no_callback_missed [OF r] by simp
  then show ?thesis unfolding r by simp
qed

subsection \<open>Waiting for a blocking call\<close>

text \<open>A poll of the future finds its result or times out; then the token and the clock are read.\<close>

record 'a poll =
  pl_result :: "'a res option"
  pl_cancelled :: "string option"
  pl_now :: real

definition why_cancelled :: "string \<Rightarrow> exn" where
  "why_cancelled why = CancelledError (if why = [] then ''user'' else why)"

text \<open>\<open>None\<close> while the polls given are used up without an end.\<close>

fun poll_future :: "real option \<Rightarrow> 'a poll list \<Rightarrow> 'a res option" where
  "poll_future deadline [] = None"
| "poll_future deadline (p # ps) =
     (case pl_result p of
        Some r \<Rightarrow> Some r
      | None \<Rightarrow>
         (case pl_cancelled p of
            Some why \<Rightarrow> Some (raise (why_cancelled why))
          | None \<Rightarrow>
             (case deadline of
                Some d \<Rightarrow> if pl_now p \<ge> d then Some (raise (TimeoutErr ''blocking'')) else poll_future deadline ps
              | None \<Rightarrow> poll_future deadline ps)))"

definition wait_future :: "string option \<Rightarrow> real option \<Rightarrow> 'a poll list \<Rightarrow> 'a res option" where
  "wait_future cancelled deadline ps =
     (case cancelled of Some why \<Rightarrow> Some (raise (why_cancelled why)) | None \<Rightarrow> poll_future deadline ps)"

text \<open>\<open>token\<close>: whether there is a token, and why it is cancelled; \<open>direct\<close>: the result of calling
  the function here, \<open>ps\<close> the polls of the thread that calls it.\<close>

definition run_blocking ::
  "string option option \<Rightarrow> real option \<Rightarrow> real \<Rightarrow> 'a res option \<Rightarrow> 'a poll list \<Rightarrow> 'a res option" where
  "run_blocking token timeout now direct ps =
     (case token of
        Some (Some why) \<Rightarrow> Some (raise (why_cancelled why))
      | _ \<Rightarrow>
         (case (case timeout of Some s \<Rightarrow> if s \<le> 0 then None else Some s | None \<Rightarrow> None) of
            None \<Rightarrow> if token = None then direct else wait_future None None ps
          | Some s \<Rightarrow> wait_future None (Some (now + s)) ps))"

text \<open>A blocking call ends when it is told to: a poll that finds a result, a cancelled token or the
  deadline passed ends the wait, with the result of the function, a cancellation or a timeout of
  the first such poll.\<close>

theorem blocking_call_ends:
  assumes "0 < s" "p \<in> set ps" "pl_result p \<noteq> None \<or> pl_cancelled p \<noteq> None \<or> now + s \<le> pl_now p"
  shows "\<exists>q before after. ps = before @ q # after \<and>
    (\<forall>x \<in> set before. pl_result x = None \<and> pl_cancelled x = None \<and> pl_now x < now + s) \<and>
    run_blocking (Some None) (Some s) now direct ps =
      Some (case pl_result q of Some r \<Rightarrow> r
        | None \<Rightarrow> (case pl_cancelled q of Some why \<Rightarrow> raise (why_cancelled why) | None \<Rightarrow> raise (TimeoutErr ''blocking'')))"
proof -
  let ?ends = "\<lambda>x. pl_result x \<noteq> None \<or> pl_cancelled x \<noteq> None \<or> now + s \<le> pl_now x"
  obtain before q "after" where split: "ps = before @ q # after" "?ends q" "\<forall>x \<in> set before. \<not> ?ends x"
    using split_list_first_prop [of ps ?ends] assms(2,3) by blast
  have "poll_future (Some (now + s)) (before @ q # after) =
      Some (case pl_result q of Some r \<Rightarrow> r
        | None \<Rightarrow> (case pl_cancelled q of Some why \<Rightarrow> raise (why_cancelled why) | None \<Rightarrow> raise (TimeoutErr ''blocking'')))"
    using split(2,3) by (induction before) (auto split: option.splits)
  then have "run_blocking (Some None) (Some s) now direct ps =
      Some (case pl_result q of Some r \<Rightarrow> r
        | None \<Rightarrow> (case pl_cancelled q of Some why \<Rightarrow> raise (why_cancelled why) | None \<Rightarrow> raise (TimeoutErr ''blocking'')))"
    using assms(1) by (simp add: run_blocking_def wait_future_def split(1))
  with split show ?thesis by fastforce
qed

lemma blocking_call_ends_witness:
  "\<exists>r. run_blocking (Some None) (Some 5) 0 None
     [\<lparr>pl_result = None, pl_cancelled = None, pl_now = 1\<rparr>, \<lparr>pl_result = None, pl_cancelled = None, pl_now = 6\<rparr>]
     = Some (r :: unit res)"
  using blocking_call_ends [of 5 "\<lparr>pl_result = None, pl_cancelled = None, pl_now = 6\<rparr>"
      "[\<lparr>pl_result = None, pl_cancelled = None, pl_now = 1\<rparr>, \<lparr>pl_result = None, pl_cancelled = None, pl_now = 6\<rparr>]" 0 None]
  by auto

subsection \<open>Draining a workspace scope\<close>

record blocking_scope =
  bs_pending :: nat
  bs_closed :: bool

definition scope_reserve :: "(blocking_scope, unit) proc" where
  "scope_reserve s =
     (if bs_closed s then (raise (CancelledError ''workspace execution scope closed''), s)
      else (ok (), s\<lparr>bs_pending := bs_pending s + 1\<rparr>))"

definition scope_release :: "blocking_scope \<Rightarrow> blocking_scope" where
  "scope_release s = s\<lparr>bs_pending := bs_pending s - 1\<rparr>"

text \<open>Leaving the scope waits while calls are pending; a failed attempt is no step.\<close>

definition scope_leave :: "blocking_scope \<Rightarrow> blocking_scope" where
  "scope_leave s = (if bs_pending s = 0 then s\<lparr>bs_closed := True\<rparr> else s)"

datatype scope_step = Reserve | Release | Leave

fun scope_move :: "scope_step \<Rightarrow> blocking_scope \<Rightarrow> blocking_scope" where
  "scope_move Reserve s = snd (scope_reserve s)"
| "scope_move Release s = scope_release s"
| "scope_move Leave s = scope_leave s"

text \<open>Once the scope of a workspace was left, no call bound to it runs or starts any more.\<close>

theorem left_scope_stays_empty:
  assumes "bs_closed (fold scope_move es \<lparr>bs_pending = 0, bs_closed = False\<rparr>)"
  shows "bs_pending (fold scope_move (es @ es') \<lparr>bs_pending = 0, bs_closed = False\<rparr>) = 0 \<and>
    (\<exists>e. fst (scope_reserve (fold scope_move (es @ es') \<lparr>bs_pending = 0, bs_closed = False\<rparr>)) = raise e)"
proof -
  have inv: "(bs_closed s \<longrightarrow> bs_pending s = 0) \<Longrightarrow>
      (bs_closed (fold scope_move es s) \<longrightarrow> bs_pending (fold scope_move es s) = 0) \<and>
      (bs_closed s \<longrightarrow> bs_closed (fold scope_move es s))" for s es
  proof (induction es arbitrary: s)
    case (Cons e es)
    have "(bs_closed (scope_move e s) \<longrightarrow> bs_pending (scope_move e s) = 0) \<and>
        (bs_closed s \<longrightarrow> bs_closed (scope_move e s))"
      using Cons.prems by (cases e) (auto simp: scope_reserve_def scope_release_def scope_leave_def)
    with Cons.IH [of "scope_move e s"] show ?case by auto
  qed simp
  let ?s = "fold scope_move es \<lparr>bs_pending = 0, bs_closed = False\<rparr>"
  have "bs_pending ?s = 0" using inv [of "\<lparr>bs_pending = 0, bs_closed = False\<rparr>" es] assms by simp
  with inv [of ?s es'] assms show ?thesis by (auto simp: scope_reserve_def)
qed

lemma left_scope_stays_empty_witness:
  "bs_pending (fold scope_move ([Reserve, Leave, Release, Leave] @ [Reserve, Release]) \<lparr>bs_pending = 0, bs_closed = False\<rparr>) = 0"
  using left_scope_stays_empty [of "[Reserve, Leave, Release, Leave]" "[Reserve, Release]"]
  by (simp add: scope_reserve_def scope_release_def scope_leave_def)

end
