(* ===== verification/RepairProgress.thy ===== *)
theory RepairProgress
  imports RepairState HistoryItems PatchEnvelope
begin

text \<open>
  What the repair loop learns from failed attempts: the diagnosis of a verification
  (\<open>src/repair/verification/verify_diagnose.py\<close>), the decisions taken on it (\<open>failure_decision.py\<close>), the
  stop-loss tracker (\<open>src/repair/stop_loss.py\<close>) and the ledger of hypotheses
  (\<open>src/repair/failure_ledger.py\<close>).  Texts are UTF-8 bytes; SHA-256, the node ids found in a log and the
  wording of hints are arguments.
\<close>

subsection \<open>Diagnosis of a verification\<close>

datatype verify_bucket = VbEnv | VbCollect | VbLogic | VbUnknown

fun bucket_value :: "verify_bucket \<Rightarrow> string" where
  "bucket_value VbEnv = ''env''"
| "bucket_value VbCollect = ''collect''"
| "bucket_value VbLogic = ''logic''"
| "bucket_value VbUnknown = ''unknown''"

definition nothing_collected :: string where
  "nothing_collected = [CHR 0xE6, CHR 0x9C, CHR 0xAA, CHR 0xE6, CHR 0x94, CHR 0xB6, CHR 0xE9, CHR 0x9B, CHR 0x86, CHR 0xE5, CHR 0x88, CHR 0xB0, CHR 0xE4, CHR 0xBB, CHR 0xBB, CHR 0xE4, CHR 0xBD, CHR 0x95, CHR 0xE6, CHR 0xB5, CHR 0x8B, CHR 0xE8, CHR 0xAF, CHR 0x95]"

definition ENV_MARKERS :: "string list" where
  "ENV_MARKERS = [''verify_config:'', nothing_collected, ''sandbox pip install failed'',
     ''sandbox upload did not complete'', ''sandbox upload did not finish'', ''mkdir: unrecognized option'',
     ''ModuleNotFoundError'', ''ImportError:'', ''No module named'', ''ImproperlyConfigured'',
     ''DJANGO_SETTINGS_MODULE'', ''django.conf'', ''Settings are not configured'', ''ExecutableNotFound'',
     ''Could not find platform independent libraries'']"

definition COLLECT_MARKERS :: "string list" where
  "COLLECT_MARKERS = [''ERROR collecting'', ''collected 0 items'', ''no tests ran'', ''ImportPathMismatchError'',
     ''during collection'']"

definition LOGIC_MARKERS :: "string list" where
  "LOGIC_MARKERS = [''AssertionError'', ''assert '', '' FAILED'', ''FAILED '', ''E       assert'', ''E   assert'']"

definition joined_logs :: "verification_result \<Rightarrow> string" where
  "joined_logs r = join_with [LF] (vr_failure_logs r @ (if vr_build_log r \<noteq> [] then [vr_build_log r] else []))"

definition without_colons :: "string \<Rightarrow> string" where
  "without_colons s = rev (dropWhile (\<lambda>c. c = CHR '':'') (rev s))"

definition empty_collect :: "verification_result \<Rightarrow> bool" where
  "empty_collect r \<longleftrightarrow> vr_total_tests r = 0 \<and> \<not> vr_all_passed r"

definition diagnose_verification :: "verification_result option \<Rightarrow> verify_bucket \<times> string" where
  "diagnose_verification result =
     (case result of
        None \<Rightarrow> (VbUnknown, ''no_result'')
      | Some r \<Rightarrow>
         if vr_all_passed r then (VbLogic, ''passed'')
         else
          (let text = joined_logs r; lower = casefold text in
           if list_ex (\<lambda>m. contains m text) ENV_MARKERS
              \<or> empty_collect r \<and> (contains ''pip'' lower \<or> contains ''docker'' lower \<or> contains ''sandbox'' lower)
           then (VbEnv, case find (\<lambda>m. contains m text) ENV_MARKERS of
                   Some m \<Rightarrow> without_colons m | None \<Rightarrow> ''env_or_verify_config'')
           else if list_ex (\<lambda>m. contains m text) LOGIC_MARKERS \<or> vr_failed r > 0 then (VbLogic, ''test_assertion'')
           else if empty_collect r \<or> list_ex (\<lambda>m. contains m text) COLLECT_MARKERS
           then (VbCollect, ''collect_error'')
           else (VbUnknown, ''unclassified'')))"

abbreviation bucket_of :: "verification_result option \<Rightarrow> verify_bucket" where
  "bucket_of r \<equiv> fst (diagnose_verification r)"

subsection \<open>The decision on a failed verification\<close>

definition verification_decision :: "verify_bucket \<Rightarrow> bool \<Rightarrow> string list \<Rightarrow> failure_decision" where
  "verification_decision bucket passed nodeids =
     (case bucket of
        VbEnv \<Rightarrow> \<lparr>fd_failure_class = ''verify_environment'', fd_retryable = False,
          fd_next_action = ''repair_verification_environment'',
          fd_model_hint = ''Do not modify business logic until the verification environment is usable.'',
          fd_evidence_refs = take 8 nodeids, fd_retry_limit = 0\<rparr>
      | VbCollect \<Rightarrow> \<lparr>fd_failure_class = ''verify_collection'', fd_retryable = True,
          fd_next_action = ''repair_test_collection_or_entrypoint'',
          fd_model_hint = ''Fix the import, test target, or collection entrypoint before changing logic.'',
          fd_evidence_refs = take 8 nodeids, fd_retry_limit = 1\<rparr>
      | VbLogic \<Rightarrow> \<lparr>fd_failure_class = ''verify_logic'', fd_retryable = \<not> passed,
          fd_next_action = ''read_failed_test_patch_minimal_impl_reverify_same_target'',
          fd_model_hint = ''Read the failing assertion, revise the active hypothesis, and make a minimal patch.'',
          fd_evidence_refs = take 8 nodeids, fd_retry_limit = 2\<rparr>
      | VbUnknown \<Rightarrow> \<lparr>fd_failure_class = ''verify_unknown'', fd_retryable = True,
          fd_next_action = ''inspect_verification_evidence_before_patch'',
          fd_model_hint = ''Classify the failure from logs before making another code change.'',
          fd_evidence_refs = take 8 nodeids, fd_retry_limit = 1\<rparr>)"

text \<open>\<open>nodeids\<close>: the test node ids in a log; those the state already holds come first.\<close>

definition decide_verification_failure ::
  "(verification_result option \<Rightarrow> string list) \<Rightarrow> verification_result option \<Rightarrow> repair_state option \<Rightarrow> failure_decision" where
  "decide_verification_failure nodeids result st =
     verification_decision (bucket_of result) (case result of Some r \<Rightarrow> vr_all_passed r | None \<Rightarrow> False)
       (case st of
          Some s \<Rightarrow> if ctl_verify_failed_nodeids (rs_control s) \<noteq> [] then ctl_verify_failed_nodeids (rs_control s)
                    else nodeids result
        | None \<Rightarrow> nodeids result)"

definition apply_failure_decision :: "failure_decision \<Rightarrow> repair_state \<Rightarrow> repair_state" where
  "apply_failure_decision d s =
     s\<lparr>rs_control := (rs_control s)\<lparr>ctl_repair_failure_decision := Some d\<rparr>,
       rs_node_timings := (rs_node_timings s)\<lparr>nt_required_next_action := Some (fd_next_action d)\<rparr>,
       rs_agent_errors := (rs_agent_errors s)(''repair_failure_class'' \<mapsto> fd_failure_class d)\<rparr>"

subsection \<open>The stop-loss tracker\<close>

record tracker =
  tr_patch_threshold :: int
  tr_verify_threshold :: int
  tr_apply_threshold :: int
  tr_parse_threshold :: int
  tr_idle_threshold :: int
  tr_env_threshold :: int
  tr_seen :: "string list"
  tr_last_prints :: "string list"
  tr_last_hash :: string
  tr_same_patch :: int
  tr_same_verify :: int
  tr_empty :: int
  tr_apply_fails :: int
  tr_parse_fails :: int
  tr_idle :: int
  tr_env :: int
  tr_attempts :: int

definition new_tracker :: tracker where
  "new_tracker = \<lparr>tr_patch_threshold = 2, tr_verify_threshold = 3, tr_apply_threshold = 2, tr_parse_threshold = 2,
     tr_idle_threshold = 2, tr_env_threshold = 2, tr_seen = [], tr_last_prints = [], tr_last_hash = [],
     tr_same_patch = 0, tr_same_verify = 0, tr_empty = 0, tr_apply_fails = 0, tr_parse_fails = 0, tr_idle = 0,
     tr_env = 0, tr_attempts = 0\<rparr>"

record stop_decision =
  sp_stop :: bool
  sp_reason :: string
  sp_progress :: bool
  sp_hint :: string
  sp_meta :: "no_progress_meta option"

definition keep_going :: "bool \<Rightarrow> stop_decision" where
  "keep_going progress = \<lparr>sp_stop = False, sp_reason = [], sp_progress = progress, sp_hint = [], sp_meta = None\<rparr>"

text \<open>The outside: SHA-256 and the wording of a hint for a reason, a count and a detail.\<close>

record outside =
  ou_sha :: "string \<Rightarrow> string"
  ou_say :: "string \<Rightarrow> int \<Rightarrow> string \<Rightarrow> string"
  ou_nodeids :: "verification_result option \<Rightarrow> string list"

definition patch_fingerprint :: "outside \<Rightarrow> candidate_patch \<Rightarrow> string" where
  "patch_fingerprint ou p =
     take 16 (ou_sha ou (join_with [LF] [cp_file_path p, cp_diff p, cp_original_lines p, cp_patched_lines p]))"

definition hash_verify_logs :: "outside \<Rightarrow> string list \<Rightarrow> string" where
  "hash_verify_logs ou logs =
     (if logs = [] then [] else take 16 (ou_sha ou (join_with [LF] (map (first_chars 200) (take 5 logs)))))"

definition idle_meta :: "int \<Rightarrow> no_progress_meta" where
  "idle_meta n = \<lparr>np_count = n,
     np_required_next_action = (if n \<ge> 3 then ''stop_repeated_reads_and_replan'' else ''write_patch_or_expand_context''),
     np_allowed_next_actions = (if n \<ge> 3 then [''write_patch'', ''replan'', ''terminate'']
                                else [''write_patch'', ''expand_context'', ''replan'']),
     np_forbid_repeated_reads = (n \<ge> 2),
     np_control_signal = (if n = 2 then ''soft_warning'' else ''hard_stop'')\<rparr>"

definition halt :: "outside \<Rightarrow> string \<Rightarrow> int \<Rightarrow> string \<Rightarrow> no_progress_meta option \<Rightarrow> stop_decision" where
  "halt ou reason n detail meta =
     \<lparr>sp_stop = True, sp_reason = reason, sp_progress = False, sp_hint = ou_say ou reason n detail, sp_meta = meta\<rparr>"

definition record_empty_patch :: "outside \<Rightarrow> bool \<Rightarrow> tracker \<Rightarrow> stop_decision \<times> tracker" where
  "record_empty_patch ou apply_failed t =
    (let t = t\<lparr>tr_attempts := tr_attempts t + 1, tr_empty := tr_empty t + 1, tr_idle := tr_idle t + 1,
               tr_same_patch := 0, tr_last_prints := [],
               tr_apply_fails := (if apply_failed then tr_apply_fails t + 1 else 0),
               tr_parse_fails := (if apply_failed then 0 else tr_parse_fails t + 1)\<rparr>
     in (if tr_apply_fails t \<ge> tr_apply_threshold t then halt ou ''apply_thrash'' (tr_apply_fails t) [] None
         else if tr_parse_fails t \<ge> tr_parse_threshold t
         then halt ou ''parse_thrash'' (tr_parse_fails t) [] (Some (idle_meta (tr_idle t)))
         else if tr_idle t \<ge> tr_idle_threshold t
         then halt ou ''no_progress'' (tr_idle t) [] (Some (idle_meta (tr_idle t)))
         else keep_going False, t))"

definition prints_of :: "outside \<Rightarrow> candidate_patch list \<Rightarrow> string list" where
  "prints_of ou patches = sort (remdups (map (patch_fingerprint ou) patches))"

text \<open>What the attempt shows: a patch not seen before, a failure other than the last one, an unusable
  environment.\<close>

definition novel_patch :: "outside \<Rightarrow> candidate_patch list \<Rightarrow> tracker \<Rightarrow> bool" where
  "novel_patch ou patches t \<longleftrightarrow> list_ex (\<lambda>fp. fp \<notin> set (tr_seen t)) (prints_of ou patches)"

definition failure_hash :: "outside \<Rightarrow> verification_result option \<Rightarrow> string" where
  "failure_hash ou result = (case result of Some r \<Rightarrow> hash_verify_logs ou (vr_failure_logs r) | None \<Rightarrow> [])"

definition verify_changed :: "outside \<Rightarrow> verification_result option \<Rightarrow> tracker \<Rightarrow> bool" where
  "verify_changed ou result t \<longleftrightarrow> failure_hash ou result \<noteq> [] \<and> failure_hash ou result \<noteq> tr_last_hash t"

definition shows_progress ::
  "outside \<Rightarrow> verification_result option \<Rightarrow> candidate_patch list \<Rightarrow> tracker \<Rightarrow> bool" where
  "shows_progress ou result patches t \<longleftrightarrow>
     tr_attempts t + 1 \<le> 1 \<or> novel_patch ou patches t \<or> verify_changed ou result t \<and> bucket_of result \<noteq> VbEnv"

definition record_verify_failure ::
  "outside \<Rightarrow> verification_result option \<Rightarrow> candidate_patch list \<Rightarrow> tracker \<Rightarrow> stop_decision \<times> tracker" where
  "record_verify_failure ou result patches t =
    (let fps = prints_of ou patches; h = failure_hash ou result; diag = diagnose_verification result;
         progress = shows_progress ou result patches t;
         t = t\<lparr>tr_attempts := tr_attempts t + 1, tr_empty := 0, tr_apply_fails := 0, tr_parse_fails := 0,
               tr_seen := tr_seen t @ filter (\<lambda>fp. fp \<notin> set (tr_seen t)) fps,
               tr_same_patch := (if fps \<noteq> [] \<and> fps = tr_last_prints t then tr_same_patch t + 1
                                 else if fps \<noteq> [] then 1 else 0),
               tr_last_prints := fps,
               tr_same_verify := (if h \<noteq> [] \<and> h = tr_last_hash t then tr_same_verify t + 1
                                  else if h \<noteq> [] then 1 else 0),
               tr_last_hash := h,
               tr_env := (if fst diag = VbEnv then tr_env t + 1 else 0),
               tr_idle := (if progress then 0 else tr_idle t + 1)\<rparr>
     in (if tr_env t \<ge> tr_env_threshold t then halt ou ''env'' (tr_env t) (snd diag) None
         else if tr_idle t \<ge> 3 then halt ou ''no_progress'' (tr_idle t) [] (Some (idle_meta (tr_idle t)))
         else if tr_same_patch t \<ge> tr_patch_threshold t then halt ou ''identical_patch'' (tr_same_patch t) [] None
         else if tr_same_verify t \<ge> tr_verify_threshold t then halt ou ''identical_verify'' (tr_same_verify t) [] None
         else if tr_idle t \<ge> tr_idle_threshold t
         then (halt ou ''no_progress'' (tr_idle t) [] (Some (idle_meta (tr_idle t))))\<lparr>sp_stop := False\<rparr>
         else keep_going progress, t))"

text \<open>\<open>[stop loss]\<close> in the source's language.\<close>

definition stop_label :: string where
  "stop_label = [CHR 0x5B, CHR 0xE6, CHR 0xAD, CHR 0xA2, CHR 0xE6, CHR 0x8D, CHR 0x9F, CHR 0x5D, CHR 0x0A]"

definition apply_stop_loss :: "stop_decision \<Rightarrow> repair_state \<Rightarrow> repair_state" where
  "apply_stop_loss d s =
    (let s = (case sp_meta d of
           Some m \<Rightarrow> if sp_reason d = ''no_progress''
             then s\<lparr>rs_control := (rs_control s)\<lparr>ctl_no_progress_warning := Some m\<rparr>,
                    rs_node_timings := (rs_node_timings s)\<lparr>nt_no_progress_control :=
                      Some (np_required_next_action m, np_forbid_repeated_reads m, np_allowed_next_actions m)\<rparr>\<rparr>
             else s
         | None \<Rightarrow> s)
     in if \<not> sp_stop d then s
        else
         (let message = (if sp_hint d \<noteq> [] then sp_hint d else sp_reason d);
              extra = stop_label @ message in
          s\<lparr>rs_control := (rs_control s)\<lparr>ctl_stop_loss := sp_reason d, ctl_stop_loss_early := True\<rparr>,
            rs_node_timings := (case sp_meta d of
                Some m \<Rightarrow> (rs_node_timings s)\<lparr>nt_stop_loss_meta := Some m, nt_no_progress_count := Some (np_count m)\<rparr>
              | None \<Rightarrow> rs_node_timings s),
            rs_agent_errors := (rs_agent_errors s)(''stop_loss'' \<mapsto> message),
            rs_feedback := (if rs_feedback s \<noteq> [] then strip_text (rs_feedback s @ [LF, LF] @ extra) else extra)\<rparr>))"

definition has_stop_loss :: "repair_state \<Rightarrow> bool" where
  "has_stop_loss s \<longleftrightarrow> ctl_stop_loss (rs_control s) \<noteq> [] \<or> ctl_stop_loss_early (rs_control s)"

subsection \<open>Stalled attempts end the loop, progress keeps it going\<close>

datatype attempt = NoPatch bool | Rejected "verification_result option" "candidate_patch list"

fun attempt_step :: "outside \<Rightarrow> attempt \<Rightarrow> tracker \<Rightarrow> stop_decision \<times> tracker" where
  "attempt_step ou (NoPatch apply_failed) t = record_empty_patch ou apply_failed t"
| "attempt_step ou (Rejected result patches) t = record_verify_failure ou result patches t"

fun makes_progress :: "outside \<Rightarrow> attempt \<Rightarrow> tracker \<Rightarrow> bool" where
  "makes_progress ou (NoPatch apply_failed) t = False"
| "makes_progress ou (Rejected result patches) t = shows_progress ou result patches t"

fun decisions :: "outside \<Rightarrow> attempt list \<Rightarrow> tracker \<Rightarrow> stop_decision list" where
  "decisions ou [] t = []"
| "decisions ou (a # as) t = fst (attempt_step ou a t) # decisions ou as (snd (attempt_step ou a t))"

fun stalled :: "outside \<Rightarrow> attempt list \<Rightarrow> tracker \<Rightarrow> bool" where
  "stalled ou [] t = True"
| "stalled ou (a # as) t = (\<not> makes_progress ou a t \<and> stalled ou as (snd (attempt_step ou a t)))"

lemma halt_stops [simp]: "sp_stop (halt ou reason n detail meta)" "sp_reason (halt ou reason n detail meta) = reason"
  by (simp_all add: halt_def)

lemma keep_going_simps [simp]: "\<not> sp_stop (keep_going p)" "sp_reason (keep_going p) = []"
  by (simp_all add: keep_going_def)

lemma attempt_idle:
  "tr_idle (snd (attempt_step ou a t)) = (if makes_progress ou a t then 0 else tr_idle t + 1)"
  "tr_idle_threshold (snd (attempt_step ou a t)) = tr_idle_threshold t"
  by (cases a; simp add: record_empty_patch_def record_verify_failure_def Let_def)+

lemma idle_stops: "3 \<le> tr_idle (snd (attempt_step ou a t)) \<Longrightarrow> tr_idle_threshold t \<le> 3 \<Longrightarrow> sp_stop (fst (attempt_step ou a t))"
  by (cases a) (auto simp: record_empty_patch_def record_verify_failure_def Let_def)

text \<open>Attempts without progress do not go on: among any three attempts in a row that bring neither a new patch
  nor another failure, the tracker tells the loop to stop at one of them at the latest.\<close>

theorem stalled_attempts_stop:
  assumes "0 \<le> tr_idle t" "tr_idle_threshold t \<le> 3" "length as = 3" "stalled ou as t"
  shows "\<exists>d \<in> set (decisions ou as t). sp_stop d"
proof -
  obtain a b c where abc: "as = [a, b, c]" using assms(3) by (auto simp: length_Suc_conv numeral_3_eq_3)
  let ?t1 = "snd (attempt_step ou a t)" let ?t2 = "snd (attempt_step ou b ?t1)"
  have "tr_idle (snd (attempt_step ou c ?t2)) = tr_idle t + 3"
    using assms(4) by (simp add: abc attempt_idle)
  then have "sp_stop (fst (attempt_step ou c ?t2))"
    using assms(1,2) by (intro idle_stops) (simp_all add: attempt_idle)
  then show ?thesis by (simp add: abc)
qed

definition tracked :: "tracker \<Rightarrow> bool" where
  "tracked t \<longleftrightarrow> set (tr_last_prints t) \<subseteq> set (tr_seen t) \<and> tr_patch_threshold t = 2 \<and> tr_verify_threshold t = 3 \<and>
     tr_idle_threshold t = 2"

lemma tracked_step: "tracked t \<Longrightarrow> tracked (snd (attempt_step ou a t))"
  by (cases a) (auto simp: tracked_def record_empty_patch_def record_verify_failure_def Let_def)

lemma tracked_run: "tracked t \<Longrightarrow> tracked (fold (\<lambda>a t. snd (attempt_step ou a t)) as t)"
  by (induction as arbitrary: t) (auto intro: tracked_step)

text \<open>As long as there is progress the loop goes on: after any attempts, a rejected patch that is new, or whose
  failure is another one, never stops the loop for lack of progress; a new patch stops it only for an
  unusable environment or a failure that did not change, another failure only for the environment or
  a patch that did not change.\<close>

theorem progress_keeps_going:
  assumes "t = fold (\<lambda>a t. snd (attempt_step ou a t)) as new_tracker"
    and "record_verify_failure ou result patches t = (d, t')"
    and "novel_patch ou patches t \<or> verify_changed ou result t \<and> bucket_of result \<noteq> VbEnv"
  shows "sp_reason d \<noteq> ''no_progress'' \<and>
    (sp_stop d \<longrightarrow> sp_reason d \<in> {''env'', ''identical_verify'', ''identical_patch''} \<and>
       (novel_patch ou patches t \<longrightarrow> sp_reason d \<noteq> ''identical_patch'') \<and>
       (verify_changed ou result t \<longrightarrow> sp_reason d \<noteq> ''identical_verify''))"
proof -
  have inv: "tracked t"
    unfolding assms(1) by (rule tracked_run) (simp add: tracked_def new_tracker_def)
  have progress: "shows_progress ou result patches t" using assms(3) by (auto simp: shows_progress_def)
  have novel: "novel_patch ou patches t \<Longrightarrow> prints_of ou patches \<noteq> tr_last_prints t"
    using inv by (auto simp: novel_patch_def list_ex_iff tracked_def)
  have th: "tr_patch_threshold t = 2" "tr_verify_threshold t = 3" "tr_idle_threshold t = 2"
    using inv by (simp_all add: tracked_def)
  have changed: "verify_changed ou result t \<Longrightarrow> failure_hash ou result \<noteq> tr_last_hash t"
    by (simp add: verify_changed_def)
  show ?thesis
    using assms(2) progress novel changed th
    unfolding record_verify_failure_def Let_def
    by (auto split: if_splits)
qed

definition plain_outside :: outside where
  "plain_outside = \<lparr>ou_sha = (\<lambda>s. s), ou_say = (\<lambda>reason n detail. reason), ou_nodeids = (\<lambda>r. [])\<rparr>"

lemma stalled_attempts_stop_witness:
  "\<exists>d \<in> set (decisions plain_outside [NoPatch True, NoPatch False, NoPatch True] new_tracker). sp_stop d"
  by (rule stalled_attempts_stop) (simp_all add: new_tracker_def)

definition failing_run :: "string \<Rightarrow> verification_result" where
  "failing_run line = \<lparr>vr_all_passed = False, vr_total_tests = 1, vr_failed = 1, vr_error = 0,
     vr_failure_logs = [line], vr_build_log = [], vr_execution_status = XFailed\<rparr>"

definition small_patch :: "string \<Rightarrow> candidate_patch" where
  "small_patch d = \<lparr>cp_file_path = ''a.py'', cp_original_lines = [], cp_patched_lines = [], cp_diff = d\<rparr>"

lemma progress_keeps_going_witness:
  "sp_reason (fst (record_verify_failure plain_outside (Some (failing_run ''assert 1'')) [small_patch ''+x''] new_tracker))
     \<noteq> ''no_progress''"
proof -
  let ?r = "record_verify_failure plain_outside (Some (failing_run ''assert 1'')) [small_patch ''+x''] new_tracker"
  obtain d t' where r: "?r = (d, t')" by fastforce
  have "novel_patch plain_outside [small_patch ''+x''] new_tracker"
    by (simp add: novel_patch_def prints_of_def new_tracker_def)
  then show ?thesis
    using progress_keeps_going [of new_tracker plain_outside "[]", OF _ r] by (simp add: r)
qed

subsection \<open>The ledger of hypotheses\<close>

record hypothesis =
  hy_id :: string
  hy_files :: "string list"
  hy_status :: string
  hy_counter :: "string list"
  hy_hashes :: "string list"
  hy_note :: string

record failure_ledger =
  fl_next :: nat
  fl_hyps :: "hypothesis list"
  fl_negated :: "string list"
  fl_regress :: "string list"
  fl_hash :: string
  fl_bucket :: string

definition empty_failures :: failure_ledger where
  "empty_failures = \<lparr>fl_next = 1, fl_hyps = [], fl_negated = [], fl_regress = [], fl_hash = [], fl_bucket = []\<rparr>"

text \<open>What is stored and loaded again between two attempts.\<close>

definition stored_hypothesis :: "hypothesis \<Rightarrow> hypothesis" where
  "stored_hypothesis h = h\<lparr>hy_counter := take 6 (hy_counter h), hy_hashes := take 6 (hy_hashes h)\<rparr>"

definition stored_ledger :: "failure_ledger \<Rightarrow> failure_ledger" where
  "stored_ledger l = l\<lparr>fl_hyps := map stored_hypothesis (keep_last 8 (fl_hyps l)),
     fl_negated := take 12 (fl_negated l), fl_regress := take 12 (fl_regress l)\<rparr>"

definition patch_files :: "candidate_patch list \<Rightarrow> string list" where
  "patch_files ps = dedup (filter (\<lambda>f. f \<noteq> []) (map (\<lambda>p. slashes (cp_file_path p)) ps))"

definition count_text :: "int \<Rightarrow> string" where
  "count_text n = (if n < 0 then ''-'' @ nat_str (nat (- n)) else nat_str (nat n))"

definition verify_hash :: "outside \<Rightarrow> verification_result option \<Rightarrow> string" where
  "verify_hash ou result =
     (case result of
        None \<Rightarrow> []
      | Some r \<Rightarrow>
         (let blob = join_with [LF] (map (first_chars 220) (take 6 (vr_failure_logs r))) in
          take 12 (ou_sha ou (if blank_text blob
            then ''t='' @ count_text (vr_total_tests r) @ '':f='' @ count_text (vr_failed r) else blob))))"

definition add_assertion :: "string \<Rightarrow> string list \<Rightarrow> string list" where
  "add_assertion line out =
    (let s = strip_text line in
     if length out \<ge> 4 \<or> s = [] then out
     else if (contains ''assert'' (casefold s) \<or> starts_with s ''E '' \<or> contains ''Error'' s \<or> contains ''FAILED'' s)
        \<and> s \<notin> set out then out @ [first_chars 220 s]
     else out)"

definition assertions :: "verification_result option \<Rightarrow> string list" where
  "assertions result =
     (case result of None \<Rightarrow> []
      | Some r \<Rightarrow> fold add_assertion (concat (map (py_splitlines []) (take 8 (vr_failure_logs r)))) [])"

definition active_index :: "failure_ledger \<Rightarrow> nat option" where
  "active_index l = find (\<lambda>i. hy_status (fl_hyps l ! i) = ''active'') (rev [0..<length (fl_hyps l)])"

definition open_hypothesis :: "string list \<Rightarrow> string \<Rightarrow> failure_ledger \<Rightarrow> failure_ledger" where
  "open_hypothesis files note l =
     l\<lparr>fl_next := fl_next l + 1,
       fl_hyps := map (\<lambda>h. if hy_status h = ''active'' then h\<lparr>hy_status := ''superseded''\<rparr> else h) (fl_hyps l) @
         [\<lparr>hy_id = ''H'' @ nat_str (fl_next l), hy_files = files, hy_status = ''active'', hy_counter = [],
           hy_hashes = [], hy_note = note\<rparr>]\<rparr>"

definition add_files :: "string list \<Rightarrow> string list \<Rightarrow> string list" where
  "add_files files known = fold (\<lambda>f known. if f \<noteq> [] \<and> f \<notin> set known then known @ [f] else known) files known"

definition negate_at :: "nat \<Rightarrow> string \<Rightarrow> failure_ledger \<Rightarrow> failure_ledger" where
  "negate_at i reason l =
    (let h = fl_hyps l ! i in
     l\<lparr>fl_hyps := (fl_hyps l)[i := h\<lparr>hy_status := ''negated'', hy_note := (if reason \<noteq> [] then reason else hy_note h)\<rparr>],
       fl_negated := add_files (hy_files h) (fl_negated l)\<rparr>)"

definition mark_regression :: "string list \<Rightarrow> failure_ledger \<Rightarrow> failure_ledger" where
  "mark_regression files l =
     l\<lparr>fl_regress := add_files files (fl_regress l), fl_negated := add_files files (fl_negated l)\<rparr>"

definition forbidden_files :: "failure_ledger \<Rightarrow> string list" where
  "forbidden_files l = fl_negated l @ fl_regress l"

text \<open>The hypothesis the files are charged to: the active one if it is about these files, otherwise a new one.\<close>

definition charged :: "string list \<Rightarrow> string \<Rightarrow> failure_ledger \<Rightarrow> nat \<times> failure_ledger" where
  "charged files note l =
     (case active_index l of
        Some i \<Rightarrow> if set (hy_files (fl_hyps l ! i)) = set files then (i, l)
                  else (length (fl_hyps l), open_hypothesis files note l)
      | None \<Rightarrow> (length (fl_hyps l), open_hypothesis files note l))"

definition note_failure :: "string list \<Rightarrow> string \<Rightarrow> nat \<Rightarrow> failure_ledger \<Rightarrow> failure_ledger" where
  "note_failure asserts vhash i l =
    (let h = fl_hyps l ! i;
         h = h\<lparr>hy_counter := fold (\<lambda>a cs. if a \<in> set cs then cs else cs @ [a]) asserts (hy_counter h),
               hy_hashes := (if vhash \<noteq> [] \<and> vhash \<notin> set (hy_hashes h) then hy_hashes h @ [vhash] else hy_hashes h)\<rparr>;
         l = l\<lparr>fl_hyps := (fl_hyps l)[i := h]\<rparr>;
         l = (if vhash \<noteq> [] \<and> vhash = fl_hash l \<and> hy_status h = ''active'' then negate_at i ''repeated_counterexample'' l
              else if length (hy_hashes h) \<ge> 2 \<and> length (remdups (keep_last 2 (hy_hashes h))) = 1
              then negate_at i ''stagnant_verify_hash'' l
              else l)
     in l\<lparr>fl_hash := (if vhash \<noteq> [] then vhash else fl_hash l)\<rparr>)"

definition update_ledger ::
  "string list \<Rightarrow> string list \<Rightarrow> string \<Rightarrow> string \<Rightarrow> bool \<Rightarrow> failure_ledger \<Rightarrow> failure_ledger" where
  "update_ledger files asserts vhash bucket regression l =
    (let l = l\<lparr>fl_bucket := (if bucket \<noteq> [] then bucket else fl_bucket l)\<rparr> in
     if regression \<and> files \<noteq> []
     then (case charged files ''regression'' (mark_regression files l) of
             (i, l) \<Rightarrow> (negate_at i ''introduced_regression'' l)\<lparr>fl_hash := vhash\<rparr>)
     else if bucket = ''env'' \<or> bucket = ''collect''
     then l\<lparr>fl_hash := (if vhash \<noteq> [] then vhash else fl_hash l)\<rparr>
     else if files \<noteq> []
     then (case charged files ''patch_attempt'' l of (i, l) \<Rightarrow> note_failure asserts vhash i l)
     else (case active_index l of None \<Rightarrow> l | Some i \<Rightarrow> note_failure asserts vhash i l))"

definition record_verify_into_ledger ::
  "outside \<Rightarrow> candidate_patch list \<Rightarrow> verification_result option \<Rightarrow> string \<Rightarrow> bool \<Rightarrow> failure_ledger \<Rightarrow> failure_ledger" where
  "record_verify_into_ledger ou patches result bucket regression l =
     stored_ledger (update_ledger (patch_files patches) (assertions result) (verify_hash ou result) bucket regression l)"

text \<open>Suspects in forbidden files go to the end of the list.\<close>

definition shrink_suspects :: "string list \<Rightarrow> failure_ledger \<Rightarrow> string list" where
  "shrink_suspects suspects l =
    (let bad = (\<lambda>f. slashes f \<in> set (forbidden_files l)) in
     filter (\<lambda>f. \<not> bad f) suspects @ filter bad suspects)"

subsection \<open>The ledger stays consistent\<close>

definition is_active :: "hypothesis \<Rightarrow> bool" where
  "is_active h \<longleftrightarrow> hy_status h = ''active''"

definition hypothesis_ok :: "nat \<Rightarrow> hypothesis \<Rightarrow> bool" where
  "hypothesis_ok n h \<longleftrightarrow> distinct (hy_hashes h) \<and> hy_note h \<noteq> ''stagnant_verify_hash'' \<and>
     (\<exists>k < n. hy_id h = ''H'' @ nat_str k)"

definition failure_inv :: "failure_ledger \<Rightarrow> bool" where
  "failure_inv l \<longleftrightarrow> length (filter is_active (fl_hyps l)) \<le> 1 \<and> distinct (map hy_id (fl_hyps l)) \<and>
     list_all (hypothesis_ok (fl_next l)) (fl_hyps l)"

lemma length_filter_update:
  "i < length xs \<Longrightarrow> \<not> P y \<or> P (xs ! i) \<Longrightarrow> length (filter P (xs[i := y])) \<le> length (filter P xs)"
proof (induction xs arbitrary: i)
  case (Cons x xs)
  show ?case
  proof (cases i)
    case 0
    then show ?thesis using Cons.prems by auto
  next
    case (Suc j)
    have "length (filter P (xs[j := y])) \<le> length (filter P xs)"
      using Cons.IH [of j] Cons.prems Suc by simp
    then show ?thesis by (simp add: Suc)
  qed
qed simp

lemma failure_inv_update:
  assumes "failure_inv l" "i < length (fl_hyps l)" "hy_id h = hy_id (fl_hyps l ! i)"
    and "hypothesis_ok (fl_next l) h" "is_active h \<Longrightarrow> is_active (fl_hyps l ! i)"
  shows "failure_inv (l\<lparr>fl_hyps := (fl_hyps l)[i := h]\<rparr>)"
proof -
  have "map hy_id ((fl_hyps l)[i := h]) = map hy_id (fl_hyps l)"
    using assms(2,3) by (simp add: map_update list_update_same_conv)
  moreover have "length (filter is_active ((fl_hyps l)[i := h])) \<le> length (filter is_active (fl_hyps l))"
    using assms(2,5) by (intro length_filter_update) auto
  ultimately show ?thesis
    using assms(1,4) set_update_subset_insert [of "fl_hyps l" i h]
    by (auto simp: failure_inv_def list_all_iff)
qed

lemma failure_inv_fields:
  "failure_inv (l\<lparr>fl_negated := n\<rparr>) = failure_inv l" "failure_inv (l\<lparr>fl_regress := n\<rparr>) = failure_inv l"
  "failure_inv (l\<lparr>fl_hash := v\<rparr>) = failure_inv l" "failure_inv (l\<lparr>fl_bucket := v\<rparr>) = failure_inv l"
  by (simp_all add: failure_inv_def)

lemma failure_inv_negate:
  assumes "failure_inv l" "i < length (fl_hyps l)" "reason \<noteq> ''stagnant_verify_hash''"
  shows "failure_inv (negate_at i reason l)"
proof -
  let ?h = "fl_hyps l ! i"
  let ?h' = "?h\<lparr>hy_status := ''negated'', hy_note := (if reason \<noteq> [] then reason else hy_note ?h)\<rparr>"
  have "hypothesis_ok (fl_next l) ?h" using assms(1,2) by (auto simp: failure_inv_def list_all_length)
  then have "hypothesis_ok (fl_next l) ?h'" using assms(3) by (auto simp: hypothesis_ok_def)
  then have "failure_inv (l\<lparr>fl_hyps := (fl_hyps l)[i := ?h']\<rparr>)"
    using assms by (intro failure_inv_update) (auto simp: is_active_def)
  then show ?thesis by (simp add: negate_at_def Let_def failure_inv_fields)
qed

lemma active_index_bound: "active_index l = Some i \<Longrightarrow> i < length (fl_hyps l) \<and> is_active (fl_hyps l ! i)"
  by (auto simp: active_index_def is_active_def find_Some_iff rev_nth)

lemma nat_str_eq_iff [simp]: "nat_str m = nat_str n \<longleftrightarrow> m = n"
  by (metis digits_val_nat_str)

lemma failure_inv_open:
  assumes "failure_inv l" "note \<noteq> ''stagnant_verify_hash''"
  shows "failure_inv (open_hypothesis files note l)"
proof -
  let ?demote = "\<lambda>h. if hy_status h = ''active'' then h\<lparr>hy_status := ''superseded''\<rparr> else h"
  have idle: "filter is_active (map ?demote hs) = []" for hs
    by (induction hs) (auto simp: is_active_def)
  have ids: "map hy_id (map ?demote hs) = map hy_id hs" for hs by auto
  have ok: "list_all (hypothesis_ok (Suc (fl_next l))) (map ?demote (fl_hyps l))"
    using assms(1) by (auto simp: failure_inv_def list_all_iff hypothesis_ok_def less_Suc_eq)
  have "''H'' @ nat_str (fl_next l) \<notin> set (map hy_id (fl_hyps l))"
    using assms(1) by (auto simp: failure_inv_def list_all_iff hypothesis_ok_def)
  then show ?thesis
    using assms ok by (auto simp: failure_inv_def open_hypothesis_def idle ids hypothesis_ok_def is_active_def
        simp del: map_map)
qed

lemma charged_ok:
  assumes "failure_inv l" "charged files note l = (i, l')" "note \<noteq> ''stagnant_verify_hash''"
  shows "failure_inv l' \<and> i < length (fl_hyps l') \<and> is_active (fl_hyps l' ! i)"
  using assms failure_inv_open [OF assms(1,3), of files]
  by (auto simp: charged_def open_hypothesis_def nth_append is_active_def dest: active_index_bound
      split: option.splits if_splits)

lemma failure_inv_note:
  assumes "failure_inv l" "i < length (fl_hyps l)"
  shows "failure_inv (note_failure asserts vhash i l)"
proof -
  define h where "h = fl_hyps l ! i"
  define h' where "h' = h\<lparr>hy_counter := fold (\<lambda>a cs. if a \<in> set cs then cs else cs @ [a]) asserts (hy_counter h),
     hy_hashes := (if vhash \<noteq> [] \<and> vhash \<notin> set (hy_hashes h) then hy_hashes h @ [vhash] else hy_hashes h)\<rparr>"
  define l' where "l' = l\<lparr>fl_hyps := (fl_hyps l)[i := h']\<rparr>"
  have "hypothesis_ok (fl_next l) h" using assms by (auto simp: h_def failure_inv_def list_all_length)
  then have ok: "hypothesis_ok (fl_next l) h'" by (auto simp: h'_def hypothesis_ok_def)
  have l': "failure_inv l'"
    unfolding l'_def using assms ok by (intro failure_inv_update) (auto simp: h'_def h_def is_active_def)
  have fresh: "\<not> (length (hy_hashes h') \<ge> 2 \<and> length (remdups (keep_last 2 (hy_hashes h'))) = 1)"
  proof
    assume two: "length (hy_hashes h') \<ge> 2 \<and> length (remdups (keep_last 2 (hy_hashes h'))) = 1"
    have "distinct (keep_last 2 (hy_hashes h'))" using ok by (simp add: keep_last_def hypothesis_ok_def)
    then have "length (remdups (keep_last 2 (hy_hashes h'))) = min 2 (length (hy_hashes h'))"
      by (simp only: distinct_remdups_id length_keep_last)
    with two show False by linarith
  qed
  have "note_failure asserts vhash i l =
      (if vhash \<noteq> [] \<and> vhash = fl_hash l' \<and> hy_status h' = ''active'' then negate_at i ''repeated_counterexample'' l' else l')
      \<lparr>fl_hash := (if vhash \<noteq> [] then vhash else fl_hash l)\<rparr>"
    using fresh unfolding note_failure_def Let_def h_def [symmetric] h'_def [symmetric] l'_def [symmetric]
    by (auto simp: l'_def negate_at_def Let_def)
  moreover have "failure_inv (negate_at i ''repeated_counterexample'' l')"
    using l' assms(2) by (intro failure_inv_negate) (auto simp: l'_def)
  ultimately show ?thesis using l' by (simp add: failure_inv_fields)
qed

lemma failure_inv_step:
  assumes "failure_inv l"
  shows "failure_inv (update_ledger files asserts vhash bucket regression l)"
proof -
  define l1 where "l1 = l\<lparr>fl_bucket := (if bucket \<noteq> [] then bucket else fl_bucket l)\<rparr>"
  have inv: "failure_inv l1" "failure_inv (mark_regression files l1)"
    using assms by (simp_all add: l1_def mark_regression_def failure_inv_fields)
  obtain i k where r: "charged files ''regression'' (mark_regression files l1) = (i, k)" by fastforce
  obtain j m where p: "charged files ''patch_attempt'' l1 = (j, m)" by fastforce
  have "failure_inv k \<and> i < length (fl_hyps k)" using charged_ok [OF inv(2) r] by simp
  then have reg: "failure_inv (negate_at i ''introduced_regression'' k)" by (intro failure_inv_negate) auto
  have pat: "failure_inv (note_failure asserts vhash j m)"
    using charged_ok [OF inv(1) p] by (intro failure_inv_note) auto
  have act: "active_index l1 = Some n \<Longrightarrow> failure_inv (note_failure asserts vhash n l1)" for n
    using inv(1) by (intro failure_inv_note) (auto dest: active_index_bound)
  show ?thesis
    unfolding update_ledger_def Let_def l1_def [symmetric]
    using inv(1) reg pat act by (simp add: r p failure_inv_fields split: option.split)
qed

lemma failure_inv_stored: "failure_inv l \<Longrightarrow> failure_inv (stored_ledger l)"
proof -
  assume inv: "failure_inv l"
  let ?hs = "keep_last 8 (fl_hyps l)"
  have act: "filter is_active (map stored_hypothesis hs) = map stored_hypothesis (filter is_active hs)" for hs
    by (induction hs) (auto simp: is_active_def stored_hypothesis_def)
  have ids: "map hy_id (map stored_hypothesis hs) = map hy_id hs" for hs by (auto simp: stored_hypothesis_def)
  have "length (filter is_active ?hs) \<le> length (filter is_active (fl_hyps l))"
    unfolding keep_last_def
    by (metis (no_types) append_take_drop_id filter_append length_append le_add2)
  moreover have "distinct (map hy_id ?hs)"
    using inv by (simp add: keep_last_def failure_inv_def drop_map [symmetric])
  moreover have "list_all (hypothesis_ok (fl_next l)) (map stored_hypothesis ?hs)"
    using inv set_keep_last [of 8 "fl_hyps l"]
    by (auto simp: failure_inv_def list_all_iff hypothesis_ok_def stored_hypothesis_def)
  ultimately show ?thesis
    using inv by (simp add: failure_inv_def stored_ledger_def act ids del: map_map)
qed

type_synonym failure_entry = "candidate_patch list \<times> verification_result option \<times> string \<times> bool"

fun failure_step :: "outside \<Rightarrow> failure_entry \<Rightarrow> failure_ledger \<Rightarrow> failure_ledger" where
  "failure_step ou (patches, result, bucket, regression) l =
     record_verify_into_ledger ou patches result bucket regression l"

text \<open>After any sequence of failed attempts the ledger is consistent: at most one hypothesis is active, no
  two have the same id, no hypothesis lists a failure twice, and none was ever negated as stagnant:
  that branch of the code cannot be reached.\<close>

theorem ledger_stays_consistent:
  "length (filter is_active (fl_hyps (fold (failure_step ou) es empty_failures))) \<le> 1 \<and>
   distinct (map hy_id (fl_hyps (fold (failure_step ou) es empty_failures))) \<and>
   list_all (\<lambda>h. distinct (hy_hashes h) \<and> hy_note h \<noteq> ''stagnant_verify_hash'')
     (fl_hyps (fold (failure_step ou) es empty_failures))"
proof -
  have "failure_inv (fold (failure_step ou) es l)" if "failure_inv l" for l
    using that
  proof (induction es arbitrary: l)
    case (Cons e es)
    obtain patches result bucket regression where e: "e = (patches, result, bucket, regression)" by (cases e) auto
    have "failure_inv (failure_step ou e l)"
      unfolding e failure_step.simps record_verify_into_ledger_def
      by (intro failure_inv_stored failure_inv_step Cons.prems)
    from Cons.IH [OF this] show ?case by simp
  qed simp
  from this [of empty_failures] show ?thesis
    by (auto simp: failure_inv_def empty_failures_def list_all_iff hypothesis_ok_def)
qed

lemma add_files_known: "set known \<subseteq> set (add_files files known) \<and> prefix known (add_files files known)"
proof (induction files arbitrary: known)
  case (Cons f fs)
  let ?k = "if f \<noteq> [] \<and> f \<notin> set known then known @ [f] else known"
  have 1: "prefix known ?k" by simp
  have 2: "prefix ?k (add_files fs ?k)" using Cons.IH [of ?k] by blast
  have 3: "add_files (f # fs) known = add_files fs ?k" by (simp add: add_files_def)
  have "prefix known (add_files (f # fs) known)"
    unfolding 3 by (rule prefix_order.trans [OF 1 2])
  then show ?case using set_mono_prefix by blast
qed (simp add: add_files_def)

lemma negate_keeps:
  "prefix (fl_negated l) (fl_negated (negate_at i reason l))" "fl_regress (negate_at i reason l) = fl_regress l"
  using add_files_known [of "fl_negated l" "hy_files (fl_hyps l ! i)"] by (simp_all add: negate_at_def Let_def)

lemma charged_keeps:
  "fl_negated (snd (charged files note l)) = fl_negated l" "fl_regress (snd (charged files note l)) = fl_regress l"
  by (simp_all add: charged_def open_hypothesis_def split: option.split)

lemma note_keeps:
  "prefix (fl_negated l) (fl_negated (note_failure asserts vhash i l))"
  "fl_regress (note_failure asserts vhash i l) = fl_regress l"
proof -
  define h where "h = fl_hyps l ! i"
  define h' where "h' = h\<lparr>hy_counter := fold (\<lambda>a cs. if a \<in> set cs then cs else cs @ [a]) asserts (hy_counter h),
     hy_hashes := (if vhash \<noteq> [] \<and> vhash \<notin> set (hy_hashes h) then hy_hashes h @ [vhash] else hy_hashes h)\<rparr>"
  define l' where "l' = l\<lparr>fl_hyps := (fl_hyps l)[i := h']\<rparr>"
  have same: "fl_negated l' = fl_negated l" "fl_regress l' = fl_regress l" by (simp_all add: l'_def)
  define m where "m = (if vhash \<noteq> [] \<and> vhash = fl_hash l' \<and> hy_status h' = ''active'' then negate_at i ''repeated_counterexample'' l'
              else if length (hy_hashes h') \<ge> 2 \<and> length (remdups (keep_last 2 (hy_hashes h'))) = 1
              then negate_at i ''stagnant_verify_hash'' l'
              else l')"
  have m: "m \<in> {negate_at i ''repeated_counterexample'' l', negate_at i ''stagnant_verify_hash'' l', l'}"
    by (simp add: m_def)
  have eq: "note_failure asserts vhash i l = m\<lparr>fl_hash := (if vhash \<noteq> [] then vhash else fl_hash m)\<rparr>"
    unfolding note_failure_def Let_def h_def [symmetric] h'_def [symmetric] l'_def [symmetric] m_def ..
  show "prefix (fl_negated l) (fl_negated (note_failure asserts vhash i l))"
    "fl_regress (note_failure asserts vhash i l) = fl_regress l"
    using m negate_keeps [where l = l' and i = i] same by (auto simp: eq)
qed

lemma mark_keeps:
  "prefix (fl_negated l) (fl_negated (mark_regression files l))" "prefix (fl_regress l) (fl_regress (mark_regression files l))"
  using add_files_known by (simp_all add: mark_regression_def)

lemma update_keeps:
  "prefix (fl_negated l) (fl_negated (update_ledger files asserts vhash bucket regression l)) \<and>
   prefix (fl_regress l) (fl_regress (update_ledger files asserts vhash bucket regression l))"
proof -
  define l1 where "l1 = l\<lparr>fl_bucket := (if bucket \<noteq> [] then bucket else fl_bucket l)\<rparr>"
  have l1: "fl_negated l1 = fl_negated l" "fl_regress l1 = fl_regress l" by (simp_all add: l1_def)
  obtain i k where r: "charged files ''regression'' (mark_regression files l1) = (i, k)" by fastforce
  obtain j m where p: "charged files ''patch_attempt'' l1 = (j, m)" by fastforce
  have k: "prefix (fl_negated l) (fl_negated k)" "prefix (fl_regress l) (fl_regress k)"
    using charged_keeps [of files "''regression''" "mark_regression files l1"] mark_keeps [of l1 files]
    unfolding r l1 by simp_all
  have m: "fl_negated m = fl_negated l" "fl_regress m = fl_regress l"
    using charged_keeps [of files "''patch_attempt''" l1] by (simp_all add: p l1)
  have reg: "prefix (fl_negated l) (fl_negated (negate_at i ''introduced_regression'' k))"
      "prefix (fl_regress l) (fl_regress (negate_at i ''introduced_regression'' k))"
    using prefix_order.trans [OF k(1) negate_keeps(1)] k(2) by (simp_all add: negate_keeps(2))
  have pat: "prefix (fl_negated l) (fl_negated (note_failure asserts vhash j m))"
      "fl_regress (note_failure asserts vhash j m) = fl_regress l"
    using note_keeps [where l = m] m by simp_all
  have act: "prefix (fl_negated l) (fl_negated (note_failure asserts vhash n l1))"
      "fl_regress (note_failure asserts vhash n l1) = fl_regress l" for n
    using note_keeps [where l = l1] l1 by simp_all
  show ?thesis
    unfolding update_ledger_def Let_def l1_def [symmetric]
    using reg pat act l1 by (simp add: r p split: option.split)
qed

lemma prefix_take_same: "prefix xs ys \<Longrightarrow> length xs \<le> n \<Longrightarrow> prefix xs (take n ys)"
  by (auto simp: prefix_def)

definition stored_size :: "failure_ledger \<Rightarrow> bool" where
  "stored_size l \<longleftrightarrow> length (fl_negated l) \<le> 12 \<and> length (fl_regress l) \<le> 12"

text \<open>A file stays forbidden: whatever is recorded, a file that a stored ledger forbids is forbidden in every
  later one.  The price of the bound: when twelve files are negated, no further file is, however often
  a patch to it fails.\<close>

theorem forbidden_files_kept:
  assumes "stored_size l"
  shows "set (forbidden_files l) \<subseteq> set (forbidden_files (fold (failure_step ou) es l)) \<and>
    (length (fl_negated l) = 12 \<longrightarrow> fl_negated (fold (failure_step ou) es l) = fl_negated l)"
proof -
  have step: "stored_size (failure_step ou e l) \<and> prefix (fl_negated l) (fl_negated (failure_step ou e l)) \<and>
      prefix (fl_regress l) (fl_regress (failure_step ou e l))" if "stored_size l" for e l
  proof -
    obtain patches result bucket regression where e: "e = (patches, result, bucket, regression)" by (cases e) auto
    let ?u = "update_ledger (patch_files patches) (assertions result) (verify_hash ou result) bucket regression l"
    have "prefix (fl_negated l) (take 12 (fl_negated ?u))" "prefix (fl_regress l) (take 12 (fl_regress ?u))"
      using that update_keeps [of l] by (auto simp: stored_size_def intro: prefix_take_same)
    then show ?thesis by (simp add: e record_verify_into_ledger_def stored_ledger_def stored_size_def)
  qed
  have run: "stored_size (fold (failure_step ou) es l) \<and> prefix (fl_negated l) (fl_negated (fold (failure_step ou) es l)) \<and>
      prefix (fl_regress l) (fl_regress (fold (failure_step ou) es l))" if "stored_size l" for l
    using that
  proof (induction es arbitrary: l)
    case (Cons e es)
    note 1 = step [OF Cons.prems, of e]
    note 2 = Cons.IH [of "failure_step ou e l"]
    from 1 2 show ?case
      using prefix_order.trans [of "fl_negated l" "fl_negated (failure_step ou e l)"]
        prefix_order.trans [of "fl_regress l" "fl_regress (failure_step ou e l)"] by simp
  qed simp
  have "fl_negated (fold (failure_step ou) es l) = fl_negated l" if "length (fl_negated l) = 12"
    using run [OF assms] that by (auto simp: prefix_def stored_size_def)
  then show ?thesis
    using run [OF assms] set_mono_prefix by (fastforce simp: forbidden_files_def)
qed

text \<open>A hypothesis is negated at once when the failure did not change: a first attempt at new files whose
  failure equals the last one recorded is negated and its files are forbidden, although this hypothesis
  has failed only once.\<close>

theorem unchanged_failure_negates_new_hypothesis:
  assumes "files \<noteq> []" "vhash \<noteq> []" "vhash = fl_hash l" "bucket \<noteq> ''env''" "bucket \<noteq> ''collect''"
    and "case active_index l of Some i \<Rightarrow> set (hy_files (fl_hyps l ! i)) \<noteq> set files | None \<Rightarrow> True"
  shows "hy_files (last (fl_hyps (update_ledger files asserts vhash bucket False l))) = files \<and>
    hy_status (last (fl_hyps (update_ledger files asserts vhash bucket False l))) = ''negated'' \<and>
    set (filter (\<lambda>f. f \<noteq> []) files) \<subseteq> set (fl_negated (update_ledger files asserts vhash bucket False l))"
proof -
  define l1 where "l1 = l\<lparr>fl_bucket := (if bucket \<noteq> [] then bucket else fl_bucket l)\<rparr>"
  have charged: "charged files ''patch_attempt'' l1 = (length (fl_hyps l1), open_hypothesis files ''patch_attempt'' l1)"
    using assms(6) by (auto simp: charged_def l1_def active_index_def split: option.splits)
  have added: "f \<in> set fs \<Longrightarrow> f \<noteq> [] \<Longrightarrow> f \<in> set (add_files fs known)" for f fs known
  proof (induction fs arbitrary: known)
    case (Cons g gs)
    show ?case
    proof (cases "f = g")
      case True
      then have "f \<in> set (if g \<noteq> [] \<and> g \<notin> set known then known @ [g] else known)" using Cons.prems by auto
      then show ?thesis
        using add_files_known [of "if g \<noteq> [] \<and> g \<notin> set known then known @ [g] else known" gs]
        by (auto simp: add_files_def)
    next
      case False
      then show ?thesis using Cons.IH Cons.prems by (simp add: add_files_def)
    qed
  qed simp
  have "update_ledger files asserts vhash bucket False l =
      note_failure asserts vhash (length (fl_hyps l1)) (open_hypothesis files ''patch_attempt'' l1)"
    using assms(1,4,5) by (simp add: update_ledger_def Let_def l1_def [symmetric] charged)
  moreover have "fl_hash (open_hypothesis files ''patch_attempt'' l1) = vhash"
    using assms(3) by (simp add: open_hypothesis_def l1_def)
  ultimately show ?thesis
    using assms(2) added
    by (auto simp: note_failure_def open_hypothesis_def negate_at_def Let_def nth_append list_update_append)
qed

lemma forbidden_files_kept_witness:
  "''a.py'' \<in> set (forbidden_files (fold (failure_step plain_outside)
      [([small_patch ''+x''], Some (failing_run ''assert 1''), ''logic'', False)] (empty_failures\<lparr>fl_regress := [''a.py'']\<rparr>)))"
  using forbidden_files_kept [of "empty_failures\<lparr>fl_regress := [''a.py'']\<rparr>" plain_outside
      "[([small_patch ''+x''], Some (failing_run ''assert 1''), ''logic'', False)]"]
  by (simp add: stored_size_def empty_failures_def forbidden_files_def)

lemma unchanged_failure_negates_new_hypothesis_witness:
  "''b.py'' \<in> set (fl_negated (update_ledger [''b.py''] [] ''h'' ''logic'' False
      (open_hypothesis [''a.py''] ''patch_attempt'' (empty_failures\<lparr>fl_hash := ''h''\<rparr>))))"
  using unchanged_failure_negates_new_hypothesis [of "[''b.py'']" "''h''"
      "open_hypothesis [''a.py''] ''patch_attempt'' (empty_failures\<lparr>fl_hash := ''h''\<rparr>)" "''logic''" "[]"]
  by (simp add: open_hypothesis_def empty_failures_def active_index_def)

end
