(* ===== verification/RepairOutcome.thy ===== *)
theory RepairOutcome
  imports RepairProgress
begin

text \<open>
  How a repair ends: the terminal status (\<open>src/repair/verification/termination.py\<close>), the exit code of the
  command (\<open>src/cli_exit_codes.py\<close>) and how the verification service classifies a run
  (\<open>src/repair/verification/service.py\<close>, \<open>controller.py\<close>).  The failure tags are left out.
\<close>

subsection \<open>The outcome of a verification run\<close>

record verify_run =
  vn_result :: verification_result
  vn_error :: string
  vn_category :: string
  vn_not_started :: bool
  vn_static :: bool
  vn_completed :: bool

definition verification_outcome :: "verify_run \<Rightarrow> exec_status" where
  "verification_outcome v =
     (if vn_error v \<in> {''user_cancel'', ''cancelled''} \<or> vn_category v \<in> {''cancelled'', ''user_cancel'', ''interrupted''}
      then XCancelled
      else if contains ''timeout'' (vn_category v) \<or> contains ''timeout'' (vn_error v) then XTimedOut
      else if vn_not_started v \<or> vn_category v \<in> {''verification_environment_failed'', ''sandbox_unavailable'', ''environment''}
      then XEnvironmentUnavailable
      else if vn_category v = ''no-tests'' then XUnverified
      else if vn_static v \<or> \<not> vn_completed v then XUnverified
      else if vr_all_passed (vn_result v) \<and> vr_total_tests (vn_result v) > 0 then XPassed
      else XFailed)"

definition service_result :: "verify_run \<Rightarrow> verification_result" where
  "service_result v =
     (vn_result v)\<lparr>vr_execution_status := verification_outcome v,
       vr_all_passed := (verification_outcome v = XPassed)\<rparr>"

definition run_verifier :: "int \<Rightarrow> verify_run \<Rightarrow> verification_result" where
  "run_verifier minimum v =
    (let r = service_result v in
     if vr_execution_status r \<noteq> XPassed \<or> vr_total_tests r < minimum then r\<lparr>vr_all_passed := False\<rparr> else r)"

definition verified :: "verification_result option \<Rightarrow> bool" where
  "verified r \<longleftrightarrow> (case r of
     Some v \<Rightarrow> vr_execution_status v = XPassed \<and> vr_all_passed v \<and> vr_total_tests v > 0 | None \<Rightarrow> False)"

subsection \<open>The terminal status\<close>

definition NON_TERMINAL_STATUSES :: "repair_status list" where
  "NON_TERMINAL_STATUSES = [StPending, StWaitingApproval]"

definition is_terminal :: "repair_status \<Rightarrow> bool" where
  "is_terminal st \<longleftrightarrow> st \<notin> set NON_TERMINAL_STATUSES"

definition control_terminal_status :: "repair_state \<Rightarrow> repair_status option" where
  "control_terminal_status s =
     (if rs_status s = StRecoveryRequired \<or> ctl_coordination_status (rs_control s) = ''recovery_required''
      then Some StRecoveryRequired
      else if rs_status s = StUserCancel \<or> ctl_user_cancel (rs_control s) then Some StUserCancel
      else None)"

definition has_repair_timeout :: "repair_state \<Rightarrow> bool" where
  "has_repair_timeout s \<longleftrightarrow> control_terminal_status s = None \<and>
     (rs_status s = StTimeout \<or> ctl_repair_timeout (rs_control s) \<noteq> 0 \<or> ctl_phase_timeout (rs_control s) \<noteq> [])"

definition regression_detected :: "int option \<Rightarrow> int option \<Rightarrow> bool" where
  "regression_detected pre post \<longleftrightarrow>
     (case (pre, post) of (Some a, Some b) \<Rightarrow> a = 0 \<and> b \<noteq> 0 | _ \<Rightarrow> False)"

definition introduced_regression :: "repair_state \<Rightarrow> bool" where
  "introduced_regression s \<longleftrightarrow> ctl_introduced_regression (rs_control s) \<or>
     regression_detected (ctl_baseline_pytest_code (rs_control s)) (ctl_post_patch_pytest_code (rs_control s))"

definition resolve_terminal_status :: "repair_state \<Rightarrow> repair_status" where
  "resolve_terminal_status s =
     (case control_terminal_status s of
        Some st \<Rightarrow> st
      | None \<Rightarrow>
         if has_repair_timeout s then StTimeout
         else if rs_status s = StWaitingApproval then StWaitingApproval
         else if rs_status s = StFixed then (if verified (rs_verification_result s) then StFixed else StPendingVerify)
         else if introduced_regression s then StRegression
         else if has_stop_loss s \<or> rs_retry_count s \<ge> rs_max_retries s then StExhausted
         else if is_terminal (rs_status s) then rs_status s
         else StFailed)"

definition is_repair_success :: "repair_state \<Rightarrow> bool" where
  "is_repair_success s \<longleftrightarrow> resolve_terminal_status s = StFixed \<and> rs_candidate_patches s \<noteq> []"

definition has_actionable_patch :: "repair_state \<Rightarrow> bool" where
  "has_actionable_patch s \<longleftrightarrow> rs_candidate_patches s \<noteq> [] \<and> resolve_terminal_status s \<in> {StFixed, StPendingVerify}"

definition mark_pending_verify :: "string \<Rightarrow> repair_state \<Rightarrow> repair_state" where
  "mark_pending_verify reason s =
    (let s = set_status StPendingVerify reason s in
     s\<lparr>rs_control := (rs_control s)\<lparr>ctl_verify_skipped := True, ctl_verify_skipped_reason := reason\<rparr>\<rparr>)"

definition apply_terminal_status :: "repair_state \<Rightarrow> repair_state" where
  "apply_terminal_status s =
    (let st = resolve_terminal_status s;
         s = (if st = StRegression then s\<lparr>rs_control := (rs_control s)\<lparr>ctl_introduced_regression := True\<rparr>\<rparr> else s)
     in set_status st (''terminal:'' @ status_value st) s)"

definition repair_exit_code :: "repair_state \<Rightarrow> int" where
  "repair_exit_code s =
     (if resolve_terminal_status s = StTimeout then 3
      else if resolve_terminal_status s = StWaitingApproval then 4
      else if has_actionable_patch s then 0 else 1)"

subsection \<open>What success means\<close>

text \<open>C2. A repair counts as a success exactly when its status is fixed, it has a patch, its verification ran to the
  end with at least one test and all tests passed, and neither cancellation, recovery nor a timeout was
  recorded.\<close>

theorem success_is_verified:
  "is_repair_success s \<longleftrightarrow> rs_status s = StFixed \<and> rs_candidate_patches s \<noteq> [] \<and>
     verified (rs_verification_result s) \<and> ctl_coordination_status (rs_control s) \<noteq> ''recovery_required'' \<and>
     \<not> ctl_user_cancel (rs_control s) \<and> ctl_repair_timeout (rs_control s) = 0 \<and> ctl_phase_timeout (rs_control s) = []"
  unfolding is_repair_success_def resolve_terminal_status_def has_repair_timeout_def control_terminal_status_def
    is_terminal_def NON_TERMINAL_STATUSES_def
  by (cases "rs_status s") (simp_all split: if_splits)

lemma apply_status_control:
  "resolve_terminal_status s \<noteq> StRegression \<Longrightarrow>
     rs_control (apply_terminal_status s) = rs_control s \<and> introduced_regression (apply_terminal_status s) = introduced_regression s"
  by (simp add: apply_terminal_status_def introduced_regression_def Let_def)

lemma apply_status_frame [simp]:
  "rs_status (apply_terminal_status s) = resolve_terminal_status s"
  "rs_verification_result (apply_terminal_status s) = rs_verification_result s"
  "rs_retry_count (apply_terminal_status s) = rs_retry_count s"
  "rs_max_retries (apply_terminal_status s) = rs_max_retries s"
  "rs_candidate_patches (apply_terminal_status s) = rs_candidate_patches s"
  "has_stop_loss (apply_terminal_status s) = has_stop_loss s"
  "ctl_coordination_status (rs_control (apply_terminal_status s)) = ctl_coordination_status (rs_control s)"
  "ctl_user_cancel (rs_control (apply_terminal_status s)) = ctl_user_cancel (rs_control s)"
  "ctl_repair_timeout (rs_control (apply_terminal_status s)) = ctl_repair_timeout (rs_control s)"
  "ctl_phase_timeout (rs_control (apply_terminal_status s)) = ctl_phase_timeout (rs_control s)"
  by (simp_all add: apply_terminal_status_def has_stop_loss_def Let_def)

lemma apply_status_regression:
  "introduced_regression (apply_terminal_status s) \<longleftrightarrow> resolve_terminal_status s = StRegression \<or> introduced_regression s"
  by (auto simp: apply_terminal_status_def introduced_regression_def Let_def)

text \<open>Finalising is stable, except for a fixed repair that was never verified: the report and the exit code
  resolve the status again after it was applied, and get the same status unless an unverified fixed
  repair (which becomes pending verification) also has a recorded regression, a stop-loss or no
  retries left; then the second look gives another status.\<close>

theorem finalization_stable_iff:
  "resolve_terminal_status (apply_terminal_status s) = resolve_terminal_status s \<longleftrightarrow>
     \<not> (rs_status s = StFixed \<and> resolve_terminal_status s = StPendingVerify \<and>
        (introduced_regression s \<or> has_stop_loss s \<or> rs_retry_count s \<ge> rs_max_retries s))"
proof -
  let ?r = "resolve_terminal_status s" and ?t = "apply_terminal_status s"
  have second: "resolve_terminal_status ?t =
     (if ?r = StRecoveryRequired \<or> ctl_coordination_status (rs_control s) = ''recovery_required'' then StRecoveryRequired
      else if ?r = StUserCancel \<or> ctl_user_cancel (rs_control s) then StUserCancel
      else if ?r = StTimeout \<or> ctl_repair_timeout (rs_control s) \<noteq> 0 \<or> ctl_phase_timeout (rs_control s) \<noteq> [] then StTimeout
      else if ?r = StWaitingApproval then StWaitingApproval
      else if ?r = StFixed then (if verified (rs_verification_result s) then StFixed else StPendingVerify)
      else if ?r = StRegression \<or> introduced_regression s then StRegression
      else if has_stop_loss s \<or> rs_retry_count s \<ge> rs_max_retries s then StExhausted
      else if is_terminal ?r then ?r else StFailed)"
    unfolding resolve_terminal_status_def [of ?t] has_repair_timeout_def control_terminal_status_def
    by (auto simp: apply_status_regression)
  show ?thesis
    unfolding second
    unfolding resolve_terminal_status_def has_repair_timeout_def control_terminal_status_def
    by (cases "rs_status s") (auto simp: is_terminal_def NON_TERMINAL_STATUSES_def)
qed

lemma pass_verified:
  assumes "vr_all_passed (run_verifier minimum v)"
  shows "verified (Some (run_verifier minimum v)) \<and> vn_completed v \<and> \<not> vn_static v \<and>
    vr_all_passed (vn_result v) \<and> minimum \<le> vr_total_tests (vn_result v)"
proof -
  have passed: "verification_outcome v = XPassed" "minimum \<le> vr_total_tests (vn_result v)"
    using assms by (auto simp: run_verifier_def service_result_def Let_def split: if_splits)
  then have "vn_completed v \<and> \<not> vn_static v \<and> vr_all_passed (vn_result v) \<and> vr_total_tests (vn_result v) > 0"
    by (auto simp: verification_outcome_def split: if_splits)
  with passed assms show ?thesis
    by (auto simp: verified_def run_verifier_def service_result_def Let_def split: if_splits)
qed

text \<open>A run whose verifier reports success is verified: whatever the strategy returned, all tests passed
  is only reported for a completed, non-static run in which at least one test, and the requested
  number, passed.\<close>

theorem reported_pass_is_real:
  assumes "vr_all_passed (run_verifier minimum v)"
  shows "verified (Some (run_verifier minimum v)) \<and> vn_completed v \<and> \<not> vn_static v \<and>
    vr_all_passed (vn_result v) \<and> minimum \<le> vr_total_tests (vn_result v)"
  using assms by (rule pass_verified)

definition good_run :: verify_run where
  "good_run = \<lparr>vn_result = (failing_run [])\<lparr>vr_all_passed := True\<rparr>, vn_error = [], vn_category = ''tests'', vn_not_started = False,
     vn_static = False, vn_completed = True\<rparr>"

lemma reported_pass_is_real_witness:
  "verified (Some (run_verifier 1 good_run))"
proof -
  have "vr_all_passed (run_verifier 1 good_run)"
    by (simp add: run_verifier_def service_result_def verification_outcome_def good_run_def failing_run_def starts_with_def)
  from reported_pass_is_real [OF this] show ?thesis by blast
qed

end
