(* ===== verification/SensitivePaths.thy ===== *)
theory SensitivePaths
  imports HistoryItems StepGuard
begin

text \<open>
  Which paths the tools must not touch: \<open>agent_runtime/sensitive_paths.py\<close>, and the validation of
  workspace paths in \<open>agent_runtime/linux_sandbox/workspace_contract.py\<close> (\<open>relative_path\<close>).  Paths are
  ASCII; of the shell patterns only literal characters and the star occur.
\<close>

subsection \<open>Patterns and path components\<close>

text \<open>\<open>fnmatch.fnmatch\<close> on patterns without question marks and brackets.\<close>

fun glob :: "string \<Rightarrow> string \<Rightarrow> bool" where
  "glob [] s \<longleftrightarrow> s = []"
| "glob (p # ps) [] \<longleftrightarrow> p = CHR ''*'' \<and> glob ps []"
| "glob (p # ps) (c # s) \<longleftrightarrow>
     (if p = CHR ''*'' then glob ps (c # s) \<or> glob (p # ps) s else p = c \<and> glob ps s)"

definition dot_or_slash :: "char \<Rightarrow> bool" where
  "dot_or_slash c \<longleftrightarrow> c = CHR ''.'' \<or> c = CHR ''/''"

text \<open>\<open>s.lstrip("./")\<close>\<close>

definition strip_dots :: "string \<Rightarrow> string" where
  "strip_dots s = dropWhile dot_or_slash s"

text \<open>\<open>PurePosixPath(s).parts\<close> without the root, and \<open>Path(s).name\<close>.\<close>

definition path_parts :: "string \<Rightarrow> string list" where
  "path_parts s = filter (\<lambda>w. w \<noteq> [] \<and> w \<noteq> ''.'') (split_on (CHR ''/'') s)"

definition path_name :: "string \<Rightarrow> string" where
  "path_name s = (if path_parts s = [] then [] else last (path_parts s))"

subsection \<open>The policy\<close>

definition SENSITIVE_BASENAME_GLOBS :: "string list" where
  "SENSITIVE_BASENAME_GLOBS = [''.env'', ''.env.*'', ''*.pem'', ''*.key'', ''*.p12'', ''*.pfx'', ''id_rsa'', ''id_rsa.*'',
     ''id_ed25519'', ''id_ed25519.*'', ''credentials'', ''credentials.*'', ''credentials.json'',
     ''service-account*.json'', ''*.keystore'', ''secrets.yaml'', ''secrets.yml'', ''secrets.json'']"

definition SENSITIVE_PATH_SUBSTRINGS :: "string list" where
  "SENSITIVE_PATH_SUBSTRINGS = [''/.ssh/'', [CHR 0x5C] @ ''.ssh'' @ [CHR 0x5C], ''/.aws/'',
     [CHR 0x5C] @ ''.aws'' @ [CHR 0x5C], ''/.gnupg/'', [CHR 0x5C] @ ''.gnupg'' @ [CHR 0x5C]]"

definition PROTECTED_PATH_COMPONENTS :: "string list" where
  "PROTECTED_PATH_COMPONENTS = [''.git'', ''.agent'']"

definition SENSITIVE_PATH_GLOBS :: "string list" where
  "SENSITIVE_PATH_GLOBS = [''.git/config'', ''.gitmodules'', ''.npmrc'', ''.pypirc'', ''.docker/config.json'',
     ''.terraformrc'', ''*.tfvars'', ''*.tfvars.json'', ''kubeconfig'', ''*/kubeconfig'', ''.github/workflows/*'',
     ''.gitlab-ci.yml'', ''.circleci/config.yml'', ''azure-pipelines.yml'', ''Jenkinsfile'',
     ''docker-compose*.yml'', ''docker-compose*.yaml'']"

definition path_pattern_hits :: "string \<Rightarrow> string \<Rightarrow> bool" where
  "path_pattern_hits normalized pat \<longleftrightarrow> glob (casefold pat) normalized \<or> glob (strip_dots (casefold pat)) normalized \<or>
     glob (''*/'' @ strip_dots (casefold pat)) normalized"

definition name_pattern_hits :: "string \<Rightarrow> string \<Rightarrow> bool" where
  "name_pattern_hits name pat \<longleftrightarrow> glob pat name \<or> glob (casefold pat) (casefold name)"

text \<open>\<open>re.fullmatch(r"\.env(\..+)?", name, re.I)\<close>\<close>

definition env_variant :: "string \<Rightarrow> bool" where
  "env_variant name \<longleftrightarrow> casefold name = ''.env'' \<or>
     starts_with (casefold name) ''.env.'' \<and> length name > 5 \<and> LF \<notin> set (drop 5 name)"

definition is_sensitive_path :: "string \<Rightarrow> bool" where
  "is_sensitive_path path =
    (let t = forward_slashes path; lower = casefold t; name = path_name t in
     t \<noteq> [] \<and>
     (list_ex (\<lambda>sub. contains (casefold (forward_slashes sub)) lower) SENSITIVE_PATH_SUBSTRINGS \<or>
      list_ex (\<lambda>w. casefold w \<in> set PROTECTED_PATH_COMPONENTS) (path_parts t) \<or>
      list_ex (path_pattern_hits (strip_dots lower)) SENSITIVE_PATH_GLOBS \<or>
      list_ex (name_pattern_hits name) SENSITIVE_BASENAME_GLOBS \<or> env_variant name))"

text \<open>The name of the tool makes no difference: every branch returns the same code.\<close>

definition check_sensitive_access :: "string \<Rightarrow> string \<Rightarrow> string option" where
  "check_sensitive_access tool path =
     (if path = [] then None else if \<not> is_sensitive_path path then None else Some ''sensitive_path'')"

subsection \<open>Workspace paths\<close>

definition RESERVED_NAMES :: "string list" where
  "RESERVED_NAMES = [''con'', ''prn'', ''aux'', ''nul''] @ map (\<lambda>i. ''com'' @ nat_str i) [1..<10] @ map (\<lambda>i. ''lpt'' @ nat_str i) [1..<10]"

definition WORKSPACE_PROTECTED :: "string list" where
  "WORKSPACE_PROTECTED = [''.git'', ''.agent'', ''.aws'', ''.ssh'', ''.gnupg'']"

definition bad_component :: "string \<Rightarrow> bool" where
  "bad_component w \<longleftrightarrow> w \<in> {[], ''.'', ''..''} \<or> list_ex (\<lambda>c. c \<in> set '':*?<>|'' \<or> c = CHR 0x22 \<or> of_char c < (32 :: nat)) w \<or>
     ends_with w ''.'' \<or> ends_with w '' '' \<or> casefold (hd (split_on (CHR ''.'') w)) \<in> set RESERVED_NAMES"

definition protected_component :: "string \<Rightarrow> bool" where
  "protected_component w \<longleftrightarrow> casefold w \<in> set WORKSPACE_PROTECTED \<or> starts_with (casefold w) ''.fixloop-s0-private-'' \<or>
     starts_with (casefold w) ''.fixloop-private-'' \<or> is_sensitive_path w"

text \<open>\<open>relative_path\<close> without \<open>allow_root\<close>.\<close>

definition relative_path :: "string \<Rightarrow> string res" where
  "relative_path raw =
    (if raw = [] \<or> length raw > 4096 \<or> NUL \<in> set raw then raise (ValueError ''workspace_mapping_rejected: invalid relative path'')
     else
      (let v = forward_slashes raw; ws = split_on (CHR ''/'') v in
       if starts_with v ''/'' \<or> list_ex bad_component ws
       then raise (ValueError ''workspace_mapping_rejected: relative paths required'')
       else if is_sensitive_path v \<or> list_ex protected_component (path_parts v)
       then raise (ValueError ''sensitive_path: protected workspace path'')
       else ok (join_with ''/'' (path_parts v))))"


subsection \<open>Patterns under case folding and prefixes\<close>

lemma glob_Nil_iff: "glob p [] \<longleftrightarrow> list_all (\<lambda>c. c = CHR ''*'') p"
  by (induction p) auto

lemma lower_other: "\<not> (65 \<le> (of_char c :: nat) \<and> (of_char c :: nat) \<le> 90) \<Longrightarrow> lower_char c = c"
  unfolding lower_char_def by (rule if_not_P)

lemma lower_char_idem [simp]: "lower_char (lower_char c) = lower_char c"
proof (cases "65 \<le> (of_char c :: nat) \<and> (of_char c :: nat) \<le> 90")
  case True
  then have "(of_char (char_of ((of_char c :: nat) + 32) :: char) :: nat) = of_char c + 32"
    by simp
  then show ?thesis using True by (simp add: lower_char_def)
next
  case False
  then have "lower_char c = c" by (rule lower_other)
  then show ?thesis by simp
qed

lemma casefold_idem [simp]: "casefold (casefold s) = casefold s"
  by (simp add: casefold_def)

lemma casefold_Nil [simp]: "casefold [] = []"
  by (simp add: casefold_def)

lemma casefold_append: "casefold (s @ t) = casefold s @ casefold t"
  by (simp add: casefold_def)

text \<open>The characters the policy looks at have no upper case.\<close>

definition caseless :: "char \<Rightarrow> bool" where
  "caseless d \<longleftrightarrow> (\<forall>c. lower_char c = d \<longrightarrow> c = d)"

lemma caselessI:
  assumes "lower_char d = d" "\<not> (97 \<le> (of_char d :: nat) \<and> (of_char d :: nat) \<le> 122)"
  shows "caseless d"
  unfolding caseless_def
proof (intro allI impI)
  fix c assume c: "lower_char c = d"
  show "c = d"
  proof (cases "65 \<le> (of_char c :: nat) \<and> (of_char c :: nat) \<le> 90")
    case True
    then have "(of_char d :: nat) = of_char c + 32" using c by (auto simp: lower_char_def)
    then show ?thesis using True assms(2) by simp
  next
    case False
    then have "lower_char c = c" by (rule lower_other)
    then show ?thesis using c by simp
  qed
qed

lemma caseless_chars [simp]: "caseless (CHR ''/'')" "caseless (CHR ''.'')" "caseless (CHR 0x5C)" "caseless LF"
  by (rule caselessI; simp add: lower_char_def)+

lemma caseless_iff: "caseless d \<Longrightarrow> lower_char d = d \<Longrightarrow> lower_char c = d \<longleftrightarrow> c = d"
  unfolding caseless_def by blast

lemma lower_fixed [simp]: "lower_char (CHR ''/'') = CHR ''/''" "lower_char (CHR ''.'') = CHR ''.''"
  "lower_char (CHR 0x5C) = CHR 0x5C" "lower_char LF = LF"
  by (simp_all add: lower_char_def)

lemma lower_iff [simp]: "lower_char c = CHR ''/'' \<longleftrightarrow> c = CHR ''/''" "lower_char c = CHR ''.'' \<longleftrightarrow> c = CHR ''.''"
  "lower_char c = CHR 0x5C \<longleftrightarrow> c = CHR 0x5C" "lower_char c = LF \<longleftrightarrow> c = LF"
  by (simp_all add: caseless_iff)

lemma forward_slashes_casefold: "forward_slashes (casefold s) = casefold (forward_slashes s)"
  by (auto simp: forward_slashes_def casefold_def)

lemma split_on_casefold: "split_on (CHR ''/'') (casefold s) = map casefold (split_on (CHR ''/'') s)"
  by (induction s) (auto simp: casefold_def split: list.splits)

lemma casefold_eq_dot [simp]: "casefold w = ''.'' \<longleftrightarrow> w = ''.''" "casefold w = [] \<longleftrightarrow> w = []"
  by (cases w; simp add: casefold_def)+

lemma path_parts_casefold: "path_parts (casefold s) = map casefold (path_parts s)"
  by (simp add: path_parts_def split_on_casefold filter_map comp_def)

lemma path_name_casefold: "path_name (casefold s) = casefold (path_name s)"
  by (cases "path_parts s") (auto simp: path_name_def path_parts_casefold last_map)

lemma glob_casefold: "casefold p = p \<Longrightarrow> glob p s \<Longrightarrow> glob p (casefold s)"
proof (induction p s rule: glob.induct)
  case (3 p ps c s)
  have p: "lower_char p = p" "casefold ps = ps" using 3(4) by (simp_all add: casefold_def)
  show ?case
  proof (cases "p = CHR ''*''")
    case True
    then show ?thesis using 3(1,2) 3(4,5) p by (auto simp: casefold_def)
  next
    case False
    then show ?thesis using 3(3) 3(5) p by (auto simp: casefold_def)
  qed
qed (auto simp: casefold_def)

text \<open>Upper-case letters in a path change nothing.\<close>

lemma lower_names: "list_all (\<lambda>p. casefold p = p) SENSITIVE_BASENAME_GLOBS"
  by code_simp

lemma name_hits_casefold:
  assumes "casefold pat = pat"
  shows "name_pattern_hits (casefold name) pat \<longleftrightarrow> name_pattern_hits name pat"
  using glob_casefold [OF assms, of name] by (auto simp: name_pattern_hits_def assms)

lemma env_variant_casefold [simp]: "env_variant (casefold name) \<longleftrightarrow> env_variant name"
proof -
  have "LF \<in> set (drop 5 (casefold name)) \<longleftrightarrow> LF \<in> set (drop 5 name)"
    by (auto simp: casefold_def drop_map image_iff) (metis lower_iff(4))+
  then show ?thesis by (simp add: env_variant_def) (simp add: casefold_def)
qed

text \<open>The policy does not depend on upper and lower case.\<close>

theorem sensitive_ignores_case: "is_sensitive_path (casefold path) \<longleftrightarrow> is_sensitive_path path"
proof -
  have names: "list_ex (name_pattern_hits (casefold n)) SENSITIVE_BASENAME_GLOBS =
      list_ex (name_pattern_hits n) SENSITIVE_BASENAME_GLOBS" for n
    using lower_names name_hits_casefold unfolding list_ex_iff list_all_iff by blast
  have parts: "list_ex (\<lambda>w. casefold w \<in> A) (map casefold ws) = list_ex (\<lambda>w. casefold w \<in> A) ws" for A ws
    by (induction ws) auto
  show ?thesis
    unfolding is_sensitive_path_def Let_def forward_slashes_casefold path_parts_casefold path_name_casefold names parts
    by simp
qed


subsection \<open>Sub-directories\<close>

lemma glob_star_skip: "glob (CHR ''*'' # ps) s \<Longrightarrow> glob (CHR ''*'' # ps) (t @ s)"
  by (induction t) auto

lemma glob_star_any: "glob ps s \<Longrightarrow> glob (CHR ''*'' # ps) s"
  by (cases s) auto

lemma glob_star_prefix: "glob ps s \<Longrightarrow> glob (CHR ''*'' # ps) (t @ s)"
  by (rule glob_star_skip [OF glob_star_any])

lemma glob_strip_dots:
  assumes "glob pat s" "s \<noteq> []" "\<not> dot_or_slash (hd s)"
  shows "glob (strip_dots pat) s"
  using assms by (cases pat; cases s) (auto simp: strip_dots_def dot_or_slash_def split: if_splits)

lemma contains_prefix: "contains p s \<Longrightarrow> contains p (t @ s)"
  by (induction t) auto

lemma split_on_slash: "split_on c (d @ c # p) = split_on c d @ split_on c p"
  by (induction d) (auto split: list.splits)

lemma path_parts_below: "path_parts (d @ CHR ''/'' # p) = path_parts d @ path_parts p"
  by (simp add: path_parts_def split_on_slash)

lemma parts_nonempty:
  assumes "p \<noteq> []" "\<not> dot_or_slash (hd p)"
  shows "path_parts p \<noteq> []"
proof -
  obtain c s where p: "p = c # s" "c \<noteq> CHR ''/''" "c \<noteq> CHR ''.''"
    using assms by (cases p) (auto simp: dot_or_slash_def)
  obtain w ws where "split_on (CHR ''/'') p = (c # w) # ws"
    using p by (cases "split_on (CHR ''/'') s") auto
  then show ?thesis using p by (simp add: path_parts_def)
qed

lemma pattern_hits_below:
  assumes "path_pattern_hits s pat" "s \<noteq> []" "\<not> dot_or_slash (hd s)"
  shows "path_pattern_hits (t @ CHR ''/'' # s) pat"
proof -
  have "glob (strip_dots (casefold pat)) s \<or> glob (''*/'' @ strip_dots (casefold pat)) s"
    using assms glob_strip_dots by (auto simp: path_pattern_hits_def)
  then have "glob (CHR ''*'' # CHR ''/'' # strip_dots (casefold pat)) (t @ CHR ''/'' # s)"
  proof
    assume "glob (strip_dots (casefold pat)) s"
    then show ?thesis by (intro glob_star_prefix) simp
  next
    assume "glob (''*/'' @ strip_dots (casefold pat)) s"
    then show ?thesis using glob_star_skip [of "CHR ''/'' # strip_dots (casefold pat)" s "t @ ''/''"] by simp
  qed
  then show ?thesis by (simp add: path_pattern_hits_def)
qed

lemma strip_dots_below:
  assumes "s \<noteq> []" "\<not> dot_or_slash (hd s)"
  shows "strip_dots (t @ CHR ''/'' # s) = s \<or> (\<exists>t'. strip_dots (t @ CHR ''/'' # s) = t' @ CHR ''/'' # s)"
proof -
  have "strip_dots s = s" using assms by (cases s) (simp_all add: strip_dots_def)
  then show ?thesis by (induction t) (auto simp: strip_dots_def dot_or_slash_def)
qed

text \<open>A sensitive path stays sensitive in every directory it may be put in, provided it does not start
  with a dot or slash (for those that do, see the examples below).\<close>

theorem sensitive_in_every_directory:
  assumes "is_sensitive_path p" "\<not> dot_or_slash (hd (forward_slashes p))"
  shows "is_sensitive_path (d @ ''/'' @ p)"
proof -
  let ?p = "forward_slashes p" and ?d = "forward_slashes d"
  have t: "forward_slashes (d @ ''/'' @ p) = ?d @ CHR ''/'' # ?p" by (simp add: forward_slashes_def)
  have ne: "?p \<noteq> []" using assms(1) by (auto simp: is_sensitive_path_def Let_def)
  have low: "casefold ?p \<noteq> []" "\<not> dot_or_slash (hd (casefold ?p))"
    using ne assms(2) by (cases ?p; simp add: casefold_def dot_or_slash_def)+
  have name: "path_name (?d @ CHR ''/'' # ?p) = path_name ?p"
    using parts_nonempty [OF ne assms(2)] by (simp add: path_name_def path_parts_below)
  have fold: "casefold (?d @ CHR ''/'' # ?p) = casefold ?d @ CHR ''/'' # casefold ?p"
    by (simp add: casefold_def)
  have same: "strip_dots (casefold ?p) = casefold ?p"
    using low by (cases "casefold ?p") (simp_all add: strip_dots_def)
  have glob: "path_pattern_hits (strip_dots (casefold ?d @ CHR ''/'' # casefold ?p)) pat"
    if "path_pattern_hits (strip_dots (casefold ?p)) pat" for pat
    using that pattern_hits_below [OF _ low] strip_dots_below [OF low, of "casefold ?d"] unfolding same by metis
  have sub: "contains q (casefold ?d @ CHR ''/'' # casefold ?p)" if "contains q (casefold ?p)" for q
    using contains_prefix [OF that, of "casefold ?d @ ''/''"] by simp
  have subs: "list_ex (\<lambda>q. contains (casefold (forward_slashes q)) (casefold ?d @ CHR ''/'' # casefold ?p)) qs"
    if "list_ex (\<lambda>q. contains (casefold (forward_slashes q)) (casefold ?p)) qs" for qs
    using that sub unfolding list_ex_iff by blast
  have globs: "list_ex (path_pattern_hits (strip_dots (casefold ?d @ CHR ''/'' # casefold ?p))) qs"
    if "list_ex (path_pattern_hits (strip_dots (casefold ?p))) qs" for qs
    using that glob unfolding list_ex_iff by blast
  show ?thesis
    using assms(1) subs globs unfolding is_sensitive_path_def Let_def t fold name
    by (auto simp: path_parts_below)
qed

lemma sensitive_in_every_directory_witness: "is_sensitive_path (''deploy'' @ ''/'' @ ''db.tfvars'')"
  by (rule sensitive_in_every_directory) code_simp+

text \<open>The control directories are protected wherever they occur, in upper and lower case, with either slash.\<close>

theorem control_directories_protected:
  assumes "casefold c \<in> {''.git'', ''.agent''}" "sep \<in> {CHR ''/'', CHR 0x5C}" "sep' \<in> {CHR ''/'', CHR 0x5C}"
  shows "is_sensitive_path (d @ sep # c @ sep' # r) \<and> is_sensitive_path (c @ sep # r)"
proof -
  have c: "c = forward_slashes c" "CHR ''/'' \<notin> set c" "c \<notin> {[], ''.''}"
  proof -
    have "set (casefold c) \<subseteq> set ''.gitagent''" using assms(1) by auto
    then have "lower_char x \<noteq> CHR ''/'' \<and> lower_char x \<noteq> CHR 0x5C" if "x \<in> set c" for x
      using that by (auto simp: casefold_def)
    then have "x \<noteq> CHR ''/'' \<and> x \<noteq> CHR 0x5C" if "x \<in> set c" for x using that by fastforce
    then show "c = forward_slashes c" "CHR ''/'' \<notin> set c"
      by (auto simp: forward_slashes_def intro!: map_idI [symmetric])
    show "c \<notin> {[], ''.''}" using assms(1) by (auto simp: casefold_def)
  qed
  have "forward_slashes (d @ sep # c @ sep' # r) = forward_slashes d @ CHR ''/'' # c @ CHR ''/'' # forward_slashes r"
    "forward_slashes (c @ sep # r) = c @ CHR ''/'' # forward_slashes r"
    using assms(2,3) c(1) by (auto simp: forward_slashes_def)
  moreover have "c \<in> set (path_parts (c @ CHR ''/'' # s))" for s
    using c(2,3) by (simp add: path_parts_def split_on_append)
  ultimately show ?thesis
    using assms(1) by (auto simp: is_sensitive_path_def Let_def list_ex_iff path_parts_below PROTECTED_PATH_COMPONENTS_def)
qed

lemma control_directories_protected_witness: "is_sensitive_path (''pkg'' @ CHR ''/'' # ''.GIT'' @ CHR ''/'' # ''config'')"
proof -
  have "casefold ''.GIT'' = ''.git''" by code_simp
  then show ?thesis
    by (intro conjunct1 [OF control_directories_protected]) simp_all
qed

text \<open>Not covered, although the comments say so: the key directories when the path starts with them, and the
  dot files of build services below a directory.\<close>

lemma missed_key_directory:
  "is_sensitive_path ''home/.ssh/config'' \<and> \<not> is_sensitive_path ''.ssh/config'' \<and> \<not> is_sensitive_path ''.aws/config''"
  by code_simp

lemma missed_nested_dot_files:
  "is_sensitive_path ''.npmrc'' \<and> \<not> is_sensitive_path ''pkg/.npmrc'' \<and>
   is_sensitive_path ''.github/workflows/ci.yml'' \<and> \<not> is_sensitive_path ''/repo/.github/workflows/ci.yml''"
  by code_simp

text \<open>A validated workspace path is canonical, relative and harmless: validating it again gives the same
  path, no component is empty, a dot or a parent, and the path is not sensitive.\<close>


theorem validated_path_canonical:
  assumes "relative_path raw = ok v"
  shows "relative_path v = ok v \<and> v = forward_slashes raw \<and> \<not> is_sensitive_path v \<and>
    list_all (\<lambda>w. \<not> bad_component w \<and> \<not> protected_component w) (split_on (CHR ''/'') v)"
proof -
  let ?v = "forward_slashes raw"
  have raw: "raw \<noteq> []" "length raw \<le> 4096" "NUL \<notin> set raw" "\<not> starts_with ?v ''/''" "\<not> is_sensitive_path ?v"
    "list_all (\<lambda>w. \<not> bad_component w) (split_on (CHR ''/'') ?v)" "list_all (\<lambda>w. \<not> protected_component w) (path_parts ?v)"
    and v: "v = join_with ''/'' (path_parts ?v)"
    using assms by (auto simp: relative_path_def Let_def list_ex_iff list_all_iff split: if_splits)
  have parts: "path_parts ?v = split_on (CHR ''/'') ?v"
    using raw(6) by (auto simp: path_parts_def list_all_iff bad_component_def intro!: filter_True)
  then have eq: "v = ?v" using v join_split_on [of "CHR ''/''" ?v] by simp
  have idem: "forward_slashes ?v = ?v" by (simp add: forward_slashes_def)
  have "?v \<noteq> []" "length ?v \<le> 4096" "NUL \<notin> set ?v"
    using raw(1-3) by (auto simp: forward_slashes_def)
  then have "relative_path ?v = ok ?v"
    using raw parts v eq by (simp add: relative_path_def Let_def idem list_ex_iff list_all_iff)
  then show ?thesis using eq raw parts by (simp add: list_all_iff)
qed

lemma validated_path_canonical_witness: "relative_path ''src/main.py'' = ok ''src/main.py''"
proof -
  have "relative_path ([CHR ''s'', CHR ''r'', CHR ''c'', CHR 0x5C] @ ''main.py'') = ok ''src/main.py''" by code_simp
  from validated_path_canonical [OF this] show ?thesis by (rule conjunct1)
qed

end
