(* ===== verification/EditLock.thy ===== *)
theory EditLock
  imports SensitivePaths Contracts
begin

text \<open>
  Write permissions of the patcher: \<open>src/repair/execution/edit_lock.py\<close>.  A file may be written when it is in
  the lock and was read since it was put there.  Sets are lists without repetition, replies are the
  reasons of the code as a data type, and the file system answers questions about one path at the
  time of a call.  \<open>grounded_paths\<close> (a listing for prompts) is left out.
\<close>

subsection \<open>Paths\<close>

datatype entry = Missing | RegularFile | OtherEntry | DanglingLink | StatFails

text \<open>\<open>rp_inside\<close>: an absolute path relative to the root when it is below it; \<open>rp_contained\<close>:
  \<open>resolve_under_root\<close> succeeds.\<close>

record repo =
  rp_inside :: "string \<Rightarrow> string option"
  rp_entry :: "string \<Rightarrow> entry"
  rp_contained :: "string \<Rightarrow> bool"

definition normalize_repo_rel :: "repo \<Rightarrow> string \<Rightarrow> string" where
  "normalize_repo_rel r path =
    (let raw = strip_text (forward_slashes path) in
     if raw = [] then []
     else if starts_with raw ''/''
     then (case rp_inside r raw of Some rel \<Rightarrow> forward_slashes rel | None \<Rightarrow> [])
     else (let ps = path_parts raw in if ''..'' \<in> set ps then [] else join_with ''/'' ps))"

definition is_test_path :: "string \<Rightarrow> bool" where
  "is_test_path path =
    (let p = casefold (forward_slashes path) in
     contains ''/tests/'' (CHR ''/'' # p) \<or> starts_with p ''tests/'' \<or> starts_with p ''test_'' \<or>
     ends_with p ''_test.py'' \<or> ends_with p ''/conftest.py'')"

text \<open>\<open>Path(p).suffix\<close>: from the last dot of the name, unless it is its first or last character.\<close>

definition path_suffix :: "string \<Rightarrow> string" where
  "path_suffix p =
    (let name = path_name p; w = takeWhile (\<lambda>c. c \<noteq> CHR ''.'') (rev name) in
     if w \<noteq> [] \<and> length w + 1 < length name then CHR ''.'' # rev w else [])"

definition LANGUAGES :: "(string \<times> string list \<times> bool) list" where
  "LANGUAGES = [(''python'', [''.py''], True), (''javascript'', [''.js'', ''.jsx'', ''.mjs'', ''.cjs''], True),
     (''typescript'', [''.ts'', ''.tsx''], True), (''java'', [''.java''], True), (''go'', [''.go''], True),
     (''rust'', [''.rs''], True), (''ruby'', [''.rb''], False), (''php'', [''.php''], False)]"

definition editable_source :: "string \<Rightarrow> bool" where
  "editable_source p = list_ex (\<lambda>(lang, exts, tests). casefold (path_suffix p) \<in> set exts) LANGUAGES"

subsection \<open>The lock\<close>

record edit_lock =
  el_sandbox :: bool
  el_edit :: "string list"
  el_create :: "string list"
  el_delete :: "string list"
  el_read :: "string list"
  el_generation :: nat
  el_required :: "string \<Rightarrow> nat option"
  el_read_gen :: "string \<Rightarrow> nat option"
  el_unread_rejects :: nat
  el_path_rejects :: nat
  el_max_expand :: nat
  el_expands :: nat
  el_max_auto :: nat
  el_require_expand :: bool
  el_serial :: bool
  el_written :: bool

definition put_in :: "string \<Rightarrow> string list \<Rightarrow> string list" where
  "put_in x xs = (if x \<in> set xs then xs else xs @ [x])"

definition new_edit_lock :: "repo \<Rightarrow> string list \<Rightarrow> int \<Rightarrow> int \<Rightarrow> bool \<Rightarrow> edit_lock" where
  "new_edit_lock r allowed max_expand max_auto sandbox =
     \<lparr>el_sandbox = sandbox,
      el_edit = filter (\<lambda>p. p \<noteq> []) (dedup (map (normalize_repo_rel r) (filter (\<lambda>p. p \<noteq> []) allowed))),
      el_create = [], el_delete = [], el_read = [], el_generation = 0, el_required = (\<lambda>_. None),
      el_read_gen = (\<lambda>_. None), el_unread_rejects = 0, el_path_rejects = 0, el_max_expand = nat max_expand,
      el_expands = 0, el_max_auto = nat max_auto, el_require_expand = False, el_serial = True,
      el_written = False\<rparr>"

definition begin_turn :: "edit_lock \<Rightarrow> edit_lock" where
  "begin_turn l = l\<lparr>el_written := False\<rparr>"

definition mark_write_done :: "edit_lock \<Rightarrow> edit_lock" where
  "mark_write_done l = l\<lparr>el_written := True\<rparr>"

definition required_generation :: "edit_lock \<Rightarrow> string \<Rightarrow> nat" where
  "required_generation l rel = (case el_required l rel of Some n \<Rightarrow> n | None \<Rightarrow> 0)"

definition accept_read :: "string \<Rightarrow> bool \<Rightarrow> edit_lock \<Rightarrow> edit_lock" where
  "accept_read rel auto l =
    (let l = l\<lparr>el_read := put_in rel (el_read l), el_read_gen := (el_read_gen l)(rel \<mapsto> required_generation l rel)\<rparr> in
     if auto \<and> editable_source rel \<and> \<not> is_test_path rel
     then if el_require_expand l \<and> el_expands l = 0 then l
          else if rel \<notin> set (el_edit l) \<and> length (el_edit l) < el_max_auto l then l\<lparr>el_edit := el_edit l @ [rel]\<rparr>
          else l
     else l)"

definition mark_read :: "repo \<Rightarrow> string \<Rightarrow> bool \<Rightarrow> edit_lock \<Rightarrow> bool \<times> edit_lock" where
  "mark_read r path auto l =
    (let rel = normalize_repo_rel r path in
     if el_sandbox l \<or> rel = [] \<or> rp_entry r rel \<noteq> RegularFile then (False, l) else (True, accept_read rel auto l))"

fun seed_and_preread :: "repo \<Rightarrow> string list \<Rightarrow> edit_lock \<Rightarrow> string list \<times> edit_lock" where
  "seed_and_preread r [] l = ([], l)"
| "seed_and_preread r (raw # paths) l =
    (let rel = normalize_repo_rel r raw in
     if rel = [] then seed_and_preread r paths l
     else (let l = l\<lparr>el_edit := put_in rel (el_edit l)\<rparr>;
               l = (if el_sandbox l then l else snd (mark_read r rel False l));
               (seeded, l) = seed_and_preread r paths l
           in (rel # seeded, l)))"

subsection \<open>Evidence of the sandbox\<close>

text \<open>\<open>ev_versions\<close>: absent, or the entry, which is a checksum or null for a missing file.\<close>

record evidence =
  ev_ok :: bool
  ev_backend :: string
  ev_cleanup :: string
  ev_receipt :: string
  ev_versions :: "string \<Rightarrow> string option option"

definition sandbox_receipt :: "evidence \<Rightarrow> bool" where
  "sandbox_receipt e \<longleftrightarrow> ev_ok e \<and> ev_backend e = ''linux_sandbox'' \<and> ev_cleanup e = ''confirmed'' \<and> ev_receipt e \<noteq> []"

definition evidence_path :: "string \<Rightarrow> evidence \<Rightarrow> string" where
  "evidence_path path e =
    (case relative_path path of
       Inl _ \<Rightarrow> []
     | Inr rel \<Rightarrow>
        (case ev_versions e rel of
           Some (Some version) \<Rightarrow> if sandbox_receipt e \<and> length version = 64 then rel else []
         | _ \<Rightarrow> []))"

definition mark_read_evidence :: "string \<Rightarrow> evidence \<Rightarrow> bool \<Rightarrow> edit_lock \<Rightarrow> bool \<times> edit_lock" where
  "mark_read_evidence path e auto l =
    (let rel = evidence_path path e in if rel = [] then (False, l) else (True, accept_read rel auto l))"

subsection \<open>Expansion\<close>

datatype reply =
    NeedsReadEvidence | NeedsPathEvidence | BadPath | SensitivePath string | TargetExists string
  | NotAFile string | TargetMissing | InvalidOperation | StatFailed | AlreadyAllowed | MaxExpand nat
  | Expanded string string | Accepted | NotInLock string | UnreadBeforeWrite string int nat

fun allows :: "reply \<Rightarrow> bool" where
  "allows AlreadyAllowed = True"
| "allows (Expanded rel op) = True"
| "allows Accepted = True"
| "allows _ = False"

definition granted_now :: "string \<Rightarrow> edit_lock \<Rightarrow> edit_lock" where
  "granted_now rel l =
     l\<lparr>el_expands := el_expands l + 1, el_generation := el_generation l + 1,
       el_required := (el_required l)(rel \<mapsto> el_generation l + 1)\<rparr>"

definition grant_operation :: "string \<Rightarrow> string \<Rightarrow> edit_lock \<Rightarrow> reply \<times> edit_lock" where
  "grant_operation rel op l =
    (if op \<noteq> ''create'' \<and> op \<noteq> ''delete'' then (InvalidOperation, l)
     else if rel \<in> set (if op = ''create'' then el_create l else el_delete l) then (AlreadyAllowed, l)
     else if el_expands l \<ge> el_max_expand l then (MaxExpand (el_max_expand l), l)
     else (Expanded rel op,
           granted_now rel (if op = ''create'' then l\<lparr>el_create := el_create l @ [rel]\<rparr>
                            else l\<lparr>el_delete := el_delete l @ [rel]\<rparr>)))"

definition expand_checked :: "string \<Rightarrow> edit_lock \<Rightarrow> reply \<times> edit_lock" where
  "expand_checked rel l =
    (if rel \<in> set (el_edit l) then (AlreadyAllowed, l)
     else if el_expands l \<ge> el_max_expand l then (MaxExpand (el_max_expand l), l)
     else (Expanded rel ''modify'', granted_now rel (l\<lparr>el_edit := el_edit l @ [rel]\<rparr>)))"

definition expand_lock_evidence :: "string \<Rightarrow> evidence \<Rightarrow> edit_lock \<Rightarrow> reply \<times> edit_lock" where
  "expand_lock_evidence path e l =
    (let rel = evidence_path path e in if rel = [] then (NeedsReadEvidence, l) else expand_checked rel l)"

definition expand_operation_evidence :: "string \<Rightarrow> evidence \<Rightarrow> string \<Rightarrow> edit_lock \<Rightarrow> reply \<times> edit_lock" where
  "expand_operation_evidence path e op l =
    (case relative_path path of
       Inl _ \<Rightarrow> (BadPath, l)
     | Inr rel \<Rightarrow>
        (case ev_versions e rel of
           None \<Rightarrow> (NeedsPathEvidence, l)
         | Some version \<Rightarrow>
            if \<not> sandbox_receipt e then (NeedsPathEvidence, l)
            else if op = ''create'' \<and> version \<noteq> None then (TargetExists [], l)
            else if op = ''delete'' \<and> version = None then (TargetMissing, l)
            else grant_operation rel op l))"

text \<open>A failing \<open>stat\<close> is caught for a modification only; otherwise it is raised.\<close>

definition expand_lock :: "repo \<Rightarrow> string \<Rightarrow> string \<Rightarrow> (edit_lock, reply) proc" where
  "expand_lock r path op l =
    (let rel = normalize_repo_rel r path; answer = (\<lambda>(a, l). (ok a, l)) in
     if el_sandbox l then (ok NeedsReadEvidence, l)
     else if rel = [] then (ok BadPath, l)
     else if is_sensitive_path rel then (ok (SensitivePath rel), l)
     else if op = ''create''
     then if rp_entry r rel = StatFails then (raise (OSErr ''stat''), l)
          else if rp_entry r rel \<noteq> Missing then (ok (TargetExists rel), l)
          else if \<not> rp_contained r rel then (ok BadPath, l)
          else answer (grant_operation rel op l)
     else if op = ''delete''
     then if rp_entry r rel = StatFails then (raise (OSErr ''stat''), l)
          else if rp_entry r rel \<noteq> RegularFile then (ok (NotAFile rel), l)
          else answer (grant_operation rel op l)
     else if op \<noteq> ''modify'' then (ok InvalidOperation, l)
     else if rel \<in> set (el_edit l) then (ok AlreadyAllowed, l)
     else if rp_entry r rel = StatFails then (ok StatFailed, l)
     else if rp_entry r rel \<noteq> RegularFile then (ok (NotAFile rel), l)
     else answer (expand_checked rel l))"

subsection \<open>Checking a write\<close>

definition paths_for :: "string \<Rightarrow> edit_lock \<Rightarrow> string list" where
  "paths_for op l =
     (if op = ''modify'' then el_edit l else if op = ''create'' then el_create l
      else if op = ''delete'' then el_delete l else [])"

definition read_generation :: "edit_lock \<Rightarrow> string \<Rightarrow> int" where
  "read_generation l rel = (case el_read_gen l rel of Some n \<Rightarrow> int n | None \<Rightarrow> -1)"

definition path_rejected :: "edit_lock \<Rightarrow> edit_lock" where
  "path_rejected l = l\<lparr>el_path_rejects := el_path_rejects l + 1\<rparr>"

definition check_write :: "repo \<Rightarrow> string \<Rightarrow> string \<Rightarrow> (edit_lock, reply) proc" where
  "check_write r path op l =
    (let rel = normalize_repo_rel r path in
     if rel = [] then (ok BadPath, path_rejected l)
     else if is_sensitive_path rel then (ok (SensitivePath rel), path_rejected l)
     else if rel \<notin> set (paths_for op l) then (ok (NotInLock rel), path_rejected l)
     else if op = ''create''
     then if \<not> el_sandbox l \<and> rp_entry r rel = StatFails then (raise (OSErr ''stat''), l)
          else if \<not> el_sandbox l \<and> rp_entry r rel \<in> {RegularFile, OtherEntry} then (ok (TargetExists rel), l)
          else (ok Accepted, l)
     else if rel \<notin> set (el_read l) \<or> read_generation l rel < int (required_generation l rel)
     then (ok (UnreadBeforeWrite rel (read_generation l rel) (required_generation l rel)),
           l\<lparr>el_unread_rejects := el_unread_rejects l + 1\<rparr>)
     else (ok Accepted, l))"

fun check_patch_paths :: "repo \<Rightarrow> string list \<Rightarrow> edit_lock \<Rightarrow> string list \<times> edit_lock" where
  "check_patch_paths r [] l = ([], l)"
| "check_patch_paths r (p # ps) l =
    (case check_write r p ''modify'' l of
       (a, l) \<Rightarrow>
         (case check_patch_paths r ps l of
            (bad, l) \<Rightarrow>
              (if a = ok Accepted then bad
               else (if normalize_repo_rel r p = [] then p else normalize_repo_rel r p) # bad, l)))"

subsection \<open>Runs of the lock\<close>

datatype lock_event =
    Seed repo "string list"
  | Read repo string bool
  | ReadEvidence string evidence bool
  | Expand repo string string
  | ExpandEvidence string evidence
  | ExpandOperation string evidence string
  | Write repo string string
  | CheckPatch repo "string list"
  | BeginTurn
  | WriteDone

fun lock_step :: "lock_event \<Rightarrow> edit_lock \<Rightarrow> edit_lock" where
  "lock_step (Seed r ps) l = snd (seed_and_preread r ps l)"
| "lock_step (Read r p auto) l = snd (mark_read r p auto l)"
| "lock_step (ReadEvidence p e auto) l = snd (mark_read_evidence p e auto l)"
| "lock_step (Expand r p op) l = snd (expand_lock r p op l)"
| "lock_step (ExpandEvidence p e) l = snd (expand_lock_evidence p e l)"
| "lock_step (ExpandOperation p e op) l = snd (expand_operation_evidence p e op l)"
| "lock_step (Write r p op) l = snd (check_write r p op l)"
| "lock_step (CheckPatch r ps) l = snd (check_patch_paths r ps l)"
| "lock_step BeginTurn l = begin_turn l"
| "lock_step WriteDone l = mark_write_done l"

text \<open>What the caller sees: the files an event read, and the file it granted a new permission for.\<close>

definition readable :: "repo \<Rightarrow> string \<Rightarrow> bool" where
  "readable r rel \<longleftrightarrow> rel \<noteq> [] \<and> rp_entry r rel = RegularFile"

fun reads_of :: "lock_event \<Rightarrow> edit_lock \<Rightarrow> string list" where
  "reads_of (Seed r ps) l = (if el_sandbox l then []
     else filter (readable r) (map (normalize_repo_rel r) (filter (\<lambda>p. p \<noteq> []) (map (normalize_repo_rel r) ps))))"
| "reads_of (Read r p auto) l = (if fst (mark_read r p auto l) then [normalize_repo_rel r p] else [])"
| "reads_of (ReadEvidence p e auto) l = (if fst (mark_read_evidence p e auto l) then [evidence_path p e] else [])"
| "reads_of _ l = []"

fun granted_file :: "reply \<Rightarrow> string option" where
  "granted_file (Expanded rel op) = Some rel"
| "granted_file _ = None"

fun grant_of :: "lock_event \<Rightarrow> edit_lock \<Rightarrow> string option" where
  "grant_of (Expand r p op) l = (case fst (expand_lock r p op l) of Inr a \<Rightarrow> granted_file a | Inl _ \<Rightarrow> None)"
| "grant_of (ExpandEvidence p e) l = granted_file (fst (expand_lock_evidence p e l))"
| "grant_of (ExpandOperation p e op) l = granted_file (fst (expand_operation_evidence p e op l))"
| "grant_of _ l = None"

text \<open>Whether a file was read after the last grant of a permission for it.\<close>

fun read_since_grant :: "string \<Rightarrow> lock_event list \<Rightarrow> edit_lock \<Rightarrow> bool \<Rightarrow> bool" where
  "read_since_grant rel [] l b = b"
| "read_since_grant rel (e # es) l b =
     read_since_grant rel es (lock_step e l)
       (if grant_of e l = Some rel then False else rel \<in> set (reads_of e l) \<or> b)"

definition is_fresh :: "edit_lock \<Rightarrow> string \<Rightarrow> bool" where
  "is_fresh l rel \<longleftrightarrow> rel \<in> set (el_read l) \<and> int (required_generation l rel) \<le> read_generation l rel"

definition lock_inv :: "edit_lock \<Rightarrow> bool" where
  "lock_inv l \<longleftrightarrow> (\<forall>rel. required_generation l rel \<le> el_generation l \<and> read_generation l rel \<le> int (el_generation l) \<and>
      (rel \<in> set (el_read l) \<longleftrightarrow> el_read_gen l rel \<noteq> None))"

lemma set_put_in [simp]: "set (put_in x xs) = insert x (set xs)"
  by (auto simp: put_in_def)

lemma length_put_in: "length (put_in x xs) \<le> length xs + 1"
  by (simp add: put_in_def)

lemma accept_read_frame [simp]:
  "el_read (accept_read rel auto l) = put_in rel (el_read l)" "el_required (accept_read rel auto l) = el_required l"
  "el_read_gen (accept_read rel auto l) = (el_read_gen l)(rel \<mapsto> required_generation l rel)"
  "el_generation (accept_read rel auto l) = el_generation l" "el_sandbox (accept_read rel auto l) = el_sandbox l"
  "el_expands (accept_read rel auto l) = el_expands l" "el_max_expand (accept_read rel auto l) = el_max_expand l"
  "el_create (accept_read rel auto l) = el_create l" "el_delete (accept_read rel auto l) = el_delete l"
  "el_max_auto (accept_read rel auto l) = el_max_auto l"
  by (simp_all add: accept_read_def Let_def)

text \<open>A read makes its file fresh and touches no other; a grant makes its file stale and touches no other.\<close>

lemma accept_read_fresh:
  "is_fresh (accept_read rel auto l) = (is_fresh l)(rel := True)"
  by (rule ext) (auto simp: is_fresh_def read_generation_def required_generation_def)

lemma accept_read_inv: "lock_inv l \<Longrightarrow> lock_inv (accept_read rel auto l)"
  by (auto simp: lock_inv_def read_generation_def required_generation_def split: option.splits)

lemma granted_fresh:
  assumes "lock_inv l"
  shows "is_fresh (granted_now rel l) = (is_fresh l)(rel := False)"
proof (rule ext)
  fix x
  have "read_generation l rel \<le> int (el_generation l)" using assms by (simp add: lock_inv_def)
  then show "is_fresh (granted_now rel l) x = ((is_fresh l)(rel := False)) x"
    by (auto simp: is_fresh_def granted_now_def read_generation_def required_generation_def)
qed

lemma granted_frame [simp]:
  "required_generation (granted_now rel l) x = (if x = rel then el_generation l + 1 else required_generation l x)"
  "read_generation (granted_now rel l) x = read_generation l x" "el_generation (granted_now rel l) = el_generation l + 1"
  "el_read (granted_now rel l) = el_read l" "el_read_gen (granted_now rel l) = el_read_gen l"
  by (simp_all add: granted_now_def required_generation_def read_generation_def)

lemma granted_inv:
  assumes "lock_inv l"
  shows "lock_inv (granted_now rel l)"
  unfolding lock_inv_def
proof (intro allI)
  fix x
  have "required_generation l x \<le> el_generation l" "read_generation l x \<le> int (el_generation l)"
    "x \<in> set (el_read l) \<longleftrightarrow> el_read_gen l x \<noteq> None"
    using assms by (simp_all add: lock_inv_def)
  then show "required_generation (granted_now rel l) x \<le> el_generation (granted_now rel l) \<and>
      read_generation (granted_now rel l) x \<le> int (el_generation (granted_now rel l)) \<and>
      (x \<in> set (el_read (granted_now rel l)) \<longleftrightarrow> el_read_gen (granted_now rel l) x \<noteq> None)"
    by simp
qed

text \<open>Changing only the permitted files changes neither.\<close>

lemma fresh_frame [simp]:
  "is_fresh (l\<lparr>el_edit := xs\<rparr>) = is_fresh l" "is_fresh (l\<lparr>el_create := xs\<rparr>) = is_fresh l"
  "is_fresh (l\<lparr>el_delete := xs\<rparr>) = is_fresh l" "is_fresh (l\<lparr>el_unread_rejects := n\<rparr>) = is_fresh l"
  "is_fresh (l\<lparr>el_path_rejects := n\<rparr>) = is_fresh l" "is_fresh (l\<lparr>el_written := b\<rparr>) = is_fresh l"
  by (rule ext, simp add: is_fresh_def read_generation_def required_generation_def)+

lemma inv_frame [simp]:
  "lock_inv (l\<lparr>el_edit := xs\<rparr>) = lock_inv l" "lock_inv (l\<lparr>el_create := xs\<rparr>) = lock_inv l"
  "lock_inv (l\<lparr>el_delete := xs\<rparr>) = lock_inv l" "lock_inv (l\<lparr>el_unread_rejects := n\<rparr>) = lock_inv l"
  "lock_inv (l\<lparr>el_path_rejects := n\<rparr>) = lock_inv l" "lock_inv (l\<lparr>el_written := b\<rparr>) = lock_inv l"
  by (simp_all add: lock_inv_def read_generation_def required_generation_def)

lemmas lock_ops = mark_read_def mark_read_evidence_def expand_lock_def expand_lock_evidence_def
  expand_operation_evidence_def grant_operation_def expand_checked_def check_write_def path_rejected_def
  begin_turn_def mark_write_done_def Let_def

lemma check_frame:
  assumes "lock_inv l"
  shows "lock_inv (snd (check_write r p op l)) \<and> is_fresh (snd (check_write r p op l)) = is_fresh l"
  using assms by (auto simp: check_write_def path_rejected_def Let_def)

lemma check_patch_snd:
  "snd (check_patch_paths r [] l) = l"
  "snd (check_patch_paths r (p # ps) l) = snd (check_patch_paths r ps (snd (check_write r p ''modify'' l)))"
  by (simp_all split: prod.split)

lemma seed_snd:
  "snd (seed_and_preread r [] l) = l"
  "snd (seed_and_preread r (raw # ps) l) =
     (let rel = normalize_repo_rel r raw; m = l\<lparr>el_edit := put_in rel (el_edit l)\<rparr> in
      snd (seed_and_preread r ps (if rel = [] then l else if el_sandbox l then m else snd (mark_read r rel False m))))"
  by (simp_all add: Let_def split: prod.split)

lemma check_patch_frame:
  "lock_inv l \<Longrightarrow> lock_inv (snd (check_patch_paths r ps l)) \<and> is_fresh (snd (check_patch_paths r ps l)) = is_fresh l"
proof (induction ps arbitrary: l)
  case (Cons p ps)
  let ?m = "snd (check_write r p ''modify'' l)"
  have "lock_inv ?m" "is_fresh ?m = is_fresh l" using check_frame [OF Cons.prems, of r p "''modify''"] by simp_all
  then show ?case unfolding check_patch_snd using Cons.IH [of ?m] by metis
qed simp

lemma seed_fresh:
  assumes "lock_inv l"
  shows "lock_inv (snd (seed_and_preread r ps l)) \<and>
    is_fresh (snd (seed_and_preread r ps l)) = (\<lambda>rel. rel \<in> set (reads_of (Seed r ps) l) \<or> is_fresh l rel)"
  using assms
proof (induction ps arbitrary: l)
  case (Cons raw ps)
  let ?rel = "normalize_repo_rel r raw"
  show ?case
  proof (cases "?rel = []")
    case True
    then show ?thesis using Cons by simp
  next
    case False
    let ?m = "l\<lparr>el_edit := put_in ?rel (el_edit l)\<rparr>"
    let ?k = "if el_sandbox ?m then ?m else snd (mark_read r ?rel False ?m)"
    obtain seeded j where j: "seed_and_preread r ps ?k = (seeded, j)" by fastforce
    have k: "lock_inv ?k" "el_sandbox ?k = el_sandbox l"
      "is_fresh ?k = (\<lambda>x. \<not> el_sandbox l \<and> readable r x \<and> x = normalize_repo_rel r ?rel \<or> is_fresh l x)"
      using Cons.prems by (auto simp: mark_read_def Let_def accept_read_inv accept_read_fresh readable_def fun_eq_iff)
    have "snd (seed_and_preread r (raw # ps) l) = j" using False j by (simp add: Let_def)
    then show ?thesis using Cons.IH [OF k(1)] j k(2,3) False by (auto simp: fun_eq_iff)
  qed
qed simp

lemma lock_step_fresh:
  assumes "lock_inv l"
  shows "lock_inv (lock_step e l) \<and> is_fresh (lock_step e l) rel =
    (if grant_of e l = Some rel then False else rel \<in> set (reads_of e l) \<or> is_fresh l rel)"
proof (cases e)
  case (Seed r ps)
  then show ?thesis using seed_fresh [OF assms, of r ps] by simp
next
  case (CheckPatch r ps)
  then show ?thesis using check_patch_frame [OF assms, of r ps] by simp
next
  case (Write r p op)
  then show ?thesis using check_frame [OF assms, of r p op] by simp
next
  case (Read r p auto)
  then show ?thesis using assms by (auto simp: mark_read_def Let_def accept_read_inv accept_read_fresh)
next
  case (ReadEvidence p e auto)
  then show ?thesis using assms by (auto simp: mark_read_evidence_def Let_def accept_read_inv accept_read_fresh)
next
  case (Expand r p op)
  then show ?thesis using assms
    by (auto simp: expand_lock_def grant_operation_def expand_checked_def Let_def granted_inv granted_fresh)
next
  case (ExpandEvidence p e)
  then show ?thesis using assms
    by (auto simp: expand_lock_evidence_def expand_checked_def Let_def granted_inv granted_fresh)
next
  case (ExpandOperation p e op)
  then show ?thesis using assms
    by (auto simp: expand_operation_evidence_def grant_operation_def Let_def granted_inv granted_fresh split: sum.split option.split)
qed (use assms in \<open>simp_all add: begin_turn_def mark_write_done_def\<close>)

lemma run_fresh:
  "lock_inv l \<Longrightarrow> lock_inv (fold lock_step es l) \<and> is_fresh (fold lock_step es l) rel = read_since_grant rel es l (is_fresh l rel)"
proof (induction es arbitrary: l)
  case (Cons e es)
  show ?case using Cons.IH [of "lock_step e l"] lock_step_fresh [OF Cons.prems, of e rel] by simp
qed simp

lemma new_lock: "lock_inv (new_edit_lock r ps m a s)" "\<not> is_fresh (new_edit_lock r ps m a s) rel"
  by (simp_all add: new_edit_lock_def lock_inv_def is_fresh_def required_generation_def read_generation_def)

text \<open>C12. No write without a fresh read: whatever happened to a lock since it was made, a modification or
  deletion passes the check exactly when the path is inside the repository, not sensitive, permitted for
  this operation, and was read after the last permission granted for it.\<close>

theorem writes_need_fresh_read:
  assumes "op \<noteq> ''create''" "l = fold lock_step es (new_edit_lock r0 ps m a s)"
  shows "fst (check_write r path op l) = ok Accepted \<longleftrightarrow>
    normalize_repo_rel r path \<noteq> [] \<and> \<not> is_sensitive_path (normalize_repo_rel r path) \<and>
    normalize_repo_rel r path \<in> set (paths_for op l) \<and>
    read_since_grant (normalize_repo_rel r path) es (new_edit_lock r0 ps m a s) False"
proof -
  let ?rel = "normalize_repo_rel r path"
  have "read_since_grant ?rel es (new_edit_lock r0 ps m a s) False \<longleftrightarrow> is_fresh l ?rel"
    using run_fresh [OF new_lock(1), of es r0 ps m a s ?rel] new_lock(2) assms(2) by simp
  moreover have "fst (check_write r path op l) = ok Accepted \<longleftrightarrow> ?rel \<noteq> [] \<and> \<not> is_sensitive_path ?rel \<and>
      ?rel \<in> set (paths_for op l) \<and> is_fresh l ?rel"
    using assms(1) by (auto simp: check_write_def Let_def is_fresh_def)
  ultimately show ?thesis by simp
qed

text \<open>A small repository in which every path is a regular file.\<close>

definition some_repo :: repo where
  "some_repo = \<lparr>rp_inside = (\<lambda>_. None), rp_entry = (\<lambda>_. RegularFile), rp_contained = (\<lambda>_. True)\<rparr>"

definition some_run :: "lock_event list" where
  "some_run = [Read some_repo ''a.py'' False, Expand some_repo ''a.py'' ''modify'', Read some_repo ''./a.py'' False]"

lemma writes_need_fresh_read_witness:
  "fst (check_write some_repo ''a.py'' ''modify'' (fold lock_step some_run (new_edit_lock some_repo [] 2 5 False))) = ok Accepted"
proof -
  have "normalize_repo_rel some_repo ''a.py'' = ''a.py''" by code_simp
  moreover have "\<not> is_sensitive_path ''a.py''" by code_simp
  moreover have "''a.py'' \<in> set (paths_for ''modify'' (fold lock_step some_run (new_edit_lock some_repo [] 2 5 False)))"
    by code_simp
  moreover have "read_since_grant ''a.py'' some_run (new_edit_lock some_repo [] 2 5 False) False" by code_simp
  ultimately show ?thesis by (subst writes_need_fresh_read [OF _ refl]) simp_all
qed

subsection \<open>How much may be written\<close>

fun seeds_of :: "lock_event \<Rightarrow> nat" where
  "seeds_of (Seed r ps) = length ps"
| "seeds_of _ = 0"

definition within_lock :: "nat \<Rightarrow> edit_lock \<Rightarrow> bool" where
  "within_lock k l \<longleftrightarrow> el_expands l \<le> el_max_expand l \<and> length (el_create l) + length (el_delete l) \<le> el_expands l \<and>
     length (el_edit l) + length (el_create l) + length (el_delete l) \<le> k + el_max_auto l + el_expands l"

definition same_limits :: "edit_lock \<Rightarrow> edit_lock \<Rightarrow> bool" where
  "same_limits l l' \<longleftrightarrow> el_max_expand l' = el_max_expand l \<and> el_max_auto l' = el_max_auto l"

lemma check_keeps:
  "within_lock k (snd (check_write r p op l)) = within_lock k l \<and> same_limits l (snd (check_write r p op l))"
  by (simp add: check_write_def path_rejected_def Let_def within_lock_def same_limits_def)

lemma accept_read_within: "within_lock k l \<Longrightarrow> within_lock k (accept_read rel auto l)"
  by (auto simp: within_lock_def accept_read_def Let_def)

lemma seed_within:
  "within_lock k l \<Longrightarrow> within_lock (k + length ps) (snd (seed_and_preread r ps l)) \<and>
     same_limits l (snd (seed_and_preread r ps l))"
proof (induction ps arbitrary: k l)
  case (Cons raw ps)
  let ?rel = "normalize_repo_rel r raw"
  let ?m = "l\<lparr>el_edit := put_in ?rel (el_edit l)\<rparr>"
  let ?k = "if el_sandbox ?m then ?m else snd (mark_read r ?rel False ?m)"
  have m: "within_lock (k + 1) ?m" using Cons.prems length_put_in [of ?rel "el_edit l"] by (simp add: within_lock_def)
  then have k: "within_lock (k + 1) ?k" "same_limits l ?k"
    by (simp_all add: mark_read_def Let_def accept_read_within same_limits_def)
  have "within_lock (k + 1) l" using Cons.prems by (simp add: within_lock_def)
  moreover have "snd (seed_and_preread r (raw # ps) l) =
      (if ?rel = [] then snd (seed_and_preread r ps l) else snd (seed_and_preread r ps ?k))"
    by (simp add: seed_snd Let_def del: seed_and_preread.simps)
  ultimately show ?case using Cons.IH [of "k + 1" l] Cons.IH [OF k(1)] k(2) by (auto simp: same_limits_def)
qed (simp add: same_limits_def)

lemma check_patch_keeps:
  "within_lock k (snd (check_patch_paths r ps l)) = within_lock k l \<and> same_limits l (snd (check_patch_paths r ps l))"
proof (induction ps arbitrary: l)
  case (Cons p ps)
  show ?case unfolding check_patch_snd
    using Cons.IH [of "snd (check_write r p ''modify'' l)"] check_keeps [of k r p "''modify''" l]
    by (simp add: same_limits_def)
qed (simp add: same_limits_def)

lemma grant_within:
  assumes "within_lock k l" "el_expands l < el_max_expand l"
  shows "within_lock k (granted_now rel (l\<lparr>el_edit := el_edit l @ [rel]\<rparr>))"
    "within_lock k (granted_now rel (l\<lparr>el_create := el_create l @ [rel]\<rparr>))"
    "within_lock k (granted_now rel (l\<lparr>el_delete := el_delete l @ [rel]\<rparr>))"
  using assms by (simp_all add: within_lock_def granted_now_def)

lemma grant_limits [simp]: "same_limits l l" "same_limits l (granted_now rel (l\<lparr>el_edit := xs\<rparr>))"
  "same_limits l (granted_now rel (l\<lparr>el_create := xs\<rparr>))" "same_limits l (granted_now rel (l\<lparr>el_delete := xs\<rparr>))"
  "same_limits l (accept_read rel auto l)"
  by (simp_all add: same_limits_def granted_now_def accept_read_def Let_def)

lemma operation_keeps:
  assumes "within_lock k l"
  shows "within_lock k (snd (grant_operation rel op l)) \<and> same_limits l (snd (grant_operation rel op l))"
    "within_lock k (snd (expand_checked rel l)) \<and> same_limits l (snd (expand_checked rel l))"
  using assms grant_within by (simp_all add: grant_operation_def expand_checked_def)

lemma lock_step_within:
  assumes "within_lock k l"
  shows "within_lock (k + seeds_of e) (lock_step e l) \<and> same_limits l (lock_step e l)"
proof (cases e)
  case (Seed r ps)
  then show ?thesis using seed_within [OF assms] by simp
next
  case (CheckPatch r ps)
  then show ?thesis using check_patch_keeps assms by simp
next
  case (Write r p op)
  then show ?thesis using check_keeps assms by simp
next
  case (Read r p auto)
  then show ?thesis using assms by (simp add: mark_read_def Let_def accept_read_within)
next
  case (ReadEvidence p e auto)
  then show ?thesis using assms by (simp add: mark_read_evidence_def Let_def accept_read_within)
next
  case (Expand r p op)
  then show ?thesis using assms operation_keeps [OF assms]
    by (simp add: expand_lock_def Let_def case_prod_unfold)
next
  case (ExpandEvidence p e)
  then show ?thesis using assms operation_keeps [OF assms] by (simp add: expand_lock_evidence_def Let_def)
next
  case (ExpandOperation p e op)
  then show ?thesis using assms operation_keeps [OF assms]
    by (simp add: expand_operation_evidence_def split: sum.split option.split)
qed (use assms in \<open>simp_all add: begin_turn_def mark_write_done_def within_lock_def same_limits_def\<close>)

lemma run_within:
  "within_lock k l \<Longrightarrow> within_lock (k + sum_list (map seeds_of es)) (fold lock_step es l) \<and> same_limits l (fold lock_step es l)"
proof (induction es arbitrary: k l)
  case (Cons e es)
  have "within_lock (k + seeds_of e) (lock_step e l)" "same_limits l (lock_step e l)"
    using lock_step_within [OF Cons.prems] by auto
  then show ?case using Cons.IH [of "k + seeds_of e" "lock_step e l"] by (auto simp: same_limits_def add.assoc)
qed simp

text \<open>Permissions are a ledger with a cap: a refused request costs nothing, no run exceeds it.\<close>

definition expansions :: "edit_lock \<Rightarrow> unit \<Rightarrow> real" where
  "expansions l u = real (el_expands l)"

definition expansion_cap :: "edit_lock \<Rightarrow> unit \<Rightarrow> real option" where
  "expansion_cap l u = Some (real (el_max_expand l))"

lemma counters_frame [simp]:
  fixes f
  assumes "f \<in> {el_expands, el_max_expand}"
  shows "f (snd (check_write r p op l)) = f l" "f (snd (seed_and_preread r ps l)) = f l"
    "f (snd (check_patch_paths r ps l)) = f l"
proof -
  show check: "f (snd (check_write r p op l)) = f l" for p op l
    using assms by (auto simp: check_write_def path_rejected_def Let_def)
  show "f (snd (check_patch_paths r ps l)) = f l"
    by (induction ps arbitrary: l) (simp_all add: check_patch_snd check del: check_patch_paths.simps)
  have seed: "f (if rel = [] then m else if el_sandbox m then m\<lparr>el_edit := xs\<rparr> else snd (mark_read r rel False (m\<lparr>el_edit := xs\<rparr>))) = f m"
    for rel m xs using assms by (auto simp: mark_read_def Let_def)
  show "f (snd (seed_and_preread r ps l)) = f l"
    by (induction ps arbitrary: l) (simp_all add: seed_snd Let_def seed del: seed_and_preread.simps)
qed

lemma expands_operation:
  "el_expands (snd (grant_operation rel op l)) = el_expands l + (if granted_file (fst (grant_operation rel op l)) = None then 0 else 1)"
  "el_expands (snd (expand_checked rel l)) = el_expands l + (if granted_file (fst (expand_checked rel l)) = None then 0 else 1)"
  by (simp_all add: grant_operation_def expand_checked_def granted_now_def)

text \<open>An expansion ends without a grant, or in one of the two ways to grant.\<close>

definition as_grant :: "reply \<times> edit_lock \<Rightarrow> reply res \<times> edit_lock" where
  "as_grant q = (ok (fst q), snd q)"

lemma expand_lock_cases:
  obtains (kept) a where "expand_lock r p op l = (a, l)" "(case a of Inr x \<Rightarrow> granted_file x | Inl _ \<Rightarrow> None) = None"
  | (operation) rel where "expand_lock r p op l = as_grant (grant_operation rel op l)"
  | (checked) rel where "expand_lock r p op l = as_grant (expand_checked rel l)"
proof -
  let ?rel = "normalize_repo_rel r p"
  have "expand_lock r p op l = as_grant (grant_operation ?rel op l) \<or> expand_lock r p op l = as_grant (expand_checked ?rel l) \<or>
      (\<exists>a. expand_lock r p op l = (a, l) \<and> (case a of Inr x \<Rightarrow> granted_file x | Inl _ \<Rightarrow> None) = None)"
    unfolding expand_lock_def Let_def as_grant_def case_prod_unfold
    by (simp split: if_split)
  then show thesis using kept operation checked by blast
qed

lemma expand_evidence_cases:
  obtains (kept) a where "expand_operation_evidence p e op l = (a, l)" "granted_file a = None"
  | (operation) rel where "expand_operation_evidence p e op l = grant_operation rel op l"
proof -
  have "(\<exists>rel. expand_operation_evidence p e op l = grant_operation rel op l) \<or>
      (\<exists>a. expand_operation_evidence p e op l = (a, l) \<and> granted_file a = None)"
    unfolding expand_operation_evidence_def by (auto split: sum.split option.split)
  then show thesis using kept operation by blast
qed

lemma expands_step:
  "el_expands (lock_step e l) = el_expands l + (if grant_of e l = None then 0 else 1)"
proof (cases e)
  case (Expand r p op)
  then show ?thesis by (cases rule: expand_lock_cases [of r p op l]) (simp_all add: as_grant_def expands_operation)
next
  case (ExpandOperation p ev op)
  then show ?thesis by (cases rule: expand_evidence_cases [of p ev op l]) (simp_all add: expands_operation)
next
  case (ExpandEvidence p ev)
  then show ?thesis by (simp add: expand_lock_evidence_def Let_def expands_operation)
qed (simp_all add: mark_read_def mark_read_evidence_def begin_turn_def mark_write_done_def Let_def)

lemma no_room:
  assumes "el_max_expand l \<le> el_expands l"
  shows "granted_file (fst (grant_operation rel op l)) = None" "granted_file (fst (expand_checked rel l)) = None"
  using assms by (simp_all add: grant_operation_def expand_checked_def)

lemma refused_when_full:
  assumes "el_max_expand l \<le> el_expands l"
  shows "grant_of e l = None"
proof (cases e)
  case (Expand r p op)
  then show ?thesis by (cases rule: expand_lock_cases [of r p op l]) (simp_all add: as_grant_def no_room [OF assms])
next
  case (ExpandOperation p ev op)
  then show ?thesis by (cases rule: expand_evidence_cases [of p ev op l]) (simp_all add: no_room [OF assms])
qed (simp_all add: expand_lock_evidence_def Let_def no_room [OF assms])

lemma max_expand_operation [simp]:
  "el_max_expand (snd (grant_operation rel op l)) = el_max_expand l" "el_max_expand (snd (expand_checked rel l)) = el_max_expand l"
  by (simp_all add: grant_operation_def expand_checked_def granted_now_def)

lemma max_expand_step: "el_max_expand (lock_step e l) = el_max_expand l"
proof (cases e)
  case (Expand r p op)
  then show ?thesis by (cases rule: expand_lock_cases [of r p op l]) (simp_all add: as_grant_def)
next
  case (ExpandOperation p ev op)
  then show ?thesis by (cases rule: expand_evidence_cases [of p ev op l]) simp_all
qed (simp_all add: mark_read_def mark_read_evidence_def expand_lock_evidence_def begin_turn_def mark_write_done_def Let_def)

interpretation lock_grants: capped_ledger expansions expansion_cap "\<lambda>e l. grant_of e l \<noteq> None" lock_step
proof
  fix e l u c
  show "\<not> grant_of e l \<noteq> None \<Longrightarrow> expansions (lock_step e l) u = expansions l u"
    by (simp add: expansions_def expands_step)
  show "expansions l u \<le> expansions (lock_step e l) u" by (simp add: expansions_def expands_step)
  show "expansion_cap (lock_step e l) u = expansion_cap l u" by (simp add: expansion_cap_def max_expand_step)
  assume "grant_of e l \<noteq> None" "expansion_cap l u = Some c"
  moreover from this have "el_expands l < el_max_expand l" using refused_when_full [of l e] by (meson not_le)
  ultimately show "expansions (lock_step e l) u \<le> c"
    by (auto simp: expansions_def expansion_cap_def expands_step)
qed

text \<open>A lock grants at most \<open>max_expand\<close> permissions, and the files it permits to modify, create or delete are
  no more than the ones it was made with, those seeded, the automatic allowance and these permissions.\<close>

theorem lock_bounded:
  fixes r ps m a s es
  defines "l0 \<equiv> new_edit_lock r ps m a s"
  defines "l \<equiv> fold lock_step es l0"
  shows "el_expands l \<le> nat m \<and>
    length (el_edit l) + length (el_create l) + length (el_delete l)
      \<le> length (el_edit l0) + sum_list (map seeds_of es) + nat a + nat m"
proof -
  have start: "el_expands l0 = 0" "el_max_expand l0 = nat m" "el_max_auto l0 = nat a" "el_create l0 = []" "el_delete l0 = []"
    by (simp_all add: l0_def new_edit_lock_def)
  have "expansions l () \<le> real (nat m)"
    unfolding l_def by (rule lock_grants.run_within_cap) (simp_all add: expansions_def expansion_cap_def start)
  moreover have "within_lock (length (el_edit l0)) l0" by (simp add: within_lock_def start)
  then have "within_lock (length (el_edit l0) + sum_list (map seeds_of es)) l \<and> same_limits l0 l"
    unfolding l_def by (rule run_within)
  ultimately show ?thesis by (simp add: within_lock_def same_limits_def expansions_def start)
qed

text \<open>A path the lock works with is inside the repository: a relative path that is accepted has no component
  that is empty, a dot or the parent directory, however it was written.\<close>

theorem normalized_stays_inside:
  assumes "normalize_repo_rel r path \<noteq> []" "\<not> starts_with (strip_text (forward_slashes path)) ''/''"
  shows "list_all (\<lambda>w. w \<notin> {[], ''.'', ''..''}) (split_on (CHR ''/'') (normalize_repo_rel r path))"
proof -
  let ?ps = "path_parts (strip_text (forward_slashes path))"
  have rel: "normalize_repo_rel r path = join_with ''/'' ?ps" "''..'' \<notin> set ?ps" "?ps \<noteq> []"
    using assms by (auto simp: normalize_repo_rel_def Let_def split: if_splits)
  have "\<forall>w \<in> set ?ps. CHR ''/'' \<notin> set w \<and> w \<noteq> [] \<and> w \<noteq> ''.''"
    using split_on_no_sep by (fastforce simp: path_parts_def)
  moreover from this have "split_on (CHR ''/'') (join_with ''/'' ?ps) = ?ps"
    using rel(3) by (intro split_on_join) auto
  ultimately show ?thesis using rel by (auto simp: list_all_iff)
qed

lemma normalized_stays_inside_witness:
  "list_all (\<lambda>w. w \<notin> {[], ''.'', ''..''}) (split_on (CHR ''/'') (normalize_repo_rel some_repo ''src//./a.py''))"
  by (rule normalized_stays_inside) (code_simp, code_simp)

end
