(* ===== verification/CriticReview.thy ===== *)
theory CriticReview
  imports RepairState PatchEnvelope SensitivePaths
begin

text \<open>
  The review before verification: \<open>src/repair/critic.py\<close>.  The identifier of a verdict, its evidence and
  coverage fields are left out.  \<open>allowed_edit\<close> has no influence on the verdict and is no argument.
\<close>

subsection \<open>Modes\<close>

record critic_verdict =
  cv_accepted :: bool
  cv_reason :: string
  cv_mode :: string
  cv_skipped :: bool

definition validate_mode :: "string \<Rightarrow> string res" where
  "validate_mode mode =
     (if mode = ''llm'' then raise (ValueError ''critic llm mode is not implemented; use rules_first or off'')
      else if mode \<notin> {''rules_first'', ''off''} then raise (ValueError (''unknown critic mode: '' @ mode))
      else ok mode)"

definition resolve_critic_mode :: "(string \<Rightarrow> string option) \<Rightarrow> string res" where
  "resolve_critic_mode env =
    (let off = (case env ''FIXLOOP_CRITIC'' of
           Some raw \<Rightarrow> strip_text raw \<noteq> [] \<and> casefold (strip_text raw) \<in> {''0'', ''false'', ''off'', ''no''}
         | None \<Rightarrow> False);
         mode = (case env ''FIXLOOP_CRITIC_MODE'' of Some m \<Rightarrow> if m = [] then ''rules_first'' else m | None \<Rightarrow> ''rules_first'')
     in if off then ok ''off'' else validate_mode (casefold (strip_text mode)))"

subsection \<open>Test files\<close>

definition norm_path :: "string \<Rightarrow> string" where
  "norm_path p = strip_dots (forward_slashes p)"

text \<open>The alternatives of the expression: at the start of a component, or at the end, where a final line
  feed does not count.\<close>

fun starts_component :: "bool \<Rightarrow> string \<Rightarrow> bool" where
  "starts_component at_start [] = False"
| "starts_component at_start (c # s) =
     (at_start \<and> list_ex (starts_with (c # s)) [''test/'', ''tests/'', ''test_''] \<or> starts_component (c = CHR ''/'') s)"

definition ends_line :: "string \<Rightarrow> string \<Rightarrow> bool" where
  "ends_line s p \<longleftrightarrow> ends_with s p \<or> ends_with s (p @ [LF])"

definition critic_test_path :: "string \<Rightarrow> bool" where
  "critic_test_path path =
    (let p = casefold (norm_path path) in
     starts_component True p \<or> ends_line p ''_test.py'' \<or> ends_line p ''/conftest.py'')"

definition paths_from_patches :: "candidate_patch list \<Rightarrow> string list" where
  "paths_from_patches ps = filter (\<lambda>p. p \<noteq> []) (map (norm_path \<circ> cp_file_path) ps)"

definition has_nonempty_change :: "candidate_patch list \<Rightarrow> bool" where
  "has_nonempty_change = list_ex (\<lambda>p. strip_text (cp_diff p) \<noteq> [] \<or> cp_original_lines p \<noteq> cp_patched_lines p)"

subsection \<open>Duplicated additions\<close>

definition meaningful_line :: "string \<Rightarrow> bool" where
  "meaningful_line line =
    (let s = strip_text line in
     length s \<ge> 6 \<and> \<not> starts_with s ''#'' \<and> s \<notin> {''pass'', ''break'', ''continue'', ''return'', ''else:'', ''try:''} \<and>
     s \<notin> {''('', '')'', ''['', '']'', ''{'', ''}''})"

definition added_text :: "string \<Rightarrow> string option" where
  "added_text raw =
     (if starts_with raw ''+'' \<and> \<not> starts_with raw ''+++'' \<and> meaningful_line (strip_text (drop 1 raw))
      then Some (strip_text (drop 1 raw)) else None)"

definition repeats :: "string \<Rightarrow> string \<Rightarrow> bool" where
  "repeats added neighbor \<longleftrightarrow>
     \<not> list_ex (starts_with neighbor) [''-'', ''@@'', ''---'', ''+++''] \<and> take 1 neighbor \<in> {'' '', ''+''} \<and>
     strip_text (drop 1 neighbor) = added"

definition duplicate_at :: "string list \<Rightarrow> nat \<Rightarrow> bool" where
  "duplicate_at ls i =
     (case added_text (ls ! i) of
        None \<Rightarrow> False
      | Some added \<Rightarrow> (0 < i \<and> repeats added (ls ! (i - 1))) \<or> (i + 1 < length ls \<and> repeats added (ls ! (i + 1))))"

definition duplicate_in_diff :: "string list \<Rightarrow> bool" where
  "duplicate_in_diff ls = list_ex (duplicate_at ls) [0..<length ls]"

definition new_duplicate_pair :: "string list \<Rightarrow> string list \<Rightarrow> bool" where
  "new_duplicate_pair original patched =
     list_ex (\<lambda>(a, b). strip_text a = strip_text b \<and> meaningful_line a \<and> (a, b) \<notin> set (zip original (tl original)))
       (zip patched (tl patched))"

definition has_adjacent_duplicate_addition :: "candidate_patch \<Rightarrow> bool" where
  "has_adjacent_duplicate_addition p \<longleftrightarrow>
     cp_diff p \<noteq> [] \<and> duplicate_in_diff (py_splitlines [] (cp_diff p)) \<or>
     cp_original_lines p \<noteq> cp_patched_lines p \<and>
       new_duplicate_pair (py_splitlines [] (cp_original_lines p)) (py_splitlines [] (cp_patched_lines p))"

subsection \<open>The verdict\<close>

definition rules_verdict :: "bool \<Rightarrow> string \<Rightarrow> critic_verdict" where
  "rules_verdict accepted reason = \<lparr>cv_accepted = accepted, cv_reason = reason, cv_mode = ''rules_first'', cv_skipped = False\<rparr>"

definition review_patch :: "(string \<Rightarrow> string option) \<Rightarrow> candidate_patch list \<Rightarrow> string \<Rightarrow> bool \<Rightarrow> critic_verdict res" where
  "review_patch env ps mode reject_tests_only =
     bindR (if mode \<noteq> [] then ok mode else resolve_critic_mode env) (\<lambda>m.
     bindR (validate_mode (casefold (strip_text m))) (\<lambda>resolved.
       ok (let paths = paths_from_patches ps in
           if resolved = ''off'' then \<lparr>cv_accepted = False, cv_reason = ''critic_off'', cv_mode = ''off'', cv_skipped = True\<rparr>
           else if ps = [] \<or> \<not> has_nonempty_change ps then rules_verdict False ''empty_patch''
           else if reject_tests_only \<and> paths \<noteq> [] \<and> list_all critic_test_path paths then rules_verdict False ''tests_only''
           else if list_ex has_adjacent_duplicate_addition ps then rules_verdict False ''redundant_duplicate_addition''
           else rules_verdict True ''ok'')))"

subsection \<open>What is rejected\<close>

text \<open>A line of a diff next to which a repetition counts: added or context, no header.\<close>

definition shown_text :: "string \<Rightarrow> string option" where
  "shown_text raw = (if take 1 raw \<in> {'' '', ''+''} \<and> \<not> starts_with raw ''+++'' then Some (strip_text (drop 1 raw)) else None)"

lemma repeats_iff: "repeats added raw \<longleftrightarrow> shown_text raw = Some added"
  by (cases raw) (auto simp: repeats_def shown_text_def starts_with_def)

text \<open>The index loop of the critic finds exactly the diffs in which a meaningful line is added next to a shown
  line with the same text, before or behind it.\<close>

theorem duplicate_in_diff_iff:
  "duplicate_in_diff ls \<longleftrightarrow>
     (\<exists>before a b behind added. ls = before @ a # b # behind \<and>
        (added_text a = Some added \<and> shown_text b = Some added \<or> shown_text a = Some added \<and> added_text b = Some added))"
proof
  assume "duplicate_in_diff ls"
  then obtain i where i: "i < length ls" "duplicate_at ls i"
    by (auto simp: duplicate_in_diff_def list_ex_iff)
  then obtain added where a: "added_text (ls ! i) = Some added"
    and nb: "0 < i \<and> shown_text (ls ! (i - 1)) = Some added \<or> i + 1 < length ls \<and> shown_text (ls ! (i + 1)) = Some added"
    by (auto simp: duplicate_at_def repeats_iff split: option.splits)
  have split: "ls = take j ls @ ls ! j # ls ! (j + 1) # drop (j + 2) ls" if "j + 1 < length ls" for j
    using that by (simp add: Cons_nth_drop_Suc)
  from nb show "\<exists>before a b behind added. ls = before @ a # b # behind \<and>
        (added_text a = Some added \<and> shown_text b = Some added \<or> shown_text a = Some added \<and> added_text b = Some added)"
  proof
    assume "0 < i \<and> shown_text (ls ! (i - 1)) = Some added"
    then show ?thesis using split [of "i - 1"] i(1) a by (intro exI [of _ "take (i - 1) ls"]) force
  next
    assume "i + 1 < length ls \<and> shown_text (ls ! (i + 1)) = Some added"
    then show ?thesis using split [of i] a by (intro exI [of _ "take i ls"]) force
  qed
next
  assume "\<exists>before a b behind added. ls = before @ a # b # behind \<and>
        (added_text a = Some added \<and> shown_text b = Some added \<or> shown_text a = Some added \<and> added_text b = Some added)"
  then obtain before a b behind added where ls: "ls = before @ a # b # behind"
    and t: "added_text a = Some added \<and> shown_text b = Some added \<or> shown_text a = Some added \<and> added_text b = Some added"
    by blast
  let ?n = "length before"
  have at: "ls ! ?n = a" "ls ! (?n + 1) = b" "?n + 1 < length ls" using ls by (simp_all add: nth_append)
  from t have "duplicate_at ls ?n \<or> duplicate_at ls (?n + 1)"
    using at by (auto simp: duplicate_at_def repeats_iff)
  moreover have "?n \<in> set [0..<length ls]" "?n + 1 \<in> set [0..<length ls]" using at(3) by simp_all
  ultimately show "duplicate_in_diff ls" unfolding duplicate_in_diff_def list_ex_iff by blast
qed

text \<open>An accepted patch set: what the critic vouches for.\<close>

definition vouched :: "candidate_patch list \<Rightarrow> bool" where
  "vouched ps \<longleftrightarrow> has_nonempty_change ps \<and> (paths_from_patches ps = [] \<or> list_ex (\<lambda>p. \<not> critic_test_path p) (paths_from_patches ps)) \<and>
     list_all (\<lambda>p. \<not> has_adjacent_duplicate_addition p) ps"

lemma review_accepts:
  assumes "review_patch env ps mode True = ok v" "cv_accepted v"
  shows "vouched ps \<and> ps \<noteq> []"
  using assms by (auto simp: review_patch_def rules_verdict_def vouched_def monad_simps Let_def list_ex_iff list_all_iff split: if_splits)

lemma review_skips:
  assumes "review_patch env ps mode True = ok v" "cv_skipped v"
  shows "cv_mode v = ''off''"
  using assms by (auto simp: review_patch_def rules_verdict_def monad_simps Let_def split: if_splits)

lemma review_rules_first:
  assumes "casefold (strip_text mode) = ''rules_first''"
  shows "\<exists>v. review_patch env ps mode t = ok v \<and> \<not> cv_skipped v"
proof -
  have "mode \<noteq> []" using assms by (auto simp: strip_text_def)
  then show ?thesis using assms by (simp add: review_patch_def validate_mode_def rules_verdict_def Let_def)
qed

end
