(* ===== verification/PatchFaithful.thy ===== *)
theory PatchFaithful
  imports CriticReview
begin

text \<open>
  What one run of the patcher makes of the files it changed: the patches read off two snapshots of the
  repository (\<open>src/repair/execution/edit_from_disk.py\<close>), the gate that rejects patches of files outside the
  allowed set (\<open>check_patch_faithfulness\<close> of \<open>src/repair/failure_tags.py\<close> with \<open>soft_keep\<close> off, and the path
  resolution of \<open>src/repair/path_resolve.py\<close> it uses), and the restoring of rejected files in
  \<open>src/repair/patcher_service.py\<close>.  A snapshot is the dictionary of the text files; \<open>others\<close> are the paths of
  the remaining files, \<open>writable\<close> says whether writing a path succeeds (a failure is logged and
  ignored), \<open>hunks\<close> stands for the hunks of a unified diff, whose file headers are written out.  Paths are
  the relative ones of a snapshot, without links on the way and without wildcards in a file name.
\<close>

subsection \<open>Patches of two snapshots\<close>

fun split_keep :: "string \<Rightarrow> string \<Rightarrow> string list" where
  "split_keep acc [] = (if acc = [] then [] else [acc])"
| "split_keep acc [c] = [acc @ [c]]"
| "split_keep acc (c # d # cs) =
     (if c = CR \<and> d = LF then (acc @ [c, d]) # split_keep [] cs
      else if c = CR \<or> line_break c then (acc @ [c]) # split_keep [] (d # cs)
      else split_keep (acc @ [c]) (d # cs))"

definition diff_lines :: "string \<Rightarrow> string list" where
  "diff_lines t = (let ls = split_keep [] t in
     if ls \<noteq> [] \<and> \<not> ends_with (last ls) [LF] then butlast ls @ [last ls @ [LF]] else ls)"

definition unified_diff_for_path :: "(string list \<Rightarrow> string list \<Rightarrow> string) \<Rightarrow> string \<Rightarrow> string \<Rightarrow> string \<Rightarrow> string" where
  "unified_diff_for_path hunks file_path before after =
    (let rel = norm_path (if file_path = [] then ''unknown'' else file_path);
         old = diff_lines before; new = diff_lines after in
     if old = new then []
     else ''--- a/'' @ rel @ [LF] @ ''+++ b/'' @ rel @ [LF] @ hunks old new)"

type_synonym snapshot = "(string, string) alist"

definition patch_of_path ::
  "(string list \<Rightarrow> string list \<Rightarrow> string) \<Rightarrow> snapshot \<Rightarrow> snapshot \<Rightarrow> string \<Rightarrow> candidate_patch list" where
  "patch_of_path hunks before after path =
    (if al_get before path = al_get after path then []
     else
      (let old = case_option [] id (al_get before path); new = case_option [] id (al_get after path);
           diff = unified_diff_for_path hunks path old new in
       if strip_text diff = [] then []
       else [\<lparr>cp_file_path = path, cp_original_lines = old, cp_patched_lines = new, cp_diff = diff\<rparr>]))"

definition patches_from_snapshot_diff ::
  "(string list \<Rightarrow> string list \<Rightarrow> string) \<Rightarrow> snapshot \<Rightarrow> snapshot \<Rightarrow> candidate_patch list" where
  "patches_from_snapshot_diff hunks before after =
     concat (map (patch_of_path hunks before after) (sort (remdups (al_keys before @ al_keys after))))"

subsection \<open>The gate\<close>

text \<open>A path that names no file stands for the only file below which it is a suffix.\<close>

definition resolve_by_suffix :: "string list \<Rightarrow> string \<Rightarrow> string option" where
  "resolve_by_suffix files tail_path =
     (if tail_path = [] \<or> ''..'' \<in> set (split_on (CHR ''/'') tail_path) \<or> path_name tail_path = [] then None
      else
       (let found = filter (\<lambda>p. path_name p = path_name tail_path \<and> (p = tail_path \<or> ends_with p (''/'' @ tail_path))) files in
        case found of
          [] \<Rightarrow> None
        | [m] \<Rightarrow> Some m
        | _ \<Rightarrow> (case filter (\<lambda>p. ends_with p tail_path) found of [m] \<Rightarrow> Some m | _ \<Rightarrow> None)))"

definition resolve_repo_relpath :: "string list \<Rightarrow> string \<Rightarrow> string option" where
  "resolve_repo_relpath files path =
     (if path = [] then None
      else if path \<in> set files then Some path
      else resolve_by_suffix files (norm_path path))"

fun before_colons :: "string \<Rightarrow> string" where
  "before_colons [] = []"
| "before_colons (c # cs) = (if starts_with (c # cs) ''::'' then [] else c # before_colons cs)"

text \<open>The arguments: the grants of the edit lock (edit, create, delete), the suspects, the files of the plan
  (none without a plan), the related tests, and the confirmed extensions.\<close>

definition allowed_patch_files ::
  "string list \<Rightarrow> string list \<Rightarrow> string list \<Rightarrow> string list \<Rightarrow> string list" where
  "allowed_patch_files granted named related_tests extras =
     map norm_path granted @ map norm_path (filter (\<lambda>p. p \<noteq> []) named) @
     map norm_path (filter (\<lambda>f. ends_with f ''.py'') (map (strip_text \<circ> before_colons) related_tests)) @
     map norm_path (filter (\<lambda>p. p \<noteq> []) extras)"

definition canonical_path :: "string list \<Rightarrow> string \<Rightarrow> string" where
  "canonical_path files path =
     (if path = [] then []
      else case resolve_repo_relpath files path of
        Some resolved \<Rightarrow> if resolved \<noteq> [] then resolved else norm_path path
      | None \<Rightarrow> norm_path path)"

definition off_limits :: "string list \<Rightarrow> string list \<Rightarrow> candidate_patch \<Rightarrow> bool" where
  "off_limits allowed files p \<longleftrightarrow>
     canonical_path files (cp_file_path p) \<noteq> [] \<and> canonical_path files (cp_file_path p) \<notin> set allowed"

definition to_canonical :: "string list \<Rightarrow> candidate_patch \<Rightarrow> candidate_patch" where
  "to_canonical files p = (let path = canonical_path files (cp_file_path p) in
     if path \<noteq> [] \<and> cp_file_path p \<noteq> [] \<and> path \<noteq> norm_path (cp_file_path p) then p\<lparr>cp_file_path := path\<rparr> else p)"

definition check_patch_faithfulness ::
  "string list \<Rightarrow> string list \<Rightarrow> candidate_patch list \<Rightarrow> candidate_patch list \<times> string list" where
  "check_patch_faithfulness allowed files ps =
     (if allowed = [] then (ps, [])
      else (map (to_canonical files) (filter (\<lambda>p. \<not> off_limits allowed files p) ps),
            map (\<lambda>p. canonical_path files (cp_file_path p)) (filter (off_limits allowed files) ps)))"

subsection \<open>After the run\<close>

definition files_of :: "string list \<Rightarrow> snapshot \<Rightarrow> string list" where
  "files_of others t = remdups (al_keys t @ others)"

definition restore_rejected :: "(string \<Rightarrow> bool) \<Rightarrow> snapshot \<Rightarrow> string list \<Rightarrow> snapshot \<Rightarrow> snapshot" where
  "restore_rejected writable before rejected t =
     fold (\<lambda>rel t. case al_get before rel of
         Some text \<Rightarrow> if writable rel then al_put rel text t else t
       | None \<Rightarrow> t) rejected t"

definition collect_patches ::
  "(string list \<Rightarrow> string list \<Rightarrow> string) \<Rightarrow> string list \<Rightarrow> string list \<Rightarrow> (string \<Rightarrow> bool) \<Rightarrow>
     snapshot \<Rightarrow> snapshot \<Rightarrow> candidate_patch list \<times> snapshot" where
  "collect_patches hunks allowed others writable before after =
    (case check_patch_faithfulness allowed (files_of others after) (patches_from_snapshot_diff hunks before after) of
       (kept, rejected) \<Rightarrow>
         if rejected = [] then (kept, after)
         else
          (let t = restore_rejected writable before rejected after in
           (fst (check_patch_faithfulness allowed (files_of others t) (patches_from_snapshot_diff hunks before t)), t)))"









subsection \<open>Two ways a change stays\<close>

definition two_files :: snapshot where
  "two_files = [(''a.py'', ''x'' @ [LF]), (''d/b.py'', ''y'' @ [LF])]"

definition no_hunks :: "string list \<Rightarrow> string list \<Rightarrow> string" where
  "no_hunks _ _ = []"


lemma rejected_new_file_stays:
  "collect_patches no_hunks [''a.py''] [] (\<lambda>_. True) two_files (two_files @ [(''n.py'', ''z'' @ [LF])]) =
     ([], two_files @ [(''n.py'', ''z'' @ [LF])])"
  by code_simp

text \<open>A deleted file is taken for another one below whose directory its path ends: its deletion passes the
  gate under the name of a file that is allowed, with the texts of the deleted one.\<close>

lemma deletion_taken_for_namesake:
  "collect_patches no_hunks [''d/b.py''] [] (\<lambda>_. True) ((''b.py'', ''w'' @ [LF]) # two_files) two_files =
     ([\<lparr>cp_file_path = ''d/b.py'', cp_original_lines = ''w'' @ [LF], cp_patched_lines = [],
        cp_diff = ''--- a/b.py'' @ [LF] @ ''+++ b/b.py'' @ [LF]\<rparr>], two_files)"
  by code_simp


end
