(* ===== verification/RepairGraph.thy ===== *)
theory RepairGraph
  imports RepairOutcome CriticReview
begin

text \<open>
  The repair loop as the graph of \<open>src/repair/graph.py\<close>: the stages of \<open>graph_stages.py\<close> with the decisions of
  \<open>attempt_policy.py\<close>, over the state of the repair, the stop-loss tracker, the failure ledger and the working
  tree.  What the agents, the verifier and the file system do in a stage is its input.  Events,
  timings, checkpoints and the blackboard are left out; a rollback that is not confirmed raises.
  \<open>gi_cancelled_late\<close>: whether the run was cancelled while the verifier worked.
\<close>

subsection \<open>Stages and their inputs\<close>

datatype stage =
    SEntry | SPrepare | SAttempt | SPatch | SEmptyPatch | SCritic | SProtected | SGate
  | SPendingVerify | SVerify | SVerificationFailure | SDone

definition STAGE_ROUTES :: "(stage \<times> stage list) list" where
  "STAGE_ROUTES = [
     (SEntry, [SPrepare, SAttempt, SDone]), (SPrepare, [SAttempt]), (SAttempt, [SPatch, SDone]),
     (SPatch, [SCritic, SEmptyPatch, SDone]), (SEmptyPatch, [SAttempt, SDone]), (SCritic, [SProtected, SAttempt]),
     (SProtected, [SGate, SAttempt]), (SGate, [SVerify, SPendingVerify]), (SPendingVerify, [SDone]),
     (SVerify, [SVerificationFailure, SDone]), (SVerificationFailure, [SAttempt, SDone])]"

text \<open>What one run of the patcher reports and leaves behind: its patches, the tree, its own account.\<close>

record 'w patcher_report =
  pp_patches :: "candidate_patch list"
  pp_tree :: 'w
  pp_cancelled :: bool
  pp_plan_error :: "string option"
  pp_uncertain :: bool
  pp_write_attempted :: "bool option"
  pp_write_rejected :: bool
  pp_export_failed :: bool
  pp_apply_error :: string
  pp_parse_error :: bool
  pp_unread_rejects :: bool
  pp_no_change :: bool
  pp_grounded :: bool
  pp_declared :: "string option"
  pp_stop_reason :: string

record 'w stage_input =
  gi_cancelled :: bool
  gi_cancelled_late :: bool
  gi_report :: "'w patcher_report"
  gi_env :: "string \<Rightarrow> string option"
  gi_critic :: string
  gi_interface :: "string option"
  gi_verification :: bool
  gi_run :: verify_run
  gi_minimum :: int
  gi_exit :: "int option"
  gi_feedback :: string
  gi_restored :: bool
  gi_suspects :: "string list"
  gi_baseline :: "int option"

record 'w graph_state =
  gs_stage :: stage
  gs_state :: repair_state
  gs_tracker :: tracker
  gs_ledger :: failure_ledger
  gs_tree :: 'w
  gs_initial :: 'w
  gs_cancelled :: bool
  gs_resume :: bool

definition start_graph :: "repair_state \<Rightarrow> tracker \<Rightarrow> failure_ledger \<Rightarrow> 'w \<Rightarrow> bool \<Rightarrow> 'w graph_state" where
  "start_graph s t l w resume = \<lparr>gs_stage = SEntry, gs_state = s, gs_tracker = t, gs_ledger = l, gs_tree = w,
     gs_initial = w, gs_cancelled = False, gs_resume = resume\<rparr>"

definition recursion_limit :: "repair_state \<Rightarrow> int" where
  "recursion_limit s = (int (length STAGE_ROUTES) + 2) * (max 0 (rs_max_retries s - rs_retry_count s) + 1)"

subsection \<open>The patcher's attempt\<close>

definition PATCHER_TERMINAL_STATUSES :: "string list" where
  "PATCHER_TERMINAL_STATUSES = [''needs_more_context'', ''cannot_patch'', ''verification_failed'', ''no_progress'',
     ''model_output_invalid'', ''model_output_truncated'', ''context_overflow'', ''edit_lock_blocked'',
     ''insufficient_evidence'', ''localization_incomplete'', ''no_change'', ''no_write_attempt'', ''write_rejected'',
     ''patch_export_failed'']"

definition begin_patcher_attempt :: "repair_state \<Rightarrow> repair_state" where
  "begin_patcher_attempt s =
     s\<lparr>rs_control := (rs_control s)\<lparr>ctl_patcher_terminal_status := [], ctl_patcher_parse_failed := False,
         ctl_patcher_apply_failed := False, ctl_patcher_write_attempted := None, ctl_patcher_write_rejected := False,
         ctl_patcher_export_failed := False\<rparr>,
       rs_agent_errors := (rs_agent_errors s)(''patcher_parse'' := None, ''patcher_apply'' := None)\<rparr>"

definition classify_patcher_attempt :: "'w patcher_report \<Rightarrow> repair_state \<Rightarrow> string" where
  "classify_patcher_attempt r s =
    (let c = rs_control s in
     if pp_patches r \<noteq> [] then ''patch_produced''
     else case pp_declared r of
       Some declared \<Rightarrow> declared
     | None \<Rightarrow>
        if pp_stop_reason r = ''model_output_truncated'' then ''model_output_truncated''
        else if pp_stop_reason r = ''context_overflow'' then ''context_overflow''
        else if pp_unread_rejects r then ''edit_lock_blocked''
        else if pp_no_change r then ''no_change''
        else if ctl_patcher_write_rejected c then ''write_rejected''
        else if ctl_patcher_export_failed c then ''patch_export_failed''
        else if ctl_patcher_write_attempted c = Some False then ''no_write_attempt''
        else if ctl_no_progress_warning c \<noteq> None then ''no_progress''
        else if rs_agent_errors s ''patcher_apply'' \<noteq> None then ''cannot_patch''
        else if rs_agent_errors s ''patcher_parse'' \<noteq> None \<or> ctl_patcher_parse_failed c then ''model_output_invalid''
        else if \<not> pp_grounded r then ''localization_incomplete''
        else ''needs_more_context'')"

definition run_patcher :: "'w patcher_report \<Rightarrow> repair_state \<Rightarrow> repair_state" where
  "run_patcher r s =
    (let s = begin_patcher_attempt s;
         s = (case pp_plan_error r of
                Some e \<Rightarrow> s\<lparr>rs_control := (rs_control s)\<lparr>ctl_plan_blocked := True\<rparr>,
                            rs_agent_errors := (rs_agent_errors s)(''plan_runtime'' \<mapsto> e)\<rparr>
              | None \<Rightarrow> s);
         s = (if pp_uncertain r
              then set_status StRecoveryRequired ''patcher_write_unconfirmed''
                (s\<lparr>rs_control := (rs_control s)\<lparr>ctl_coordination_status := ''recovery_required''\<rparr>\<rparr>)
              else s);
         s = s\<lparr>rs_control := (rs_control s)\<lparr>ctl_patcher_write_attempted := pp_write_attempted r,
                 ctl_patcher_write_rejected := pp_write_rejected r, ctl_patcher_export_failed := pp_export_failed r\<rparr>,
               rs_agent_errors := (let e = rs_agent_errors s;
                   e = (if pp_apply_error r \<noteq> [] then e(''patcher_apply'' \<mapsto> pp_apply_error r) else e)
                 in if pp_parse_error r then e(''patcher_parse'' \<mapsto> ''parse'') else e)\<rparr>
     in s\<lparr>rs_control := (rs_control s)\<lparr>ctl_patcher_terminal_status := classify_patcher_attempt r s\<rparr>,
          rs_candidate_patches := pp_patches r\<rparr>)"

subsection \<open>The decisions on an attempt\<close>

definition add_feedback :: "string \<Rightarrow> repair_state \<Rightarrow> repair_state" where
  "add_feedback tip s =
     s\<lparr>rs_feedback := (if rs_feedback s \<noteq> [] then strip_text (rs_feedback s @ [LF] @ tip) else tip)\<rparr>"

definition record_patcher_terminal :: "repair_state \<Rightarrow> repair_state" where
  "record_patcher_terminal s =
    (let explicit = ctl_patcher_terminal_status (rs_control s) \<in> set PATCHER_TERMINAL_STATUSES in
     if rs_candidate_patches s = [] \<and> rs_agent_errors s ''patcher_apply'' = None \<and> \<not> explicit
     then s\<lparr>rs_control := (rs_control s)\<lparr>ctl_patcher_parse_failed := True\<rparr>\<rparr>
     else if explicit
     then s\<lparr>rs_control := (rs_control s)\<lparr>ctl_patcher_parse_failed := False\<rparr>,
            rs_agent_errors := (rs_agent_errors s)(''patcher_parse'' := None)\<rparr>
     else s)"

text \<open>\<open>handle_empty_patch\<close>: whether the loop goes on.\<close>

definition handle_empty_patch :: "outside \<Rightarrow> repair_state \<Rightarrow> tracker \<Rightarrow> bool \<times> repair_state \<times> tracker" where
  "handle_empty_patch ou s t =
     (if ctl_coordination_status (rs_control s) = ''recovery_required''
      then (False, set_status StRecoveryRequired ''cleanup_or_write_unconfirmed'' s, t)
      else if ctl_plan_blocked (rs_control s) then (False, set_status StFailed ''plan_runtime_blocked'' s, t)
      else
       (let s = record_patcher_terminal s; terminal = ctl_patcher_terminal_status (rs_control s) in
        if terminal \<in> {''cannot_patch'', ''insufficient_evidence''}
        then (False, s\<lparr>rs_feedback := ou_say ou ''patcher_terminal'' 0 terminal\<rparr>, t)
        else
         (let apply_error = rs_agent_errors s ''patcher_apply'';
              s = (case apply_error of
                  Some e \<Rightarrow> s\<lparr>rs_control := (rs_control s)\<lparr>ctl_patcher_apply_failed := True\<rparr>,
                              rs_feedback := ou_say ou ''patch_not_applied'' 0 e\<rparr>
                | None \<Rightarrow>
                    if terminal = ''model_output_truncated''
                    then s\<lparr>rs_feedback := ou_say ou ''output_truncated'' 0 []\<rparr>
                    else s\<lparr>rs_control := (rs_control s)\<lparr>ctl_patcher_apply_failed := False\<rparr>,
                           rs_feedback := ou_say ou ''no_patch'' 0 []\<rparr>)
          in case record_empty_patch ou (apply_error \<noteq> None) t of
            (d, t) \<Rightarrow>
              (let s = s\<lparr>rs_retry_count := rs_retry_count s + 1\<rparr> in
               if sp_stop d then (False, apply_stop_loss d s, t) else (True, s, t)))))"

definition no_progress_label :: string where
  "no_progress_label = utf8 [91, 230, 151, 160, 232, 191, 155, 229, 177, 149, 93, 10]"

text \<open>\<open>record_verification_failure\<close> after the rollback: whether the loop stops.\<close>

definition record_verification_failure ::
  "outside \<Rightarrow> 'w stage_input \<Rightarrow> repair_state \<Rightarrow> tracker \<Rightarrow> failure_ledger
     \<Rightarrow> bool \<times> repair_state \<times> tracker \<times> failure_ledger" where
  "record_verification_failure ou i s t l =
    (let result = rs_verification_result s;
         bucket = bucket_of result;
         l = record_verify_into_ledger ou (rs_candidate_patches s) result (bucket_value bucket) (introduced_regression s) l;
         s = s\<lparr>rs_feedback := gi_feedback i\<rparr>
     in case record_verify_failure ou result (rs_candidate_patches s) t of
       (d, t) \<Rightarrow>
        (let s = (if sp_reason d = ''no_progress'' \<and> \<not> sp_stop d
               then s\<lparr>rs_control := (rs_control s)\<lparr>ctl_no_progress_warning := sp_meta d\<rparr>,
                      rs_agent_errors := (rs_agent_errors s)(''no_progress'' \<mapsto> sp_hint d),
                      rs_feedback := (let warning = no_progress_label @ sp_hint d in
                        if rs_feedback s \<noteq> [] then strip_text (warning @ [LF, LF] @ rs_feedback s) else warning)\<rparr>
               else s);
             s = s\<lparr>rs_control := (rs_control s)\<lparr>ctl_consecutive_env_fails := tr_env t\<rparr>,
                   rs_retry_count := rs_retry_count s + 1\<rparr>
         in if sp_stop d
            then (let s = apply_stop_loss d s in
                  (True,
                   if sp_reason d = ''env''
                   then s\<lparr>rs_control := (rs_control s)\<lparr>ctl_verify_env_early_stop := True\<rparr>,
                          rs_agent_errors := (rs_agent_errors s)(''verify_env'' \<mapsto> sp_hint d)\<rparr>
                   else s, t, l))
            else (False, s, t, l)))"

subsection \<open>The stages\<close>

definition abort_if_cancelled :: "'w stage_input \<Rightarrow> 'w graph_state \<Rightarrow> bool" where
  "abort_if_cancelled i g \<longleftrightarrow>
     gi_cancelled i \<or> ctl_coordination_status (rs_control (gs_state g)) = ''recovery_required''"

definition goto :: "stage \<Rightarrow> 'w graph_state \<Rightarrow> (unit res) \<times> 'w graph_state" where
  "goto st g = (ok (), g\<lparr>gs_stage := st\<rparr>)"

definition leave_cancelled :: "'w graph_state \<Rightarrow> (unit res) \<times> 'w graph_state" where
  "leave_cancelled g = goto SDone (g\<lparr>gs_cancelled := True\<rparr>)"

text \<open>Of the preparation: the plan, the suspects and the exit code of the tests before any patch.\<close>

definition prepare_repair :: "'w stage_input \<Rightarrow> 'w graph_state \<Rightarrow> repair_state" where
  "prepare_repair i g =
    (let s = (gs_state g)\<lparr>rs_has_plan := True, rs_suspects := gi_suspects i\<rparr> in
     if \<not> abort_if_cancelled i g \<and> gi_verification i
     then s\<lparr>rs_control := (rs_control s)\<lparr>ctl_baseline_pytest_code := gi_baseline i\<rparr>\<rparr> else s)"

text \<open>Restoring the tree, after which the attempt is given up; an unconfirmed rollback raises.\<close>

definition roll_back :: "'w stage_input \<Rightarrow> ('w graph_state, unit) proc" where
  "roll_back i g =
     (if gi_restored i then (ok (), g\<lparr>gs_tree := gs_initial g\<rparr>) else (raise (ValueError ''rollback_unconfirmed''), g))"

definition give_up_attempt :: "repair_state \<Rightarrow> repair_state" where
  "give_up_attempt s = s\<lparr>rs_candidate_patches := [], rs_retry_count := rs_retry_count s + 1\<rparr>"

definition verify_stage :: "'w stage_input \<Rightarrow> ('w graph_state, unit) proc" where
  "verify_stage i g =
     (if abort_if_cancelled i g then leave_cancelled g
      else
       (let result = run_verifier (gi_minimum i) (gi_run i); outcome = vr_execution_status result;
            s = (gs_state g)\<lparr>rs_verification_result := Some result\<rparr>;
            g = g\<lparr>gs_state := s\<rparr> in
        if gi_cancelled_late i then leave_cancelled g
        else if outcome = XCancelled
        then goto SDone (g\<lparr>gs_state := s\<lparr>rs_control := (rs_control s)\<lparr>ctl_user_cancel := True\<rparr>\<rparr>, gs_cancelled := True\<rparr>)
        else if outcome = XTimedOut then goto SDone (g\<lparr>gs_state := set_status StTimeout ''verification_timeout'' s\<rparr>)
        else if outcome = XUnverified
        then goto SDone (g\<lparr>gs_state := set_status StPendingVerify ''verification_unverified'' s\<rparr>)
        else if outcome = XEnvironmentUnavailable
        then goto SDone (g\<lparr>gs_state := set_status StPendingVerify ''verification_environment_unavailable'' s\<rparr>)
        else if vr_all_passed result
        then goto SDone (g\<lparr>gs_state := (if vn_static (gi_run i)
               then set_status StPendingVerify ''static_check_completed'' s
               else set_status StFixed ''verification_passed'' s)\<rparr>)
        else goto SVerificationFailure g))"

definition patch_stage :: "'w stage_input \<Rightarrow> ('w graph_state, unit) proc" where
  "patch_stage i g =
    (let r = gi_report i; g = g\<lparr>gs_state := run_patcher r (gs_state g), gs_tree := pp_tree r\<rparr> in
     if pp_cancelled r then leave_cancelled g
     else if abort_if_cancelled i g then leave_cancelled g
     else if rs_candidate_patches (gs_state g) \<noteq> [] then goto SCritic g else goto SEmptyPatch g)"

text \<open>A mode the critic does not know raises.\<close>

definition review_stage :: "'w stage_input \<Rightarrow> 'w graph_state \<Rightarrow> critic_verdict res" where
  "review_stage i g = review_patch (gi_env i) (rs_candidate_patches (gs_state g)) (gi_critic i) True"

definition critic_stage :: "outside \<Rightarrow> 'w stage_input \<Rightarrow> ('w graph_state, unit) proc" where
  "critic_stage ou i g =
     (case review_stage i g of
        Inl e \<Rightarrow> (raise e, g)
      | Inr v \<Rightarrow>
          if cv_skipped v \<or> cv_accepted v then goto SProtected g
          else bindS (roll_back i)
            (\<lambda>_ g. goto SAttempt (g\<lparr>gs_state := give_up_attempt (gs_state g)\<rparr>))
            (g\<lparr>gs_state := add_feedback (ou_say ou ''critic_reject'' 0 (cv_reason v)) (gs_state g)\<rparr>))"

definition protected_stage :: "outside \<Rightarrow> 'w stage_input \<Rightarrow> ('w graph_state, unit) proc" where
  "protected_stage ou i g =
     (case gi_interface i of
        None \<Rightarrow> goto SGate g
      | Some detail \<Rightarrow>
          bindS (roll_back i) (\<lambda>_ g. goto SAttempt (g\<lparr>gs_state := give_up_attempt (gs_state g)\<rparr>))
            (g\<lparr>gs_state := (gs_state g)\<lparr>rs_agent_errors := (rs_agent_errors (gs_state g))(''protected_interface'' \<mapsto> detail),
                 rs_feedback := ou_say ou ''protected_interface'' 0 detail\<rparr>\<rparr>))"

definition verification_failure_stage :: "outside \<Rightarrow> 'w stage_input \<Rightarrow> ('w graph_state, unit) proc" where
  "verification_failure_stage ou i g =
     bindS (roll_back i)
       (\<lambda>_ g. case record_verification_failure ou i (gs_state g) (gs_tracker g) (gs_ledger g) of
          (stop, s, t, l) \<Rightarrow>
            goto (if stop then SDone else SAttempt) (g\<lparr>gs_state := s, gs_tracker := t, gs_ledger := l\<rparr>))
       (g\<lparr>gs_state := (gs_state g)\<lparr>rs_control := (rs_control (gs_state g))\<lparr>ctl_post_patch_pytest_code := gi_exit i\<rparr>\<rparr>\<rparr>)"

definition empty_patch_stage :: "outside \<Rightarrow> ('w graph_state, unit) proc" where
  "empty_patch_stage ou g =
     (case handle_empty_patch ou (gs_state g) (gs_tracker g) of
        (again, s, t) \<Rightarrow> goto (if again then SAttempt else SDone) (g\<lparr>gs_state := s, gs_tracker := t\<rparr>))"

fun stage_step :: "outside \<Rightarrow> 'w stage_input \<Rightarrow> stage \<Rightarrow> ('w graph_state, unit) proc" where
  "stage_step ou i SEntry g =
     (if abort_if_cancelled i g then leave_cancelled g else goto (if gs_resume g then SAttempt else SPrepare) g)"
| "stage_step ou i SPrepare g = goto SAttempt (g\<lparr>gs_state := prepare_repair i g\<rparr>)"
| "stage_step ou i SAttempt g =
     (if rs_retry_count (gs_state g) \<ge> rs_max_retries (gs_state g) then goto SDone g
      else if abort_if_cancelled i g then leave_cancelled g else goto SPatch g)"
| "stage_step ou i SPatch g = patch_stage i g"
| "stage_step ou i SEmptyPatch g = empty_patch_stage ou g"
| "stage_step ou i SCritic g = critic_stage ou i g"
| "stage_step ou i SProtected g = protected_stage ou i g"
| "stage_step ou i SGate g = goto (if gi_verification i then SVerify else SPendingVerify) g"
| "stage_step ou i SPendingVerify g =
     goto SDone (g\<lparr>gs_state := mark_pending_verify ''verification_disabled'' (gs_state g)\<rparr>)"
| "stage_step ou i SVerify g = verify_stage i g"
| "stage_step ou i SVerificationFailure g = verification_failure_stage ou i g"
| "stage_step ou i SDone g = (ok (), g)"

text \<open>A run of the graph over the inputs of its stages: \<open>Inl\<close> when a stage raised.\<close>

fun run_graph :: "outside \<Rightarrow> 'w stage_input list \<Rightarrow> ('w graph_state, unit) proc" where
  "run_graph ou [] g = (ok (), g)"
| "run_graph ou (i # is) g =
     (if gs_stage g = SDone then (ok (), g)
      else case stage_step ou i (gs_stage g) g of
        (Inl e, g') \<Rightarrow> (Inl e, g')
      | (Inr _, g') \<Rightarrow> run_graph ou is g')"

subsection \<open>What the stages leave alone\<close>

definition kept :: "repair_state \<Rightarrow> repair_state \<Rightarrow> bool" where
  "kept s s' \<longleftrightarrow> rs_retry_count s' = rs_retry_count s \<and> rs_max_retries s' = rs_max_retries s \<and>
     rs_verification_result s' = rs_verification_result s"

lemma stop_loss_frame [simp]:
  "rs_retry_count (apply_stop_loss d s) = rs_retry_count s" "rs_max_retries (apply_stop_loss d s) = rs_max_retries s"
  "rs_verification_result (apply_stop_loss d s) = rs_verification_result s" "rs_status (apply_stop_loss d s) = rs_status s"
  "rs_candidate_patches (apply_stop_loss d s) = rs_candidate_patches s"
  by (simp_all add: apply_stop_loss_def Let_def split: option.split)

lemma run_patcher_frame [simp]:
  "rs_retry_count (run_patcher r s) = rs_retry_count s" "rs_max_retries (run_patcher r s) = rs_max_retries s"
  "rs_verification_result (run_patcher r s) = rs_verification_result s" "rs_candidate_patches (run_patcher r s) = pp_patches r"
  "rs_status (run_patcher r s) = (if pp_uncertain r then StRecoveryRequired else rs_status s)"
  by (simp_all add: run_patcher_def begin_patcher_attempt_def Let_def split: option.split)

lemma prepare_frame [simp]:
  "rs_retry_count (prepare_repair i g) = rs_retry_count (gs_state g)" "rs_max_retries (prepare_repair i g) = rs_max_retries (gs_state g)"
  "rs_status (prepare_repair i g) = rs_status (gs_state g)"
  by (simp_all add: prepare_repair_def Let_def)

lemma record_terminal_frame [simp]:
  "rs_retry_count (record_patcher_terminal s) = rs_retry_count s" "rs_max_retries (record_patcher_terminal s) = rs_max_retries s"
  "rs_status (record_patcher_terminal s) = rs_status s"
  by (simp_all add: record_patcher_terminal_def Let_def)

lemma empty_patch_effect:
  assumes "handle_empty_patch ou s t = (again, s', t')"
  shows "rs_max_retries s' = rs_max_retries s" "again \<Longrightarrow> rs_retry_count s' = rs_retry_count s + 1"
    "rs_status s \<noteq> StFixed \<Longrightarrow> rs_status s' \<noteq> StFixed"
  using assms
  by (auto simp: handle_empty_patch_def Let_def split: if_splits option.splits prod.splits)

lemma verification_failure_effect:
  assumes "record_verification_failure ou i s t l = (stop, s', t', l')"
  shows "rs_max_retries s' = rs_max_retries s" "rs_retry_count s' = rs_retry_count s + 1" "rs_status s' = rs_status s"
  using assms
  by (auto simp: record_verification_failure_def Let_def split: if_splits prod.splits)

subsection \<open>The graph ends\<close>

definition remaining :: "repair_state \<Rightarrow> nat" where
  "remaining s = nat (rs_max_retries s - rs_retry_count s)"

fun stage_cost :: "stage \<Rightarrow> nat \<Rightarrow> nat" where
  "stage_cost SEntry n = 7 * n + 3"
| "stage_cost SPrepare n = 7 * n + 2"
| "stage_cost SAttempt n = 7 * n + 1"
| "stage_cost SPatch n = 7 * n"
| "stage_cost SEmptyPatch n = 7 * n - 1"
| "stage_cost SCritic n = 7 * n - 1"
| "stage_cost SProtected n = 7 * n - 2"
| "stage_cost SGate n = 7 * n - 3"
| "stage_cost SPendingVerify n = 7 * n - 4"
| "stage_cost SVerify n = 7 * n - 4"
| "stage_cost SVerificationFailure n = 7 * n - 5"
| "stage_cost SDone n = 0"

definition with_patch :: "stage list" where
  "with_patch = [SCritic, SProtected, SGate, SPendingVerify, SVerify, SVerificationFailure]"

text \<open>In an attempt retries are left, and behind the patcher there are patches.\<close>

definition on_course :: "'w graph_state \<Rightarrow> bool" where
  "on_course g \<longleftrightarrow>
     (gs_stage g \<in> set (SPatch # SEmptyPatch # with_patch) \<longrightarrow> rs_retry_count (gs_state g) < rs_max_retries (gs_state g)) \<and>
     (gs_stage g \<in> set with_patch \<longrightarrow> rs_candidate_patches (gs_state g) \<noteq> []) \<and>
     (rs_status (gs_state g) = StFixed \<longrightarrow> gs_stage g = SDone \<and> rs_candidate_patches (gs_state g) \<noteq> [] \<and>
        verified (rs_verification_result (gs_state g)))"

definition routed :: "stage \<Rightarrow> stage \<Rightarrow> bool" where
  "routed st st' \<longleftrightarrow> (case map_of STAGE_ROUTES st of Some sts \<Rightarrow> st' \<in> set sts | None \<Rightarrow> False)"

definition good_step :: "'w graph_state \<Rightarrow> 'w graph_state \<Rightarrow> bool" where
  "good_step g g' \<longleftrightarrow> on_course g' \<and> routed (gs_stage g) (gs_stage g') \<and>
     stage_cost (gs_stage g') (remaining (gs_state g')) < stage_cost (gs_stage g) (remaining (gs_state g))"

lemmas stage_sets = with_patch_def STAGE_ROUTES_def routed_def

lemma goto_iff [simp]: "goto st g = (r, g') \<longleftrightarrow> r = ok () \<and> g' = g\<lparr>gs_stage := st\<rparr>"
  by (auto simp: goto_def)

lemma leave_iff [simp]:
  "leave_cancelled g = (r, g') \<longleftrightarrow> r = ok () \<and> g' = g\<lparr>gs_cancelled := True, gs_stage := SDone\<rparr>"
  by (auto simp: leave_cancelled_def)

lemma retried:
  assumes "rs_retry_count s' = rs_retry_count s + 1" "rs_max_retries s' = rs_max_retries s"
    "rs_retry_count s < rs_max_retries s"
  shows "remaining s = Suc (remaining s')"
  using assms by (simp add: remaining_def)

lemma left: "rs_retry_count s < rs_max_retries s \<Longrightarrow> 0 < remaining s"
  by (simp add: remaining_def)

lemma roll_back_iff: "roll_back i g = (Inr u, g') \<longleftrightarrow> gi_restored i \<and> g' = g\<lparr>gs_tree := gs_initial g\<rparr>"
  by (auto simp: roll_back_def)

lemma give_up_frame [simp]:
  "rs_retry_count (give_up_attempt s) = rs_retry_count s + 1" "rs_max_retries (give_up_attempt s) = rs_max_retries s"
  "rs_status (give_up_attempt s) = rs_status s" "rs_candidate_patches (give_up_attempt s) = []"
  by (simp_all add: give_up_attempt_def)

lemma step_entry:
  assumes "on_course g" "gs_stage g \<in> {SEntry, SPrepare, SAttempt, SGate, SPendingVerify}"
    "stage_step ou i (gs_stage g) g = (Inr u, g')"
  shows "good_step g g'"
proof (cases "gs_stage g")
  case SEntry
  then show ?thesis using assms
    by (auto simp: good_step_def on_course_def stage_sets split: if_splits)
next
  case SPrepare
  then show ?thesis using assms
    by (auto simp: good_step_def on_course_def stage_sets remaining_def)
next
  case SAttempt
  then show ?thesis using assms
    by (auto simp: good_step_def on_course_def stage_sets split: if_splits)
next
  case SGate
  then have "0 < remaining (gs_state g)" using assms(1) by (intro left) (simp add: on_course_def with_patch_def)
  then show ?thesis using assms SGate
    by (auto simp: good_step_def on_course_def stage_sets split: if_splits)
next
  case SPendingVerify
  then have "0 < remaining (gs_state g)" using assms(1) by (intro left) (simp add: on_course_def with_patch_def)
  then show ?thesis using assms SPendingVerify
    by (auto simp: good_step_def on_course_def stage_sets mark_pending_verify_def Let_def)
qed (use assms(2) in auto)

lemma step_patch:
  assumes "on_course g" "gs_stage g = SPatch" "patch_stage i g = (Inr u, g')"
  shows "good_step g g'"
  using assms left [of "gs_state g"]
  by (auto simp: patch_stage_def good_step_def on_course_def stage_sets remaining_def Let_def split: if_splits)

lemma verify_stage_effect:
  assumes "verify_stage i g = (Inr u, g')"
  shows "rs_retry_count (gs_state g') = rs_retry_count (gs_state g) \<and> rs_max_retries (gs_state g') = rs_max_retries (gs_state g) \<and>
    rs_candidate_patches (gs_state g') = rs_candidate_patches (gs_state g) \<and> gs_tree g' = gs_tree g \<and>
    gs_initial g' = gs_initial g \<and>
    (gs_stage g' = SDone \<or> gs_stage g' = SVerificationFailure \<and> rs_status (gs_state g') = rs_status (gs_state g)) \<and>
    (rs_status (gs_state g') = StFixed \<longrightarrow> rs_status (gs_state g) = StFixed \<or> verified (rs_verification_result (gs_state g')))"
proof (cases "abort_if_cancelled i g")
  case True
  then show ?thesis using assms by (auto simp: verify_stage_def)
next
  case False
  let ?r = "run_verifier (gi_minimum i) (gi_run i)"
  let ?s = "(gs_state g)\<lparr>rs_verification_result := Some ?r\<rparr>"
  have run: "verify_stage i g =
       (if gi_cancelled_late i then leave_cancelled (g\<lparr>gs_state := ?s\<rparr>)
        else if vr_execution_status ?r = XCancelled
        then goto SDone (g\<lparr>gs_state := ?s\<lparr>rs_control := (rs_control ?s)\<lparr>ctl_user_cancel := True\<rparr>\<rparr>, gs_cancelled := True\<rparr>)
        else if vr_execution_status ?r = XTimedOut then goto SDone (g\<lparr>gs_state := set_status StTimeout ''verification_timeout'' ?s\<rparr>)
        else if vr_execution_status ?r = XUnverified
        then goto SDone (g\<lparr>gs_state := set_status StPendingVerify ''verification_unverified'' ?s\<rparr>)
        else if vr_execution_status ?r = XEnvironmentUnavailable
        then goto SDone (g\<lparr>gs_state := set_status StPendingVerify ''verification_environment_unavailable'' ?s\<rparr>)
        else if vr_all_passed ?r
        then goto SDone (g\<lparr>gs_state := (if vn_static (gi_run i)
               then set_status StPendingVerify ''static_check_completed'' ?s
               else set_status StFixed ''verification_passed'' ?s)\<rparr>)
        else goto SVerificationFailure (g\<lparr>gs_state := ?s\<rparr>))"
    using False by (simp add: verify_stage_def Let_def)
  have pass: "vr_all_passed ?r \<Longrightarrow> verified (Some ?r)"
    using pass_verified [of "gi_minimum i" "gi_run i"] by blast
  show ?thesis
    using assms pass unfolding run by (auto split: if_splits)
qed

lemma step_verify:
  assumes "on_course g" "gs_stage g = SVerify" "verify_stage i g = (Inr u, g')"
  shows "good_step g g'"
proof -
  have "rs_retry_count (gs_state g) < rs_max_retries (gs_state g)" using assms by (simp add: on_course_def with_patch_def)
  then have "0 < remaining (gs_state g)" by (rule left)
  moreover have "remaining (gs_state g') = remaining (gs_state g)"
    using verify_stage_effect [OF assms(3)] by (simp add: remaining_def)
  ultimately show ?thesis
    using assms verify_stage_effect [OF assms(3)]
    unfolding good_step_def on_course_def stage_sets by auto
qed

text \<open>Both rejections end alike: the tree is restored and the attempt is given up.\<close>

lemma rejected_attempt:
  assumes "bindS (roll_back i) (\<lambda>_ g. goto SAttempt (g\<lparr>gs_state := give_up_attempt (gs_state g)\<rparr>)) (g\<lparr>gs_state := s\<rparr>) = (Inr u, g')"
  shows "gs_stage g' = SAttempt \<and> gs_state g' = give_up_attempt s \<and> gs_tree g' = gs_initial g \<and> gs_initial g' = gs_initial g"
  using assms by (auto simp: bindS_def roll_back_def split: if_splits)

lemma critic_cases:
  assumes "critic_stage ou i g = (Inr u, g')"
  obtains (passed) v where "review_stage i g = ok v" "cv_skipped v \<or> cv_accepted v" "g' = g\<lparr>gs_stage := SProtected\<rparr>"
  | (rejected) tip where "gs_stage g' = SAttempt" "gs_state g' = give_up_attempt (add_feedback tip (gs_state g))"
    "gs_tree g' = gs_initial g" "gs_initial g' = gs_initial g"
proof (cases "review_stage i g")
  case (Inl e)
  then show thesis using assms by (simp add: critic_stage_def)
next
  case (Inr v)
  then show thesis
    using assms passed rejected rejected_attempt unfolding critic_stage_def by (fastforce split: if_splits)
qed

lemma protected_cases:
  assumes "protected_stage ou i g = (Inr u, g')"
  shows "g' = g\<lparr>gs_stage := SGate\<rparr> \<or>
    (\<exists>s. gs_state g' = give_up_attempt s \<and> rs_retry_count s = rs_retry_count (gs_state g) \<and>
       rs_max_retries s = rs_max_retries (gs_state g) \<and> rs_status s = rs_status (gs_state g)) \<and>
    gs_stage g' = SAttempt \<and> gs_tree g' = gs_initial g \<and> gs_initial g' = gs_initial g"
proof (cases "gi_interface i")
  case None
  then show ?thesis using assms by (simp add: protected_stage_def)
next
  case (Some detail)
  let ?s = "(gs_state g)\<lparr>rs_agent_errors := (rs_agent_errors (gs_state g))(''protected_interface'' \<mapsto> detail),
      rs_feedback := ou_say ou ''protected_interface'' 0 detail\<rparr>"
  have "bindS (roll_back i) (\<lambda>_ g. goto SAttempt (g\<lparr>gs_state := give_up_attempt (gs_state g)\<rparr>)) (g\<lparr>gs_state := ?s\<rparr>) = (Inr u, g')"
    using assms Some by (simp add: protected_stage_def)
  from rejected_attempt [OF this] show ?thesis by (intro disjI2) (auto intro!: exI [of _ ?s])
qed

lemma gave_up_good:
  assumes "on_course g" "gs_stage g \<in> {SCritic, SProtected}" "gs_stage g' = SAttempt" "gs_state g' = give_up_attempt s"
    "rs_retry_count s = rs_retry_count (gs_state g)" "rs_max_retries s = rs_max_retries (gs_state g)"
    "rs_status s = rs_status (gs_state g)"
  shows "good_step g g'"
proof -
  have "rs_retry_count (gs_state g) < rs_max_retries (gs_state g)"
    using assms(1,2) by (auto simp: on_course_def with_patch_def)
  then have "remaining (gs_state g) = Suc (remaining (gs_state g'))"
    using assms(4-6) by (intro retried) simp_all
  moreover have "rs_status s \<noteq> StFixed" using assms(1,2,7) by (auto simp: on_course_def)
  ultimately show ?thesis
    using assms(2-4) by (auto simp: good_step_def on_course_def stage_sets)
qed

lemma step_reject:
  assumes "on_course g" "gs_stage g = SCritic \<and> critic_stage ou i g = (Inr u, g') \<or>
    gs_stage g = SProtected \<and> protected_stage ou i g = (Inr u, g')"
  shows "good_step g g'"
proof -
  have "0 < remaining (gs_state g)" using assms by (intro left) (auto simp: on_course_def with_patch_def)
  then have ahead: "gs_stage g = SCritic \<Longrightarrow> good_step g (g\<lparr>gs_stage := SProtected\<rparr>)"
    "gs_stage g = SProtected \<Longrightarrow> good_step g (g\<lparr>gs_stage := SGate\<rparr>)"
    using assms(1) by (simp_all add: good_step_def on_course_def stage_sets)
  show ?thesis
    using assms(2)
  proof
    assume c: "gs_stage g = SCritic \<and> critic_stage ou i g = (Inr u, g')"
    then have "critic_stage ou i g = (Inr u, g')" by simp
    then show ?thesis
    proof (cases rule: critic_cases)
      case passed
      then show ?thesis using c ahead(1) by simp
    next
      case (rejected tip)
      then show ?thesis using c gave_up_good [OF assms(1), of g'] by (auto simp: add_feedback_def)
    qed
  next
    assume p: "gs_stage g = SProtected \<and> protected_stage ou i g = (Inr u, g')"
    then show ?thesis
      using protected_cases [of ou i g u g'] ahead(2) gave_up_good [OF assms(1), of g'] by auto
  qed
qed

lemma step_empty:
  assumes "on_course g" "gs_stage g = SEmptyPatch" "empty_patch_stage ou g = (Inr u, g')"
  shows "good_step g g'"
proof -
  obtain again s t where h: "handle_empty_patch ou (gs_state g) (gs_tracker g) = (again, s, t)"
    by (metis prod_cases3)
  note effect = empty_patch_effect [OF h]
  have lt: "rs_retry_count (gs_state g) < rs_max_retries (gs_state g)" using assms by (simp add: on_course_def)
  have "again \<Longrightarrow> remaining (gs_state g) = Suc (remaining s)"
    using effect(1,2) lt by (intro retried)
  then show ?thesis
    using assms effect left [OF lt]
    by (auto simp: empty_patch_stage_def h good_step_def on_course_def stage_sets split: if_splits)
qed

lemma step_failure:
  assumes "on_course g" "gs_stage g = SVerificationFailure" "verification_failure_stage ou i g = (Inr u, g')"
  shows "good_step g g'"
proof -
  let ?s0 = "(gs_state g)\<lparr>rs_control := (rs_control (gs_state g))\<lparr>ctl_post_patch_pytest_code := gi_exit i\<rparr>\<rparr>"
  obtain stop s t l where h: "record_verification_failure ou i ?s0 (gs_tracker g) (gs_ledger g) = (stop, s, t, l)"
    by (metis prod_cases4)
  note effect = verification_failure_effect [OF h]
  have lt: "rs_retry_count (gs_state g) < rs_max_retries (gs_state g)"
    using assms by (simp add: on_course_def with_patch_def)
  have "remaining (gs_state g) = Suc (remaining s)"
    using effect(1,2) lt by (intro retried) simp_all
  then show ?thesis
    using assms effect
    by (auto simp: verification_failure_stage_def bindS_def roll_back_def h good_step_def on_course_def stage_sets
        split: if_splits)
qed

lemma graph_step:
  assumes "on_course g" "gs_stage g \<noteq> SDone" "stage_step ou i (gs_stage g) g = (Inr u, g')"
  shows "good_step g g'"
proof (cases "gs_stage g")
  case SPatch
  then show ?thesis using assms step_patch [OF assms(1)] by simp
next
  case SEmptyPatch
  then show ?thesis using assms step_empty [OF assms(1)] by simp
next
  case SCritic
  then show ?thesis using assms step_reject [OF assms(1)] by simp
next
  case SProtected
  then show ?thesis using assms step_reject [OF assms(1)] by simp
next
  case SVerify
  then show ?thesis using assms step_verify [OF assms(1)] by simp
next
  case SVerificationFailure
  then show ?thesis using assms step_failure [OF assms(1)] by simp
qed (use assms step_entry [OF assms(1)] in auto)


text \<open>The run, step by step.\<close>

lemma run_graph_bound:
  assumes "on_course g" "stage_cost (gs_stage g) (remaining (gs_state g)) \<le> length is"
    "run_graph ou is g = (r, g')"
  shows "(\<exists>e. r = Inl e) \<or> gs_stage g' = SDone \<and> on_course g'"
  using assms
proof (induction "is" arbitrary: g)
  case Nil
  have "gs_stage g = SDone \<or> 0 < stage_cost (gs_stage g) (remaining (gs_state g))"
    using Nil.prems(1) left [of "gs_state g"] by (cases "gs_stage g") (auto simp: on_course_def with_patch_def)
  then show ?case using Nil by auto
next
  case (Cons i "is")
  show ?case
  proof (cases "gs_stage g = SDone")
    case True
    then show ?thesis using Cons.prems by auto
  next
    case False
    obtain q h where q: "stage_step ou i (gs_stage g) g = (q, h)" by fastforce
    show ?thesis
    proof (cases q)
      case (Inl e)
      then show ?thesis using Cons.prems(3) False q by auto
    next
      case (Inr u)
      then have good: "good_step g h" using graph_step [OF Cons.prems(1) False, of ou i u h] q by simp
      have "run_graph ou is h = (r, g')" using Cons.prems(3) False q Inr by simp
      then show ?thesis using good Cons.prems(2) by (intro Cons.IH) (auto simp: good_step_def)
    qed
  qed
qed

lemma run_graph_keeps:
  assumes "\<And>i h k v. i \<in> set is \<Longrightarrow> I h \<Longrightarrow> gs_stage h \<noteq> SDone \<Longrightarrow>
      stage_step ou i (gs_stage h) h = (Inr v, k) \<Longrightarrow> I k"
    and "I h" "run_graph ou is h = (Inr u, g)"
  shows "I g"
  using assms
proof (induction "is" arbitrary: h)
  case (Cons i "is")
  show ?case
  proof (cases "gs_stage h = SDone")
    case True
    then show ?thesis using Cons.prems(2,3) by simp
  next
    case False
    obtain q k where q: "stage_step ou i (gs_stage h) h = (q, k)" by fastforce
    show ?thesis
    proof (cases q)
      case (Inl e)
      then show ?thesis using Cons.prems(3) False q by simp
    next
      case (Inr v)
      have "I k" by (rule Cons.prems(1) [of i, OF _ Cons.prems(2) False]) (simp_all add: q Inr)
      moreover have "run_graph ou is k = (Inr u, g)" using Cons.prems(3) False q Inr by simp
      moreover have "I k'" if "j \<in> set is" "I h'" "gs_stage h' \<noteq> SDone" "stage_step ou j (gs_stage h') h' = (Inr w, k')"
        for j h' k' w
        by (rule Cons.prems(1) [OF _ that(2-4)]) (simp add: that(1))
      ultimately show ?thesis by (intro Cons.IH) 
    qed
  qed
qed simp

lemma start_on_course: "rs_status s \<noteq> StFixed \<Longrightarrow> on_course (start_graph s t l w resume)"
  by (simp add: on_course_def start_graph_def with_patch_def)

text \<open>C1. The repair loop ends within the limit it sets: from a repair that is not fixed yet, whatever agents,
  verifier and cancellation do, after at most seven stages per remaining retry and three more the graph
  has ended (or a rollback failed), which is below the recursion limit the framework is given; and when
  it ends with the status fixed, there is a patch and its verification passed.\<close>

theorem repair_loop_ends:
  assumes "rs_status s \<noteq> StFixed" "7 * remaining s + 3 \<le> length is"
    and "run_graph ou is (start_graph s t l w resume) = (r, g)"
  shows "7 * int (remaining s) + 3 < recursion_limit s \<and>
    ((\<exists>e. r = Inl e) \<or> gs_stage g = SDone \<and>
       (rs_status (gs_state g) = StFixed \<longrightarrow>
          rs_candidate_patches (gs_state g) \<noteq> [] \<and> verified (rs_verification_result (gs_state g))))"
proof -
  have "7 * int (remaining s) + 3 < recursion_limit s"
    by (simp add: recursion_limit_def remaining_def STAGE_ROUTES_def)
  moreover have "(\<exists>e. r = Inl e) \<or> gs_stage g = SDone \<and> on_course g"
    using run_graph_bound [OF start_on_course [OF assms(1)] _ assms(3)] assms(2) by (simp add: start_graph_def)
  ultimately show ?thesis by (auto simp: on_course_def)
qed

text \<open>C39. Stages only hand over along the routes declared for them, so no next action is ever missing in the
  graph.\<close>

theorem stages_follow_routes:
  assumes "rs_status s \<noteq> StFixed" "run_graph ou is (start_graph s t l w resume) = (Inr u, g)"
    and "gs_stage g \<noteq> SDone" "stage_step ou i (gs_stage g) g = (Inr v, g')"
  shows "routed (gs_stage g) (gs_stage g')"
proof -
  have "on_course g"
  proof (rule run_graph_keeps [where I = on_course, OF _ start_on_course [OF assms(1)] assms(2)])
    fix j h k v
    assume "on_course h" "gs_stage h \<noteq> SDone" "stage_step ou j (gs_stage h) h = (Inr v, k)"
    then show "on_course k" using graph_step [of h ou j v k] by (simp add: good_step_def)
  qed
  then show ?thesis using graph_step [OF _ assms(3,4)] by (simp add: good_step_def)
qed

subsection \<open>Failed attempts are rolled back\<close>








subsection \<open>What reaches the verifier\<close>




subsection \<open>A regression that was rolled back\<close>

text \<open>A regression that was rolled back still decides the outcome: when an earlier attempt made the tests fail
  that passed before, and a later patch cannot be verified because the environment is not available, the
  stage records the repair as pending verification, but the terminal status is regression: the exit
  code of the earlier attempt is never cleared.\<close>

theorem rolled_back_regression_sticks:
  assumes "gs_stage g = SVerify" "\<not> abort_if_cancelled i g" "\<not> gi_cancelled_late i" "introduced_regression (gs_state g)"
    and "\<not> has_repair_timeout (gs_state g)" "control_terminal_status (gs_state g) = None"
    and "verification_outcome (gi_run i) = XEnvironmentUnavailable" "verify_stage i g = (r, g')"
  shows "rs_status (gs_state g') = StPendingVerify \<and> resolve_terminal_status (gs_state g') = StRegression"
proof -
  have "gs_state g' = set_status StPendingVerify ''verification_environment_unavailable''
      ((gs_state g)\<lparr>rs_verification_result := Some (run_verifier (gi_minimum i) (gi_run i))\<rparr>)"
    using assms(2,3,7,8)
    by (auto simp: verify_stage_def run_verifier_def service_result_def Let_def split: if_splits)
  then show ?thesis
    using assms(4-6)
    by (auto simp: resolve_terminal_status_def control_terminal_status_def has_repair_timeout_def
        introduced_regression_def split: if_splits)
qed

subsection \<open>Witnesses\<close>

definition plain_report :: "candidate_patch list \<Rightarrow> string patcher_report" where
  "plain_report ps = \<lparr>pp_patches = ps, pp_tree = (if ps = [] then ''old'' else ''new''), pp_cancelled = False,
     pp_plan_error = None, pp_uncertain = False, pp_write_attempted = Some (ps \<noteq> []), pp_write_rejected = False,
     pp_export_failed = False, pp_apply_error = [], pp_parse_error = False, pp_unread_rejects = False,
     pp_no_change = False, pp_grounded = True, pp_declared = None, pp_stop_reason = []\<rparr>"

definition plain_input :: "verify_run \<Rightarrow> string stage_input" where
  "plain_input v = \<lparr>gi_cancelled = False, gi_cancelled_late = False, gi_report = plain_report [small_patch ''+x''],
     gi_env = (\<lambda>_. None), gi_critic = ''rules_first'', gi_interface = None,
     gi_verification = True, gi_run = v, gi_minimum = 1, gi_exit = Some 1, gi_feedback = ''retry'', gi_restored = True,
     gi_suspects = [''a.py''], gi_baseline = Some 0\<rparr>"

definition bad_run :: verify_run where
  "bad_run = good_run\<lparr>vn_result := failing_run ''assert 1''\<rparr>"

definition no_environment :: verify_run where
  "no_environment = good_run\<lparr>vn_not_started := True\<rparr>"

lemma repair_loop_ends_witness:
  "\<exists>r g. run_graph plain_outside (replicate 24 (plain_input bad_run))
      (start_graph initial_state new_tracker empty_failures ''old'' False) = (r, g) \<and>
     ((\<exists>e. r = Inl e) \<or> gs_stage g = SDone)"
proof -
  obtain r g where run: "run_graph plain_outside (replicate 24 (plain_input bad_run))
      (start_graph initial_state new_tracker empty_failures ''old'' False) = (r, g)" by fastforce
  show ?thesis
    using repair_loop_ends [OF _ _ run] run by (auto simp: initial_state_def remaining_def)
qed

definition at_verify :: "string graph_state" where
  "at_verify = (start_graph (initial_state\<lparr>rs_retry_count := 1, rs_candidate_patches := [small_patch ''+y''],
       rs_control := default_control\<lparr>ctl_baseline_pytest_code := Some 0, ctl_post_patch_pytest_code := Some 1\<rparr>\<rparr>)
     new_tracker empty_failures ''old'' False)\<lparr>gs_stage := SVerify\<rparr>"

lemma rolled_back_regression_sticks_witness:
  "\<exists>g'. verify_stage (plain_input no_environment) at_verify = (ok (), g') \<and>
     rs_status (gs_state g') = StPendingVerify \<and> resolve_terminal_status (gs_state g') = StRegression"
proof -
  obtain r g' where run: "verify_stage (plain_input no_environment) at_verify = (r, g')" by fastforce
  have out: "verification_outcome (gi_run (plain_input no_environment)) = XEnvironmentUnavailable"
    by (simp add: plain_input_def no_environment_def good_run_def verification_outcome_def starts_with_def)
  have idle: "\<not> abort_if_cancelled (plain_input no_environment) at_verify"
    by (simp add: abort_if_cancelled_def plain_input_def at_verify_def start_graph_def initial_state_def default_control_def)
  have "r = ok ()"
    using run out idle by (auto simp: verify_stage_def run_verifier_def service_result_def Let_def split: if_splits)
  then show ?thesis
    using rolled_back_regression_sticks [OF _ idle _ _ _ _ out run] run
    by (simp add: plain_input_def at_verify_def start_graph_def initial_state_def default_control_def introduced_regression_def
        regression_detected_def has_repair_timeout_def control_terminal_status_def)
qed

lemma first_stages:
  "run_graph plain_outside [plain_input bad_run, plain_input bad_run] (start_graph initial_state new_tracker empty_failures ''old'' False)
     = (Inr (), (start_graph (prepare_repair (plain_input bad_run) ((start_graph initial_state new_tracker empty_failures ''old'' False)
          \<lparr>gs_stage := SPrepare\<rparr>)) new_tracker empty_failures ''old'' False)\<lparr>gs_stage := SAttempt\<rparr>)"
  by (simp add: start_graph_def abort_if_cancelled_def plain_input_def initial_state_def default_control_def goto_def)





lemma stages_follow_routes_witness: "routed SAttempt SPatch"
proof -
  let ?g = "(start_graph (prepare_repair (plain_input bad_run) ((start_graph initial_state new_tracker empty_failures ''old'' False)
          \<lparr>gs_stage := SPrepare\<rparr>)) new_tracker empty_failures ''old'' False)\<lparr>gs_stage := SAttempt\<rparr>"
  have step: "stage_step plain_outside (plain_input bad_run) (gs_stage ?g) ?g = (Inr (), ?g\<lparr>gs_stage := SPatch\<rparr>)"
    by (simp add: start_graph_def abort_if_cancelled_def plain_input_def prepare_repair_def initial_state_def
        default_control_def goto_def Let_def)
  show ?thesis
    using stages_follow_routes [OF _ first_stages _ step] by (simp add: initial_state_def)
qed



end
