(* ===== verification/ToolQuota.thy ===== *)
theory ToolQuota
  imports SensitivePaths
begin

text \<open>
  How many tools a session may call: the grouped ledger of \<open>agent_runtime/tool_budget.py\<close> and the
  \<open>QuotaEnforcer\<close> of \<open>agent_runtime/tool_executor.py\<close>, with the quota gate of the executor.  Every method runs
  under the lock and is one step.  Of the arguments of a call only the path matters.  A limit of \<open>None\<close> is
  infinity; the platform is POSIX, where \<open>normcase\<close> changes nothing.  Texts for display are left out.
\<close>

subsection \<open>Grouped budgets\<close>

datatype budget_group = GRead | GWrite | GVerify | GRecovery

fun group_value :: "budget_group \<Rightarrow> string" where
  "group_value GRead = ''read''"
| "group_value GWrite = ''write''"
| "group_value GVerify = ''verify''"
| "group_value GRecovery = ''recovery''"

definition all_groups :: "budget_group list" where
  "all_groups = [GRead, GWrite, GVerify, GRecovery]"

record tool_spec =
  ts_group :: string
  ts_terminal :: bool

definition write_tool :: "string \<Rightarrow> bool" where
  "write_tool name \<longleftrightarrow> name \<in> {''write_file'', ''patch_file'', ''apply_patch''}"

definition infer_group :: "string \<Rightarrow> tool_spec \<Rightarrow> budget_group" where
  "infer_group name spec =
     (case find (\<lambda>g. group_value g = casefold (strip_text (ts_group spec))) all_groups of
        Some g \<Rightarrow> g
      | None \<Rightarrow>
          if write_tool name then GWrite
          else if name \<in> {''quick_test'', ''run_shell'', ''sandbox_build'', ''sandbox_test'', ''sandbox_verify''} then GVerify
          else if name = ''expand_lock'' then GRecovery
          else GRead)"

record group_ledger =
  gl_limits :: "budget_group \<Rightarrow> int option"
  gl_counts :: "budget_group \<Rightarrow> int"
  gl_rejected :: "budget_group \<Rightarrow> int"

definition new_group_ledger :: "(budget_group \<times> int option) list \<Rightarrow> group_ledger" where
  "new_group_ledger limits =
     \<lparr>gl_limits = (\<lambda>g. case map_of limits g of Some (Some n) \<Rightarrow> Some (max 0 n) | Some None \<Rightarrow> None | None \<Rightarrow> Some 0),
      gl_counts = (\<lambda>_. 0), gl_rejected = (\<lambda>_. 0)\<rparr>"

record group_decision =
  gd_allowed :: bool
  gd_group :: budget_group
  gd_used :: int
  gd_limit :: "int option"
  gd_reason :: string

fun below :: "int \<Rightarrow> int option \<Rightarrow> bool" where
  "below n None = True"
| "below n (Some m) = (n < m)"

definition group_check :: "budget_group \<Rightarrow> group_ledger \<Rightarrow> group_decision" where
  "group_check g l =
    (let used = gl_counts l g; limit = gl_limits l g in
     \<lparr>gd_allowed = below used limit, gd_group = g, gd_used = used, gd_limit = limit,
      gd_reason = (if below used limit then [] else group_value g @ ''_budget_exhausted'')\<rparr>)"

definition group_record :: "budget_group \<Rightarrow> group_ledger \<Rightarrow> group_ledger" where
  "group_record g l = l\<lparr>gl_counts := (gl_counts l)(g := gl_counts l g + 1)\<rparr>"

definition group_reject :: "budget_group \<Rightarrow> group_ledger \<Rightarrow> group_ledger" where
  "group_reject g l = l\<lparr>gl_rejected := (gl_rejected l)(g := gl_rejected l g + 1)\<rparr>"

subsection \<open>The quota\<close>

record read_reserve =
  rr_path :: string
  rr_kind :: string
  rr_generation :: int

record tool_call =
  tc_name :: string
  tc_spec :: tool_spec
  tc_path :: string

type_synonym reservation = "tool_call \<times> read_reserve option"

record tool_quota =
  qt_max_write :: "int option"
  qt_max_shell :: "int option"
  qt_max_total :: "int option"
  qt_write :: int
  qt_shell :: int
  qt_total :: int
  qt_slots :: int
  qt_ledger :: "group_ledger option"
  qt_reserves :: "read_reserve list"
  qt_terminal_used :: bool
  qt_pending :: "(string, reservation) alist"

definition new_quota ::
  "int option \<Rightarrow> int option \<Rightarrow> int option \<Rightarrow> int \<Rightarrow> (budget_group \<times> int option) list option \<Rightarrow> tool_quota" where
  "new_quota writes shell calls slots groups =
     \<lparr>qt_max_write = writes, qt_max_shell = shell, qt_max_total = calls, qt_write = 0, qt_shell = 0, qt_total = 0,
      qt_slots = slots, qt_ledger = map_option new_group_ledger groups, qt_reserves = [], qt_terminal_used = False,
      qt_pending = []\<rparr>"

text \<open>A limit of zero in a policy means no limit.\<close>

definition or_infinite :: "int \<Rightarrow> int option" where
  "or_infinite n = (if n = 0 then None else Some n)"

definition quota_from_policy :: "int \<Rightarrow> int \<Rightarrow> int \<Rightarrow> int \<Rightarrow> int \<Rightarrow> int \<Rightarrow> int \<Rightarrow> tool_quota" where
  "quota_from_policy writes shell calls reads verify recovery slots =
     new_quota (or_infinite writes) (or_infinite shell) (or_infinite calls) slots
       (Some [(GRead, or_infinite reads), (GWrite, or_infinite writes), (GVerify, or_infinite verify),
              (GRecovery, or_infinite recovery)])"

abbreviation call_group :: "tool_call \<Rightarrow> budget_group" where
  "call_group c \<equiv> infer_group (tc_name c) (tc_spec c)"

definition match_form :: "string \<Rightarrow> string" where
  "match_form p = strip_dots (strip_text (forward_slashes p))"

definition paths_match :: "string \<Rightarrow> string \<Rightarrow> bool" where
  "paths_match requested reserved =
    (let left = match_form requested; right = match_form reserved in
     left \<noteq> [] \<and> right \<noteq> [] \<and> (left = right \<or> ends_with left (''/'' @ right) \<or> ends_with right (''/'' @ left)))"

definition available_reserves :: "tool_quota \<Rightarrow> read_reserve list" where
  "available_reserves q = filter (\<lambda>item. \<not> list_ex (\<lambda>(key, c, r). r = Some item) (qt_pending q)) (qt_reserves q)"

definition matching_read_reserve :: "tool_call \<Rightarrow> tool_quota \<Rightarrow> read_reserve option" where
  "matching_read_reserve c q =
    (if call_group c \<noteq> GRead then None
     else
      (let path = forward_slashes (tc_path c); available = available_reserves q in
       case find (\<lambda>i. rr_kind i = ''post_lock'' \<and> tc_name c = ''read_file'' \<and> paths_match path (rr_path i)) available of
         Some i \<Rightarrow> Some i
       | None \<Rightarrow>
          (case find (\<lambda>i. rr_kind i \<noteq> ''post_lock'' \<and> paths_match path (rr_path i)) available of
             Some i \<Rightarrow> Some i
           | None \<Rightarrow>
              if list_ex (\<lambda>i. rr_kind i = ''targeted'' \<and> rr_path i \<noteq> ''*'') available then None
              else find (\<lambda>i. rr_path i = ''*'') available)))"

definition grant_read_reserve :: "string \<Rightarrow> string \<Rightarrow> int \<Rightarrow> tool_quota \<Rightarrow> bool \<times> tool_quota" where
  "grant_read_reserve path kind generation q =
    (let p = (if path = ''*'' then ''*'' else forward_slashes path);
         item = \<lparr>rr_path = p, rr_kind = kind, rr_generation = max 0 generation\<rparr> in
     if p = [] \<or> item \<in> set (qt_reserves q) then (False, q)
     else (True, q\<lparr>qt_reserves := qt_reserves q @ [item]\<rparr>))"

definition pending_plain :: "budget_group \<Rightarrow> tool_quota \<Rightarrow> int" where
  "pending_plain g q = int (length (filter (\<lambda>(key, c, r). call_group c = g \<and> r = None) (qt_pending q)))"

definition quota_decision :: "tool_call \<Rightarrow> tool_quota \<Rightarrow> group_decision option" where
  "quota_decision c q =
    (if ts_terminal (tc_spec c) \<and> \<not> qt_terminal_used q
     then Some \<lparr>gd_allowed = True, gd_group = GRecovery, gd_used = 0, gd_limit = Some 1, gd_reason = ''reserved_terminal''\<rparr>
     else case qt_ledger q of
       None \<Rightarrow> None
     | Some l \<Rightarrow>
        (case matching_read_reserve c q of
           Some r \<Rightarrow>
             (let normal = group_check GRead l in
              Some \<lparr>gd_allowed = True, gd_group = GRead, gd_used = gd_used normal,
                gd_limit = map_option (\<lambda>n. max n (gd_used normal + 1)) (gd_limit normal),
                gd_reason = ''reserved_read:'' @ rr_kind r\<rparr>)
         | None \<Rightarrow>
             (let normal = group_check (call_group c) l; used = gd_used normal + pending_plain (call_group c) q in
              Some (normal\<lparr>gd_used := used, gd_allowed := below used (gd_limit normal)\<rparr>))))"

definition quota_check :: "tool_call \<Rightarrow> tool_quota \<Rightarrow> bool" where
  "quota_check c q =
    (let pending = int (length (qt_pending q));
         shells = int (length (filter (\<lambda>(key, c, r). tc_name c = ''run_shell'') (qt_pending q))) in
     if \<not> below (qt_total q + pending) (qt_max_total q) then False
     else if tc_name c = ''run_shell'' \<and> \<not> below (qt_shell q + shells) (qt_max_shell q) then False
     else case quota_decision c q of
       Some d \<Rightarrow> gd_allowed d
     | None \<Rightarrow>
         if write_tool (tc_name c) then below (qt_write q) (qt_max_write q)
         else if tc_name c = ''run_shell'' then below (qt_shell q) (qt_max_shell q)
         else True)"

definition reserve_call :: "string \<Rightarrow> tool_call \<Rightarrow> (tool_quota, bool) proc" where
  "reserve_call key c q =
     (if al_get (qt_pending q) key \<noteq> None then (raise (ValueError ''duplicate quota reservation''), q)
      else if \<not> below (qt_total q + int (length (qt_pending q))) (qt_max_total q) \<or> \<not> quota_check c q then (ok False, q)
      else (ok True, q\<lparr>qt_pending := qt_pending q @ [(key, c, matching_read_reserve c q)]\<rparr>))"

definition call_reserve :: "string \<Rightarrow> tool_quota \<Rightarrow> read_reserve option" where
  "call_reserve key q = (case al_get (qt_pending q) key of Some (c, r) \<Rightarrow> r | None \<Rightarrow> None)"

definition record_call :: "tool_call \<Rightarrow> bool \<Rightarrow> tool_quota \<Rightarrow> read_reserve option \<times> tool_quota" where
  "record_call c succeeded q =
    (let reserve = matching_read_reserve c q;
         (consumed, q) =
           (if ts_terminal (tc_spec c) \<and> succeeded then (None, q\<lparr>qt_terminal_used := True\<rparr>)
            else case reserve of
              Some r \<Rightarrow>
                if succeeded then (Some r, q\<lparr>qt_reserves := remove1 r (qt_reserves q)\<rparr>)
                else (None, q\<lparr>qt_ledger := map_option (group_record (call_group c)) (qt_ledger q)\<rparr>)
            | None \<Rightarrow> (None, q\<lparr>qt_ledger := map_option (group_record (call_group c)) (qt_ledger q)\<rparr>));
         q = q\<lparr>qt_total := qt_total q + 1\<rparr>
     in (consumed,
         if write_tool (tc_name c) then q\<lparr>qt_write := qt_write q + 1\<rparr>
         else if tc_name c = ''run_shell'' then q\<lparr>qt_shell := qt_shell q + 1\<rparr> else q))"

definition commit_call :: "string \<Rightarrow> bool \<Rightarrow> (tool_quota, read_reserve option) proc" where
  "commit_call key succeeded q =
     (case al_get (qt_pending q) key of
        None \<Rightarrow> (raise (KeyError key), q)
      | Some (c, r) \<Rightarrow>
          (case record_call c succeeded (q\<lparr>qt_pending := al_del key (qt_pending q)\<rparr>) of (consumed, q) \<Rightarrow> (ok consumed, q)))"

definition finish_reservation :: "string \<Rightarrow> tool_quota \<Rightarrow> tool_quota" where
  "finish_reservation key q = q\<lparr>qt_pending := al_del key (qt_pending q)\<rparr>"

definition record_rejection :: "tool_call \<Rightarrow> tool_quota \<Rightarrow> tool_quota" where
  "record_rejection c q = q\<lparr>qt_ledger := map_option (group_reject (call_group c)) (qt_ledger q)\<rparr>"

definition acquire_shell :: "tool_quota \<Rightarrow> bool \<times> tool_quota" where
  "acquire_shell q = (if qt_slots q > 0 then (True, q\<lparr>qt_slots := qt_slots q - 1\<rparr>) else (False, q))"

definition release_shell :: "tool_quota \<Rightarrow> tool_quota" where
  "release_shell q = q\<lparr>qt_slots := qt_slots q + 1\<rparr>"

subsection \<open>The quota gate of the executor\<close>

text \<open>\<open>key\<close>: of a call prepared for a worker, which reserves; the answer: whether a shell slot was
  taken, and whether the call is rejected.\<close>

definition quota_gate :: "string option \<Rightarrow> tool_call \<Rightarrow> (tool_quota, bool \<times> bool) proc" where
  "quota_gate key c q =
    (let decision = quota_decision c q;
         (allowed, q') = (case key of Some k \<Rightarrow> reserve_call k c q | None \<Rightarrow> (ok (quota_check c q), q)) in
     case allowed of
       Inl e \<Rightarrow> (raise e, q')
     | Inr False \<Rightarrow> (ok (False, True), if decision = None then q' else record_rejection c q')
     | Inr True \<Rightarrow>
         if tc_name c = ''run_shell''
         then (case acquire_shell q' of (True, q') \<Rightarrow> (ok (True, False), q') | (False, q') \<Rightarrow> (ok (False, True), q'))
         else (ok (False, False), q'))"

text \<open>A whole call: \<open>executed\<close> is \<open>None\<close> when a later gate rejects it or the tool raises.\<close>

definition gated_call :: "string option \<Rightarrow> tool_call \<Rightarrow> bool option \<Rightarrow> tool_quota \<Rightarrow> tool_quota" where
  "gated_call key c executed q =
     (case quota_gate key c q of
        (Inl e, q) \<Rightarrow> q
      | (Inr (slot, True), q) \<Rightarrow> q
      | (Inr (slot, False), q) \<Rightarrow>
          (let q = (case executed of
                      None \<Rightarrow> q
                    | Some succeeded \<Rightarrow> (case key of Some k \<Rightarrow> snd (commit_call k succeeded q) | None \<Rightarrow> snd (record_call c succeeded q)));
               q = (case key of Some k \<Rightarrow> finish_reservation k q | None \<Rightarrow> q)
           in if slot then release_shell q else q))"

subsection \<open>Matching paths\<close>

lemma suffix_slash_iff:
  "suffix (CHR ''/'' # s) t \<longleftrightarrow> (\<exists>d. t = d @ CHR ''/'' # s)"
  by (auto simp: suffix_def)

text \<open>A requested path fits a reserved one exactly when, after normalising, both are not empty and the list of
  components of one ends with the list of the other: names are never cut in the middle.\<close>

theorem paths_match_iff:
  "paths_match p r \<longleftrightarrow> match_form p \<noteq> [] \<and> match_form r \<noteq> [] \<and>
     (suffix (split_on (CHR ''/'') (match_form r)) (split_on (CHR ''/'') (match_form p)) \<or>
      suffix (split_on (CHR ''/'') (match_form p)) (split_on (CHR ''/'') (match_form r)))"
proof -
  have key: "s = t \<or> suffix (CHR ''/'' # s) t \<longleftrightarrow> suffix (split_on (CHR ''/'') s) (split_on (CHR ''/'') t)" for s t
  proof
    assume "s = t \<or> suffix (CHR ''/'' # s) t"
    then show "suffix (split_on (CHR ''/'') s) (split_on (CHR ''/'') t)"
      by (auto simp: suffix_slash_iff split_on_slash suffix_def)
  next
    assume "suffix (split_on (CHR ''/'') s) (split_on (CHR ''/'') t)"
    then obtain ds where ds: "split_on (CHR ''/'') t = ds @ split_on (CHR ''/'') s" by (auto simp: suffix_def)
    have "t = join_with ''/'' (split_on (CHR ''/'') t)" by (simp add: join_split_on)
    also have "\<dots> = (if ds = [] then s else join_with ''/'' ds @ CHR ''/'' # s)"
    proof -
      have "join_with ''/'' (ds @ w # ws) = (if ds = [] then join_with ''/'' (w # ws) else join_with ''/'' ds @ CHR ''/'' # join_with ''/'' (w # ws))"
        for w ws
        by (induction "''/''" ds rule: join_with.induct) auto
      then show ?thesis using split_on_ne [of "CHR ''/''" s] join_split_on [of "CHR ''/''" s]
        unfolding ds by (cases "split_on (CHR ''/'') s") (simp, metis)
    qed
    finally show "s = t \<or> suffix (CHR ''/'' # s) t" by (auto simp: suffix_slash_iff split: if_splits)
  qed
  show ?thesis
    using key [of "match_form r" "match_form p"] key [of "match_form p" "match_form r"]
    by (auto simp: paths_match_def Let_def ends_with_def)
qed

text \<open>So a reserve for a file at the root serves the files of that name in every directory.\<close>

lemma root_reserve_serves_every_directory:
  "paths_match ''lib/vendor/setup.py'' ''setup.py'' \<and> paths_match ''setup.py'' ''lib/setup.py''"
  by code_simp

subsection \<open>Runs of the quota\<close>

text \<open>Worker calls reserve, then commit or finish; other calls are checked and recorded by the owner.  Such a call
  is checked at a gate before its execution and recorded after it; here both are one step, since the
  owner makes these calls one after the other.\<close>

datatype quota_event =
    Reserving string tool_call
  | Committing string bool
  | Finishing string
  | Calling tool_call bool
  | Granting string string int

fun quota_step :: "quota_event \<Rightarrow> tool_quota \<Rightarrow> read_reserve list \<times> tool_quota" where
  "quota_step (Reserving key c) q = ([], snd (reserve_call key c q))"
| "quota_step (Committing key s) q =
     (case commit_call key s q of (Inr (Some r), q) \<Rightarrow> ([r], q) | (_, q) \<Rightarrow> ([], q))"
| "quota_step (Finishing key) q = ([], finish_reservation key q)"
| "quota_step (Calling c s) q =
     (if quota_check c q then (case record_call c s q of (Some r, q) \<Rightarrow> ([r], q) | (None, q) \<Rightarrow> ([], q)) else ([], q))"
| "quota_step (Granting path kind generation) q = ([], snd (grant_read_reserve path kind generation q))"

fun quota_run :: "quota_event list \<Rightarrow> tool_quota \<Rightarrow> read_reserve list \<times> tool_quota" where
  "quota_run [] q = ([], q)"
| "quota_run (e # es) q = (case quota_step e q of (rs, q) \<Rightarrow> (case quota_run es q of (rs', q) \<Rightarrow> (rs @ rs', q)))"

definition waiting :: "(reservation \<Rightarrow> bool) \<Rightarrow> tool_quota \<Rightarrow> nat" where
  "waiting P q = length (filter (\<lambda>x. P (snd x)) (qt_pending q))"

lemma waiting_all: "length (qt_pending q) = waiting (\<lambda>_. True) q"
  by (simp add: waiting_def)

lemma pending_plain_waiting: "pending_plain g q = int (waiting (\<lambda>(c, r). call_group c = g \<and> r = None) q)"
  by (simp add: pending_plain_def waiting_def case_prod_unfold)

lemma waiting_pop:
  assumes "al_get (qt_pending q) key = Some x"
  shows "waiting P (q\<lparr>qt_pending := al_del key (qt_pending q)\<rparr>) + (if P x then 1 else 0) \<le> waiting P q"
proof -
  have "length (filter (\<lambda>y. P (snd y)) (al_del key xs)) + (if P x then 1 else 0) \<le> length (filter (\<lambda>y. P (snd y)) xs)"
    if "al_get xs key = Some x" for xs
    using that
  proof (induction xs)
    case (Cons y xs)
    show ?case
    proof (cases "fst y = key")
      case True
      moreover have "length (filter (\<lambda>y. P (snd y)) (al_del key xs)) \<le> length (filter (\<lambda>y. P (snd y)) xs)"
        by (induction xs) (auto simp: al_del_def)
      ultimately show ?thesis using Cons.prems by (cases y) (auto simp: al_del_def)
    next
      case False
      then have "al_get xs key = Some x" using Cons.prems by (cases y) simp
      then show ?thesis using Cons.IH False by (auto simp: al_del_def)
    qed
  qed simp
  then show ?thesis using assms by (simp add: waiting_def)
qed

lemma waiting_drop: "waiting P (q\<lparr>qt_pending := al_del key (qt_pending q)\<rparr>) \<le> waiting P q"
proof -
  have "length (filter (\<lambda>y. P (snd y)) (al_del key xs)) \<le> length (filter (\<lambda>y. P (snd y)) xs)" for xs :: "(string, reservation) alist"
    by (induction xs) (auto simp: al_del_def)
  then show ?thesis by (simp add: waiting_def)
qed

lemma waiting_push [simp]:
  "waiting P (q\<lparr>qt_pending := qt_pending q @ [(key, x)]\<rparr>) = waiting P q + (if P x then 1 else 0)"
  by (simp add: waiting_def)

text \<open>What recording a call does.\<close>

definition counts_of :: "tool_quota \<Rightarrow> budget_group \<Rightarrow> int" where
  "counts_of q g = (case qt_ledger q of Some l \<Rightarrow> gl_counts l g | None \<Rightarrow> 0)"

definition group_limit :: "tool_quota \<Rightarrow> budget_group \<Rightarrow> int option" where
  "group_limit q g = (case qt_ledger q of Some l \<Rightarrow> gl_limits l g | None \<Rightarrow> None)"

lemma record_effect:
  assumes "record_call c s q = (consumed, q')"
  shows "qt_total q' = qt_total q + 1" "qt_shell q' = qt_shell q + (if tc_name c = ''run_shell'' then 1 else 0)"
    "qt_pending q' = qt_pending q" "qt_max_total q' = qt_max_total q" "qt_max_shell q' = qt_max_shell q"
    "group_limit q' g = group_limit q g" "counts_of q' g \<le> counts_of q g + (if call_group c = g then 1 else 0)"
    "(\<exists>r. consumed = Some r \<and> matching_read_reserve c q = Some r \<and> qt_reserves q' = remove1 r (qt_reserves q)) \<or>
     consumed = None \<and> qt_reserves q' = qt_reserves q"
  using assms
  by (auto simp: record_call_def Let_def counts_of_def group_limit_def group_record_def write_tool_def
      split: if_splits option.splits)

lemma checked_room:
  assumes "quota_check c q"
  shows "below (qt_total q + int (waiting (\<lambda>_. True) q)) (qt_max_total q)"
    "tc_name c = ''run_shell'' \<Longrightarrow> below (qt_shell q + int (waiting (\<lambda>(c, r). tc_name c = ''run_shell'') q)) (qt_max_shell q)"
    "call_group c = g \<Longrightarrow> g \<noteq> GRead \<Longrightarrow> \<not> ts_terminal (tc_spec c) \<Longrightarrow> qt_ledger q \<noteq> None \<Longrightarrow>
       below (counts_of q g + pending_plain g q) (group_limit q g)"
proof -
  show "below (qt_total q + int (waiting (\<lambda>_. True) q)) (qt_max_total q)"
    using assms by (auto simp: quota_check_def Let_def waiting_all split: if_splits)
  show "below (qt_shell q + int (waiting (\<lambda>(c, r). tc_name c = ''run_shell'') q)) (qt_max_shell q)" if "tc_name c = ''run_shell''"
    using assms that by (auto simp: quota_check_def Let_def waiting_def case_prod_unfold split: if_splits)
  assume g: "call_group c = g" "g \<noteq> GRead" "\<not> ts_terminal (tc_spec c)" "qt_ledger q \<noteq> None"
  then obtain l where l: "qt_ledger q = Some l" by blast
  have "matching_read_reserve c q = None" using g by (simp add: matching_read_reserve_def)
  then have "quota_decision c q = Some ((group_check g l)\<lparr>gd_used := gd_used (group_check g l) + pending_plain g q,
      gd_allowed := below (gd_used (group_check g l) + pending_plain g q) (gd_limit (group_check g l))\<rparr>)"
    using g l by (simp add: quota_decision_def Let_def)
  then show "below (counts_of q g + pending_plain g q) (group_limit q g)"
    using assms by (auto simp: quota_check_def Let_def group_check_def counts_of_def group_limit_def l split: if_splits)
qed

definition bounded :: "int \<Rightarrow> int option \<Rightarrow> bool" where
  "bounded n limit \<longleftrightarrow> (case limit of Some m \<Rightarrow> n \<le> max 0 m | None \<Rightarrow> True)"

lemma below_bounded: "below n limit \<Longrightarrow> k \<le> n + 1 \<Longrightarrow> bounded k limit"
  by (cases limit) (auto simp: bounded_def)

lemma bounded_mono: "bounded n limit \<Longrightarrow> k \<le> n \<Longrightarrow> bounded k limit"
  by (cases limit) (auto simp: bounded_def)

abbreviation shells_waiting :: "tool_quota \<Rightarrow> nat" where
  "shells_waiting \<equiv> waiting (\<lambda>(c, r). tc_name c = ''run_shell'')"

definition calls_inv :: "tool_quota \<Rightarrow> bool" where
  "calls_inv q \<longleftrightarrow> bounded (qt_total q + int (waiting (\<lambda>_. True) q)) (qt_max_total q) \<and>
     bounded (qt_shell q + int (shells_waiting q)) (qt_max_shell q)"

definition groups_inv :: "tool_quota \<Rightarrow> bool" where
  "groups_inv q \<longleftrightarrow>
     (\<forall>(key, c, r) \<in> set (qt_pending q). call_group c \<noteq> GRead \<longrightarrow> r = None) \<and>
     (\<forall>g. g \<noteq> GRead \<longrightarrow> bounded (counts_of q g + pending_plain g q) (group_limit q g))"

fun plain_event :: "quota_event \<Rightarrow> bool" where
  "plain_event (Reserving key c) = (\<not> ts_terminal (tc_spec c))"
| "plain_event (Calling c s) = (\<not> ts_terminal (tc_spec c))"
| "plain_event _ = True"

lemma counts_frame [simp]:
  "counts_of (q\<lparr>qt_pending := ps\<rparr>) = counts_of q" "group_limit (q\<lparr>qt_pending := ps\<rparr>) = group_limit q"
  "counts_of (q\<lparr>qt_reserves := rs\<rparr>) = counts_of q" "group_limit (q\<lparr>qt_reserves := rs\<rparr>) = group_limit q"
  "waiting P (q\<lparr>qt_reserves := rs\<rparr>) = waiting P q"
  by (simp_all add: counts_of_def group_limit_def waiting_def fun_eq_iff)

lemma al_del_subset: "set (al_del key xs) \<subseteq> set xs"
  by (auto simp: al_del_def)

lemma al_get_mem: "al_get xs key = Some x \<Longrightarrow> (key, x) \<in> set xs"
  by (rule map_of_SomeD)

text \<open>Recording a call that was counted as waiting, or for which there was room.\<close>

lemma record_keeps_calls:
  assumes "record_call c s q = (consumed, q')"
    and "bounded (qt_total q + int (waiting (\<lambda>_. True) q) + 1) (qt_max_total q)"
    and "bounded (qt_shell q + int (shells_waiting q) + (if tc_name c = ''run_shell'' then 1 else 0)) (qt_max_shell q)"
  shows "calls_inv q'"
  using assms record_effect(1-5) [OF assms(1)] by (auto simp: calls_inv_def waiting_def add_ac elim: bounded_mono)

lemma record_keeps_groups:
  assumes "record_call c s q = (consumed, q')"
    and "\<forall>(key, c, r) \<in> set (qt_pending q). call_group c \<noteq> GRead \<longrightarrow> r = None"
    and "\<And>g. g \<noteq> GRead \<Longrightarrow> bounded (counts_of q g + pending_plain g q + (if call_group c = g then 1 else 0)) (group_limit q g)"
  shows "groups_inv q'"
proof -
  have "bounded (counts_of q' g + pending_plain g q') (group_limit q' g)" if "g \<noteq> GRead" for g
    using assms(3) [OF that] record_effect(3,6,7) [OF assms(1)] by (auto simp: pending_plain_def intro: bounded_mono)
  then show ?thesis using assms(2) record_effect(3) [OF assms(1)] by (simp add: groups_inv_def)
qed

lemma reserve_call_cases:
  obtains (same) r where "reserve_call key c q = (r, q)" "r \<noteq> ok True"
  | (reserved) "quota_check c q" "al_get (qt_pending q) key = None"
    "reserve_call key c q = (ok True, q\<lparr>qt_pending := qt_pending q @ [(key, c, matching_read_reserve c q)]\<rparr>)"
proof -
  have "(\<exists>r. reserve_call key c q = (r, q) \<and> r \<noteq> ok True) \<or> (quota_check c q \<and> al_get (qt_pending q) key = None \<and>
      reserve_call key c q = (ok True, q\<lparr>qt_pending := qt_pending q @ [(key, c, matching_read_reserve c q)]\<rparr>))"
    unfolding reserve_call_def by (cases "al_get (qt_pending q) key") simp_all
  then show thesis using same reserved by blast
qed

lemma commit_cases:
  obtains (missing) e where "commit_call key s q = (raise e, q)"
  | (found) c r consumed q' where "al_get (qt_pending q) key = Some (c, r)"
    "record_call c s (q\<lparr>qt_pending := al_del key (qt_pending q)\<rparr>) = (consumed, q')" "commit_call key s q = (ok consumed, q')"
  by (cases "al_get (qt_pending q) key"; force simp: commit_call_def split: prod.splits)

lemma step_committing: "snd (quota_step (Committing key s) q) = snd (commit_call key s q)"
  by (auto split: prod.split sum.split option.split)

lemma step_calling: "snd (quota_step (Calling c s) q) = (if quota_check c q then snd (record_call c s q) else q)"
  by (auto split: prod.split option.split)

lemma finish_keeps_calls: "calls_inv q \<Longrightarrow> calls_inv (finish_reservation key q)"
  using waiting_drop [of "\<lambda>_. True" key q] waiting_drop [of "\<lambda>(c, r). tc_name c = ''run_shell''" key q]
  by (auto simp: calls_inv_def finish_reservation_def elim!: bounded_mono)

lemma step_keeps_calls:
  assumes "calls_inv q"
  shows "calls_inv (snd (quota_step e q))"
proof (cases e)
  case (Reserving key c)
  then show ?thesis
  proof (cases rule: reserve_call_cases [of key c q])
    case same
    then show ?thesis using assms Reserving by simp
  next
    case reserved
    then show ?thesis using checked_room(1,2) [OF reserved(1)] assms Reserving
      by (auto simp: calls_inv_def elim!: below_bounded)
  qed
next
  case (Committing key s)
  show ?thesis unfolding Committing step_committing
  proof (cases rule: commit_cases [of key s q])
    case missing
    then show "calls_inv (snd (commit_call key s q))" using assms by simp
  next
    case (found c r consumed q')
    have "calls_inv q'"
      using assms waiting_pop [OF found(1), of "\<lambda>_. True"] waiting_pop [OF found(1), of "\<lambda>(c, r). tc_name c = ''run_shell''"]
      by (intro record_keeps_calls [OF found(2)]) (auto simp: calls_inv_def elim!: bounded_mono)
    then show "calls_inv (snd (commit_call key s q))" by (simp add: found(3))
  qed
next
  case (Calling c s)
  obtain consumed q' where r: "record_call c s q = (consumed, q')" by fastforce
  have "calls_inv q'" if "quota_check c q"
    using assms checked_room(1,2) [OF that]
    by (intro record_keeps_calls [OF r]) (auto simp: calls_inv_def elim: below_bounded)
  then show ?thesis unfolding Calling step_calling r using assms by simp
next
  case (Finishing key)
  then show ?thesis using finish_keeps_calls [OF assms] by simp
next
  case (Granting path kind generation)
  then show ?thesis using assms by (simp add: grant_read_reserve_def Let_def calls_inv_def)
qed

lemma step_keeps_groups:
  assumes "groups_inv q" "plain_event e"
  shows "groups_inv (snd (quota_step e q))"
proof (cases e)
  case (Reserving key c)
  then show ?thesis
  proof (cases rule: reserve_call_cases [of key c q])
    case same
    then show ?thesis using assms Reserving by simp
  next
    case reserved
    have "bounded (counts_of q g + (pending_plain g q + 1)) (group_limit q g)" if "g \<noteq> GRead" "call_group c = g" for g
      using checked_room(3) [OF reserved(1) that(2,1)] assms(2) Reserving
      by (cases "qt_ledger q") (auto simp: group_limit_def bounded_def [of _ None] intro: below_bounded)
    then have "bounded (counts_of q g + pending_plain g (q\<lparr>qt_pending := qt_pending q @ [(key, c, matching_read_reserve c q)]\<rparr>)) (group_limit q g)"
      if "g \<noteq> GRead" for g
      using that assms(1) by (cases "call_group c = g") (auto simp: pending_plain_waiting groups_inv_def elim: bounded_mono)
    moreover have "matching_read_reserve c q = None" if "call_group c \<noteq> GRead"
      using that by (simp add: matching_read_reserve_def)
    ultimately show ?thesis using assms(1) reserved(3) Reserving by (auto simp: groups_inv_def)
  qed
next
  case (Committing key s)
  show ?thesis unfolding Committing step_committing
  proof (cases rule: commit_cases [of key s q])
    case missing
    then show "groups_inv (snd (commit_call key s q))" using assms by simp
  next
    case (found c r consumed q')
    have plain: "call_group c \<noteq> GRead \<Longrightarrow> r = None"
      using assms(1) al_get_mem [OF found(1)] by (force simp: groups_inv_def)
    have "bounded (counts_of q g + pending_plain g (q\<lparr>qt_pending := al_del key (qt_pending q)\<rparr>) + (if call_group c = g then 1 else 0)) (group_limit q g)"
      if "g \<noteq> GRead" for g
      using assms(1) that plain waiting_pop [OF found(1), of "\<lambda>(c, r). call_group c = g \<and> r = None"]
      by (auto simp: groups_inv_def pending_plain_waiting elim!: bounded_mono allE [of _ g])
    then have "groups_inv q'"
      using assms(1) al_del_subset [of key "qt_pending q"]
      by (intro record_keeps_groups [OF found(2)]) (auto simp: groups_inv_def)
    then show "groups_inv (snd (commit_call key s q))" by (simp add: found(3))
  qed
next
  case (Calling c s)
  obtain consumed q' where r: "record_call c s q = (consumed, q')" by fastforce
  have "groups_inv q'" if room: "quota_check c q"
  proof (rule record_keeps_groups [OF r])
    show "\<forall>(key, c, r) \<in> set (qt_pending q). call_group c \<noteq> GRead \<longrightarrow> r = None" using assms(1) by (simp add: groups_inv_def)
    show "bounded (counts_of q g + pending_plain g q + (if call_group c = g then 1 else 0)) (group_limit q g)" if g: "g \<noteq> GRead" for g
    proof (cases "call_group c = g \<and> qt_ledger q \<noteq> None")
      case True
      then show ?thesis using checked_room(3) [OF room, of g] g assms(2) Calling by (auto intro: below_bounded)
    next
      case False
      then show ?thesis using assms(1) g by (auto simp: groups_inv_def group_limit_def bounded_def [of _ None])
    qed
  qed
  then show ?thesis unfolding Calling step_calling r using assms by simp
next
  case (Finishing key)
  let ?f = "finish_reservation key q"
  have "bounded (counts_of ?f g + pending_plain g ?f) (group_limit ?f g)" if "g \<noteq> GRead" for g
  proof -
    have "bounded (counts_of q g + pending_plain g q) (group_limit q g)" using assms(1) that by (simp add: groups_inv_def)
    then show ?thesis using waiting_drop [of "\<lambda>(c, r). call_group c = g \<and> r = None" key q]
      by (auto simp: finish_reservation_def pending_plain_waiting elim!: bounded_mono)
  qed
  then show ?thesis using assms(1) al_del_subset [of key "qt_pending q"] Finishing
    by (auto simp: groups_inv_def finish_reservation_def)
next
  case (Granting path kind generation)
  then show ?thesis using assms by (simp add: grant_read_reserve_def Let_def groups_inv_def pending_plain_def)
qed

lemma snd_quota_run: "snd (quota_run (e # es) q) = snd (quota_run es (snd (quota_step e q)))"
  by (simp split: prod.split)

lemma run_keeps_calls: "calls_inv q \<Longrightarrow> calls_inv (snd (quota_run es q))"
  by (induction es arbitrary: q) (simp_all only: snd_quota_run step_keeps_calls quota_run.simps(1) snd_conv)

lemma run_keeps_groups: "groups_inv q \<Longrightarrow> \<forall>e \<in> set es. plain_event e \<Longrightarrow> groups_inv (snd (quota_run es q))"
  by (induction es arbitrary: q) (simp_all add: snd_quota_run step_keeps_groups del: quota_run.simps(2) quota_step.simps)

text \<open>C22. No quota is exceeded, however reservations, commits and direct calls follow each other: the counters of calls made
  and of those reserved stay within the limit of all calls, the shell calls within theirs; and as long as no
  call is declared terminal, neither do the groups other than reading.\<close>

theorem quota_never_exceeded:
  assumes "q = snd (quota_run es (new_quota writes shell calls slots groups))"
  shows "bounded (qt_total q + int (length (qt_pending q))) (qt_max_total q) \<and> bounded (qt_shell q) (qt_max_shell q) \<and>
    ((\<forall>e \<in> set es. plain_event e) \<longrightarrow> (\<forall>g. g \<noteq> GRead \<longrightarrow> bounded (counts_of q g) (group_limit q g)))"
proof -
  let ?q0 = "new_quota writes shell calls slots groups"
  have start: "calls_inv ?q0" "groups_inv ?q0"
    by (auto simp: calls_inv_def groups_inv_def new_quota_def waiting_def bounded_def counts_of_def group_limit_def
        new_group_ledger_def pending_plain_def split: option.split)
  have "calls_inv q" using run_keeps_calls [OF start(1)] assms by simp
  moreover have "(\<forall>e \<in> set es. plain_event e) \<longrightarrow> groups_inv q" using run_keeps_groups [OF start(2)] assms by simp
  ultimately show ?thesis
    by (auto simp: calls_inv_def groups_inv_def waiting_all pending_plain_def elim!: bounded_mono)
qed

lemma quota_never_exceeded_witness:
  "bounded (qt_shell (snd (quota_run [Reserving ''k'' \<lparr>tc_name = ''run_shell'', tc_spec = \<lparr>ts_group = [], ts_terminal = False\<rparr>, tc_path = []\<rparr>,
      Committing ''k'' True] (new_quota None (Some 1) (Some 3) 3 None)))) (Some 1)"
  using quota_never_exceeded [OF refl, of "[Reserving ''k'' \<lparr>tc_name = ''run_shell'', tc_spec = \<lparr>ts_group = [], ts_terminal = False\<rparr>, tc_path = []\<rparr>,
      Committing ''k'' True]" None "Some 1" "Some 3" 3 None]
  by (simp add: reserve_call_def quota_check_def quota_decision_def new_quota_def commit_call_def record_call_def
      matching_read_reserve_def infer_group_def all_groups_def casefold_def strip_text_def write_tool_def)

subsection \<open>Reserved reads\<close>

definition reserves_inv :: "tool_quota \<Rightarrow> bool" where
  "reserves_inv q \<longleftrightarrow> distinct (al_keys (qt_pending q)) \<and>
     (\<forall>key c r. (key, c, Some r) \<in> set (qt_pending q) \<longrightarrow> r \<in> set (qt_reserves q)) \<and>
     (\<forall>key c key' c' r. (key, c, Some r) \<in> set (qt_pending q) \<longrightarrow> (key', c', Some r) \<in> set (qt_pending q) \<longrightarrow> key = key')"

lemma matching_available: "matching_read_reserve c q = Some r \<Longrightarrow> r \<in> set (available_reserves q)"
  by (auto simp: matching_read_reserve_def Let_def find_Some_iff split: if_splits option.splits)

lemma matching_reserve:
  assumes "matching_read_reserve c q = Some r"
  shows "r \<in> set (qt_reserves q)" "(key, c', Some r) \<notin> set (qt_pending q)"
  using matching_available [OF assms] by (auto simp: available_reserves_def list_ex_iff)

lemma record_keeps_reserves:
  assumes "record_call c s q = (consumed, q')" "reserves_inv q"
  shows "reserves_inv q' \<and> length (qt_reserves q') + length (case consumed of Some r \<Rightarrow> [r] | None \<Rightarrow> []) = length (qt_reserves q)"
proof -
  consider (none) "consumed = None" "qt_reserves q' = qt_reserves q"
    | (some) r where "consumed = Some r" "matching_read_reserve c q = Some r" "qt_reserves q' = remove1 r (qt_reserves q)"
    using record_effect(8) [OF assms(1)] by blast
  then show ?thesis
  proof cases
    case none
    then show ?thesis using assms(2) record_effect(3) [OF assms(1)] by (simp add: reserves_inv_def)
  next
    case (some r)
    have "length (qt_reserves q) > 0" using matching_reserve(1) [OF some(2)] by (auto simp: length_pos_if_in_set)
    then have "length (remove1 r (qt_reserves q)) + 1 = length (qt_reserves q)"
      using matching_reserve(1) [OF some(2)] by (simp add: length_remove1)
    moreover have "r' \<in> set (remove1 r (qt_reserves q))" if "(key, c', Some r') \<in> set (qt_pending q)" for key c' r'
    proof -
      have "r' \<noteq> r" using matching_reserve(2) [OF some(2), of key c'] that by auto
      moreover have "r' \<in> set (qt_reserves q)" using assms(2) that unfolding reserves_inv_def by blast
      ultimately show ?thesis by simp
    qed
    ultimately show ?thesis
      using assms(2) some record_effect(3) [OF assms(1)] unfolding reserves_inv_def by auto
  qed
qed

lemma pop_keeps_reserves: "reserves_inv q \<Longrightarrow> reserves_inv (q\<lparr>qt_pending := al_del key (qt_pending q)\<rparr>)"
  using al_del_subset [of key "qt_pending q"] unfolding reserves_inv_def by (simp add: al_keys_del_distinct) blast

fun grants_of :: "quota_event \<Rightarrow> tool_quota \<Rightarrow> nat" where
  "grants_of (Granting path kind generation) q = (if fst (grant_read_reserve path kind generation q) then 1 else 0)"
| "grants_of _ q = 0"

fun granted_in :: "quota_event list \<Rightarrow> tool_quota \<Rightarrow> nat" where
  "granted_in [] q = 0"
| "granted_in (e # es) q = grants_of e q + granted_in es (snd (quota_step e q))"

lemma step_keeps_reserves:
  assumes "reserves_inv q"
  shows "reserves_inv (snd (quota_step e q)) \<and>
    length (fst (quota_step e q)) + length (qt_reserves (snd (quota_step e q))) = length (qt_reserves q) + grants_of e q"
proof (cases e)
  case (Reserving key c)
  then show ?thesis
  proof (cases rule: reserve_call_cases [of key c q])
    case same
    then show ?thesis using assms Reserving by simp
  next
    case reserved
    let ?p = "qt_pending q @ [(key, c, matching_read_reserve c q)]"
    have keys: "distinct (al_keys ?p)"
      using assms reserved(2) by (simp add: reserves_inv_def al_keys_def al_get_None_key [unfolded al_keys_def])
    have there: "r \<in> set (qt_reserves q)" if "(key', c', Some r) \<in> set ?p" for key' c' r
      using that assms matching_reserve(1) [of c q r] by (auto simp: reserves_inv_def)
    have one: "key1 = key2" if "(key1, c1, Some r) \<in> set ?p" "(key2, c2, Some r) \<in> set ?p" for key1 key2 c1 c2 r
      using that assms matching_reserve(2) [of c q r] unfolding reserves_inv_def by fastforce
    have sel: "qt_pending (q\<lparr>qt_pending := ?p\<rparr>) = ?p" "qt_reserves (q\<lparr>qt_pending := ?p\<rparr>) = qt_reserves q"
      by simp_all
    have "reserves_inv (q\<lparr>qt_pending := ?p\<rparr>)"
      unfolding reserves_inv_def sel by (intro conjI allI impI keys) (erule there, erule (1) one)
    then show ?thesis using Reserving reserved(3) by simp
  qed
next
  case (Committing key s)
  show ?thesis
  proof (cases rule: commit_cases [of key s q])
    case missing
    then show ?thesis using assms Committing by simp
  next
    case (found c r consumed q')
    show ?thesis
      using record_keeps_reserves [OF found(2) pop_keeps_reserves [OF assms]] Committing found(3) by (cases consumed) auto
  qed
next
  case (Calling c s)
  obtain consumed q' where r: "record_call c s q = (consumed, q')" by fastforce
  show ?thesis using record_keeps_reserves [OF r assms] assms Calling r by (cases consumed) auto
next
  case (Finishing key)
  then show ?thesis using pop_keeps_reserves [OF assms] by (simp add: finish_reservation_def)
next
  case (Granting path kind generation)
  then show ?thesis using assms by (simp add: grant_read_reserve_def Let_def reserves_inv_def)
qed

lemma run_keeps_reserves:
  "reserves_inv q \<Longrightarrow> reserves_inv (snd (quota_run es q)) \<and>
     length (fst (quota_run es q)) + length (qt_reserves (snd (quota_run es q))) = length (qt_reserves q) + granted_in es q"
proof (induction es arbitrary: q)
  case (Cons e es)
  let ?q = "snd (quota_step e q)"
  have run: "fst (quota_run (e # es) q) = fst (quota_step e q) @ fst (quota_run es ?q)" by (simp split: prod.split)
  show ?case using Cons.IH [of ?q] step_keeps_reserves [OF Cons.prems, of e]
    unfolding snd_quota_run run granted_in.simps length_append by linarith
qed simp

text \<open>A read reserve is spent at most once: in every run as many reserves are consumed or left as were granted,
  a reserve a waiting call relies on is still there, and no two waiting calls rely on the same one.\<close>

theorem reserves_spent_once:
  fixes writes shell calls slots groups es
  defines "q0 \<equiv> new_quota writes shell calls slots groups"
  shows "length (fst (quota_run es q0)) + length (qt_reserves (snd (quota_run es q0))) = granted_in es q0 \<and>
    reserves_inv (snd (quota_run es q0))"
proof -
  have "reserves_inv q0" "qt_reserves q0 = []" by (simp_all add: q0_def new_quota_def reserves_inv_def al_keys_def)
  then show ?thesis using run_keeps_reserves [of q0 es] by simp
qed

text \<open>Beyond the read budget only reserved reads pass: when the budget is used up, a read call is let through
  only for a reserve that is there, not promised to a waiting call, and for everything or for this path; one
  made for a path after an edit lock serves \<open>read_file\<close> only.\<close>

theorem exhausted_reads_are_reserved:
  assumes "quota_check c q" "call_group c = GRead" "\<not> ts_terminal (tc_spec c)"
    and "qt_ledger q = Some l" "\<not> below (gl_counts l GRead) (gl_limits l GRead)"
  shows "\<exists>r \<in> set (qt_reserves q). matching_read_reserve c q = Some r \<and>
    (\<forall>key c'. (key, c', Some r) \<notin> set (qt_pending q)) \<and>
    (rr_path r = ''*'' \<or> paths_match (forward_slashes (tc_path c)) (rr_path r)) \<and>
    (rr_kind r = ''post_lock'' \<longrightarrow> rr_path r = ''*'' \<or> tc_name c = ''read_file'')"
proof -
  have not_below: "\<not> below (gl_counts l GRead + pending_plain GRead q) (gl_limits l GRead)"
    using assms(5) by (cases "gl_limits l GRead") (auto simp: pending_plain_def)
  obtain r where r: "matching_read_reserve c q = Some r"
    using assms not_below by (cases "matching_read_reserve c q")
      (auto simp: quota_check_def quota_decision_def group_check_def Let_def split: if_splits)
  have "(rr_path r = ''*'' \<or> paths_match (forward_slashes (tc_path c)) (rr_path r)) \<and>
    (rr_kind r = ''post_lock'' \<longrightarrow> rr_path r = ''*'' \<or> tc_name c = ''read_file'')"
    using r assms(2) unfolding matching_read_reserve_def Let_def
    by (auto simp: find_Some_iff split: if_splits option.splits)
  then show ?thesis using r matching_reserve [OF r] by blast
qed

definition plain_read :: tool_call where
  "plain_read = \<lparr>tc_name = ''read_file'', tc_spec = \<lparr>ts_group = [], ts_terminal = False\<rparr>, tc_path = ''a.py''\<rparr>"

definition reserved_quota :: tool_quota where
  "reserved_quota = snd (grant_read_reserve ''a.py'' ''post_lock'' 1 (new_quota None None None 3 (Some [(GRead, Some 0)])))"

lemma exhausted_reads_are_reserved_witness:
  "\<exists>r \<in> set (qt_reserves reserved_quota). matching_read_reserve plain_read reserved_quota = Some r"
proof -
  have pass: "quota_check plain_read reserved_quota" by code_simp
  have read: "call_group plain_read = GRead" by code_simp
  have plain: "\<not> ts_terminal (tc_spec plain_read)" by (simp add: plain_read_def)
  have led: "qt_ledger reserved_quota = Some (new_group_ledger [(GRead, Some 0)])"
    by (simp add: reserved_quota_def grant_read_reserve_def new_quota_def Let_def)
  have empty: "\<not> below (gl_counts (new_group_ledger [(GRead, Some 0)]) GRead) (gl_limits (new_group_ledger [(GRead, Some 0)]) GRead)"
    by (simp add: new_group_ledger_def)
  show ?thesis using exhausted_reads_are_reserved [OF pass read plain led empty] by blast
qed

subsection \<open>A whole call\<close>

lemma al_del_append: "al_get ps key = None \<Longrightarrow> al_del key (ps @ [(key, x)]) = ps"
  by (auto simp: al_del_def al_get_None_key al_keys_def intro!: filter_True)

lemma record_slots: "qt_slots (snd (record_call c s q)) = qt_slots q" "qt_pending (snd (record_call c s q)) = qt_pending q"
  by (auto simp: record_call_def Let_def split: option.split)

lemma snd_commit_call:
  "snd (commit_call key s q) = (case al_get (qt_pending q) key of None \<Rightarrow> q
     | Some (c, r) \<Rightarrow> snd (record_call c s (q\<lparr>qt_pending := al_del key (qt_pending q)\<rparr>)))"
  by (simp add: commit_call_def case_prod_unfold split: option.split)

lemma commit_slots:
  "qt_slots (snd (commit_call key s q)) = qt_slots q"
  "al_del key (qt_pending (snd (commit_call key s q))) = al_del key (qt_pending q)"
  by (simp_all add: snd_commit_call record_slots split: option.split prod.split) (simp_all add: al_del_def)

lemma rejection_frame [simp]:
  "qt_slots (record_rejection c q) = qt_slots q" "qt_pending (record_rejection c q) = qt_pending q"
  by (simp_all add: record_rejection_def)

definition let_in :: "string option \<Rightarrow> tool_call \<Rightarrow> tool_quota \<Rightarrow> tool_quota" where
  "let_in key c q =
     (case key of Some k \<Rightarrow> q\<lparr>qt_pending := qt_pending q @ [(k, c, matching_read_reserve c q)]\<rparr> | None \<Rightarrow> q)"

lemma quota_gate_cases:
  assumes "\<forall>k. key = Some k \<longrightarrow> al_get (qt_pending q) k = None"
  obtains (refused) q' where "quota_gate key c q = (ok (False, True), q')" "qt_slots q' = qt_slots q" "qt_pending q' = qt_pending q"
  | (no_slot) "tc_name c = ''run_shell''" "qt_slots q \<le> 0" "quota_gate key c q = (ok (False, True), let_in key c q)"
  | (slot) "tc_name c = ''run_shell''"
      "quota_gate key c q = (ok (True, False), (let_in key c q)\<lparr>qt_slots := qt_slots q - 1\<rparr>)"
  | (through) "quota_gate key c q = (ok (False, False), let_in key c q)"
proof -
  define a where "a = (case key of Some k \<Rightarrow> reserve_call k c q | None \<Rightarrow> (ok (quota_check c q), q))"
  have "a = (ok True, let_in key c q) \<or> a = (ok False, q)"
    using assms by (cases key) (auto simp: a_def let_in_def reserve_call_def split: if_splits)
  moreover have "quota_gate key c q = (case a of (Inl e, q') \<Rightarrow> (raise e, q')
     | (Inr False, q') \<Rightarrow> (ok (False, True), if quota_decision c q = None then q' else record_rejection c q')
     | (Inr True, q') \<Rightarrow> if tc_name c = ''run_shell''
         then (case acquire_shell q' of (True, q') \<Rightarrow> (ok (True, False), q') | (False, q') \<Rightarrow> (ok (False, True), q'))
         else (ok (False, False), q'))"
    unfolding quota_gate_def a_def [symmetric] Let_def by (auto split: prod.split sum.split bool.split)
  moreover have "qt_slots (let_in key c q) = qt_slots q" by (simp add: let_in_def split: option.split)
  ultimately show thesis using refused no_slot slot through by (auto simp: acquire_shell_def split: if_splits)
qed

text \<open>A call gives back what it took: after it, whether it was refused, rejected later, raised, failed or
  succeeded, the shell slots are as before, and so are the reservations, except when a reserved shell call
  finds no free slot.\<close>

theorem calls_give_back:
  assumes "\<forall>k. key = Some k \<longrightarrow> al_get (qt_pending q) k = None"
  shows "qt_slots (gated_call key c executed q) = qt_slots q \<and>
    (\<not> (key \<noteq> None \<and> tc_name c = ''run_shell'' \<and> qt_slots q \<le> 0) \<longrightarrow> qt_pending (gated_call key c executed q) = qt_pending q)"
proof -
  let ?fin = "\<lambda>m. (case key of Some k \<Rightarrow> finish_reservation k
      (case executed of None \<Rightarrow> m | Some s \<Rightarrow> snd (commit_call k s m))
    | None \<Rightarrow> (case executed of None \<Rightarrow> m | Some s \<Rightarrow> snd (record_call c s m)))"
  have finish: "qt_slots (?fin m) = qt_slots m \<and> qt_pending (?fin m) = qt_pending q"
    if "qt_pending m = qt_pending (let_in key c q)" for m
    using that assms by (cases key; cases executed)
      (auto simp: finish_reservation_def let_in_def commit_slots record_slots al_del_append)
  from assms show ?thesis
  proof (cases rule: quota_gate_cases [of key q c])
    case refused
    then show ?thesis by (simp add: gated_call_def)
  next
    case no_slot
    then show ?thesis by (auto simp: gated_call_def let_in_def split: option.split)
  next
    case slot
    let ?m = "(let_in key c q)\<lparr>qt_slots := qt_slots q - 1\<rparr>"
    have "gated_call key c executed q = release_shell (?fin ?m)"
      unfolding gated_call_def slot(2) by (auto simp: Let_def split: option.split)
    then show ?thesis using finish [of ?m] by (simp add: release_shell_def)
  next
    case through
    have "gated_call key c executed q = ?fin (let_in key c q)"
      unfolding gated_call_def through by (auto simp: Let_def split: option.split)
    moreover have "qt_slots (let_in key c q) = qt_slots q" by (simp add: let_in_def split: option.split)
    ultimately show ?thesis using finish [of "let_in key c q"] by simp
  qed
qed

lemma calls_give_back_witness:
  "qt_pending (gated_call (Some ''k'') plain_read (Some True) reserved_quota) = []"
proof -
  have "qt_pending reserved_quota = []" by (simp add: reserved_quota_def grant_read_reserve_def new_quota_def Let_def)
  then show ?thesis using calls_give_back [of "Some ''k''" reserved_quota plain_read "Some True"]
    by (simp add: plain_read_def)
qed

end
