(* ===== verification/ToolResilience.thy ===== *)
theory ToolResilience
  imports Prelude
begin

text \<open>
  Rate limits, circuit breaking and retries of the tools of a run: \<open>agent_runtime/tool_resilience.py\<close>.
  The controller keeps a bucket per tool; \<open>before_call\<close> is \<open>before\<close>, \<open>after_call\<close> is \<open>after\<close>.
  A reading of the clock is an argument; times are real numbers.  Both methods read the clock just before
  they take the lock, so readings of different workers may come out of order; a step takes both at once.
\<close>

record resilience_spec =
  re_rate :: int
  re_threshold :: int
  re_replay :: string
  re_retries :: int
  re_backoff :: real

record resilience_decision =
  rd_allowed :: bool
  rd_reason :: string
  rd_retry_after :: real

record bucket =
  bk_calls :: "real list"
  bk_failures :: nat
  bk_open_until :: real

definition new_bucket :: bucket where
  "new_bucket = \<lparr>bk_calls = [], bk_failures = 0, bk_open_until = 0\<rparr>"

type_synonym buckets = "(string, bucket) alist"

definition tool_bucket :: "buckets \<Rightarrow> string \<Rightarrow> bucket" where
  "tool_bucket m name = (case al_get m name of Some b \<Rightarrow> b | None \<Rightarrow> new_bucket)"

abbreviation permit :: resilience_decision where
  "permit \<equiv> \<lparr>rd_allowed = True, rd_reason = [], rd_retry_after = 0\<rparr>"

definition before_call ::
  "string \<Rightarrow> resilience_spec \<Rightarrow> real \<Rightarrow> buckets \<Rightarrow> resilience_decision \<times> buckets" where
  "before_call name spec now m =
    (let rate = max 0 (re_rate spec); threshold = max 0 (re_threshold spec) in
     if rate \<le> 0 \<and> threshold \<le> 0 then (permit, m)
     else
       let b = tool_bucket m name; m = al_put name b m in
       if bk_open_until b > now
       then (\<lparr>rd_allowed = False, rd_reason = ''circuit_open'', rd_retry_after = max 0 (bk_open_until b - now)\<rparr>, m)
       else if 0 < rate then
         let calls = filter (\<lambda>stamp. now - stamp < 60) (bk_calls b) in
         if int (length calls) \<ge> rate
         then (\<lparr>rd_allowed = False, rd_reason = ''rate_limited'', rd_retry_after = 60 - (now - hd calls)\<rparr>,
               al_put name (b\<lparr>bk_calls := calls\<rparr>) m)
         else (permit, al_put name (b\<lparr>bk_calls := calls @ [now]\<rparr>) m)
       else (permit, m))"

definition after_call :: "string \<Rightarrow> resilience_spec \<Rightarrow> bool \<Rightarrow> real \<Rightarrow> buckets \<Rightarrow> buckets" where
  "after_call name spec success now m =
    (let threshold = max 0 (re_threshold spec) in
     if threshold \<le> 0 then m
     else
       let b = tool_bucket m name in
       if success then al_put name (b\<lparr>bk_failures := 0, bk_open_until := 0\<rparr>) m
       else
         let b = b\<lparr>bk_failures := bk_failures b + 1\<rparr> in
         al_put name (if int (bk_failures b) \<ge> threshold
                      then b\<lparr>bk_open_until := now + min 60 (2 ^ min (bk_failures b) 6)\<rparr> else b) m)"

definition max_attempts :: "resilience_spec \<Rightarrow> int" where
  "max_attempts spec =
     (if re_replay spec = ''never_replay'' then 1 else max 1 (min 5 (re_retries spec + 1)))"

definition backoff_s :: "resilience_spec \<Rightarrow> nat \<Rightarrow> real" where
  "backoff_s spec attempt =
    (let base = max 0 (if re_backoff spec = 0 then 1 / 10 else re_backoff spec) in
     min 30 (base * 2 ^ (attempt - 1)))"

subsection \<open>Histories of a controller\<close>

datatype resilience_event = Before string real | After string bool real

fun resilience_step :: "(string \<Rightarrow> resilience_spec) \<Rightarrow> resilience_event \<Rightarrow> buckets \<Rightarrow> buckets" where
  "resilience_step specs (Before name now) m = snd (before_call name (specs name) now m)"
| "resilience_step specs (After name success now) m = after_call name (specs name) success now m"

fun event_time :: "resilience_event \<Rightarrow> real" where
  "event_time (Before name now) = now"
| "event_time (After name success now) = now"

text \<open>When calls of a tool were permitted, in order.\<close>

fun permitted :: "(string \<Rightarrow> resilience_spec) \<Rightarrow> string \<Rightarrow> resilience_event list \<Rightarrow> buckets \<Rightarrow> real list" where
  "permitted specs tool [] m = []"
| "permitted specs tool (Before name now # es) m =
     (if name = tool \<and> rd_allowed (fst (before_call name (specs name) now m)) then [now] else [])
       @ permitted specs tool es (resilience_step specs (Before name now) m)"
| "permitted specs tool (After name success now # es) m =
     permitted specs tool es (resilience_step specs (After name success now) m)"

text \<open>The failures in a row of a tool at the end of a history.\<close>

fun failures_in_a_row :: "string \<Rightarrow> nat \<Rightarrow> resilience_event list \<Rightarrow> nat" where
  "failures_in_a_row tool n [] = n"
| "failures_in_a_row tool n (After name success now # es) =
     failures_in_a_row tool (if name = tool then if success then 0 else Suc n else n) es"
| "failures_in_a_row tool n (Before name now # es) = failures_in_a_row tool n es"

fun last_failure :: "string \<Rightarrow> real \<Rightarrow> resilience_event list \<Rightarrow> real" where
  "last_failure tool t [] = t"
| "last_failure tool t (After name success now # es) =
     last_failure tool (if name = tool \<and> \<not> success then now else t) es"
| "last_failure tool t (Before name now # es) = last_failure tool t es"

lemma history_append:
  "permitted specs tool (xs @ ys) m = permitted specs tool xs m @ permitted specs tool ys (fold (resilience_step specs) xs m)"
  "failures_in_a_row tool n (xs @ ys) = failures_in_a_row tool (failures_in_a_row tool n xs) ys"
  "last_failure tool t (xs @ ys) = last_failure tool (last_failure tool t xs) ys"
proof -
  show "permitted specs tool (xs @ ys) m = permitted specs tool xs m @ permitted specs tool ys (fold (resilience_step specs) xs m)"
    by (induction specs tool xs m rule: permitted.induct) auto
  show "failures_in_a_row tool n (xs @ ys) = failures_in_a_row tool (failures_in_a_row tool n xs) ys"
    by (induction tool n xs rule: failures_in_a_row.induct) auto
  show "last_failure tool t (xs @ ys) = last_failure tool (last_failure tool t xs) ys"
    by (induction tool t xs rule: last_failure.induct) auto
qed

subsection \<open>One call\<close>

lemma tool_bucket_simps [simp]:
  "tool_bucket (al_put name b m) tool = (if tool = name then b else tool_bucket m tool)"
  "tool_bucket [] tool = new_bucket"
  by (simp_all add: tool_bucket_def)

lemma before_other [simp]:
  "name \<noteq> tool \<Longrightarrow> tool_bucket (snd (before_call name spec now m)) tool = tool_bucket m tool"
  by (simp add: before_call_def Let_def)

lemma after_other [simp]:
  "name \<noteq> tool \<Longrightarrow> tool_bucket (after_call name spec success now m) tool = tool_bucket m tool"
  by (simp add: after_call_def Let_def)

lemma before_circuit [simp]:
  "bk_failures (tool_bucket (snd (before_call name spec now m)) tool) = bk_failures (tool_bucket m tool)"
  "bk_open_until (tool_bucket (snd (before_call name spec now m)) tool) = bk_open_until (tool_bucket m tool)"
  by (simp_all add: before_call_def Let_def)

lemma after_calls [simp]:
  "bk_calls (tool_bucket (after_call name spec success now m) tool) = bk_calls (tool_bucket m tool)"
  by (simp add: after_call_def Let_def)

lemma before_permits:
  assumes "0 < re_rate spec" "rd_allowed (fst (before_call name spec now m))"
  shows "int (length (filter (\<lambda>s. now - s < 60) (bk_calls (tool_bucket m name)))) < re_rate spec"
    "bk_calls (tool_bucket (snd (before_call name spec now m)) name)
       = filter (\<lambda>s. now - s < 60) (bk_calls (tool_bucket m name)) @ [now]"
  using assms by (auto simp: before_call_def Let_def split: if_splits)

lemma before_refuses:
  assumes "\<not> rd_allowed (fst (before_call name spec now m))"
  shows "bk_calls (tool_bucket (snd (before_call name spec now m)) name)
    \<in> {bk_calls (tool_bucket m name), filter (\<lambda>s. now - s < 60) (bk_calls (tool_bucket m name))}"
  using assms by (auto simp: before_call_def Let_def split: if_splits)

lemma recent_filter:
  fixes now later :: real
  shows "now \<le> later \<Longrightarrow> filter (\<lambda>s. now - s < 60 \<and> later - s < 60) xs = filter (\<lambda>s. later - s < 60) xs"
  by (induction xs) auto

subsection \<open>The rate limit\<close>

definition in_window :: "real \<Rightarrow> real \<Rightarrow> bool" where
  "in_window t s \<longleftrightarrow> t - 60 < s \<and> s \<le> t"

lemma window_grows:
  fixes now t :: real
  assumes "\<And>t. length (filter (in_window t) P) \<le> n" "length (filter (\<lambda>s. now - s < 60) P) < n"
  shows "length (filter (in_window t) (P @ [now])) \<le> n"
proof (cases "in_window t now")
  case True
  then have "length (filter (in_window t) P) \<le> length (filter (\<lambda>s. now - s < 60) P)"
    by (induction P) (auto simp: in_window_def)
  then show ?thesis using assms(2) by simp
next
  case False
  then show ?thesis using assms(1)[of t] by simp
qed

text \<open>C25.  A positive rate limit holds over every period of a minute, not only over minutes counted from a reset, as long as
  the readings of the clock reach the buckets in their order (each is taken just before the lock, so two workers may
  swap them; the model takes reading and update as one step): whatever calls of the tools begin and end, in whatever order, at most \<open>rate_limit_per_minute\<close> calls of a tool are permitted
  between any time and sixty seconds before it.\<close>

theorem rate_limit_every_minute:
  assumes "0 < re_rate (specs tool)" "sorted (map event_time es)"
  shows "int (length (filter (in_window t) (permitted specs tool es []))) \<le> re_rate (specs tool)"
proof -
  let ?n = "nat (re_rate (specs tool))"
  let ?P = "\<lambda>es. permitted specs tool es []"
  let ?b = "\<lambda>es. tool_bucket (fold (resilience_step specs) es []) tool"
  have "(\<forall>t. length (filter (in_window t) (?P es)) \<le> ?n)
      \<and> (\<forall>now. (\<forall>e \<in> set es. event_time e \<le> now)
            \<longrightarrow> filter (\<lambda>s. now - s < 60) (bk_calls (?b es)) = filter (\<lambda>s. now - s < 60) (?P es))"
    using assms(2)
  proof (induction es rule: rev_induct)
    case (snoc e es)
    then have sorted: "\<forall>e' \<in> set es. event_time e' \<le> event_time e" by (simp add: sorted_append)
    have IH: "length (filter (in_window t) (?P es)) \<le> ?n" for t using snoc by (simp add: sorted_append)
    have calls: "filter (\<lambda>s. now - s < 60) (bk_calls (?b es)) = filter (\<lambda>s. now - s < 60) (?P es)"
      if "event_time e \<le> now" for now 
    proof -
      have "\<forall>e' \<in> set es. event_time e' \<le> now" using sorted that by force
      then show ?thesis using snoc by (simp add: sorted_append)
    qed
    show ?case
    proof (cases e)
      case (Before name now)
      show ?thesis
      proof (cases "name = tool")
        case True
        let ?m = "fold (resilience_step specs) es []"
        show ?thesis
        proof (cases "rd_allowed (fst (before_call tool (specs tool) now ?m))")
          case ok: True
          have fewer: "length (filter (\<lambda>s. now - s < 60) (?P es)) < ?n"
            using before_permits(1)[OF assms(1) ok] calls[of now] Before by simp
          then show ?thesis
            using before_permits(2)[OF assms(1) ok] Before True calls ok window_grows[OF IH fewer]
            by (auto simp: history_append recent_filter)
        next
          case no: False
          then show ?thesis
            using before_refuses[OF no] Before True calls IH by (auto simp: history_append recent_filter)
        qed
      next
        case False
        then show ?thesis using Before calls IH by (auto simp: history_append)
      qed
    next
      case (After name success now)
      then show ?thesis using calls IH by (auto simp: history_append)
    qed
  qed (simp add: new_bucket_def)
  then show ?thesis using assms(1) by (metis nat_le_iff less_imp_le of_nat_le_iff int_nat_eq)
qed

subsection \<open>The circuit\<close>

definition open_for :: "nat \<Rightarrow> real" where
  "open_for n = min 60 (2 ^ min n 6)"

text \<open> After any history a call is refused because of the circuit exactly when the tool has failed
  \<open>circuit_breaker_threshold\<close> times in a row or more and two to the number of these failures in seconds
  (at most a minute) have not passed since the last of them.\<close>

theorem circuit_refuses_iff:
  assumes "0 < re_threshold (specs tool)" "0 \<le> now"
  shows "rd_reason (fst (before_call tool (specs tool) now (fold (resilience_step specs) es []))) = ''circuit_open''
    \<longleftrightarrow> re_threshold (specs tool) \<le> int (failures_in_a_row tool 0 es)
      \<and> now < last_failure tool 0 es + open_for (failures_in_a_row tool 0 es)"
proof -
  let ?b = "tool_bucket (fold (resilience_step specs) es []) tool"
  have "bk_failures ?b = failures_in_a_row tool 0 es
      \<and> bk_open_until ?b = (if re_threshold (specs tool) \<le> int (failures_in_a_row tool 0 es)
          then last_failure tool 0 es + open_for (failures_in_a_row tool 0 es) else 0)"
  proof (induction es rule: rev_induct)
    case Nil
    then show ?case using assms(1) by (simp add: new_bucket_def)
  next
    case (snoc e es)
    show ?case
    proof (cases e)
      case (Before name now)
      then show ?thesis using snoc by (simp add: history_append)
    next
      case (After name success now)
      show ?thesis
      proof (cases "name = tool")
        case True
        then show ?thesis using After snoc assms(1)
          by (auto simp: history_append after_call_def Let_def open_for_def)
      next
        case False
        then show ?thesis using After snoc by (simp add: history_append)
      qed
    qed
  qed
  then show ?thesis using assms by (auto simp: before_call_def Let_def)
qed

subsection \<open>Retries\<close>

text \<open> A tool is tried between one and five times, once if it must never be replayed, and waits between two
  attempts never longer than half a minute and never shorter than before the previous one.\<close>

theorem retries_bounded:
  "max_attempts spec \<in> {1..5}
   \<and> (re_replay spec \<noteq> ''never_replay'' \<or> max_attempts spec = 1)
   \<and> backoff_s spec attempt \<in> {0..30}
   \<and> backoff_s spec attempt \<le> backoff_s spec (Suc attempt)"
proof -
  let ?base = "max 0 (if re_backoff spec = 0 then 1 / 10 else re_backoff spec)"
  have "?base * 2 ^ (attempt - 1) \<le> ?base * 2 ^ (Suc attempt - 1)"
    by (intro mult_left_mono power_increasing) auto
  moreover have "0 \<le> ?base * 2 ^ (attempt - 1)" by simp
  ultimately show ?thesis unfolding max_attempts_def backoff_s_def Let_def by auto
qed

definition sample_spec :: "string \<Rightarrow> resilience_spec" where
  "sample_spec name = \<lparr>re_rate = 2, re_threshold = 1, re_replay = ''revalidate'', re_retries = 2, re_backoff = 0\<rparr>"

lemma rate_limit_every_minute_witness:
  "int (length (filter (in_window 70) (permitted sample_spec ''grep''
     [Before ''grep'' 1, Before ''grep'' 20, Before ''grep'' 50, Before ''grep'' 70] []))) \<le> 2"
  using rate_limit_every_minute[of sample_spec "''grep''"
      "[Before ''grep'' 1, Before ''grep'' 20, Before ''grep'' 50, Before ''grep'' 70]" 70]
  by (simp add: sample_spec_def)

lemma circuit_refuses_iff_witness:
  "rd_reason (fst (before_call ''grep'' (sample_spec ''grep'') 6
     (fold (resilience_step sample_spec) [Before ''grep'' 1, After ''grep'' False 5] []))) = ''circuit_open''"
  using circuit_refuses_iff[of sample_spec "''grep''" 6 "[Before ''grep'' 1, After ''grep'' False 5]"]
  by (simp add: sample_spec_def open_for_def)

end
