(* ===== verification/ActionLedger.thy ===== *)
theory ActionLedger
  imports ToolDag
begin

text \<open>
  The ledger of tool actions a session keeps so that an interrupted run is not repeated blindly:
  \<open>ActionRecord\<close> and its functions in \<open>agent_runtime/context_runtime.py\<close>, the receipts of
  \<open>agent_runtime/tool_result.py\<close> and the link to observations made by
  \<open>agent_runtime/observation_recording.py\<close>.  The hash, the rendering of the arguments as JSON and the
  clock are arguments; the field \<open>postcondition\<close> is never written and left out.
\<close>

subsection \<open>Receipts and action records\<close>

record tool_receipt =
  rc_id :: string
  rc_tool :: string
  rc_call :: string
  rc_args_hash :: string
  rc_status :: tool_status
  rc_error :: string
  rc_retryable :: bool
  rc_duration :: int
  rc_affected :: "string list"
  rc_run :: string

record action_record =
  ac_id :: string
  ac_tool :: string
  ac_args_hash :: string
  ac_revision :: int
  ac_result_ref :: string
  ac_artifact :: string
  ac_side_effect :: string
  ac_replay :: string
  ac_status :: string
  ac_key :: string
  ac_receipt :: "tool_receipt option"
  ac_reason :: string
  ac_updated :: "real option"

definition ACTION_TRANSITIONS :: "(string \<times> string list) list" where
  "ACTION_TRANSITIONS = [
     (''planned'', [''dispatched'', ''cancelled'']),
     (''dispatched'', [''acknowledged'', ''verified'', ''uncertain'', ''failed'', ''cancelled'']),
     (''acknowledged'', [''verified'', ''uncertain'', ''failed'']),
     (''uncertain'', [''reconciled'', ''retryable'', ''failed'', ''verified'']),
     (''reconciled'', [''verified'', ''failed'', ''retryable'']),
     (''retryable'', [''dispatched'', ''failed'']),
     (''verified'', []), (''failed'', []), (''cancelled'', [])]"

definition allowed_moves :: "string \<Rightarrow> string list" where
  "allowed_moves current = (case map_of ACTION_TRANSITIONS current of Some xs \<Rightarrow> xs | None \<Rightarrow> [])"

definition transition_action ::
  "real \<Rightarrow> string \<Rightarrow> string \<Rightarrow> tool_receipt option \<Rightarrow> action_record \<Rightarrow> action_record res" where
  "transition_action now status reason receipt a =
     (if status \<noteq> ac_status a \<and> status \<notin> set (allowed_moves (ac_status a))
      then raise (ValueError (''invalid action transition: '' @ ac_status a @ '' -> '' @ status))
      else ok (let a = a\<lparr>ac_status := status\<rparr>;
                   a = (if reason \<noteq> [] then a\<lparr>ac_reason := reason\<rparr> else a);
                   a = (if receipt \<noteq> None then a\<lparr>ac_receipt := receipt\<rparr> else a)
               in a\<lparr>ac_updated := Some now\<rparr>))"

definition NEVER_REPLAYED :: "string list" where
  "NEVER_REPLAYED = [''write'', ''external'', ''local_write'', ''remote_write'', ''external_write'', ''destructive'']"

definition args_digest :: "(string \<Rightarrow> string) \<Rightarrow> ('a \<Rightarrow> string) \<Rightarrow> 'a \<Rightarrow> string" where
  "args_digest sha dumps args = take 16 (sha (dumps args))"

definition build_action ::
  "(string \<Rightarrow> string) \<Rightarrow> ('a \<Rightarrow> string) \<Rightarrow> string \<Rightarrow> 'a \<Rightarrow> int \<Rightarrow> string \<Rightarrow> string \<Rightarrow> string \<Rightarrow> string \<Rightarrow> action_record" where
  "build_action sha dumps tool args revision result_ref side_effect key status =
     \<lparr>ac_id = ''ACT-'' @ take 12 (sha (tool @ '':'' @ dumps args)), ac_tool = tool,
      ac_args_hash = args_digest sha dumps args, ac_revision = revision, ac_result_ref = result_ref,
      ac_artifact = [], ac_side_effect = side_effect,
      ac_replay = (if side_effect \<in> set NEVER_REPLAYED then ''never_replay'' else ''revalidate''),
      ac_status = status, ac_key = key, ac_receipt = None, ac_reason = [], ac_updated = None\<rparr>"

subsection \<open>The ledger\<close>

type_synonym action_ledger = "action_record list"

definition LEDGER_SIZE :: nat where "LEDGER_SIZE = 100"

text \<open>What the step runtime does with a concluded action: append it and keep the last hundred.  (The function
  \<open>append_action\<close> of \<open>context_runtime.py\<close> is the same, but has no caller.)\<close>

definition append_action :: "action_record \<Rightarrow> action_ledger \<Rightarrow> action_ledger" where
  "append_action a l = keep_last LEDGER_SIZE (l @ [a])"

definition newest :: "(action_record \<Rightarrow> bool) \<Rightarrow> action_ledger \<Rightarrow> action_record option" where
  "newest P l = (let matches = filter P l in if matches = [] then None else Some (last matches))"

definition find_action_by_idempotency :: "string \<Rightarrow> action_ledger \<Rightarrow> action_record option" where
  "find_action_by_idempotency key l = (if key = [] then None else newest (\<lambda>a. ac_key a = key) l)"

definition same_call :: "(string \<Rightarrow> string) \<Rightarrow> ('a \<Rightarrow> string) \<Rightarrow> string \<Rightarrow> 'a \<Rightarrow> action_record \<Rightarrow> bool" where
  "same_call sha dumps tool args a \<longleftrightarrow> ac_tool a = tool \<and> ac_args_hash a = args_digest sha dumps args"

definition replay_policy ::
  "(string \<Rightarrow> string) \<Rightarrow> ('a \<Rightarrow> string) \<Rightarrow> string \<Rightarrow> 'a \<Rightarrow> action_ledger \<Rightarrow> string" where
  "replay_policy sha dumps tool args l =
     (case newest (same_call sha dumps tool args) l of None \<Rightarrow> ''revalidate'' | Some a \<Rightarrow> ac_replay a)"

datatype recovery = Execute | Reuse action_record | Revalidate action_record | Block action_record | Retry action_record

definition action_recovery_decision ::
  "(string \<Rightarrow> string) \<Rightarrow> ('a \<Rightarrow> string) \<Rightarrow> string \<Rightarrow> 'a \<Rightarrow> action_ledger \<Rightarrow> recovery" where
  "action_recovery_decision sha dumps tool args l =
     (case newest (same_call sha dumps tool args) l of
        None \<Rightarrow> Execute
      | Some a \<Rightarrow>
          if ac_status a \<in> {''verified'', ''succeeded''} then Reuse a
          else if ac_status a = ''acknowledged'' then Revalidate a
          else if ac_status a \<in> {''dispatched'', ''uncertain''} then Revalidate a
          else if ac_replay a = ''never_replay'' then Block a
          else if ac_replay a = ''retry_idempotent'' \<and> ac_key a \<noteq> [] then Retry a
          else Revalidate a)"

text \<open>The recorder gives the newest action of a key its observation.\<close>

fun link_first :: "string \<Rightarrow> string \<Rightarrow> string \<Rightarrow> action_ledger \<Rightarrow> action_ledger" where
  "link_first key oid ref [] = []"
| "link_first key oid ref (a # l) =
     (if ac_key a = key then a\<lparr>ac_result_ref := oid, ac_artifact := ref\<rparr> # l else a # link_first key oid ref l)"

definition link_observation :: "string \<Rightarrow> string \<Rightarrow> string \<Rightarrow> action_ledger \<Rightarrow> action_ledger" where
  "link_observation key oid ref l = rev (link_first key oid ref (rev l))"

subsection \<open>What a ledger remembers\<close>

lemma newest_snoc: "newest P (l @ [a]) = (if P a then Some a else newest P l)"
  by (simp add: newest_def)

lemma newest_None_iff: "newest P l = None \<longleftrightarrow> (\<forall>a \<in> set l. \<not> P a)"
  by (simp add: newest_def filter_empty_conv)

lemma newest_Some: "newest P l = Some a \<Longrightarrow> a \<in> set l \<and> P a"
  using last_in_set[of "filter P l"] by (auto simp: newest_def Let_def split: if_splits)

lemma newest_append: "newest P (xs @ ys) = (case newest P ys of Some a \<Rightarrow> Some a | None \<Rightarrow> newest P xs)"
  by (induction ys rule: rev_induct) (auto simp: newest_snoc newest_def[of P "[]"] simp flip: append_assoc split: option.splits)

lemma keep_last_snoc: "0 < n \<Longrightarrow> keep_last n (keep_last n xs @ [a]) = keep_last n (xs @ [a])"
  by (cases "n \<le> length xs") (auto simp: keep_last_def Suc_diff_le)

lemma fold_append_action: "fold append_action as l = (if as = [] then l else keep_last LEDGER_SIZE (l @ as))"
proof (induction as rule: rev_induct)
  case (snoc a as)
  have "keep_last LEDGER_SIZE (keep_last LEDGER_SIZE (l @ as) @ [a]) = keep_last LEDGER_SIZE (l @ as @ [a])"
    using keep_last_snoc[of LEDGER_SIZE "l @ as" a] by (simp add: LEDGER_SIZE_def)
  with snoc show ?case by (auto simp: append_action_def)
qed simp

lemma newest_keep_last:
  assumes "length ys < n"
  shows "newest P (keep_last n (xs @ a # ys)) = (case newest P ys of Some b \<Rightarrow> Some b | None \<Rightarrow>
     (if P a then Some a else newest P (keep_last (n - length ys - 1) xs)))"
proof -
  have "keep_last n (xs @ a # ys) = keep_last (n - length ys - 1) xs @ [a] @ ys"
    using assms by (auto simp: keep_last_def drop_append)
  then show ?thesis by (simp only: newest_append) (auto simp: newest_def split: option.splits)
qed

lemma ledger_newest:
  assumes "length ys < LEDGER_SIZE" "P a" "\<forall>b \<in> set ys. \<not> P b"
  shows "newest P (fold append_action (xs @ a # ys) l) = Some a"
proof -
  have "newest P ys = None" using assms(3) by (simp add: newest_None_iff)
  with assms show ?thesis
    by (simp add: fold_append_action newest_keep_last[of ys LEDGER_SIZE P "l @ xs" a, simplified] del: fold_append)
qed

lemma ledger_forgets:
  assumes "LEDGER_SIZE \<le> length ys" "\<forall>b \<in> set ys. \<not> P b"
  shows "newest P (fold append_action (xs @ ys) l) = None"
proof -
  have "ys \<noteq> []" using assms(1) by (auto simp: LEDGER_SIZE_def)
  have "keep_last LEDGER_SIZE (l @ xs @ ys) = keep_last LEDGER_SIZE ys"
    using assms(1) by (simp add: keep_last_def)
  with \<open>ys \<noteq> []\<close> assms(2) set_keep_last[of LEDGER_SIZE ys] show ?thesis
    by (auto simp: fold_append_action newest_None_iff simp del: fold_append)
qed

subsection \<open>The life of an action\<close>

type_synonym action_move = "real \<times> string \<times> string \<times> tool_receipt option"

fun attempt_move :: "action_move \<Rightarrow> action_record \<Rightarrow> action_record" where
  "attempt_move (now, status, reason, receipt) a =
     (case transition_action now status reason receipt a of Inl e \<Rightarrow> a | Inr b \<Rightarrow> b)"

definition SETTLED :: "string list" where "SETTLED = [''verified'', ''failed'', ''cancelled'']"

lemma settled_no_moves: "s \<in> set SETTLED \<Longrightarrow> allowed_moves s = []"
  by (auto simp: SETTLED_def allowed_moves_def ACTION_TRANSITIONS_def)

definition action_identity :: "action_record \<Rightarrow> string \<times> string \<times> string \<times> int \<times> string \<times> string \<times> string" where
  "action_identity a =
     (ac_id a, ac_tool a, ac_args_hash a, ac_revision a, ac_side_effect a, ac_replay a, ac_key a)"

lemma attempt_move_keeps:
  "action_identity (attempt_move m a) = action_identity a"
  "ac_receipt a \<noteq> None \<Longrightarrow> ac_receipt (attempt_move m a) \<noteq> None"
  "ac_status (attempt_move m a) \<noteq> ac_status a \<Longrightarrow> ac_status (attempt_move m a) \<in> set (allowed_moves (ac_status a))"
  by (cases m; auto simp: transition_action_def action_identity_def Let_def)+

text \<open> However an action record is updated, it keeps its identity (tool, arguments, revision, key and
  replay policy) and never loses a receipt once it has one, and a verified, failed or cancelled action
  keeps that status for good: refused updates change nothing.\<close>

theorem settled_actions_final:
  fixes moves :: "action_move list" and a :: action_record
  defines "b \<equiv> fold attempt_move moves a"
  shows "action_identity b = action_identity a
     \<and> (ac_receipt a = None \<or> ac_receipt b \<noteq> None)
     \<and> (ac_status a \<notin> set SETTLED \<or> ac_status b = ac_status a)"
  unfolding b_def
proof (induction moves rule: rev_induct)
  case (snoc m ms)
  let ?b = "fold attempt_move ms a"
  have "ac_status (attempt_move m ?b) = ac_status ?b" if "ac_status ?b \<in> set SETTLED"
    using attempt_move_keeps(3)[where m = m and a = ?b] settled_no_moves[OF that] by auto
  then show ?case using snoc attempt_move_keeps(1,2)[where m = m and a = ?b]
    by (auto simp del: not_None_eq not_Some_eq attempt_move.simps)
qed auto

subsection \<open>Recovery of an interrupted action\<close>

text \<open>\<open>action_recovery_decision\<close> and \<open>replay_policy\<close> have no caller in the program, only tests: the step runtime
  asks \<open>find_action_by_idempotency\<close> (theory ToolStep).  What the decision would be: as long as the action of a writing, external or destructive
  tool is among the last hundred actions and the newest one for its arguments, the decision is to reuse its result
  (exactly when it was verified), to revalidate or to block it, whatever its status, never to execute or retry it.\<close>

theorem recovery_decision_conservative:
  assumes "a = build_action sha dumps tool args revision result_ref side_effect key status"
    and "side_effect \<in> set NEVER_REPLAYED"
    and "length ys < 100" "\<forall>b \<in> set ys. \<not> same_call sha dumps tool args b"
  shows "let decision = action_recovery_decision sha dumps tool args (fold append_action (xs @ a # ys) [])
     in decision \<in> {Reuse a, Revalidate a, Block a}
     \<and> (decision = Reuse a \<longleftrightarrow> status \<in> {''verified'', ''succeeded''})"
proof -
  have "same_call sha dumps tool args a" using assms(1) by (simp add: same_call_def build_action_def)
  then have "newest (same_call sha dumps tool args) (fold append_action (xs @ a # ys) []) = Some a"
    using assms(3,4) by (intro ledger_newest) (simp_all add: LEDGER_SIZE_def)
  moreover have "ac_replay a = ''never_replay''" "ac_status a = status"
    using assms(1,2) by (simp_all add: build_action_def)
  ultimately show ?thesis by (simp add: action_recovery_decision_def Let_def)
qed

definition identity_hash :: "string \<Rightarrow> string" where "identity_hash s = s"

definition sample_write :: "string \<Rightarrow> action_record" where
  "sample_write status =
     build_action identity_hash id ''write_file'' ''a.py'' 1 [] ''local_write'' ''k1'' status"

definition sample_read :: action_record where
  "sample_read = build_action identity_hash id ''read_file'' ''b.py'' 1 [] ''read'' ''k2'' ''verified''"

lemma recovery_decision_conservative_witness:
  "action_recovery_decision identity_hash id ''write_file'' ''a.py''
     (fold append_action ([] @ sample_write ''failed'' # [sample_read]) [])
     \<in> {Reuse (sample_write ''failed''), Revalidate (sample_write ''failed''), Block (sample_write ''failed'')}"
proof -
  have c: "\<forall>b \<in> set [sample_read]. \<not> same_call identity_hash id ''write_file'' ''a.py'' b" by code_simp
  show ?thesis
    using recovery_decision_conservative[of "sample_write ''failed''" identity_hash id "''write_file''" "''a.py''" 1 "[]"
        "''local_write''" "''k1''" "''failed''" "[sample_read]" "[]", OF sample_write_def _ _ c]
    by (auto simp: NEVER_REPLAYED_def Let_def)
qed

text \<open>The ledger keeps a hundred actions: after a hundred later ones the decision for a performed effect is to execute it.\<close>

lemma forgotten_effect_executed:
  assumes "100 \<le> length ys" "\<forall>b \<in> set ys. \<not> same_call sha dumps tool args b"
  shows "action_recovery_decision sha dumps tool args (fold append_action (xs @ a # ys) []) = Execute"
  using ledger_forgets[of ys "same_call sha dumps tool args" "xs @ [a]" "[]"] assms
  by (simp add: action_recovery_decision_def LEDGER_SIZE_def)

end
