(* ===== verification/ToolStep.thy ===== *)
theory ToolStep
  imports ActionLedger ToolQuota
begin

text \<open>
  One tool call of a run: \<open>tool_step_flow\<close> of \<open>agent_runtime/tool_step_runtime.py\<close> from its gates to the
  recorded observation, with \<open>RepairBudget\<close> of \<open>agent_runtime/repair_runtime.py\<close>.  The flow is a generator: it
  runs up to its \<open>yield\<close> (\<open>begin_step\<close>), the tool runs outside, and the flow goes on with the
  result (\<open>finish_step\<close>).  The answers of the policy, the deadline and the budget manager, and what the tool, the
  transformation and the review of its result give, are inputs of a step; notifications, traces, timings,
  prompt texts and the edit lock's note of an isolated read are left out.
\<close>

subsection \<open>The budget of a repair\<close>

record repair_budget =
  bu_max_turns :: int
  bu_max_tools :: int
  bu_max_writes :: int
  bu_max_verifies :: int
  bu_max_recoveries :: int
  bu_turns :: int
  bu_tools :: int
  bu_writes :: int
  bu_verifies :: int
  bu_recoveries :: int

definition allow_turn :: "repair_budget \<Rightarrow> bool" where
  "allow_turn b \<longleftrightarrow> bu_max_turns b \<le> 0 \<or> bu_turns b < bu_max_turns b"

fun group_use :: "budget_group \<Rightarrow> repair_budget \<Rightarrow> int \<times> int" where
  "group_use GWrite b = (bu_writes b, bu_max_writes b)"
| "group_use GVerify b = (bu_verifies b, bu_max_verifies b)"
| "group_use GRecovery b = (bu_recoveries b, bu_max_recoveries b)"
| "group_use GRead b = (0, 0)"

definition allow_tool :: "budget_group \<Rightarrow> repair_budget \<Rightarrow> bool" where
  "allow_tool g b =
     (if 0 < bu_max_tools b \<and> bu_max_tools b \<le> bu_tools b then False
      else (let (used, limit) = group_use g b in limit \<le> 0 \<or> used < limit))"

definition record_turn :: "repair_budget \<Rightarrow> repair_budget" where
  "record_turn b = b\<lparr>bu_turns := bu_turns b + 1\<rparr>"

definition record_tool_use :: "budget_group \<Rightarrow> repair_budget \<Rightarrow> repair_budget" where
  "record_tool_use g b =
    (let b = b\<lparr>bu_tools := bu_tools b + 1\<rparr> in
     case g of
       GWrite \<Rightarrow> b\<lparr>bu_writes := bu_writes b + 1\<rparr>
     | GVerify \<Rightarrow> b\<lparr>bu_verifies := bu_verifies b + 1\<rparr>
     | GRecovery \<Rightarrow> b\<lparr>bu_recoveries := bu_recoveries b + 1\<rparr>
     | GRead \<Rightarrow> b)"

subsection \<open>Calls, results and the state of a step\<close>

record step_result =
  sr_status :: tool_status
  sr_error :: string
  sr_retryable :: bool
  sr_postcondition :: bool
  sr_observation :: string
  sr_affected :: "string list"
  sr_duration :: int
  sr_receipt :: "tool_receipt option"

text \<open>\<open>sk_args\<close> are the arguments as sorted JSON, \<open>sk_args_hash\<close> is their hash in receipts; \<open>sk_context\<close>: a call of a batch has a call context; \<open>sk_isolated\<close>: the batch runs in parallel;
  \<open>sk_prepared\<close>: the rejection an argument check has already given.\<close>

record step_call =
  sk_tool :: string
  sk_group :: budget_group
  sk_side_effect :: string
  sk_key :: string
  sk_args :: string
  sk_args_hash :: string
  sk_run :: string
  sk_call :: string
  sk_context :: bool
  sk_isolated :: bool
  sk_prepared :: "step_result option"

record step_env =
  sv_cancelled :: bool
  sv_policy :: "step_result option"
  sv_expired :: bool
  sv_allowed :: bool
  sv_revision :: int
  sv_sha :: "string \<Rightarrow> string"
  sv_isolated_agent :: bool

record step_state =
  tp_ledger :: action_ledger
  tp_action :: "action_record option"
  tp_tool :: string
  tp_pending :: int
  tp_budget :: repair_budget
  tp_steps :: int
  tp_last_tool :: string
  tp_reserved :: "string list"

abbreviation shared_inflight :: "step_call \<Rightarrow> bool" where
  "shared_inflight c \<equiv> \<not> sk_context c \<or> \<not> sk_isolated c"

definition plain_result :: "tool_status \<Rightarrow> string \<Rightarrow> step_result" where
  "plain_result status code =
     \<lparr>sr_status = status, sr_error = code, sr_retryable = False, sr_postcondition = False, sr_observation = [],
      sr_affected = [], sr_duration = 0, sr_receipt = None\<rparr>"

definition replay_result :: "action_record \<Rightarrow> step_result" where
  "replay_result a =
     (plain_result TSuccess [])\<lparr>sr_observation := ac_result_ref a, sr_receipt := ac_receipt a\<rparr>"

definition harmless :: "step_call \<Rightarrow> bool" where
  "harmless c \<longleftrightarrow> sk_side_effect c \<in> {''read'', ''none'', []}"

subsection \<open>Before the tool runs\<close>

definition prior_answer :: "step_call \<Rightarrow> step_state \<Rightarrow> step_result option" where
  "prior_answer c s =
     (case sk_prepared c of
        Some r \<Rightarrow> Some r
      | None \<Rightarrow> (case find_action_by_idempotency (sk_key c) (tp_ledger s) of
          None \<Rightarrow> None
        | Some a \<Rightarrow>
            if ac_status a \<in> {''verified'', ''succeeded''} then Some (replay_result a)
            else if ac_status a \<in> {''dispatched'', ''uncertain''} \<and> \<not> harmless c
              then Some (plain_result TUncertain ''idempotency_conflict'')
            else None))"

definition tools_used_up :: "step_state \<Rightarrow> bool" where
  "tools_used_up s \<longleftrightarrow> 0 < bu_max_tools (tp_budget s) \<and> bu_max_tools (tp_budget s) \<le> bu_tools (tp_budget s) + tp_pending s"

definition step_answer :: "step_call \<Rightarrow> step_env \<Rightarrow> step_state \<Rightarrow> step_result option" where
  "step_answer c v s =
     (case prior_answer c s of
        Some r \<Rightarrow> Some r
      | None \<Rightarrow> (case sv_policy v of
          Some r \<Rightarrow> Some r
        | None \<Rightarrow>
            if sv_expired v then Some (plain_result TRejected ''deadline_exceeded'')
            else if \<not> allow_tool (sk_group c) (tp_budget s) \<or> tools_used_up s \<or> \<not> sv_allowed v
              then Some (plain_result TRejected ''budget_exceeded'')
            else None))"

definition group_resource :: "budget_group \<Rightarrow> string list" where
  "group_resource g =
     (case g of GWrite \<Rightarrow> [''writes''] | GVerify \<Rightarrow> [''verifies''] | GRecovery \<Rightarrow> [''recoveries''] | GRead \<Rightarrow> [])"

definition dispatched_action :: "step_call \<Rightarrow> step_env \<Rightarrow> action_record" where
  "dispatched_action c v =
     build_action (sv_sha v) id (sk_tool c) (sk_args c) (sv_revision v) []
       (if sk_side_effect c = [] then ''none'' else sk_side_effect c) (sk_key c) ''dispatched''"

datatype gate = Answer step_result | Run action_record

definition begin_step :: "step_call \<Rightarrow> step_env \<Rightarrow> step_state \<Rightarrow> gate res \<times> step_state" where
  "begin_step c v s =
     (if sk_prepared c = None \<and> sv_cancelled v then (raise (CancelledError ''user''), s)
      else case step_answer c v s of
        Some r \<Rightarrow> (ok (Answer r), s)
      | None \<Rightarrow>
          let a = dispatched_action c v;
              s = s\<lparr>tp_reserved := tp_reserved s @ [''tool_calls''] @ group_resource (sk_group c)\<rparr>
          in (ok (Run a), if shared_inflight c then s\<lparr>tp_tool := sk_tool c, tp_action := Some a\<rparr>
                     else s\<lparr>tp_pending := tp_pending s + 1\<rparr>))"

subsection \<open>After the tool ran\<close>

definition seal_receipt :: "(tool_receipt \<Rightarrow> string) \<Rightarrow> step_call \<Rightarrow> step_result \<Rightarrow> step_result" where
  "seal_receipt digest c r =
    (let body = \<lparr>rc_id = [], rc_tool = sk_tool c, rc_call = sk_call c, rc_args_hash = sk_args_hash c,
                 rc_status = sr_status r, rc_error = sr_error r, rc_retryable = sr_retryable r,
                 rc_duration = sr_duration r, rc_affected = sr_affected r, rc_run = sk_run c\<rparr>
     in r\<lparr>sr_receipt := Some (body\<lparr>rc_id := ''receipt-'' @ take 20 (digest body)\<rparr>)\<rparr>)"

definition next_status :: "step_call \<Rightarrow> step_result \<Rightarrow> string" where
  "next_status c r =
     (if sr_status r = TSuccess
      then (if sk_side_effect c \<in> {''read'', ''none''} \<or> sr_postcondition r then ''verified'' else ''acknowledged'')
      else if sr_status r \<in> {TCancelled, TUncertain}
              \<or> sr_error r \<in> {''tool_timeout'', ''deadline_exceeded'', ''tool_cancelled''} then ''uncertain''
      else ''failed'')"

definition count_step :: "step_call \<Rightarrow> step_result \<Rightarrow> step_state \<Rightarrow> step_state" where
  "count_step c r s =
     (if sr_status r \<noteq> TRejected \<and> sk_prepared c = None
      then s\<lparr>tp_steps := tp_steps s + 1, tp_last_tool := sk_tool c,
             tp_budget := record_tool_use (sk_group c) (tp_budget s)\<rparr>
      else s\<lparr>tp_last_tool := sk_tool c\<rparr>)"

definition settle_inflight :: "step_call \<Rightarrow> step_state \<Rightarrow> step_state" where
  "settle_inflight c s = (if shared_inflight c then s\<lparr>tp_tool := []\<rparr> else s\<lparr>tp_pending := tp_pending s - 1\<rparr>)"

text \<open>The tool, the transformation or the review raised, or the flow was closed.\<close>

definition abandon :: "step_call \<Rightarrow> action_record \<Rightarrow> step_state \<Rightarrow> step_state" where
  "abandon c a s =
    (let a = a\<lparr>ac_status := ''uncertain'', ac_reason := ''runtime_exception''\<rparr>;
         s = (if shared_inflight c then s\<lparr>tp_action := Some a\<rparr> else s)
     in settle_inflight c (if sk_context c then s\<lparr>tp_ledger := tp_ledger s @ [a]\<rparr> else s))"

definition conclude_action :: "real \<Rightarrow> step_call \<Rightarrow> action_record \<Rightarrow> step_result \<Rightarrow> step_state \<Rightarrow> step_state" where
  "conclude_action now c a r s =
    (let b = (case transition_action now (next_status c r) (sr_error r) (sr_receipt r) a of
                Inr b \<Rightarrow> b
              | Inl e \<Rightarrow> a\<lparr>ac_status := ''uncertain'', ac_reason := ''invalid_transition''\<rparr>);
         s = s\<lparr>tp_ledger := append_action (b\<lparr>ac_result_ref := sr_observation r\<rparr>) (tp_ledger s)\<rparr>
     in settle_inflight c (if shared_inflight c then s\<lparr>tp_action := None\<rparr> else s))"

text \<open>What the outside gives back: the result (after the transformation) or an exception, the time, whether the
  run was cancelled meanwhile, and the observation the recorder stored.\<close>

record step_return =
  sn_result :: "step_result res"
  sn_now :: real
  sn_cancelled :: bool
  sn_digest :: "tool_receipt \<Rightarrow> string"
  sn_observation :: string
  sn_artifact :: string

definition finish_step ::
  "step_call \<Rightarrow> step_env \<Rightarrow> gate \<Rightarrow> step_return \<Rightarrow> step_state \<Rightarrow> step_result res \<times> step_state" where
  "finish_step c v g n s =
     (case sn_result n of
        Inl e \<Rightarrow> (raise e, case g of Run a \<Rightarrow> abandon c a s | Answer _ \<Rightarrow> s)
      | Inr r \<Rightarrow>
          let r = seal_receipt (sn_digest n) c r;
              s = (case g of
                     Run a \<Rightarrow> conclude_action (sn_now n) c a r s
                   | Answer _ \<Rightarrow> if sk_prepared c \<noteq> None \<and> sv_isolated_agent v
                                then s\<lparr>tp_reserved := tp_reserved s @ [''tool_calls'']\<rparr> else s);
              s = count_step c r s
          in if \<not> sk_context c \<and> sn_cancelled n then (raise (CancelledError ''user''), s)
             else (ok r, s\<lparr>tp_ledger := link_observation (sk_key c) (sn_observation n) (sn_artifact n) (tp_ledger s)\<rparr>))"

subsection \<open>Serial calls and parallel batches\<close>

type_synonym step = "step_call \<times> step_env \<times> step_return"

text \<open>A serial call begins and finishes before the next one; the calls of a parallel batch all begin, in the order of
  the model, before they are settled in that order.\<close>

fun tool_step :: "step \<Rightarrow> step_state \<Rightarrow> step_result res \<times> step_state" where
  "tool_step (c, v, n) s =
     (case begin_step c v s of
        (Inl e, s') \<Rightarrow> (raise e, s')
      | (Inr g, s') \<Rightarrow> finish_step c v g n s')"

abbreviation after_step :: "step \<Rightarrow> step_state \<Rightarrow> step_state" where
  "after_step x s \<equiv> snd (tool_step x s)"

fun step_runs :: "step \<Rightarrow> step_state \<Rightarrow> bool" where
  "step_runs (c, v, n) s = (case fst (begin_step c v s) of Inr (Run a) \<Rightarrow> True | _ \<Rightarrow> False)"

fun begin_batch :: "step list \<Rightarrow> step_state \<Rightarrow> (step \<times> gate res) list \<times> step_state" where
  "begin_batch [] s = ([], s)"
| "begin_batch ((c, v, n) # xs) s =
    (let (g, s) = begin_step c v s; (gs, s) = begin_batch xs s in (((c, v, n), g) # gs, s))"

fun finish_batch :: "(step \<times> gate res) list \<Rightarrow> step_state \<Rightarrow> step_state" where
  "finish_batch [] s = s"
| "finish_batch (((c, v, n), Inl e) # gs) s = finish_batch gs s"
| "finish_batch (((c, v, n), Inr g) # gs) s = finish_batch gs (snd (finish_step c v g n s))"

definition parallel_batch :: "step list \<Rightarrow> step_state \<Rightarrow> step_state" where
  "parallel_batch xs s = (let (gs, s) = begin_batch xs s in finish_batch gs s)"

subsection \<open>One step at a time\<close>

lemma begin_step_cases:
  obtains (cancelled) "begin_step c v s = (raise (CancelledError ''user''), s)"
  | (answer) r where "step_answer c v s = Some r" "begin_step c v s = (ok (Answer r), s)"
  | (running) s' where "step_answer c v s = None" "begin_step c v s = (ok (Run (dispatched_action c v)), s')"
      "tp_budget s' = tp_budget s" "tp_ledger s' = tp_ledger s"
      "tp_pending s' = tp_pending s + (if shared_inflight c then 0 else 1)"
  by (cases "step_answer c v s"; cases "sk_prepared c = None \<and> sv_cancelled v")
     (auto simp: begin_step_def Let_def)

definition counted :: "step_call \<Rightarrow> step_result res \<Rightarrow> bool" where
  "counted c m \<longleftrightarrow> (case m of Inr r \<Rightarrow> sr_status r \<noteq> TRejected \<and> sk_prepared c = None | Inl e \<Rightarrow> False)"

lemma record_tool_use_tools [simp]:
  "bu_tools (record_tool_use g b) = bu_tools b + 1" "bu_max_tools (record_tool_use g b) = bu_max_tools b"
  by (simp_all add: record_tool_use_def Let_def split: budget_group.split)

lemma sealed_simps [simp]:
  "sr_status (seal_receipt d c r) = sr_status r" "sr_error (seal_receipt d c r) = sr_error r"
  "sr_postcondition (seal_receipt d c r) = sr_postcondition r" "next_status c (seal_receipt d c r) = next_status c r"
  by (simp_all add: seal_receipt_def Let_def next_status_def)

lemma finish_step_budget:
  fixes c v n s g
  defines "s' \<equiv> snd (finish_step c v g n s)"
  shows "bu_tools (tp_budget s') = bu_tools (tp_budget s) + (if counted c (sn_result n) then 1 else 0)"
    "bu_max_tools (tp_budget s') = bu_max_tools (tp_budget s)"
    "tp_pending s' = tp_pending s - (case g of Run a \<Rightarrow> if shared_inflight c then 0 else 1 | Answer r \<Rightarrow> 0)"
  unfolding s'_def
  by (auto simp: finish_step_def Let_def counted_def count_step_def abandon_def conclude_action_def settle_inflight_def
      split: sum.splits gate.splits)

subsection \<open>The limit on tool calls\<close>

datatype turn = SerialTurn step | ParallelTurn "step list"

fun run_turn :: "turn \<Rightarrow> step_state \<Rightarrow> step_state" where
  "run_turn (SerialTurn x) s = after_step x s"
| "run_turn (ParallelTurn xs) s = parallel_batch xs s"

fun turn_shape :: "turn \<Rightarrow> bool" where
  "turn_shape (SerialTurn (c, v, n)) = shared_inflight c"
| "turn_shape (ParallelTurn xs) = (\<forall>x \<in> set xs. \<not> shared_inflight (fst x))"

text \<open>Answers given without a gate (replays, conflicts, answers of the policy) that are counted nevertheless.\<close>

fun is_run :: "gate res \<Rightarrow> bool" where
  "is_run (Inr (Run a)) = True"
| "is_run g = False"

fun uncharged :: "step \<times> gate res \<Rightarrow> bool" where
  "uncharged ((c, v, n), Inr (Answer r)) = counted c (sn_result n)"
| "uncharged (x, g) = False"

definition uncharged_in :: "(step \<times> gate res) list \<Rightarrow> int" where
  "uncharged_in gs = int (length (filter uncharged gs))"

definition runs_in :: "(step \<times> gate res) list \<Rightarrow> int" where
  "runs_in gs = int (length (filter (is_run \<circ> snd) gs))"

lemma count_simps [simp]:
  "uncharged_in [] = 0" "runs_in [] = 0"
  "uncharged_in (g # gs) = (if uncharged g then 1 else 0) + uncharged_in gs"
  "runs_in (g # gs) = (if is_run (snd g) then 1 else 0) + runs_in gs"
  by (simp_all add: uncharged_in_def runs_in_def)

lemma count_nonneg [simp]: "0 \<le> runs_in gs" "0 \<le> uncharged_in gs"
  by (simp_all add: runs_in_def uncharged_in_def)

fun turn_uncharged :: "turn \<Rightarrow> step_state \<Rightarrow> int" where
  "turn_uncharged (SerialTurn x) s = uncharged_in (fst (begin_batch [x] s))"
| "turn_uncharged (ParallelTurn xs) s = uncharged_in (fst (begin_batch xs s))"

fun total_uncharged :: "turn list \<Rightarrow> step_state \<Rightarrow> int" where
  "total_uncharged [] s = 0"
| "total_uncharged (t # ts) s = turn_uncharged t s + total_uncharged ts (run_turn t s)"

lemma begin_batch_budget:
  fixes xs s
  assumes "\<forall>x \<in> set xs. \<not> shared_inflight (fst x)" "0 < bu_max_tools (tp_budget s)"
  defines "gs \<equiv> fst (begin_batch xs s)" and "s' \<equiv> snd (begin_batch xs s)"
  shows "tp_budget s' = tp_budget s \<and> tp_pending s' = tp_pending s + runs_in gs
     \<and> (runs_in gs = 0 \<or> bu_tools (tp_budget s) + tp_pending s' \<le> bu_max_tools (tp_budget s))"
  using assms(1,2) unfolding gs_def s'_def
proof (induction xs arbitrary: s)
  case (Cons x xs)
  obtain c v n where x: "x = (c, v, n)" by (cases x)
  have iso: "\<not> shared_inflight c" using Cons.prems(1) x by simp
  show ?case
  proof (cases rule: begin_step_cases[of c v s])
    case cancelled
    then show ?thesis using Cons.IH[of s] Cons.prems x by (auto simp: split_beta Let_def)
  next
    case (answer r)
    then show ?thesis using Cons.IH[of s] Cons.prems x by (auto simp: split_beta Let_def)
  next
    case (running s')
    have free: "\<not> tools_used_up s"
      using running(1) by (auto simp: step_answer_def split: option.splits if_splits)
    then have "bu_tools (tp_budget s) + tp_pending s + 1 \<le> bu_max_tools (tp_budget s)"
      using Cons.prems(2) by (simp add: tools_used_up_def)
    then show ?thesis using running(2-) Cons.IH[of s'] Cons.prems x iso by (auto simp: split_beta Let_def)
  qed
qed simp

lemma finish_batch_budget:
  assumes "\<forall>x \<in> set gs. \<not> shared_inflight (fst (fst x))"
  shows "bu_tools (tp_budget (finish_batch gs s)) \<le> bu_tools (tp_budget s) + runs_in gs + uncharged_in gs
     \<and> bu_max_tools (tp_budget (finish_batch gs s)) = bu_max_tools (tp_budget s)
     \<and> tp_pending (finish_batch gs s) = tp_pending s - runs_in gs"
  using assms
proof (induction gs s rule: finish_batch.induct)
  case (3 c v n g gs s)
  then show ?case
    using finish_step_budget[of c v g n s] by (cases g) (auto split: if_splits)
qed auto

lemma begin_batch_fst: "map fst (fst (begin_batch xs s)) = xs"
proof (induction xs arbitrary: s)
  case (Cons x xs)
  then show ?case by (cases x) (simp add: split_beta Let_def)
qed simp

lemma parallel_budget:
  assumes "turn_shape (ParallelTurn xs)" "0 < bu_max_tools (tp_budget s)" "tp_pending s = 0"
  defines "s' \<equiv> parallel_batch xs s"
  shows "bu_max_tools (tp_budget s') = bu_max_tools (tp_budget s) \<and> tp_pending s' = 0
    \<and> bu_tools (tp_budget s') \<le> max (bu_tools (tp_budget s)) (bu_max_tools (tp_budget s)) + turn_uncharged (ParallelTurn xs) s"
proof -
  obtain gs t where gt: "begin_batch xs s = (gs, t)" by (cases "begin_batch xs s")
  have "\<forall>x \<in> set gs. \<not> shared_inflight (fst (fst x))"
  proof
    fix x assume "x \<in> set gs"
    then have "fst x \<in> set xs" using begin_batch_fst[of xs s] gt by (metis fst_conv image_eqI set_map)
    then show "\<not> shared_inflight (fst (fst x))" using assms(1) by simp
  qed
  from finish_batch_budget[OF this, of t] begin_batch_budget[of xs s] assms gt
  show ?thesis by (auto simp: parallel_batch_def)
qed

lemma serial_budget:
  assumes "turn_shape (SerialTurn x)" "0 < bu_max_tools (tp_budget s)" "tp_pending s = 0"
  defines "s' \<equiv> after_step x s"
  shows "bu_max_tools (tp_budget s') = bu_max_tools (tp_budget s) \<and> tp_pending s' = 0
    \<and> bu_tools (tp_budget s') \<le> max (bu_tools (tp_budget s)) (bu_max_tools (tp_budget s)) + turn_uncharged (SerialTurn x) s"
proof -
  obtain c v n where x: "x = (c, v, n)" by (cases x)
  have shared: "shared_inflight c" using assms(1) x by simp
  show ?thesis
  proof (cases rule: begin_step_cases[of c v s])
    case cancelled
    then show ?thesis using assms x by (simp add: Let_def)
  next
    case (answer r)
    then show ?thesis
      using assms x finish_step_budget[of c v "Answer r" n s] by (auto simp: Let_def)
  next
    case (running s')
    have "\<not> tools_used_up s"
      using running(1) by (auto simp: step_answer_def split: option.splits if_splits)
    then show ?thesis
      using assms x running(2-) shared finish_step_budget[of c v "Run (dispatched_action c v)" n s']
      by (auto simp: Let_def tools_used_up_def)
  qed
qed

text \<open>C23.  The limit on tool calls holds through serial calls and parallel batches, although the calls of a batch are all
  started before any is counted: the tools counted never exceed the limit except by answers that were given without
  running a tool (replays, conflicts, answers of the policy) and counted as steps; no started call is left over.\<close>

theorem tool_calls_within_limit:
  fixes turns s
  assumes "0 < bu_max_tools (tp_budget s)" "bu_tools (tp_budget s) \<le> bu_max_tools (tp_budget s)" "tp_pending s = 0"
    and "\<forall>t \<in> set turns. turn_shape t"
  shows "bu_tools (tp_budget (fold run_turn turns s)) \<le> bu_max_tools (tp_budget s) + total_uncharged turns s
     \<and> tp_pending (fold run_turn turns s) = 0"
proof -
  have "bu_tools (tp_budget (fold run_turn turns s))
        \<le> max (bu_tools (tp_budget s)) (bu_max_tools (tp_budget s)) + total_uncharged turns s
      \<and> tp_pending (fold run_turn turns s) = 0"
    using assms(1,3,4)
  proof (induction turns arbitrary: s)
    case (Cons t ts)
    have step: "bu_max_tools (tp_budget (run_turn t s)) = bu_max_tools (tp_budget s) \<and> tp_pending (run_turn t s) = 0
      \<and> bu_tools (tp_budget (run_turn t s)) \<le> max (bu_tools (tp_budget s)) (bu_max_tools (tp_budget s)) + turn_uncharged t s"
      using Cons.prems serial_budget[of _ s] parallel_budget[of _ s] by (cases t) auto
    moreover have "0 \<le> turn_uncharged t s" by (cases t) auto
    ultimately show ?case using Cons.IH[of "run_turn t s"] Cons.prems by auto
  qed simp
  with assms(2) show ?thesis by simp
qed

subsection \<open>What the ledger remembers of a step\<close>

definition entries :: "action_ledger \<Rightarrow> (string \<times> string) list" where
  "entries l = map (\<lambda>a. (ac_key a, ac_status a)) l"

definition remembers :: "string \<Rightarrow> string \<Rightarrow> nat \<Rightarrow> (string \<times> string) list \<Rightarrow> bool" where
  "remembers k st n es \<longleftrightarrow> (\<exists>xs ys. es = xs @ (k, st) # ys \<and> (\<forall>e \<in> set ys. fst e \<noteq> k) \<and> length ys \<le> n)"

lemma entries_link_first: "entries (link_first key oid ref l) = entries l"
  by (induction l) (auto simp: entries_def)

lemma entries_link [simp]: "entries (link_observation key oid ref l) = entries l"
proof -
  have "entries (rev xs) = rev (entries xs)" for xs by (simp add: entries_def rev_map)
  then show ?thesis by (simp add: link_observation_def entries_link_first)
qed

lemma keep_last_map: "map f (keep_last n xs) = keep_last n (map f xs)"
  by (simp add: keep_last_def drop_map)

lemma entries_append [simp]:
  "entries (append_action a l) = keep_last LEDGER_SIZE (entries l @ [(ac_key a, ac_status a)])"
  by (simp only: entries_def append_action_def keep_last_map map_append list.map)

lemma remembers_find:
  assumes "remembers k st n (entries l)" "k \<noteq> []"
  obtains a where "find_action_by_idempotency k l = Some a" "ac_status a = st"
proof -
  obtain xs ys where e: "entries l = xs @ (k, st) # ys" "\<forall>e \<in> set ys. fst e \<noteq> k"
    using assms(1) unfolding remembers_def by blast
  then obtain us a vs where l: "l = us @ a # vs" "ac_key a = k" "ac_status a = st" "entries vs = ys"
    by (auto simp: entries_def map_eq_append_conv map_eq_Cons_conv)
  have "newest (\<lambda>b. ac_key b = k) vs = None"
    using e(2) l(4) by (auto simp: newest_None_iff entries_def)
  then have "newest (\<lambda>b. ac_key b = k) l = Some a"
    using l(1,2) newest_append[of "\<lambda>b. ac_key b = k" "us @ [a]" vs] by (simp add: newest_snoc)
  then show thesis using that l(3) assms(2) by (simp add: find_action_by_idempotency_def)
qed

lemma remembers_append:
  assumes "remembers k st n es" "fst e \<noteq> k" "Suc n < LEDGER_SIZE"
  shows "remembers k st (Suc n) (keep_last LEDGER_SIZE (es @ [e]))" "remembers k st (Suc n) (es @ [e])"
proof -
  obtain xs ys where e: "es = xs @ (k, st) # ys" "\<forall>e \<in> set ys. fst e \<noteq> k" "length ys \<le> n"
    using assms(1) unfolding remembers_def by blast
  have "keep_last LEDGER_SIZE (es @ [e])
      = keep_last (LEDGER_SIZE - length ys - 2) xs @ (k, st) # (ys @ [e])"
    using e assms(3) by (auto simp: keep_last_def drop_append)
  moreover have "\<forall>x \<in> set (ys @ [e]). fst x \<noteq> k" "length (ys @ [e]) \<le> Suc n" using e assms(2) by auto
  ultimately show "remembers k st (Suc n) (keep_last LEDGER_SIZE (es @ [e]))"
    unfolding remembers_def by blast
  show "remembers k st (Suc n) (es @ [e])"
    using e assms(2) unfolding remembers_def by (intro exI[of _ xs] exI[of _ "ys @ [e]"]) auto
qed

lemma remembers_new:
  "remembers k st 0 (keep_last LEDGER_SIZE (es @ [(k, st)]))" "remembers k st 0 (es @ [(k, st)])"
proof -
  have "keep_last LEDGER_SIZE (es @ [(k, st)]) = keep_last (LEDGER_SIZE - 1) es @ [(k, st)]"
    by (auto simp: keep_last_def LEDGER_SIZE_def)
  then show "remembers k st 0 (keep_last LEDGER_SIZE (es @ [(k, st)]))" by (auto simp: remembers_def)
  show "remembers k st 0 (es @ [(k, st)])" by (auto simp: remembers_def)
qed

lemma remembers_mono: "remembers k st m es \<Longrightarrow> m \<le> n \<Longrightarrow> remembers k st n es"
  unfolding remembers_def by (blast intro: le_trans)

text \<open>The entry a step that ran leaves: none when it raised outside of a batch.\<close>

definition left_status :: "step_call \<Rightarrow> step_return \<Rightarrow> string option" where
  "left_status c n =
     (case sn_result n of
        Inr r \<Rightarrow> Some (next_status c r)
      | Inl e \<Rightarrow> if sk_context c then Some ''uncertain'' else None)"

lemma next_status_allowed: "next_status c r \<in> set (allowed_moves ''dispatched'')"
  by (simp add: next_status_def allowed_moves_def ACTION_TRANSITIONS_def)

lemma dispatched_action_simps [simp]:
  "ac_key (dispatched_action c v) = sk_key c" "ac_status (dispatched_action c v) = ''dispatched''"
  by (simp_all add: dispatched_action_def build_action_def)

lemma concluded_entries:
  "entries (tp_ledger (conclude_action now c (dispatched_action c v) r s))
     = keep_last LEDGER_SIZE (entries (tp_ledger s) @ [(sk_key c, next_status c r)])"
  using next_status_allowed[of c r]
  by (simp add: conclude_action_def Let_def settle_inflight_def transition_action_def)

lemma abandoned_entries:
  "entries (tp_ledger (abandon c (dispatched_action c v) s))
     = entries (tp_ledger s) @ (if sk_context c then [(sk_key c, ''uncertain'')] else [])"
  by (simp add: abandon_def Let_def settle_inflight_def entries_def)

lemma counted_ledger [simp]: "tp_ledger (count_step c r s) = tp_ledger s"
  by (simp add: count_step_def)

lemma idle_step_entries:
  assumes "\<not> step_runs (c, v, n) s"
  shows "entries (tp_ledger (after_step (c, v, n) s)) = entries (tp_ledger s)"
proof (cases rule: begin_step_cases[of c v s])
  case (answer r)
  then show ?thesis by (auto simp: finish_step_def Let_def split: sum.splits)
next
  case (running s')
  then show ?thesis using assms by simp
qed simp

lemma running_step_entries:
  assumes "step_runs (c, v, n) s"
  shows "entries (tp_ledger (after_step (c, v, n) s)) =
    (case left_status c n of
       None \<Rightarrow> entries (tp_ledger s)
     | Some st \<Rightarrow> if is_ok (sn_result n) then keep_last LEDGER_SIZE (entries (tp_ledger s) @ [(sk_key c, st)])
                else entries (tp_ledger s) @ [(sk_key c, st)])"
proof (cases rule: begin_step_cases[of c v s])
  case (running s')
  then show ?thesis
    by (cases "sn_result n")
       (auto simp: finish_step_def Let_def left_status_def concluded_entries abandoned_entries)
qed (use assms in auto)

lemma step_remembers:
  assumes "remembers k st n (entries (tp_ledger s))" "step_runs x s \<longrightarrow> sk_key (fst x) \<noteq> k" "Suc n < LEDGER_SIZE"
  shows "remembers k st (Suc n) (entries (tp_ledger (after_step x s)))"
proof -
  obtain c v m where x: "x = (c, v, m)" by (cases x)
  have same: "remembers k st (Suc n) (entries (tp_ledger s))" using remembers_mono[OF assms(1)] by simp
  show ?thesis
  proof (cases "step_runs (c, v, m) s")
    case False
    then show ?thesis using same x idle_step_entries[OF False] by simp
  next
    case True
    then have "sk_key c \<noteq> k" using assms(2) x by simp
    then have "remembers k st (Suc n) (keep_last LEDGER_SIZE (entries (tp_ledger s) @ [(sk_key c, st')]))"
        "remembers k st (Suc n) (entries (tp_ledger s) @ [(sk_key c, st')])" for st'
      using remembers_append[OF assms(1) _ assms(3), of "(sk_key c, st')"] by auto
    then show ?thesis using running_step_entries[OF True] same x by (auto split: option.splits)
  qed
qed

lemma remembers_through:
  assumes "remembers k st 0 (entries (tp_ledger (fold after_step (take i xs) s)))"
    and "i \<le> j" "j \<le> length xs" "j - i < LEDGER_SIZE"
    and "\<forall>m. i \<le> m \<and> m < j \<and> step_runs (xs ! m) (fold after_step (take m xs) s) \<longrightarrow> sk_key (fst (xs ! m)) \<noteq> k"
  shows "remembers k st (j - i) (entries (tp_ledger (fold after_step (take j xs) s)))"
  using assms(2-)
proof (induction j)
  case (Suc j)
  show ?case
  proof (cases "i = Suc j")
    case False
    then have ij: "i \<le> j" "j < length xs" "Suc (j - i) < LEDGER_SIZE" "Suc j - i = Suc (j - i)"
      using Suc.prems by auto
    have "remembers k st (j - i) (entries (tp_ledger (fold after_step (take j xs) s)))"
      using Suc.IH Suc.prems ij by auto
    then have "remembers k st (Suc (j - i)) (entries (tp_ledger (after_step (xs ! j) (fold after_step (take j xs) s))))"
      using Suc.prems(4) ij by (intro step_remembers) auto
    then show ?thesis using ij by (simp add: take_Suc_conv_app_nth)
  qed (use assms(1) in simp)
qed (use assms(1) in simp)

text \<open>C10.  In a run of serial steps, a side effect under one idempotency key is carried out twice within a hundred steps
  only if its first execution did not get confirmed: of two executions in a row (no other one under the key between) of a tool that
  does more than read, at most a hundred steps apart (the ledger that is asked keeps a hundred actions), the first one ended acknowledged without a verified postcondition, or failed, or raised outside
  of a batch.  In particular a verified effect, and one the ledger holds as uncertain, is not repeated within that distance.\<close>

theorem repeated_effect_was_unconfirmed:
  assumes "i < j" "j < length xs" "j - i \<le> 100"
    and "xs ! i = (c, v, n)" "xs ! j = (c', v', n')"
    and "sk_key c = sk_key c'" "sk_key c' \<noteq> []" "\<not> harmless c'"
    and "step_runs (xs ! i) (fold after_step (take i xs) s)" "step_runs (xs ! j) (fold after_step (take j xs) s)"
    and "\<forall>m. i < m \<and> m < j \<and> step_runs (xs ! m) (fold after_step (take m xs) s) \<longrightarrow> sk_key (fst (xs ! m)) \<noteq> sk_key c"
  shows "left_status c n \<in> {Some ''acknowledged'', Some ''failed'', None}"
proof (rule ccontr)
  assume "left_status c n \<notin> {Some ''acknowledged'', Some ''failed'', None}"
  then obtain st where st: "left_status c n = Some st" "st \<in> {''verified'', ''uncertain''}"
    by (auto simp: left_status_def next_status_def split: sum.splits if_splits)
  let ?s = "\<lambda>m. fold after_step (take m xs) s"
  have i: "i < length xs" using assms(1,2) by simp
  have "remembers (sk_key c) st 0 (entries (tp_ledger (after_step (c, v, n) (?s i))))"
    using running_step_entries[of c v n "?s i"] assms(4,9) st(1) remembers_new by simp
  then have "remembers (sk_key c) st 0 (entries (tp_ledger (?s (Suc i))))"
    using i assms(4) by (simp add: take_Suc_conv_app_nth)
  then have "remembers (sk_key c) st (j - Suc i) (entries (tp_ledger (?s j)))"
    using assms(1-3,11) by (intro remembers_through) (auto simp: LEDGER_SIZE_def)
  then obtain a where "find_action_by_idempotency (sk_key c') (tp_ledger (?s j)) = Some a" "ac_status a = st"
    using assms(6,7) by (elim remembers_find) auto
  then have "prior_answer c' (?s j) \<noteq> None"
    using st(2) assms(8) by (auto simp: prior_answer_def split: option.split)
  then have "step_answer c' v' (?s j) \<noteq> None" by (auto simp: step_answer_def)
  then show False using assms(5,10) by (cases rule: begin_step_cases[of c' v' "?s j"]) auto
qed

subsection \<open>Concrete steps\<close>

definition sample_budget :: "int \<Rightarrow> repair_budget" where
  "sample_budget limit =
     \<lparr>bu_max_turns = 0, bu_max_tools = limit, bu_max_writes = 0, bu_max_verifies = 0, bu_max_recoveries = 0,
      bu_turns = 0, bu_tools = 0, bu_writes = 0, bu_verifies = 0, bu_recoveries = 0\<rparr>"

definition fresh_steps :: "int \<Rightarrow> step_state" where
  "fresh_steps limit =
     \<lparr>tp_ledger = [], tp_action = None, tp_tool = [], tp_pending = 0, tp_budget = sample_budget limit, tp_steps = 0,
      tp_last_tool = [], tp_reserved = []\<rparr>"

definition sample_call :: "bool \<Rightarrow> string \<Rightarrow> string \<Rightarrow> step_call" where
  "sample_call batched side_effect key =
     \<lparr>sk_tool = ''tool'', sk_group = GRead, sk_side_effect = side_effect, sk_key = key, sk_args = ''{}'',
      sk_args_hash = [], sk_run = ''run'', sk_call = key, sk_context = batched, sk_isolated = batched,
      sk_prepared = None\<rparr>"

definition sample_env :: step_env where
  "sample_env = \<lparr>sv_cancelled = False, sv_policy = None, sv_expired = False, sv_allowed = True, sv_revision = 0,
     sv_sha = identity_hash, sv_isolated_agent = False\<rparr>"

definition sample_return :: "step_result res \<Rightarrow> step_return" where
  "sample_return m = \<lparr>sn_result = m, sn_now = 0, sn_cancelled = False, sn_digest = (\<lambda>_. []),
     sn_observation = ''o1'', sn_artifact = []\<rparr>"

definition write_step :: "step_result res \<Rightarrow> step" where
  "write_step m = (sample_call False ''local_write'' ''r:1:tool'', sample_env, sample_return m)"

definition read_step :: "string \<Rightarrow> step" where
  "read_step key = (sample_call True ''read'' key, sample_env, sample_return (ok (plain_result TSuccess [])))"

definition written_twice :: "step_result res \<Rightarrow> bool" where
  "written_twice m \<longleftrightarrow> step_runs (write_step m) (fold after_step (take 1 [write_step m, write_step m]) (fresh_steps 9))"

lemmas sample_step_simps = write_step_def read_step_def sample_call_def sample_env_def sample_return_def
  fresh_steps_def sample_budget_def begin_step_def step_answer_def prior_answer_def
  find_action_by_idempotency_def tools_used_up_def allow_tool_def finish_step_def conclude_action_def
  transition_action_def next_status_def settle_inflight_def dispatched_action_def build_action_def
  seal_receipt_def plain_result_def count_step_def link_observation_def append_action_def keep_last_def
  LEDGER_SIZE_def ACTION_TRANSITIONS_def allowed_moves_def newest_def harmless_def abandon_def

lemma repeated_effect_was_unconfirmed_witness:
  "left_status (fst (write_step (ok (plain_result TSuccess []))))
       (snd (snd (write_step (ok (plain_result TSuccess [])))))
     \<in> {Some ''acknowledged'', Some ''failed'', None}"
proof -
  let ?x = "write_step (ok (plain_result TSuccess []))"
  have r: "step_runs ([?x, ?x] ! 0) (fold after_step (take 0 [?x, ?x]) (fresh_steps 9))"
    "step_runs ([?x, ?x] ! 1) (fold after_step (take 1 [?x, ?x]) (fresh_steps 9))"
    by (simp_all add: sample_step_simps Let_def)
  have x: "?x = (fst ?x, fst (snd ?x), snd (snd ?x))" by simp
  have k: "sk_key (fst ?x) \<noteq> []" "\<not> harmless (fst ?x)"
    by (simp_all add: write_step_def sample_call_def harmless_def)
  show ?thesis
    by (rule repeated_effect_was_unconfirmed[of 0 1 "[?x, ?x]" "fst ?x" "fst (snd ?x)" "snd (snd ?x)"
        "fst ?x" "fst (snd ?x)" "snd (snd ?x)" "fresh_steps 9", OF _ _ _ _ _ _ k r]) auto
qed

lemma tool_calls_within_limit_witness:
  "let turns = [SerialTurn (write_step (ok (plain_result TSuccess []))), ParallelTurn [read_step ''b'', read_step ''c'']]
   in bu_tools (tp_budget (fold run_turn turns (fresh_steps 2))) \<le> 2 + total_uncharged turns (fresh_steps 2)
     \<and> tp_pending (fold run_turn turns (fresh_steps 2)) = 0"
  using tool_calls_within_limit[of "fresh_steps 2"
      "[SerialTurn (write_step (ok (plain_result TSuccess []))), ParallelTurn [read_step ''b'', read_step ''c'']]"]
  by (simp add: fresh_steps_def sample_budget_def write_step_def read_step_def sample_call_def Let_def)

text \<open>The two ways an effect is repeated: its write was only acknowledged, or the tool raised in a call outside of
  a batch, which leaves its uncertain action out of the ledger.\<close>

lemma acknowledged_write_repeated: "written_twice (ok (plain_result TSuccess []))"
  by (simp add: written_twice_def sample_step_simps Let_def)

lemma raised_write_repeated: "written_twice (raise (OSErr ''connection lost''))"
  by (simp add: written_twice_def sample_step_simps Let_def)

end
