(* ===== verification/ContextSelect.thy ===== *)
theory ContextSelect
  imports Prelude
begin

text \<open>
  Which pieces of context a model call gets: \<open>ContextPolicyEngine\<close> of \<open>agent_runtime/context_runtime.py\<close>
  with its requests, items, decisions and results.  Scores are real numbers, \<open>sorted\<close> is the stable
  \<open>sort_key\<close>, and the dictionary of items by identifier is the list of first items of each identifier.
\<close>

subsection \<open>Requests and items\<close>

record ctx_request =
  cq_phase :: string
  cq_hypotheses :: "string list"
  cq_budget :: int
  cq_role :: string
  cq_policy :: string
  cq_required :: "string list"
  cq_min_kinds :: "(string, int) alist"
  cq_allowed :: "string list"

record ctx_item =
  ci_id :: string
  ci_kind :: string
  ci_cost :: int
  ci_relevance :: real
  ci_confidence :: real
  ci_freshness :: real
  ci_strength :: real
  ci_hypotheses :: "string list"
  ci_scope :: string
  ci_stale :: bool
  ci_pin :: bool

definition policy_allows :: "ctx_request \<Rightarrow> ctx_item \<Rightarrow> bool" where
  "policy_allows q i \<longleftrightarrow> cq_allowed q = [] \<or> ci_kind i \<in> set (cq_allowed q)"

definition phase_factor :: "string \<Rightarrow> real" where
  "phase_factor phase = (if phase = ''patch'' then 115 / 100 else if phase = ''verify'' then 110 / 100 else 1)"

definition utility :: "ctx_request \<Rightarrow> ctx_item \<Rightarrow> real" where
  "utility q i =
    (let alignment = (if set (ci_hypotheses i) \<inter> set (cq_hypotheses q) \<noteq> {} then 1 else 6 / 10);
         scope_bonus = (if ci_scope i \<in> {''task'', ''run''} then 1 else 9 / 10);
         raw = 45 / 100 * ci_relevance i + 20 / 100 * ci_confidence i + 15 / 100 * ci_freshness i + 20 / 100 * ci_strength i
     in raw * phase_factor (cq_phase q) * alignment * scope_bonus / real_of_int (max (ci_cost i) 1))"

record ctx_decision =
  xd_id :: string
  xd_reason :: string
  xd_utility :: real

subsection \<open>Selection\<close>

record selection =
  se_selected :: "ctx_item list"
  se_dropped :: "ctx_decision list"
  se_used :: int

fun first_by_id :: "ctx_item list \<Rightarrow> ctx_item list \<Rightarrow> ctx_item list" where
  "first_by_id acc [] = acc"
| "first_by_id acc (i # xs) = first_by_id (if ci_id i \<in> ci_id ` set acc then acc else acc @ [i]) xs"

definition candidates :: "ctx_item list \<Rightarrow> ctx_item list" where
  "candidates items = first_by_id [] (filter (\<lambda>i. \<not> ci_stale i) items)"

definition item_cost :: "ctx_item \<Rightarrow> int" where
  "item_cost i = max (ci_cost i) 0"

definition take_or_drop :: "ctx_request \<Rightarrow> string \<Rightarrow> ctx_item \<Rightarrow> selection \<Rightarrow> selection" where
  "take_or_drop q reason i s =
     (if se_used s + item_cost i \<le> cq_budget q
      then s\<lparr>se_selected := se_selected s @ [i], se_used := se_used s + item_cost i\<rparr>
      else s\<lparr>se_dropped := se_dropped s @ [\<lparr>xd_id = ci_id i, xd_reason = reason, xd_utility = utility q i\<rparr>]\<rparr>)"

definition is_pinned :: "ctx_request \<Rightarrow> ctx_item \<Rightarrow> bool" where
  "is_pinned q i \<longleftrightarrow> ci_pin i \<or> ci_kind i \<in> set (cq_required q)"

definition select_pinned :: "ctx_request \<Rightarrow> ctx_item list \<Rightarrow> selection \<Rightarrow> selection" where
  "select_pinned q xs s = fold (take_or_drop q ''budget'') (sort_key ci_id (filter (is_pinned q) xs)) s"

definition drop_reason :: "ctx_request \<Rightarrow> ctx_item \<Rightarrow> selection \<Rightarrow> string" where
  "drop_reason q i s =
    (let required = (case al_get (cq_min_kinds q) (ci_kind i) of Some n \<Rightarrow> n | None \<Rightarrow> 0);
         current = int (length (filter (\<lambda>c. ci_kind c = ci_kind i) (se_selected s)))
     in if current < required then ''required_kind'' else ''budget'')"

definition weigh_item :: "ctx_request \<Rightarrow> ctx_item \<Rightarrow> selection \<Rightarrow> selection" where
  "weigh_item q i s =
     (if ci_id i \<in> ci_id ` set (se_selected s) then s else take_or_drop q (drop_reason q i s) i s)"

definition select_ranked :: "ctx_request \<Rightarrow> ctx_item list \<Rightarrow> selection \<Rightarrow> selection" where
  "select_ranked q xs s = fold (weigh_item q) (sort_key (\<lambda>i. (- utility q i, ci_id i)) xs) s"

definition note_unseen :: "ctx_request \<Rightarrow> ctx_item \<Rightarrow> selection \<Rightarrow> selection" where
  "note_unseen q i s =
     (if ci_id i \<notin> ci_id ` set (se_selected s) \<and> ci_id i \<notin> xd_id ` set (se_dropped s)
      then s\<lparr>se_dropped := se_dropped s @ [\<lparr>xd_id = ci_id i, xd_reason = ''policy'', xd_utility = utility q i\<rparr>]\<rparr>
      else s)"

definition select_with_result :: "ctx_item list \<Rightarrow> ctx_request \<Rightarrow> selection" where
  "select_with_result items q =
    (let xs = candidates items;
         s = select_ranked q xs (select_pinned q xs \<lparr>se_selected = [], se_dropped = [], se_used = 0\<rparr>)
     in fold (note_unseen q) xs s)"

definition selected_ids :: "selection \<Rightarrow> string list" where
  "selected_ids s = map ci_id (se_selected s)"

definition dropped_ids :: "selection \<Rightarrow> string list" where
  "dropped_ids s = map xd_id (se_dropped s)"

subsection \<open>Facts about the loops\<close>

lemma first_by_id_facts:
  assumes "distinct (map ci_id acc)"
  shows "distinct (map ci_id (first_by_id acc xs)) \<and> set (first_by_id acc xs) \<subseteq> set acc \<union> set xs
    \<and> ci_id ` set (first_by_id acc xs) = ci_id ` (set acc \<union> set xs)"
  using assms by (induction acc xs rule: first_by_id.induct) auto

lemma candidates_distinct: "distinct (map ci_id (candidates items))"
  using first_by_id_facts[of "[]" "filter (\<lambda>i. \<not> ci_stale i) items"] by (simp add: candidates_def)

lemma candidates_fresh: "i \<in> set (candidates items) \<Longrightarrow> i \<in> set items \<and> \<not> ci_stale i"
  using first_by_id_facts[of "[]" "filter (\<lambda>i. \<not> ci_stale i) items"] by (auto simp: candidates_def)

lemma candidates_ids: "ci_id ` set (candidates items) = ci_id ` {i \<in> set items. \<not> ci_stale i}"
  using first_by_id_facts[of "[]" "filter (\<lambda>i. \<not> ci_stale i) items"] by (simp add: candidates_def)

definition cost_sum :: "ctx_item list \<Rightarrow> int" where
  "cost_sum xs = sum_list (map item_cost xs)"

lemma cost_sum_simps [simp]: "cost_sum [] = 0" "cost_sum (x # xs) = item_cost x + cost_sum xs" "cost_sum (xs @ ys) = cost_sum xs + cost_sum ys"
  by (simp_all add: cost_sum_def)

lemma item_cost_nonneg [simp]: "0 \<le> item_cost i"
  by (simp add: item_cost_def)

lemma cost_sum_nonneg [simp]: "0 \<le> cost_sum xs"
  by (induction xs) (simp_all add: add_nonneg_nonneg)

definition selecting :: "ctx_request \<Rightarrow> ctx_item list \<Rightarrow> selection \<Rightarrow> bool" where
  "selecting q xs s \<longleftrightarrow>
     distinct (map ci_id (se_selected s)) \<and> set (se_selected s) \<subseteq> set xs
     \<and> se_used s = cost_sum (se_selected s) \<and> se_used s \<le> max 0 (cq_budget q)
     \<and> ci_id ` set (se_selected s) \<inter> xd_id ` set (se_dropped s) = {}
     \<and> (\<forall>d \<in> set (se_dropped s). xd_reason d \<noteq> ''policy''
          \<and> (\<exists>i \<in> set xs. ci_id i = xd_id d \<and> cq_budget q < se_used s + item_cost i))"

lemma selecting_unique:
  "distinct (map ci_id xs) \<Longrightarrow> i \<in> set xs \<Longrightarrow> j \<in> set xs \<Longrightarrow> ci_id i = ci_id j \<Longrightarrow> i = j"
  by (auto simp: distinct_map dest: inj_onD)

lemma take_or_drop_selecting:
  assumes "selecting q xs s" "distinct (map ci_id xs)" "i \<in> set xs" "ci_id i \<notin> ci_id ` set (se_selected s)"
    "reason \<noteq> ''policy''"
  shows "selecting q xs (take_or_drop q reason i s)"
proof (cases "se_used s + item_cost i \<le> cq_budget q")
  case True
  have "ci_id i \<notin> xd_id ` set (se_dropped s)"
  proof
    assume "ci_id i \<in> xd_id ` set (se_dropped s)"
    then obtain j where "j \<in> set xs" "ci_id j = ci_id i" "cq_budget q < se_used s + item_cost j"
      using assms(1) by (auto simp: selecting_def)
    then show False using selecting_unique[OF assms(2) _ assms(3), of j] True by simp
  qed
  moreover have "cq_budget q < se_used s + (item_cost i + c)" if "cq_budget q < se_used s + c" for c
    using that item_cost_nonneg[of i] by linarith
  ultimately show ?thesis
    using assms True by (force simp: selecting_def take_or_drop_def add.assoc)
next
  case False
  then show ?thesis using assms by (auto simp: selecting_def take_or_drop_def)
qed

lemma take_or_drop_grows:
  "set (se_selected s) \<subseteq> set (se_selected (take_or_drop q reason i s))"
  "set (se_dropped s) \<subseteq> set (se_dropped (take_or_drop q reason i s))"
  "ci_id i \<in> ci_id ` set (se_selected (take_or_drop q reason i s)) \<union> xd_id ` set (se_dropped (take_or_drop q reason i s))"
  "ci_id ` set (se_selected (take_or_drop q reason i s)) \<subseteq> insert (ci_id i) (ci_id ` set (se_selected s))"
  by (auto simp: take_or_drop_def)

lemma disjoint_insert: "A \<inter> B = {} \<Longrightarrow> y \<notin> A \<Longrightarrow> C \<subseteq> insert y B \<Longrightarrow> A \<inter> C = {}"
  by auto

lemma pinned_loop:
  assumes "selecting q xs s" "distinct (map ci_id xs)" "set ys \<subseteq> set xs" "distinct (map ci_id ys)"
    "ci_id ` set ys \<inter> ci_id ` set (se_selected s) = {}"
  shows "selecting q xs (fold (take_or_drop q ''budget'') ys s)"
  using assms
proof (induction ys arbitrary: s)
  case (Cons y ys)
  have "selecting q xs (take_or_drop q ''budget'' y s)"
    using Cons.prems by (intro take_or_drop_selecting) auto
  moreover have "ci_id ` set ys \<inter> ci_id ` set (se_selected (take_or_drop q ''budget'' y s)) = {}"
  proof -
    have "ci_id ` set ys \<inter> ci_id ` set (se_selected s) = {}" "ci_id y \<notin> ci_id ` set ys" using Cons.prems(4,5) by auto
    then show ?thesis by (rule disjoint_insert) (rule take_or_drop_grows(4))
  qed
  ultimately show ?case using Cons.IH Cons.prems(2-4) by simp
qed simp

lemma weigh_item_selecting:
  assumes "selecting q xs s" "distinct (map ci_id xs)" "i \<in> set xs"
  shows "selecting q xs (weigh_item q i s)"
  using assms take_or_drop_selecting[of q xs s i "drop_reason q i s"]
  by (auto simp: weigh_item_def drop_reason_def Let_def)

lemma weigh_item_grows:
  "set (se_selected s) \<subseteq> set (se_selected (weigh_item q i s))"
  "set (se_dropped s) \<subseteq> set (se_dropped (weigh_item q i s))"
  "ci_id i \<in> ci_id ` set (se_selected (weigh_item q i s)) \<union> xd_id ` set (se_dropped (weigh_item q i s))"
  using take_or_drop_grows[where q = q and reason = "drop_reason q i s" and i = i and s = s] by (auto simp: weigh_item_def)

lemma ranked_loop:
  assumes "selecting q xs s" "distinct (map ci_id xs)" "set ys \<subseteq> set xs"
  shows "selecting q xs (fold (weigh_item q) ys s)
    \<and> set (se_selected s) \<subseteq> set (se_selected (fold (weigh_item q) ys s))
    \<and> set (se_dropped s) \<subseteq> set (se_dropped (fold (weigh_item q) ys s))
    \<and> ci_id ` set ys \<subseteq> ci_id ` set (se_selected (fold (weigh_item q) ys s)) \<union> xd_id ` set (se_dropped (fold (weigh_item q) ys s))"
  using assms
proof (induction ys arbitrary: s)
  case (Cons y ys)
  let ?s = "weigh_item q y s"
  have "selecting q xs ?s" using Cons.prems by (intro weigh_item_selecting) auto
  note IH = Cons.IH[OF this Cons.prems(2)]
  let ?t = "fold (weigh_item q) ys ?s"
  have "selecting q xs ?t" "set (se_selected ?s) \<subseteq> set (se_selected ?t)" "set (se_dropped ?s) \<subseteq> set (se_dropped ?t)"
    and cover: "ci_id ` set ys \<subseteq> ci_id ` set (se_selected ?t) \<union> xd_id ` set (se_dropped ?t)"
    using IH Cons.prems(3) by auto
  moreover have "set (se_selected s) \<subseteq> set (se_selected ?t)" "set (se_dropped s) \<subseteq> set (se_dropped ?t)"
    using weigh_item_grows(1,2)[where q = q and i = y and s = s] calculation(2,3) by (blast intro: subset_trans)+
  moreover have "ci_id y \<in> ci_id ` set (se_selected ?t) \<union> xd_id ` set (se_dropped ?t)"
    using weigh_item_grows(3)[where q = q and i = y and s = s] calculation(2,3) by (meson UnE UnI1 UnI2 image_mono subsetD)
  ultimately show ?case using cover by simp
qed simp

lemma nothing_unseen:
  assumes "ci_id ` set ys \<subseteq> ci_id ` set (se_selected s) \<union> xd_id ` set (se_dropped s)"
  shows "fold (note_unseen q) ys s = s"
  using assms by (induction ys) (auto simp: note_unseen_def)

definition pinned_first :: "ctx_item list \<Rightarrow> ctx_request \<Rightarrow> selection" where
  "pinned_first items q = select_pinned q (candidates items) \<lparr>se_selected = [], se_dropped = [], se_used = 0\<rparr>"

lemma select_with_result_eq:
  "select_with_result items q = select_ranked q (candidates items) (pinned_first items q)"
  "selecting q (candidates items) (select_with_result items q)"
  "set (se_selected (pinned_first items q)) \<subseteq> set (se_selected (select_with_result items q))"
  "ci_id ` set (candidates items) \<subseteq> set (selected_ids (select_with_result items q)) \<union> set (dropped_ids (select_with_result items q))"
proof -
  let ?xs = "candidates items"
  note d = candidates_distinct[of items]
  have "selecting q ?xs (pinned_first items q)"
    unfolding pinned_first_def select_pinned_def
    using d by (intro pinned_loop) (auto simp: selecting_def distinct_map inj_on_def)
  from ranked_loop[OF this d, of "sort_key (\<lambda>i. (- utility q i, ci_id i)) ?xs"]
  have r: "selecting q ?xs (select_ranked q ?xs (pinned_first items q))
    \<and> set (se_selected (pinned_first items q)) \<subseteq> set (se_selected (select_ranked q ?xs (pinned_first items q)))
    \<and> ci_id ` set ?xs \<subseteq> ci_id ` set (se_selected (select_ranked q ?xs (pinned_first items q)))
        \<union> xd_id ` set (se_dropped (select_ranked q ?xs (pinned_first items q)))"
    by (simp add: select_ranked_def)
  then show eq: "select_with_result items q = select_ranked q ?xs (pinned_first items q)"
    by (simp add: select_with_result_def Let_def nothing_unseen pinned_first_def)
  from r show "selecting q ?xs (select_with_result items q)"
    "set (se_selected (pinned_first items q)) \<subseteq> set (se_selected (select_with_result items q))"
    "ci_id ` set ?xs \<subseteq> set (selected_ids (select_with_result items q)) \<union> set (dropped_ids (select_with_result items q))"
    unfolding eq selected_ids_def dropped_ids_def by simp_all
qed

subsection \<open>What a selection guarantees\<close>

text \<open>C38.  A selection fits its budget and leaves nothing out that would fit: the costs of the selected items add up to
  the tokens reported and stay within the budget, no item is selected twice or stale, and of the items
  with a fresh identifier each is either selected and not reported as dropped, or reported as
  dropped and too expensive for the tokens that are left.\<close>

theorem selection_maximal:
  fixes items q
  defines "s \<equiv> select_with_result items q"
  shows "se_used s = cost_sum (se_selected s) \<and> se_used s \<le> max 0 (cq_budget q)
     \<and> distinct (selected_ids s) \<and> set (se_selected s) \<subseteq> {i \<in> set items. \<not> ci_stale i}
     \<and> (\<forall>i \<in> set (candidates items).
          if i \<in> set (se_selected s) then ci_id i \<notin> set (dropped_ids s)
          else ci_id i \<in> set (dropped_ids s) \<and> cq_budget q < se_used s + item_cost i)"
proof -
  let ?xs = "candidates items"
  have s: "selecting q ?xs s" "ci_id ` set ?xs \<subseteq> set (selected_ids s) \<union> set (dropped_ids s)"
    using select_with_result_eq(2,4)[where items = items and q = q] by (simp_all add: s_def)
  have "if i \<in> set (se_selected s) then ci_id i \<notin> set (dropped_ids s)
        else ci_id i \<in> set (dropped_ids s) \<and> cq_budget q < se_used s + item_cost i" if i: "i \<in> set ?xs" for i
  proof (cases "i \<in> set (se_selected s)")
    case True
    then show ?thesis using s(1) by (auto simp: selecting_def dropped_ids_def)
  next
    case False
    have unique: "j = i" if "j \<in> set ?xs" "ci_id j = ci_id i" for j
      using selecting_unique[OF candidates_distinct that(1) i that(2)] .
    have "set (se_selected s) \<subseteq> set ?xs" using s(1) by (simp add: selecting_def)
    then have "ci_id i \<notin> set (selected_ids s)" using False unique by (auto simp: selected_ids_def)
    then have d: "ci_id i \<in> set (dropped_ids s)" using s(2) i by auto
    then obtain dec where "dec \<in> set (se_dropped s)" "xd_id dec = ci_id i" by (auto simp: dropped_ids_def)
    with s(1) obtain j where "j \<in> set ?xs" "ci_id j = ci_id i" "cq_budget q < se_used s + item_cost j"
      by (auto simp: selecting_def)
    with unique d False show ?thesis by auto
  qed
  moreover have "set (se_selected s) \<subseteq> {i \<in> set items. \<not> ci_stale i}"
    using s(1) candidates_fresh by (auto simp: selecting_def)
  moreover have "se_used s = cost_sum (se_selected s)" "se_used s \<le> max 0 (cq_budget q)" "distinct (selected_ids s)"
    using s(1) unfolding selecting_def selected_ids_def by blast+
  ultimately show ?thesis by blast
qed

lemma pins_taken:
  "se_used s + cost_sum ys \<le> cq_budget q \<Longrightarrow>
     se_selected (fold (take_or_drop q reason) ys s) = se_selected s @ ys"
proof (induction ys arbitrary: s)
  case (Cons y ys)
  have fits: "se_used s + item_cost y \<le> cq_budget q" using Cons.prems cost_sum_nonneg[of ys] unfolding cost_sum_simps by linarith
  then show ?case using Cons.IH[of "take_or_drop q reason y s"] Cons.prems by (simp add: take_or_drop_def)
qed simp

lemma cost_sum_sort_key [simp]: "cost_sum (sort_key f xs) = cost_sum xs"
proof -
  have "cost_sum (insort_key f x ys) = item_cost x + cost_sum ys" for x ys
    by (induction ys) auto
  then show ?thesis by (induction xs) simp_all
qed

text \<open> Pinned items and items of a required kind come first: whenever all of them fit the budget together they are
  all selected, however useful the other items are.\<close>

theorem pins_selected_first:
  assumes "cost_sum (filter (is_pinned q) (candidates items)) \<le> cq_budget q"
  shows "set (filter (is_pinned q) (candidates items)) \<subseteq> set (se_selected (select_with_result items q))"
proof -
  have "se_selected (pinned_first items q) = sort_key ci_id (filter (is_pinned q) (candidates items))"
    using assms by (simp add: pinned_first_def select_pinned_def pins_taken)
  then show ?thesis using select_with_result_eq(3)[where items = items and q = q] by simp
qed

text \<open>The minimum counts of the kinds never change what is selected, only the reason written next to what is dropped.\<close>

definition same_selection :: "selection \<Rightarrow> selection \<Rightarrow> bool" where
  "same_selection s t \<longleftrightarrow> se_selected s = se_selected t \<and> se_used s = se_used t"

lemma fold_simulates:
  "(\<And>x s t. R s t \<Longrightarrow> R (f x s) (g x t)) \<Longrightarrow> R s t \<Longrightarrow> R (fold f xs s) (fold g xs t)"
  by (induction xs arbitrary: s t) auto

lemma same_steps:
  assumes "cq_budget q = cq_budget q'" "same_selection s t"
  shows "same_selection (take_or_drop q r i s) (take_or_drop q' r' i t)"
    "same_selection (weigh_item q i s) (weigh_item q' i t)"
  using assms by (simp_all add: same_selection_def take_or_drop_def weigh_item_def)

lemma min_kinds_change_nothing:
  "selected_ids (select_with_result items (q\<lparr>cq_min_kinds := m\<rparr>)) = selected_ids (select_with_result items q)"
proof -
  let ?q = "q\<lparr>cq_min_kinds := m\<rparr>"
  have same: "utility ?q = utility q" "is_pinned ?q = is_pinned q"
    by (rule ext, simp add: utility_def is_pinned_def Let_def)+
  have p: "same_selection (pinned_first items ?q) (pinned_first items q)"
    unfolding pinned_first_def select_pinned_def same
    by (rule fold_simulates[of same_selection], rule same_steps(1)) (simp_all add: same_selection_def)
  have "same_selection (select_with_result items ?q) (select_with_result items q)"
    unfolding select_with_result_eq(1) select_ranked_def same
    by (rule fold_simulates[of same_selection, OF _ p], rule same_steps(2)) simp_all
  then show ?thesis by (simp add: same_selection_def selected_ids_def)
qed

definition sample_item :: "string \<Rightarrow> int \<Rightarrow> bool \<Rightarrow> ctx_item" where
  "sample_item name cost pin =
     \<lparr>ci_id = name, ci_kind = ''memory'', ci_cost = cost, ci_relevance = 1, ci_confidence = 1, ci_freshness = 1,
      ci_strength = 1, ci_hypotheses = [], ci_scope = ''task'', ci_stale = False, ci_pin = pin\<rparr>"

definition sample_request :: "int \<Rightarrow> ctx_request" where
  "sample_request budget =
     \<lparr>cq_phase = ''repair'', cq_hypotheses = [], cq_budget = budget, cq_role = [], cq_policy = [], cq_required = [],
      cq_min_kinds = [], cq_allowed = []\<rparr>"

lemmas sample_selection_simps = sample_item_def sample_request_def candidates_def is_pinned_def
  select_with_result_def select_pinned_def select_ranked_def take_or_drop_def weigh_item_def note_unseen_def
  item_cost_def

lemma pins_selected_first_witness:
  "set (filter (is_pinned (sample_request 9)) (candidates [sample_item ''a'' 1 False, sample_item ''b'' 9 True]))
     \<subseteq> set (se_selected (select_with_result [sample_item ''a'' 1 False, sample_item ''b'' 9 True] (sample_request 9)))"
  using pins_selected_first[of "sample_request 9" "[sample_item ''a'' 1 False, sample_item ''b'' 9 True]"]
  by (simp add: sample_selection_simps)

lemma selection_maximal_witness:
  "let items = [sample_item ''a'' 5 False, sample_item ''b'' 1 True]; s = select_with_result items (sample_request 4)
   in se_used s = cost_sum (se_selected s) \<and> se_used s \<le> 4 \<and> distinct (selected_ids s)"
  using selection_maximal[of "[sample_item ''a'' 5 False, sample_item ''b'' 1 True]" "sample_request 4"]
  by (simp add: sample_request_def Let_def)

lemma refused_pin_listed_twice:
  "dropped_ids (select_with_result [sample_item ''a'' 5 True] (sample_request 1)) = [''a'', ''a'']"
  by (simp add: sample_selection_simps dropped_ids_def Let_def)

lemma kept_reasons: "\<forall>d \<in> set (se_dropped (select_with_result items q)). xd_reason d \<noteq> ''policy''"
  using select_with_result_eq(2)[where items = items and q = q] by (auto simp: selecting_def)

end
