(* ===== verification/ObservationStore.thy ===== *)
theory ObservationStore
  imports HistoryItems
begin

text \<open>
  The observations of a session: \<open>Observation\<close> and \<open>ObservationStore\<close> of
  \<open>agent_runtime/context_runtime.py\<close>.  A store belongs to a session; the directory of blobs and the table of
  records (\<open>disk\<close>) are shared by all sessions of a state root.  Every method runs under the lock and is
  one step.  The hash, the clock, the redaction of secrets, the fingerprint of the sources and whether a write
  succeeds are arguments; the fields only shown to readers (summary, facts, provenance) are left out.
\<close>

subsection \<open>Records, stores and the disk\<close>

record stored_obs =
  oo_id :: string
  oo_tool :: string
  oo_version :: string
  oo_raw_ref :: string
  oo_created :: real
  oo_stale :: bool
  oo_status :: string
  oo_dedup :: string
  oo_workspace :: string
  oo_session :: string
  oo_run :: string
  oo_task :: string
  oo_lifecycle :: string
  oo_deps :: "string list"
  oo_supersedes :: string
  oo_reason :: string
  oo_checksum :: string
  oo_error :: string
  oo_evidence :: "string list"
  oo_retrieval :: bool

record obs_store =
  os_registry :: "(string, stored_obs) alist"
  os_index :: "(string, string) alist"
  os_blobs :: "(string, string) alist"
  os_root :: "string option"
  os_workspace :: string
  os_session :: string
  os_run :: string
  os_task :: string

record disk =
  dk_files :: "(string, string) alist"
  dk_rows :: "(string, stored_obs) alist"

type_synonym sha = "string \<Rightarrow> string"

definition blob_dir :: "string \<Rightarrow> string" where
  "blob_dir base = base @ ''/.agent/observations/''"

definition blob_path :: "string \<Rightarrow> string \<Rightarrow> string" where
  "blob_path base checksum = blob_dir base @ ''blob-'' @ checksum @ ''.txt''"

definition in_memory :: "string \<Rightarrow> bool" where
  "in_memory ref = starts_with ref ''memory:''"

definition memory_ref :: "string \<Rightarrow> string" where
  "memory_ref oid = ''memory:'' @ oid"

text \<open>A store opened on a disk takes over the rows of its workspace and session.\<close>

definition open_observations :: "obs_store \<Rightarrow> disk \<Rightarrow> obs_store" where
  "open_observations s d =
     fold (\<lambda>(oid, r) s.
         if oo_workspace r = os_workspace s \<and> (oo_session r = os_session s \<or> os_session s = [])
            \<and> oo_id r \<noteq> [] \<and> al_get (os_registry s) (oo_id r) = None
         then s\<lparr>os_registry := al_put (oo_id r) r (os_registry s), os_index := al_put (oo_dedup r) (oo_id r) (os_index s)\<rparr>
         else s)
       (if os_root s = None then [] else dk_rows d) s"

definition persist_record :: "obs_store \<Rightarrow> stored_obs \<Rightarrow> disk \<Rightarrow> disk" where
  "persist_record s r d = (if os_root s = None then d else d\<lparr>dk_rows := al_put (oo_id r) r (dk_rows d)\<rparr>)"

subsection \<open>Storing an observation\<close>

definition OBSERVATION_ERROR_CODES :: "string list" where
  "OBSERVATION_ERROR_CODES = [
     [], ''metadata_corruption'', ''blob_missing'', ''blob_checksum_mismatch'', ''permission_denied'', ''stale_source'',
     ''schema_incompatible'', ''storage_unavailable'', ''quota_exceeded'', ''redaction_failed'', ''concurrent_conflict'',
     ''execution_error'', ''tool_timeout'', ''tool_cancelled'', ''idempotency_conflict'', ''policy_denied'',
     ''stale_precondition'', ''rate_limited'', ''circuit_open'', ''validation_error'', ''unknown'']"

definition normalize_observation_error :: "string \<Rightarrow> string" where
  "normalize_observation_error v =
    (let t = casefold (strip_text v) in
     if t = [] then []
     else if t \<in> set OBSERVATION_ERROR_CODES then t
     else if contains ''timeout'' t then ''tool_timeout''
     else if contains ''permission'' t \<or> contains ''denied'' t then ''permission_denied''
     else if contains ''schema'' t \<or> contains ''validation'' t then ''validation_error''
     else ''unknown'')"

lemma normalized_error_known: "normalize_observation_error v \<in> set OBSERVATION_ERROR_CODES"
  by (simp add: normalize_observation_error_def Let_def OBSERVATION_ERROR_CODES_def)

definition READING_TOOLS :: "string list" where
  "READING_TOOLS = [''read_file'', ''grep'', ''search_files'', ''quick_test'']"

definition infer_dependencies :: "string \<Rightarrow> (string, string) alist \<Rightarrow> string list" where
  "infer_dependencies tool args =
    (let deps = filter (\<lambda>v. v \<noteq> []) (map (\<lambda>k. case al_get args k of Some v \<Rightarrow> v | None \<Rightarrow> [])
                  [''path'', ''filepath'', ''file'', ''target''])
     in if casefold tool \<in> set READING_TOOLS then sort (remdups deps) else [])"

definition dedup_key :: "obs_store \<Rightarrow> string \<Rightarrow> string \<Rightarrow> string \<Rightarrow> (string, string) alist \<Rightarrow> string" where
  "dedup_key s tool args_hash fingerprint args =
     os_workspace s @ '':'' @ os_session s @ '':'' @ tool @ '':'' @ args_hash @ '':'' @ fingerprint @ '':''
       @ join_with '','' (infer_dependencies tool args)"

definition persist_raw ::
  "sha \<Rightarrow> bool \<Rightarrow> string \<Rightarrow> string \<Rightarrow> obs_store \<Rightarrow> disk \<Rightarrow> string \<times> obs_store \<times> disk" where
  "persist_raw sha writable oid text s d =
     (case os_root s of
        None \<Rightarrow> (memory_ref oid, s\<lparr>os_blobs := al_put oid text (os_blobs s)\<rparr>, d)
      | Some base \<Rightarrow>
          let path = blob_path base (sha text) in
          if (case al_get (dk_files d) path of Some old \<Rightarrow> sha old = sha text | None \<Rightarrow> False) then (path, s, d)
          else if writable then (path, s, d\<lparr>dk_files := al_put path text (dk_files d)\<rparr>)
          else (memory_ref oid, s\<lparr>os_blobs := al_put oid text (os_blobs s)\<rparr>, d))"

record put_request =
  pr_tool :: string
  pr_args :: "(string, string) alist"
  pr_args_hash :: string
  pr_fingerprint :: string
  pr_text :: string
  pr_version :: string
  pr_status :: string
  pr_dependencies :: "string list"
  pr_sources :: "string list"
  pr_hits :: "string list"
  pr_error :: string
  pr_evidence :: "string list"
  pr_retrieval :: bool
  pr_now :: real
  pr_nanos :: string

definition live_match :: "string \<Rightarrow> obs_store \<Rightarrow> stored_obs option" where
  "live_match key s =
     (case al_get (os_index s) key of
        None \<Rightarrow> None
      | Some oid \<Rightarrow> if oid = [] then None else (case al_get (os_registry s) oid of
          None \<Rightarrow> None
        | Some r \<Rightarrow> if oo_lifecycle r = ''active'' \<and> \<not> oo_stale r then Some r else None))"

definition new_obs_id :: "sha \<Rightarrow> string \<Rightarrow> put_request \<Rightarrow> string" where
  "new_obs_id sha key p = ''OBS-'' @ take 16 (sha (key @ '':'' @ sha (pr_text p) @ '':'' @ pr_nanos p))"

definition put_observation ::
  "sha \<Rightarrow> bool \<Rightarrow> put_request \<Rightarrow> obs_store \<Rightarrow> disk \<Rightarrow> stored_obs \<times> obs_store \<times> disk" where
  "put_observation sha writable p s d =
    (let key = dedup_key s (pr_tool p) (pr_args_hash p) (pr_fingerprint p) (pr_args p) in
     case live_match key s of
       Some r \<Rightarrow> (r, s, d)
     | None \<Rightarrow>
        let previous = (case al_get (os_index s) key of Some oid \<Rightarrow> oid | None \<Rightarrow> []);
            oid = new_obs_id sha key p;
            (ref, s, d) = persist_raw sha writable oid (pr_text p) s d;
            deps = dedup ((if pr_dependencies p \<noteq> [] then pr_dependencies p else infer_dependencies (pr_tool p) (pr_args p))
                          @ pr_sources p @ filter (\<lambda>h. h \<noteq> []) (pr_hits p));
            r = \<lparr>oo_id = oid, oo_tool = pr_tool p, oo_version = pr_version p, oo_raw_ref = ref, oo_created = pr_now p,
                 oo_stale = False, oo_status = (if pr_status p = [] then ''ok'' else pr_status p), oo_dedup = key,
                 oo_workspace = os_workspace s, oo_session = os_session s, oo_run = os_run s, oo_task = os_task s,
                 oo_lifecycle = ''active'', oo_deps = deps, oo_supersedes = previous, oo_reason = [],
                 oo_checksum = sha (pr_text p), oo_error = normalize_observation_error (pr_error p), oo_evidence = pr_evidence p,
                 oo_retrieval = pr_retrieval p\<rparr>;
            s = s\<lparr>os_registry := al_put oid r (os_registry s), os_index := al_put key oid (os_index s)\<rparr>
        in (r, s, persist_record s r d))"

subsection \<open>Invalidation\<close>

definition mark_stale :: "string \<Rightarrow> stored_obs \<Rightarrow> stored_obs" where
  "mark_stale reason r = r\<lparr>oo_stale := True, oo_lifecycle := ''stale'', oo_reason := reason\<rparr>"

definition invalidate_one ::
  "(stored_obs \<Rightarrow> bool) \<Rightarrow> string \<Rightarrow> string \<times> stored_obs \<Rightarrow> nat \<times> obs_store \<times> disk \<Rightarrow> nat \<times> obs_store \<times> disk" where
  "invalidate_one P reason kr st =
    (let (k, r) = kr; (n, s, d) = st in
     if oo_lifecycle r = ''active'' \<and> P r
     then let r = mark_stale reason r; s = s\<lparr>os_registry := al_put k r (os_registry s)\<rparr>
          in (Suc n, s, persist_record s r d)
     else st)"

definition invalidate :: "(stored_obs \<Rightarrow> bool) \<Rightarrow> string \<Rightarrow> obs_store \<Rightarrow> disk \<Rightarrow> nat \<times> obs_store \<times> disk" where
  "invalidate P reason s d = fold (invalidate_one P reason) (os_registry s) (0, s, d)"

definition mark_stale_for_version :: "string \<Rightarrow> obs_store \<Rightarrow> disk \<Rightarrow> nat \<times> obs_store \<times> disk" where
  "mark_stale_for_version v = invalidate (\<lambda>r. v \<noteq> [] \<and> oo_version r = v) ''source_version_changed''"

definition invalidate_paths :: "string list \<Rightarrow> string \<Rightarrow> obs_store \<Rightarrow> disk \<Rightarrow> nat \<times> obs_store \<times> disk" where
  "invalidate_paths paths = invalidate (\<lambda>r. \<exists>p \<in> set (oo_deps r). p \<noteq> [] \<and> p \<in> set paths)"

subsection \<open>Reading an observation\<close>

text \<open>Where the text of a record is found; \<open>None\<close>: the reference leads out of the directory of blobs.  Blobs are
  written as they are (\<open>newline=""\<close>), but \<open>read_text\<close> turns carriage returns into line feeds.\<close>

definition universal_newlines :: "string \<Rightarrow> string" where
  "universal_newlines t = map (\<lambda>c. if c = CR then LF else c) (crlf_to_lf t)"

definition blob_text :: "obs_store \<Rightarrow> disk \<Rightarrow> string \<Rightarrow> stored_obs \<Rightarrow> string option" where
  "blob_text s d oid r =
     (if in_memory (oo_raw_ref r) then Some (case al_get (os_blobs s) oid of Some t \<Rightarrow> t | None \<Rightarrow> [])
      else if (case os_root s of Some base \<Rightarrow> \<not> starts_with (oo_raw_ref r) (blob_dir base) | None \<Rightarrow> False) then None
      else Some (case al_get (dk_files d) (oo_raw_ref r) of Some t \<Rightarrow> universal_newlines t | None \<Rightarrow> []))"

definition expand_observation :: "sha \<Rightarrow> string \<Rightarrow> obs_store \<Rightarrow> disk \<Rightarrow> string \<times> obs_store \<times> disk" where
  "expand_observation sha oid s d =
     (case al_get (os_registry s) oid of
        None \<Rightarrow> ([], s, d)
      | Some r \<Rightarrow>
          if oo_raw_ref r = [] then ([], s, d)
          else if oo_workspace r \<noteq> [] \<and> os_workspace s \<noteq> [] \<and> oo_workspace r \<noteq> os_workspace s then ([], s, d)
          else (case blob_text s d oid r of
              None \<Rightarrow> ([], s, d)
            | Some t \<Rightarrow>
                if oo_checksum r \<noteq> [] \<and> sha t \<noteq> oo_checksum r
                then ([], snd (invalidate (\<lambda>x. oo_id x = oid) ''blob_checksum_mismatch'' s d))
                else (t, s, d)))"

datatype freshness = Fresh | StaleSource | UnknownSource

record expansion =
  xn_ok :: bool
  xn_reason :: string
  xn_content :: string

definition refused :: "string \<Rightarrow> expansion" where
  "refused reason = \<lparr>xn_ok = False, xn_reason = reason, xn_content = []\<rparr>"

definition foreign_scope :: "obs_store \<Rightarrow> stored_obs \<Rightarrow> bool" where
  "foreign_scope s r \<longleftrightarrow> oo_session r \<noteq> os_session s \<or> oo_run r \<noteq> os_run s \<or> oo_workspace r \<noteq> os_workspace s
     \<or> oo_task r \<noteq> os_task s"

definition expand_for_context ::
  "sha \<Rightarrow> (stored_obs \<Rightarrow> freshness \<times> string) \<Rightarrow> nat \<Rightarrow> string \<Rightarrow> obs_store \<Rightarrow> disk \<Rightarrow> expansion \<times> obs_store \<times> disk" where
  "expand_for_context sha check max_tokens oid s d =
     (case al_get (os_registry s) oid of
        None \<Rightarrow> (refused ''stale_or_missing'', s, d)
      | Some r \<Rightarrow>
          if oo_stale r \<or> oo_lifecycle r \<noteq> ''active''
          then (refused (if oo_reason r \<noteq> [] then oo_reason r else ''stale_or_missing''), s, d)
          else
            let (fresh, reason) = (if \<not> oo_retrieval r then (Fresh, [])
                                   else if foreign_scope s r then (StaleSource, ''scope_mismatch'') else check r)
            in if fresh \<noteq> Fresh
               then (refused reason,
                     if fresh = StaleSource then snd (invalidate (\<lambda>x. oo_id x = oid) reason s d) else (s, d))
               else let (t, s, d) = expand_observation sha oid s d
                    in if t = [] then (refused ''blob_unavailable'', s, d)
                       else (\<lparr>xn_ok = True, xn_reason = [], xn_content = first_chars (max 1 max_tokens * 4) t\<rparr>, s, d))"

definition link_evidence :: "string \<Rightarrow> string list \<Rightarrow> obs_store \<Rightarrow> disk \<Rightarrow> bool \<times> obs_store \<times> disk" where
  "link_evidence oid ids s d =
     (case al_get (os_registry s) oid of
        None \<Rightarrow> (False, s, d)
      | Some r \<Rightarrow>
          let r = r\<lparr>oo_evidence := dedup (oo_evidence r @ ids)\<rparr>; s = s\<lparr>os_registry := al_put oid r (os_registry s)\<rparr>
          in (True, s, persist_record s r d))"

definition query :: "string \<Rightarrow> string \<Rightarrow> string \<Rightarrow> nat \<Rightarrow> obs_store \<Rightarrow> stored_obs list" where
  "query tool status lifecycle limit s =
     take limit (sort_key (\<lambda>r. - oo_created r)
       (filter (\<lambda>r. (tool = [] \<or> oo_tool r = tool) \<and> (status = [] \<or> oo_status r = status)
                    \<and> (lifecycle = [] \<or> oo_lifecycle r = lifecycle)) (map snd (os_registry s))))"

subsection \<open>Collecting garbage\<close>

definition gc_candidates :: "nat \<Rightarrow> obs_store \<Rightarrow> stored_obs list" where
  "gc_candidates max_records s =
    (let candidates = sort_key oo_created (map snd (os_registry s));
         stale = filter (\<lambda>r. oo_lifecycle r = ''stale'') candidates;
         n = length (os_registry s)
     in if n - length stale > max_records then stale @ take (n - max_records) candidates else stale)"

definition remove_observation :: "stored_obs \<Rightarrow> obs_store \<times> disk \<Rightarrow> obs_store \<times> disk" where
  "remove_observation r sd =
    (let (s, d) = sd in
     if al_get (os_registry s) (oo_id r) = None then (s, d)
     else
       let s = s\<lparr>os_registry := al_del (oo_id r) (os_registry s), os_blobs := al_del (oo_id r) (os_blobs s)\<rparr>;
           d = (if os_root s = None then d else d\<lparr>dk_rows := al_del (oo_id r) (dk_rows d)\<rparr>);
           referenced = (\<exists>x \<in> set (map snd (os_registry s)). oo_id x \<noteq> oo_id r \<and> oo_raw_ref x = oo_raw_ref r)
       in (s, if oo_raw_ref r \<noteq> [] \<and> \<not> in_memory (oo_raw_ref r) \<and> \<not> referenced
              then d\<lparr>dk_files := al_del (oo_raw_ref r) (dk_files d)\<rparr> else d))"

definition gc :: "nat \<Rightarrow> obs_store \<Rightarrow> disk \<Rightarrow> obs_store \<times> disk" where
  "gc max_records s d = fold remove_observation (gc_candidates max_records s) (s, d)"

subsection \<open>Well-formed stores\<close>

definition store_wf :: "obs_store \<Rightarrow> bool" where
  "store_wf s \<longleftrightarrow> distinct (al_keys (os_registry s)) \<and> (\<forall>(k, r) \<in> set (os_registry s). oo_id r = k)"

lemma wf_get: "store_wf s \<Longrightarrow> al_get (os_registry s) k = Some r \<longleftrightarrow> (k, r) \<in> set (os_registry s)"
  by (auto simp: store_wf_def al_keys_def dest: map_of_SomeD)

lemma al_put_in: "(k, v) \<in> set (al_put k' v' m) \<Longrightarrow> (k, v) = (k', v') \<or> (k, v) \<in> set m"
  by (induction k' v' m rule: al_put.induct) (auto split: if_splits)

lemma wf_put:
  assumes "store_wf s" "oo_id r = k" "os_registry s' = al_put k r (os_registry s)"
  shows "store_wf s'"
  using assms by (auto simp: store_wf_def dest!: al_put_in)

lemma persist_raw_keeps [simp]:
  "os_registry (fst (snd (persist_raw sha w oid t s d))) = os_registry s"
  "os_index (fst (snd (persist_raw sha w oid t s d))) = os_index s"
  "os_root (fst (snd (persist_raw sha w oid t s d))) = os_root s"
  "os_workspace (fst (snd (persist_raw sha w oid t s d))) = os_workspace s"
  by (simp_all add: persist_raw_def Let_def split: option.split)

lemma put_new:
  assumes "live_match (dedup_key s (pr_tool p) (pr_args_hash p) (pr_fingerprint p) (pr_args p)) s = None"
  obtains ref s1 d1 r where "persist_raw sha w (new_obs_id sha (dedup_key s (pr_tool p) (pr_args_hash p) (pr_fingerprint p) (pr_args p)) p)
      (pr_text p) s d = (ref, s1, d1)"
    "put_observation sha w p s d = (r, s1\<lparr>os_registry := al_put (oo_id r) r (os_registry s1),
        os_index := al_put (oo_dedup r) (oo_id r) (os_index s1)\<rparr>,
      persist_record s1 r d1)"
    "oo_id r = new_obs_id sha (oo_dedup r) p" "oo_dedup r = dedup_key s (pr_tool p) (pr_args_hash p) (pr_fingerprint p) (pr_args p)"
    "oo_raw_ref r = ref" "oo_checksum r = sha (pr_text p)" "oo_workspace r = os_workspace s" "oo_lifecycle r = ''active''" "\<not> oo_stale r"
  using assms
  by (cases "persist_raw sha w (new_obs_id sha (dedup_key s (pr_tool p) (pr_args_hash p) (pr_fingerprint p) (pr_args p)) p)
      (pr_text p) s d")
     (auto simp: put_observation_def Let_def persist_record_def intro: that
        dest: arg_cong[of _ _ "\<lambda>x. os_workspace (fst (snd x))"])

lemma put_keeps_wf:
  assumes "store_wf s"
  shows "store_wf (fst (snd (put_observation sha w p s d)))"
proof (cases "live_match (dedup_key s (pr_tool p) (pr_args_hash p) (pr_fingerprint p) (pr_args p)) s")
  case None
  then show ?thesis
  proof (rule put_new[where sha = sha and w = w and d = d])
    fix ref s1 d1 r
    assume p: "persist_raw sha w (new_obs_id sha (dedup_key s (pr_tool p) (pr_args_hash p) (pr_fingerprint p) (pr_args p)) p)
        (pr_text p) s d = (ref, s1, d1)"
      and e: "put_observation sha w p s d = (r, s1\<lparr>os_registry := al_put (oo_id r) r (os_registry s1),
        os_index := al_put (oo_dedup r) (oo_id r) (os_index s1)\<rparr>, persist_record s1 r d1)"
    have "os_registry s1 = os_registry s" using persist_raw_keeps(1) p by (metis fst_conv snd_conv)
    then show ?thesis using e wf_put[OF assms, of r "oo_id r"] by simp
  qed
next
  case (Some r)
  then show ?thesis using assms by (simp add: put_observation_def Let_def)
qed

text \<open> An observation is stored once: the record returned by storing is the one a second observation of the same
  call with the same sources gets back, without any change to the store or the disk.\<close>

theorem second_put_finds_first:
  assumes "put_observation sha w p s d = (r, s', d')"
    and "dedup_key s' (pr_tool q) (pr_args_hash q) (pr_fingerprint q) (pr_args q)
       = dedup_key s (pr_tool p) (pr_args_hash p) (pr_fingerprint p) (pr_args p)"
  shows "put_observation sha w' q s' d'' = (r, s', d'')"
proof (cases "live_match (dedup_key s (pr_tool p) (pr_args_hash p) (pr_fingerprint p) (pr_args p)) s")
  case None
  then show ?thesis
  proof (rule put_new[where sha = sha and w = w and d = d])
    fix ref s1 d1 r'
    assume e: "put_observation sha w p s d = (r', s1\<lparr>os_registry := al_put (oo_id r') r' (os_registry s1),
        os_index := al_put (oo_dedup r') (oo_id r') (os_index s1)\<rparr>, persist_record s1 r' d1)"
      and r': "oo_id r' = new_obs_id sha (oo_dedup r') p"
        "oo_dedup r' = dedup_key s (pr_tool p) (pr_args_hash p) (pr_fingerprint p) (pr_args p)"
        "oo_lifecycle r' = ''active''" "\<not> oo_stale r'"
    have rs: "r = r'" "s' = s1\<lparr>os_registry := al_put (oo_id r') r' (os_registry s1),
        os_index := al_put (oo_dedup r') (oo_id r') (os_index s1)\<rparr>"
      using e assms(1) by simp_all
    have "oo_id r' \<noteq> []" using r'(1) by (simp add: new_obs_id_def)
    then have "live_match (dedup_key s' (pr_tool q) (pr_args_hash q) (pr_fingerprint q) (pr_args q)) s' = Some r"
      using rs r' assms(2) by (simp add: live_match_def)
    then show ?thesis by (simp add: put_observation_def Let_def)
  qed
next
  case (Some r')
  then have "s' = s" "r = r'" using assms(1) by (simp_all add: put_observation_def Let_def)
  then show ?thesis using Some assms(2) by (simp add: put_observation_def Let_def)
qed

subsection \<open>Reading back\<close>

lemma blob_path_disk: "starts_with base ''/'' \<Longrightarrow> \<not> in_memory (blob_path base c)"
  by (auto simp: in_memory_def starts_with_def blob_path_def blob_dir_def prefix_def)

lemma memory_ref_simps [simp]: "in_memory (memory_ref oid)" "memory_ref oid \<noteq> []"
  by (simp_all add: in_memory_def starts_with_def memory_ref_def)

lemma persist_raw_cases:
  assumes "persist_raw sha w oid t s d = (ref, s1, d1)"
  obtains (memory) "ref = memory_ref oid" "s1 = s\<lparr>os_blobs := al_put oid t (os_blobs s)\<rparr>" "d1 = d"
  | (kept) base old where "os_root s = Some base" "ref = blob_path base (sha t)" "s1 = s" "d1 = d"
      "al_get (dk_files d) (blob_path base (sha t)) = Some old" "sha old = sha t"
  | (written) base where "os_root s = Some base" "ref = blob_path base (sha t)" "s1 = s"
      "d1 = d\<lparr>dk_files := al_put (blob_path base (sha t)) t (dk_files d)\<rparr>"
  using assms by (auto simp: persist_raw_def Let_def split: option.splits if_splits)

lemma universal_newlines_id [simp]: "CR \<notin> set t \<Longrightarrow> universal_newlines t = t"
  by (auto simp: universal_newlines_def crlf_to_lf_id intro: map_idI)

lemma persist_raw_readable:
  assumes "persist_raw sha w oid t s d = (ref, s1, d1)"
    and abs: "\<And>base. os_root s = Some base \<Longrightarrow> starts_with base ''/''"
    and same: "\<And>base old. os_root s = Some base \<Longrightarrow> al_get (dk_files d) (blob_path base (sha t)) = Some old \<Longrightarrow> sha old = sha t \<Longrightarrow> old = t"
    and plain: "os_root s = None \<or> CR \<notin> set t"
    and r: "oo_raw_ref r = ref" "os_blobs s2 = os_blobs s1" "os_root s2 = os_root s1" "dk_files d2 = dk_files d1"
  shows "blob_text s2 d2 oid r = Some t \<and> ref \<noteq> []"
proof -
  have path: "\<not> in_memory (blob_path base (sha t))" "starts_with (blob_path base (sha t)) (blob_dir base)"
    "blob_path base (sha t) \<noteq> []" if "os_root s = Some base" for base
    using blob_path_disk abs[OF that] by (simp_all add: starts_with_def blob_path_def blob_dir_def)
  from assms(1) show ?thesis
  proof (cases rule: persist_raw_cases)
    case memory
    then show ?thesis using r by (simp add: blob_text_def)
  next
    case (kept base old)
    then show ?thesis using r path[OF kept(1)] kept(1) same[OF kept(1,5,6)] plain by (simp add: blob_text_def)
  next
    case (written base)
    then show ?thesis using r path[OF written(1)] written(1) plain by (simp add: blob_text_def)
  qed
qed

text \<open> What is stored is read back: expanding the record a new observation got returns the stored text unchanged, whether
  it is held on disk, in memory or in memory because the disk refused it, if it holds no carriage return or the store has no disk, no different text of
  the same hash was on the disk and the state root is an absolute path.\<close>

theorem stored_text_read_back:
  assumes "put_observation sha w p s d = (r, s', d')"
    and "live_match (dedup_key s (pr_tool p) (pr_args_hash p) (pr_fingerprint p) (pr_args p)) s = None"
    and "\<And>base. os_root s = Some base \<Longrightarrow> starts_with base ''/''"
    and "\<And>base old. os_root s = Some base \<Longrightarrow> al_get (dk_files d) (blob_path base (sha (pr_text p))) = Some old
          \<Longrightarrow> sha old = sha (pr_text p) \<Longrightarrow> old = pr_text p"
    and "os_root s = None \<or> CR \<notin> set (pr_text p)"
  shows "expand_observation sha (oo_id r) s' d' = (pr_text p, s', d')"
  using assms(2)
proof (rule put_new[where sha = sha and w = w and d = d])
  fix ref s1 d1 r'
  assume pr: "persist_raw sha w (new_obs_id sha (dedup_key s (pr_tool p) (pr_args_hash p) (pr_fingerprint p) (pr_args p)) p)
        (pr_text p) s d = (ref, s1, d1)"
    and e: "put_observation sha w p s d = (r', s1\<lparr>os_registry := al_put (oo_id r') r' (os_registry s1),
        os_index := al_put (oo_dedup r') (oo_id r') (os_index s1)\<rparr>, persist_record s1 r' d1)"
    and r': "oo_id r' = new_obs_id sha (oo_dedup r') p"
      "oo_dedup r' = dedup_key s (pr_tool p) (pr_args_hash p) (pr_fingerprint p) (pr_args p)"
      "oo_raw_ref r' = ref" "oo_checksum r' = sha (pr_text p)" "oo_workspace r' = os_workspace s"
  have rs: "r = r'" "s' = s1\<lparr>os_registry := al_put (oo_id r') r' (os_registry s1),
        os_index := al_put (oo_dedup r') (oo_id r') (os_index s1)\<rparr>" "d' = persist_record s1 r' d1"
    using e assms(1) by simp_all
  have "persist_raw sha w (oo_id r) (pr_text p) s d = (ref, s1, d1)" using pr r'(1,2) rs(1) by simp
  then have "blob_text s' d' (oo_id r) r = Some (pr_text p) \<and> ref \<noteq> []"
    by (rule persist_raw_readable)
      (use assms(3-5) rs r' in \<open>auto simp: persist_record_def\<close>)
  moreover have "os_workspace s1 = os_workspace s" using persist_raw_keeps(4) pr by (metis fst_conv snd_conv)
  ultimately show ?thesis using rs r' by (simp add: expand_observation_def)
qed

subsection \<open>What invalidation changes\<close>

definition made_stale :: "(stored_obs \<Rightarrow> bool) \<Rightarrow> string \<Rightarrow> stored_obs \<Rightarrow> stored_obs" where
  "made_stale P reason r = (if oo_lifecycle r = ''active'' \<and> P r then mark_stale reason r else r)"

lemma al_put_middle: "k \<notin> set (al_keys xs) \<Longrightarrow> al_put k v (xs @ (k, w) # ys) = xs @ (k, v) # ys"
  by (induction xs) (auto simp: al_keys_def)

lemma invalidate_loop:
  assumes "distinct (al_keys (xs @ ys))" "os_registry s = map (\<lambda>(k, r). (k, made_stale P reason r)) xs @ ys"
  shows "os_registry (fst (snd (fold (invalidate_one P reason) ys (n, s, d))))
      = map (\<lambda>(k, r). (k, made_stale P reason r)) (xs @ ys)
    \<and> fst (fold (invalidate_one P reason) ys (n, s, d)) = n + length (filter (\<lambda>(k, r). oo_lifecycle r = ''active'' \<and> P r) ys)"
  using assms
proof (induction ys arbitrary: xs n s d)
  case (Cons y ys)
  obtain k r where y: "y = (k, r)" by (cases y)
  let ?f = "\<lambda>(k, r). (k, made_stale P reason r)"
  have fresh: "k \<notin> set (al_keys (map ?f xs))"
    using Cons.prems(1) y by (force simp: al_keys_def)
  obtain n1 s1 d1 where st: "invalidate_one P reason y (n, s, d) = (n1, s1, d1)"
    by (cases "invalidate_one P reason y (n, s, d)")
  have "os_registry s1 = map ?f (xs @ [y]) @ ys"
    using Cons.prems(2) y st al_put_middle[OF fresh] by (auto simp: invalidate_one_def Let_def made_stale_def split: if_splits)
  moreover have "n1 = n + (if oo_lifecycle r = ''active'' \<and> P r then 1 else 0)"
    using y st by (auto simp: invalidate_one_def Let_def split: if_splits)
  ultimately show ?case
    using Cons.IH[of "xs @ [y]" s1 n1 d1] Cons.prems(1) y st by simp
qed simp

text \<open> Invalidation is exact: after files changed, an observation is active if and only if it was and does not rest on
  one of them; the records that became stale say why and are counted, every other record is as before.\<close>

theorem changed_paths_go_stale:
  assumes "store_wf s" "invalidate_paths paths reason s d = (n, s', d')"
  shows "os_registry s' = map (\<lambda>(k, r). (k, if oo_lifecycle r = ''active'' \<and> (\<exists>p \<in> set (oo_deps r). p \<noteq> [] \<and> p \<in> set paths)
             then mark_stale reason r else r)) (os_registry s)
     \<and> n = length (filter (\<lambda>(k, r). oo_lifecycle r = ''active'' \<and> (\<exists>p \<in> set (oo_deps r). p \<noteq> [] \<and> p \<in> set paths)) (os_registry s))"
proof -
  let ?P = "\<lambda>r. \<exists>p \<in> set (oo_deps r). p \<noteq> [] \<and> p \<in> set paths"
  have "fold (invalidate_one ?P reason) (os_registry s) (0, s, d) = (n, s', d')"
    using assms(2) by (simp add: invalidate_paths_def invalidate_def)
  then show ?thesis
    using invalidate_loop[of "[]" "os_registry s" s ?P reason 0 d] assms(1)
    by (simp add: store_wf_def made_stale_def[abs_def])
qed

subsection \<open>What reaches the model\<close>

lemma expand_sound:
  assumes "expand_observation sha oid s d = (t, s', d')" "t \<noteq> []"
  obtains r where "al_get (os_registry s) oid = Some r" "oo_checksum r = [] \<or> sha t = oo_checksum r"
    "oo_workspace r = [] \<or> os_workspace s = [] \<or> oo_workspace r = os_workspace s" "s' = s" "d' = d"
  using assms by (auto simp: expand_observation_def split: option.splits if_splits intro: that)

text \<open> The context only gets sound observations: text is delivered only from a record of the session that is active and not
  stale, of no other workspace, whose text has the hash recorded with it; evidence of a retrieval
  besides belongs to the same session, run and task and its sources are unchanged; and the text is cut to four
  characters a token.\<close>

theorem context_gets_sound_text:
  assumes "expand_for_context sha check max_tokens oid s d = (x, s', d')" "xn_ok x"
  shows "\<exists>r t. al_get (os_registry s) oid = Some r \<and> oo_lifecycle r = ''active'' \<and> \<not> oo_stale r
     \<and> (oo_workspace r = [] \<or> os_workspace s = [] \<or> oo_workspace r = os_workspace s)
     \<and> (oo_retrieval r = False \<or> \<not> foreign_scope s r \<and> fst (check r) = Fresh)
     \<and> (oo_checksum r = [] \<or> sha t = oo_checksum r) \<and> t \<noteq> []
     \<and> xn_content x = first_chars (max 1 max_tokens * 4) t \<and> s' = s \<and> d' = d"
proof -
  obtain r where r: "al_get (os_registry s) oid = Some r"
    using assms by (auto simp: expand_for_context_def refused_def split: option.splits)
  have act: "oo_lifecycle r = ''active''" "\<not> oo_stale r"
    using assms r by (auto simp: expand_for_context_def refused_def split: if_splits)
  obtain t s1 d1 where t: "expand_observation sha oid s d = (t, s1, d1)" by (cases "expand_observation sha oid s d") auto
  have fresh: "oo_retrieval r = False \<or> \<not> foreign_scope s r \<and> fst (check r) = Fresh"
    using assms r act by (cases "check r") (auto simp: expand_for_context_def refused_def split: if_splits)
  have "t \<noteq> []" "xn_content x = first_chars (max 1 max_tokens * 4) t" "s' = s1" "d' = d1"
    using assms r act t fresh by (cases "check r"; auto simp: expand_for_context_def refused_def split: if_splits)+
  moreover obtain r' where "al_get (os_registry s) oid = Some r'" "oo_checksum r' = [] \<or> sha t = oo_checksum r'"
    "oo_workspace r' = [] \<or> os_workspace s = [] \<or> oo_workspace r' = os_workspace s" "s1 = s" "d1 = d"
    using expand_sound[OF t \<open>t \<noteq> []\<close>] by blast
  ultimately show ?thesis using r act fresh by auto
qed

subsection \<open>What garbage collection keeps\<close>

lemma al_del_filter: "al_del k m = filter (\<lambda>(a, b). a \<noteq> k) m"
  by (induction m) (auto simp: al_del_def)

lemma al_del_absent: "al_get m k = None \<Longrightarrow> al_del k m = m"
  by (force simp: al_del_def filter_id_conv map_of_eq_None_iff)

lemma remove_one:
  assumes "store_wf s" "remove_observation r (s, d) = (s', d')"
  shows "store_wf s'" "os_registry s' = filter (\<lambda>(k, x). k \<noteq> oo_id r) (os_registry s)" "os_root s' = os_root s"
    "(k, x) \<in> set (os_registry s') \<Longrightarrow> blob_text s' d' k x = blob_text s d k x"
proof -
  have "os_registry s' = al_del (oo_id r) (os_registry s)"
    using assms(2) by (cases "al_get (os_registry s) (oo_id r)") (auto simp: remove_observation_def Let_def al_del_absent)
  then show del: "os_registry s' = filter (\<lambda>(k, x). k \<noteq> oo_id r) (os_registry s)" by (simp only: al_del_filter)
  show "store_wf s'" using assms(1) unfolding store_wf_def del by (auto simp: al_keys_def distinct_map_filter)
  show root: "os_root s' = os_root s" using assms(2) by (auto simp: remove_observation_def Let_def split: if_splits)
  assume kx: "(k, x) \<in> set (os_registry s')"
  then have k: "k \<noteq> oo_id r" "(k, x) \<in> set (os_registry s)" "oo_id x = k"
    using assms(1) unfolding del by (auto simp: store_wf_def)
  have "al_get (os_blobs s') k = al_get (os_blobs s) k"
    using assms(2) k(1) by (auto simp: remove_observation_def Let_def split: if_splits)
  moreover have "al_get (dk_files d') (oo_raw_ref x) = al_get (dk_files d) (oo_raw_ref x)"
  proof (cases "oo_raw_ref x = oo_raw_ref r")
    case False
    then show ?thesis using assms(2) by (auto simp: remove_observation_def Let_def split: if_splits)
  next
    case True
    have "\<exists>y \<in> set (map snd (al_del (oo_id r) (os_registry s))). oo_id y \<noteq> oo_id r \<and> oo_raw_ref y = oo_raw_ref r"
      using k True by (force simp: al_del_def)
    then show ?thesis using assms(2) by (auto simp: remove_observation_def Let_def split: if_splits)
  qed
  ultimately show "blob_text s' d' k x = blob_text s d k x" using root by (simp add: blob_text_def)
qed

lemma remove_all:
  assumes "store_wf s" "fold remove_observation rs (s, d) = (s', d')"
  shows "store_wf s' \<and> os_registry s' = filter (\<lambda>(k, x). k \<notin> oo_id ` set rs) (os_registry s)
    \<and> (\<forall>(k, x) \<in> set (os_registry s'). blob_text s' d' k x = blob_text s d k x)"
  using assms
proof (induction rs arbitrary: s d)
  case (Cons r rs)
  obtain s1 d1 where st: "remove_observation r (s, d) = (s1, d1)" by (cases "remove_observation r (s, d)")
  note one = remove_one[OF Cons.prems(1) st]
  have fold: "fold remove_observation rs (s1, d1) = (s', d')" using Cons.prems(2) st by simp
  note IH = Cons.IH[OF one(1) fold]
  have "os_registry s' = filter (\<lambda>(k, x). k \<notin> oo_id ` set (r # rs)) (os_registry s)"
    using IH one(2) by (auto simp: conj_commute split_beta intro!: filter_cong)
  moreover have "blob_text s' d' k x = blob_text s d k x" if kx: "(k, x) \<in> set (os_registry s')" for k x
  proof -
    have "(k, x) \<in> set (os_registry s1)" using IH kx by auto
    then show ?thesis using IH kx one(4) by auto
  qed
  ultimately show ?case using IH by auto
qed auto

lemma wf_ids:
  assumes "store_wf s"
  shows "map oo_id (map snd (os_registry s)) = al_keys (os_registry s)"
    "distinct (map snd (os_registry s))" "inj_on oo_id (set (map snd (os_registry s)))"
proof -
  show m: "map oo_id (map snd (os_registry s)) = al_keys (os_registry s)"
    using assms by (auto simp: store_wf_def al_keys_def)
  have "distinct (map oo_id (map snd (os_registry s)))" using assms unfolding m by (simp add: store_wf_def)
  then show "distinct (map snd (os_registry s))" "inj_on oo_id (set (map snd (os_registry s)))"
    unfolding distinct_map[of oo_id] by simp_all
qed

lemma length_without:
  assumes "store_wf s" "set rs \<subseteq> set (map snd (os_registry s))"
  shows "length (filter (\<lambda>(k, x). k \<notin> oo_id ` set rs) (os_registry s)) = length (os_registry s) - card (set rs)"
proof -
  let ?reg = "os_registry s" and ?rest = "filter (\<lambda>(k, x). k \<notin> oo_id ` set rs) (os_registry s)"
  have d: "distinct (map fst ?reg)" using assms(1) by (simp add: store_wf_def al_keys_def)
  then have "distinct (map fst ?rest)" by (simp add: distinct_map_filter)
  from distinct_card[OF this] have "length ?rest = card (fst ` set ?rest)" by simp
  also have "fst ` set ?rest = fst ` set ?reg - oo_id ` set rs" by (auto simp: image_iff)
  also have "card \<dots> = card (fst ` set ?reg) - card (oo_id ` set rs)"
  proof (rule card_Diff_subset)
    have "oo_id ` set rs \<subseteq> set (map oo_id (map snd ?reg))" using assms(2) by auto
    then show "oo_id ` set rs \<subseteq> fst ` set ?reg" unfolding wf_ids(1)[OF assms(1)] by (simp add: al_keys_def)
  qed simp
  also have "card (fst ` set ?reg) = length ?reg" using distinct_card[OF d] by simp
  also have "card (oo_id ` set rs) = card (set rs)"
    using wf_ids(3)[OF assms(1)] assms(2) by (meson card_image inj_on_subset)
  finally show ?thesis .
qed

lemma gc_candidates_facts:
  "set (gc_candidates m s) \<subseteq> set (map snd (os_registry s))"
  "set (filter (\<lambda>r. oo_lifecycle r = ''stale'') (map snd (os_registry s))) \<subseteq> set (gc_candidates m s)"
  "store_wf s \<Longrightarrow> length (os_registry s) - card (set (gc_candidates m s)) \<le> m"
proof -
  let ?reg = "os_registry s" and ?cs = "sort_key oo_created (map snd (os_registry s))"
  let ?stale = "filter (\<lambda>r. oo_lifecycle r = ''stale'') ?cs"
  show "set (gc_candidates m s) \<subseteq> set (map snd ?reg)"
    by (auto simp: gc_candidates_def Let_def dest: in_set_takeD)
  show "set (filter (\<lambda>r. oo_lifecycle r = ''stale'') (map snd ?reg)) \<subseteq> set (gc_candidates m s)"
    by (auto simp: gc_candidates_def Let_def)
  assume wf: "store_wf s"
  have dist: "distinct ?cs" using wf_ids(2)[OF wf] by simp
  show "length ?reg - card (set (gc_candidates m s)) \<le> m"
  proof (cases "length ?reg - length ?stale > m")
    case True
    then have "set (take (length ?reg - m) ?cs) \<subseteq> set (gc_candidates m s)" by (auto simp: gc_candidates_def Let_def)
    then have "card (set (take (length ?reg - m) ?cs)) \<le> card (set (gc_candidates m s))" by (intro card_mono) auto
    moreover have "card (set (take (length ?reg - m) ?cs)) = length ?reg - m"
      using dist by (subst distinct_card) auto
    ultimately show ?thesis by linarith
  next
    case False
    then have "set (gc_candidates m s) = set ?stale" by (simp add: gc_candidates_def Let_def)
    moreover have "card (set ?stale) = length ?stale" using dist by (intro distinct_card) simp
    ultimately have "card (set (gc_candidates m s)) = length ?stale" by (simp only:)
    then show ?thesis using False by linarith
  qed
qed

text \<open>C31.  After a garbage collection no stale observation is left and at most \<open>max_records\<close> remain, and every
  observation that remains is unchanged and reads the same text as before, although texts are shared
  between records of equal content.\<close>

theorem gc_keeps_rest_readable:
  assumes "store_wf s" "gc max_records s d = (s', d')"
  shows "(\<forall>(k, r) \<in> set (os_registry s'). (k, r) \<in> set (os_registry s) \<and> oo_lifecycle r \<noteq> ''stale''
            \<and> blob_text s' d' k r = blob_text s d k r)
     \<and> length (os_registry s') \<le> max_records"
proof -
  let ?reg = "os_registry s" and ?rs = "gc_candidates max_records s"
  have rest: "os_registry s' = filter (\<lambda>(k, x). k \<notin> oo_id ` set ?rs) ?reg"
    "\<forall>(k, x) \<in> set (os_registry s'). blob_text s' d' k x = blob_text s d k x"
    using remove_all[OF assms(1), of ?rs d s' d'] assms(2) by (simp_all add: gc_def)
  have "oo_lifecycle r \<noteq> ''stale''" if "(k, r) \<in> set (os_registry s')" for k r
  proof
    assume "oo_lifecycle r = ''stale''"
    moreover have kr: "(k, r) \<in> set ?reg" "k \<notin> oo_id ` set ?rs" "oo_id r = k"
      using that rest(1) assms(1) by (auto simp: store_wf_def)
    ultimately have "r \<in> set ?rs" using gc_candidates_facts(2)[of s max_records] by force
    then show False using kr by auto
  qed
  moreover have "length (os_registry s') \<le> max_records"
    unfolding rest(1) length_without[OF assms(1) gc_candidates_facts(1)] by (rule gc_candidates_facts(3)[OF assms(1)])
  moreover have "(k, r) \<in> set ?reg" if "(k, r) \<in> set (os_registry s')" for k r
    using that unfolding rest(1) by simp
  ultimately show ?thesis using rest(2) by blast
qed

subsection \<open>Concrete stores\<close>

definition sha_id :: sha where "sha_id t = t"

definition empty_store :: "string option \<Rightarrow> string \<Rightarrow> obs_store" where
  "empty_store base session =
     \<lparr>os_registry = [], os_index = [], os_blobs = [], os_root = base, os_workspace = ''w'', os_session = session,
      os_run = ''r'', os_task = ''t''\<rparr>"

definition empty_disk :: disk where "empty_disk = \<lparr>dk_files = [], dk_rows = []\<rparr>"

definition sample_put :: "string \<Rightarrow> string \<Rightarrow> real \<Rightarrow> put_request" where
  "sample_put path text now =
     \<lparr>pr_tool = ''read_file'', pr_args = [(''path'', path)], pr_args_hash = path, pr_fingerprint = ''f'', pr_text = text,
      pr_version = ''v'', pr_status = [], pr_dependencies = [], pr_sources = [], pr_hits = [], pr_error = [],
      pr_evidence = [], pr_retrieval = False, pr_now = now, pr_nanos = path\<rparr>"

abbreviation put_sample :: "string \<Rightarrow> string \<Rightarrow> real \<Rightarrow> obs_store \<times> disk \<Rightarrow> obs_store \<times> disk" where
  "put_sample path text now sd \<equiv> snd (put_observation sha_id True (sample_put path text now) (fst sd) (snd sd))"

lemmas sample_store_simps = empty_store_def empty_disk_def sample_put_def sha_id_def put_observation_def
  live_match_def dedup_key_def infer_dependencies_def READING_TOOLS_def persist_raw_def persist_record_def
  new_obs_id_def blob_path_def normalize_observation_error_def strip_text_def blob_dir_def casefold_def lower_char_def dedup_def

definition sample_obs :: "string \<Rightarrow> real \<Rightarrow> string \<Rightarrow> stored_obs" where
  "sample_obs oid created lifecycle =
     \<lparr>oo_id = oid, oo_tool = ''read_file'', oo_version = [], oo_raw_ref = memory_ref oid, oo_created = created,
      oo_stale = (lifecycle = ''stale''), oo_status = ''ok'', oo_dedup = oid, oo_workspace = ''w'', oo_session = ''s'',
      oo_run = ''r'', oo_task = ''t'', oo_lifecycle = lifecycle, oo_deps = [oid], oo_supersedes = [], oo_reason = [],
      oo_checksum = ''text'', oo_error = [], oo_evidence = [], oo_retrieval = False\<rparr>"

definition sample_store :: "stored_obs list \<Rightarrow> obs_store" where
  "sample_store rs = (empty_store None ''s'')\<lparr>os_registry := map (\<lambda>r. (oo_id r, r)) rs,
     os_blobs := map (\<lambda>r. (oo_id r, ''text'')) rs\<rparr>"

definition three_obs :: obs_store where
  "three_obs = sample_store [sample_obs ''a'' 1 ''active'', sample_obs ''b'' 2 ''active'', sample_obs ''c'' 3 ''stale'']"

lemma three_obs_wf: "store_wf three_obs"
  by (simp add: three_obs_def sample_store_def sample_obs_def empty_store_def store_wf_def al_keys_def)

lemma second_put_finds_first_witness:
  "case put_observation sha_id True (sample_put ''a'' ''text'' 1) (empty_store None ''s'') empty_disk of
     (r, s', d') \<Rightarrow> put_observation sha_id True (sample_put ''a'' ''text'' 2) s' empty_disk = (r, s', empty_disk)"
proof -
  obtain r s' d' where p: "put_observation sha_id True (sample_put ''a'' ''text'' 1) (empty_store None ''s'') empty_disk = (r, s', d')"
    by (cases "put_observation sha_id True (sample_put ''a'' ''text'' 1) (empty_store None ''s'') empty_disk") auto
  then have "dedup_key s' ''read_file'' ''a'' ''f'' [(''path'', ''a'')] = dedup_key (empty_store None ''s'') ''read_file'' ''a'' ''f'' [(''path'', ''a'')]"
    by (auto simp: sample_store_simps Let_def)
  then show ?thesis using second_put_finds_first[OF p, of "sample_put ''a'' ''text'' 2" True empty_disk] p
    by (simp add: sample_put_def)
qed

lemma stored_text_read_back_witness:
  "case put_observation sha_id True (sample_put ''a'' ''text'' 1) (empty_store (Some ''/s'') ''s'') empty_disk of
     (r, s', d') \<Rightarrow> expand_observation sha_id (oo_id r) s' d' = (''text'', s', d')"
proof -
  obtain r s' d' where p: "put_observation sha_id True (sample_put ''a'' ''text'' 1) (empty_store (Some ''/s'') ''s'') empty_disk = (r, s', d')"
    by (cases "put_observation sha_id True (sample_put ''a'' ''text'' 1) (empty_store (Some ''/s'') ''s'') empty_disk") auto
  have "expand_observation sha_id (oo_id r) s' d' = (pr_text (sample_put ''a'' ''text'' 1), s', d')"
    using p by (rule stored_text_read_back)
      (simp_all add: empty_store_def empty_disk_def live_match_def starts_with_def sample_put_def)
  then show ?thesis using p by (simp add: sample_put_def)
qed

lemma changed_paths_go_stale_witness:
  "case invalidate_paths [''a''] ''edited'' three_obs empty_disk of
     (n, s', d') \<Rightarrow> map (\<lambda>(k, r). (k, oo_lifecycle r)) (os_registry s') = [(''a'', ''stale''), (''b'', ''active''), (''c'', ''stale'')] \<and> n = 1"
proof -
  obtain n s' d' where p: "invalidate_paths [''a''] ''edited'' three_obs empty_disk = (n, s', d')"
    by (cases "invalidate_paths [''a''] ''edited'' three_obs empty_disk") auto
  show ?thesis using changed_paths_go_stale[OF three_obs_wf p] p
    by (simp add: three_obs_def sample_store_def sample_obs_def empty_store_def mark_stale_def)
qed

lemma context_gets_sound_text_witness:
  "\<exists>r t. al_get (os_registry three_obs) ''b'' = Some r \<and> oo_lifecycle r = ''active'' \<and> \<not> oo_stale r
     \<and> (oo_workspace r = [] \<or> os_workspace three_obs = [] \<or> oo_workspace r = os_workspace three_obs)
     \<and> (oo_retrieval r = False \<or> \<not> foreign_scope three_obs r \<and> fst (Fresh, []) = Fresh)
     \<and> (oo_checksum r = [] \<or> sha_id t = oo_checksum r) \<and> t \<noteq> []
     \<and> first_chars 4 ''text'' = first_chars (max 1 1 * 4) t \<and> three_obs = three_obs \<and> empty_disk = empty_disk"
  using context_gets_sound_text[of sha_id "\<lambda>_. (Fresh, [])" 1 "''b''" three_obs empty_disk
      "\<lparr>xn_ok = True, xn_reason = [], xn_content = first_chars 4 ''text''\<rparr>" three_obs empty_disk]
  by (simp add: three_obs_def sample_store_def sample_obs_def empty_store_def expand_for_context_def
      expand_observation_def blob_text_def sha_id_def)

lemma gc_keeps_rest_readable_witness:
  "length (os_registry (fst (gc 2 three_obs empty_disk))) \<le> 2"
  using gc_keeps_rest_readable[OF three_obs_wf, of 2 empty_disk "fst (gc 2 three_obs empty_disk)" "snd (gc 2 three_obs empty_disk)"]
  by simp

text \<open>The collector removes the oldest records besides the stale ones and counts the stale ones twice: with two active records, a stale
  one and room for one, nothing is left.  And the text of a record is deleted although a
  record of another session still refers to it.\<close>

lemma gc_leaves_nothing: "os_registry (fst (gc 1 three_obs empty_disk)) = []"
  by (simp add: three_obs_def sample_store_def sample_obs_def empty_store_def gc_def gc_candidates_def
      remove_observation_def al_del_def Let_def empty_disk_def)

lemma gc_deletes_shared_text:
  "let (s1, d) = put_sample ''a'' ''text'' 1 (empty_store (Some ''/s'') ''s'', empty_disk);
       (s2, d) = put_sample ''a'' ''text'' 1 (empty_store (Some ''/s'') ''u'', d);
       oid = hd (al_keys (os_registry s2))
   in fst (expand_observation sha_id oid s2 d) = ''text''
      \<and> fst (expand_observation sha_id oid s2 (snd (gc 0 s1 d))) = []"
  by (simp add: sample_store_simps al_keys_def expand_observation_def blob_text_def gc_def gc_candidates_def
      remove_observation_def al_del_def in_memory_def starts_with_def Let_def prefix_def invalidate_def
      invalidate_one_def mark_stale_def)

text \<open>A text with carriage returns that was stored on disk fails its own checksum when it is read back:
  nothing is returned, and its record is invalidated.\<close>

lemma carriage_returns_not_read_back:
  "case put_observation sha_id True (sample_put ''a'' [CHR ''x'', CR, LF] 1) (empty_store (Some ''/s'') ''s'') empty_disk of
     (r, s', d') \<Rightarrow> (case expand_observation sha_id (oo_id r) s' d' of (t, s'', d'') \<Rightarrow>
        t = [] \<and> map (\<lambda>(k, x). (oo_lifecycle x, oo_reason x)) (os_registry s'') = [(''stale'', ''blob_checksum_mismatch'')])"
  by (simp add: sample_store_simps al_keys_def expand_observation_def blob_text_def universal_newlines_def in_memory_def
      starts_with_def Let_def invalidate_def invalidate_one_def mark_stale_def)

end
