(* ===== verification/TurnProgress.thy ===== *)
theory TurnProgress
  imports Prelude
begin

text \<open>
  The events of a turn and the progress shown from them: \<open>TurnProgress\<close>, \<open>TurnEventEmitter\<close> and
  \<open>replay_progress\<close> of \<open>agent_runtime/turn_progress.py\<close>.  An event is a record with optional
  fields; \<open>None\<close> in a trace is an entry without a usable event (no dictionary, a missing or mistyped identity).
  The copies of events given to the trace and to the callback are left out.  No caller of \<open>emit\<close> passes an
  identity (\<open>turn_id\<close>, \<open>event_seq\<close>) among the fields, which would replace the emitter's; \<open>exploration_runtime.py\<close>
  replays without the number of events, the checkpoint of a turn with it.
\<close>

subsection \<open>Events and the projection\<close>

record turn_event =
  te_turn :: string
  te_seq :: int
  te_kind :: string
  te_batch :: string
  te_call :: string
  te_phase :: "string option"
  te_status :: "string option"
  te_tool :: "string option"
  te_ordinal :: "int option"
  te_error :: "string option"
  te_duration :: "int option"
  te_reason :: "string option"

record entity =
  en_seq :: int
  en_status :: "string option"
  en_tool :: "string option"
  en_ordinal :: "int option"
  en_error :: "string option"
  en_duration :: "int option"
  en_reason :: "string option"

definition new_entity :: entity where
  "new_entity = \<lparr>en_seq = 0, en_status = None, en_tool = None, en_ordinal = None, en_error = None,
     en_duration = None, en_reason = None\<rparr>"

record turn_view =
  tv_calls :: "(string \<times> string, entity) alist"
  tv_batches :: "(string, entity) alist"
  tv_self :: entity
  tv_phase :: string
  tv_completed :: bool

definition new_turn :: turn_view where
  "new_turn = \<lparr>tv_calls = [], tv_batches = [], tv_self = new_entity, tv_phase = [], tv_completed = False\<rparr>"

record progress =
  pg_turns :: "(string, turn_view) alist"
  pg_incomplete :: bool

definition new_progress :: progress where
  "new_progress = \<lparr>pg_turns = [], pg_incomplete = False\<rparr>"

definition event_ok :: "turn_event \<Rightarrow> bool" where
  "event_ok e \<longleftrightarrow> te_turn e \<noteq> [] \<and> 1 \<le> te_seq e"

fun keep_or :: "'a option \<Rightarrow> 'a option \<Rightarrow> 'a option" where
  "keep_or (Some x) y = Some x"
| "keep_or None y = y"

definition describe :: "turn_event \<Rightarrow> entity \<Rightarrow> entity" where
  "describe e t = t\<lparr>en_tool := keep_or (en_tool t) (te_tool e), en_ordinal := keep_or (en_ordinal t) (te_ordinal e)\<rparr>"

definition reset_call :: "turn_event \<Rightarrow> entity \<Rightarrow> entity" where
  "reset_call e t =
     t\<lparr>en_reason := Some (if te_status e = Some ''queued'' then (case te_reason e of Some r \<Rightarrow> r | None \<Rightarrow> []) else []),
       en_error := Some (case te_error e of Some x \<Rightarrow> x | None \<Rightarrow> []),
       en_duration := Some (case te_duration e of Some x \<Rightarrow> x | None \<Rightarrow> 0)\<rparr>"

definition advance :: "turn_event \<Rightarrow> entity \<Rightarrow> entity" where
  "advance e t =
     t\<lparr>en_status := keep_or (te_status e) (en_status t), en_tool := keep_or (te_tool e) (en_tool t),
       en_ordinal := keep_or (te_ordinal e) (en_ordinal t), en_error := keep_or (te_error e) (en_error t),
       en_duration := keep_or (te_duration e) (en_duration t), en_seq := te_seq e\<rparr>"

definition update_entity :: "bool \<Rightarrow> turn_event \<Rightarrow> entity \<Rightarrow> entity" where
  "update_entity is_call e t =
    (let t = describe e t in
     if te_seq e \<le> en_seq t then t else advance e (if is_call then reset_call e t else t))"

definition get_or_new :: "('k, entity) alist \<Rightarrow> 'k \<Rightarrow> entity" where
  "get_or_new m k = (case al_get m k of Some t \<Rightarrow> t | None \<Rightarrow> new_entity)"

definition update_turn :: "turn_event \<Rightarrow> turn_view \<Rightarrow> turn_view" where
  "update_turn e v =
     (if te_call e \<noteq> []
      then (let k = (te_batch e, te_call e) in
            v\<lparr>tv_calls := al_put k (update_entity True e (get_or_new (tv_calls v) k)) (tv_calls v)\<rparr>)
      else if te_batch e \<noteq> [] \<and> starts_with (te_kind e) ''tool_batch_''
      then v\<lparr>tv_batches := al_put (te_batch e) (update_entity False e (get_or_new (tv_batches v) (te_batch e))) (tv_batches v)\<rparr>
      else
        let newer = \<not> te_seq e \<le> en_seq (tv_self v); v = v\<lparr>tv_self := update_entity False e (tv_self v)\<rparr> in
        if newer
        then v\<lparr>tv_phase := (case te_phase e of Some p \<Rightarrow> p | None \<Rightarrow> tv_phase v),
               tv_completed := (tv_completed v \<or> te_kind e = ''turn_completed'')\<rparr>
        else v)"

definition turn_of :: "progress \<Rightarrow> string \<Rightarrow> turn_view" where
  "turn_of p t = (case al_get (pg_turns p) t of Some v \<Rightarrow> v | None \<Rightarrow> new_turn)"

fun apply_event :: "turn_event option \<Rightarrow> progress \<Rightarrow> progress" where
  "apply_event None p = p\<lparr>pg_incomplete := True\<rparr>"
| "apply_event (Some e) p =
     (if \<not> event_ok e then p\<lparr>pg_incomplete := True\<rparr>
      else p\<lparr>pg_turns := al_put (te_turn e) (update_turn e (turn_of p (te_turn e))) (pg_turns p)\<rparr>)"

definition call_view :: "progress \<Rightarrow> string \<Rightarrow> string \<Rightarrow> string \<Rightarrow> entity option" where
  "call_view p turn batch call = al_get (tv_calls (turn_of p turn)) (batch, call)"

subsection \<open>Emitting and replaying\<close>

record emitter =
  em_turn :: string
  em_seq :: int
  em_phase :: string
  em_events :: "turn_event list"
  em_projection :: progress

definition new_emitter :: "string \<Rightarrow> emitter" where
  "new_emitter turn = \<lparr>em_turn = turn, em_seq = 0, em_phase = ''reasoning'', em_events = [], em_projection = new_progress\<rparr>"

text \<open>The caller gives the kind and the fields of the event (never an identity); its identity is the emitter's.\<close>

definition emit :: "turn_event \<Rightarrow> emitter \<Rightarrow> emitter" where
  "emit given m =
    (let e = given\<lparr>te_turn := em_turn m, te_seq := em_seq m + 1, te_phase := keep_or (te_phase given) (Some (em_phase m))\<rparr>
     in m\<lparr>em_seq := em_seq m + 1, em_events := em_events m @ [e], em_projection := apply_event (Some e) (em_projection m)\<rparr>)"

definition seq_list :: "turn_event option list \<Rightarrow> string \<Rightarrow> int list" where
  "seq_list raws turn =
     remdups (map te_seq (filter (\<lambda>e. te_turn e = turn \<and> 0 < te_seq e) (concat (map (\<lambda>r. case r of Some e \<Rightarrow> [e] | None \<Rightarrow> []) raws))))"

definition turn_ids :: "turn_event option list \<Rightarrow> string list" where
  "turn_ids raws =
     remdups (map te_turn (filter (\<lambda>e. 0 < te_seq e) (concat (map (\<lambda>r. case r of Some e \<Rightarrow> [e] | None \<Rightarrow> []) raws))))"

definition gap_free :: "int option \<Rightarrow> int list \<Rightarrow> bool" where
  "gap_free expected seqs =
    (let top = (case expected of Some n \<Rightarrow> n | None \<Rightarrow> Max (set seqs)) in
     \<not> (top < 1 \<or> int (length seqs) \<noteq> top \<or> Max (set seqs) \<noteq> top))"

definition replay_progress :: "int option \<Rightarrow> turn_event option list \<Rightarrow> progress" where
  "replay_progress expected raws =
    (let p = fold apply_event raws new_progress;
         domains = turn_ids raws
     in if domains = [] \<or> (\<exists>t \<in> set domains. \<not> gap_free expected (seq_list raws t))
        then p\<lparr>pg_incomplete := True\<rparr> else p)"

subsection \<open>The newest event of a call is shown\<close>

lemma update_entity_simps [simp]:
  "en_seq (update_entity c e t) = max (en_seq t) (te_seq e)"
  by (simp add: update_entity_def describe_def advance_def reset_call_def Let_def)

definition shown :: "entity \<Rightarrow> string option \<times> string option \<times> string option \<times> int option" where
  "shown t = (en_status t, en_reason t, en_error t, en_duration t)"

definition told :: "turn_event \<Rightarrow> string option \<times> string option \<times> string option \<times> int option" where
  "told e =
     (te_status e, Some (if te_status e = Some ''queued'' then (case te_reason e of Some r \<Rightarrow> r | None \<Rightarrow> []) else []),
      Some (case te_error e of Some x \<Rightarrow> x | None \<Rightarrow> []), Some (case te_duration e of Some x \<Rightarrow> x | None \<Rightarrow> 0))"

lemma update_entity_newer:
  "te_status e \<noteq> None \<Longrightarrow> en_seq t < te_seq e \<Longrightarrow> shown (update_entity True e t) = told e"
  by (cases "te_error e"; cases "te_duration e")
     (auto simp: shown_def told_def update_entity_def describe_def advance_def reset_call_def Let_def)

lemma update_entity_older: "te_seq e \<le> en_seq t \<Longrightarrow> shown (update_entity c e t) = shown t"
  by (simp add: shown_def update_entity_def describe_def Let_def)

definition one_call :: "turn_event \<Rightarrow> turn_event \<Rightarrow> bool" where
  "one_call e f \<longleftrightarrow> te_turn f = te_turn e \<and> te_batch f = te_batch e \<and> te_call f = te_call e"

lemma turn_of_apply:
  "turn_of (apply_event (Some f) p) t = (if event_ok f \<and> t = te_turn f then update_turn f (turn_of p t) else turn_of p t)"
  "turn_of (apply_event None p) t = turn_of p t"
  by (auto simp: turn_of_def)

lemma call_view_apply:
  assumes "te_call e \<noteq> []"
  shows "call_view (apply_event r p) (te_turn e) (te_batch e) (te_call e) =
    (case r of
       Some f \<Rightarrow> if event_ok f \<and> one_call e f
         then Some (update_entity True f (case call_view p (te_turn e) (te_batch e) (te_call e) of Some t \<Rightarrow> t | None \<Rightarrow> new_entity))
         else call_view p (te_turn e) (te_batch e) (te_call e)
     | None \<Rightarrow> call_view p (te_turn e) (te_batch e) (te_call e))"
  using assms
  by (cases r) (auto simp: call_view_def turn_of_apply update_turn_def one_call_def get_or_new_def Let_def
        simp del: apply_event.simps)

text \<open> Progress does not depend on the order in which events arrive: for every call the projection shows the status, reason, error and
  duration of the event with the highest sequence number, also when older events of the call, events of
  other calls or unusable entries come after it.\<close>

theorem progress_shows_latest:
  assumes "Some e \<in> set raws" "event_ok e" "te_call e \<noteq> []" "te_status e \<noteq> None"
    and "\<forall>f. Some f \<in> set raws \<and> event_ok f \<and> one_call e f \<longrightarrow> f = e \<or> te_seq f < te_seq e"
  shows "\<exists>t. call_view (fold apply_event raws new_progress) (te_turn e) (te_batch e) (te_call e) = Some t
     \<and> en_seq t = te_seq e \<and> shown t = told e"
proof -
  let ?v = "\<lambda>rs. call_view (fold apply_event rs new_progress) (te_turn e) (te_batch e) (te_call e)"
  have "(Some e \<in> set rs \<longrightarrow> (\<exists>t. ?v rs = Some t \<and> en_seq t = te_seq e \<and> shown t = told e))
      \<and> (Some e \<notin> set rs \<longrightarrow> (case ?v rs of Some t \<Rightarrow> en_seq t < te_seq e | None \<Rightarrow> True))"
    if "set rs \<subseteq> set raws" for rs
    using that
  proof (induction rs rule: rev_induct)
    case Nil
    then show ?case by (simp add: call_view_def turn_of_def new_progress_def new_turn_def)
  next
    case (snoc r rs)
    have IH: "Some e \<in> set rs \<Longrightarrow> \<exists>t. ?v rs = Some t \<and> en_seq t = te_seq e \<and> shown t = told e"
      "Some e \<notin> set rs \<Longrightarrow> (case ?v rs of Some t \<Rightarrow> en_seq t < te_seq e | None \<Rightarrow> True)"
      using snoc by auto
    have step: "?v (rs @ [r]) = (case r of
       Some f \<Rightarrow> if event_ok f \<and> one_call e f
         then Some (update_entity True f (case ?v rs of Some t \<Rightarrow> t | None \<Rightarrow> new_entity)) else ?v rs
     | None \<Rightarrow> ?v rs)" using call_view_apply[OF assms(3), of r "fold apply_event rs new_progress"] by simp
    have pos: "0 < te_seq e" using assms(2) by (simp add: event_ok_def)
    consider (newest) "r = Some e" | (older) f where "r = Some f" "event_ok f" "one_call e f" "te_seq f < te_seq e"
      | (other) "r \<noteq> Some e" "?v (rs @ [r]) = ?v rs"
      using assms(5) snoc.prems step by (cases r) (auto split: if_splits)
    then show ?case
    proof cases
      case newest
      let ?t = "case ?v rs of Some t \<Rightarrow> t | None \<Rightarrow> new_entity"
      have v: "?v (rs @ [r]) = Some (update_entity True e ?t)"
        using step newest assms(2) by (simp add: one_call_def)
      have "en_seq ?t \<le> te_seq e \<and> shown (update_entity True e ?t) = told e"
      proof (cases "Some e \<in> set rs")
        case True
        then show ?thesis using IH(1) by (auto simp: update_entity_older)
      next
        case False
        then have "en_seq ?t < te_seq e" using IH(2) pos by (auto simp: new_entity_def split: option.splits)
        then show ?thesis using update_entity_newer[OF assms(4)] by simp
      qed
      then show ?thesis using v newest by simp
    next
      case older
      then show ?thesis using step IH pos by (auto simp: update_entity_older new_entity_def split: option.splits)
    next
      case other
      then show ?thesis using IH by auto
    qed
  qed
  from this[of raws] assms(1) show ?thesis by simp
qed

subsection \<open>Which replays are complete\<close>

lemma incomplete_fold:
  "pg_incomplete (fold apply_event raws p) \<longleftrightarrow> pg_incomplete p \<or> (\<exists>r \<in> set raws. r = None \<or> (\<exists>e. r = Some e \<and> \<not> event_ok e))"
proof (induction raws arbitrary: p)
  case (Cons r raws)
  then show ?case by (cases r) auto
qed simp

definition seqs_of :: "turn_event option list \<Rightarrow> string \<Rightarrow> int set" where
  "seqs_of raws t = {te_seq e |e. Some e \<in> set raws \<and> te_turn e = t \<and> 0 < te_seq e}"

lemma seq_list_set: "set (seq_list raws t) = seqs_of raws t"
  by (force simp: seq_list_def seqs_of_def split: option.splits)

lemma turn_ids_iff: "t \<in> set (turn_ids raws) \<longleftrightarrow> seqs_of raws t \<noteq> {}"
  by (force simp: turn_ids_def seqs_of_def split: option.splits)

lemma gap_free_iff:
  assumes "seqs_of raws t \<noteq> {}"
  shows "gap_free expected (seq_list raws t)
    \<longleftrightarrow> seqs_of raws t = {1..(case expected of Some n \<Rightarrow> n | None \<Rightarrow> Max (seqs_of raws t))}"
proof -
  let ?S = "seqs_of raws t" and ?l = "seq_list raws t"
  let ?n = "case expected of Some n \<Rightarrow> n | None \<Rightarrow> Max ?S"
  have fin: "finite ?S" by (metis seq_list_set List.finite_set)
  have len: "length ?l = card ?S" 
    using distinct_card[of ?l] seq_list_set[of raws t] by (simp add: seq_list_def)
  have pos: "\<forall>x \<in> ?S. 1 \<le> x" by (auto simp: seqs_of_def)
  have "1 \<le> Max ?S" using pos fin assms Max_in by blast
  have "?S = {1..?n}" if g: "1 \<le> ?n" "int (card ?S) = ?n" "Max ?S = ?n"
  proof (rule card_subset_eq)
    show "?S \<subseteq> {1..?n}" using pos g(3) Max_ge[OF fin] by auto
    show "card ?S = card {1..?n}" using g by simp
  qed simp
  moreover have "1 \<le> ?n \<and> int (card ?S) = ?n \<and> Max ?S = ?n" if g: "?S = {1..?n}"
  proof -
    have "1 \<le> ?n" using assms g by (metis atLeastatMost_empty_iff)
    moreover have "int (card {1..?n}) = ?n" using calculation by simp
    moreover have "Max {1..?n} = ?n" by (rule Max_eqI) (use calculation in auto)
    ultimately show ?thesis using g by metis
  qed
  ultimately show ?thesis unfolding gap_free_def seq_list_set len by (auto simp: Let_def not_less)
qed

text \<open> A replay is reported complete exactly when there is an event, every entry of the trace is usable, and the sequence
  numbers of every turn run from one to the expected (or else the highest) number without a gap.\<close>

theorem replay_complete_iff:
  "\<not> pg_incomplete (replay_progress expected raws) \<longleftrightarrow>
     raws \<noteq> [] \<and> (\<forall>r \<in> set raws. \<exists>e. r = Some e \<and> event_ok e)
     \<and> (\<forall>t. seqs_of raws t = {}
          \<or> seqs_of raws t = {1..(case expected of Some n \<Rightarrow> n | None \<Rightarrow> Max (seqs_of raws t))})"
proof -
  have usable: "pg_incomplete (fold apply_event raws new_progress) = False \<longleftrightarrow> (\<forall>r \<in> set raws. \<exists>e. r = Some e \<and> event_ok e)"
    unfolding incomplete_fold by (auto simp: new_progress_def)
  have some: "turn_ids raws \<noteq> [] \<longleftrightarrow> raws \<noteq> []" if all: "\<forall>r \<in> set raws. \<exists>e. r = Some e \<and> event_ok e"
  proof
    assume "raws \<noteq> []"
    then obtain e where e: "Some e \<in> set raws" "event_ok e" using all by (metis list.set_intros(1) neq_Nil_conv)
    then have "te_seq e \<in> seqs_of raws (te_turn e)" by (auto simp: seqs_of_def event_ok_def)
    then show "turn_ids raws \<noteq> []" using turn_ids_iff[of "te_turn e" raws] by auto
  qed (auto simp: turn_ids_def)
  have gaps: "(\<forall>t \<in> set (turn_ids raws). gap_free expected (seq_list raws t)) \<longleftrightarrow> (\<forall>t. seqs_of raws t = {}
      \<or> seqs_of raws t = {1..(case expected of Some n \<Rightarrow> n | None \<Rightarrow> Max (seqs_of raws t))})"
    using turn_ids_iff[of _ raws] gap_free_iff[of raws _ expected] by blast
  have "\<not> pg_incomplete (replay_progress expected raws) \<longleftrightarrow> turn_ids raws \<noteq> []
      \<and> (\<forall>t \<in> set (turn_ids raws). gap_free expected (seq_list raws t)) \<and> pg_incomplete (fold apply_event raws new_progress) = False"
    by (auto simp: replay_progress_def Let_def)
  then show ?thesis unfolding gaps usable using some by blast
qed

subsection \<open>The trace of a turn\<close>

lemma emitted_facts:
  fixes turn gs
  defines "m \<equiv> fold emit gs (new_emitter turn)"
  shows "em_turn m = turn \<and> em_seq m = int (length gs) \<and> map te_seq (em_events m) = [1..int (length gs)]
    \<and> (\<forall>e \<in> set (em_events m). te_turn e = turn)
    \<and> em_projection m = fold apply_event (map Some (em_events m)) new_progress"
  unfolding m_def
proof (induction gs rule: rev_induct)
  case (snoc g gs)
  have "[1..int (length gs) + 1] = [1..int (length gs)] @ [int (length gs) + 1]"
    by (simp add: upto_rec2)
  with snoc show ?case by (auto simp: emit_def Let_def ac_simps)
qed (simp add: new_emitter_def)

lemma emitted_seqs:
  assumes "set xs \<subseteq> set (em_events (fold emit gs (new_emitter turn)))"
  shows "seqs_of (map Some xs) t = (if t = turn then te_seq ` set xs else {})"
proof -
  let ?es = "em_events (fold emit gs (new_emitter turn))"
  note facts = emitted_facts[of gs turn]
  have ok: "0 < te_seq e \<and> te_turn e = turn" if "e \<in> set xs" for e
  proof -
    have e: "e \<in> set ?es" using assms that by blast
    have "set (map te_seq ?es) = {1..int (length gs)}" using facts by (simp only: set_upto)
    moreover have "te_seq e \<in> set (map te_seq ?es)" using e by simp
    ultimately have "te_seq e \<in> {1..int (length gs)}" by (simp only:)
    moreover have "te_turn e = turn" using e facts by blast
    ultimately show ?thesis by simp
  qed
  have "seqs_of (map Some xs) t = te_seq ` {e \<in> set xs. te_turn e = t \<and> 0 < te_seq e}" by (auto simp: seqs_of_def)
  also have "{e \<in> set xs. te_turn e = t \<and> 0 < te_seq e} = (if t = turn then set xs else {})" using ok by auto
  finally show ?thesis by simp
qed

lemma set_without_nth:
  assumes "distinct ys" "i < length ys"
  shows "set (take i ys @ drop (Suc i) ys) = set ys - {ys ! i}"
proof -
  have "ys = take i ys @ ys ! i # drop (Suc i) ys" by (rule id_take_nth_drop[OF assms(2)])
  then have "distinct (take i ys @ ys ! i # drop (Suc i) ys)" "set ys = set (take i ys @ ys ! i # drop (Suc i) ys)"
    using assms(1) by (metis, metis)
  then show ?thesis by auto
qed

definition without_nth :: "nat \<Rightarrow> 'a list \<Rightarrow> 'a list" where
  "without_nth i xs = take i xs @ drop (Suc i) xs"

lemma emitted_length [simp]: "length (em_events (fold emit gs (new_emitter turn))) = length gs"
  using emitted_facts[of gs turn] by (metis length_map length_upto diff_add_cancel nat_int)

lemma seqs_without_nth:
  assumes "i < length gs"
  shows "te_seq ` set (without_nth i (em_events (fold emit gs (new_emitter turn)))) = {1..int (length gs)} - {int i + 1}"
proof -
  let ?es = "em_events (fold emit gs (new_emitter turn))"
  have seqs: "map te_seq ?es = [1..int (length gs)]" using emitted_facts by blast
  have "te_seq ` set (without_nth i ?es) = set (take i (map te_seq ?es) @ drop (Suc i) (map te_seq ?es))"
    by (simp add: without_nth_def image_Un take_map drop_map)
  also have "\<dots> = set [1..int (length gs)] - {[1..int (length gs)] ! i}"
    unfolding seqs by (rule set_without_nth) (use assms in simp_all)
  also have "\<dots> = {1..int (length gs)} - {int i + 1}" using assms nth_upto[of 1 i "int (length gs)"] by (simp add: add.commute)
  finally show ?thesis .
qed

lemma top_without:
  assumes "2 \<le> n" "1 \<le> (k::int)" "k \<le> n"
  shows "Max ({1..n} - {k}) = (if k = n then n - 1 else n)"
  by (rule Max_eqI) (use assms in auto)

text \<open>The trace of an emitter with one event left out is complete exactly when the event was the last of
  several and the replay does not know how many there were.\<close>

lemma replay_without_nth:
  assumes "turn \<noteq> []" "i < length gs" "expected \<in> {None, Some (int (length gs))}"
  shows "pg_incomplete (replay_progress expected (map Some (without_nth i (em_events (fold emit gs (new_emitter turn))))))
     \<longleftrightarrow> \<not> (expected = None \<and> Suc i = length gs \<and> 2 \<le> length gs)"
proof -
  let ?es = "em_events (fold emit gs (new_emitter turn))" and ?n = "int (length gs)" and ?k = "int i + 1"
  let ?xs = "without_nth i ?es"
  let ?top = "\<lambda>S. case expected of Some n \<Rightarrow> n | None \<Rightarrow> Max S"
  have sub: "set ?xs \<subseteq> set ?es" by (auto simp: without_nth_def dest: in_set_takeD in_set_dropD)
  have own: "seqs_of (map Some ?xs) t = (if t = turn then {1..?n} - {?k} else {})" for t
    using emitted_seqs[OF sub] seqs_without_nth[OF assms(2)] by simp
  have len: "?xs = [] \<longleftrightarrow> length gs = 1"
  proof -
    have "length ?xs = length gs - 1" using assms(2) by (simp add: without_nth_def)
    then show ?thesis using assms(2) by (cases ?xs) auto
  qed
  have usable: "\<forall>r \<in> set (map Some ?xs). \<exists>e. r = Some e \<and> event_ok e"
  proof -
    have "event_ok e" if e: "e \<in> set ?xs" for e
    proof -
      have "te_seq e \<in> {1..?n} - {?k}" using seqs_without_nth[OF assms(2), of turn] e by blast
      moreover have "te_turn e = turn" using emitted_facts[of gs turn] sub e by blast
      ultimately show ?thesis using assms(1) by (simp add: event_ok_def)
    qed
    then show ?thesis by auto
  qed
  have "\<not> pg_incomplete (replay_progress expected (map Some ?xs)) \<longleftrightarrow>
      length gs \<noteq> 1 \<and> ({1..?n} - {?k} = {} \<or> {1..?n} - {?k} = {1..?top ({1..?n} - {?k})})"
  proof -
    have "seqs_of (map Some ?xs) turn = {1..?n} - {?k}" "t \<noteq> turn \<Longrightarrow> seqs_of (map Some ?xs) t = {}" for t
      using own by simp_all
    then have "(\<forall>t. seqs_of (map Some ?xs) t = {} \<or> seqs_of (map Some ?xs) t = {1..?top (seqs_of (map Some ?xs) t)}) \<longleftrightarrow>
        {1..?n} - {?k} = {} \<or> {1..?n} - {?k} = {1..?top ({1..?n} - {?k})}" by metis
    moreover have "map Some ?xs \<noteq> [] \<longleftrightarrow> length gs \<noteq> 1" using len by simp
    ultimately show ?thesis unfolding replay_complete_iff using usable by blast
  qed
  also have "\<dots> \<longleftrightarrow> expected = None \<and> Suc i = length gs \<and> 2 \<le> length gs"
  proof (cases "length gs = 1")
    case False
    then have n: "2 \<le> ?n" "1 \<le> ?k" "?k \<le> ?n" using assms(2) by auto
    have "(if ?k = 1 then 2 else 1) \<in> {1..?n} - {?k}" using n by auto
    then have some: "{1..?n} - {?k} \<noteq> {}" by blast
    have "?k \<in> {1..?n}" using n by simp
    then have gap: "{1..?n} - {?k} \<noteq> {1..?n}" by blast
    have up_to: "{1..?n} - {?k} = {1..?n - 1}" if "?k = ?n" using that by auto
    have final: "?k = ?n \<longleftrightarrow> Suc i = length gs" by auto
    have two: "2 \<le> length gs" using n(1) by simp
    have top: "{1..?n} - {?k} = {1..Max ({1..?n} - {?k})} \<longleftrightarrow> ?k = ?n"
      unfolding top_without[OF n] using gap up_to by (cases "?k = ?n") (simp_all only: if_True if_False simp_thms)
    show ?thesis
    proof (cases expected)
      case None
      then show ?thesis using some top final two False by (simp only: option.case simp_thms)
    next
      case (Some v)
      then have "v = ?n" using assms(3) by simp
      then show ?thesis using Some some gap by (simp only: option.case option.distinct simp_thms)
    qed
  qed simp
  finally show ?thesis by blast
qed

text \<open>C34.  A turn can be shown again from its trace: replaying the events of an emitter (of a turn with an identifier
  and at least one event), with or without the sequence number of its checkpoint, gives the
  projection that was shown live, and it is complete.  When any one event is missing from the trace, the replay with that
  number is reported incomplete; the replay without it misses exactly one case, the last event of several.\<close>

theorem trace_replays_projection:
  fixes gs turn
  defines "m \<equiv> fold emit gs (new_emitter turn)"
  assumes "turn \<noteq> []" "gs \<noteq> []"
  shows "replay_progress (Some (em_seq m)) (map Some (em_events m)) = em_projection m \<and>
     replay_progress None (map Some (em_events m)) = em_projection m \<and> \<not> pg_incomplete (em_projection m)
     \<and> (\<forall>i < length (em_events m).
          pg_incomplete (replay_progress (Some (em_seq m)) (map Some (take i (em_events m) @ drop (Suc i) (em_events m)))) \<and>
          (pg_incomplete (replay_progress None (map Some (take i (em_events m) @ drop (Suc i) (em_events m)))) \<longleftrightarrow>
             Suc i < length (em_events m) \<or> length (em_events m) = 1))"
proof -
  let ?es = "em_events m"
  note facts = emitted_facts[of gs turn, folded m_def]
  have seqs: "te_seq ` set ?es = {1..em_seq m}" using facts by (metis set_map set_upto)
  have usable: "\<exists>e'. Some e = Some e' \<and> event_ok e'" if "e \<in> set ?es" for e
    using that facts seqs assms(2) by (auto simp: event_ok_def)
  have n: "1 \<le> em_seq m" using facts assms(3) by (cases gs) auto
  have len: "length ?es = length gs" by (simp add: m_def)
  have top: "Max {1..em_seq m} = em_seq m" by (rule Max_eqI) (use n in auto)
  have of: "seqs_of (map Some ?es) t = (if t = turn then {1..em_seq m} else {})" for t
    using emitted_seqs[OF subset_refl, of gs turn t] seqs by (simp add: m_def)
  have full: "\<not> pg_incomplete (replay_progress expected (map Some ?es))" if "expected \<in> {None, Some (em_seq m)}" for expected
    unfolding replay_complete_iff using usable that of top len assms(3) by auto
  have same: "replay_progress expected (map Some ?es) = em_projection m" if "expected \<in> {None, Some (em_seq m)}" for expected
    using facts full[OF that] by (auto simp: replay_progress_def Let_def split: if_splits)
  have number: "em_seq m = int (length gs)" using facts by blast
  show ?thesis
    using same[of None] same[of "Some (em_seq m)"] full[of None] len number
      replay_without_nth[OF assms(2), of _ gs, folded m_def, unfolded without_nth_def]
    by (auto simp: number)
qed

definition sample_event :: "int \<Rightarrow> string \<Rightarrow> string \<Rightarrow> turn_event" where
  "sample_event seq call status =
     \<lparr>te_turn = ''t'', te_seq = seq, te_kind = ''tool_call'', te_batch = ''b'', te_call = call, te_phase = None,
      te_status = Some status, te_tool = None, te_ordinal = None, te_error = None, te_duration = None, te_reason = None\<rparr>"

lemma progress_shows_latest_witness:
  "\<exists>t. call_view (fold apply_event [Some (sample_event 2 ''c'' ''succeeded''), None, Some (sample_event 1 ''c'' ''running'')] new_progress)
     ''t'' ''b'' ''c'' = Some t \<and> en_seq t = 2 \<and> en_status t = Some ''succeeded''"
proof -
  let ?e = "sample_event 2 ''c'' ''succeeded''"
  let ?raws = "[Some ?e, None, Some (sample_event 1 ''c'' ''running'')]"
  have "\<exists>t. call_view (fold apply_event ?raws new_progress) (te_turn ?e) (te_batch ?e) (te_call ?e) = Some t
     \<and> en_seq t = te_seq ?e \<and> shown t = told ?e"
    by (rule progress_shows_latest) (auto simp: sample_event_def event_ok_def)
  then show ?thesis
    by (simp add: shown_def told_def sample_event_def del: fold.simps apply_event.simps) blast
qed

lemma trace_replays_projection_witness:
  "let m = fold emit [sample_event 0 ''c'' ''running'', sample_event 0 ''c'' ''succeeded''] (new_emitter ''t'')
   in replay_progress (Some (em_seq m)) (map Some (em_events m)) = em_projection m"
  using trace_replays_projection[of "''t''" "[sample_event 0 ''c'' ''running'', sample_event 0 ''c'' ''succeeded'']"]
  by (simp add: Let_def)

lemma replay_complete_iff_witness:
  "pg_incomplete (replay_progress None [Some (sample_event 1 ''c'' ''running''), Some (sample_event 3 ''c'' ''succeeded'')])"
proof -
  let ?raws = "[Some (sample_event 1 ''c'' ''running''), Some (sample_event 3 ''c'' ''succeeded'')]"
  have "seqs_of ?raws ''t'' = {1, 3}"
    unfolding seq_list_set[symmetric] by (simp add: seq_list_def sample_event_def)
  moreover have "{1, 3} \<noteq> {1..Max {1, 3 :: int}}"
  proof
    assume "{1, 3} = {1..Max {1, 3 :: int}}"
    then have "(2::int) \<in> {1, 3}" by simp
    then show False by simp
  qed
  moreover have "{1, 3 :: int} \<noteq> {}" by simp
  ultimately show ?thesis using replay_complete_iff[of None ?raws] by (metis (no_types, lifting) option.case(1))
qed

end
