(* ===== verification/Spec2Isabelle.thy ===== *)
theory Spec2Isabelle
  imports Prelude Contracts RepairState RepairPhases RuntimePhases PatchText PatchApply PatchParse
    PatchOps PatchEnvelope Graphs ToolDag PlanModel PlanReducer PlanReplan CollabTasks CollabBudget
    CollabStore CollabEffects CollabScheduler RunStore RunRegistry RunCoordinator HistoryItems HistorySummary
    Compression CompressionFit Json PlanConstraints PlanLongTask PlanJournal PlanHistory PlanEvidence PlanDecisions
    RunBudget StepGuard ModelDispatch RepairProgress RepairOutcome SensitivePaths EditLock CriticReview PatchFaithful RepairGraph ToolQuota ToolResilience ActionLedger ToolStep
    ContextSelect ObservationStore TurnProgress
begin

text \<open>
  FixLoop runs language-model agents that repair code. This library models the parts of it that
  decide, record and transform: what state a repair, a plan, a run, a tool call or a history
  may reach, which actions are allowed in it, and what the operations do to it. The parts that
  talk to the outside (model providers, processes, sandboxes, terminal and web front ends) are
  arguments of the definitions or left out, as listed at the end. Paths are relative to the
  repository: agent_runtime/ is the runtime of an agent, src/ the repair application on top of it.

  HOW THE PARTS INTERACT. A repair is the graph of stages of RepairGraph: prepare, attempt, patch, review,
  verify, and again after a failure until the patch is verified or the retries are used up. The
  state it works on is RepairState, its phases are audited by RepairPhases, what it learns from failures is
  RepairProgress, and how it ends is RepairOutcome. The patcher may write only what the edit lock
  admits (EditLock, SensitivePaths), its patches are applied by the patch engine (PatchText to
  PatchEnvelope); what it changed is read off the disk and files outside the allowed set are taken
  back (PatchFaithful); the patches left are reviewed by the critic (CriticReview). Inside an attempt an agent runs through the
  phases of RuntimePhases; every model call is charged (RunBudget) and dispatched past a circuit
  breaker (ModelDispatch); every tool call passes the gates of ToolStep, the quota of ToolQuota
  and the limits of ToolResilience, is recorded in the ActionLedger and its output is kept in the
  ObservationStore; several calls of one turn go through the call graph executor (ToolDag) or run as
  a batch whose progress is shown by TurnProgress; a run without progress is stopped by
  StepGuard. Before a model call the history is compressed to fit the context window
  (HistoryItems to CompressionFit) and pieces of context are selected under a budget
  (ContextSelect). A long task is a plan of nodes (PlanModel) updated by the reducer (PlanReducer), replaced
  by a replanner (PlanReplan) and recorded in a journal with its constraints, evidence and
  decisions (PlanConstraints to PlanDecisions). Several agents share work through the collaboration store
  (CollabTasks to CollabScheduler). Each process registers its runs and claims its workspace
  in the run registry (RunStore, RunRegistry), and an operator supervises, cancels and takes over runs
  through RunCoordinator.

  THEORIES AND SOURCES.
  \<^item> Prelude: the exceptions of the sources as the datatype exn, results as exn + 'a, the
    error monad and statements over an object, loops over lists that may stop with an error,
    association lists as insertion ordered dictionaries, and the list lemmas every component uses.
    Contracts: the locales for shared interfaces: invariant_machine and guarded_machine (phases along
    declared edges, with and without an invariant; interpreted for repair and runtime phases, plan
    nodes, stored tasks, receipts and registered runs), capped_ledger (interpreted for the run budget, the
    role budget and the grants of the edit lock), receipt_store (the durable store of the effect ledger). The
    locale squeezing of Compression is the loop three compression stages share.
  \<^item> RepairState, RepairPhases, RepairProgress, RepairOutcome, CriticReview, PatchFaithful, RepairGraph: src/state.py and below
    src/repair: control_state.py, phase_fsm.py, failure_ledger.py, stop_loss.py, critic.py, attempt_policy.py,
    graph.py, graph_stages.py, patcher_service.py, failure_tags.py, path_resolve.py, execution/, verification/. Stages are one datatype, a stage is a function of the
    state and of what the agents, the verifier and the file system answer in it. Shown: the loop ends
    within the recursion limit, a success is verified, a fixed repair has reviewed patches, no
    rejected or failed patch is carried into the next attempt, what a run without patches may leave behind, stages follow the declared routes, the phase history is an audit.
  \<^item> SensitivePaths, EditLock: agent_runtime/sensitive_paths.py, the relative_path of
    agent_runtime/linux_sandbox/workspace_contract.py, src/repair/execution/edit_lock.py. Shown: which paths are protected,
    and that a write is accepted exactly after a read since the last grant.
  \<^item> RuntimePhases: agent_runtime/runtime_contracts.py. Shown: every run can be finalised in a terminal phase.
  \<^item> PatchText, PatchApply, PatchParse, PatchOps, PatchEnvelope: agent_runtime/patch_engine.py and
    agent_runtime/apply_patch_format.py. Texts are strings, a hunk is a record of its lines and header numbers, and
    every refusal is an Inl. Shown: applying a diff splices exactly the named lines, a
    parsed diff is well formed, printing and parsing are inverse, a flipped diff undoes it.
  \<^item> Graphs, ToolDag: cycle checks and agent_runtime/tool_dag.py. Shown: every call gets exactly one
    result, dependants of a failed call are blocked and not executed.
  \<^item> ToolQuota, ToolResilience, ActionLedger, ToolStep, TurnProgress: agent_runtime/tool_budget.py, the QuotaEnforcer of
    tool_executor.py, tool_resilience.py, the action records of context_runtime.py, tool_result.py, tool_step_runtime.py,
    the RepairBudget of repair_runtime.py, turn_progress.py. A step is cut at the point where the tool runs, so that
    batches are interleavings of its two halves. Shown: quotas, limits and rates are never exceeded
    also with calls in progress, an effect is repeated under its key within a hundred serial steps only when it was not confirmed,
    progress is independent of the order of events and complete exactly without gaps. The recovery decision of
    ActionLedger is modelled, but the program does not call it.
  \<^item> ObservationStore, ContextSelect: the other classes of agent_runtime/context_runtime.py. Shown: what is stored is read back (on disk without carriage returns),
    invalidation is exact, the context gets only sound text, garbage collection keeps the rest readable, a
    selection fits its budget and leaves nothing out that would fit.
  \<^item> RunBudget, StepGuard, ModelDispatch: agent_runtime/budget_manager.py, model_call_budget.py, step_guard.py, cancellation.py,
    providers/circuit_breaker.py, providers/retry_policy.py. Shown: charges happen once and within the limits, when a
    stall is found, when the breaker opens and shields the provider, that no callback of a cancellation is missed.
  \<^item> Json, PlanModel, PlanReducer, PlanReplan, PlanConstraints, PlanLongTask, PlanJournal, PlanHistory, PlanEvidence, PlanDecisions:
    agent_runtime/plan_runtime: models.py, validate.py, reducer.py, replan.py, constraint_records.py, long_task.py, journal.py,
    evidence.py, decisions.py. Durable records are JSON dictionaries, digests are an argument (only that equal contents
    have equal digests is used). Shown: what a validated plan is, that the refresh loop returns a settled
    plan, that replanning keeps the work done, that constraint revisions refine an ordered dictionary, that the journal is
    a chain of facts from which plans reload, that evidence is valid exactly when it has a well-founded support.
  \<^item> CollabTasks, CollabBudget, CollabStore, CollabEffects, CollabScheduler: src/collaboration. The SQLite tables are
    association lists with row versions, one call is one transaction. Shown: a lease excludes other workers, an
    effect is executed once and its committed result is final, the scheduler records the outcome of a task.
  \<^item> RunStore, RunRegistry, RunCoordinator: agent_runtime/run_coordination. The registry is one record of tables; each
    method is a transaction. Shown: its invariant over all sequences of operations, the
    fencing of superseded owners, what a confirmed cancel means, that reconciling opens only settled work.
  \<^item> HistoryItems, HistorySummary, Compression, CompressionFit: agent_runtime/history_summary.py, compression_pipeline.py,
    turn_tracking.py, tier_policy.py, repair_context.py. Token counting, the JSON codec, the digest and the policy are
    fields of the record henv. Shown: a history groups exactly when its calls and results pair up, every stage
    keeps whole groups, the projection returned is paired and fits the window but for a restored state record.

  BOUNDS AND FUEL. Python integers are int, indices and lengths nat; no machine arithmetic is used
  by the modelled code. Floating-point scores, costs and times are real numbers given as arguments (one
  clock reading per call). Loops over lists are structural recursion. The plan refresh is a partial
  function with a theorem that it returns; the call graph executor terminates by the calls still pending, the inspection of
  evidence by the records not yet visited; cycle checks run for the number of nodes, the squeeze loop for the number of
  turns it may replace, each at most once; the repair graph takes the list of its inputs as fuel, and seven inputs
  for each remaining retry and three more are proved to be enough.

  READING THE PROPERTIES. The properties claimed of the code stand in the theories under the names C1 to
  C40, in the order of their importance; those with hypotheses are followed by a witness that applies them to a
  concrete state. The other theorems are the library they rest on, and further properties. Lemmas that show
  unexpected behaviour of the code on an example are named after it.

  NOT MODELLED. Input and output: the command line, the workbench, the providers' HTTP clients, the MCP
  transports, sandbox backends (Docker, WSL, Linux namespaces), web pages and exporters; they
  are glue to services whose behaviour is not in this repository. The prompt assembly of the context
  manager, the tool bodies, the approval gates of the tool executor and the agent loop around them call the parts
  modelled here with data from those services. The plan session, its binding to a repair and the repair services
  orchestrate the modelled components. Intent routing, code exploration, localization and the memory features rank text
  with regular expressions, embeddings and scores whose meaning is heuristic. Sessions and checkpoints of
  an agent are copies of fields to JSON files. SQLite, JSON, hashing and threads are the platform: a transaction is one
  step, a codec and a digest are arguments. Benchmarks, evaluation scripts and tests use the program and are not part of it.
\<close>

text \<open>Two components disagree on what a test file is: the edit lock admits a repair to write
  \<open>pkg/test_util.py\<close>, the critic treats the same path as a test and rejects the patch.\<close>

lemma test_files_of_lock_and_critic_differ:
  "\<not> is_test_path ''pkg/test_util.py'' \<and> editable_source ''pkg/test_util.py'' \<and> critic_test_path ''pkg/test_util.py''"
  by code_simp

end
